(* ===== verification/Ck_Prelude.thy ===== *)
theory Ck_Prelude
  imports Main "HOL-Library.Word" "HOL-Library.Monad_Syntax" "HOL-Library.Multiset"
begin

text \<open>
  Shared vocabulary of the ChakraDB development: the machine-integer types, the
  three-way comparison result of the Rust standard library, and the models of the
  standard-library containers the engine relies on (stable \<open>sort_by\<close>, \<open>BTreeMap\<close> as an
  ordered association list, \<open>slice::binary_search_by_key\<close>).  The locale \<open>cmp_order\<close> states what a
  comparison function has to satisfy on the keys of one column for these containers to
  behave; everything the storage tiers need of sorting and of ordered maps is proved once
  inside it.

  Conventions used in every theory: a panic is \<^const>\<open>None\<close> of an \<open>option\<close>, a Rust
  \<open>Result\<close> is a sum whose left injection is the error, \<open>usize\<close> is \<^typ>\<open>nat\<close>, and the
  fixed-width integers are words of their width (arithmetic wraps, as in a release build).
\<close>

section \<open>Machine integers\<close>

type_synonym u8 = "8 word"
type_synonym u32 = "32 word"
type_synonym u64 = "64 word"
type_synonym i64 = "64 word"
type_synonym i128 = "128 word"

text \<open>A commit sequence number is an unsigned 64-bit integer.\<close>

type_synonym csn = u64

text \<open>Lemmas that unfold the wrapper functions of a component.\<close>

named_theorems ck_defs

text \<open>Equations for the panicking operations under their preconditions.\<close>

named_theorems ck_ok

text \<open>Steps of one on unsigned words away from the wrap-around.\<close>

lemma less_iff_le_pred:
  assumes "0 < (n :: 'a::len word)" shows "c < n \<longleftrightarrow> c \<le> n - 1"
proof -
  have "unat (n - 1) = unat n - 1" "0 < unat n"
    using assms by (auto simp: unat_minus_one word_gt_0 unat_gt_0)
  then show ?thesis unfolding word_less_nat_alt word_le_nat_alt by arith
qed

lemma unat_plus_one_word: "w \<noteq> - 1 \<Longrightarrow> unat (w + 1) = Suc (unat (w :: 'a::len word))"
  using unatSuc [of w] by (metis add.commute add_eq_0_iff)

lemma less_plus_one_word: "w \<noteq> - 1 \<Longrightarrow> (w :: 'a::len word) < w + 1"
  by (simp add: word_less_nat_alt unat_plus_one_word)

section \<open>Three-way comparison\<close>

datatype ordering = Less | Equal | Greater

definition cmp_of :: "'a::linorder \<Rightarrow> 'a \<Rightarrow> ordering" where
  "cmp_of a b = (if a < b then Less else if a = b then Equal else Greater)"

text \<open>\<open>Ordering::then\<close>.\<close>

definition then_cmp :: "ordering \<Rightarrow> ordering \<Rightarrow> ordering" where
  "then_cmp o1 o2 = (if o1 = Equal then o2 else o1)"

text \<open>Lexicographic comparison of slices and strings.\<close>

fun cmp_list :: "('a \<Rightarrow> 'a \<Rightarrow> ordering) \<Rightarrow> 'a list \<Rightarrow> 'a list \<Rightarrow> ordering" where
  "cmp_list c [] [] = Equal"
| "cmp_list c [] (y # ys) = Less"
| "cmp_list c (x # xs) [] = Greater"
| "cmp_list c (x # xs) (y # ys) = then_cmp (c x y) (cmp_list c xs ys)"

lemma cmp_of_simps [simp]:
  "cmp_of a b = Less \<longleftrightarrow> a < b"
  "cmp_of a b = Equal \<longleftrightarrow> a = b"
  "cmp_of a b = Greater \<longleftrightarrow> b < a"
  by (auto simp: cmp_of_def)

lemma then_cmp_simps [simp]:
  "then_cmp Equal o2 = o2" "then_cmp Less o2 = Less" "then_cmp Greater o2 = Greater"
  by (simp_all add: then_cmp_def)

lemma then_cmp_Equal [simp]: "then_cmp o1 o2 = Equal \<longleftrightarrow> o1 = Equal \<and> o2 = Equal"
  by (simp add: then_cmp_def)

lemma then_cmp_Less: "then_cmp o1 o2 = Less \<longleftrightarrow> o1 = Less \<or> o1 = Equal \<and> o2 = Less"
  by (auto simp: then_cmp_def)

lemma then_cmp_Greater: "then_cmp o1 o2 = Greater \<longleftrightarrow> o1 = Greater \<or> o1 = Equal \<and> o2 = Greater"
  by (auto simp: then_cmp_def)

section \<open>Iterators that may panic\<close>

text \<open>Mapping a panicking function over a slice, and the short-circuiting \<open>Iterator::all\<close>.\<close>

fun traverse :: "('a \<Rightarrow> 'b option) \<Rightarrow> 'a list \<Rightarrow> 'b list option" where
  "traverse f [] = Some []"
| "traverse f (x # xs) = do { y \<leftarrow> f x; ys \<leftarrow> traverse f xs; Some (y # ys) }"

fun all_opt :: "('a \<Rightarrow> bool option) \<Rightarrow> 'a list \<Rightarrow> bool option" where
  "all_opt f [] = Some True"
| "all_opt f (x # xs) = do { b \<leftarrow> f x; if b then all_opt f xs else Some False }"

definition nth_opt :: "'a list \<Rightarrow> nat \<Rightarrow> 'a option" where
  "nth_opt xs i = (if i < length xs then Some (xs ! i) else None)"

lemma nth_opt_ok [simp]: "i < length xs \<Longrightarrow> nth_opt xs i = Some (xs ! i)"
  by (simp add: nth_opt_def)

lemma traverse_Some: "(\<And>x. x \<in> set xs \<Longrightarrow> f x = Some (g x)) \<Longrightarrow> traverse f xs = Some (map g xs)"
  by (induction xs) auto

lemma traverse_cong [fundef_cong]:
  "xs = ys \<Longrightarrow> (\<And>x. x \<in> set ys \<Longrightarrow> f x = g x) \<Longrightarrow> traverse f xs = traverse g ys"
  by (induction xs arbitrary: ys) auto

lemma traverse_eq_Some:
  "traverse f xs = Some ys \<longleftrightarrow> length ys = length xs \<and> (\<forall>i < length xs. f (xs ! i) = Some (ys ! i))"
proof (induction xs arbitrary: ys)
  case (Cons x xs)
  then show ?case
    by (cases ys) (auto simp: Option.bind_eq_Some_conv less_Suc_eq_0_disj)
qed auto

lemma all_opt_Some: "(\<And>x. x \<in> set xs \<Longrightarrow> f x = Some (g x)) \<Longrightarrow> all_opt f xs = Some (list_all g xs)"
  by (induction xs) auto

section \<open>Stable sorting\<close>

text \<open>
  \<open>slice::sort_by\<close> is a stable sort.  The model is stable insertion sort: an element is
  placed before the first element that is strictly greater than it when the list is
  consumed from the right.
\<close>

fun insort_by :: "('a \<Rightarrow> 'a \<Rightarrow> ordering) \<Rightarrow> 'a \<Rightarrow> 'a list \<Rightarrow> 'a list" where
  "insort_by c x [] = [x]"
| "insort_by c x (y # ys) = (if c x y \<noteq> Greater then x # y # ys else y # insort_by c x ys)"

fun sort_by :: "('a \<Rightarrow> 'a \<Rightarrow> ordering) \<Rightarrow> 'a list \<Rightarrow> 'a list" where
  "sort_by c [] = []"
| "sort_by c (x # xs) = insort_by c x (sort_by c xs)"

lemma mset_insort_by [simp]: "mset (insort_by c x xs) = add_mset x (mset xs)"
  by (induction xs) auto

lemma mset_sort_by [simp]: "mset (sort_by c xs) = mset xs"
  by (induction xs) auto

lemma set_sort_by [simp]: "set (sort_by c xs) = set xs"
  by (metis mset_sort_by set_mset_mset)

lemma length_sort_by [simp]: "length (sort_by c xs) = length xs"
  by (metis mset_sort_by size_mset)

lemma sort_by_eq_Nil [simp]: "sort_by c xs = [] \<longleftrightarrow> xs = []"
  by (metis length_sort_by length_0_conv)

lemma set_insort_by [simp]: "set (insort_by c x xs) = insert x (set xs)"
  by (metis mset_insort_by set_mset_add_mset_insert set_mset_mset)

section \<open>Ordered maps\<close>

text \<open>
  A \<open>BTreeMap\<close> is an association list kept in key order; \<open>insert\<close> on a key that is present
  keeps the stored key and replaces the value.
\<close>

type_synonym ('k, 'v) btree = "('k \<times> 'v) list"

fun bt_get :: "('k \<Rightarrow> 'k \<Rightarrow> ordering) \<Rightarrow> 'k \<Rightarrow> ('k, 'v) btree \<Rightarrow> 'v option" where
  "bt_get c k [] = None"
| "bt_get c k ((k', v) # m) =
     (case c k k' of Less \<Rightarrow> None | Equal \<Rightarrow> Some v | Greater \<Rightarrow> bt_get c k m)"

fun bt_insert :: "('k \<Rightarrow> 'k \<Rightarrow> ordering) \<Rightarrow> 'k \<Rightarrow> 'v \<Rightarrow> ('k, 'v) btree \<Rightarrow> ('k, 'v) btree" where
  "bt_insert c k v [] = [(k, v)]"
| "bt_insert c k v ((k', v') # m) =
     (case c k k' of
        Less \<Rightarrow> (k, v) # (k', v') # m
      | Equal \<Rightarrow> (k', v) # m
      | Greater \<Rightarrow> (k', v') # bt_insert c k v m)"

fun bt_remove :: "('k \<Rightarrow> 'k \<Rightarrow> ordering) \<Rightarrow> 'k \<Rightarrow> ('k, 'v) btree \<Rightarrow> ('k, 'v) btree" where
  "bt_remove c k [] = []"
| "bt_remove c k ((k', v') # m) =
     (case c k k' of
        Less \<Rightarrow> (k', v') # m
      | Equal \<Rightarrow> m
      | Greater \<Rightarrow> (k', v') # bt_remove c k m)"

section \<open>The comparison contract\<close>

text \<open>
  The contract between the ordered structures and the key type: on the carrier \<open>K\<close> (the
  values one key column can hold) the comparison is a linear order whose \<open>Equal\<close> is
  equality.
\<close>

locale cmp_order =
  fixes cmp :: "'k \<Rightarrow> 'k \<Rightarrow> ordering"
    and K :: "'k set"
  assumes cmp_Equal: "a \<in> K \<Longrightarrow> b \<in> K \<Longrightarrow> cmp a b = Equal \<longleftrightarrow> a = b"
    and cmp_swap: "a \<in> K \<Longrightarrow> b \<in> K \<Longrightarrow> cmp a b = Less \<longleftrightarrow> cmp b a = Greater"
    and cmp_trans: "a \<in> K \<Longrightarrow> b \<in> K \<Longrightarrow> c \<in> K \<Longrightarrow> cmp a b = Less \<Longrightarrow> cmp b c = Less \<Longrightarrow> cmp a c = Less"
begin

definition le :: "'k \<Rightarrow> 'k \<Rightarrow> bool" where
  "le a b \<longleftrightarrow> cmp a b \<noteq> Greater"

definition lt :: "'k \<Rightarrow> 'k \<Rightarrow> bool" where
  "lt a b \<longleftrightarrow> cmp a b = Less"

lemma le_iff: "a \<in> K \<Longrightarrow> b \<in> K \<Longrightarrow> le a b \<longleftrightarrow> lt a b \<or> a = b"
  using cmp_Equal [of a b] by (cases "cmp a b") (simp_all add: le_def lt_def)

lemma le_refl: "a \<in> K \<Longrightarrow> le a a"
  by (simp add: le_iff)

lemma le_trans: "a \<in> K \<Longrightarrow> b \<in> K \<Longrightarrow> c \<in> K \<Longrightarrow> le a b \<Longrightarrow> le b c \<Longrightarrow> le a c"
  using cmp_trans [of a b c] le_iff [of a b] le_iff [of b c] le_iff [of a c]
  unfolding lt_def by blast

lemma lt_irrefl: "a \<in> K \<Longrightarrow> \<not> lt a a"
  by (metis cmp_Equal lt_def ordering.distinct(1))

lemma not_le: "a \<in> K \<Longrightarrow> b \<in> K \<Longrightarrow> \<not> le a b \<longleftrightarrow> lt b a"
  by (simp add: le_def lt_def cmp_swap)

lemma le_antisym: "a \<in> K \<Longrightarrow> b \<in> K \<Longrightarrow> le a b \<Longrightarrow> le b a \<Longrightarrow> a = b"
  using le_iff not_le by blast

lemma le_linear: "a \<in> K \<Longrightarrow> b \<in> K \<Longrightarrow> le a b \<or> le b a"
  using le_iff not_le by blast

lemma lt_le_trans: "a \<in> K \<Longrightarrow> b \<in> K \<Longrightarrow> c \<in> K \<Longrightarrow> lt a b \<Longrightarrow> le b c \<Longrightarrow> lt a c"
  by (metis le_trans not_le)

lemma le_lt_trans: "a \<in> K \<Longrightarrow> b \<in> K \<Longrightarrow> c \<in> K \<Longrightarrow> le a b \<Longrightarrow> lt b c \<Longrightarrow> lt a c"
  by (metis le_trans not_le)

lemma cmp_refl [simp]: "a \<in> K \<Longrightarrow> cmp a a = Equal"
  by (simp add: cmp_Equal)

text \<open>Ordered maps: lookup after update.\<close>

definition bt_ok :: "('k, 'v) btree \<Rightarrow> bool" where
  "bt_ok m \<longleftrightarrow> fst ` set m \<subseteq> K \<and> sorted_wrt lt (map fst m)"

lemma bt_ok_Nil [simp]: "bt_ok []"
  by (simp add: bt_ok_def)

lemma bt_ok_Cons: "bt_ok (p # m) \<longleftrightarrow> fst p \<in> K \<and> (\<forall>q \<in> set m. lt (fst p) (fst q)) \<and> bt_ok m"
  by (auto simp: bt_ok_def)

lemma bt_get_map_of: "bt_ok m \<Longrightarrow> k \<in> K \<Longrightarrow> bt_get cmp k m = map_of m k"
proof (induction m)
  case (Cons p m)
  obtain k' v' where p: "p = (k', v')" by force
  from Cons.prems have k': "k' \<in> K" and less: "\<forall>q \<in> set m. lt k' (fst q)" and ok: "bt_ok m"
    by (auto simp: bt_ok_Cons p)
  show ?case
  proof (cases "cmp k k'")
    case Less
    then have "lt k k'" by (simp add: lt_def)
    then have "k \<notin> fst ` set m \<and> k \<noteq> k'"
      using less ok k' Cons.prems(2)
      by (metis (no_types, lifting) bt_ok_def cmp_trans image_iff lt_def lt_irrefl subset_iff)
    then have "map_of m k = None \<and> k \<noteq> k'" by (simp add: map_of_eq_None_iff)
    then show ?thesis using Less by (simp add: p)
  qed (use Cons ok k' in \<open>auto simp: p cmp_Equal\<close>)
qed simp

lemma set_bt_insert:
  "bt_ok m \<Longrightarrow> k \<in> K \<Longrightarrow> fst ` set (bt_insert cmp k v m) = insert k (fst ` set m)"
proof (induction m)
  case (Cons p m)
  then show ?case
    by (cases p; cases "cmp k (fst p)") (auto simp: bt_ok_Cons cmp_Equal insert_commute)
qed simp

lemma bt_ok_insert: "bt_ok m \<Longrightarrow> k \<in> K \<Longrightarrow> bt_ok (bt_insert cmp k v m)"
proof (induction m)
  case (Cons p m)
  obtain k' v' where p: "p = (k', v')" by force
  from Cons.prems have k': "k' \<in> K" and less: "\<forall>q \<in> set m. lt k' (fst q)" and ok: "bt_ok m"
    by (auto simp: bt_ok_Cons p)
  have sub: "fst ` set m \<subseteq> K" using ok by (simp add: bt_ok_def)
  show ?case
  proof (cases "cmp k k'")
    case Less
    then have "lt k k'" by (simp add: lt_def)
    then have "\<forall>q \<in> set m. lt k (fst q)"
      using less sub k' Cons.prems(2) by (metis cmp_trans image_subset_iff lt_def)
    then show ?thesis using Less Cons.prems \<open>lt k k'\<close> by (auto simp: p bt_ok_Cons)
  next
    case Equal
    then show ?thesis using Cons.prems less ok k' by (simp add: p bt_ok_Cons)
  next
    case Greater
    then have "lt k' k" using k' Cons.prems(2) by (simp add: lt_def cmp_swap)
    have "\<forall>q \<in> fst ` set (bt_insert cmp k v m). lt k' q"
      using set_bt_insert [OF ok Cons.prems(2), of v] less \<open>lt k' k\<close> by auto
    then show ?thesis using Cons.IH [OF ok Cons.prems(2)] Greater k' by (simp add: p bt_ok_Cons)
  qed
qed (simp add: bt_ok_Cons)

lemma map_of_bt_insert:
  "bt_ok m \<Longrightarrow> k \<in> K \<Longrightarrow> map_of (bt_insert cmp k v m) = (map_of m)(k \<mapsto> v)"
proof (induction m)
  case (Cons p m)
  then show ?case
    by (cases p; cases "cmp k (fst p)") (auto simp: bt_ok_Cons cmp_Equal fun_eq_iff)
qed simp

lemma bt_get_insert:
  "bt_ok m \<Longrightarrow> k \<in> K \<Longrightarrow> k' \<in> K \<Longrightarrow>
     bt_get cmp k' (bt_insert cmp k v m) = (if k' = k then Some v else bt_get cmp k' m)"
  by (simp add: bt_get_map_of bt_ok_insert map_of_bt_insert)

lemma set_bt_remove:
  "bt_ok m \<Longrightarrow> k \<in> K \<Longrightarrow> set (bt_remove cmp k m) = {p \<in> set m. fst p \<noteq> k}"
proof (induction m)
  case (Cons p m)
  obtain k' v' where p: "p = (k', v')" by force
  from Cons.prems have k': "k' \<in> K" and less: "\<forall>q \<in> set m. lt k' (fst q)" and ok: "bt_ok m"
    by (auto simp: bt_ok_Cons p)
  have sub: "\<forall>q \<in> set m. fst q \<in> K" using ok by (auto simp: bt_ok_def)
  show ?case
  proof (cases "cmp k k'")
    case Less
    then have kk: "lt k k'" by (simp add: lt_def)
    have "lt k (fst q)" if "q \<in> set m" for q
      using le_lt_trans [of k k' "fst q"] kk less sub k' Cons.prems(2) that by (auto simp: le_iff)
    then have "\<forall>q \<in> set m. fst q \<noteq> k" "k' \<noteq> k"
      using kk lt_irrefl [OF Cons.prems(2)] by auto
    then show ?thesis using Less by (auto simp: p)
  next
    case Equal
    then have "k = k'" using k' Cons.prems(2) by (simp add: cmp_Equal)
    then have "\<forall>q \<in> set m. fst q \<noteq> k" using less sub k' lt_irrefl by metis
    then show ?thesis using Equal \<open>k = k'\<close> by (auto simp: p)
  next
    case Greater
    then have ne: "k' \<noteq> k" using k' by auto
    have "set (bt_remove cmp k (p # m)) = insert p (set (bt_remove cmp k m))"
      using Greater by (simp add: p)
    also have "\<dots> = insert p {q \<in> set m. fst q \<noteq> k}" by (simp only: Cons.IH [OF ok Cons.prems(2)])
    also have "\<dots> = {q \<in> set (p # m). fst q \<noteq> k}" using ne by (auto simp: p)
    finally show ?thesis .
  qed
qed simp

lemma bt_ok_remove: "bt_ok m \<Longrightarrow> k \<in> K \<Longrightarrow> bt_ok (bt_remove cmp k m)"
proof (induction m)
  case (Cons p m)
  then show ?case
    using set_bt_remove [of m k]
    by (cases p; cases "cmp k (fst p)") (auto simp: bt_ok_Cons)
qed simp

lemma bt_get_remove:
  assumes "bt_ok m" "k \<in> K" "k' \<in> K"
  shows "bt_get cmp k' (bt_remove cmp k m) = (if k' = k then None else bt_get cmp k' m)"
proof -
  have d: "distinct (map fst x)" if "bt_ok x" for x :: "('k, 'b) btree"
    using that
  proof (induction x)
    case (Cons p x)
    then show ?case using lt_irrefl by (auto simp: bt_ok_Cons)
  qed simp
  have "map_of (bt_remove cmp k m) k' = Some v \<longleftrightarrow> k' \<noteq> k \<and> map_of m k' = Some v" for v
    using assms d [OF assms(1)] d [OF bt_ok_remove [OF assms(1,2)]] set_bt_remove [OF assms(1,2)]
    by auto
  then show ?thesis
    using assms by (cases "k' = k"; cases "map_of m k'") (auto simp: bt_get_map_of bt_ok_remove)
qed

text \<open>Sorting: neighbours in order make a sorted list, and the output of a sort is ordered.\<close>

lemma sorted_wrt_adjacent:
  "set xs \<subseteq> K \<Longrightarrow> (\<And>i. Suc i < length xs \<Longrightarrow> le (xs ! i) (xs ! Suc i)) \<Longrightarrow> sorted_wrt le xs"
proof (induction xs)
  case (Cons x xs)
  have srt: "sorted_wrt le xs" using Cons.prems by (intro Cons.IH) force+
  have "le x y" if y: "y \<in> set xs" for y
  proof -
    obtain z zs where xs: "xs = z # zs" using y by (cases xs) auto
    have "le x z" using Cons.prems(2) [of 0] by (simp add: xs)
    moreover have "y = z \<or> le z y" using srt y by (auto simp: xs)
    ultimately show ?thesis using le_trans [of x z y] Cons.prems(1) y by (auto simp: xs)
  qed
  then show ?case using srt by simp
qed simp

lemma sorted_insort_by:
  "f ` insert x (set xs) \<subseteq> K \<Longrightarrow> sorted_wrt (\<lambda>a b. le (f a) (f b)) xs \<Longrightarrow>
     sorted_wrt (\<lambda>a b. le (f a) (f b)) (insort_by (\<lambda>a b. cmp (f a) (f b)) x xs)"
proof (induction xs)
  case (Cons y ys)
  show ?case
  proof (cases "cmp (f x) (f y) = Greater")
    case True
    then have "le (f y) (f x)"
      using Cons.prems(1) by (auto simp: le_iff lt_def cmp_swap)
    then show ?thesis using Cons True by simp
  next
    case False
    then have "le (f x) (f y)" by (simp add: le_def)
    then have "\<forall>z \<in> set ys. le (f x) (f z)"
      using Cons.prems le_trans [of "f x" "f y"] by auto
    then show ?thesis using Cons.prems False \<open>le (f x) (f y)\<close> by simp
  qed
qed simp

lemma sorted_sort_by:
  "f ` set xs \<subseteq> K \<Longrightarrow>
     sorted_wrt (\<lambda>a b. le (f a) (f b)) (sort_by (\<lambda>a b. cmp (f a) (f b)) xs)"
proof (induction xs)
  case (Cons x xs)
  then show ?case
    using sorted_insort_by [of f x "sort_by (\<lambda>a b. cmp (f a) (f b)) xs"] by simp
qed simp

end

text \<open>Every linear order of the library satisfies the contract.\<close>

interpretation lo: cmp_order "cmp_of :: 'a::linorder \<Rightarrow> 'a \<Rightarrow> ordering" UNIV
  by unfold_locales auto

text \<open>Comparison by a first component, then by a second.\<close>

definition pair_cmp :: "('a \<Rightarrow> 'a \<Rightarrow> ordering) \<Rightarrow> ('b \<Rightarrow> 'b \<Rightarrow> ordering) \<Rightarrow> 'a \<times> 'b \<Rightarrow> 'a \<times> 'b \<Rightarrow> ordering" where
  "pair_cmp c d x y = then_cmp (c (fst x) (fst y)) (d (snd x) (snd y))"

lemma cmp_order_pair:
  assumes "cmp_order c K" "cmp_order d L"
  shows "cmp_order (pair_cmp c d) (K \<times> L)"
proof -
  show ?thesis
  proof (unfold_locales, goal_cases)
    case (1 a b)
    then show ?case
      using cmp_order.cmp_Equal [OF assms(1)] cmp_order.cmp_Equal [OF assms(2)] by (auto simp: pair_cmp_def)
  next
    case (2 a b)
    then show ?case
      using cmp_order.cmp_Equal [OF assms(1)] cmp_order.cmp_swap [OF assms(1)] cmp_order.cmp_swap [OF assms(2)]
      by (auto simp: pair_cmp_def then_cmp_Less then_cmp_Greater)
  next
    case (3 x y z)
    then have K: "fst x \<in> K" "fst y \<in> K" "fst z \<in> K" "snd x \<in> L" "snd y \<in> L" "snd z \<in> L" by auto
    note tr = cmp_order.cmp_trans [OF assms(1) K(1,2,3)] cmp_order.cmp_trans [OF assms(2) K(4,5,6)]
    from 3 have "c (fst x) (fst y) = Less \<or> fst x = fst y \<and> d (snd x) (snd y) = Less"
        "c (fst y) (fst z) = Less \<or> fst y = fst z \<and> d (snd y) (snd z) = Less"
      using K cmp_order.cmp_Equal [OF assms(1)] by (auto simp: pair_cmp_def then_cmp_Less)
    then show ?case
      using tr K cmp_order.cmp_Equal [OF assms(1)] by (auto simp: pair_cmp_def then_cmp_Less)
  qed
qed

end
