(* ===== verification/Ck_Text.thy ===== *)
theory Ck_Text
  imports Ck_Prelude
begin

text \<open>
  Strings.  A Rust \<open>String\<close> is its UTF-8 byte sequence, a HOL \<^typ>\<open>string\<close> whose characters
  are bytes; comparison is bytewise, \<open>len\<close> counts bytes and \<open>chars().count()\<close> counts the
  bytes that are not continuation bytes.  This theory models the standard-library string
  routines the engine calls: integer formatting and parsing, \<open>trim\<close>, \<open>split_once\<close>,
  \<open>splitn\<close>, ASCII case mapping and UTF-8 validation.
\<close>

section \<open>Bytes\<close>

definition byte_of :: "char \<Rightarrow> u8" where
  "byte_of c = word_of_nat (of_char c)"

definition char_of_byte :: "u8 \<Rightarrow> char" where
  "char_of_byte b = char_of (unat b)"

definition as_bytes :: "string \<Rightarrow> u8 list" where
  "as_bytes s = map byte_of s"

definition of_bytes :: "u8 list \<Rightarrow> string" where
  "of_bytes bs = map char_of_byte bs"

lemma unat_byte_of [simp]: "unat (byte_of c) = of_char c"
  by (simp add: byte_of_def unat_of_nat)

lemma char_of_byte_of [simp]: "char_of_byte (byte_of c) = c"
  by (simp add: char_of_byte_def)

lemma of_bytes_as_bytes [simp]: "of_bytes (as_bytes s) = s"
  by (simp add: of_bytes_def as_bytes_def map_idI)

lemma length_as_bytes [simp]: "length (as_bytes s) = length s"
  by (simp add: as_bytes_def)

definition char_cmp :: "char \<Rightarrow> char \<Rightarrow> ordering" where
  "char_cmp a b = cmp_of (of_char a :: nat) (of_char b)"

text \<open>\<open>str::cmp\<close>: lexicographic on bytes.\<close>

definition str_cmp :: "string \<Rightarrow> string \<Rightarrow> ordering" where
  "str_cmp = cmp_list char_cmp"

section \<open>Decimal integers\<close>

definition digit_char :: "int \<Rightarrow> char" where
  "digit_char d = char_of (nat (48 + d))"

function nat_digits :: "int \<Rightarrow> string" where
  "nat_digits n = (if n < 10 then [digit_char n] else nat_digits (n div 10) @ [digit_char (n mod 10)])"
  by pat_completeness auto
termination
  by (relation "measure nat") auto

declare nat_digits.simps [simp del]

text \<open>\<open>i64::to_string\<close> and its relatives.\<close>

definition int_to_string :: "int \<Rightarrow> string" where
  "int_to_string i = (if i < 0 then CHR ''-'' # nat_digits (- i) else nat_digits i)"

definition digit_val :: "char \<Rightarrow> int option" where
  "digit_val c = (let n = (of_char c :: int) in if 48 \<le> n \<and> n \<le> 57 then Some (n - 48) else None)"

fun digits_val :: "int \<Rightarrow> string \<Rightarrow> int option" where
  "digits_val acc [] = Some acc"
| "digits_val acc (c # cs) =
     (case digit_val c of None \<Rightarrow> None | Some d \<Rightarrow> digits_val (10 * acc + d) cs)"

text \<open>
  \<open>str::parse::<iN>\<close>: an optional sign, at least one digit, and the value must fit \<open>n\<close> bits.
\<close>

definition parse_unsigned_digits :: "string \<Rightarrow> int option" where
  "parse_unsigned_digits s = (if s = [] then None else digits_val 0 s)"

definition parse_signed :: "nat \<Rightarrow> string \<Rightarrow> int option" where
  "parse_signed n s =
     (let v = (case s of
                 [] \<Rightarrow> None
               | c # cs \<Rightarrow> if c = CHR ''-'' then map_option uminus (parse_unsigned_digits cs)
                          else if c = CHR ''+'' then parse_unsigned_digits cs
                          else parse_unsigned_digits s)
      in case v of None \<Rightarrow> None
         | Some i \<Rightarrow> if - (2 ^ (n - 1)) \<le> i \<and> i < 2 ^ (n - 1) then Some i else None)"

lemma digit_table:
  "list_all (\<lambda>d. digit_val (digit_char d) = Some d \<and> digit_char d \<in> set ''0123456789'') [0..9]"
  by code_simp

lemma digit_char_facts:
  assumes "0 \<le> d" "d < 10"
  shows "digit_val (digit_char d) = Some d" "digit_char d \<in> set ''0123456789''"
proof -
  have "d \<in> set [0..9]" using assms by simp
  then show "digit_val (digit_char d) = Some d" "digit_char d \<in> set ''0123456789''"
    using digit_table unfolding list_all_iff by blast+
qed

lemmas digit_val_digit_char [simp] = digit_char_facts(1)

lemma digits_val_append:
  "digits_val acc (s @ t) = (case digits_val acc s of None \<Rightarrow> None | Some a \<Rightarrow> digits_val a t)"
  by (induction s arbitrary: acc) (auto split: option.split)

lemma nat_digits_not_Nil [simp]: "nat_digits n \<noteq> []"
  by (subst nat_digits.simps) simp

lemma digits_val_nat_digits: "0 \<le> n \<Longrightarrow> digits_val 0 (nat_digits n) = Some n"
proof (induction n rule: nat_digits.induct)
  case (1 n)
  show ?case
  proof (cases "n < 10")
    case True
    then show ?thesis using "1.prems" by (simp add: nat_digits.simps [of n])
  next
    case False
    then have "digits_val 0 (nat_digits (n div 10)) = Some (n div 10)"
      using "1.IH" "1.prems" by simp
    then show ?thesis using False by (simp add: nat_digits.simps [of n] digits_val_append)
  qed
qed

lemma set_nat_digits: "0 \<le> n \<Longrightarrow> set (nat_digits n) \<subseteq> set ''0123456789''"
proof (induction n rule: nat_digits.induct)
  case (1 n)
  have last: "digit_char (n mod 10) \<in> set ''0123456789''"
    by (rule digit_char_facts) auto
  show ?case
  proof (cases "n < 10")
    case True
    then show ?thesis
      using digit_char_facts(2) [of n] "1.prems" by (simp add: nat_digits.simps [of n])
  next
    case False
    have "set (nat_digits (n div 10)) \<subseteq> set ''0123456789''" using "1.IH" False "1.prems" by simp
    then show ?thesis
      using last False unfolding nat_digits.simps [of n] by (auto simp del: list.set(2) simp: list.set(2) [of _ "[]"])
  qed
qed

lemma hd_nat_digits_not_sign:
  assumes "0 \<le> n"
  shows "hd (nat_digits n) \<noteq> CHR ''-'' \<and> hd (nat_digits n) \<noteq> CHR ''+''"
proof -
  have "hd (nat_digits n) \<in> set ''0123456789''"
    using set_nat_digits [OF assms] hd_in_set [OF nat_digits_not_Nil [of n]] by blast
  then show ?thesis by auto
qed

text \<open>Formatting and parsing an integer that fits the width is the identity.\<close>

lemma parse_signed_to_string:
  assumes "- (2 ^ (n - 1)) \<le> i" "i < 2 ^ (n - 1)"
  shows "parse_signed n (int_to_string i) = Some i"
proof (cases "i < 0")
  case True
  then have "parse_unsigned_digits (nat_digits (- i)) = Some (- i)"
    by (simp add: parse_unsigned_digits_def digits_val_nat_digits)
  then show ?thesis using True assms by (simp add: int_to_string_def parse_signed_def)
next
  case False
  obtain c cs where s: "nat_digits i = c # cs" by (cases "nat_digits i") auto
  have "c \<noteq> CHR ''-'' \<and> c \<noteq> CHR ''+''" using hd_nat_digits_not_sign [of i] False s by simp
  moreover have "parse_unsigned_digits (c # cs) = Some i"
    using False digits_val_nat_digits [of i] s by (simp add: parse_unsigned_digits_def)
  ultimately show ?thesis using False assms by (simp add: int_to_string_def parse_signed_def s)
qed

section \<open>Padding\<close>

text \<open>The zero padding of \<open>format!\<close> (\<open>{:0>w$}\<close>, and \<open>{:0w}\<close> on a non-negative integer).\<close>

definition pad_left0 :: "nat \<Rightarrow> string \<Rightarrow> string" where
  "pad_left0 w s = replicate (w - length s) (CHR ''0'') @ s"

text \<open>\<open>{:0w}\<close> on an integer: the sign counts towards the width.\<close>

definition pad_int0 :: "nat \<Rightarrow> int \<Rightarrow> string" where
  "pad_int0 w i =
     (if i < 0 then CHR ''-'' # pad_left0 (w - 1) (nat_digits (- i)) else pad_left0 w (nat_digits i))"

lemma digits_val_zeros: "digits_val 0 (replicate k (CHR ''0'') @ s) = digits_val 0 s"
  by (induction k) (auto simp: digit_val_def)

section \<open>Splitting and trimming\<close>

text \<open>\<open>split_once\<close> at the first character that satisfies \<open>p\<close>.\<close>

fun split_once :: "(char \<Rightarrow> bool) \<Rightarrow> string \<Rightarrow> (string \<times> string) option" where
  "split_once p [] = None"
| "split_once p (c # cs) =
     (if p c then Some ([], cs)
      else case split_once p cs of None \<Rightarrow> None | Some (a, b) \<Rightarrow> Some (c # a, b))"

text \<open>\<open>splitn(n, c)\<close>: at most \<open>n\<close> pieces, the last one unsplit.\<close>

fun splitn :: "nat \<Rightarrow> char \<Rightarrow> string \<Rightarrow> string list" where
  "splitn 0 c s = []"
| "splitn (Suc 0) c s = [s]"
| "splitn (Suc (Suc n)) c s =
     (case split_once (\<lambda>x. x = c) s of None \<Rightarrow> [s] | Some (a, b) \<Rightarrow> a # splitn (Suc n) c b)"

text \<open>The UTF-8 encodings of the Unicode \<open>White_Space\<close> characters.\<close>

definition ws_seqs :: "string list" where
  "ws_seqs =
     [[CHR 0x09], [CHR 0x0A], [CHR 0x0B], [CHR 0x0C], [CHR 0x0D], [CHR 0x20], [CHR 0xC2, CHR 0x85],
      [CHR 0xC2, CHR 0xA0], [CHR 0xE1, CHR 0x9A, CHR 0x80], [CHR 0xE2, CHR 0x80, CHR 0x80],
      [CHR 0xE2, CHR 0x80, CHR 0x81], [CHR 0xE2, CHR 0x80, CHR 0x82],
      [CHR 0xE2, CHR 0x80, CHR 0x83], [CHR 0xE2, CHR 0x80, CHR 0x84],
      [CHR 0xE2, CHR 0x80, CHR 0x85], [CHR 0xE2, CHR 0x80, CHR 0x86],
      [CHR 0xE2, CHR 0x80, CHR 0x87], [CHR 0xE2, CHR 0x80, CHR 0x88],
      [CHR 0xE2, CHR 0x80, CHR 0x89], [CHR 0xE2, CHR 0x80, CHR 0x8A],
      [CHR 0xE2, CHR 0x80, CHR 0xA8], [CHR 0xE2, CHR 0x80, CHR 0xA9],
      [CHR 0xE2, CHR 0x80, CHR 0xAF], [CHR 0xE2, CHR 0x81, CHR 0x9F],
      [CHR 0xE3, CHR 0x80, CHR 0x80]]"

definition strip_ws_prefix :: "string \<Rightarrow> string option" where
  "strip_ws_prefix s =
     (case filter (\<lambda>w. take (length w) s = w) ws_seqs of
        [] \<Rightarrow> None | w # _ \<Rightarrow> Some (drop (length w) s))"

fun trim_start_fuel :: "nat \<Rightarrow> string \<Rightarrow> string" where
  "trim_start_fuel 0 s = s"
| "trim_start_fuel (Suc n) s =
     (case strip_ws_prefix s of None \<Rightarrow> s | Some t \<Rightarrow> trim_start_fuel n t)"

definition strip_ws_suffix :: "string \<Rightarrow> string option" where
  "strip_ws_suffix s =
     (case filter (\<lambda>w. length w \<le> length s \<and> drop (length s - length w) s = w) ws_seqs of
        [] \<Rightarrow> None | w # _ \<Rightarrow> Some (take (length s - length w) s))"

fun trim_end_fuel :: "nat \<Rightarrow> string \<Rightarrow> string" where
  "trim_end_fuel 0 s = s"
| "trim_end_fuel (Suc n) s =
     (case strip_ws_suffix s of None \<Rightarrow> s | Some t \<Rightarrow> trim_end_fuel n t)"

text \<open>
  \<open>str::trim\<close>.  Every strip removes at least one byte, so the length of the string is enough
  fuel.
\<close>

definition trim :: "string \<Rightarrow> string" where
  "trim s = (let t = trim_start_fuel (length s) s in trim_end_fuel (length t) t)"

lemma ws_table:
  "list_all (\<lambda>w. w \<noteq> [] \<and> hd w \<notin> set ''0123456789-+.:T'' \<and> last w \<notin> set ''0123456789'') ws_seqs"
  by (simp add: ws_seqs_def)

lemma ws_not_printable:
  assumes "w \<in> set ws_seqs"
  shows "w \<noteq> []" "c \<in> set ''0123456789-+.:T'' \<Longrightarrow> hd w \<noteq> c"
    "c \<in> set ''0123456789'' \<Longrightarrow> last w \<noteq> c"
  using ws_table assms unfolding list_all_iff by blast+

lemma strip_ws_prefix_printable:
  assumes "c \<in> set ''0123456789-+.:T''"
  shows "strip_ws_prefix (c # s) = None"
proof -
  have "take (length w) (c # s) \<noteq> w" if "w \<in> set ws_seqs" for w
    using ws_not_printable(1,2) [OF that] assms by (cases w) auto
  then show ?thesis by (simp add: strip_ws_prefix_def filter_False)
qed

lemma strip_ws_suffix_printable:
  assumes "c \<in> set ''0123456789''"
  shows "strip_ws_suffix (s @ [c]) = None"
proof -
  have "\<not> (length w \<le> length (s @ [c]) \<and> drop (length (s @ [c]) - length w) (s @ [c]) = w)"
    if "w \<in> set ws_seqs" for w
  proof
    assume a: "length w \<le> length (s @ [c]) \<and> drop (length (s @ [c]) - length w) (s @ [c]) = w"
    have "w \<noteq> []" and "last w \<noteq> c" using ws_not_printable(1,3) [OF that] assms by auto
    moreover have "last (drop (length (s @ [c]) - length w) (s @ [c])) = c"
      using a \<open>w \<noteq> []\<close> by (subst last_drop) auto
    ultimately show False using a by simp
  qed
  then show ?thesis by (simp add: strip_ws_suffix_def filter_False)
qed

lemma trim_printable:
  assumes "s \<noteq> []" "hd s \<in> set ''0123456789-+.:T''" "last s \<in> set ''0123456789''"
  shows "trim s = s"
proof -
  obtain c cs where s: "s = c # cs" using assms(1) by (cases s) auto
  have "trim_start_fuel (length s) s = s"
    using strip_ws_prefix_printable [of c cs] assms(2) by (simp add: s)
  moreover have "strip_ws_suffix s = None"
    using strip_ws_suffix_printable [of "last s" "butlast s"] assms(1,3) by (metis append_butlast_last_id)
  then have "trim_end_fuel (length s) s = s" by (simp add: s)
  ultimately show ?thesis by (simp add: trim_def)
qed

section \<open>ASCII case\<close>

definition ascii_lower :: "char \<Rightarrow> char" where
  "ascii_lower c = (let n = (of_char c :: nat) in if 65 \<le> n \<and> n \<le> 90 then char_of (n + 32) else c)"

definition to_ascii_lowercase :: "string \<Rightarrow> string" where
  "to_ascii_lowercase s = map ascii_lower s"

definition eq_ignore_ascii_case :: "string \<Rightarrow> string \<Rightarrow> bool" where
  "eq_ignore_ascii_case a b \<longleftrightarrow> to_ascii_lowercase a = to_ascii_lowercase b"

section \<open>UTF-8\<close>

text \<open>The well-formed byte sequences accepted by \<open>String::from_utf8\<close>.\<close>

definition cont :: "u8 \<Rightarrow> bool" where
  "cont b \<longleftrightarrow> 128 \<le> b \<and> b \<le> 191"

fun utf8_valid :: "u8 list \<Rightarrow> bool" where
  "utf8_valid [] = True"
| "utf8_valid (a # bs) =
     (if a \<le> 127 then utf8_valid bs
      else case bs of
        [] \<Rightarrow> False
      | b # cs \<Rightarrow>
          if 194 \<le> a \<and> a \<le> 223 then cont b \<and> utf8_valid cs
          else case cs of
            [] \<Rightarrow> False
          | c # ds \<Rightarrow>
              if 224 \<le> a \<and> a \<le> 239
              then cont b \<and> cont c \<and> (a = 224 \<longrightarrow> 160 \<le> b) \<and> (a = 237 \<longrightarrow> b \<le> 159) \<and> utf8_valid ds
              else case ds of
                [] \<Rightarrow> False
              | d # es \<Rightarrow> 240 \<le> a \<and> a \<le> 244 \<and> cont b \<and> cont c \<and> cont d \<and>
                          (a = 240 \<longrightarrow> 144 \<le> b) \<and> (a = 244 \<longrightarrow> b \<le> 143) \<and> utf8_valid es)"

text \<open>\<open>chars().count()\<close>.\<close>

definition chars_count :: "string \<Rightarrow> nat" where
  "chars_count s = length (filter (\<lambda>c. \<not> cont (byte_of c)) s)"

section \<open>Order of strings\<close>

lemma char_cmp_simps [simp]:
  "char_cmp a b = Equal \<longleftrightarrow> a = b"
  "char_cmp a b = Less \<longleftrightarrow> char_cmp b a = Greater"
  by (auto simp: char_cmp_def)

lemma cmp_list_Equal: "(\<And>x y. c x y = Equal \<longleftrightarrow> x = y) \<Longrightarrow> cmp_list c xs ys = Equal \<longleftrightarrow> xs = ys"
  by (induction c xs ys rule: cmp_list.induct) auto

lemma cmp_list_swap:
  assumes "\<And>x y. c x y = Equal \<longleftrightarrow> x = y" "\<And>x y. c x y = Less \<longleftrightarrow> c y x = Greater"
  shows "cmp_list c xs ys = Less \<longleftrightarrow> cmp_list c ys xs = Greater"
  using assms by (induction c xs ys rule: cmp_list.induct) (auto simp: then_cmp_Less then_cmp_Greater)

lemma cmp_list_trans:
  assumes "\<And>x y. c x y = Equal \<longleftrightarrow> x = y"
    and "\<And>x y z. c x y = Less \<Longrightarrow> c y z = Less \<Longrightarrow> c x z = Less"
    and "cmp_list c xs ys = Less" "cmp_list c ys zs = Less"
  shows "cmp_list c xs zs = Less"
  using assms(3,4)
proof (induction xs arbitrary: ys zs)
  case Nil
  then show ?case by (cases ys; cases zs) auto
next
  case (Cons x xs)
  then obtain y ys' where ys: "ys = y # ys'" by (cases ys) auto
  with Cons.prems obtain z zs' where zs: "zs = z # zs'" by (cases zs) auto
  show ?case using Cons.prems Cons.IH [of ys' zs'] assms(1,2)
    by (auto simp: ys zs then_cmp_Less)
qed

lemma str_cmp_simps [simp]:
  "str_cmp a b = Equal \<longleftrightarrow> a = b"
  "str_cmp a b = Less \<longleftrightarrow> str_cmp b a = Greater"
  unfolding str_cmp_def
  by (rule cmp_list_Equal, simp) (rule cmp_list_swap, simp_all)

lemma str_cmp_trans: "str_cmp a b = Less \<Longrightarrow> str_cmp b c = Less \<Longrightarrow> str_cmp a c = Less"
  unfolding str_cmp_def
  by (rule cmp_list_trans [of char_cmp]) (auto simp: char_cmp_def)

section \<open>Digit strings\<close>

abbreviation digit_chars :: "char set" where
  "digit_chars \<equiv> set ''0123456789''"

definition digit_str :: "string \<Rightarrow> bool" where
  "digit_str s \<longleftrightarrow> s \<noteq> [] \<and> set s \<subseteq> digit_chars"

lemma digit_str_nat_digits [simp]: "0 \<le> n \<Longrightarrow> digit_str (nat_digits n)"
  using set_nat_digits [of n] by (simp add: digit_str_def)

lemma digit_str_pad [simp]: "digit_str s \<Longrightarrow> digit_str (pad_left0 w s)"
  by (auto simp: digit_str_def pad_left0_def)

lemma digit_str_take: "digit_str s \<Longrightarrow> 0 < p \<Longrightarrow> digit_str (take p s)"
  unfolding digit_str_def by (auto dest: in_set_takeD simp del: list.set)

lemma digit_str_drop: "digit_str s \<Longrightarrow> set (drop p s) \<subseteq> digit_chars"
  unfolding digit_str_def by (auto dest: in_set_dropD simp del: list.set)

lemma digits_val_pad [simp]: "digits_val 0 (pad_left0 w s) = digits_val 0 s"
  by (simp add: pad_left0_def digits_val_zeros)

lemma parse_signed_digits:
  assumes "digit_str s" "digits_val 0 s = Some v" "- (2 ^ (n - 1)) \<le> v" "v < 2 ^ (n - 1)"
  shows "parse_signed n s = Some v"
  using assms by (cases s) (auto simp: digit_str_def parse_signed_def parse_unsigned_digits_def)

lemma split_once_hit: "\<forall>c \<in> set a. \<not> p c \<Longrightarrow> p x \<Longrightarrow> split_once p (a @ x # b) = Some (a, b)"
  by (induction a) auto

lemma split_once_miss: "\<forall>c \<in> set a. \<not> p c \<Longrightarrow> split_once p a = None"
  by (induction a) auto

lemma hd_append_subset: "s \<noteq> [] \<Longrightarrow> set s \<subseteq> D \<Longrightarrow> hd (s @ t) \<in> D"
  by (cases s) auto

lemma last_append_subset: "s \<noteq> [] \<Longrightarrow> set s \<subseteq> D \<Longrightarrow> last (t @ s) \<in> D"
  by (cases s rule: rev_cases) auto

lemma hd_digit_str: "digit_str s \<Longrightarrow> hd (s @ t) \<in> digit_chars"
  unfolding digit_str_def using hd_append_subset by blast

lemma last_digit_str: "digit_str s \<Longrightarrow> last (t @ s) \<in> digit_chars"
  unfolding digit_str_def using last_append_subset by blast

lemma parse_signed_pad:
  assumes "0 \<le> i" "i < 2 ^ 63"
  shows "parse_signed 64 (pad_int0 w i) = Some i"
  using assms by (intro parse_signed_digits) (auto simp: pad_int0_def digits_val_nat_digits intro: order_trans [of _ 0])

lemma digit_str_pad_int: "0 \<le> i \<Longrightarrow> digit_str (pad_int0 w i)"
  by (simp add: pad_int0_def)

end
