(* ===== verification/Ck_Float.thy ===== *)
theory Ck_Float
  imports Ck_Text "HOL-Library.Signed_Division"
begin

unbundle bit_operations_syntax

text \<open>
  IEEE-754 binary64.  An \<open>f64\<close> is its bit pattern (\<open>f64::to_bits\<close>), and the operations are
  the correctly rounded ones: the exact result is a quotient of integers and
  \<open>f64_pack\<close> rounds it to nearest, ties to even.  Only what the engine uses is here:
  \<open>total_cmp\<close>, \<open>partial_cmp\<close>, the integer casts, multiplication, division, \<open>powi\<close>,
  \<open>round\<close> and the \<open>Display\<close> form.
\<close>

type_synonym f64 = "64 word"

section \<open>Fields of the representation\<close>

definition f64_neg :: "f64 \<Rightarrow> bool" where
  "f64_neg b \<longleftrightarrow> bit b 63"

definition f64_exp :: "f64 \<Rightarrow> int" where
  "f64_exp b = uint (drop_bit 52 b) mod 2048"

definition f64_frac :: "f64 \<Rightarrow> int" where
  "f64_frac b = uint b mod 2 ^ 52"

definition f64_is_finite :: "f64 \<Rightarrow> bool" where
  "f64_is_finite b \<longleftrightarrow> f64_exp b \<noteq> 2047"

definition f64_is_nan :: "f64 \<Rightarrow> bool" where
  "f64_is_nan b \<longleftrightarrow> f64_exp b = 2047 \<and> f64_frac b \<noteq> 0"

definition f64_is_inf :: "f64 \<Rightarrow> bool" where
  "f64_is_inf b \<longleftrightarrow> f64_exp b = 2047 \<and> f64_frac b = 0"

definition f64_is_zero :: "f64 \<Rightarrow> bool" where
  "f64_is_zero b \<longleftrightarrow> f64_exp b = 0 \<and> f64_frac b = 0"

definition f64_nan :: f64 where
  "f64_nan = 0x7FF8000000000000"

definition f64_inf :: "bool \<Rightarrow> f64" where
  "f64_inf neg = (if neg then 0xFFF0000000000000 else 0x7FF0000000000000)"

definition f64_zero :: "bool \<Rightarrow> f64" where
  "f64_zero neg = (if neg then 0x8000000000000000 else 0)"

text \<open>The magnitude of a finite value, as a quotient of integers.\<close>

definition f64_mag :: "f64 \<Rightarrow> int \<times> int" where
  "f64_mag b =
     (let e = max (f64_exp b) 1 - 1075;
          m = f64_frac b + (if f64_exp b = 0 then 0 else 2 ^ 52)
      in if 0 \<le> e then (m * 2 ^ nat e, 1) else (m, 2 ^ nat (- e)))"

section \<open>Rounding\<close>

function ilog2 :: "int \<Rightarrow> int" where
  "ilog2 n = (if n < 2 then 0 else 1 + ilog2 (n div 2))"
  by pat_completeness auto
termination
  by (relation "measure nat") auto

declare ilog2.simps [simp del]

definition shift_quot :: "int \<Rightarrow> int \<Rightarrow> int \<Rightarrow> int \<times> int" where
  "shift_quot p q e = (if 0 \<le> e then (p, q * 2 ^ nat e) else (p * 2 ^ nat (- e), q))"

text \<open>Round \<open>p / q\<close> (\<open>p \<ge> 0\<close>, \<open>q > 0\<close>) with the given sign to nearest, ties to even.\<close>

definition f64_pack :: "bool \<Rightarrow> int \<Rightarrow> int \<Rightarrow> f64" where
  "f64_pack neg p q =
     (if p = 0 then f64_zero neg
      else
        let l = ilog2 p - ilog2 q;
            (pl, ql) = shift_quot p q l;
            lg = (if ql \<le> pl then l else l - 1);
            e = max (- 1074) (lg - 52);
            (n, d) = shift_quot p q e;
            k = n div d; r = n mod d;
            k' = (if d < 2 * r \<or> (d = 2 * r \<and> odd k) then k + 1 else k);
            (k2, e2) = (if k' = 2 ^ 53 then (2 ^ 52, e + 1) else (k', e));
            s = (if neg then 2 ^ 63 else 0)
        in if k2 < 2 ^ 52 then word_of_int (s + k2)
           else if 971 < e2 then f64_inf neg
           else word_of_int (s + (e2 + 1075) * 2 ^ 52 + (k2 - 2 ^ 52)))"

text \<open>The \<open>as f64\<close> cast of an integer.\<close>

definition f64_of_int :: "int \<Rightarrow> f64" where
  "f64_of_int i = f64_pack (i < 0) \<bar>i\<bar> 1"

section \<open>Arithmetic\<close>

definition f64_mul :: "f64 \<Rightarrow> f64 \<Rightarrow> f64" where
  "f64_mul a b =
     (let neg = (f64_neg a \<noteq> f64_neg b) in
      if f64_is_nan a \<or> f64_is_nan b then f64_nan
      else if f64_is_inf a \<or> f64_is_inf b
      then (if f64_is_zero a \<or> f64_is_zero b then f64_nan else f64_inf neg)
      else f64_pack neg (fst (f64_mag a) * fst (f64_mag b)) (snd (f64_mag a) * snd (f64_mag b)))"

definition f64_div :: "f64 \<Rightarrow> f64 \<Rightarrow> f64" where
  "f64_div a b =
     (let neg = (f64_neg a \<noteq> f64_neg b) in
      if f64_is_nan a \<or> f64_is_nan b then f64_nan
      else if f64_is_inf a then (if f64_is_inf b then f64_nan else f64_inf neg)
      else if f64_is_inf b then f64_zero neg
      else if f64_is_zero b then (if f64_is_zero a then f64_nan else f64_inf neg)
      else f64_pack neg (fst (f64_mag a) * snd (f64_mag b)) (snd (f64_mag a) * fst (f64_mag b)))"

text \<open>\<open>f64::powi\<close>: repeated squaring, as the compiler runtime does it.\<close>

function powi_loop :: "f64 \<Rightarrow> int \<Rightarrow> f64 \<Rightarrow> f64" where
  "powi_loop a n r =
     (let r' = (if n mod 2 = 1 then f64_mul r a else r) in
      if n div 2 \<le> 0 then r' else powi_loop (f64_mul a a) (n div 2) r')"
  by pat_completeness auto
termination
  by (relation "measure (\<lambda>(a, n, r). nat n)") auto

declare powi_loop.simps [simp del]

definition f64_powi :: "f64 \<Rightarrow> int \<Rightarrow> f64" where
  "f64_powi a n =
     (let r = powi_loop a \<bar>n\<bar> (f64_of_int 1)
      in if n < 0 then f64_div (f64_of_int 1) r else r)"

text \<open>\<open>f64::round\<close> (half away from zero) of a finite value, as an integer.\<close>

definition f64_round_int :: "f64 \<Rightarrow> int" where
  "f64_round_int b =
     (let (p, q) = f64_mag b; k = (2 * p + q) div (2 * q) in if f64_neg b then - k else k)"

text \<open>\<open>f.fract() == 0.0\<close> for a finite value.\<close>

definition f64_is_integral :: "f64 \<Rightarrow> bool" where
  "f64_is_integral b \<longleftrightarrow> fst (f64_mag b) mod snd (f64_mag b) = 0"

section \<open>Comparison\<close>

text \<open>
  \<open>f64::total_cmp\<close> compares the bit patterns as signed integers after flipping the
  magnitude bits of the negative ones.
\<close>

definition f64_total_key :: "f64 \<Rightarrow> int" where
  "f64_total_key b = sint (if bit b 63 then b XOR 0x7FFFFFFFFFFFFFFF else b)"

definition f64_total_cmp :: "f64 \<Rightarrow> f64 \<Rightarrow> ordering" where
  "f64_total_cmp a b = cmp_of (f64_total_key a) (f64_total_key b)"

text \<open>\<open>f64::partial_cmp\<close>: unordered when either side is NaN, and both zeros are equal.\<close>

definition f64_num_key :: "f64 \<Rightarrow> int" where
  "f64_num_key b = (let m = uint b mod 2 ^ 63 in if f64_neg b then - m else m)"

definition f64_partial_cmp :: "f64 \<Rightarrow> f64 \<Rightarrow> ordering option" where
  "f64_partial_cmp a b =
     (if f64_is_nan a \<or> f64_is_nan b then None else Some (cmp_of (f64_num_key a) (f64_num_key b)))"

lemma bit63_iff_sint: "bit (b :: 64 word) 63 \<longleftrightarrow> sint b < 0"
  by (simp add: bit_last_iff [where w = b, simplified])

lemma f64_total_key_inj: "f64_total_key a = f64_total_key b \<Longrightarrow> a = b"
proof -
  assume eq: "f64_total_key a = f64_total_key b"
  let ?m = "0x7FFFFFFFFFFFFFFF :: 64 word"
  have flip: "bit (x XOR ?m) 63 = bit x 63" for x :: "64 word"
    by (simp add: bit_xor_iff)
  have neg: "f64_total_key x < 0 \<longleftrightarrow> bit x 63" for x
    unfolding f64_total_key_def using flip [of x] bit63_iff_sint by auto
  show "a = b"
  proof (cases "bit a 63")
    case True
    then have "bit b 63" using neg eq by metis
    then have "a XOR ?m = b XOR ?m"
      using eq True unfolding f64_total_key_def by (simp add: signed_word_eqI)
    then have "(a XOR ?m) XOR ?m = (b XOR ?m) XOR ?m" by (rule arg_cong)
    then show ?thesis by (simp add: ac_simps xor.assoc)
  next
    case False
    then have "\<not> bit b 63" using neg eq by metis
    then show ?thesis using eq False unfolding f64_total_key_def by (simp add: signed_word_eqI)
  qed
qed

lemma f64_total_cmp_Equal [simp]: "f64_total_cmp a b = Equal \<longleftrightarrow> a = b"
  using f64_total_key_inj by (auto simp: f64_total_cmp_def)

section \<open>Display\<close>

text \<open>
  The shortest decimal that reads back as the value, the nearest one among those of that
  length, written without an exponent.
\<close>

fun ilog10_up :: "nat \<Rightarrow> int \<Rightarrow> int \<Rightarrow> int" where
  "ilog10_up 0 p q = 0"
| "ilog10_up (Suc n) p q = (if p < 10 * q then 0 else 1 + ilog10_up n p (10 * q))"

fun ilog10_down :: "nat \<Rightarrow> int \<Rightarrow> int \<Rightarrow> int" where
  "ilog10_down 0 p q = 0"
| "ilog10_down (Suc n) p q = (if q \<le> p then 0 else ilog10_down n (10 * p) q - 1)"

definition scale10 :: "int \<Rightarrow> int \<Rightarrow> int \<Rightarrow> int \<times> int" where
  "scale10 p q s = (if 0 \<le> s then (p * 10 ^ nat s, q) else (p, q * 10 ^ nat (- s)))"

text \<open>Rounding up can carry into a trailing zero, which is not part of the shortest form.\<close>

definition drop_zero :: "int \<times> int \<Rightarrow> int \<times> int" where
  "drop_zero r = (let (a, s) = r in if a \<noteq> 0 \<and> a mod 10 = 0 then (a div 10, s - 1) else (a, s))"

definition digits_try :: "f64 \<Rightarrow> int \<Rightarrow> int \<Rightarrow> int \<Rightarrow> int \<Rightarrow> (int \<times> int) option" where
  "digits_try b p q lg n =
     (let s = n - 1 - lg; (sp, sq) = scale10 p q s; lo = sp div sq; r = sp mod sq;
          back = (\<lambda>a. let (x, y) = scale10 a 1 (- s) in f64_pack False x y = b);
          near = (if 2 * r < sq then [lo, lo + 1] else [lo + 1, lo])
      in case filter back near of [] \<Rightarrow> None | a # _ \<Rightarrow> Some (((drop_zero ^^ 17)) (a, s)))"

fun digits_search :: "f64 \<Rightarrow> int \<Rightarrow> int \<Rightarrow> int \<Rightarrow> int list \<Rightarrow> int \<times> int" where
  "digits_search b p q lg [] = (0, 0)"
| "digits_search b p q lg (n # ns) =
     (case digits_try b p q lg n of Some r \<Rightarrow> r | None \<Rightarrow> digits_search b p q lg ns)"

definition place_point :: "int \<Rightarrow> int \<Rightarrow> string" where
  "place_point a s =
     (if s \<le> 0 then nat_digits (a * 10 ^ nat (- s))
      else let d = pad_left0 (nat s + 1) (nat_digits a); k = length d - nat s
           in take k d @ ''.'' @ drop k d)"

definition f64_display :: "f64 \<Rightarrow> string" where
  "f64_display b =
     (if f64_is_nan b then ''NaN''
      else (if f64_neg b then ''-'' else '''') @
        (if f64_is_inf b then ''inf''
         else if f64_is_zero b then ''0''
         else let (p, q) = f64_mag b; m = b AND 0x7FFFFFFFFFFFFFFF;
                  lg = (if q \<le> p then ilog10_up 400 p q else ilog10_down 400 p q);
                  (a, s) = digits_search m p q lg [1..17]
              in place_point a s))"

text \<open>\<open>format!("{f:.1}")\<close> of a finite value with no fractional part.\<close>

definition f64_display_integral :: "f64 \<Rightarrow> string" where
  "f64_display_integral b =
     (if f64_neg b then ''-'' else '''') @ nat_digits (fst (f64_mag b) div snd (f64_mag b)) @ ''.0''"

end
