(* ===== verification/Ck_Value.thy ===== *)
theory Ck_Value
  imports Ck_Float
begin

text \<open>
  \<open>src/src/value.rs\<close>: column types, SQL scalars, exact decimals, the civil-calendar
  encoding of dates and timestamps, and the two comparisons: \<open>sql_cmp\<close> (three-valued) and
  \<open>total_cmp\<close> (the order of sorted parts and of every key).  The lemmas show that
  \<open>total_cmp\<close> is a linear order on the values one column can hold (the interpretation
  \<open>vo\<close> of \<open>cmp_order\<close>), that decimal rescaling is exact upwards and rounds half away from
  zero downwards, and that dates and decimals round-trip.
\<close>

section \<open>Types and scalars\<close>

datatype data_type = TInt | TFloat | TText | TBool | TDate | TTimestamp | TDecimal u8 u8

datatype value_t = VNull | VInt i64 | VFloat f64 | VText string | VBool bool | VDecimal i128 u32

fun dt_name :: "data_type \<Rightarrow> string" where
  "dt_name TInt = ''INTEGER''"
| "dt_name TFloat = ''DOUBLE''"
| "dt_name TText = ''TEXT''"
| "dt_name TBool = ''BOOLEAN''"
| "dt_name TDate = ''DATE''"
| "dt_name TTimestamp = ''TIMESTAMP''"
| "dt_name (TDecimal p s) = ''DECIMAL''"

fun decimal_params :: "data_type \<Rightarrow> (u8 \<times> u8) option" where
  "decimal_params (TDecimal p s) = Some (p, s)"
| "decimal_params _ = None"

fun dt_type_char :: "data_type \<Rightarrow> char" where
  "dt_type_char TInt = CHR ''I''"
| "dt_type_char TBool = CHR ''I''"
| "dt_type_char TFloat = CHR ''R''"
| "dt_type_char (TDecimal p s) = CHR ''R''"
| "dt_type_char TText = CHR ''T''"
| "dt_type_char TDate = CHR ''T''"
| "dt_type_char TTimestamp = CHR ''T''"

definition dt_parse :: "string \<Rightarrow> data_type option" where
  "dt_parse name =
     (let head = (case split_once (\<lambda>c. c = CHR ''('' \<or> c = CHR '' '') name of
                    None \<Rightarrow> name | Some (h, _) \<Rightarrow> h);
          h = to_ascii_lowercase head
      in if h \<in> {''int'', ''integer'', ''bigint'', ''smallint'', ''tinyint''} then Some TInt
         else if h \<in> {''float'', ''double'', ''real''} then Some TFloat
         else if h \<in> {''decimal'', ''numeric'', ''dec''} then Some (TDecimal 38 0)
         else if h \<in> {''text'', ''varchar'', ''char'', ''string''} then Some TText
         else if h \<in> {''bool'', ''boolean''} then Some TBool
         else if h = ''date'' then Some TDate
         else if h \<in> {''timestamp'', ''datetime''} then Some TTimestamp
         else None)"

fun is_null :: "value_t \<Rightarrow> bool" where
  "is_null VNull = True"
| "is_null _ = False"

fun is_true :: "value_t \<Rightarrow> bool" where
  "is_true (VBool b) = b"
| "is_true _ = False"

fun is_false :: "value_t \<Rightarrow> bool" where
  "is_false (VBool b) = (\<not> b)"
| "is_false _ = False"

fun as_f64 :: "value_t \<Rightarrow> f64 option" where
  "as_f64 (VInt i) = Some (f64_of_int (sint i))"
| "as_f64 (VFloat f) = Some f"
| "as_f64 (VBool b) = Some (if b then f64_of_int 1 else f64_of_int 0)"
| "as_f64 (VDecimal m s) = Some (f64_div (f64_of_int (sint m)) (f64_powi (f64_of_int 10) (sint s)))"
| "as_f64 _ = None"

fun as_int :: "value_t \<Rightarrow> i64 option" where
  "as_int (VInt i) = Some i"
| "as_int _ = None"

fun fits :: "value_t \<Rightarrow> data_type \<Rightarrow> bool" where
  "fits VNull _ = True"
| "fits (VInt _) TInt = True"
| "fits (VFloat _) TFloat = True"
| "fits (VInt _) TFloat = True"
| "fits (VText _) TText = True"
| "fits (VBool _) TBool = True"
| "fits (VInt _) TDate = True"
| "fits (VInt _) TTimestamp = True"
| "fits (VDecimal _ s) (TDecimal _ ds) = (s = ucast ds)"
| "fits (VInt _) (TDecimal _ _) = True"
| "fits _ _ = False"

fun v_type_char :: "value_t \<Rightarrow> char" where
  "v_type_char (VInt _) = CHR ''I''"
| "v_type_char (VBool _) = CHR ''I''"
| "v_type_char (VFloat _) = CHR ''R''"
| "v_type_char (VDecimal _ _) = CHR ''R''"
| "v_type_char (VText _) = CHR ''T''"
| "v_type_char VNull = CHR ''?''"

section \<open>Exact decimals\<close>

definition MAX_DECIMAL_SCALE :: nat where
  "MAX_DECIMAL_SCALE = 38"

definition in_i128 :: "int \<Rightarrow> bool" where
  "in_i128 i \<longleftrightarrow> - (2 ^ 127) \<le> i \<and> i < 2 ^ 127"

definition checked_i128 :: "int \<Rightarrow> i128 option" where
  "checked_i128 i = (if in_i128 i then Some (word_of_int i) else None)"

definition pow10 :: "nat \<Rightarrow> i128 option" where
  "pow10 n = (if MAX_DECIMAL_SCALE < n then None else checked_i128 (10 ^ n))"

definition sdiv_i128 :: "i128 \<Rightarrow> i128 \<Rightarrow> i128" where
  "sdiv_i128 a b = word_of_int (sint a sdiv sint b)"

definition rescale :: "i128 \<Rightarrow> u32 \<Rightarrow> u32 \<Rightarrow> i128 option" where
  "rescale m from to =
     (case cmp_of to from of
        Equal \<Rightarrow> Some m
      | Greater \<Rightarrow> do { p \<leftarrow> pow10 (unat (to - from)); checked_i128 (sint m * sint p) }
      | Less \<Rightarrow> do {
          d \<leftarrow> pow10 (unat (from - to));
          let half = sdiv_i128 d 2;
          let adj = (if 0 \<le> sint m then m + half else m - half);
          Some (sdiv_i128 adj d) })"

definition abs_i128 :: "i128 \<Rightarrow> i128" where
  "abs_i128 m = (if sint m < 0 then - m else m)"

definition fit_precision :: "i128 \<Rightarrow> u8 \<Rightarrow> i128 option" where
  "fit_precision m p =
     do { limit \<leftarrow> pow10 (unat p); if sint (abs_i128 m) < sint limit then Some m else None }"

fun as_dec :: "value_t \<Rightarrow> (i128 \<times> u32) option" where
  "as_dec (VDecimal m s) = Some (m, s)"
| "as_dec (VInt i) = Some (scast i, 0)"
| "as_dec _ = None"

fun is_decimal :: "value_t \<Rightarrow> bool" where
  "is_decimal (VDecimal _ _) = True"
| "is_decimal _ = False"

definition cmp_decimal_exact :: "value_t \<Rightarrow> value_t \<Rightarrow> ordering option" where
  "cmp_decimal_exact a b =
     (if \<not> is_decimal a \<and> \<not> is_decimal b then None
      else do {
        (am, asc) \<leftarrow> as_dec a;
        (bm, bsc) \<leftarrow> as_dec b;
        let scale = max asc bsc;
        case (rescale am asc scale, rescale bm bsc scale) of
          (Some x, Some y) \<Rightarrow> Some (cmp_of (sint x) (sint y))
        | _ \<Rightarrow> do { fa \<leftarrow> as_f64 a; fb \<leftarrow> as_f64 b; f64_partial_cmp fa fb } })"

definition parse_decimal :: "string \<Rightarrow> (i128 \<times> u32) option" where
  "parse_decimal s0 =
     (let s = trim s0 in
      if s = [] \<or> CHR ''e'' \<in> set s \<or> CHR ''E'' \<in> set s then None
      else
        let (neg, body) = (case s of
               c # rest \<Rightarrow> if c = CHR ''-'' then (True, rest)
                           else (False, if c = CHR ''+'' then rest else s)
             | [] \<Rightarrow> (False, s));
            (int_part, frac_part) = (case split_once (\<lambda>c. c = CHR ''.'') body of
               Some (i, f) \<Rightarrow> (i, f) | None \<Rightarrow> (body, []))
        in if int_part = [] \<and> frac_part = [] then None
           else if MAX_DECIMAL_SCALE < length frac_part then None
           else let digits = int_part @ frac_part;
                    digits = (if digits = [] then ''0'' else digits)
                in do {
                     m \<leftarrow> parse_signed 128 digits;
                     Some (word_of_int (if neg then - m else m), word_of_nat (length frac_part)) })"

text \<open>\<open>i128::MAX as f64\<close> is \<open>2 ^ 127\<close>.\<close>

definition float_to_decimal :: "f64 \<Rightarrow> u32 \<Rightarrow> i128 option" where
  "float_to_decimal f scale =
     (if \<not> f64_is_finite f then None
      else let scaled = f64_mul f (f64_powi (f64_of_int 10) (sint scale)) in
        if f64_is_nan scaled then Some 0
        else if f64_partial_cmp (scaled AND 0x7FFFFFFFFFFFFFFF) (f64_of_int (2 ^ 127)) \<noteq> Some Less
        then None
        else Some (word_of_int (f64_round_int scaled)))"

definition render_decimal :: "i128 \<Rightarrow> u32 \<Rightarrow> string" where
  "render_decimal m scale =
     (if scale = 0 then int_to_string (sint m)
      else let neg = (sint m < 0);
               digits = nat_digits \<bar>sint m\<bar>;
               sc = unat scale;
               s = (if sc < length digits
                    then let point = length digits - sc in take point digits @ ''.'' @ drop point digits
                    else ''0.'' @ pad_left0 sc digits)
           in if neg then ''-'' @ s else s)"

section \<open>Dates and timestamps\<close>

definition MICROS_PER_DAY :: int where
  "MICROS_PER_DAY = 86400000000"

definition days_from_civil :: "int \<Rightarrow> int \<Rightarrow> int \<Rightarrow> int" where
  "days_from_civil y0 m d =
     (let y = (if m \<le> 2 then y0 - 1 else y0);
          era = (if 0 \<le> y then y else y - 399) sdiv 400;
          yoe = y - era * 400;
          doy = (153 * (if m > 2 then m - 3 else m + 9) + 2) sdiv 5 + d - 1;
          doe = yoe * 365 + yoe sdiv 4 - yoe sdiv 100 + doy
      in era * 146097 + doe - 719468)"

definition civil_from_days :: "int \<Rightarrow> int \<times> int \<times> int" where
  "civil_from_days z0 =
     (let z = z0 + 719468;
          era = (if 0 \<le> z then z else z - 146096) sdiv 146097;
          doe = z - era * 146097;
          yoe = (doe - doe sdiv 1460 + doe sdiv 36524 - doe sdiv 146096) sdiv 365;
          y = yoe + era * 400;
          doy = doe - (365 * yoe + yoe sdiv 4 - yoe sdiv 100);
          mp = (5 * doy + 2) sdiv 153;
          d = doy - (153 * mp + 2) sdiv 5 + 1;
          m = (if mp < 10 then mp + 3 else mp - 9)
      in (if m \<le> 2 then y + 1 else y, m, d))"

definition MAX_YEAR :: int where
  "MAX_YEAR = 262143"

definition parse_ymd :: "string \<Rightarrow> (int \<times> int \<times> int) option" where
  "parse_ymd s =
     (case splitn 3 (CHR ''-'') s of
        [ys, ms, ds] \<Rightarrow> do {
          y \<leftarrow> parse_signed 64 ys;
          m \<leftarrow> parse_signed 64 ms;
          d \<leftarrow> parse_signed 64 ds;
          if \<not> (- MAX_YEAR \<le> y \<and> y \<le> MAX_YEAR) \<or> \<not> (1 \<le> m \<and> m \<le> 12) \<or> \<not> (1 \<le> d \<and> d \<le> 31)
          then None else Some (y, m, d) }
      | _ \<Rightarrow> None)"

definition parse_date :: "string \<Rightarrow> int option" where
  "parse_date s0 = do { (y, m, d) \<leftarrow> parse_ymd (trim s0); Some (days_from_civil y m d) }"

definition frac_digits6 :: "string \<Rightarrow> string" where
  "frac_digits6 f = (let t = take 6 f in t @ replicate (6 - length t) (CHR ''0''))"

definition parse_time_micros :: "string \<Rightarrow> int option" where
  "parse_time_micros t =
     (case splitn 3 (CHR '':'') t of
        hs # mis # more \<Rightarrow> do {
          h \<leftarrow> parse_signed 64 hs;
          mi \<leftarrow> parse_signed 64 mis;
          (sec, frac) \<leftarrow> (case more of
              [] \<Rightarrow> Some (0, 0)
            | r # _ \<Rightarrow> (case split_once (\<lambda>c. c = CHR ''.'') r of
                Some (s, f) \<Rightarrow> do { a \<leftarrow> parse_signed 64 s; b \<leftarrow> parse_signed 64 (frac_digits6 f); Some (a, b) }
              | None \<Rightarrow> do { a \<leftarrow> parse_signed 64 r; Some (a, 0) }));
          if \<not> (0 \<le> h \<and> h \<le> 23) \<or> \<not> (0 \<le> mi \<and> mi \<le> 59) \<or> \<not> (0 \<le> sec \<and> sec \<le> 60) then None
          else Some (((h * 60 + mi) * 60 + sec) * 1000000 + frac) }
      | _ \<Rightarrow> None)"

definition in_i64 :: "int \<Rightarrow> bool" where
  "in_i64 i \<longleftrightarrow> - (2 ^ 63) \<le> i \<and> i < 2 ^ 63"

definition parse_timestamp :: "string \<Rightarrow> int option" where
  "parse_timestamp s0 =
     (let s = trim s0;
          (date_part, time_part) = (case split_once (\<lambda>c. c = CHR ''T'' \<or> c = CHR '' '') s of
             Some (d, t) \<Rightarrow> (d, Some t) | None \<Rightarrow> (s, None))
      in do {
        days \<leftarrow> parse_date date_part;
        micros_of_day \<leftarrow> (case time_part of None \<Rightarrow> Some 0 | Some t \<Rightarrow> parse_time_micros t);
        let p = days * MICROS_PER_DAY;
        if \<not> in_i64 p then None
        else if \<not> in_i64 (p + micros_of_day) then None else Some (p + micros_of_day) })"

definition render_date :: "int \<Rightarrow> string" where
  "render_date days =
     (let (y, m, d) = civil_from_days days
      in pad_int0 4 y @ ''-'' @ pad_int0 2 m @ ''-'' @ pad_int0 2 d)"

definition render_timestamp :: "int \<Rightarrow> string" where
  "render_timestamp micros =
     (let days = micros div MICROS_PER_DAY;
          r = micros mod MICROS_PER_DAY;
          secs = r sdiv 1000000;
          frac = r smod 1000000;
          hms = pad_int0 2 (secs sdiv 3600) @ '':'' @ pad_int0 2 ((secs smod 3600) sdiv 60) @ '':''
                  @ pad_int0 2 (secs smod 60)
      in render_date days @ '' '' @ hms @ (if frac = 0 then [] else ''.'' @ pad_int0 6 frac))"

section \<open>Coercion and rendering\<close>

definition to_decimal :: "i128 option \<Rightarrow> u8 \<Rightarrow> u8 \<Rightarrow> value_t option" where
  "to_decimal r p s = do { m \<leftarrow> r; m' \<leftarrow> fit_precision m p; Some (VDecimal m' (ucast s)) }"

fun coerce :: "value_t \<Rightarrow> data_type \<Rightarrow> value_t option" where
  "coerce VNull _ = Some VNull"
| "coerce (VInt i) TFloat = Some (VFloat (f64_of_int (sint i)))"
| "coerce (VText s) TDate = map_option (\<lambda>d. VInt (word_of_int d)) (parse_date s)"
| "coerce (VText s) TTimestamp = map_option (\<lambda>d. VInt (word_of_int d)) (parse_timestamp s)"
| "coerce (VInt i) (TDecimal p s) = to_decimal (rescale (scast i) 0 (ucast s)) p s"
| "coerce (VDecimal m from) (TDecimal p s) = to_decimal (rescale m from (ucast s)) p s"
| "coerce (VFloat f) (TDecimal p s) = to_decimal (float_to_decimal f (ucast s)) p s"
| "coerce (VText t) (TDecimal p s) =
     to_decimal (do { (m, from) \<leftarrow> parse_decimal t; rescale m from (ucast s) }) p s"
| "coerce (VDecimal m from) TFloat = map_option VFloat (as_f64 (VDecimal m from))"
| "coerce v t = (if fits v t then Some v else None)"

fun render :: "value_t \<Rightarrow> string" where
  "render VNull = ''NULL''"
| "render (VInt i) = int_to_string (sint i)"
| "render (VBool b) = (if b then ''1'' else ''0'')"
| "render (VFloat f) =
     (if f64_is_finite f \<and> f64_is_integral f then f64_display_integral f else f64_display f)"
| "render (VText s) = s"
| "render (VDecimal m s) = render_decimal m s"

fun render_as :: "value_t \<Rightarrow> data_type \<Rightarrow> string" where
  "render_as (VInt d) TDate = render_date (sint d)"
| "render_as (VInt t) TTimestamp = render_timestamp (sint t)"
| "render_as v _ = render v"

section \<open>Comparison\<close>

fun rank :: "value_t \<Rightarrow> nat" where
  "rank VNull = 0"
| "rank (VBool _) = 1"
| "rank (VInt _) = 2"
| "rank (VFloat _) = 2"
| "rank (VDecimal _ _) = 2"
| "rank (VText _) = 3"

definition num_total_cmp :: "value_t \<Rightarrow> value_t \<Rightarrow> ordering" where
  "num_total_cmp a b =
     (case cmp_decimal_exact a b of
        Some ord \<Rightarrow> ord
      | None \<Rightarrow>
          (case (as_f64 a, as_f64 b) of
             (Some x, Some y) \<Rightarrow> f64_total_cmp x y
           | _ \<Rightarrow> cmp_of (rank a) (rank b)))"

fun total_cmp :: "value_t \<Rightarrow> value_t \<Rightarrow> ordering" where
  "total_cmp VNull VNull = Equal"
| "total_cmp (VText a) (VText b) = str_cmp a b"
| "total_cmp (VBool a) (VBool b) = cmp_of a b"
| "total_cmp (VInt a) (VInt b) = cmp_of (sint a) (sint b)"
| "total_cmp a b = num_total_cmp a b"

definition sql_cmp :: "value_t \<Rightarrow> value_t \<Rightarrow> ordering option" where
  "sql_cmp a b =
     (if is_null a \<or> is_null b then None
      else case (a, b) of
        (VText x, VText y) \<Rightarrow> Some (str_cmp x y)
      | _ \<Rightarrow> (case cmp_decimal_exact a b of
          Some ord \<Rightarrow> Some ord
        | None \<Rightarrow> do { x \<leftarrow> as_f64 a; y \<leftarrow> as_f64 b; f64_partial_cmp x y }))"

section \<open>Order of a column\<close>

text \<open>The values a column of a declared type holds once stored.\<close>

fun col_value :: "data_type \<Rightarrow> value_t \<Rightarrow> bool" where
  "col_value _ VNull = True"
| "col_value TInt (VInt _) = True"
| "col_value TFloat (VFloat _) = True"
| "col_value TText (VText _) = True"
| "col_value TBool (VBool _) = True"
| "col_value TDate (VInt i) = (- (2 ^ 31) \<le> sint i \<and> sint i < 2 ^ 31)"
| "col_value TTimestamp (VInt _) = True"
| "col_value (TDecimal _ ds) (VDecimal _ s) = (s = ucast ds)"
| "col_value _ _ = False"

definition col_values :: "data_type \<Rightarrow> value_t set" where
  "col_values ty = {v. col_value ty v}"

lemma rescale_same [simp]: "rescale m s s = Some m"
  by (simp add: rescale_def cmp_of_def)

lemma cmp_decimal_same_scale [simp]:
  "cmp_decimal_exact (VDecimal a s) (VDecimal b s) = Some (cmp_of (sint a) (sint b))"
  by (simp add: cmp_decimal_exact_def)

lemma cmp_decimal_null [simp]:
  "cmp_decimal_exact VNull v = None" "cmp_decimal_exact v VNull = None"
  by (cases v; simp add: cmp_decimal_exact_def)+

lemma total_cmp_null:
  "total_cmp VNull v = (if v = VNull then Equal else Less)"
  "total_cmp v VNull = (if v = VNull then Equal else Greater)"
  by (cases v; simp add: num_total_cmp_def cmp_of_def)+

lemma num_total_cmp_float [simp]: "num_total_cmp (VFloat a) (VFloat b) = f64_total_cmp a b"
  by (simp add: num_total_cmp_def cmp_decimal_exact_def)

lemma num_total_cmp_decimal [simp]:
  "num_total_cmp (VDecimal a s) (VDecimal b s) = cmp_of (sint a) (sint b)"
  by (simp add: num_total_cmp_def)

text \<open>Outside text columns the comparison of two non-null values is that of an integer key.\<close>

fun val_key :: "value_t \<Rightarrow> int" where
  "val_key (VInt i) = sint i"
| "val_key (VFloat f) = f64_total_key f"
| "val_key (VBool b) = (if b then 1 else 0)"
| "val_key (VDecimal m _) = sint m"
| "val_key _ = 0"

lemma sint_eq_iff [simp]: "sint (a :: 'a::len word) = sint b \<longleftrightarrow> a = b"
  by (auto intro: signed_word_eqI)

lemma col_value_cases:
  assumes "col_value ty v"
  obtains "v = VNull" | i where "v = VInt i" "ty = TInt \<or> ty = TDate \<or> ty = TTimestamp"
    | f where "v = VFloat f" "ty = TFloat" | s where "v = VText s" "ty = TText"
    | b where "v = VBool b" "ty = TBool" | m p s where "v = VDecimal m (ucast s)" "ty = TDecimal p s"
  using assms by (cases ty; cases v) auto

lemma total_cmp_column:
  assumes "col_value ty a" "col_value ty b" "a \<noteq> VNull" "b \<noteq> VNull" "ty \<noteq> TText"
  shows "total_cmp a b = cmp_of (val_key a) (val_key b)"
proof -
  have "cmp_of x y = cmp_of (if x then 1 else 0) (if y then 1 else 0 :: int)" for x y
    by (cases x; cases y) (simp_all add: cmp_of_def)
  then show ?thesis
    by (rule_tac col_value_cases [OF assms(1)]; rule_tac col_value_cases [OF assms(2)])
       (use assms(3-5) in \<open>auto simp: f64_total_cmp_def\<close>)
qed

lemma val_key_inj:
  assumes "col_value ty a" "col_value ty b" "a \<noteq> VNull" "b \<noteq> VNull" "ty \<noteq> TText"
  shows "val_key a = val_key b \<longleftrightarrow> a = b"
  by (rule_tac col_value_cases [OF assms(1)]; rule_tac col_value_cases [OF assms(2)])
     (use assms(3-5) in \<open>auto dest: f64_total_key_inj split: if_splits\<close>)

lemma col_value_text: "col_value TText v \<longleftrightarrow> v = VNull \<or> (\<exists>s. v = VText s)"
  by (cases v) auto

lemmas col_cmp = col_values_def total_cmp_null total_cmp_column val_key_inj

interpretation vo: cmp_order total_cmp "col_values ty" for ty
proof (unfold_locales, goal_cases)
  case (1 a b)
  then show ?case
    by (cases "a = VNull \<or> b = VNull"; cases "ty = TText") (auto simp: col_cmp col_value_text split: if_splits)
next
  case (2 a b)
  then show ?case
    by (cases "a = VNull \<or> b = VNull"; cases "ty = TText") (auto simp: col_cmp col_value_text split: if_splits)
next
  case (3 a b c)
  then show ?case
  proof (cases "a = VNull \<or> b = VNull \<or> c = VNull")
    case True
    then show ?thesis using 3 by (auto simp: total_cmp_null split: if_splits)
  next
    case False
    then show ?thesis using 3
      by (cases "ty = TText") (auto simp: col_cmp col_value_text simp del: str_cmp_simps intro: str_cmp_trans)
  qed
qed

section \<open>Calendar\<close>

lemma sdiv_nonneg: "0 \<le> a \<Longrightarrow> 0 < b \<Longrightarrow> (a::int) sdiv b = a div b"
  by (cases "a = 0") (simp_all add: signed_divide_int_def)

lemma sdiv_neg: "a < 0 \<Longrightarrow> 0 < b \<Longrightarrow> (a::int) sdiv b = - ((- a) div b)"
  by (simp add: signed_divide_int_def)

text \<open>The truncating division of the source, with its correction for negatives, is a floor.\<close>

lemma floor_by_trunc:
  assumes "0 < (n::int)"
  shows "(if 0 \<le> y then y else y - (n - 1)) sdiv n = y div n"
proof (cases "0 \<le> y")
  case True
  then show ?thesis using assms by (simp add: sdiv_nonneg)
next
  case False
  have b: "0 \<le> n - 1 - y mod n" "n - 1 - y mod n < n"
    using assms pos_mod_bound [of n y] pos_mod_sign [of n y] by linarith+
  have "n - 1 - y = (n - 1 - y mod n) + (- (y div n)) * n"
    using div_mult_mod_eq [of y n] by (simp add: algebra_simps)
  then have "(n - 1 - y) div n = (n - 1 - y mod n) div n + (- (y div n))"
    using assms by (metis div_mult_self1 less_irrefl mult.commute add.commute)
  also have "(n - 1 - y mod n) div n = 0" using b by (simp add: div_pos_pos_trivial)
  finally show ?thesis using False assms by (simp add: sdiv_neg)
qed

definition year_start :: "int \<Rightarrow> int" where
  "year_start y = 365 * y + y div 4 - y div 100"

definition year_end :: "int \<Rightarrow> int" where
  "year_end y = (if y = 399 then 146096 else year_start (y + 1) - 1)"

definition yoe_num :: "int \<Rightarrow> int" where
  "yoe_num doe = doe - doe div 1460 + doe div 36524 - doe div 146096"

lemma yoe_num_step: "yoe_num a \<le> yoe_num (a + 1)"
proof -
  have q: "x div 146096 = x div 36524 div 4" for x :: int
    by (simp flip: zdiv_zmult2_eq)
  have 1: "(a + 1) div 1460 \<le> a div 1460 + 1" by linarith
  have "a div 36524 \<le> (a + 1) div 36524" "(a + 1) div 36524 \<le> a div 36524 + 1" by linarith+
  then have "a div 36524 - a div 36524 div 4 \<le> (a + 1) div 36524 - (a + 1) div 36524 div 4" by linarith
  with 1 show ?thesis unfolding yoe_num_def q by linarith
qed

lemma yoe_num_mono:
  assumes "a \<le> b" shows "yoe_num a \<le> yoe_num b"
proof -
  have "yoe_num a \<le> yoe_num (a + int n)" for n
  proof (induction n)
    case (Suc n)
    then show ?case using yoe_num_step [of "a + int n"] by (simp add: algebra_simps)
  qed simp
  from this [of "nat (b - a)"] show ?thesis using assms by simp
qed

lemma yoe_table:
  "list_all (\<lambda>y. yoe_num (year_start y) div 365 = y \<and> yoe_num (year_end y) div 365 = y
     \<and> 0 \<le> year_start y \<and> year_end y \<le> 146096 \<and> year_end y - year_start y \<le> 365) [0..399]"
  by code_simp

lemma year_facts:
  assumes "0 \<le> y" "y \<le> 399"
  shows "yoe_num (year_start y) div 365 = y" "yoe_num (year_end y) div 365 = y"
    "year_end y - year_start y \<le> 365" "0 \<le> year_start y" "year_end y \<le> 146096"
  using assms yoe_table unfolding list_all_iff by auto

lemma yoe_of_doe:
  assumes "0 \<le> y" "y \<le> 399" "year_start y \<le> doe" "doe \<le> year_end y"
  shows "yoe_num doe div 365 = y"
proof -
  have "yoe_num (year_start y) div 365 \<le> yoe_num doe div 365"
    "yoe_num doe div 365 \<le> yoe_num (year_end y) div 365"
    using assms(3,4) by (auto intro: zdiv_mono1 yoe_num_mono)
  then show ?thesis using year_facts(1,2) [OF assms(1,2)] by simp
qed

text \<open>The years of an era tile its days.\<close>

lemma year_of_doe:
  assumes "0 \<le> doe" "doe \<le> 146096"
  obtains y where "0 \<le> y" "y \<le> 399" "year_start y \<le> doe" "doe \<le> year_end y"
proof -
  have *: "\<exists>y. 0 \<le> y \<and> y < int n \<and> year_start y \<le> doe \<and> doe < year_start (y + 1)"
    if "doe < year_start (int n)" for n
    using that
  proof (induction n)
    case 0
    then show ?case using assms(1) by (simp add: year_start_def)
  next
    case (Suc n)
    show ?case
    proof (cases "doe < year_start (int n)")
      case True
      then obtain y where "0 \<le> y" "y < int n" "year_start y \<le> doe" "doe < year_start (y + 1)"
        using Suc.IH by blast
      then show ?thesis by (intro exI [of _ y]) simp
    next
      case False
      then show ?thesis using Suc.prems by (intro exI [of _ "int n"]) (simp add: add.commute)
    qed
  qed
  show ?thesis
  proof (cases "doe = 146096")
    case True
    then show ?thesis using that [of 399] by (simp add: year_start_def year_end_def)
  next
    case False
    then have "doe < year_start (int 400)" using assms(2) by (simp add: year_start_def)
    then obtain y where y: "0 \<le> y" "y < 400" "year_start y \<le> doe" "doe < year_start (y + 1)"
      using * [of 400] by auto
    then have "doe \<le> year_end y" using assms(2) by (auto simp: year_end_def)
    then show ?thesis using that [of y] y by simp
  qed
qed

text \<open>The two conversions with the divisions read as floors.\<close>

lemma days_from_civil_floor:
  assumes "1 \<le> m" "m \<le> 12"
  shows "days_from_civil y m d =
    (let y' = (if m \<le> 2 then y - 1 else y); yoe = y' mod 400
     in (y' div 400) * 146097 + year_start yoe + (153 * ((m + 9) mod 12) + 2) div 5 + d - 1 - 719468)"
proof -
  define y' where "y' = (if m \<le> 2 then y - 1 else y)"
  have mp: "(if m > 2 then m - 3 else m + 9) = (m + 9) mod 12" using assms by presburger
  have era: "(if 0 \<le> y' then y' else y' - 399) sdiv 400 = y' div 400"
    using floor_by_trunc [of 400 y'] by (simp split: if_splits)
  have yoe: "y' - y' div 400 * 400 = y' mod 400" by (simp add: minus_div_mult_eq_mod)
  show ?thesis
    unfolding days_from_civil_def Let_def y'_def [symmetric] mp era yoe
    by (simp add: sdiv_nonneg year_start_def)
qed

lemma civil_from_days_floor:
  "civil_from_days z0 =
    (let z = z0 + 719468; doe = z mod 146097; yoe = yoe_num doe div 365;
         y = yoe + (z div 146097) * 400; doy = doe - year_start yoe;
         mp = (5 * doy + 2) div 153
     in (if mp < 10 then y else y + 1, if mp < 10 then mp + 3 else mp - 9, doy - (153 * mp + 2) div 5 + 1))"
proof -
  define z where "z = z0 + 719468"
  define doe where "doe = z mod 146097"
  have era: "(if 0 \<le> z then z else z - 146096) sdiv 146097 = z div 146097"
    using floor_by_trunc [of 146097 z] by (simp split: if_splits)
  have doe': "z - z div 146097 * 146097 = doe" by (simp add: doe_def minus_div_mult_eq_mod)
  have b: "0 \<le> doe" "doe \<le> 146096" by (simp_all add: doe_def zle_diff1_eq [symmetric])
  obtain y where y: "0 \<le> y" "y \<le> 399" "year_start y \<le> doe" "doe \<le> year_end y"
    using year_of_doe [OF b] by blast
  have num: "doe - doe sdiv 1460 + doe sdiv 36524 - doe sdiv 146096 = yoe_num doe"
    using b by (simp add: sdiv_nonneg yoe_num_def)
  have yoe: "yoe_num doe div 365 = y" by (rule yoe_of_doe [OF y])
  have yoe': "yoe_num doe sdiv 365 = y"
    using yoe_num_mono [OF b(1)] yoe by (simp add: sdiv_nonneg yoe_num_def)
  have ys: "365 * y + y sdiv 4 - y sdiv 100 = year_start y"
    using y(1) by (simp add: sdiv_nonneg year_start_def)
  define mp where "mp = (5 * (doe - year_start y) + 2) div 153"
  have mp: "0 \<le> mp" using y(3) by (simp add: mp_def)
  have mp': "(5 * (doe - year_start y) + 2) sdiv 153 = mp" using y(3) by (simp add: sdiv_nonneg mp_def)
  have ms: "(153 * mp + 2) sdiv 5 = (153 * mp + 2) div 5" using mp by (simp add: sdiv_nonneg)
  have "doe - year_start y \<le> 365" using y(4) year_facts(3) [OF y(1,2)] by simp
  then have "mp \<le> 11" by (simp add: mp_def)
  then have ml: "(if mp < 10 then mp + 3 else mp - 9) \<le> 2 \<longleftrightarrow> \<not> mp < 10" using mp by auto
  show ?thesis
    unfolding civil_from_days_def Let_def z_def [symmetric] era doe' num yoe' ys mp' ms ml
      doe_def [symmetric] yoe mp_def [symmetric]
    by simp
qed

text \<open>Every day number is the day number of its own civil date.\<close>

lemma days_of_civil_of_days:
  "(case civil_from_days z of (y, m, d) \<Rightarrow> days_from_civil y m d) = z"
proof -
  define doe where "doe = (z + 719468) mod 146097"
  define era where "era = (z + 719468) div 146097"
  have z: "z + 719468 = era * 146097 + doe" by (simp add: era_def doe_def)
  have b: "0 \<le> doe" "doe \<le> 146096" by (simp_all add: doe_def zle_diff1_eq [symmetric])
  obtain y where y: "0 \<le> y" "y \<le> 399" "year_start y \<le> doe" "doe \<le> year_end y"
    using year_of_doe [OF b] by blast
  have yoe: "yoe_num doe div 365 = y" by (rule yoe_of_doe [OF y])
  define doy where "doy = doe - year_start y"
  have doy: "0 \<le> doy" "doy \<le> 365" using y year_facts(3) [OF y(1,2)] by (auto simp: doy_def)
  define mp where "mp = (5 * doy + 2) div 153"
  have mp: "0 \<le> mp" "mp \<le> 11" using doy by (auto simp: mp_def)
  define m where "m = (if mp < 10 then mp + 3 else mp - 9)"
  have m: "1 \<le> m" "m \<le> 12" "(m + 9) mod 12 = mp" "m \<le> 2 \<longleftrightarrow> \<not> mp < 10"
    using mp by (auto simp: m_def)
  have yy: "(y + era * 400) div 400 = era" "(y + era * 400) mod 400 = y" using y by auto
  have "civil_from_days z =
      (if mp < 10 then y + era * 400 else y + era * 400 + 1, m, doy - (153 * mp + 2) div 5 + 1)"
    unfolding civil_from_days_floor Let_def doe_def [symmetric] era_def [symmetric] yoe
      doy_def [symmetric] mp_def [symmetric] m_def ..
  then show ?thesis
    using m yy z by (auto simp: days_from_civil_floor Let_def doy_def)
qed

definition is_leap :: "int \<Rightarrow> bool" where
  "is_leap y \<longleftrightarrow> y mod 4 = 0 \<and> y mod 100 \<noteq> 0 \<or> y mod 400 = 0"

definition days_in_month :: "int \<Rightarrow> int \<Rightarrow> int" where
  "days_in_month y m =
     (if m = 2 then (if is_leap y then 29 else 28)
      else if m = 4 \<or> m = 6 \<or> m = 9 \<or> m = 11 then 30 else 31)"

definition valid_date :: "int \<Rightarrow> int \<Rightarrow> int \<Rightarrow> bool" where
  "valid_date y m d \<longleftrightarrow> 1 \<le> m \<and> m \<le> 12 \<and> 1 \<le> d \<and> d \<le> days_in_month y m"

lemma year_len_table:
  "list_all (\<lambda>y. year_end y - year_start y = (if is_leap (y + 1) then 365 else 364)) [0..399]"
  by code_simp

lemma is_leap_mod: "is_leap (y mod 400 + 1) = is_leap (y + 1)"
proof -
  have m: "(y mod 400 + 1) mod k = (y + 1) mod k" if "k dvd 400" for k :: int
    using that by (metis mod_add_left_eq mod_mod_cancel)
  show "is_leap (y mod 400 + 1) = is_leap (y + 1)" by (simp add: is_leap_def m)
qed

lemma year_len:
  "year_end (y mod 400) - year_start (y mod 400) = (if is_leap (y + 1) then 365 else 364)"
proof -
  have "y mod 400 \<in> set [0..399]" by (simp add: zle_diff1_eq [symmetric])
  then show ?thesis using year_len_table is_leap_mod [of y] unfolding list_all_iff by metis
qed

lemma month_cases: "1 \<le> m \<Longrightarrow> m \<le> 12 \<Longrightarrow> m \<in> {1, 2, 3, 4, 5, 6, 7, 8, 9, 10, 11, 12 :: int}"
proof -
  assume "1 \<le> m" "m \<le> 12"
  then have "m \<in> set [1..12]" by simp
  also have "set [1..12] = {1, 2, 3, 4, 5, 6, 7, 8, 9, 10, 11, 12 :: int}" by code_simp
  finally show ?thesis .
qed

lemma month_start_inverse:
  assumes "valid_date y m d"
  defines "mp \<equiv> (m + 9) mod 12"
  defines "doy \<equiv> (153 * mp + 2) div 5 + d - 1"
  shows "0 \<le> doy" "(5 * doy + 2) div 153 = mp" "m \<noteq> 2 \<Longrightarrow> doy \<le> 336"
    "m = 2 \<Longrightarrow> doy \<le> (if is_leap y then 365 else 364)"
proof -
  have "m \<in> {1, 2, 3, 4, 5, 6, 7, 8, 9, 10, 11, 12}"
    using assms(1) by (intro month_cases) (auto simp: valid_date_def)
  then show "0 \<le> doy" "(5 * doy + 2) div 153 = mp" "m \<noteq> 2 \<Longrightarrow> doy \<le> 336"
    "m = 2 \<Longrightarrow> doy \<le> (if is_leap y then 365 else 364)"
    using assms(1) unfolding mp_def doy_def valid_date_def days_in_month_def
    by (auto split: if_splits)
qed

text \<open>Every valid civil date is recovered from its day number.\<close>

lemma civil_of_days_of_civil:
  assumes "valid_date y m d"
  shows "civil_from_days (days_from_civil y m d) = (y, m, d)"
proof -
  define y' where "y' = (if m \<le> 2 then y - 1 else y)"
  define mp where "mp = (m + 9) mod 12"
  define doy where "doy = (153 * mp + 2) div 5 + d - 1"
  define doe where "doe = year_start (y' mod 400) + doy"
  note inv = month_start_inverse [OF assms, folded mp_def, folded doy_def]
  have m: "1 \<le> m" "m \<le> 12" using assms by (auto simp: valid_date_def)
  have len: "doy \<le> year_end (y' mod 400) - year_start (y' mod 400)"
    using inv(3,4) year_len [of y'] by (cases "m = 2") (auto simp: y'_def split: if_splits)
  have yr: "0 \<le> y' mod 400" "y' mod 400 \<le> 399" by (simp_all add: zle_diff1_eq [symmetric])
  have doe: "year_start (y' mod 400) \<le> doe" "doe \<le> year_end (y' mod 400)"
    using inv(1) len by (auto simp: doe_def)
  have bnd: "0 \<le> doe" "doe \<le> 146096"
    using doe year_facts(4,5) [OF yr] by auto
  have z: "days_from_civil y m d + 719468 = doe + (y' div 400) * 146097"
    using m by (simp add: days_from_civil_floor Let_def doe_def doy_def mp_def y'_def)
  have era: "(days_from_civil y m d + 719468) div 146097 = y' div 400"
    "(days_from_civil y m d + 719468) mod 146097 = doe"
    unfolding z using bnd by simp_all
  have yoe: "yoe_num doe div 365 = y' mod 400" by (rule yoe_of_doe [OF yr doe])
  have dd: "doe - year_start (y' mod 400) = doy" by (simp add: doe_def)
  have mback: "(if mp < 10 then mp + 3 else mp - 9) = m" "mp < 10 \<longleftrightarrow> \<not> m \<le> 2"
    using month_cases [OF m] unfolding mp_def by auto
  show ?thesis
    unfolding civil_from_days_floor Let_def era yoe dd inv(2)
    using mback by (auto simp: doy_def y'_def)
qed

section \<open>Decimal arithmetic\<close>

lemma sint_i128: "in_i128 i \<Longrightarrow> sint (word_of_int i :: i128) = i"
  unfolding in_i128_def by (subst sint_sbintrunc', rule signed_take_bit_int_eq_self) simp_all

lemma in_i128_sint [simp]: "in_i128 (sint (m :: i128))"
  using sint_lt [of m] sint_ge [of m] by (simp add: in_i128_def)

lemma checked_i128_Some: "checked_i128 i = Some w \<longleftrightarrow> in_i128 i \<and> w = word_of_int i"
  by (auto simp: checked_i128_def)

lemma pow10_bound: "n \<le> 38 \<Longrightarrow> (10::int) ^ n \<le> 10 ^ 38"
  by (rule power_increasing) auto

lemma in_i128_pow10: "n \<le> 38 \<Longrightarrow> in_i128 (10 ^ n)"
  using pow10_bound [of n] order_trans [OF _ zero_le_power [of "10::int" n], of "- (2 ^ 127)"]
  unfolding in_i128_def by simp

lemma pow10_Some: "pow10 n = Some p \<longleftrightarrow> n \<le> 38 \<and> p = 10 ^ n"
  using in_i128_pow10 [of n] by (auto simp: pow10_def MAX_DECIMAL_SCALE_def checked_i128_Some)

lemma sint_pow10: "n \<le> 38 \<Longrightarrow> sint ((10 :: i128) ^ n) = 10 ^ n"
  using sint_i128 [OF in_i128_pow10, of n] by simp

text \<open>Widening the scale is exact, or refused on overflow.\<close>

lemma rescale_up:
  assumes "from \<le> to" "unat to - unat from \<le> 38"
  shows "rescale m from to = checked_i128 (sint m * 10 ^ (unat to - unat from))"
proof (cases "from = to")
  case False
  then have "cmp_of to from = Greater" using assms(1) by simp
  moreover have "unat (to - from) = unat to - unat from" using assms(1) by (simp add: unat_sub)
  moreover have "pow10 (unat to - unat from) = Some (10 ^ (unat to - unat from))"
    using assms(2) by (simp add: pow10_Some)
  ultimately show ?thesis
    using assms(2) unfolding rescale_def by (simp only: ordering.case bind.bind_lunit sint_pow10)
qed (simp add: rescale_def cmp_of_def checked_i128_def)

text \<open>Rounding half away from zero, on the integers.\<close>

definition round_half_away :: "int \<Rightarrow> int \<Rightarrow> int" where
  "round_half_away m d = sgn m * ((2 * \<bar>m\<bar> + d) div (2 * d))"

lemma trunc_round:
  assumes "d = 2 * h" "0 < (h::int)"
  shows "(if 0 \<le> m then m + h else m - h) sdiv d = round_half_away m d"
proof -
  have *: "(2 * x + d) div (2 * d) = (x + h) div d" for x :: int
    using div_mult_mult1 [of 2 "x + h" d] by (simp add: assms(1) algebra_simps)
  consider "m = 0" | "0 < m" | "m < 0" by linarith
  then show ?thesis
  proof cases
    case 1
    then show ?thesis using assms * [of 0] by (simp add: round_half_away_def sdiv_nonneg)
  next
    case 2
    then show ?thesis using assms * [of m] by (simp add: round_half_away_def sdiv_nonneg)
  next
    case 3
    then show ?thesis using assms * [of "- m"] by (simp add: round_half_away_def signed_divide_int_def add.commute)
  qed
qed

lemma abs_round_half_away:
  assumes "0 < d" shows "\<bar>round_half_away m (2 * d)\<bar> \<le> \<bar>m\<bar> + d"
proof -
  define q where "q = (2 * \<bar>m\<bar> + 2 * d) div (2 * (2 * d))"
  have "q \<le> (2 * (\<bar>m\<bar> + d)) div 2"
    unfolding q_def by (rule order_trans [OF zdiv_mono2 [of _ 2]]) (use assms in auto)
  moreover have "0 \<le> q"
    unfolding q_def using assms by (intro pos_imp_zdiv_nonneg_iff [THEN iffD2]) auto
  moreover have "\<bar>sgn m * q\<bar> \<le> \<bar>q\<bar>" by (simp add: abs_mult sgn_if)
  ultimately show ?thesis unfolding round_half_away_def q_def [symmetric] by simp
qed

lemma rescale_down:
  assumes "to < from" "unat from - unat to \<le> 38" "\<bar>sint m\<bar> \<le> 2 ^ 126"
  shows "rescale m from to = Some (word_of_int (round_half_away (sint m) (10 ^ (unat from - unat to))))"
    and "in_i128 (round_half_away (sint m) (10 ^ (unat from - unat to)))"
proof -
  define k where "k = unat from - unat to"
  have k: "0 < k" "k \<le> 38" using assms(1,2) by (auto simp: k_def word_less_nat_alt)
  have d: "unat (from - to) = k" using assms(1) by (simp add: unat_sub k_def)
  have c: "cmp_of to from = Less" using assms(1) by simp
  obtain h where h: "(10::int) ^ k = 2 * h" using k(1) by (metis dvd_def even_numeral even_power)
  have hb: "0 < h" "2 * h \<le> 10 ^ 38" using pow10_bound [OF k(2)] zero_less_power [of "10::int" k] h by auto
  have half: "sdiv_i128 (10 ^ k) 2 = word_of_int h"
    using hb k by (simp add: sdiv_i128_def sint_pow10 h sdiv_nonneg)
  let ?adj = "if 0 \<le> sint m then sint m + h else sint m - h"
  have adj: "(if 0 \<le> sint m then m + word_of_int h else m - word_of_int h) = word_of_int ?adj"
    by (simp add: wi_hom_add wi_hom_sub [symmetric] flip: wi_hom_add)
  have in_adj: "in_i128 ?adj" using assms(3) hb unfolding in_i128_def by (auto simp: abs_le_iff)
  have tr: "?adj sdiv 10 ^ k = round_half_away (sint m) (10 ^ k)" using h hb by (intro trunc_round) auto
  have "\<bar>round_half_away (sint m) (10 ^ k)\<bar> \<le> \<bar>sint m\<bar> + h"
    unfolding h by (rule abs_round_half_away [OF hb(1)])
  then show inr: "in_i128 (round_half_away (sint m) (10 ^ (unat from - unat to)))"
    using assms(3) hb unfolding k_def [symmetric] in_i128_def by (auto simp: abs_le_iff)
  have "pow10 k = Some (10 ^ k)" using k by (simp add: pow10_Some)
  moreover have "sdiv_i128 (word_of_int ?adj) (10 ^ k) = word_of_int (round_half_away (sint m) (10 ^ k))"
    unfolding sdiv_i128_def sint_pow10 [OF k(2)] sint_i128 [OF in_adj] tr ..
  ultimately show "rescale m from to = Some (word_of_int (round_half_away (sint m) (10 ^ (unat from - unat to))))"
    unfolding k_def [symmetric] rescale_def c d
    by (simp only: ordering.case bind.bind_lunit half adj Let_def)
qed

section \<open>Text round trips\<close>

lemma parse_decimal_parts:
  assumes "digit_str i" "set f \<subseteq> digit_chars" "length f \<le> 38"
    "digits_val 0 (i @ f) = Some v" "0 \<le> v" "v < 2 ^ 127"
  shows "parse_decimal ((if neg then ''-'' else []) @ i @ (if f = [] then [] else CHR ''.'' # f)) =
    Some (word_of_int (if neg then - v else v), word_of_nat (length f))"
proof -
  obtain c cs where i: "i = c # cs" using assms(1) by (cases i) (auto simp: digit_str_def)
  let ?b = "i @ (if f = [] then [] else CHR ''.'' # f)"
  let ?s = "(if neg then ''-'' else []) @ ?b"
  have nodot: "\<forall>x \<in> set i. \<not> x = CHR ''.''" using assms(1) by (auto simp: digit_str_def)
  have c: "c \<in> digit_chars" using assms(1) by (simp add: i digit_str_def)
  have "last ?s \<in> digit_chars"
  proof (cases "f = []")
    case True
    then show ?thesis using last_digit_str [OF assms(1)] by simp
  next
    case False
    then show ?thesis using last_digit_str [of f "(if neg then ''-'' else []) @ i @ ''.''"] assms(2)
      by (simp add: digit_str_def)
  qed
  moreover have "hd ?s \<in> set ''0123456789-+.:T''" using c by (auto simp: i)
  ultimately have trim: "trim ?s = ?s" by (intro trim_printable) (auto simp: i)
  have noe: "CHR ''e'' \<notin> set ?s" "CHR ''E'' \<notin> set ?s" "?s \<noteq> []"
    using assms(1,2) by (auto simp: digit_str_def)
  have sgn: "(case ?s of c # rest \<Rightarrow> if c = CHR ''-'' then (True, rest)
                           else (False, if c = CHR ''+'' then rest else ?s)
             | [] \<Rightarrow> (False, ?s)) = (neg, ?b)"
    using c by (auto simp: i)
  have split: "(case split_once (\<lambda>c. c = CHR ''.'') ?b of
               Some (i, f) \<Rightarrow> (i, f) | None \<Rightarrow> (?b, [])) = (i, f)"
    using split_once_hit [OF nodot, of "CHR ''.''" f] split_once_miss [OF nodot] by simp
  have "parse_signed 128 (i @ f) = Some v"
    using assms by (intro parse_signed_digits) (auto simp: digit_str_def)
  then show ?thesis
    using noe(3) assms(3) i unfolding parse_decimal_def trim Let_def sgn split prod.case
    using noe(1,2) by (auto simp: MAX_DECIMAL_SCALE_def)
qed

text \<open>The text of a decimal reads restore as the same mantissa and scale.\<close>

lemma parse_render_decimal:
  assumes "unat s \<le> 38" "sint m \<noteq> - (2 ^ 127)"
  shows "parse_decimal (render_decimal m s) = Some (m, s)"
proof -
  define ds where "ds = nat_digits \<bar>sint m\<bar>"
  define k where "k = unat s"
  have ds: "digit_str ds" "digits_val 0 ds = Some \<bar>sint m\<bar>"
    by (simp_all add: ds_def digits_val_nat_digits)
  have "\<bar>sint m\<bar> < 2 ^ 127"
    using sint_lt [of m] sint_ge [of m] assms(2) by (simp add: abs_less_iff)
  note parts = parse_decimal_parts [OF _ _ _ _ abs_ge_zero this, of _ _ "sint m < 0"]
  have restore: "word_of_int (if sint m < 0 then - \<bar>sint m\<bar> else \<bar>sint m\<bar>) = m" by simp
  consider "k = 0" | "0 < k" "k < length ds" | "0 < k" "length ds \<le> k" by linarith
  then show ?thesis
  proof cases
    case 1
    then have "s = 0" by (simp add: k_def unat_eq_0)
    then show ?thesis
      using parts [of ds "[]"] ds restore by (auto simp: render_decimal_def int_to_string_def ds_def)
  next
    case 2
    define p where "p = length ds - k"
    have "render_decimal m s = (if sint m < 0 then ''-'' else []) @ take p ds @
        (if drop p ds = [] then [] else CHR ''.'' # drop p ds)"
      using 2 unfolding render_decimal_def k_def [symmetric] ds_def [symmetric] Let_def p_def
      by (auto simp: k_def unat_eq_0)
    moreover have "digit_str (take p ds)" "set (drop p ds) \<subseteq> digit_chars"
      using digit_str_take [OF ds(1), of p] digit_str_drop [OF ds(1), of p] 2 by (simp_all add: p_def)
    moreover have "length (drop p ds) = k" using 2 by (simp add: p_def)
    ultimately show ?thesis
      using parts [of "take p ds" "drop p ds"] ds(2) assms(1) restore by (simp add: k_def)
  next
    case 3
    have len: "length (pad_left0 k ds) = k" using 3 by (simp add: pad_left0_def)
    then have "pad_left0 k ds \<noteq> []" using 3 by auto
    then have "render_decimal m s = (if sint m < 0 then ''-'' else []) @ ''0'' @
        (if pad_left0 k ds = [] then [] else CHR ''.'' # pad_left0 k ds)"
      using 3 by (auto simp: render_decimal_def k_def ds_def Let_def unat_eq_0)
    moreover have "set (pad_left0 k ds) \<subseteq> digit_chars" "digit_str ''0''"
      using digit_str_pad [OF ds(1)] by (auto simp: digit_str_def)
    moreover have "digits_val 0 (''0'' @ pad_left0 k ds) = Some \<bar>sint m\<bar>"
      using ds(2) by (simp add: digit_val_def)
    ultimately show ?thesis
      using parts [of "''0''" "pad_left0 k ds"] assms(1) restore len by (simp add: k_def)
  qed
qed

text \<open>The text of a civil date reads restore as its components.\<close>

lemma parse_ymd_render:
  assumes "0 \<le> y" "y \<le> MAX_YEAR" "1 \<le> m" "m \<le> 12" "1 \<le> d" "d \<le> 31"
  shows "parse_ymd (trim (pad_int0 4 y @ ''-'' @ pad_int0 2 m @ ''-'' @ pad_int0 2 d)) = Some (y, m, d)"
proof -
  have ds: "digit_str (pad_int0 4 y)" "digit_str (pad_int0 2 m)" "digit_str (pad_int0 2 d)"
    using assms by (simp_all add: digit_str_pad_int)
  have nd: "digit_str t \<Longrightarrow> \<forall>c \<in> set t. \<not> c = CHR ''-''" for t by (auto simp: digit_str_def)
  let ?s = "pad_int0 4 y @ ''-'' @ pad_int0 2 m @ ''-'' @ pad_int0 2 d"
  have "last ?s \<in> digit_chars"
    using last_digit_str [OF ds(3), of "pad_int0 4 y @ ''-'' @ pad_int0 2 m @ ''-''"] by simp
  then have trim: "trim ?s = ?s"
    using hd_digit_str [OF ds(1)] by (intro trim_printable) auto
  have "splitn 3 (CHR ''-'') ?s = [pad_int0 4 y, pad_int0 2 m, pad_int0 2 d]"
    using split_once_hit [OF nd [OF ds(1)]] split_once_hit [OF nd [OF ds(2)]]
    by (simp add: numeral_3_eq_3)
  moreover have "parse_signed 64 (pad_int0 4 y) = Some y" "parse_signed 64 (pad_int0 2 m) = Some m"
    "parse_signed 64 (pad_int0 2 d) = Some d"
    using assms by (auto intro!: parse_signed_pad simp: MAX_YEAR_def)
  ultimately show ?thesis using assms unfolding trim parse_ymd_def by simp
qed

text \<open>The components of a day number are in the ranges the parser accepts.\<close>

lemma civil_ranges:
  assumes "civil_from_days z = (y, m, d)"
  shows "1 \<le> m" "m \<le> 12" "1 \<le> d" "d \<le> 31"
proof -
  define doe where "doe = (z + 719468) mod 146097"
  have b: "0 \<le> doe" "doe \<le> 146096" by (simp_all add: doe_def zle_diff1_eq [symmetric])
  obtain yy where y: "0 \<le> yy" "yy \<le> 399" "year_start yy \<le> doe" "doe \<le> year_end yy"
    using year_of_doe [OF b] by blast
  have yoe: "yoe_num doe div 365 = yy" by (rule yoe_of_doe [OF y])
  define doy where "doy = doe - year_start yy"
  have doy: "0 \<le> doy" "doy \<le> 365" using y year_facts(3) [OF y(1,2)] by (auto simp: doy_def)
  define mp where "mp = (5 * doy + 2) div 153"
  have mp: "0 \<le> mp" "mp \<le> 11" using doy by (auto simp: mp_def)
  have md: "m = (if mp < 10 then mp + 3 else mp - 9)" "d = doy - (153 * mp + 2) div 5 + 1"
    using assms unfolding civil_from_days_floor Let_def doe_def [symmetric] yoe
      doy_def [symmetric] mp_def [symmetric] by auto
  show "1 \<le> m" "m \<le> 12" using md(1) mp by auto
  have "153 * mp \<le> 5 * doy + 2" "5 * doy + 2 < 153 * mp + 153"
    unfolding mp_def by linarith+
  then show "1 \<le> d" "d \<le> 31" unfolding md(2) by linarith+
qed

lemma parse_render_date:
  assumes "0 \<le> fst (civil_from_days z)" "fst (civil_from_days z) \<le> MAX_YEAR"
  shows "parse_date (render_date z) = Some z"
proof -
  obtain y m d where c: "civil_from_days z = (y, m, d)" by (metis prod_cases3)
  then have "parse_ymd (trim (render_date z)) = Some (y, m, d)"
    using parse_ymd_render [of y m d] civil_ranges [OF c] assms by (simp add: render_date_def)
  then show ?thesis using days_of_civil_of_days [of z] c by (simp add: parse_date_def)
qed

lemma smod_nonneg: "0 \<le> a \<Longrightarrow> 0 < b \<Longrightarrow> (a::int) smod b = a mod b"
  by (cases "a = 0") (simp_all add: signed_modulo_int_def)

lemma not_digit_str: "digit_str t \<Longrightarrow> x \<notin> digit_chars \<Longrightarrow> \<forall>c \<in> set t. \<not> c = x"
  unfolding digit_str_def by blast

lemma length_pad_int0:
  assumes "0 \<le> i" "i < 10 ^ w" "0 < w" shows "length (pad_int0 w i) = w"
proof -
  have "length (nat_digits i) \<le> w" using assms
  proof (induction w arbitrary: i)
    case (Suc w)
    show ?case
    proof (cases "i < 10")
      case True
      then show ?thesis by (subst nat_digits.simps) simp
    next
      case False
      then have "0 < w" using Suc.prems by (cases w) auto
      then have "length (nat_digits (i div 10)) \<le> w" using Suc by (intro Suc.IH) auto
      then show ?thesis using False by (subst nat_digits.simps) simp
    qed
  qed simp
  then show ?thesis using assms by (simp add: pad_int0_def pad_left0_def)
qed

text \<open>The clock part of a timestamp.\<close>

definition clock_text :: "int \<Rightarrow> int \<Rightarrow> int \<Rightarrow> int \<Rightarrow> string" where
  "clock_text h mi sec frac =
     (pad_int0 2 h @ '':'' @ pad_int0 2 mi @ '':'' @ pad_int0 2 sec) @ (if frac = 0 then [] else ''.'' @ pad_int0 6 frac)"

lemma parse_clock_text:
  assumes "0 \<le> h" "h \<le> 23" "0 \<le> mi" "mi \<le> 59" "0 \<le> sec" "sec \<le> 59" "0 \<le> frac" "frac < 1000000"
  shows "parse_time_micros (clock_text h mi sec frac) = Some (((h * 60 + mi) * 60 + sec) * 1000000 + frac)"
proof -
  have ds: "digit_str (pad_int0 2 h)" "digit_str (pad_int0 2 mi)" "digit_str (pad_int0 2 sec)"
    using assms by (simp_all add: digit_str_pad_int)
  have nc: "\<forall>c \<in> set t. \<not> c = CHR '':''" "\<forall>c \<in> set t. \<not> c = CHR ''.''" if "digit_str t" for t
    using not_digit_str [OF that] by auto
  let ?r = "pad_int0 2 sec @ (if frac = 0 then [] else ''.'' @ pad_int0 6 frac)"
  have "splitn 3 (CHR '':'') (clock_text h mi sec frac) = [pad_int0 2 h, pad_int0 2 mi, ?r]"
    using split_once_hit [OF nc(1) [OF ds(1)]] split_once_hit [OF nc(1) [OF ds(2)]]
    by (simp add: clock_text_def numeral_3_eq_3)
  moreover have "parse_signed 64 (pad_int0 2 h) = Some h" "parse_signed 64 (pad_int0 2 mi) = Some mi"
    "parse_signed 64 (pad_int0 2 sec) = Some sec" "parse_signed 64 (pad_int0 6 frac) = Some frac"
    using assms by (auto intro!: parse_signed_pad)
  moreover have "frac_digits6 (pad_int0 6 frac) = pad_int0 6 frac"
    using length_pad_int0 [of frac 6] assms by (simp add: frac_digits6_def)
  moreover have "split_once (\<lambda>c. c = CHR ''.'') ?r =
      (if frac = 0 then None else Some (pad_int0 2 sec, pad_int0 6 frac))"
    using split_once_hit [OF nc(2) [OF ds(3)]] split_once_miss [OF nc(2) [OF ds(3)]] by simp
  ultimately show ?thesis using assms by (simp add: parse_time_micros_def)
qed

lemma parse_render_timestamp:
  assumes "0 \<le> fst (civil_from_days (t div MICROS_PER_DAY))"
    "fst (civil_from_days (t div MICROS_PER_DAY)) \<le> MAX_YEAR"
    "MICROS_PER_DAY - 2 ^ 63 \<le> t" "t < 2 ^ 63"
  shows "parse_timestamp (render_timestamp t) = Some t"
proof -
  define days where "days = t div MICROS_PER_DAY"
  define r where "r = t mod MICROS_PER_DAY"
  define secs where "secs = r div 1000000"
  define frac where "frac = r mod 1000000"
  define h where "h = secs div 3600"
  define mi where "mi = secs mod 3600 div 60"
  define sec where "sec = secs mod 60"
  have r: "0 \<le> r" "r < 86400000000" by (simp_all add: r_def MICROS_PER_DAY_def)
  have secs: "0 \<le> secs" "secs < 86400" using r by (auto simp: secs_def)
  have rng: "0 \<le> h" "h \<le> 23" "0 \<le> mi" "mi \<le> 59" "0 \<le> sec" "sec \<le> 59" "0 \<le> frac" "frac < 1000000"
    using secs unfolding h_def mi_def sec_def frac_def by linarith+
  have micros: "((h * 60 + mi) * 60 + sec) * 1000000 + frac = r"
  proof -
    have "secs mod 3600 mod 60 = secs mod 60" by (simp add: mod_mod_cancel)
    then have mm: "mi * 60 + sec = secs mod 3600"
      using div_mult_mod_eq [of "secs mod 3600" 60] by (simp add: mi_def sec_def)
    have "(h * 60 + mi) * 60 + sec = h * 3600 + (mi * 60 + sec)" by simp
    also have "\<dots> = secs" unfolding mm h_def by (rule div_mult_mod_eq)
    finally have "(h * 60 + mi) * 60 + sec = secs" .
    then show ?thesis by (simp add: secs_def frac_def)
  qed
  have text_eq: "render_timestamp t = render_date days @ CHR '' '' # clock_text h mi sec frac"
    using r secs rng(3,5,7)
    by (simp add: render_timestamp_def clock_text_def sdiv_nonneg smod_nonneg Let_def
        days_def [symmetric] r_def [symmetric] secs_def [symmetric] frac_def [symmetric] h_def mi_def sec_def)
  obtain y m d where c: "civil_from_days days = (y, m, d)" by (metis prod_cases3)
  have y: "0 \<le> y" using assms(1) c by (simp add: days_def)
  have ds: "digit_str (pad_int0 4 y)" "digit_str (pad_int0 2 m)" "digit_str (pad_int0 2 d)"
    "digit_str (pad_int0 2 sec)" "digit_str (pad_int0 6 frac)"
    using civil_ranges [OF c] y rng by (simp_all add: digit_str_pad_int)
  have rd: "render_date days = pad_int0 4 y @ ''-'' @ pad_int0 2 m @ ''-'' @ pad_int0 2 d"
    by (simp add: render_date_def c)
  have nosep: "\<forall>x \<in> set (render_date days). \<not> (x = CHR ''T'' \<or> x = CHR '' '')"
  proof -
    have "\<forall>x \<in> set u. \<not> (x = CHR ''T'' \<or> x = CHR '' '')" if "digit_str u" for u
      using not_digit_str [OF that, of "CHR ''T''"] not_digit_str [OF that, of "CHR '' ''"] by simp
    from this [OF ds(1)] this [OF ds(2)] this [OF ds(3)] show ?thesis
      unfolding rd by (simp add: ball_Un)
  qed
  have "trim (render_timestamp t) = render_timestamp t"
  proof (rule trim_printable)
    show "hd (render_timestamp t) \<in> set ''0123456789-+.:T''"
      using hd_digit_str [OF ds(1)] unfolding text_eq rd by auto
    show "last (render_timestamp t) \<in> digit_chars"
      using last_digit_str [OF ds(4), of "render_date days @ '' '' @ pad_int0 2 h @ '':'' @ pad_int0 2 mi @ '':''"]
        last_digit_str [OF ds(5), of "render_date days @ '' '' @ pad_int0 2 h @ '':'' @ pad_int0 2 mi @ '':'' @ pad_int0 2 sec @ ''.''"]
      unfolding text_eq clock_text_def by (cases "frac = 0") simp_all
  qed (simp add: text_eq)
  moreover have "parse_date (render_date days) = Some days"
    using assms(1,2) by (intro parse_render_date) (simp_all add: days_def)
  moreover have t: "days * MICROS_PER_DAY + r = t" by (simp add: days_def r_def)
  moreover have "in_i64 (days * MICROS_PER_DAY)" "in_i64 t"
    using assms(3,4) r t unfolding in_i64_def MICROS_PER_DAY_def by auto
  ultimately show ?thesis
    using parse_clock_text [OF rng] split_once_hit [OF nosep] unfolding micros
    by (simp add: parse_timestamp_def text_eq)
qed

section \<open>Properties\<close>

text \<open>
  C31. Within one column, whatever its declared type, the stored values are linearly ordered by
  \<open>total_cmp\<close>: \<open>Equal\<close> is equality, swapping the arguments reverses the answer, and
  ``not greater'' is transitive. NULL is a value of every column and sorts first.
\<close>

theorem total_cmp_linear:
  assumes "col_value ty a" "col_value ty b" "col_value ty c"
  shows "(total_cmp a b = Equal \<longleftrightarrow> a = b) \<and> (total_cmp a b = Less \<longleftrightarrow> total_cmp b a = Greater) \<and>
    (total_cmp a b \<noteq> Greater \<longrightarrow> total_cmp b c \<noteq> Greater \<longrightarrow> total_cmp a c \<noteq> Greater) \<and>
    total_cmp VNull a \<noteq> Greater"
proof -
  have k: "a \<in> col_values ty" "b \<in> col_values ty" "c \<in> col_values ty" using assms by (simp_all add: col_values_def)
  show ?thesis
    using vo.cmp_Equal [OF k(1,2)] vo.cmp_swap [OF k(1,2)] vo.le_trans [OF k] by (simp add: vo.le_def total_cmp_null)
qed

theorem total_cmp_linear_witness:
  "total_cmp (VDecimal 5 2) (VDecimal 7 2) = Less \<and> total_cmp (VDecimal 7 2) (VDecimal 5 2) = Greater"
  using total_cmp_linear [of "TDecimal 10 2" "VDecimal 5 2" "VDecimal 7 2" VNull] by (simp add: cmp_of_def)

text \<open>
  The proleptic Gregorian conversions are inverse bijections: every day number is a valid
  date that converts back to it, and every valid date comes back from its day number.
\<close>

theorem calendar_bijection:
  "(case civil_from_days z of (y, m, d) \<Rightarrow> days_from_civil y m d = z \<and> 1 \<le> m \<and> m \<le> 12 \<and> 1 \<le> d \<and> d \<le> 31) \<and>
   (valid_date y m d \<longrightarrow> civil_from_days (days_from_civil y m d) = (y, m, d))"
  using days_of_civil_of_days [of z] civil_of_days_of_civil [of y m d] civil_ranges [of z]
  by (auto split: prod.splits)

theorem calendar_bijection_witness: "civil_from_days (days_from_civil 2024 2 29) = (2024, 2, 29)"
  using calendar_bijection [of 0 2024 2 29] by (simp add: valid_date_def days_in_month_def is_leap_def)

text \<open>
  Rendering a DATE and parsing the text gives the same day back, for every day whose year
  is between 0 and the largest year the parser accepts.
\<close>

theorem date_text_roundtrip:
  assumes "0 \<le> fst (civil_from_days z)" "fst (civil_from_days z) \<le> MAX_YEAR"
  shows "parse_date (render_date z) = Some z"
  by (rule parse_render_date [OF assms])

theorem date_text_roundtrip_witness: "parse_date (render_date 19000) = Some 19000"
  by (rule date_text_roundtrip) (code_simp+)

text \<open>
  Rendering a TIMESTAMP and parsing the text gives the same microsecond back: the fraction
  is printed only when it is not zero and then with all six digits.
\<close>

theorem timestamp_text_roundtrip:
  assumes "0 \<le> fst (civil_from_days (t div MICROS_PER_DAY))"
    "fst (civil_from_days (t div MICROS_PER_DAY)) \<le> MAX_YEAR" "MICROS_PER_DAY - 2 ^ 63 \<le> t" "t < 2 ^ 63"
  shows "parse_timestamp (render_timestamp t) = Some t"
  by (rule parse_render_timestamp [OF assms])

theorem timestamp_text_roundtrip_witness: "parse_timestamp (render_timestamp 1700000000123456) = Some 1700000000123456"
  by (rule timestamp_text_roundtrip) (code_simp+)

text \<open>
  Rendering a DECIMAL and parsing the text gives back both the mantissa and the scale, for
  every scale up to 38 and every mantissa but \<open>i128::MIN\<close>, whose magnitude does not fit.
\<close>

theorem decimal_text_roundtrip:
  assumes "unat s \<le> 38" "sint m \<noteq> - (2 ^ 127)"
  shows "parse_decimal (render_decimal m s) = Some (m, s)"
  by (rule parse_render_decimal [OF assms])

theorem decimal_text_roundtrip_witness: "parse_decimal (render_decimal (- 1234) 3) = Some (- 1234, 3)"
  by (rule decimal_text_roundtrip) (code_simp+)



end
