(* ===== verification/Ck_Schema.thy ===== *)
theory Ck_Schema
  imports Ck_Value
begin

text \<open>
  \<open>src/src/error.rs\<close> and \<open>src/src/schema.rs\<close>: the error taxonomy, column definitions,
  table schemas with their single key column (declared or a hidden \<open>_rowid\<close>), and the
  per-row checks every write goes through.  A row is the vector of its values.  The
  lemmas characterise the accepted rows of each check, show that defaults only fill
  nulls, and that a key column is always in range.
\<close>

section \<open>Errors\<close>

text \<open>
  The arguments of the \<open>format!\<close> calls that build a message; the prose around them carries
  no information.
\<close>

datatype message =
    MArity nat nat
  | MColumnType string string value_t
  | MNullInColumn string
  | MTooLong string nat string u32
  | MText string

datatype error =
    DuplicateKey string
  | KeyNotFound string
  | SchemaMismatch message
  | WriteConflict
  | TableNotFound string
  | TableExists string
  | Sql message
  | ConstraintViolation message

fun is_retryable :: "error \<Rightarrow> bool" where
  "is_retryable WriteConflict = True"
| "is_retryable _ = False"

section \<open>Columns, schemas and rows\<close>

definition ROWID :: string where
  "ROWID = ''_rowid''"

record column_def =
  cd_name :: string
  cd_ty :: data_type
  cd_nullable :: bool
  cd_default :: "value_t option"
  cd_max_len :: "u32 option"

definition column_new :: "string \<Rightarrow> data_type \<Rightarrow> column_def" where
  "column_new name ty =
     \<lparr>cd_name = name, cd_ty = ty, cd_nullable = True, cd_default = None, cd_max_len = None\<rparr>"

definition not_null :: "column_def \<Rightarrow> column_def" where
  "not_null c = c\<lparr>cd_nullable := False\<rparr>"

definition with_default :: "value_t \<Rightarrow> column_def \<Rightarrow> column_def" where
  "with_default v c = c\<lparr>cd_default := Some v\<rparr>"

definition with_max_len :: "u32 \<Rightarrow> column_def \<Rightarrow> column_def" where
  "with_max_len n c = c\<lparr>cd_max_len := Some n\<rparr>"

record schema =
  sc_columns :: "column_def list"
  sc_key_index :: nat
  sc_synthetic_key :: bool
  sc_checks :: "string list"

type_synonym row = "value_t list"

text \<open>The Arrow type of a column (timestamps are in microseconds, without a zone).\<close>

datatype arrow_dtype = Int64 | Float64 | Utf8 | Boolean | Date32 | TimestampMicros | Decimal128 u8 u8

fun arrow_type :: "data_type \<Rightarrow> arrow_dtype" where
  "arrow_type TInt = Int64"
| "arrow_type TFloat = Float64"
| "arrow_type TText = Utf8"
| "arrow_type TBool = Boolean"
| "arrow_type TDate = Date32"
| "arrow_type TTimestamp = TimestampMicros"
| "arrow_type (TDecimal p s) = Decimal128 p s"

definition schema_arrow :: "schema \<Rightarrow> (string \<times> arrow_dtype) list" where
  "schema_arrow s = map (\<lambda>c. (cd_name c, arrow_type (cd_ty c))) (sc_columns s)"

text \<open>\<open>Schema::new\<close> panics on a key index out of range.\<close>

definition schema_new :: "column_def list \<Rightarrow> nat \<Rightarrow> bool \<Rightarrow> schema option" where
  "schema_new cols k syn =
     (if k < length cols
      then Some \<lparr>sc_columns = cols, sc_key_index = k, sc_synthetic_key = syn, sc_checks = []\<rparr>
      else None)"

definition with_checks :: "string list \<Rightarrow> schema \<Rightarrow> schema" where
  "with_checks cs s = s\<lparr>sc_checks := cs\<rparr>"

definition from_user_columns :: "column_def list \<Rightarrow> nat option \<Rightarrow> schema option" where
  "from_user_columns cols key =
     (case key of
        Some k \<Rightarrow> if k < length cols
                  then schema_new (cols[k := (cols ! k)\<lparr>cd_nullable := False\<rparr>]) k False
                  else None
      | None \<Rightarrow> schema_new (cols @ [column_new ROWID TInt]) (length cols) True)"

definition default_schema :: "schema option" where
  "default_schema =
     schema_new [column_new ''pk'' TInt, column_new ''a'' TInt, column_new ''b'' TFloat,
                 column_new ''c'' TText] 0 False"

definition arity :: "schema \<Rightarrow> nat" where
  "arity s = length (sc_columns s)"

definition key_type :: "schema \<Rightarrow> data_type option" where
  "key_type s =
     (if sc_key_index s < length (sc_columns s)
      then Some (cd_ty (sc_columns s ! sc_key_index s)) else None)"

fun position :: "('a \<Rightarrow> bool) \<Rightarrow> 'a list \<Rightarrow> nat option" where
  "position p [] = None"
| "position p (x # xs) = (if p x then Some 0 else map_option Suc (position p xs))"

definition column_index :: "schema \<Rightarrow> string \<Rightarrow> nat option" where
  "column_index s name = position (\<lambda>c. eq_ignore_ascii_case (cd_name c) name) (sc_columns s)"

definition star_indices :: "schema \<Rightarrow> nat list" where
  "star_indices s =
     filter (\<lambda>i. \<not> (sc_synthetic_key s \<and> i = sc_key_index s)) [0..<length (sc_columns s)]"

section \<open>Row checks\<close>

fun check_types :: "(value_t \<times> column_def) list \<Rightarrow> error + unit" where
  "check_types [] = Inr ()"
| "check_types ((v, c) # rest) =
     (if \<not> fits v (cd_ty c)
      then Inl (SchemaMismatch (MColumnType (cd_name c) (dt_name (cd_ty c)) v))
      else check_types rest)"

definition check_row :: "schema \<Rightarrow> row \<Rightarrow> error + unit" where
  "check_row s r =
     (if length r \<noteq> length (sc_columns s)
      then Inl (SchemaMismatch (MArity (length (sc_columns s)) (length r)))
      else check_types (zip r (sc_columns s)))"

text \<open>\<open>apply_defaults\<close> indexes the row by every column and panics on a short row.\<close>

fun apply_defaults_from :: "column_def list \<Rightarrow> nat \<Rightarrow> row \<Rightarrow> row option" where
  "apply_defaults_from [] i r = Some r"
| "apply_defaults_from (c # cs) i r =
     (if i < length r
      then apply_defaults_from cs (Suc i)
             (if r ! i = VNull
              then (case cd_default c of Some d \<Rightarrow> r[i := d] | None \<Rightarrow> r) else r)
      else None)"

definition apply_defaults :: "schema \<Rightarrow> row \<Rightarrow> row option" where
  "apply_defaults s r = apply_defaults_from (sc_columns s) 0 r"

definition row_get :: "row \<Rightarrow> nat \<Rightarrow> value_t option" where
  "row_get r i = (if i < length r then Some (r ! i) else None)"

fun check_not_null_from :: "schema \<Rightarrow> column_def list \<Rightarrow> nat \<Rightarrow> row \<Rightarrow> error + unit" where
  "check_not_null_from s [] i r = Inr ()"
| "check_not_null_from s (c # cs) i r =
     (if sc_synthetic_key s \<and> i = sc_key_index s then check_not_null_from s cs (Suc i) r
      else if \<not> cd_nullable c \<and> (row_get r i = Some VNull \<or> row_get r i = None)
      then Inl (ConstraintViolation (MNullInColumn (cd_name c)))
      else check_not_null_from s cs (Suc i) r)"

definition check_not_null :: "schema \<Rightarrow> row \<Rightarrow> error + unit" where
  "check_not_null s r = check_not_null_from s (sc_columns s) 0 r"

fun check_lengths_from :: "column_def list \<Rightarrow> nat \<Rightarrow> row \<Rightarrow> error + unit" where
  "check_lengths_from [] i r = Inr ()"
| "check_lengths_from (c # cs) i r =
     (case (cd_max_len c, row_get r i) of
        (Some mx, Some (VText t)) \<Rightarrow>
          if unat mx < chars_count t
          then Inl (ConstraintViolation (MTooLong (cd_name c) (chars_count t) (dt_name (cd_ty c)) mx))
          else check_lengths_from cs (Suc i) r
      | _ \<Rightarrow> check_lengths_from cs (Suc i) r)"

definition check_lengths :: "schema \<Rightarrow> row \<Rightarrow> error + unit" where
  "check_lengths s r = check_lengths_from (sc_columns s) 0 r"

text \<open>
  \<open>PartialEq\<close> on values is derived, so two floats are compared by IEEE equality.
\<close>

fun value_eq :: "value_t \<Rightarrow> value_t \<Rightarrow> bool" where
  "value_eq VNull VNull = True"
| "value_eq (VInt a) (VInt b) = (a = b)"
| "value_eq (VFloat a) (VFloat b) = (f64_partial_cmp a b = Some Equal)"
| "value_eq (VText a) (VText b) = (a = b)"
| "value_eq (VBool a) (VBool b) = (a = b)"
| "value_eq (VDecimal a s) (VDecimal b t) = (a = b \<and> s = t)"
| "value_eq _ _ = False"

fun option_eq :: "('a \<Rightarrow> 'a \<Rightarrow> bool) \<Rightarrow> 'a option \<Rightarrow> 'a option \<Rightarrow> bool" where
  "option_eq e None None = True"
| "option_eq e (Some a) (Some b) = e a b"
| "option_eq e _ _ = False"

definition column_eq :: "column_def \<Rightarrow> column_def \<Rightarrow> bool" where
  "column_eq a b \<longleftrightarrow>
     cd_name a = cd_name b \<and> cd_ty a = cd_ty b \<and> cd_nullable a = cd_nullable b \<and>
     option_eq value_eq (cd_default a) (cd_default b) \<and> cd_max_len a = cd_max_len b"

definition same_shape :: "schema \<Rightarrow> schema \<Rightarrow> bool" where
  "same_shape a b \<longleftrightarrow>
     list_all2 column_eq (sc_columns a) (sc_columns b) \<and> sc_key_index a = sc_key_index b \<and>
     sc_synthetic_key a = sc_synthetic_key b \<and> sc_checks a = sc_checks b"

definition row_key :: "nat \<Rightarrow> row \<Rightarrow> value_t option" where
  "row_key k r = row_get r k"

definition row_new :: "i64 \<Rightarrow> i64 \<Rightarrow> f64 \<Rightarrow> string \<Rightarrow> row" where
  "row_new pk a b c = [VInt pk, VInt a, VFloat b, VText c]"

section \<open>Well-formed schemas\<close>

definition schema_ok :: "schema \<Rightarrow> bool" where
  "schema_ok s \<longleftrightarrow> sc_key_index s < length (sc_columns s)"

definition col_ty :: "schema \<Rightarrow> nat \<Rightarrow> data_type" where
  "col_ty s i = cd_ty (sc_columns s ! i)"

lemma schema_new_ok: "schema_new cols k syn = Some s \<Longrightarrow> schema_ok s"
  by (auto simp: schema_new_def schema_ok_def split: if_splits)

lemma from_user_columns_ok: "from_user_columns cols key = Some s \<Longrightarrow> schema_ok s"
  by (auto simp: from_user_columns_def intro: schema_new_ok split: option.splits if_splits)

lemma key_type_ok [ck_ok]: "schema_ok s \<Longrightarrow> key_type s = Some (col_ty s (sc_key_index s))"
  by (simp add: key_type_def schema_ok_def col_ty_def)

text \<open>A declared key column is \<open>NOT NULL\<close>; a hidden one is an integer at the end.\<close>

lemma from_user_columns_key:
  assumes "from_user_columns cols key = Some s"
  shows "(sc_synthetic_key s \<longleftrightarrow> key = None) \<and>
    (case key of
       Some k \<Rightarrow> sc_key_index s = k \<and> arity s = length cols \<and> \<not> cd_nullable (sc_columns s ! k)
     | None \<Rightarrow> sc_key_index s = length cols \<and> arity s = Suc (length cols) \<and> key_type s = Some TInt)"
  using assms
  by (auto simp: from_user_columns_def schema_new_def arity_def key_type_def column_new_def
      split: option.splits if_splits)

lemma position_Some: "position p xs = Some i \<Longrightarrow> i < length xs \<and> p (xs ! i) \<and> (\<forall>j < i. \<not> p (xs ! j))"
  by (induction xs arbitrary: i) (auto simp: less_Suc_eq_0_disj split: if_splits)

lemma position_None: "position p xs = None \<longleftrightarrow> (\<forall>x \<in> set xs. \<not> p x)"
  by (induction xs) auto

lemma star_indices_hidden:
  "i \<in> set (star_indices s) \<longleftrightarrow> i < arity s \<and> \<not> (sc_synthetic_key s \<and> i = sc_key_index s)"
  by (auto simp: star_indices_def arity_def)

section \<open>What the checks accept\<close>

lemma check_types_iff:
  "check_types ps = Inr () \<longleftrightarrow> (\<forall>(v, c) \<in> set ps. fits v (cd_ty c))"
  by (induction ps rule: check_types.induct) auto

text \<open>Rows accepted by \<open>check_row\<close>.\<close>

definition row_fits :: "schema \<Rightarrow> row \<Rightarrow> bool" where
  "row_fits s r \<longleftrightarrow> length r = arity s \<and> (\<forall>i < arity s. fits (r ! i) (col_ty s i))"

lemma check_row_iff: "check_row s r = Inr () \<longleftrightarrow> row_fits s r"
  by (auto simp: check_row_def row_fits_def check_types_iff arity_def col_ty_def in_set_zip
      split: prod.splits)

definition fill_default :: "column_def \<Rightarrow> value_t \<Rightarrow> value_t" where
  "fill_default c v =
     (if v = VNull then (case cd_default c of Some d \<Rightarrow> d | None \<Rightarrow> VNull) else v)"

lemma apply_defaults_from_spec:
  "length mid = length cs \<Longrightarrow>
     apply_defaults_from cs (length pre) (pre @ mid @ post) = Some (pre @ map2 fill_default cs mid @ post)"
proof (induction cs arbitrary: pre mid)
  case (Cons c cs)
  then obtain v vs where mid: "mid = v # vs" and len: "length vs = length cs" by (cases mid) auto
  let ?w = "fill_default c v"
  have "apply_defaults_from (c # cs) (length pre) (pre @ mid @ post) =
      apply_defaults_from cs (length (pre @ [?w])) ((pre @ [?w]) @ vs @ post)"
    by (simp add: mid fill_default_def split: option.split)
  then show ?case using Cons.IH [OF len, of "pre @ [?w]"] by (simp add: mid)
qed simp

text \<open>Defaults fill exactly the null columns that declare one.\<close>

lemma apply_defaults_spec:
  "length r = arity s \<Longrightarrow> apply_defaults s r = Some (map2 fill_default (sc_columns s) r)"
  using apply_defaults_from_spec [of r "sc_columns s" "[]" "[]"] by (simp add: apply_defaults_def arity_def)

lemma check_not_null_from_iff:
  "check_not_null_from s cs i r = Inr () \<longleftrightarrow>
     (\<forall>j < length cs. \<not> (sc_synthetic_key s \<and> i + j = sc_key_index s) \<longrightarrow> \<not> cd_nullable (cs ! j) \<longrightarrow>
        i + j < length r \<and> r ! (i + j) \<noteq> VNull)"
proof (induction cs arbitrary: i)
  case (Cons c cs)
  have split: "(\<forall>j < length (c # cs). P j) \<longleftrightarrow> P 0 \<and> (\<forall>j < length cs. P (Suc j))" for P
    by (auto simp: less_Suc_eq_0_disj)
  show ?case unfolding split using Cons.IH [of "Suc i"] by (auto simp: row_get_def)
qed simp

lemma check_not_null_iff:
  "check_not_null s r = Inr () \<longleftrightarrow>
     (\<forall>j < arity s. \<not> (sc_synthetic_key s \<and> j = sc_key_index s) \<longrightarrow> \<not> cd_nullable (sc_columns s ! j) \<longrightarrow>
        j < length r \<and> r ! j \<noteq> VNull)"
  using check_not_null_from_iff [of s "sc_columns s" 0 r] by (simp add: check_not_null_def arity_def)

lemma check_lengths_from_iff:
  "check_lengths_from cs i r = Inr () \<longleftrightarrow>
     (\<forall>j < length cs. \<forall>mx t. cd_max_len (cs ! j) = Some mx \<longrightarrow> row_get r (i + j) = Some (VText t) \<longrightarrow>
        chars_count t \<le> unat mx)"
proof (induction cs arbitrary: i)
  case (Cons c cs)
  have split: "(\<forall>j < length (c # cs). P j) \<longleftrightarrow> P 0 \<and> (\<forall>j < length cs. P (Suc j))" for P
    by (auto simp: less_Suc_eq_0_disj)
  show ?case unfolding split using Cons.IH [of "Suc i"]
    by (auto split: option.split value_t.split)
qed simp

lemma check_lengths_iff:
  "check_lengths s r = Inr () \<longleftrightarrow>
     (\<forall>j < arity s. \<forall>mx t. cd_max_len (sc_columns s ! j) = Some mx \<longrightarrow> row_get r j = Some (VText t) \<longrightarrow>
        chars_count t \<le> unat mx)"
  using check_lengths_from_iff [of "sc_columns s" 0 r] by (simp add: check_lengths_def arity_def)

text \<open>A row is accepted with its key present.\<close>

lemma row_key_ok [ck_ok]:
  "row_fits s r \<Longrightarrow> schema_ok s \<Longrightarrow> row_key (sc_key_index s) r = Some (r ! sc_key_index s)"
  by (simp add: row_key_def row_get_def row_fits_def schema_ok_def arity_def)

section \<open>Properties\<close>

text \<open>
  The three admission checks together accept a row exactly when it has one entry per
  column, each of the column's type or NULL; no NULL where a column other than the synthetic key is
  declared NOT NULL; and no text longer, in characters, than its column's declared length.
\<close>

theorem admission_iff:
  "check_row s r = Inr () \<and> check_not_null s r = Inr () \<and> check_lengths s r = Inr () \<longleftrightarrow>
     length r = arity s \<and> (\<forall>i < arity s. fits (r ! i) (col_ty s i) \<and>
       (r ! i = VNull \<longrightarrow> cd_nullable (sc_columns s ! i) \<or> sc_synthetic_key s \<and> i = sc_key_index s) \<and>
       (\<forall>mx t. cd_max_len (sc_columns s ! i) = Some mx \<longrightarrow> r ! i = VText t \<longrightarrow> chars_count t \<le> unat mx))"
  unfolding check_row_iff check_not_null_iff check_lengths_iff row_fits_def
  by (auto simp: row_get_def nth_opt_def col_ty_def)

theorem admission_iff_witness:
  "let s = \<lparr>sc_columns = [not_null (column_new ''pk'' TInt), with_max_len 2 (column_new ''c'' TText)],
     sc_key_index = 0, sc_synthetic_key = False, sc_checks = []\<rparr> in
   check_row s [VInt 1, VText ''ab''] = Inr () \<and> check_not_null s [VInt 1, VText ''ab''] = Inr () \<and>
   check_lengths s [VInt 1, VText ''ab''] = Inr ()"
proof -
  have "chars_count ''ab'' \<le> unat (2 :: u32)" by code_simp
  then show ?thesis unfolding Let_def
    by (intro admission_iff [THEN iffD2])
       (simp add: arity_def col_ty_def not_null_def with_max_len_def column_new_def less_Suc_eq numeral_2_eq_2)
qed

end
