(* ===== verification/Ck_Batch.thy ===== *)
theory Ck_Batch
  imports Ck_Schema
begin

text \<open>
  \<open>src/src/batch.rs\<close>: the columnar batch over Arrow arrays.  Arrow itself is third-party:
  an array is represented by its element type and its nullable contents, and every Arrow
  routine the source calls (\<open>RecordBatch::try_new\<close>, \<open>take\<close>, \<open>concat_batches\<close>, the aggregate
  kernels, decimal validation) is a field of the record \<open>arrow\<close>, passed explicitly.
  \<open>arrow_ok\<close> states the documented behaviour relied on; \<open>ref_arrow\<close> is a model of it.

  The lemmas show that building a batch from rows of the schema's arity never panics,
  that reading row \<open>i\<close> back gives the row with every value brought to its column's
  representation (\<open>canon\<close>), which is the identity on stored column values, and that
  selection, concatenation and the sortedness test act on the rows.
\<close>

section \<open>Arrow arrays and record batches\<close>

type_synonym i32 = "32 word"

datatype arrow_array =
    AInt64 "i64 option list"
  | AFloat64 "f64 option list"
  | AUtf8 "string option list"
  | ABoolean "bool option list"
  | ADate32 "i32 option list"
  | ATimestamp "i64 option list"
  | ADecimal u8 u8 "i128 option list"

fun arr_type :: "arrow_array \<Rightarrow> arrow_dtype" where
  "arr_type (AInt64 _) = Int64"
| "arr_type (AFloat64 _) = Float64"
| "arr_type (AUtf8 _) = Utf8"
| "arr_type (ABoolean _) = Boolean"
| "arr_type (ADate32 _) = Date32"
| "arr_type (ATimestamp _) = TimestampMicros"
| "arr_type (ADecimal p s _) = Decimal128 p s"

fun arr_len :: "arrow_array \<Rightarrow> nat" where
  "arr_len (AInt64 xs) = length xs"
| "arr_len (AFloat64 xs) = length xs"
| "arr_len (AUtf8 xs) = length xs"
| "arr_len (ABoolean xs) = length xs"
| "arr_len (ADate32 xs) = length xs"
| "arr_len (ATimestamp xs) = length xs"
| "arr_len (ADecimal p s xs) = length xs"

record record_batch =
  rb_num_rows :: nat
  rb_columns :: "arrow_array list"

type_synonym fields = "(string \<times> arrow_dtype) list"

record arrow =
  ar_try_new :: "fields \<Rightarrow> arrow_array list \<Rightarrow> record_batch option"
  ar_new_empty :: "fields \<Rightarrow> record_batch"
  ar_decimal_ok :: "u8 \<Rightarrow> u8 \<Rightarrow> bool"
  ar_take :: "arrow_array \<Rightarrow> u32 list \<Rightarrow> arrow_array option"
  ar_concat :: "fields \<Rightarrow> record_batch list \<Rightarrow> record_batch option"
  ar_min_i64 :: "i64 option list \<Rightarrow> i64 option"
  ar_max_i64 :: "i64 option list \<Rightarrow> i64 option"
  ar_min_i32 :: "i32 option list \<Rightarrow> i32 option"
  ar_max_i32 :: "i32 option list \<Rightarrow> i32 option"
  ar_min_f64 :: "f64 option list \<Rightarrow> f64 option"
  ar_max_f64 :: "f64 option list \<Rightarrow> f64 option"
  ar_min_str :: "string option list \<Rightarrow> string option"
  ar_max_str :: "string option list \<Rightarrow> string option"
  ar_min_bool :: "bool option list \<Rightarrow> bool option"
  ar_max_bool :: "bool option list \<Rightarrow> bool option"

section \<open>Building columns\<close>

fun int_cell :: "value_t \<Rightarrow> i64 option" where
  "int_cell (VInt v) = Some v"
| "int_cell VNull = None"
| "int_cell v = Some (case as_int v of Some i \<Rightarrow> i | None \<Rightarrow> 0)"

fun float_cell :: "value_t \<Rightarrow> f64 option" where
  "float_cell VNull = None"
| "float_cell v = as_f64 v"

fun text_cell :: "value_t \<Rightarrow> string option" where
  "text_cell (VText s) = Some s"
| "text_cell VNull = None"
| "text_cell v = Some (render v)"

fun bool_cell :: "value_t \<Rightarrow> bool option" where
  "bool_cell (VBool b) = Some b"
| "bool_cell _ = None"

text \<open>The \<open>as i32\<close> of a date keeps the low 32 bits.\<close>

definition date_cell :: "value_t \<Rightarrow> i32 option" where
  "date_cell v = map_option ucast (int_cell v)"

fun decimal_cell :: "u8 \<Rightarrow> value_t \<Rightarrow> i128 option" where
  "decimal_cell sc (VDecimal m _) = Some m"
| "decimal_cell sc (VInt i) = Some (scast i * 10 ^ unat sc)"
| "decimal_cell sc _ = None"

definition build_column :: "arrow \<Rightarrow> data_type \<Rightarrow> row list \<Rightarrow> nat \<Rightarrow> arrow_array option" where
  "build_column A ty rows ci =
     do {
       vs \<leftarrow> traverse (\<lambda>r. nth_opt r ci) rows;
       (case ty of
          TInt \<Rightarrow> Some (AInt64 (map int_cell vs))
        | TFloat \<Rightarrow> Some (AFloat64 (map float_cell vs))
        | TText \<Rightarrow> Some (AUtf8 (map text_cell vs))
        | TBool \<Rightarrow> Some (ABoolean (map bool_cell vs))
        | TDate \<Rightarrow> Some (ADate32 (map date_cell vs))
        | TTimestamp \<Rightarrow> Some (ATimestamp (map int_cell vs))
        | TDecimal p sc \<Rightarrow>
            if ar_decimal_ok A p sc then Some (ADecimal p sc (map (decimal_cell sc) vs)) else None) }"

text \<open>
  Reading one value: a downcast to the wrong array type or an index out of range panics.
\<close>

fun array_value :: "arrow_array \<Rightarrow> data_type \<Rightarrow> nat \<Rightarrow> value_t option" where
  "array_value (AInt64 xs) TInt i = map_option (case_option VNull VInt) (nth_opt xs i)"
| "array_value (AFloat64 xs) TFloat i = map_option (case_option VNull VFloat) (nth_opt xs i)"
| "array_value (AUtf8 xs) TText i = map_option (case_option VNull VText) (nth_opt xs i)"
| "array_value (ABoolean xs) TBool i = map_option (case_option VNull VBool) (nth_opt xs i)"
| "array_value (ADate32 xs) TDate i = map_option (case_option VNull (\<lambda>d. VInt (scast d))) (nth_opt xs i)"
| "array_value (ATimestamp xs) TTimestamp i = map_option (case_option VNull VInt) (nth_opt xs i)"
| "array_value (ADecimal p s xs) (TDecimal _ sc) i =
     map_option (case_option VNull (\<lambda>m. VDecimal m (ucast sc))) (nth_opt xs i)"
| "array_value (AInt64 xs) _ i = (if nth_opt xs i = Some None then Some VNull else None)"
| "array_value (AFloat64 xs) _ i = (if nth_opt xs i = Some None then Some VNull else None)"
| "array_value (AUtf8 xs) _ i = (if nth_opt xs i = Some None then Some VNull else None)"
| "array_value (ABoolean xs) _ i = (if nth_opt xs i = Some None then Some VNull else None)"
| "array_value (ADate32 xs) _ i = (if nth_opt xs i = Some None then Some VNull else None)"
| "array_value (ATimestamp xs) _ i = (if nth_opt xs i = Some None then Some VNull else None)"
| "array_value (ADecimal p s xs) _ i = (if nth_opt xs i = Some None then Some VNull else None)"

section \<open>Batches\<close>

record batch =
  b_schema :: schema
  b_rb :: record_batch

definition b_empty :: "arrow \<Rightarrow> schema \<Rightarrow> batch" where
  "b_empty A s = \<lparr>b_schema = s, b_rb = ar_new_empty A (schema_arrow s)\<rparr>"

definition from_arrays :: "arrow \<Rightarrow> schema \<Rightarrow> arrow_array list \<Rightarrow> batch option" where
  "from_arrays A s arrays =
     do { rb \<leftarrow> ar_try_new A (schema_arrow s) arrays; Some \<lparr>b_schema = s, b_rb = rb\<rparr> }"

definition from_rows :: "arrow \<Rightarrow> schema \<Rightarrow> row list \<Rightarrow> batch option" where
  "from_rows A s rows =
     do {
       arrays \<leftarrow> traverse (\<lambda>(ci, col). build_column A (cd_ty col) rows ci) (enumerate 0 (sc_columns s));
       from_arrays A s arrays }"

definition b_len :: "batch \<Rightarrow> nat" where
  "b_len b = rb_num_rows (b_rb b)"

definition b_is_empty :: "batch \<Rightarrow> bool" where
  "b_is_empty b \<longleftrightarrow> rb_num_rows (b_rb b) = 0"

definition b_value :: "batch \<Rightarrow> nat \<Rightarrow> nat \<Rightarrow> value_t option" where
  "b_value b col i =
     do {
       arr \<leftarrow> nth_opt (rb_columns (b_rb b)) col;
       c \<leftarrow> nth_opt (sc_columns (b_schema b)) col;
       array_value arr (cd_ty c) i }"

definition b_key :: "batch \<Rightarrow> nat \<Rightarrow> value_t option" where
  "b_key b i = b_value b (sc_key_index (b_schema b)) i"

definition b_row :: "batch \<Rightarrow> nat \<Rightarrow> row option" where
  "b_row b i = traverse (\<lambda>c. b_value b c i) [0..<arity (b_schema b)]"

definition b_keys :: "batch \<Rightarrow> value_t list option" where
  "b_keys b = traverse (b_key b) [0..<b_len b]"

definition b_iter :: "batch \<Rightarrow> row list option" where
  "b_iter b = traverse (b_row b) [0..<b_len b]"

definition b_take :: "arrow \<Rightarrow> batch \<Rightarrow> u32 list \<Rightarrow> batch option" where
  "b_take A b indices =
     do {
       arrays \<leftarrow> traverse (\<lambda>c. ar_take A c indices) (rb_columns (b_rb b));
       from_arrays A (b_schema b) arrays }"

definition b_concat :: "arrow \<Rightarrow> schema \<Rightarrow> batch list \<Rightarrow> batch option" where
  "b_concat A s batches =
     (let non_empty = map b_rb (filter (\<lambda>b. \<not> b_is_empty b) batches)
      in if non_empty = [] then Some (b_empty A s)
         else do { rb \<leftarrow> ar_concat A (schema_arrow s) non_empty; Some \<lparr>b_schema = s, b_rb = rb\<rparr> })"

definition is_sorted_by_key :: "batch \<Rightarrow> bool option" where
  "is_sorted_by_key b =
     all_opt (\<lambda>i. do { x \<leftarrow> b_key b (i - 1); y \<leftarrow> b_key b i; Some (total_cmp x y \<noteq> Greater) })
       [1..<b_len b]"

text \<open>
  The zonemap of a column; the outer option is the panic of a column index out of range.
\<close>

definition both :: "('a \<Rightarrow> value_t) \<Rightarrow> 'a option \<Rightarrow> 'a option \<Rightarrow> (value_t \<times> value_t) option" where
  "both f mn mx = do { a \<leftarrow> mn; b \<leftarrow> mx; Some (f a, f b) }"

definition dec_min :: "i128 option list \<Rightarrow> i128 option" where
  "dec_min xs =
     fold (\<lambda>x mn. case x of None \<Rightarrow> mn
       | Some v \<Rightarrow> Some (case mn of None \<Rightarrow> v | Some m \<Rightarrow> if sint v < sint m then v else m)) xs None"

definition dec_max :: "i128 option list \<Rightarrow> i128 option" where
  "dec_max xs =
     fold (\<lambda>x mx. case x of None \<Rightarrow> mx
       | Some v \<Rightarrow> Some (case mx of None \<Rightarrow> v | Some m \<Rightarrow> if sint m \<le> sint v then v else m)) xs None"

fun array_bounds :: "arrow \<Rightarrow> data_type \<Rightarrow> arrow_array \<Rightarrow> (value_t \<times> value_t) option" where
  "array_bounds A TInt (AInt64 xs) = both VInt (ar_min_i64 A xs) (ar_max_i64 A xs)"
| "array_bounds A TFloat (AFloat64 xs) = both VFloat (ar_min_f64 A xs) (ar_max_f64 A xs)"
| "array_bounds A TText (AUtf8 xs) = both VText (ar_min_str A xs) (ar_max_str A xs)"
| "array_bounds A TBool (ABoolean xs) = both VBool (ar_min_bool A xs) (ar_max_bool A xs)"
| "array_bounds A TDate (ADate32 xs) = both (\<lambda>d. VInt (scast d)) (ar_min_i32 A xs) (ar_max_i32 A xs)"
| "array_bounds A TTimestamp (ATimestamp xs) = both VInt (ar_min_i64 A xs) (ar_max_i64 A xs)"
| "array_bounds A (TDecimal _ sc) (ADecimal _ _ xs) =
     both (\<lambda>m. VDecimal m (ucast sc)) (dec_min xs) (dec_max xs)"
| "array_bounds A _ _ = None"

definition column_bounds :: "arrow \<Rightarrow> batch \<Rightarrow> nat \<Rightarrow> (value_t \<times> value_t) option option" where
  "column_bounds A b col =
     do {
       arr \<leftarrow> nth_opt (rb_columns (b_rb b)) col;
       c \<leftarrow> nth_opt (sc_columns (b_schema b)) col;
       Some (array_bounds A (cd_ty c) arr) }"

section \<open>What a column stores\<close>

fun canon :: "data_type \<Rightarrow> value_t \<Rightarrow> value_t" where
  "canon TInt v = case_option VNull VInt (int_cell v)"
| "canon TFloat v = case_option VNull VFloat (float_cell v)"
| "canon TText v = case_option VNull VText (text_cell v)"
| "canon TBool v = case_option VNull VBool (bool_cell v)"
| "canon TDate v = case_option VNull (\<lambda>d. VInt (scast d)) (date_cell v)"
| "canon TTimestamp v = case_option VNull VInt (int_cell v)"
| "canon (TDecimal p sc) v = case_option VNull (\<lambda>m. VDecimal m (ucast sc)) (decimal_cell sc v)"

definition canon_row :: "schema \<Rightarrow> row \<Rightarrow> row" where
  "canon_row s r = map2 (\<lambda>c v. canon (cd_ty c) v) (sc_columns s) r"

text \<open>Rows whose values are already in their column's representation.\<close>

definition row_ok :: "schema \<Rightarrow> row \<Rightarrow> bool" where
  "row_ok s r \<longleftrightarrow> length r = arity s \<and> (\<forall>i < arity s. col_value (col_ty s i) (r ! i))"

lemma sint_scast_i32: "sint (scast (d :: i32) :: i64) = sint d"
  by (rule sint_up_scast) (simp add: is_up)

lemma scast_ucast_date:
  assumes "- (2 ^ 31) \<le> sint (i :: i64)" "sint i < 2 ^ 31"
  shows "(scast (ucast i :: i32) :: i64) = i"
proof -
  have "(ucast i :: i32) = word_of_int (sint i)"
    by (rule bit_word_eqI) (simp add: bit_simps)
  moreover have "sint (word_of_int (sint i) :: i32) = sint i"
    using assms by (subst sint_sbintrunc', intro signed_take_bit_int_eq_self) simp_all
  ultimately have "sint (ucast i :: i32) = sint i" by simp
  then show ?thesis by (metis sint_scast_i32 signed_word_eqI)
qed

lemma canon_id: "col_value ty v \<Longrightarrow> canon ty v = v"
  by (cases ty; cases v) (auto simp: date_cell_def scast_ucast_date)

lemma col_value_canon: "col_value ty (canon ty v)"
proof -
  have "- (2 ^ 31) \<le> sint d" "sint d < 2 ^ 31" for d :: i32
    using sint_ge [of d] sint_lt [of d] by simp_all
  then show ?thesis by (cases ty) (auto simp: sint_scast_i32 split: option.split)
qed

lemma canon_row_id: "row_ok s r \<Longrightarrow> canon_row s r = r"
  by (auto simp: canon_row_def row_ok_def arity_def col_ty_def canon_id intro: nth_equalityI)

section \<open>The Arrow contract\<close>

text \<open>
  What the engine relies on of Arrow, as documented: a record batch is built from equally
  long arrays of the field types; \<open>take\<close> gathers by index; \<open>concat_batches\<close> lays the
  batches one after another; a decimal type is valid up to 38 digits with a scale of at
  most the precision.
\<close>

definition rb_typed :: "fields \<Rightarrow> record_batch \<Rightarrow> bool" where
  "rb_typed fs rb \<longleftrightarrow>
     map arr_type (rb_columns rb) = map snd fs \<and> (\<forall>c \<in> set (rb_columns rb). arr_len c = rb_num_rows rb)"

definition arrow_try_new_ok :: "arrow \<Rightarrow> bool" where
  "arrow_try_new_ok A \<longleftrightarrow>
     (\<forall>fs cols n. fs \<noteq> [] \<longrightarrow> map arr_type cols = map snd fs \<longrightarrow> (\<forall>c \<in> set cols. arr_len c = n) \<longrightarrow>
        ar_try_new A fs cols = Some \<lparr>rb_num_rows = n, rb_columns = cols\<rparr>) \<and>
     (\<forall>fs. rb_typed fs (ar_new_empty A fs) \<and> rb_num_rows (ar_new_empty A fs) = 0)"

definition arrow_take_ok :: "arrow \<Rightarrow> bool" where
  "arrow_take_ok A \<longleftrightarrow>
     (\<forall>arr idx. (\<forall>j \<in> set idx. unat j < arr_len arr) \<longrightarrow>
        (\<exists>arr'. ar_take A arr idx = Some arr' \<and> arr_type arr' = arr_type arr \<and> arr_len arr' = length idx \<and>
           (\<forall>k < length idx. \<forall>ty. array_value arr' ty k = array_value arr ty (unat (idx ! k)))))"

definition arrow_concat_ok :: "arrow \<Rightarrow> bool" where
  "arrow_concat_ok A \<longleftrightarrow>
     (\<forall>fs rbs. rbs \<noteq> [] \<longrightarrow> (\<forall>rb \<in> set rbs. rb_typed fs rb) \<longrightarrow>
        (\<exists>rb'. ar_concat A fs rbs = Some rb' \<and> rb_typed fs rb' \<and>
           rb_num_rows rb' = sum_list (map rb_num_rows rbs) \<and>
           (\<forall>k < length rbs. \<forall>i < rb_num_rows (rbs ! k). \<forall>c < length fs. \<forall>ty.
              array_value (rb_columns rb' ! c) ty (sum_list (map rb_num_rows (take k rbs)) + i) =
              array_value (rb_columns (rbs ! k) ! c) ty i)))"

definition arrow_decimal_ok :: "arrow \<Rightarrow> bool" where
  "arrow_decimal_ok A \<longleftrightarrow> (\<forall>p s. 1 \<le> p \<longrightarrow> p \<le> 38 \<longrightarrow> s \<le> p \<longrightarrow> ar_decimal_ok A p s)"

definition arrow_ok :: "arrow \<Rightarrow> bool" where
  "arrow_ok A \<longleftrightarrow> arrow_try_new_ok A \<and> arrow_take_ok A \<and> arrow_concat_ok A \<and> arrow_decimal_ok A"

text \<open>Schemas whose decimal columns have a valid precision and scale.\<close>

definition decimals_ok :: "schema \<Rightarrow> bool" where
  "decimals_ok s \<longleftrightarrow>
     list_all (\<lambda>c. case cd_ty c of TDecimal p sc \<Rightarrow> 1 \<le> p \<and> p \<le> 38 \<and> sc \<le> p | _ \<Rightarrow> True) (sc_columns s)"

section \<open>Well-formed batches and their rows\<close>

definition batch_ok :: "batch \<Rightarrow> bool" where
  "batch_ok b \<longleftrightarrow> schema_ok (b_schema b) \<and> rb_typed (schema_arrow (b_schema b)) (b_rb b)"

definition batch_row :: "batch \<Rightarrow> nat \<Rightarrow> row" where
  "batch_row b i = map (\<lambda>c. the (b_value b c i)) [0..<arity (b_schema b)]"

definition batch_rows :: "batch \<Rightarrow> row list" where
  "batch_rows b = map (batch_row b) [0..<b_len b]"

lemma length_batch_rows [simp]: "length (batch_rows b) = b_len b"
  by (simp add: batch_rows_def)

lemma nth_batch_rows: "i < b_len b \<Longrightarrow> batch_rows b ! i = batch_row b i"
  by (simp add: batch_rows_def)

lemma array_value_ok:
  assumes "arr_type arr = arrow_type ty" "i < arr_len arr"
  shows "\<exists>v. array_value arr ty i = Some v \<and> col_value ty v"
proof -
  have d: "- (2 ^ 31) \<le> sint d" "sint d < 2 ^ 31" for d :: i32
    using sint_ge [of d] sint_lt [of d] by simp_all
  then show ?thesis
    using assms by (cases ty; cases arr) (auto simp: sint_scast_i32 split: option.split)
qed

lemma batch_ok_cols:
  assumes "batch_ok b"
  shows "length (rb_columns (b_rb b)) = arity (b_schema b)"
    and "c < arity (b_schema b) \<Longrightarrow> arr_type (rb_columns (b_rb b) ! c) = arrow_type (col_ty (b_schema b) c)"
    and "c < arity (b_schema b) \<Longrightarrow> arr_len (rb_columns (b_rb b) ! c) = b_len b"
proof -
  have m: "map arr_type (rb_columns (b_rb b)) = map snd (schema_arrow (b_schema b))"
    using assms by (simp add: batch_ok_def rb_typed_def)
  show l: "length (rb_columns (b_rb b)) = arity (b_schema b)"
    using arg_cong [OF m, of length] by (simp add: schema_arrow_def arity_def)
  show "c < arity (b_schema b) \<Longrightarrow> arr_type (rb_columns (b_rb b) ! c) = arrow_type (col_ty (b_schema b) c)"
    using arg_cong [OF m, of "\<lambda>xs. xs ! c"] l by (simp add: schema_arrow_def arity_def col_ty_def)
  show "c < arity (b_schema b) \<Longrightarrow> arr_len (rb_columns (b_rb b) ! c) = b_len b"
    using assms l by (simp add: batch_ok_def rb_typed_def b_len_def)
qed

lemma b_value_array:
  assumes "batch_ok b" "c < arity (b_schema b)"
  shows "b_value b c i = array_value (rb_columns (b_rb b) ! c) (col_ty (b_schema b) c) i"
  using assms batch_ok_cols(1) [OF assms(1)] by (simp add: b_value_def arity_def col_ty_def)

lemma b_value_ok:
  assumes "batch_ok b" "c < arity (b_schema b)" "i < b_len b"
  shows "b_value b c i = Some (batch_row b i ! c)" "col_value (col_ty (b_schema b) c) (batch_row b i ! c)"
proof -
  obtain v where v: "array_value (rb_columns (b_rb b) ! c) (col_ty (b_schema b) c) i = Some v"
      "col_value (col_ty (b_schema b) c) v"
    using array_value_ok batch_ok_cols(2,3) [OF assms(1,2)] assms(3) by metis
  then have "b_value b c i = Some v" by (simp add: b_value_array [OF assms(1,2)])
  then show "b_value b c i = Some (batch_row b i ! c)" "col_value (col_ty (b_schema b) c) (batch_row b i ! c)"
    using v(2) assms(2) by (simp_all add: batch_row_def)
qed

lemma length_batch_row [simp]: "length (batch_row b i) = arity (b_schema b)"
  by (simp add: batch_row_def)

lemma row_ok_batch_row: "batch_ok b \<Longrightarrow> i < b_len b \<Longrightarrow> row_ok (b_schema b) (batch_row b i)"
  using b_value_ok(2) by (simp add: row_ok_def)

lemma row_ok_batch_rows: "batch_ok b \<Longrightarrow> r \<in> set (batch_rows b) \<Longrightarrow> row_ok (b_schema b) r"
  by (auto simp: batch_rows_def row_ok_batch_row)

lemma b_row_ok [ck_ok]: "batch_ok b \<Longrightarrow> i < b_len b \<Longrightarrow> b_row b i = Some (batch_rows b ! i)"
  unfolding b_row_def
  by (subst traverse_Some [where g = "\<lambda>c. batch_row b i ! c"])
     (auto simp: b_value_ok nth_batch_rows intro: nth_equalityI)

definition batch_key :: "batch \<Rightarrow> nat \<Rightarrow> value_t" where
  "batch_key b i = batch_row b i ! sc_key_index (b_schema b)"

lemma b_key_ok [ck_ok]: "batch_ok b \<Longrightarrow> i < b_len b \<Longrightarrow> b_key b i = Some (batch_key b i)"
  unfolding b_key_def batch_key_def
  by (rule b_value_ok) (auto simp: batch_ok_def schema_ok_def arity_def)

lemma b_keys_ok [ck_ok]: "batch_ok b \<Longrightarrow> b_keys b = Some (map (batch_key b) [0..<b_len b])"
  unfolding b_keys_def by (rule traverse_Some) (simp add: b_key_ok)

lemma b_iter_ok [ck_ok]: "batch_ok b \<Longrightarrow> b_iter b = Some (batch_rows b)"
  unfolding b_iter_def
  by (subst traverse_Some [where g = "\<lambda>i. batch_rows b ! i"]) (auto simp: b_row_ok intro: nth_equalityI)

lemma batch_key_col: "batch_ok b \<Longrightarrow> i < b_len b \<Longrightarrow> batch_key b i \<in> col_values (col_ty (b_schema b) (sc_key_index (b_schema b)))"
  unfolding batch_key_def col_values_def
  using b_value_ok(2) [of b "sc_key_index (b_schema b)" i] by (simp add: batch_ok_def schema_ok_def arity_def)

section \<open>Building from rows\<close>

lemma build_column_ok:
  assumes "arrow_ok A" "decimals_ok s" "ci < arity s" "\<forall>r \<in> set rows. length r = arity s"
  obtains arr where "build_column A (col_ty s ci) rows ci = Some arr" "arr_type arr = arrow_type (col_ty s ci)"
    "arr_len arr = length rows"
    "\<And>i. i < length rows \<Longrightarrow> array_value arr (col_ty s ci) i = Some (canon (col_ty s ci) (rows ! i ! ci))"
proof -
  let ?ty = "col_ty s ci"
  have vs: "traverse (\<lambda>r. nth_opt r ci) rows = Some (map (\<lambda>r. r ! ci) rows)"
    using assms(3,4) by (intro traverse_Some) simp
  have dec: "ar_decimal_ok A p sc" if "?ty = TDecimal p sc" for p sc
  proof -
    have "sc_columns s ! ci \<in> set (sc_columns s)" using assms(3) by (simp add: arity_def)
    then show ?thesis using assms(1,2) that
      by (auto simp: arrow_ok_def arrow_decimal_ok_def decimals_ok_def list_all_iff col_ty_def split: data_type.splits)
  qed
  show ?thesis
    by (cases ?ty; rule that) (auto simp: build_column_def vs dec date_cell_def)
qed

text \<open>A batch built from rows holds them in their columns' representation.\<close>

lemma from_rows_ok:
  assumes "arrow_ok A" "schema_ok s" "decimals_ok s" "\<forall>r \<in> set rows. length r = arity s"
  obtains b where "from_rows A s rows = Some b" "batch_ok b" "b_schema b = s"
    "b_len b = length rows" "batch_rows b = map (canon_row s) rows"
proof -
  define col where "col = (\<lambda>ci. the (build_column A (col_ty s ci) rows ci))"
  have col: "build_column A (col_ty s ci) rows ci = Some (col ci)" "arr_type (col ci) = arrow_type (col_ty s ci)"
    "arr_len (col ci) = length rows"
    "i < length rows \<Longrightarrow> array_value (col ci) (col_ty s ci) i = Some (canon (col_ty s ci) (rows ! i ! ci))"
    if ci: "ci < arity s" for ci i
  proof -
    obtain arr where "build_column A (col_ty s ci) rows ci = Some arr" "arr_type arr = arrow_type (col_ty s ci)"
      "arr_len arr = length rows"
      "\<And>i. i < length rows \<Longrightarrow> array_value arr (col_ty s ci) i = Some (canon (col_ty s ci) (rows ! i ! ci))"
      by (rule build_column_ok [OF assms(1,3) ci assms(4)]) blast
    then show "build_column A (col_ty s ci) rows ci = Some (col ci)" "arr_type (col ci) = arrow_type (col_ty s ci)"
      "arr_len (col ci) = length rows"
      "i < length rows \<Longrightarrow> array_value (col ci) (col_ty s ci) i = Some (canon (col_ty s ci) (rows ! i ! ci))"
      by (simp_all add: col_def)
  qed
  let ?cols = "map col [0..<arity s]"
  have trav: "traverse (\<lambda>(ci, c). build_column A (cd_ty c) rows ci) (enumerate 0 (sc_columns s)) = Some ?cols"
    unfolding traverse_eq_Some using col(1) by (simp add: nth_enumerate_eq arity_def col_ty_def)
  have types: "map arr_type ?cols = map snd (schema_arrow s)"
    using col(2) by (intro nth_equalityI) (auto simp: schema_arrow_def arity_def col_ty_def)
  have lens: "\<forall>c \<in> set ?cols. arr_len c = length rows" using col(3) by auto
  have ne: "schema_arrow s \<noteq> []" using assms(2) by (auto simp: schema_ok_def schema_arrow_def)
  let ?rb = "\<lparr>rb_num_rows = length rows, rb_columns = ?cols\<rparr>"
  let ?b = "\<lparr>b_schema = s, b_rb = ?rb\<rparr>"
  have new: "ar_try_new A (schema_arrow s) ?cols = Some ?rb"
    using assms(1) ne types lens unfolding arrow_ok_def arrow_try_new_ok_def by blast
  have ok: "batch_ok ?b" using assms(2) types lens by (simp add: batch_ok_def rb_typed_def)
  have "batch_rows ?b = map (canon_row s) rows"
  proof (rule nth_equalityI)
    fix i assume "i < length (batch_rows ?b)"
    then have i: "i < length rows" by (simp add: b_len_def)
    have len: "length (rows ! i) = arity s" using assms(4) i by simp
    show "batch_rows ?b ! i = map (canon_row s) rows ! i"
      using i len b_value_array [OF ok] col(4)
      by (auto simp: nth_batch_rows b_len_def batch_row_def canon_row_def arity_def col_ty_def intro!: nth_equalityI)
  qed (simp add: b_len_def)
  moreover have "from_rows A s rows = Some ?b" unfolding from_rows_def trav by (simp add: from_arrays_def new)
  ultimately show ?thesis using that ok by (simp add: b_len_def)
qed

section \<open>Selection and concatenation\<close>

text \<open>Two batches whose cells agree position by position have the same rows there.\<close>

lemma batch_row_cong:
  assumes "batch_ok b" "batch_ok b'" "b_schema b' = b_schema b"
    "\<forall>c < arity (b_schema b). \<forall>ty. array_value (rb_columns (b_rb b') ! c) ty j = array_value (rb_columns (b_rb b) ! c) ty i"
  shows "batch_row b' j = batch_row b i"
  using assms by (auto simp: batch_row_def b_value_array intro!: nth_equalityI)

lemma b_take_ok:
  assumes "arrow_ok A" "batch_ok b" "\<forall>j \<in> set idx. unat j < b_len b"
  obtains b' where "b_take A b idx = Some b'" "batch_ok b'" "b_schema b' = b_schema b"
    "b_len b' = length idx" "batch_rows b' = map (\<lambda>j. batch_rows b ! unat j) idx"
proof -
  let ?s = "b_schema b" and ?cs = "rb_columns (b_rb b)"
  note cols = batch_ok_cols [OF assms(2)]
  define g where "g = (\<lambda>arr. the (ar_take A arr idx))"
  have g: "ar_take A arr idx = Some (g arr)" "arr_type (g arr) = arr_type arr" "arr_len (g arr) = length idx"
    "k < length idx \<Longrightarrow> array_value (g arr) ty k = array_value arr ty (unat (idx ! k))"
    if arr: "arr \<in> set ?cs" for arr k ty
  proof -
    have "arr_len arr = b_len b"
      using assms(2) arr by (simp add: batch_ok_def rb_typed_def b_len_def)
    then obtain arr' where "ar_take A arr idx = Some arr'" "arr_type arr' = arr_type arr" "arr_len arr' = length idx"
        "\<forall>k < length idx. \<forall>ty. array_value arr' ty k = array_value arr ty (unat (idx ! k))"
      using assms(1,3) unfolding arrow_ok_def arrow_take_ok_def by metis
    then show "ar_take A arr idx = Some (g arr)" "arr_type (g arr) = arr_type arr" "arr_len (g arr) = length idx"
      "k < length idx \<Longrightarrow> array_value (g arr) ty k = array_value arr ty (unat (idx ! k))"
      by (simp_all add: g_def)
  qed
  let ?rb = "\<lparr>rb_num_rows = length idx, rb_columns = map g ?cs\<rparr>"
  let ?b = "\<lparr>b_schema = ?s, b_rb = ?rb\<rparr>"
  have trav: "traverse (\<lambda>c. ar_take A c idx) ?cs = Some (map g ?cs)" by (rule traverse_Some) (rule g(1))
  have tys: "map arr_type (map g ?cs) = map snd (schema_arrow ?s)"
  proof -
    have "map arr_type (map g ?cs) = map arr_type ?cs" using g(2) by simp
    then show ?thesis using assms(2) by (simp only: batch_ok_def rb_typed_def)
  qed
  have ne: "schema_arrow ?s \<noteq> []" using assms(2) by (auto simp: batch_ok_def schema_ok_def schema_arrow_def)
  have lens: "\<forall>c \<in> set (map g ?cs). arr_len c = length idx" using g(3) by simp
  have new: "ar_try_new A (schema_arrow ?s) (map g ?cs) = Some ?rb"
    using assms(1) tys ne lens unfolding arrow_ok_def arrow_try_new_ok_def by blast
  have ok: "batch_ok ?b" using assms(2) tys lens by (simp add: batch_ok_def rb_typed_def)
  have "batch_rows ?b = map (\<lambda>j. batch_rows b ! unat j) idx"
  proof (rule nth_equalityI)
    fix i assume "i < length (batch_rows ?b)"
    then have i: "i < length idx" by (simp add: b_len_def)
    have "batch_row ?b i = batch_row b (unat (idx ! i))"
      using g(4) [OF _ i] cols(1) by (intro batch_row_cong [OF assms(2) ok]) auto
    then show "batch_rows ?b ! i = map (\<lambda>j. batch_rows b ! unat j) idx ! i"
      using i assms(3) by (simp add: nth_batch_rows b_len_def)
  qed (simp add: b_len_def)
  moreover have "b_take A b idx = Some ?b" unfolding b_take_def trav by (simp add: from_arrays_def new)
  ultimately show ?thesis using that ok by (simp add: b_len_def)
qed

lemma concat_index:
  "n < sum_list (map f xs) \<Longrightarrow> \<exists>k i. k < length xs \<and> i < f (xs ! k) \<and> n = sum_list (map f (take k xs)) + (i :: nat)"
proof (induction xs arbitrary: n)
  case (Cons x xs)
  show ?case
  proof (cases "n < f x")
    case True
    then show ?thesis by (intro exI [of _ 0] exI [of _ n]) simp
  next
    case False
    then have "n - f x < sum_list (map f xs)" using Cons.prems by simp
    from Cons.IH [OF this] obtain k i where "k < length xs" "i < f (xs ! k)"
        "n - f x = sum_list (map f (take k xs)) + i"
      by blast
    then show ?thesis using False by (intro exI [of _ "Suc k"] exI [of _ i]) simp
  qed
qed simp

lemma nth_concat_offset:
  "k < length xss \<Longrightarrow> i < length (xss ! k) \<Longrightarrow>
     concat xss ! (sum_list (map length (take k xss)) + i) = xss ! k ! i"
proof (induction xss arbitrary: k)
  case (Cons xs xss)
  then show ?case by (cases k) (auto simp: nth_append)
qed simp

lemma concat_filter_Nil: "concat (map f (filter P xs)) = concat (map f xs)"
  if "\<And>x. x \<in> set xs \<Longrightarrow> \<not> P x \<Longrightarrow> f x = []"
  using that by (induction xs) auto

lemma b_len_fun: "b_len = (\<lambda>b. rb_num_rows (b_rb b))"
  by (simp add: fun_eq_iff b_len_def)

lemma b_empty_ok:
  assumes "arrow_ok A" "schema_ok s"
  shows "batch_ok (b_empty A s)" "b_len (b_empty A s) = 0" "b_schema (b_empty A s) = s"
  using assms by (simp_all add: b_empty_def batch_ok_def arrow_ok_def arrow_try_new_ok_def b_len_def)

lemma b_concat_ok:
  assumes "arrow_ok A" "schema_ok s" "\<forall>b \<in> set bs. batch_ok b \<and> b_schema b = s"
  obtains b' where "b_concat A s bs = Some b'" "batch_ok b'" "b_schema b' = s"
    "batch_rows b' = concat (map batch_rows bs)"
proof -
  let ?ne = "filter (\<lambda>b. \<not> b_is_empty b) bs"
  let ?rbs = "map b_rb ?ne"
  have drop: "concat (map batch_rows ?ne) = concat (map batch_rows bs)"
    by (rule concat_filter_Nil) (simp add: b_is_empty_def b_len_def batch_rows_def)
  show ?thesis
  proof (cases "?rbs = []")
    case True
    then have "batch_rows (b_empty A s) = concat (map batch_rows bs)"
      using drop b_empty_ok(2) [OF assms(1,2)] by (simp add: batch_rows_def)
    moreover have "b_concat A s bs = Some (b_empty A s)" using True by (simp add: b_concat_def)
    ultimately show ?thesis using that b_empty_ok [OF assms(1,2)] by simp
  next
    case False
    have fs: "length (schema_arrow s) = arity s" by (simp add: schema_arrow_def arity_def)
    have "\<forall>rb \<in> set ?rbs. rb_typed (schema_arrow s) rb" using assms(3) by (auto simp: batch_ok_def)
    then obtain rb' where rb: "ar_concat A (schema_arrow s) ?rbs = Some rb'" "rb_typed (schema_arrow s) rb'"
        "rb_num_rows rb' = sum_list (map rb_num_rows ?rbs)"
        "\<forall>k < length ?rbs. \<forall>i < rb_num_rows (?rbs ! k). \<forall>c < length (schema_arrow s). \<forall>ty.
           array_value (rb_columns rb' ! c) ty (sum_list (map rb_num_rows (take k ?rbs)) + i) =
           array_value (rb_columns (?rbs ! k) ! c) ty i"
      using assms(1) False unfolding arrow_ok_def arrow_concat_ok_def by metis
    let ?b = "\<lparr>b_schema = s, b_rb = rb'\<rparr>"
    have ok: "batch_ok ?b" using assms(2) rb(2) by (simp add: batch_ok_def)
    have len: "b_len ?b = sum_list (map b_len ?ne)" using rb(3) by (simp add: b_len_fun comp_def)
    have "batch_rows ?b = concat (map batch_rows ?ne)"
    proof (rule nth_equalityI)
      show "length (batch_rows ?b) = length (concat (map batch_rows ?ne))"
        using len by (simp add: length_concat comp_def)
      fix n assume "n < length (batch_rows ?b)"
      then have n: "n < sum_list (map b_len ?ne)" using len by simp
      then obtain k i where k: "k < length ?ne" "i < b_len (?ne ! k)" "n = sum_list (map b_len (take k ?ne)) + i"
        using concat_index by blast
      have mem: "?ne ! k \<in> set bs" using nth_mem [OF k(1)] by auto
      have n': "n = sum_list (map rb_num_rows (take k ?rbs)) + i"
        using k(3) by (simp add: take_map b_len_fun comp_def)
      have "batch_row ?b n = batch_row (?ne ! k) i"
        using rb(4) k(1,2) fs assms(3) mem
        by (intro batch_row_cong [OF _ ok]) (auto simp: n' b_len_def)
      moreover have "concat (map batch_rows ?ne) ! n = batch_rows (?ne ! k) ! i"
        using nth_concat_offset [of k "map batch_rows ?ne" i] k by (simp add: take_map comp_def)
      ultimately show "batch_rows ?b ! n = concat (map batch_rows ?ne) ! n"
        using n len k(2) by (simp add: nth_batch_rows)
    qed
    moreover have "b_concat A s bs = Some ?b" using False rb(1) by (simp add: b_concat_def)
    ultimately show ?thesis using that ok drop by simp
  qed
qed

section \<open>Sorted batches\<close>

lemma adjacent_iff:
  "(\<forall>i \<in> set [1..<n]. P (i - 1) i) \<longleftrightarrow> (\<forall>i. Suc i < n \<longrightarrow> P i (Suc i))"
proof
  assume a: "\<forall>i. Suc i < n \<longrightarrow> P i (Suc i)"
  show "\<forall>i \<in> set [1..<n]. P (i - 1) i"
  proof
    fix i assume "i \<in> set [1..<n]"
    then have "1 \<le> i" "i < n" by simp_all
    then show "P (i - 1) i" using a [rule_format, of "i - 1"] by simp
  qed
qed force

lemma is_sorted_by_key_ok:
  assumes "batch_ok b"
  shows "is_sorted_by_key b = Some (\<forall>i. Suc i < b_len b \<longrightarrow> total_cmp (batch_key b i) (batch_key b (Suc i)) \<noteq> Greater)"
proof -
  have "is_sorted_by_key b =
      Some (list_all (\<lambda>i. total_cmp (batch_key b (i - 1)) (batch_key b i) \<noteq> Greater) [1..<b_len b])"
    unfolding is_sorted_by_key_def by (rule all_opt_Some) (use assms in \<open>auto simp: b_key_ok\<close>)
  also have "list_all (\<lambda>i. total_cmp (batch_key b (i - 1)) (batch_key b i) \<noteq> Greater) [1..<b_len b] \<longleftrightarrow>
      (\<forall>i. Suc i < b_len b \<longrightarrow> total_cmp (batch_key b i) (batch_key b (Suc i)) \<noteq> Greater)"
    unfolding list_all_iff by (rule adjacent_iff)
  finally show ?thesis .
qed

definition key_ty :: "schema \<Rightarrow> data_type" where
  "key_ty s = col_ty s (sc_key_index s)"

section \<open>A model of the Arrow contract\<close>

fun arr_empty :: "arrow_dtype \<Rightarrow> arrow_array" where
  "arr_empty Int64 = AInt64 []"
| "arr_empty Float64 = AFloat64 []"
| "arr_empty Utf8 = AUtf8 []"
| "arr_empty Boolean = ABoolean []"
| "arr_empty Date32 = ADate32 []"
| "arr_empty TimestampMicros = ATimestamp []"
| "arr_empty (Decimal128 p s) = ADecimal p s []"

fun arr_gather :: "arrow_array \<Rightarrow> nat list \<Rightarrow> arrow_array" where
  "arr_gather (AInt64 xs) js = AInt64 (map ((!) xs) js)"
| "arr_gather (AFloat64 xs) js = AFloat64 (map ((!) xs) js)"
| "arr_gather (AUtf8 xs) js = AUtf8 (map ((!) xs) js)"
| "arr_gather (ABoolean xs) js = ABoolean (map ((!) xs) js)"
| "arr_gather (ADate32 xs) js = ADate32 (map ((!) xs) js)"
| "arr_gather (ATimestamp xs) js = ATimestamp (map ((!) xs) js)"
| "arr_gather (ADecimal p s xs) js = ADecimal p s (map ((!) xs) js)"

fun arr_append :: "arrow_array \<Rightarrow> arrow_array \<Rightarrow> arrow_array" where
  "arr_append (AInt64 xs) (AInt64 ys) = AInt64 (xs @ ys)"
| "arr_append (AFloat64 xs) (AFloat64 ys) = AFloat64 (xs @ ys)"
| "arr_append (AUtf8 xs) (AUtf8 ys) = AUtf8 (xs @ ys)"
| "arr_append (ABoolean xs) (ABoolean ys) = ABoolean (xs @ ys)"
| "arr_append (ADate32 xs) (ADate32 ys) = ADate32 (xs @ ys)"
| "arr_append (ATimestamp xs) (ATimestamp ys) = ATimestamp (xs @ ys)"
| "arr_append (ADecimal p s xs) (ADecimal p' s' ys) = ADecimal p s (xs @ ys)"
| "arr_append a b = a"

definition opt_extreme :: "('a \<Rightarrow> 'a \<Rightarrow> bool) \<Rightarrow> 'a option list \<Rightarrow> 'a option" where
  "opt_extreme better xs =
     fold (\<lambda>x acc. case x of None \<Rightarrow> acc
       | Some v \<Rightarrow> (case acc of None \<Rightarrow> Some v | Some m \<Rightarrow> if better v m then Some v else Some m)) xs None"

definition ref_arrow :: arrow where
  "ref_arrow = \<lparr>
     ar_try_new = (\<lambda>fs cols.
       if fs \<noteq> [] \<and> map arr_type cols = map snd fs \<and> (\<forall>c \<in> set cols. arr_len c = arr_len (hd cols))
       then Some \<lparr>rb_num_rows = arr_len (hd cols), rb_columns = cols\<rparr> else None),
     ar_new_empty = (\<lambda>fs. \<lparr>rb_num_rows = 0, rb_columns = map (\<lambda>f. arr_empty (snd f)) fs\<rparr>),
     ar_decimal_ok = (\<lambda>p s. 1 \<le> p \<and> p \<le> 38 \<and> s \<le> p),
     ar_take = (\<lambda>arr idx.
       if \<forall>j \<in> set idx. unat j < arr_len arr then Some (arr_gather arr (map unat idx)) else None),
     ar_concat = (\<lambda>fs rbs. Some \<lparr>rb_num_rows = sum_list (map rb_num_rows rbs),
       rb_columns = map (\<lambda>c. foldr arr_append (map (\<lambda>rb. rb_columns rb ! c) rbs) (arr_empty (snd (fs ! c))))
         [0..<length fs]\<rparr>),
     ar_min_i64 = opt_extreme (\<lambda>a b. sint a < sint b),
     ar_max_i64 = opt_extreme (\<lambda>a b. sint b < sint a),
     ar_min_i32 = opt_extreme (\<lambda>a b. sint a < sint b),
     ar_max_i32 = opt_extreme (\<lambda>a b. sint b < sint a),
     ar_min_f64 = opt_extreme (\<lambda>a b. f64_total_cmp a b = Less),
     ar_max_f64 = opt_extreme (\<lambda>a b. f64_total_cmp b a = Less),
     ar_min_str = opt_extreme (\<lambda>a b. str_cmp a b = Less),
     ar_max_str = opt_extreme (\<lambda>a b. str_cmp b a = Less),
     ar_min_bool = opt_extreme (\<lambda>a b. a < b),
     ar_max_bool = opt_extreme (\<lambda>a b. b < a)\<rparr>"

lemma arr_empty_simps [simp]: "arr_type (arr_empty t) = t" "arr_len (arr_empty t) = 0"
  by (cases t; simp)+

lemma arr_gather_facts:
  assumes "\<forall>j \<in> set js. j < arr_len arr"
  shows "arr_type (arr_gather arr js) = arr_type arr" "arr_len (arr_gather arr js) = length js"
    "k < length js \<Longrightarrow> array_value (arr_gather arr js) ty k = array_value arr ty (js ! k)"
proof -
  show "arr_type (arr_gather arr js) = arr_type arr" "arr_len (arr_gather arr js) = length js"
    by (cases arr; simp)+
  assume "k < length js"
  then have "js ! k < arr_len arr" using assms by simp
  with \<open>k < length js\<close> show "array_value (arr_gather arr js) ty k = array_value arr ty (js ! k)"
    by (cases arr; cases ty) simp_all
qed

lemma nth_opt_append: "nth_opt (xs @ ys) i = (if i < length xs then Some (xs ! i) else nth_opt ys (i - length xs))"
  by (auto simp: nth_opt_def nth_append)

lemma arr_append_facts:
  assumes "arr_type a = arr_type b"
  shows "arr_type (arr_append a b) = arr_type a" "arr_len (arr_append a b) = arr_len a + arr_len b"
    "i < arr_len a \<Longrightarrow> array_value (arr_append a b) ty i = array_value a ty i"
    "array_value (arr_append a b) ty (arr_len a + i) = array_value b ty i"
  using assms by (cases a; cases b; cases ty; simp add: nth_opt_append)+

lemma arr_concat_facts:
  assumes "\<forall>a \<in> set arrs. arr_type a = t"
  defines "r \<equiv> foldr arr_append arrs (arr_empty t)"
  shows "arr_type r = t \<and> arr_len r = sum_list (map arr_len arrs) \<and>
    (\<forall>k < length arrs. \<forall>i < arr_len (arrs ! k). \<forall>ty.
       array_value r ty (sum_list (map arr_len (take k arrs)) + i) = array_value (arrs ! k) ty i)"
  using assms(1) unfolding r_def
proof (induction arrs)
  case (Cons a arrs)
  let ?r = "foldr arr_append arrs (arr_empty t)"
  have IH: "arr_type ?r = t" "arr_len ?r = sum_list (map arr_len arrs)"
    "\<And>k i ty. k < length arrs \<Longrightarrow> i < arr_len (arrs ! k) \<Longrightarrow>
       array_value ?r ty (sum_list (map arr_len (take k arrs)) + i) = array_value (arrs ! k) ty i"
    using Cons by auto
  have t: "arr_type a = arr_type ?r" using Cons.prems IH(1) by simp
  note f = arr_append_facts [OF t]
  have "array_value (arr_append a ?r) ty (sum_list (map arr_len (take k (a # arrs))) + i) = array_value ((a # arrs) ! k) ty i"
    if "k < length (a # arrs)" "i < arr_len ((a # arrs) ! k)" for k i ty
  proof (cases k)
    case 0
    then show ?thesis using that f(3) by simp
  next
    case (Suc j)
    then show ?thesis using that IH(3) [of j i ty] f(4) [of ty "sum_list (map arr_len (take j arrs)) + i"]
      by (simp add: add.assoc)
  qed
  then show ?case using f(1,2) t IH(1,2) by simp
qed simp

lemma ref_arrow_concat: "arrow_concat_ok ref_arrow"
  unfolding arrow_concat_ok_def
proof (intro allI impI)
  fix fs :: fields and rbs assume ne: "rbs \<noteq> []" and typed: "\<forall>rb \<in> set rbs. rb_typed fs rb"
  define arrs where "arrs = (\<lambda>c. map (\<lambda>rb. rb_columns rb ! c) rbs)"
  define col where "col = (\<lambda>c. foldr arr_append (arrs c) (arr_empty (snd (fs ! c))))"
  have cells: "arr_type (rb_columns rb ! c) = snd (fs ! c)" "arr_len (rb_columns rb ! c) = rb_num_rows rb"
    if "rb \<in> set rbs" "c < length fs" for rb c
  proof -
    have m: "map arr_type (rb_columns rb) = map snd fs" using typed that(1) by (simp add: rb_typed_def)
    then have l: "length (rb_columns rb) = length fs" by (metis length_map)
    show "arr_type (rb_columns rb ! c) = snd (fs ! c)" using arg_cong [OF m, of "\<lambda>xs. xs ! c"] that(2) l by simp
    show "arr_len (rb_columns rb ! c) = rb_num_rows rb" using typed that l by (simp add: rb_typed_def)
  qed
  have lens: "map arr_len (take k (arrs c)) = map rb_num_rows (take k rbs)" if "c < length fs" for c k
    using cells(2) [OF _ that] by (auto simp: arrs_def take_map dest: in_set_takeD)
  have col: "arr_type (col c) = snd (fs ! c)" "arr_len (col c) = sum_list (map rb_num_rows rbs)"
    "k < length rbs \<Longrightarrow> i < rb_num_rows (rbs ! k) \<Longrightarrow>
       array_value (col c) ty (sum_list (map rb_num_rows (take k rbs)) + i) = array_value (rb_columns (rbs ! k) ! c) ty i"
    if c: "c < length fs" for c k i ty
  proof -
    have t: "\<forall>a \<in> set (arrs c). arr_type a = snd (fs ! c)" using cells(1) [OF _ c] by (auto simp: arrs_def)
    have cc: "foldr arr_append (arrs c) (arr_empty (snd (fs ! c))) = col c" by (simp add: col_def)
    note f = arr_concat_facts [OF t, unfolded cc]
    have all: "map arr_len (arrs c) = map rb_num_rows rbs" "length (arrs c) = length rbs"
      using lens [OF c, of "length rbs"] by (simp_all add: arrs_def)
    show "arr_type (col c) = snd (fs ! c)" "arr_len (col c) = sum_list (map rb_num_rows rbs)"
      using f all by simp_all
    assume k: "k < length rbs" "i < rb_num_rows (rbs ! k)"
    then have "arrs c ! k = rb_columns (rbs ! k) ! c" by (simp add: arrs_def)
    then show "array_value (col c) ty (sum_list (map rb_num_rows (take k rbs)) + i) = array_value (rb_columns (rbs ! k) ! c) ty i"
      using f k all(2) lens [OF c, of k] cells(2) [OF nth_mem [OF k(1)] c] by metis
  qed
  let ?rb = "\<lparr>rb_num_rows = sum_list (map rb_num_rows rbs), rb_columns = map col [0..<length fs]\<rparr>"
  have "rb_typed fs ?rb"
    using col(1,2) by (auto simp: rb_typed_def intro!: nth_equalityI)
  moreover have "ar_concat ref_arrow fs rbs = Some ?rb" by (simp add: ref_arrow_def col_def arrs_def)
  ultimately show "\<exists>rb'. ar_concat ref_arrow fs rbs = Some rb' \<and> rb_typed fs rb' \<and>
      rb_num_rows rb' = sum_list (map rb_num_rows rbs) \<and>
      (\<forall>k < length rbs. \<forall>i < rb_num_rows (rbs ! k). \<forall>c < length fs. \<forall>ty.
         array_value (rb_columns rb' ! c) ty (sum_list (map rb_num_rows (take k rbs)) + i) =
         array_value (rb_columns (rbs ! k) ! c) ty i)"
    using col(3) by (intro exI [of _ ?rb]) simp
qed

text \<open>The contract is satisfiable.\<close>

lemma arrow_ok_ref: "arrow_ok ref_arrow"
proof -
  have "arrow_try_new_ok ref_arrow"
    unfolding arrow_try_new_ok_def
  proof (intro conjI allI impI)
    fix fs :: fields and cols n
    assume a: "fs \<noteq> []" "map arr_type cols = map snd fs" "\<forall>c \<in> set cols. arr_len c = n"
    then have "cols \<noteq> []" by auto
    then show "ar_try_new ref_arrow fs cols = Some \<lparr>rb_num_rows = n, rb_columns = cols\<rparr>"
      using a by (simp add: ref_arrow_def)
  qed (simp_all add: ref_arrow_def rb_typed_def)
  moreover have "arrow_take_ok ref_arrow"
    using arr_gather_facts unfolding arrow_take_ok_def by (simp add: ref_arrow_def)
  moreover have "arrow_decimal_ok ref_arrow" by (simp add: arrow_decimal_ok_def ref_arrow_def)
  ultimately show ?thesis using ref_arrow_concat by (simp add: arrow_ok_def)
qed

section \<open>Properties\<close>

text \<open>
  Columnar storage is lossless: building a batch from rows in their columns'
  representation succeeds and every row reads back as it went in.
\<close>

theorem batch_rows_roundtrip:
  assumes "arrow_ok A" "schema_ok s" "decimals_ok s" "\<forall>r \<in> set rows. row_ok s r"
  shows "\<exists>b. from_rows A s rows = Some b \<and> b_len b = length rows \<and> (\<forall>i < length rows. b_row b i = Some (rows ! i))"
proof -
  have "\<forall>r \<in> set rows. length r = arity s" using assms(4) by (simp add: row_ok_def)
  then obtain b where b: "from_rows A s rows = Some b" "batch_ok b" "b_len b = length rows" "batch_rows b = map (canon_row s) rows"
    using from_rows_ok [OF assms(1-3)] by metis
  moreover have "map (canon_row s) rows = rows" using assms(4) by (simp add: canon_row_id map_idI)
  ultimately show ?thesis by (metis b_row_ok)
qed

text \<open>A two-column schema and two rows for the worked instances.\<close>

definition sample_schema :: schema where
  "sample_schema = \<lparr>sc_columns = [not_null (column_new ''pk'' TInt), column_new ''c'' TText],
     sc_key_index = 0, sc_synthetic_key = False, sc_checks = []\<rparr>"

lemma sample_schema_ok: "schema_ok sample_schema" "decimals_ok sample_schema"
  "row_ok sample_schema [VInt i, VText t]" "key_ty sample_schema = TInt" "sc_key_index sample_schema = 0"
  by (auto simp: sample_schema_def schema_ok_def decimals_ok_def row_ok_def arity_def col_ty_def key_ty_def
      not_null_def column_new_def less_Suc_eq numeral_2_eq_2)

theorem batch_rows_roundtrip_witness:
  "\<exists>b. from_rows ref_arrow sample_schema [[VInt 2, VText ''x''], [VInt 1, VText ''y'']] = Some b \<and>
     b_row b 1 = Some [VInt 1, VText ''y'']"
proof -
  have "\<exists>b. from_rows ref_arrow sample_schema [[VInt 2, VText ''x''], [VInt 1, VText ''y'']] = Some b \<and>
      b_len b = 2 \<and> (\<forall>i < 2. b_row b i = Some ([[VInt 2, VText ''x''], [VInt 1, VText ''y'']] ! i))"
    using batch_rows_roundtrip [OF arrow_ok_ref sample_schema_ok(1,2), of "[[VInt 2, VText ''x''], [VInt 1, VText ''y'']]"]
    by (simp add: sample_schema_ok numeral_2_eq_2)
  then show ?thesis by (fastforce simp: less_Suc_eq numeral_2_eq_2)
qed

text \<open>
  Taking ordinals and concatenating batches act on the rows: \<open>take\<close> gives the rows at the
  ordinals in their order, and \<open>concat\<close> the rows of the batches one after another.
\<close>

theorem batch_take_concat:
  assumes "arrow_ok A" "schema_ok s" "\<forall>b \<in> set bs. batch_ok b \<and> b_schema b = s"
  shows "\<exists>b. b_concat A s bs = Some b \<and> batch_rows b = concat (map batch_rows bs) \<and>
    (\<forall>idx. (\<forall>j \<in> set idx. unat j < b_len b) \<longrightarrow>
       (\<exists>b'. b_take A b idx = Some b' \<and> batch_rows b' = map (\<lambda>j. batch_rows b ! unat j) idx))"
proof -
  obtain b where "b_concat A s bs = Some b" "batch_ok b" "batch_rows b = concat (map batch_rows bs)"
    using b_concat_ok [OF assms] by blast
  then show ?thesis using b_take_ok [OF assms(1)] by metis
qed

theorem batch_take_concat_witness:
  "\<exists>b c. b_concat ref_arrow sample_schema [b, b] = Some c \<and>
     batch_rows c = [[VInt 2, VText ''x''], [VInt 2, VText ''x'']]"
proof -
  obtain b where b: "batch_ok b" "b_schema b = sample_schema" "batch_rows b = map (canon_row sample_schema) [[VInt 2, VText ''x'']]"
    by (rule from_rows_ok [OF arrow_ok_ref sample_schema_ok(1,2), of "[[VInt 2, VText ''x'']]"])
       (use sample_schema_ok(3) in \<open>auto simp: row_ok_def\<close>)
  then have "batch_rows b = [[VInt 2, VText ''x'']]" using canon_row_id [OF sample_schema_ok(3)] by simp
  then obtain c where "b_concat ref_arrow sample_schema [b, b] = Some c"
      "batch_rows c = [[VInt 2, VText ''x''], [VInt 2, VText ''x'']]"
    using batch_take_concat [OF arrow_ok_ref sample_schema_ok(1), of "[b, b]"] b by auto
  then show ?thesis by blast
qed

end
