(* ===== verification/Ck_Csn.thy ===== *)
theory Ck_Csn
  imports Ck_Prelude
begin

text \<open>
  \<open>src/src/csn.rs\<close>: the commit-sequence-number generator, snapshots, and the pins that hold
  back garbage collection.  The generator and the outstanding pin guards form a state
  machine (\<open>csn_step\<close>); its invariant shows that the reclamation horizon never passes a
  live pin and never moves backwards.
\<close>

section \<open>The generator\<close>

definition NEVER_DELETED :: csn where
  "NEVER_DELETED = - 1"

definition FIRST_CSN :: csn where
  "FIRST_CSN = 1"

record csn_gen =
  cg_next :: csn
  cg_active :: "(csn, u64) btree"

definition csn_new :: csn_gen where
  "csn_new = \<lparr>cg_next = FIRST_CSN, cg_active = []\<rparr>"

definition allocate :: "csn_gen \<Rightarrow> csn \<times> csn_gen" where
  "allocate g = (cg_next g, g\<lparr>cg_next := cg_next g + 1\<rparr>)"

definition current :: "csn_gen \<Rightarrow> csn" where
  "current g = cg_next g - 1"

definition set_floor :: "csn \<Rightarrow> csn_gen \<Rightarrow> csn_gen" where
  "set_floor c g = g\<lparr>cg_next := max (cg_next g) (c + 1)\<rparr>"

text \<open>A snapshot is its CSN; a pin guard is the CSN it holds.\<close>

type_synonym snapshot = csn

definition snapshot :: "csn_gen \<Rightarrow> snapshot" where
  "snapshot g = current g"

definition pin :: "csn_gen \<Rightarrow> snapshot \<times> csn_gen" where
  "pin g =
     (let c = current g;
          n = (case bt_get cmp_of c (cg_active g) of None \<Rightarrow> 0 | Some n \<Rightarrow> n)
      in (c, g\<lparr>cg_active := bt_insert cmp_of c (n + 1) (cg_active g)\<rparr>))"

definition release :: "csn \<Rightarrow> csn_gen \<Rightarrow> csn_gen" where
  "release c g =
     (case bt_get cmp_of c (cg_active g) of
        None \<Rightarrow> g
      | Some n \<Rightarrow>
          if n - 1 = 0 then g\<lparr>cg_active := bt_remove cmp_of c (cg_active g)\<rparr>
          else g\<lparr>cg_active := bt_insert cmp_of c (n - 1) (cg_active g)\<rparr>)"

definition gc_horizon :: "csn_gen \<Rightarrow> csn" where
  "gc_horizon g = (case cg_active g of [] \<Rightarrow> current g | (c, _) # _ \<Rightarrow> c)"

section \<open>Visibility\<close>

definition sees :: "snapshot \<Rightarrow> csn \<Rightarrow> csn \<Rightarrow> bool" where
  "sees s created deleted \<longleftrightarrow> created \<le> s \<and> s < deleted"

definition sees_all_created_up_to :: "snapshot \<Rightarrow> csn \<Rightarrow> bool" where
  "sees_all_created_up_to s created_max \<longleftrightarrow> created_max \<le> s"

definition unaffected_by_deletes_from :: "snapshot \<Rightarrow> csn \<Rightarrow> bool" where
  "unaffected_by_deletes_from s min_deleted \<longleftrightarrow> s < min_deleted"

lemma le_NEVER_DELETED [simp]: "c \<le> NEVER_DELETED"
  by (simp add: NEVER_DELETED_def)

lemma less_NEVER_DELETED: "c < NEVER_DELETED \<longleftrightarrow> c \<noteq> NEVER_DELETED"
  using le_NEVER_DELETED [of c] by (auto simp: order.order_iff_strict)

lemma sees_live: "sees s created NEVER_DELETED \<longleftrightarrow> created \<le> s \<and> s \<noteq> NEVER_DELETED"
  using le_NEVER_DELETED [of s] by (auto simp: sees_def order.order_iff_strict)

section \<open>The generator with its outstanding guards\<close>

text \<open>
  One step of any thread: an allocation (while the counter has room), a pin (while the
  number of guards fits its counter), the drop of a live guard, or a recovery floor.
\<close>

inductive csn_step :: "csn_gen \<times> csn multiset \<Rightarrow> csn_gen \<times> csn multiset \<Rightarrow> bool" where
  step_allocate: "cg_next g \<noteq> - 1 \<Longrightarrow> csn_step (g, L) (snd (allocate g), L)"
| step_pin: "size L + 1 < 2 ^ 64 \<Longrightarrow> pin g = (c, g') \<Longrightarrow> csn_step (g, L) (g', add_mset c L)"
| step_drop: "c \<in># L \<Longrightarrow> csn_step (g, L) (release c g, L - {#c#})"
| step_floor: "c \<noteq> - 1 \<Longrightarrow> csn_step (g, L) (set_floor c g, L)"

inductive_cases csn_stepE: "csn_step st st'"

definition csn_reachable :: "csn_gen \<times> csn multiset \<Rightarrow> bool" where
  "csn_reachable st \<longleftrightarrow> csn_step\<^sup>*\<^sup>* (csn_new, {#}) st"

definition csn_inv :: "csn_gen \<times> csn multiset \<Rightarrow> bool" where
  "csn_inv st \<longleftrightarrow>
     (case st of (g, L) \<Rightarrow>
        lo.bt_ok (cg_active g) \<and> size L < 2 ^ 64 \<and> 0 < cg_next g \<and>
        (\<forall>c. bt_get cmp_of c (cg_active g) = (if count L c = 0 then None else Some (word_of_nat (count L c)))) \<and>
        (\<forall>c \<in># L. c < cg_next g))"

lemma count_fits: "size L < 2 ^ 64 \<Longrightarrow> unat (word_of_nat (count L c) :: u64) = count L c"
  using count_le_size [of L c] by (simp add: unat_of_nat)

lemma csn_inv_init: "csn_inv (csn_new, {#})"
  by (simp add: csn_inv_def csn_new_def FIRST_CSN_def)

lemma less_next_iff: "0 < cg_next g \<Longrightarrow> c < cg_next g \<longleftrightarrow> c \<le> current g"
  by (simp add: current_def less_iff_le_pred)

lemma current_less: "0 < cg_next g \<Longrightarrow> current g < cg_next g"
  by (simp add: less_next_iff)

lemma csn_inv_allocate:
  assumes "csn_inv (g, L)" "cg_next g \<noteq> - 1"
  shows "csn_inv (snd (allocate g), L)"
proof -
  have "cg_next g < cg_next g + 1" using assms(2) by (rule less_plus_one_word)
  then show ?thesis using assms(1) unfolding csn_inv_def allocate_def by (auto intro: order.strict_trans)
qed

lemma csn_inv_floor:
  assumes "csn_inv (g, L)"
  shows "csn_inv (set_floor c g, L)"
  using assms unfolding csn_inv_def set_floor_def by (auto simp: less_max_iff_disj)

lemma csn_inv_pin:
  assumes "csn_inv (g, L)" "size L + 1 < 2 ^ 64" "pin g = (c, g')"
  shows "csn_inv (g', add_mset c L)"
proof -
  have c: "c = current g" and g': "g' = g\<lparr>cg_active := bt_insert cmp_of c
      ((case bt_get cmp_of c (cg_active g) of None \<Rightarrow> 0 | Some n \<Rightarrow> n) + 1) (cg_active g)\<rparr>"
    using assms(3) by (auto simp: pin_def Let_def)
  have get: "(case bt_get cmp_of c (cg_active g) of None \<Rightarrow> 0 | Some n \<Rightarrow> n) = word_of_nat (count L c)"
    using assms(1) by (simp add: csn_inv_def)
  show ?thesis
    using assms(1,2) current_less [of g] unfolding g' get
    by (auto simp: csn_inv_def c lo.bt_ok_insert lo.bt_get_insert add.commute not_in_iff)
qed

lemma csn_inv_release:
  assumes "csn_inv (g, L)" "c \<in># L"
  shows "csn_inv (release c g, L - {#c#})"
proof -
  have n: "0 < count L c" using assms(2) by simp
  have fit: "unat (word_of_nat (count L c) :: u64) = count L c"
    using assms(1) by (intro count_fits) (simp add: csn_inv_def)
  have get: "bt_get cmp_of c (cg_active g) = Some (word_of_nat (count L c))"
    using assms n by (simp add: csn_inv_def)
  have dec: "(word_of_nat (count L c) :: u64) - 1 = word_of_nat (count L c - 1)"
    using n by (simp add: of_nat_diff)
  have zero: "(word_of_nat (count L c - 1) :: u64) = 0 \<longleftrightarrow> count L c = 1"
  proof -
    have "unat (word_of_nat (count L c - 1) :: u64) = count L c - 1"
      using assms(1) count_fits [of "L - {#c#}" c] size_Diff1_le [of L c] by (simp add: csn_inv_def)
    then have "(word_of_nat (count L c - 1) :: u64) = 0 \<longleftrightarrow> count L c - 1 = 0"
      by (metis unat_eq_zero)
    then show ?thesis using n by linarith
  qed
  have rel: "release c g = (if count L c = 1 then g\<lparr>cg_active := bt_remove cmp_of c (cg_active g)\<rparr>
      else g\<lparr>cg_active := bt_insert cmp_of c (word_of_nat (count L c - 1)) (cg_active g)\<rparr>)"
    unfolding release_def get option.case dec zero ..
  have L': "size (L - {#c#}) < 2 ^ 64" "\<forall>d \<in># L - {#c#}. d < cg_next g"
    "\<And>d. count (L - {#c#}) d = (if d = c then count L c - 1 else count L d)"
    using assms le_less_trans [OF size_Diff1_le [of L c]] by (auto simp: csn_inv_def dest: in_diffD)
  show ?thesis
  proof (cases "count L c = 1")
    case True
    then show ?thesis
      using assms(1) L' unfolding rel csn_inv_def by (simp add: lo.bt_ok_remove lo.bt_get_remove not_in_iff)
  next
    case False
    then have "count L c - 1 \<noteq> 0" using n by linarith
    then show ?thesis
      using assms(1) L' False unfolding rel csn_inv_def
      by (simp add: lo.bt_ok_insert lo.bt_get_insert not_in_iff del: of_nat_diff)
  qed
qed

lemma csn_inv_step: "csn_step st st' \<Longrightarrow> csn_inv st \<Longrightarrow> csn_inv st'"
  by (induction rule: csn_step.induct)
     (auto intro: csn_inv_allocate csn_inv_pin csn_inv_release csn_inv_floor)

lemma csn_inv_reachable: "csn_reachable st \<Longrightarrow> csn_inv st"
  unfolding csn_reachable_def
  by (induction rule: rtranclp_induct) (auto intro: csn_inv_init csn_inv_step)

text \<open>The horizon is the oldest live guard, or the newest committed state.\<close>

lemma gc_horizon_spec:
  assumes "csn_inv (g, L)"
  shows "gc_horizon g = (if L = {#} then current g else Min (set_mset L))"
proof -
  let ?m = "cg_active g"
  have ok: "lo.bt_ok ?m" using assms by (simp add: csn_inv_def)
  have keys: "fst ` set ?m = set_mset L"
  proof -
    have "c \<in> fst ` set ?m \<longleftrightarrow> c \<in># L" for c
    proof -
      have "c \<in> fst ` set ?m \<longleftrightarrow> map_of ?m c \<noteq> None" by (simp add: map_of_eq_None_iff)
      also have "\<dots> \<longleftrightarrow> bt_get cmp_of c ?m \<noteq> None" by (simp add: lo.bt_get_map_of [OF ok])
      also have "\<dots> \<longleftrightarrow> c \<in># L" using assms by (simp add: csn_inv_def not_in_iff)
      finally show ?thesis .
    qed
    then show ?thesis by blast
  qed
  show ?thesis
  proof (cases ?m)
    case Nil
    then show ?thesis using keys by (auto simp: gc_horizon_def)
  next
    case (Cons p m)
    then have "\<forall>q \<in> set m. fst p < fst q" using ok by (auto simp: lo.bt_ok_Cons lo.lt_def)
    then have "Min (fst ` set ?m) = fst p" by (intro Min_eqI) (auto simp: Cons intro: less_imp_le)
    then show ?thesis using keys by (auto simp: gc_horizon_def Cons split: prod.split)
  qed
qed

lemma gc_horizon_le:
  assumes "csn_inv (g, L)"
  shows "gc_horizon g \<le> current g" "c \<in># L \<Longrightarrow> gc_horizon g \<le> c"
proof -
  have *: "\<forall>c \<in># L. c \<le> current g" using assms less_next_iff [of g] by (simp add: csn_inv_def)
  show "c \<in># L \<Longrightarrow> gc_horizon g \<le> c" by (auto simp: gc_horizon_spec [OF assms])
  then show "gc_horizon g \<le> current g"
    using * by (cases "L = {#}") (auto simp: gc_horizon_spec [OF assms] Min_le_iff)
qed

lemma current_mono:
  assumes "csn_step st st'" "csn_inv st"
  shows "current (fst st) \<le> current (fst st')"
  using assms
proof (induction rule: csn_step.induct)
  case (step_allocate g L)
  then have "0 < cg_next g" by (simp add: csn_inv_def)
  then show ?case using less_next_iff [of g "current g"] by (simp add: allocate_def current_def less_imp_le)
next
  case (step_floor c g L)
  then have "0 < cg_next g" by (simp add: csn_inv_def)
  then have "current g < cg_next (set_floor c g)" "0 < cg_next (set_floor c g)"
    by (simp_all add: set_floor_def less_max_iff_disj current_less)
  then show ?case by (simp add: less_next_iff)
qed (auto simp: pin_def Let_def release_def current_def split: option.splits)

text \<open>The horizon never moves backwards.\<close>

lemma gc_horizon_mono:
  assumes "csn_step st st'" "csn_inv st"
  shows "gc_horizon (fst st) \<le> gc_horizon (fst st')"
proof -
  obtain g L g' L' where st: "st = (g, L)" "st' = (g', L')" by (cases st; cases st')
  have inv: "csn_inv (g, L)" "csn_inv (g', L')" using assms csn_inv_step by (auto simp: st)
  have cur: "current g \<le> current g'" using current_mono [OF assms] by (simp add: st)
  have mem: "c \<in># L \<or> c = current g" if "c \<in># L'" for c
    using assms(1) that unfolding st
    by (cases rule: csn_step.cases) (auto simp: pin_def Let_def dest: in_diffD)
  show ?thesis
  proof (cases "L' = {#}")
    case True
    then show ?thesis
      using gc_horizon_le(1) [OF inv(1)] cur by (simp add: st gc_horizon_spec [OF inv(2)])
  next
    case False
    then have "Min (set_mset L') \<in># L'" by simp
    then have "Min (set_mset L') \<in># L \<or> Min (set_mset L') = current g" by (rule mem)
    then have "gc_horizon g \<le> Min (set_mset L')" by (auto simp: gc_horizon_le [OF inv(1)])
    then show ?thesis using False by (simp add: st gc_horizon_spec [OF inv(2)])
  qed
qed

section \<open>Properties\<close>

text \<open>
  C29. Reclamation horizon safety. In every state that the clock, the pins and the releases can
  reach, the horizon is the oldest snapshot still pinned, or the current commit number when
  nothing is pinned; so it never passes a live reader.
\<close>

theorem gc_horizon_safe:
  assumes "csn_reachable (g, L)"
  shows "gc_horizon g = (if L = {#} then current g else Min (set_mset L)) \<and> gc_horizon g \<le> current g \<and>
    (\<forall>c \<in># L. gc_horizon g \<le> c)"
  using gc_horizon_spec gc_horizon_le csn_inv_reachable [OF assms] by blast

theorem gc_horizon_safe_witness:
  "gc_horizon (snd (pin (snd (allocate csn_new)))) = 1"
proof -
  let ?g = "snd (allocate csn_new)" and ?g' = "snd (pin (snd (allocate csn_new)))"
  have p: "pin ?g = (1, ?g')" by (simp add: pin_def snapshot_def current_def allocate_def csn_new_def FIRST_CSN_def)
  have "csn_step (csn_new, {#}) (?g, {#})"
    by (rule step_allocate) (simp add: csn_new_def FIRST_CSN_def)
  moreover have "csn_step (?g, {#}) (?g', add_mset 1 {#})" by (rule step_pin [OF _ p]) simp
  ultimately have "csn_reachable (?g', {#1#})" unfolding csn_reachable_def
    by (auto intro: rtranclp.rtrancl_into_rtrancl)
  from gc_horizon_safe [OF this] show ?thesis by simp
qed

text \<open>
  The horizon never moves back: no allocation, recovery floor, pin or release lowers it, so
  a version reclaimed once can never be needed by a snapshot taken later.
\<close>

theorem gc_horizon_monotone:
  assumes "csn_reachable st" "csn_step st st'"
  shows "gc_horizon (fst st) \<le> gc_horizon (fst st') \<and> current (fst st) \<le> current (fst st')"
  using gc_horizon_mono current_mono assms(2) csn_inv_reachable [OF assms(1)] by blast

theorem gc_horizon_monotone_witness: "gc_horizon csn_new \<le> gc_horizon (snd (allocate csn_new))"
proof -
  have "csn_reachable (csn_new, {#})" by (simp add: csn_reachable_def)
  moreover have "csn_step (csn_new, {#}) (snd (allocate csn_new), {#})"
    by (rule step_allocate) (simp add: csn_new_def FIRST_CSN_def)
  ultimately show ?thesis using gc_horizon_monotone by fastforce
qed

end
