(* ===== verification/Ck_L0.thy ===== *)
theory Ck_L0
  imports Ck_Batch Ck_Csn
begin

text \<open>
  \<open>src/src/l0.rs\<close>: the row-major write buffer with its index of the newest version of each
  key.  The buffer's memory accounting (\<open>string_bytes\<close>) is left out: it depends on
  allocator capacities and no operation reads it back.

  The lemmas show that the indexed lookup returns the last visible version of the key
  (what the backward walk alone would find), that every operation keeps the buffer
  well-formed, and that sealing lists every version, in key order, and empties the buffer.
\<close>

section \<open>The buffer\<close>

record l0_entry =
  e_row :: row
  e_created :: csn
  e_deleted :: csn

definition visible_to :: "snapshot \<Rightarrow> l0_entry \<Rightarrow> bool" where
  "visible_to snap e \<longleftrightarrow> sees snap (e_created e) (e_deleted e)"

record sealed_l0 =
  sl_batch :: batch
  sl_created :: "csn list"
  sl_deletions :: "(u32 \<times> csn) list"

record l0_buffer =
  l0_schema :: schema
  l0_entries :: "l0_entry list"
  l0_newest :: "(value_t, nat) btree"

definition l0_new :: "schema \<Rightarrow> l0_buffer" where
  "l0_new s = \<lparr>l0_schema = s, l0_entries = [], l0_newest = []\<rparr>"

definition l0_len :: "l0_buffer \<Rightarrow> nat" where
  "l0_len b = length (l0_entries b)"

definition l0_is_empty :: "l0_buffer \<Rightarrow> bool" where
  "l0_is_empty b \<longleftrightarrow> l0_entries b = []"

definition distinct_keys :: "l0_buffer \<Rightarrow> nat" where
  "distinct_keys b = length (l0_newest b)"

definition l0_insert :: "row \<Rightarrow> csn \<Rightarrow> l0_buffer \<Rightarrow> l0_buffer option" where
  "l0_insert row c b =
     do {
       key \<leftarrow> row_key (sc_key_index (l0_schema b)) row;
       let es = l0_entries b @ [\<lparr>e_row = row, e_created = c, e_deleted = NEVER_DELETED\<rparr>];
       Some (b\<lparr>l0_entries := es, l0_newest := bt_insert total_cmp key (length es - 1) (l0_newest b)\<rparr>) }"

text \<open>The backward walk over the enumerated entries.\<close>

fun l0_walk :: "nat \<Rightarrow> value_t \<Rightarrow> snapshot \<Rightarrow> (nat \<times> l0_entry) list \<Rightarrow> nat option option" where
  "l0_walk ki key snap [] = Some None"
| "l0_walk ki key snap ((i, e) # rest) =
     do {
       k \<leftarrow> row_key ki (e_row e);
       if total_cmp k key = Equal \<and> visible_to snap e then Some (Some i)
       else l0_walk ki key snap rest }"

definition l0_lookup :: "l0_buffer \<Rightarrow> value_t \<Rightarrow> snapshot \<Rightarrow> nat option option" where
  "l0_lookup b key snap =
     (let slow = l0_walk (sc_key_index (l0_schema b)) key snap (rev (enumerate 0 (l0_entries b)))
      in case bt_get total_cmp key (l0_newest b) of
           Some i \<Rightarrow> do {
             e \<leftarrow> nth_opt (l0_entries b) i;
             if visible_to snap e then Some (Some i) else slow }
         | None \<Rightarrow> slow)"

definition l0_mark_deleted :: "nat \<Rightarrow> csn \<Rightarrow> l0_buffer \<Rightarrow> (bool \<times> l0_buffer) option" where
  "l0_mark_deleted i c b =
     do {
       e \<leftarrow> nth_opt (l0_entries b) i;
       if e_deleted e \<noteq> NEVER_DELETED then Some (False, b)
       else Some (True, b\<lparr>l0_entries := (l0_entries b)[i := e\<lparr>e_deleted := c\<rparr>]\<rparr>) }"

definition l0_scan :: "arrow \<Rightarrow> l0_buffer \<Rightarrow> snapshot \<Rightarrow> batch option" where
  "l0_scan A b snap =
     from_rows A (l0_schema b) (map e_row (filter (visible_to snap) (l0_entries b)))"

definition l0_visible_count :: "l0_buffer \<Rightarrow> snapshot \<Rightarrow> nat" where
  "l0_visible_count b snap = length (filter (visible_to snap) (l0_entries b))"

definition l0_entry_cmp :: "nat \<Rightarrow> l0_entry \<Rightarrow> l0_entry \<Rightarrow> ordering" where
  "l0_entry_cmp ki a b =
     then_cmp (total_cmp (e_row a ! ki) (e_row b ! ki)) (cmp_of (e_created a) (e_created b))"

text \<open>
  Sealing takes the entries out, sorts them and builds the batch.  A row too short to hold
  the key makes the batch construction panic, as it makes the comparison panic.
\<close>

definition l0_seal :: "arrow \<Rightarrow> l0_buffer \<Rightarrow> (sealed_l0 \<times> l0_buffer) option" where
  "l0_seal A b =
     (let ki = sc_key_index (l0_schema b);
          es = sort_by (l0_entry_cmp ki) (l0_entries b);
          dels = map (\<lambda>(i, e). (word_of_nat i, e_deleted e))
                   (filter (\<lambda>(i, e). e_deleted e \<noteq> NEVER_DELETED) (enumerate 0 es))
      in do {
           batch \<leftarrow> from_rows A (l0_schema b) (map e_row es);
           Some (\<lparr>sl_batch = batch, sl_created = map e_created es, sl_deletions = dels\<rparr>,
                 b\<lparr>l0_entries := [], l0_newest := []\<rparr>) })"

definition l0_clear :: "l0_buffer \<Rightarrow> l0_buffer" where
  "l0_clear b = b\<lparr>l0_entries := [], l0_newest := []\<rparr>"

section \<open>The invariant\<close>

text \<open>A row version: the row and the interval of snapshots that see it.\<close>

type_synonym version = "row \<times> csn \<times> csn"

definition entry_version :: "l0_entry \<Rightarrow> version" where
  "entry_version e = (e_row e, e_created e, e_deleted e)"

abbreviation l0_ki :: "l0_buffer \<Rightarrow> nat" where
  "l0_ki b \<equiv> sc_key_index (l0_schema b)"

abbreviation l0_keys :: "l0_buffer \<Rightarrow> value_t set" where
  "l0_keys b \<equiv> col_values (key_ty (l0_schema b))"

definition l0_ok :: "l0_buffer \<Rightarrow> bool" where
  "l0_ok b \<longleftrightarrow>
     schema_ok (l0_schema b) \<and> (\<forall>e \<in> set (l0_entries b). row_ok (l0_schema b) (e_row e)) \<and>
     vo.bt_ok (key_ty (l0_schema b)) (l0_newest b) \<and>
     (\<forall>k \<in> l0_keys b.
        bt_get total_cmp k (l0_newest b) =
          (if \<exists>i < length (l0_entries b). e_row (l0_entries b ! i) ! l0_ki b = k
           then Some (Max {i. i < length (l0_entries b) \<and> e_row (l0_entries b ! i) ! l0_ki b = k}) else None))"

lemma row_ok_key:
  assumes "schema_ok s" "row_ok s r"
  shows "row_key (sc_key_index s) r = Some (r ! sc_key_index s)"
    and "r ! sc_key_index s \<in> col_values (key_ty s)"
  using assms by (auto simp: row_ok_def schema_ok_def arity_def row_key_def row_get_def col_values_def key_ty_def)

lemma l0_ok_new: "schema_ok s \<Longrightarrow> l0_ok (l0_new s)"
  by (simp add: l0_ok_def l0_new_def)

lemma l0_ok_clear: "l0_ok b \<Longrightarrow> l0_ok (l0_clear b)"
  by (simp add: l0_ok_def l0_clear_def)

section \<open>Insert and tombstone\<close>

lemma Max_less_Suc_split:
  assumes "P n" shows "Max {i. i < Suc n \<and> P i} = n"
  by (rule Max_eqI) (use assms in auto)

lemma l0_insert_ok:
  assumes "l0_ok b" "row_ok (l0_schema b) r"
  obtains b' where "l0_insert r c b = Some b'" "l0_ok b'" "l0_schema b' = l0_schema b"
    "l0_entries b' = l0_entries b @ [\<lparr>e_row = r, e_created = c, e_deleted = NEVER_DELETED\<rparr>]"
proof -
  let ?ki = "l0_ki b" and ?n = "length (l0_entries b)"
  let ?e = "\<lparr>e_row = r, e_created = c, e_deleted = NEVER_DELETED\<rparr>"
  have so: "schema_ok (l0_schema b)" using assms(1) by (simp add: l0_ok_def)
  note key = row_ok_key [OF so assms(2)]
  have bt: "vo.bt_ok (key_ty (l0_schema b)) (l0_newest b)" using assms(1) by (simp add: l0_ok_def)
  define b' where "b' = b\<lparr>l0_entries := l0_entries b @ [?e],
      l0_newest := bt_insert total_cmp (r ! ?ki) ?n (l0_newest b)\<rparr>"
  have ins: "l0_insert r c b = Some b'" by (simp add: l0_insert_def key b'_def)
  have look: "bt_get total_cmp k (l0_newest b') =
      (if \<exists>i < length (l0_entries b'). e_row (l0_entries b' ! i) ! ?ki = k
       then Some (Max {i. i < length (l0_entries b') \<and> e_row (l0_entries b' ! i) ! ?ki = k}) else None)"
    if k: "k \<in> l0_keys b" for k
  proof (cases "k = r ! ?ki")
    case True
    then have "Max {i. i < Suc ?n \<and> e_row ((l0_entries b @ [?e]) ! i) ! ?ki = k} = ?n"
      by (intro Max_less_Suc_split) simp
    then show ?thesis using True k
      by (auto simp: b'_def vo.bt_get_insert [OF bt key(2)] intro: exI [of _ ?n])
  next
    case False
    then have "{i. i < Suc ?n \<and> e_row ((l0_entries b @ [?e]) ! i) ! ?ki = k} =
        {i. i < ?n \<and> e_row (l0_entries b ! i) ! ?ki = k}"
      by (auto simp: less_Suc_eq nth_append)
    moreover from this have "(\<exists>i < Suc ?n. e_row ((l0_entries b @ [?e]) ! i) ! ?ki = k) \<longleftrightarrow>
        (\<exists>i < ?n. e_row (l0_entries b ! i) ! ?ki = k)"
      by auto
    ultimately show ?thesis using assms(1) k False
      by (simp add: b'_def vo.bt_get_insert [OF bt key(2)] l0_ok_def)
  qed
  have "l0_ok b'"
    using assms look vo.bt_ok_insert [OF bt key(2)] by (simp add: l0_ok_def b'_def)
  then show ?thesis using that ins by (simp add: b'_def)
qed

lemma l0_mark_deleted_ok:
  assumes "l0_ok b" "i < length (l0_entries b)"
  obtains b' where
    "l0_mark_deleted i c b = Some (e_deleted (l0_entries b ! i) = NEVER_DELETED, b')" "l0_ok b'"
    "l0_schema b' = l0_schema b"
    "l0_entries b' = (if e_deleted (l0_entries b ! i) = NEVER_DELETED
       then (l0_entries b)[i := (l0_entries b ! i)\<lparr>e_deleted := c\<rparr>] else l0_entries b)"
proof (cases "e_deleted (l0_entries b ! i) = NEVER_DELETED")
  case True
  let ?es = "(l0_entries b)[i := (l0_entries b ! i)\<lparr>e_deleted := c\<rparr>]"
  have rows: "e_row (?es ! j) = e_row (l0_entries b ! j)" for j
    using assms(2) by (cases "j = i") simp_all
  have "\<forall>e \<in> set ?es. row_ok (l0_schema b) (e_row e)"
    using assms nth_mem by (auto simp: l0_ok_def in_set_conv_nth [of _ ?es] rows)
  then have "l0_ok (b\<lparr>l0_entries := ?es\<rparr>)" using assms(1) by (simp add: l0_ok_def rows)
  then show ?thesis using that assms(2) True by (simp add: l0_mark_deleted_def)
next
  case False
  then show ?thesis using that assms by (simp add: l0_mark_deleted_def)
qed

section \<open>Lookup\<close>

text \<open>The last index below \<open>n\<close> that satisfies \<open>P\<close>.\<close>

definition last_hit :: "(nat \<Rightarrow> bool) \<Rightarrow> nat \<Rightarrow> nat option" where
  "last_hit P n = (if \<exists>i < n. P i then Some (Max {i. i < n \<and> P i}) else None)"

lemma last_hit_Suc: "last_hit P (Suc n) = (if P n then Some n else last_hit P n)"
proof (cases "P n")
  case True
  then show ?thesis using Max_less_Suc_split [of P n, OF True] by (auto simp: last_hit_def)
next
  case False
  then have "{i. i < Suc n \<and> P i} = {i. i < n \<and> P i}" "(\<exists>i < Suc n. P i) \<longleftrightarrow> (\<exists>i < n. P i)"
    by (auto simp: less_Suc_eq)
  then show ?thesis using False by (simp add: last_hit_def)
qed

lemma last_hit_cong: "(\<And>i. i < n \<Longrightarrow> P i = Q i) \<Longrightarrow> last_hit P n = last_hit Q n"
proof -
  assume a: "\<And>i. i < n \<Longrightarrow> P i = Q i"
  then have "{i. i < n \<and> P i} = {i. i < n \<and> Q i}" "(\<exists>i < n. P i) \<longleftrightarrow> (\<exists>i < n. Q i)" by auto
  then show ?thesis by (simp add: last_hit_def)
qed

lemma l0_walk_spec:
  assumes "\<forall>e \<in> set es. row_key ki (e_row e) = Some (e_row e ! ki)"
  shows "l0_walk ki key snap (rev (enumerate 0 es)) =
    Some (last_hit (\<lambda>i. total_cmp (e_row (es ! i) ! ki) key = Equal \<and> visible_to snap (es ! i)) (length es))"
  using assms
proof (induction es rule: rev_induct)
  case (snoc e es)
  have c: "last_hit (\<lambda>i. total_cmp (e_row ((es @ [e]) ! i) ! ki) key = Equal \<and> visible_to snap ((es @ [e]) ! i)) (length es) =
      last_hit (\<lambda>i. total_cmp (e_row (es ! i) ! ki) key = Equal \<and> visible_to snap (es ! i)) (length es)"
    by (rule last_hit_cong) (simp add: nth_append)
  show ?case using snoc c by (simp add: enumerate_append_eq last_hit_Suc)
qed (simp add: last_hit_def)

text \<open>
  The indexed lookup finds the last entry of the key that the snapshot sees; the index only
  saves the walk.
\<close>

definition l0_hits :: "l0_buffer \<Rightarrow> value_t \<Rightarrow> snapshot \<Rightarrow> nat set" where
  "l0_hits b key snap =
     {i. i < length (l0_entries b) \<and> e_row (l0_entries b ! i) ! l0_ki b = key \<and> visible_to snap (l0_entries b ! i)}"

lemma l0_lookup_spec:
  assumes "l0_ok b" "key \<in> l0_keys b"
  shows "l0_lookup b key snap = Some (if l0_hits b key snap = {} then None else Some (Max (l0_hits b key snap)))"
proof -
  let ?es = "l0_entries b" and ?ki = "l0_ki b"
  have so: "schema_ok (l0_schema b)" using assms(1) by (simp add: l0_ok_def)
  have rk: "\<forall>e \<in> set ?es. row_key ?ki (e_row e) = Some (e_row e ! ?ki)"
    using assms(1) row_ok_key(1) [OF so] by (simp add: l0_ok_def)
  have eq: "total_cmp (e_row (?es ! i) ! ?ki) key = Equal \<longleftrightarrow> e_row (?es ! i) ! ?ki = key" if "i < length ?es" for i
    using vo.cmp_Equal [OF _ assms(2)] row_ok_key(2) [OF so] assms(1) that by (simp add: l0_ok_def)
  have "last_hit (\<lambda>i. total_cmp (e_row (?es ! i) ! ?ki) key = Equal \<and> visible_to snap (?es ! i)) (length ?es) =
      last_hit (\<lambda>i. e_row (?es ! i) ! ?ki = key \<and> visible_to snap (?es ! i)) (length ?es)"
    using eq by (intro last_hit_cong) simp
  then have slow: "l0_walk ?ki key snap (rev (enumerate 0 ?es)) =
      Some (if l0_hits b key snap = {} then None else Some (Max (l0_hits b key snap)))"
    by (auto simp: l0_walk_spec [OF rk] last_hit_def l0_hits_def)
  show ?thesis
  proof (cases "bt_get total_cmp key (l0_newest b)")
    case None
    then show ?thesis using slow by (simp add: l0_lookup_def)
  next
    case (Some i)
    let ?S = "{i. i < length ?es \<and> e_row (?es ! i) ! ?ki = key}"
    have ne: "?S \<noteq> {}" and i: "i = Max ?S"
      using Some assms by (auto simp: l0_ok_def split: if_splits)
    have fin: "finite ?S" by simp
    have mem: "i \<in> ?S" using Max_in [OF fin ne] i by simp
    show ?thesis
    proof (cases "visible_to snap (?es ! i)")
      case True
      then have h: "i \<in> l0_hits b key snap" using mem by (simp add: l0_hits_def)
      have "l0_hits b key snap \<subseteq> ?S" by (auto simp: l0_hits_def)
      then have "Max (l0_hits b key snap) = i"
        using h i fin by (intro Max_eqI) (auto intro: Max_ge finite_subset)
      then show ?thesis using h True Some mem by (auto simp: l0_lookup_def)
    next
      case False
      then show ?thesis using slow Some mem by (simp add: l0_lookup_def)
    qed
  qed
qed

section \<open>Sealing\<close>

text \<open>The order of a sealed run: by key, then by creation.\<close>

interpretation vc: cmp_order "pair_cmp total_cmp (cmp_of :: csn \<Rightarrow> csn \<Rightarrow> ordering)" "col_values ty \<times> UNIV" for ty
  by (rule cmp_order_pair) (rule vo.cmp_order_axioms, rule lo.cmp_order_axioms)

lemma pair_le_fst:
  assumes "a \<in> col_values ty" "b \<in> col_values ty" "vc.le (a, c) (b, d)"
  shows "vo.le a b"
  using assms by (auto simp: vc.le_def vo.le_def pair_cmp_def then_cmp_def split: if_splits)

text \<open>Sorting rows by \<open>(key, creation)\<close> leaves the keys in order.\<close>

lemma sorted_keys_of_sort:
  assumes "\<forall>x \<in> set xs. k x \<in> col_values ty"
  shows "sorted_wrt vo.le (map k (sort_by (\<lambda>a b. then_cmp (total_cmp (k a) (k b)) (cmp_of (c a) (c b :: csn))) xs))"
proof -
  let ?f = "\<lambda>x. (k x, c x)"
  have fe: "(\<lambda>a b. then_cmp (total_cmp (k a) (k b)) (cmp_of (c a) (c b))) =
      (\<lambda>a b. pair_cmp total_cmp cmp_of (?f a) (?f b))"
    by (simp add: pair_cmp_def fun_eq_iff)
  have "?f ` set xs \<subseteq> col_values ty \<times> UNIV" using assms by auto
  then have "sorted_wrt (\<lambda>a b. vc.le (?f a) (?f b)) (sort_by (\<lambda>a b. pair_cmp total_cmp cmp_of (?f a) (?f b)) xs)"
    by (rule vc.sorted_sort_by)
  then show ?thesis unfolding fe sorted_wrt_map
    by (rule sorted_wrt_mono_rel [rotated]) (use assms in \<open>auto intro: pair_le_fst\<close>)
qed

text \<open>
  The sealed form of a run of entries: rows, creation stamps and tombstones position by
  position.
\<close>

definition seal_order :: "l0_buffer \<Rightarrow> l0_entry list" where
  "seal_order b = sort_by (l0_entry_cmp (l0_ki b)) (l0_entries b)"

definition seal_deletions :: "l0_entry list \<Rightarrow> (u32 \<times> csn) list" where
  "seal_deletions es =
     map (\<lambda>(i, e). (word_of_nat i, e_deleted e)) (filter (\<lambda>(i, e). e_deleted e \<noteq> NEVER_DELETED) (enumerate 0 es))"

lemma l0_seal_ok:
  assumes "arrow_ok A" "l0_ok b" "decimals_ok (l0_schema b)"
  obtains sl where "l0_seal A b = Some (sl, l0_clear b)" "batch_ok (sl_batch sl)"
    "b_schema (sl_batch sl) = l0_schema b" "batch_rows (sl_batch sl) = map e_row (seal_order b)"
    "sl_created sl = map e_created (seal_order b)" "sl_deletions sl = seal_deletions (seal_order b)"
    "sorted_wrt vo.le (map (\<lambda>r. r ! l0_ki b) (batch_rows (sl_batch sl)))"
proof -
  let ?s = "l0_schema b" and ?es = "seal_order b"
  have so: "schema_ok ?s" and rows: "\<forall>e \<in> set ?es. row_ok ?s (e_row e)"
    using assms(2) by (auto simp: l0_ok_def seal_order_def)
  have "\<forall>r \<in> set (map e_row ?es). length r = arity ?s" using rows by (auto simp: row_ok_def)
  then obtain bt where bt: "from_rows A ?s (map e_row ?es) = Some bt" "batch_ok bt" "b_schema bt = ?s"
      "batch_rows bt = map (canon_row ?s) (map e_row ?es)"
    using from_rows_ok [OF assms(1) so assms(3)] by metis
  have id: "map (canon_row ?s) (map e_row ?es) = map e_row ?es" using rows by (simp add: canon_row_id)
  have "\<forall>e \<in> set (l0_entries b). e_row e ! l0_ki b \<in> col_values (key_ty ?s)"
    using assms(2) row_ok_key(2) [OF so] by (simp add: l0_ok_def)
  then have "sorted_wrt vo.le (map (\<lambda>e. e_row e ! l0_ki b) ?es)"
    unfolding seal_order_def l0_entry_cmp_def [abs_def] by (rule sorted_keys_of_sort)
  then have "sorted_wrt vo.le (map (\<lambda>r. r ! l0_ki b) (batch_rows bt))"
    by (simp add: bt(4) id comp_def del: map_map) (simp add: comp_def)
  then show ?thesis
    using that [of "\<lparr>sl_batch = bt, sl_created = map e_created ?es, sl_deletions = seal_deletions ?es\<rparr>"] bt id
    by (simp add: l0_seal_def l0_clear_def seal_order_def seal_deletions_def Let_def)
qed

lemma mset_seal_order: "mset (map entry_version (seal_order b)) = mset (map entry_version (l0_entries b))"
  by (simp add: seal_order_def)

text \<open>Scanning materialises the rows the snapshot sees, in insertion order.\<close>

lemma l0_scan_ok:
  assumes "arrow_ok A" "l0_ok b" "decimals_ok (l0_schema b)"
  obtains bt where "l0_scan A b snap = Some bt" "batch_ok bt" "b_schema bt = l0_schema b"
    "batch_rows bt = map e_row (filter (visible_to snap) (l0_entries b))"
proof -
  let ?s = "l0_schema b" and ?rs = "map e_row (filter (visible_to snap) (l0_entries b))"
  have so: "schema_ok ?s" and rows: "\<forall>r \<in> set ?rs. row_ok ?s r" using assms(2) by (auto simp: l0_ok_def)
  then have "\<forall>r \<in> set ?rs. length r = arity ?s" by (auto simp: row_ok_def)
  then obtain bt where bt: "from_rows A ?s ?rs = Some bt" "batch_ok bt" "b_schema bt = ?s"
      "batch_rows bt = map (canon_row ?s) ?rs"
    using from_rows_ok [OF assms(1) so assms(3)] by metis
  have "map (canon_row ?s) ?rs = ?rs" using rows by (intro map_idI) (auto simp: canon_row_id)
  then show ?thesis using that bt by (simp add: l0_scan_def)
qed

section \<open>Properties\<close>

text \<open>
  A point lookup of the write buffer answers with the newest entry of the key that the
  snapshot sees, for every snapshot: the one-entry index is only a shortcut.
\<close>

theorem l0_lookup_newest_visible:
  assumes "l0_ok b" "key \<in> l0_keys b"
  shows "l0_lookup b key snap = Some (if l0_hits b key snap = {} then None else Some (Max (l0_hits b key snap)))"
  by (rule l0_lookup_spec [OF assms])

text \<open>A buffer with two versions of one key, the first of them deleted.\<close>

definition sample_l0 :: l0_buffer where
  "sample_l0 = \<lparr>l0_schema = sample_schema,
     l0_entries = [\<lparr>e_row = [VInt 1, VText ''x''], e_created = 1, e_deleted = 3\<rparr>,
                   \<lparr>e_row = [VInt 1, VText ''y''], e_created = 3, e_deleted = NEVER_DELETED\<rparr>],
     l0_newest = [(VInt 1, 1)]\<rparr>"

lemma sample_l0_ok: "l0_ok sample_l0"
proof -
  let ?r = "[VInt 1, VText ''x'']" and ?r' = "[VInt 1, VText ''y'']"
  obtain b1 where b1: "l0_insert ?r 1 (l0_new sample_schema) = Some b1" "l0_ok b1"
    by (rule l0_insert_ok [OF l0_ok_new [OF sample_schema_ok(1)], of ?r 1]) (simp_all add: l0_new_def sample_schema_ok)
  have e1: "b1 = \<lparr>l0_schema = sample_schema, l0_entries = [\<lparr>e_row = ?r, e_created = 1, e_deleted = NEVER_DELETED\<rparr>],
      l0_newest = [(VInt 1, 0)]\<rparr>"
    using b1(1) by (simp add: l0_insert_def l0_new_def row_key_def row_get_def sample_schema_ok)
  obtain x b2 where b2: "l0_mark_deleted 0 3 b1 = Some (x, b2)" "l0_ok b2"
    by (rule l0_mark_deleted_ok [OF b1(2), of 0 3]) (simp_all add: e1)
  have e2: "b2 = \<lparr>l0_schema = sample_schema, l0_entries = [\<lparr>e_row = ?r, e_created = 1, e_deleted = 3\<rparr>],
      l0_newest = [(VInt 1, 0)]\<rparr>"
    using b2(1) by (simp add: l0_mark_deleted_def nth_opt_def e1)
  obtain b3 where b3: "l0_insert ?r' 3 b2 = Some b3" "l0_ok b3"
    by (rule l0_insert_ok [OF b2(2), of ?r' 3]) (simp_all add: e2 sample_schema_ok)
  have "b3 = sample_l0"
    using b3(1) by (simp add: l0_insert_def row_key_def row_get_def sample_schema_ok e2 sample_l0_def cmp_of_def)
  with b3(2) show ?thesis by simp
qed

theorem l0_lookup_newest_visible_witness:
  "l0_lookup sample_l0 (VInt 1) 2 = Some (Some 0) \<and> l0_lookup sample_l0 (VInt 1) 5 = Some (Some 1) \<and>
   l0_lookup sample_l0 (VInt 1) 0 = Some None"
proof -
  have k: "VInt 1 \<in> l0_keys sample_l0" by (simp add: sample_l0_def sample_schema_ok col_values_def)
  have h: "l0_hits sample_l0 (VInt 1) s = set (filter (\<lambda>i. e_row (l0_entries sample_l0 ! i) ! l0_ki sample_l0 = VInt 1 \<and>
      visible_to s (l0_entries sample_l0 ! i)) [0..<2])" for s
    by (auto simp: l0_hits_def sample_l0_def)
  have "l0_hits sample_l0 (VInt 1) 2 = {0}" "l0_hits sample_l0 (VInt 1) 5 = {1}" "l0_hits sample_l0 (VInt 1) 0 = {}"
    unfolding h by (code_simp+)
  then show ?thesis using l0_lookup_newest_visible [OF sample_l0_ok k] by simp
qed

end
