(* ===== verification/Ck_Bloom.thy ===== *)
theory Ck_Bloom
  imports Ck_Value
begin

text \<open>
  \<open>src/src/bloom.rs\<close>: the Bloom filter over the keys of a part, bit for bit (SplitMix64
  finaliser, Kirsch-Mitzenmacher double hashing, FNV-1a for text keys).  The locale
  \<open>key_filter\<close> is what the lookup funnel of a part relies on; it is interpreted on the
  filter built from any-type keys.
\<close>

unbundle bit_operations_syntax

section \<open>The filter\<close>

definition BITS_PER_KEY :: nat where
  "BITS_PER_KEY = 10"

definition NUM_HASHES :: nat where
  "NUM_HASHES = 7"

record bloom =
  bf_bits :: "u64 list"
  bf_num_bits :: nat
  bf_num_hashes :: nat

definition bf_with_capacity :: "nat \<Rightarrow> bloom" where
  "bf_with_capacity expected_keys =
     (let num_bits = max (expected_keys * BITS_PER_KEY) 64;
          words = (num_bits + 63) div 64
      in \<lparr>bf_bits = replicate words 0, bf_num_bits = words * 64, bf_num_hashes = NUM_HASHES\<rparr>)"

text \<open>Two hashes of a key, by SplitMix64 finalisation.\<close>

definition splitmix_step :: "u64 \<Rightarrow> u64" where
  "splitmix_step x =
     (let z = x + 0x9E3779B97F4A7C15;
          z = (z XOR drop_bit 30 z) * 0xBF58476D1CE4E5B9;
          z = (z XOR drop_bit 27 z) * 0x94D049BB133111EB
      in z XOR drop_bit 31 z)"

definition bf_hashes :: "i64 \<Rightarrow> u64 \<times> u64" where
  "bf_hashes key = (let h1 = splitmix_step key; h2 = splitmix_step h1 OR 1 in (h1, h2))"

text \<open>The remainder panics on a filter of no bits.\<close>

definition bf_bit_index :: "bloom \<Rightarrow> u64 \<Rightarrow> u64 \<Rightarrow> nat \<Rightarrow> nat option" where
  "bf_bit_index f h1 h2 i =
     (let n = (word_of_nat (bf_num_bits f) :: u64)
      in if n = 0 then None else Some (unat ((h1 + word_of_nat i * h2) mod n)))"

fun bf_set_bits :: "u64 \<Rightarrow> u64 \<Rightarrow> nat list \<Rightarrow> bloom \<Rightarrow> bloom option" where
  "bf_set_bits h1 h2 [] f = Some f"
| "bf_set_bits h1 h2 (i # is) f =
     do {
       bit \<leftarrow> bf_bit_index f h1 h2 i;
       if bit div 64 < length (bf_bits f)
       then bf_set_bits h1 h2 is
              (f\<lparr>bf_bits := (bf_bits f)[bit div 64 := (bf_bits f ! (bit div 64)) OR push_bit (bit mod 64) 1]\<rparr>)
       else None }"

definition bf_insert :: "i64 \<Rightarrow> bloom \<Rightarrow> bloom option" where
  "bf_insert key f = (case bf_hashes key of (h1, h2) \<Rightarrow> bf_set_bits h1 h2 [0..<bf_num_hashes f] f)"

fun bf_test_bits :: "u64 \<Rightarrow> u64 \<Rightarrow> nat list \<Rightarrow> bloom \<Rightarrow> bool option" where
  "bf_test_bits h1 h2 [] f = Some True"
| "bf_test_bits h1 h2 (i # is) f =
     do {
       bit \<leftarrow> bf_bit_index f h1 h2 i;
       if bit div 64 < length (bf_bits f)
       then (if (bf_bits f ! (bit div 64)) AND push_bit (bit mod 64) 1 = 0 then Some False
             else bf_test_bits h1 h2 is f)
       else None }"

definition bf_maybe_contains :: "bloom \<Rightarrow> i64 \<Rightarrow> bool option" where
  "bf_maybe_contains f key =
     (case bf_hashes key of (h1, h2) \<Rightarrow> bf_test_bits h1 h2 [0..<bf_num_hashes f] f)"

fun bf_insert_all :: "i64 list \<Rightarrow> bloom \<Rightarrow> bloom option" where
  "bf_insert_all [] f = Some f"
| "bf_insert_all (k # ks) f = do { f' \<leftarrow> bf_insert k f; bf_insert_all ks f' }"

definition bf_build :: "i64 list \<Rightarrow> bloom option" where
  "bf_build keys = bf_insert_all keys (bf_with_capacity (length keys))"

section \<open>Keys of any type\<close>

definition fnv1a :: "string \<Rightarrow> u64" where
  "fnv1a s = fold (\<lambda>c h. (h XOR ucast (byte_of c)) * 0x100000001b3) s 0xcbf29ce484222325"

text \<open>The arithmetic shift of the mantissa brings its upper half down; the cast keeps it.\<close>

fun value_seed :: "value_t \<Rightarrow> i64" where
  "value_seed (VInt i) = i"
| "value_seed (VBool b) = (if b then 1 else 0)"
| "value_seed (VFloat f) = f"
| "value_seed (VText s) = fnv1a s"
| "value_seed (VDecimal m s) = ucast m XOR ucast (drop_bit 64 m) XOR ucast s"
| "value_seed VNull = 0"

definition bf_build_values :: "value_t list \<Rightarrow> bloom option" where
  "bf_build_values keys = bf_insert_all (map value_seed keys) (bf_with_capacity (length keys))"

definition bf_insert_value :: "value_t \<Rightarrow> bloom \<Rightarrow> bloom option" where
  "bf_insert_value key f = bf_insert (value_seed key) f"

definition bf_maybe_contains_value :: "bloom \<Rightarrow> value_t \<Rightarrow> bool option" where
  "bf_maybe_contains_value f key = bf_maybe_contains f (value_seed key)"

definition bf_fill_ratio :: "bloom \<Rightarrow> f64" where
  "bf_fill_ratio f =
     f64_div (f64_of_int (int (sum_list (map (\<lambda>w. card {i. i < 64 \<and> bit w i}) (bf_bits f)))))
             (f64_of_int (int (bf_num_bits f)))"

section \<open>No false negatives\<close>

definition bf_ok :: "bloom \<Rightarrow> bool" where
  "bf_ok f \<longleftrightarrow> bf_num_bits f = 64 * length (bf_bits f) \<and> 0 < bf_num_bits f \<and> bf_num_bits f < 2 ^ 64"

definition bf_mem :: "bloom \<Rightarrow> nat \<Rightarrow> bool" where
  "bf_mem f b \<longleftrightarrow> bit (bf_bits f ! (b div 64)) (b mod 64)"

lemma bf_bit_index_ok:
  assumes "bf_ok f"
  obtains b where "bf_bit_index f h1 h2 i = Some b" "b div 64 < length (bf_bits f)"
proof -
  let ?n = "word_of_nat (bf_num_bits f) :: u64"
  have u: "unat ?n = bf_num_bits f" using assms by (simp add: bf_ok_def unat_of_nat del: of_nat_mult)
  then have n0: "?n \<noteq> 0" using assms by (auto simp: bf_ok_def)
  have "unat ((h1 + word_of_nat i * h2) mod ?n) < bf_num_bits f"
    using assms unfolding unat_mod_distrib u by (intro mod_less_divisor) (auto simp: bf_ok_def)
  then have "unat ((h1 + word_of_nat i * h2) mod ?n) div 64 < length (bf_bits f)"
    using assms by (simp add: bf_ok_def less_mult_imp_div_less mult.commute)
  then show ?thesis using that n0 by (simp add: bf_bit_index_def)
qed

lemma bf_test_bit_iff: "(w :: u64) AND 2 ^ n = 0 \<longleftrightarrow> \<not> bit w n \<or> 64 \<le> n"
  by (auto simp: and_exp_eq_0_iff_not_bit dest: bit_imp_le_length)

lemma bf_set_bits_spec:
  "bf_ok f \<Longrightarrow> \<exists>f'. bf_set_bits h1 h2 is f = Some f' \<and> bf_ok f' \<and>
      bf_num_bits f' = bf_num_bits f \<and> bf_num_hashes f' = bf_num_hashes f \<and>
      (\<forall>b. bf_mem f b \<longrightarrow> b div 64 < length (bf_bits f) \<longrightarrow> bf_mem f' b) \<and>
      (\<forall>i \<in> set is. \<forall>b. bf_bit_index f h1 h2 i = Some b \<longrightarrow> bf_mem f' b)"
proof (induction "is" arbitrary: f)
  case (Cons i "is")
  obtain b where b: "bf_bit_index f h1 h2 i = Some b" "b div 64 < length (bf_bits f)"
    using bf_bit_index_ok [OF Cons.prems] by blast
  let ?g = "f\<lparr>bf_bits := (bf_bits f)[b div 64 := (bf_bits f ! (b div 64)) OR push_bit (b mod 64) 1]\<rparr>"
  have g: "bf_ok ?g" using Cons.prems by (auto simp: bf_ok_def)
  have idx: "bf_bit_index ?g h1 h2 j = bf_bit_index f h1 h2 j" for j by (simp add: bf_bit_index_def)
  have keep: "bf_mem ?g c" if "bf_mem f c" "c div 64 < length (bf_bits f)" for c
    using that by (cases "b div 64 = c div 64") (auto simp: bf_mem_def bit_simps)
  have this_bit: "bf_mem ?g b" using b(2) by (simp add: bf_mem_def bit_simps)
  obtain f' where f': "bf_set_bits h1 h2 is ?g = Some f'" "bf_ok f'" "bf_num_bits f' = bf_num_bits ?g"
      "bf_num_hashes f' = bf_num_hashes ?g"
      "\<forall>c. bf_mem ?g c \<longrightarrow> c div 64 < length (bf_bits ?g) \<longrightarrow> bf_mem f' c"
      "\<forall>j \<in> set is. \<forall>c. bf_bit_index ?g h1 h2 j = Some c \<longrightarrow> bf_mem f' c"
    using Cons.IH [OF g] by blast
  have "bf_mem f' b" using f'(5) this_bit b(2) by simp
  moreover have "\<forall>j \<in> set is. \<forall>c. bf_bit_index f h1 h2 j = Some c \<longrightarrow> bf_mem f' c"
    using f'(6) unfolding idx .
  moreover have "bf_mem f' c" if "bf_mem f c" "c div 64 < length (bf_bits f)" for c
    using f'(5) keep [OF that] that(2) by simp
  moreover have "bf_set_bits h1 h2 (i # is) f = Some f'" using f'(1) b by simp
  ultimately show ?case using f'(2-4) b(1) by (intro exI [of _ f']) simp
qed simp

lemma bf_test_bits_spec:
  assumes "bf_ok f" "\<forall>i \<in> set is. \<forall>b. bf_bit_index f h1 h2 i = Some b \<longrightarrow> bf_mem f b"
  shows "bf_test_bits h1 h2 is f = Some True"
  using assms(2)
proof (induction "is")
  case (Cons i "is")
  obtain b where b: "bf_bit_index f h1 h2 i = Some b" "b div 64 < length (bf_bits f)"
    using bf_bit_index_ok [OF assms(1)] by blast
  have "bf_mem f b" using Cons.prems b by simp
  then show ?case using Cons b by (simp add: bf_test_bit_iff bf_mem_def not_le)
qed simp

text \<open>The set bits of a filter only grow, and a stored key's bits stay set.\<close>

definition bf_holds :: "bloom \<Rightarrow> i64 \<Rightarrow> bool" where
  "bf_holds f k \<longleftrightarrow>
     (\<forall>i < bf_num_hashes f. \<forall>b. bf_bit_index f (fst (bf_hashes k)) (snd (bf_hashes k)) i = Some b \<longrightarrow> bf_mem f b)"

lemma bf_insert_spec:
  assumes "bf_ok f"
  obtains f' where "bf_insert k f = Some f'" "bf_ok f'" "bf_holds f' k" "\<And>j. bf_holds f j \<Longrightarrow> bf_holds f' j"
proof -
  obtain h1 h2 where h: "bf_hashes k = (h1, h2)" by force
  obtain f' where f': "bf_set_bits h1 h2 [0..<bf_num_hashes f] f = Some f'" "bf_ok f'"
      "bf_num_bits f' = bf_num_bits f" "bf_num_hashes f' = bf_num_hashes f"
      "\<forall>b. bf_mem f b \<longrightarrow> b div 64 < length (bf_bits f) \<longrightarrow> bf_mem f' b"
      "\<forall>i \<in> set [0..<bf_num_hashes f]. \<forall>b. bf_bit_index f h1 h2 i = Some b \<longrightarrow> bf_mem f' b"
    using bf_set_bits_spec [OF assms] by blast
  have idx: "bf_bit_index f' = bf_bit_index f" using f'(3) by (simp add: bf_bit_index_def fun_eq_iff)
  have "bf_holds f' j" if "bf_holds f j" for j
    unfolding bf_holds_def idx f'(4)
  proof (intro allI impI)
    fix i b assume a: "i < bf_num_hashes f" "bf_bit_index f (fst (bf_hashes j)) (snd (bf_hashes j)) i = Some b"
    then have "bf_mem f b" using that by (simp add: bf_holds_def)
    moreover have "b div 64 < length (bf_bits f)" using bf_bit_index_ok [OF assms] a(2) by (metis option.inject)
    ultimately show "bf_mem f' b" using f'(5) by simp
  qed
  moreover have "bf_holds f' k" using f'(6) by (simp add: bf_holds_def idx f'(4) h)
  ultimately show ?thesis using that [of f'] f'(1,2) by (simp add: bf_insert_def h)
qed

lemma bf_insert_all_spec:
  assumes "bf_ok f"
  shows "\<exists>f'. bf_insert_all ks f = Some f' \<and> bf_ok f' \<and> (\<forall>k. k \<in> set ks \<or> bf_holds f k \<longrightarrow> bf_holds f' k)"
  using assms
proof (induction ks arbitrary: f)
  case (Cons k ks)
  obtain g where g: "bf_insert k f = Some g" "bf_ok g" "bf_holds g k" "\<And>j. bf_holds f j \<Longrightarrow> bf_holds g j"
    using bf_insert_spec [OF Cons.prems] by metis
  obtain f' where "bf_insert_all ks g = Some f'" "bf_ok f'" "\<forall>k. k \<in> set ks \<or> bf_holds g k \<longrightarrow> bf_holds f' k"
    using Cons.IH [OF g(2)] by blast
  then show ?case using g by auto
qed simp

lemma bf_maybe_contains_holds: "bf_ok f \<Longrightarrow> bf_holds f k \<Longrightarrow> bf_maybe_contains f k = Some True"
  by (cases "bf_hashes k") (simp add: bf_maybe_contains_def bf_holds_def bf_test_bits_spec)

lemma bf_ok_with_capacity: "n < 2 ^ 58 \<Longrightarrow> bf_ok (bf_with_capacity n)"
proof -
  assume n: "n < 2 ^ 58"
  define m where "m = max (n * 10) 64"
  have m: "64 \<le> m" "m < 2 ^ 62" using n by (auto simp: m_def)
  have "0 < (m + 63) div 64" using m(1) by simp
  moreover have "64 * ((m + 63) div 64) \<le> m + 63" by simp
  ultimately show ?thesis
    using m(2) by (simp add: bf_ok_def bf_with_capacity_def BITS_PER_KEY_def Let_def m_def [symmetric])
qed

section \<open>The contract of a key filter\<close>

text \<open>
  What a lookup relies on: building over any key list of addressable size succeeds, and
  the probe of a stored key answers that it may be present.
\<close>

locale key_filter =
  fixes build :: "'k list \<Rightarrow> 'f option"
    and probe :: "'f \<Rightarrow> 'k \<Rightarrow> bool option"
    and total :: "'f \<Rightarrow> bool"
    and cap :: nat
  assumes build_ok: "length ks < cap \<Longrightarrow> \<exists>f. build ks = Some f \<and> total f"
    and probe_total: "total f \<Longrightarrow> \<exists>r. probe f k = Some r"
    and no_false_negative: "length ks < cap \<Longrightarrow> build ks = Some f \<Longrightarrow> k \<in> set ks \<Longrightarrow> probe f k = Some True"
begin

lemma definitely_absent:
  assumes "length ks < cap" "build ks = Some f" "probe f k = Some False"
  shows "k \<notin> set ks"
  using no_false_negative [OF assms(1,2), of k] assms(3) by auto

end

lemma bf_test_bits_total: "bf_ok f \<Longrightarrow> \<exists>r. bf_test_bits h1 h2 is f = Some r"
proof (induction "is")
  case (Cons i "is")
  obtain b where "bf_bit_index f h1 h2 i = Some b" "b div 64 < length (bf_bits f)"
    using bf_bit_index_ok [OF Cons.prems] by blast
  then show ?case using Cons by (cases "bf_bits f ! (b div 64) AND push_bit (b mod 64) 1 = 0") auto
qed auto

interpretation bloom: key_filter bf_build_values bf_maybe_contains_value bf_ok "2 ^ 58"
proof (unfold_locales, goal_cases)
  case (1 ks)
  then show ?case
    using bf_insert_all_spec [OF bf_ok_with_capacity] unfolding bf_build_values_def by blast
next
  case (2 f k)
  then show ?case
    by (cases "bf_hashes (value_seed k)")
       (simp add: bf_maybe_contains_value_def bf_maybe_contains_def bf_test_bits_total)
next
  case (3 ks f k)
  then obtain f' where "bf_insert_all (map value_seed ks) (bf_with_capacity (length ks)) = Some f'"
      "bf_ok f'" "\<forall>x. x \<in> set (map value_seed ks) \<longrightarrow> bf_holds f' x"
    using bf_insert_all_spec [OF bf_ok_with_capacity [OF 3(1)], of "map value_seed ks"] by auto
  then show ?case
    using 3(2,3) by (auto simp: bf_build_values_def bf_maybe_contains_value_def intro: bf_maybe_contains_holds)
qed

section \<open>Properties\<close>

text \<open>
  C30. No false negatives: a filter built from fewer than \<open>2 ^ 58\<close> keys always builds, and every
  key it was built from is reported as possibly present.
\<close>

theorem bloom_no_false_negatives:
  assumes "length ks < 2 ^ 58"
  shows "\<exists>f. bf_build_values ks = Some f \<and> (\<forall>k \<in> set ks. bf_maybe_contains_value f k = Some True)"
  using bloom.build_ok [OF assms] bloom.no_false_negative [OF assms] by blast

theorem bloom_no_false_negatives_witness:
  "\<exists>f. bf_build_values [VInt 5, VText ''k''] = Some f \<and> bf_maybe_contains_value f (VText ''k'') = Some True"
  using bloom_no_false_negatives [of "[VInt 5, VText ''k'']"] by auto

end
