(* ===== verification/Ck_DeleteVector.thy ===== *)
theory Ck_DeleteVector
  imports Ck_Csn Ck_Float
begin

text \<open>
  \<open>src/src/delete_vector.rs\<close>: the CSN-versioned tombstones of one part, kept sorted by row
  ordinal with the lowest and highest deletion CSN cached.  The lemmas show that the
  vector is a partial map from ordinals to CSNs, that marking keeps the first tombstone of
  a row, and that the cached minimum decides per part exactly what the per-row test
  decides.
\<close>

section \<open>The tombstones of a part\<close>

record delete_vector =
  dv_entries :: "(u32 \<times> csn) list"
  dv_min_deleted :: csn
  dv_max_deleted :: csn

definition dv_new :: delete_vector where
  "dv_new = \<lparr>dv_entries = [], dv_min_deleted = NEVER_DELETED, dv_max_deleted = 0\<rparr>"

text \<open>
  \<open>slice::binary_search_by_key\<close> on a sorted slice: the index of a match, or the index at
  which the key keeps the slice sorted.
\<close>

definition binary_search_by_key :: "('a \<Rightarrow> 'k::linorder) \<Rightarrow> 'k \<Rightarrow> 'a list \<Rightarrow> nat + nat" where
  "binary_search_by_key f k xs =
     (let p = length (takeWhile (\<lambda>x. f x < k) xs)
      in if p < length xs \<and> f (xs ! p) = k then Inr p else Inl p)"

definition dv_is_empty :: "delete_vector \<Rightarrow> bool" where
  "dv_is_empty d \<longleftrightarrow> dv_entries d = []"

definition dv_len :: "delete_vector \<Rightarrow> nat" where
  "dv_len d = length (dv_entries d)"

definition mark_deleted :: "u32 \<Rightarrow> csn \<Rightarrow> delete_vector \<Rightarrow> bool \<times> delete_vector" where
  "mark_deleted ord c d =
     (case binary_search_by_key fst ord (dv_entries d) of
        Inr _ \<Rightarrow> (False, d)
      | Inl pos \<Rightarrow>
          (True, d\<lparr>dv_entries := take pos (dv_entries d) @ (ord, c) # drop pos (dv_entries d),
                  dv_min_deleted := min (dv_min_deleted d) c,
                  dv_max_deleted := max (dv_max_deleted d) c\<rparr>))"

definition deleted_at :: "u32 \<Rightarrow> delete_vector \<Rightarrow> csn" where
  "deleted_at ord d =
     (case binary_search_by_key fst ord (dv_entries d) of
        Inr i \<Rightarrow> snd (dv_entries d ! i)
      | Inl _ \<Rightarrow> NEVER_DELETED)"

definition is_deleted_for :: "u32 \<Rightarrow> snapshot \<Rightarrow> delete_vector \<Rightarrow> bool" where
  "is_deleted_for ord snap d \<longleftrightarrow> deleted_at ord d \<le> snap"

definition is_irrelevant_to :: "snapshot \<Rightarrow> delete_vector \<Rightarrow> bool" where
  "is_irrelevant_to snap d \<longleftrightarrow>
     dv_entries d = [] \<or> unaffected_by_deletes_from snap (dv_min_deleted d)"

definition deleted_count_for :: "snapshot \<Rightarrow> delete_vector \<Rightarrow> nat" where
  "deleted_count_for snap d =
     (if is_irrelevant_to snap d then 0
      else length (filter (\<lambda>e. snd e \<le> snap) (dv_entries d)))"

definition dv_density :: "nat \<Rightarrow> delete_vector \<Rightarrow> f64" where
  "dv_density total_rows d =
     (if total_rows = 0 then 0
      else f64_div (f64_of_int (int (length (dv_entries d)))) (f64_of_int (int total_rows)))"

definition deleted_ordinals_for :: "snapshot \<Rightarrow> delete_vector \<Rightarrow> u32 list" where
  "deleted_ordinals_for snap d = map fst (filter (\<lambda>e. snd e \<le> snap) (dv_entries d))"

definition entries_after :: "csn \<Rightarrow> delete_vector \<Rightarrow> (u32 \<times> csn) list" where
  "entries_after c d = filter (\<lambda>e. c < snd e) (dv_entries d)"

section \<open>Searching a sorted slice\<close>

lemma takeWhile_sorted_split:
  fixes k :: "'k::linorder"
  assumes "sorted_wrt (<) (map f xs)"
  defines "p \<equiv> length (takeWhile (\<lambda>x. f x < k) xs)"
  shows "\<forall>x \<in> set (take p xs). f x < k" "\<forall>x \<in> set (drop p xs). k \<le> f x"
    "p < length xs \<Longrightarrow> f (xs ! p) \<noteq> k \<Longrightarrow> \<forall>x \<in> set (drop p xs). k < f x"
proof -
  have t: "take p xs = takeWhile (\<lambda>x. f x < k) xs" unfolding p_def by (rule takeWhile_eq_take [symmetric])
  then show "\<forall>x \<in> set (take p xs). f x < k" by (auto dest: set_takeWhileD)
  have d: "drop p xs = dropWhile (\<lambda>x. f x < k) xs" unfolding p_def by (rule dropWhile_eq_drop [symmetric])
  have ge: "\<forall>x \<in> set (dropWhile (\<lambda>x. f x < k) xs). k \<le> f x"
    using assms(1)
  proof (induction xs)
    case (Cons x xs)
    then show ?case by (cases "f x < k") (auto simp: not_less dest: less_imp_le intro: order_trans [of k "f x"])
  qed simp
  then show "\<forall>x \<in> set (drop p xs). k \<le> f x" by (simp add: d)
  assume p: "p < length xs" "f (xs ! p) \<noteq> k"
  have cons: "drop p xs = xs ! p # drop (Suc p) xs" using p(1) by (rule Cons_nth_drop_Suc [symmetric])
  have "k < f (xs ! p)" using ge p(2) by (simp add: d [symmetric] cons order.order_iff_strict)
  moreover have "\<forall>x \<in> set (drop (Suc p) xs). f (xs ! p) < f x"
    using assms(1) p(1) by (auto simp: sorted_wrt_iff_nth_less in_set_conv_nth)
  ultimately show "\<forall>x \<in> set (drop p xs). k < f x" by (auto simp: cons)
qed

lemma binary_search_map_of:
  assumes "sorted_wrt (<) (map fst xs)"
  shows "(case binary_search_by_key fst k xs of Inr i \<Rightarrow> Some (snd (xs ! i)) | Inl _ \<Rightarrow> None) = map_of xs k"
proof -
  define p where "p = length (takeWhile (\<lambda>x. fst x < k) xs)"
  note sp = takeWhile_sorted_split [OF assms, where k = k, folded p_def]
  have dist: "distinct (map fst xs)" using assms by (simp add: strict_sorted_iff)
  show ?thesis
  proof (cases "p < length xs \<and> fst (xs ! p) = k")
    case True
    then have "(k, snd (xs ! p)) \<in> set xs" using nth_mem [of p xs] by (metis prod.collapse)
    then have "map_of xs k = Some (snd (xs ! p))" using dist by simp
    then show ?thesis using True by (simp add: binary_search_by_key_def p_def [symmetric])
  next
    case False
    have "k \<notin> fst ` set (take p xs)" using sp(1) by auto
    moreover have "k \<notin> fst ` set (drop p xs)"
    proof (cases "p < length xs")
      case True
      then show ?thesis using sp(3) False by auto
    qed simp
    ultimately have "k \<notin> fst ` set xs" by (metis Un_iff append_take_drop_id image_Un set_append)
    then have "map_of xs k = None" by (simp add: map_of_eq_None_iff)
    then show ?thesis using False by (simp add: binary_search_by_key_def p_def [symmetric])
  qed
qed

section \<open>The invariant\<close>

text \<open>Sorted by ordinal, each at most once, with exact cached bounds.\<close>

definition dv_ok :: "delete_vector \<Rightarrow> bool" where
  "dv_ok d \<longleftrightarrow>
     sorted_wrt (<) (map fst (dv_entries d)) \<and>
     dv_min_deleted d = Min (insert NEVER_DELETED (snd ` set (dv_entries d))) \<and>
     dv_max_deleted d = Max (insert 0 (snd ` set (dv_entries d)))"

definition dv_map :: "delete_vector \<Rightarrow> u32 \<rightharpoonup> csn" where
  "dv_map d = map_of (dv_entries d)"

lemma dv_ok_new [simp]: "dv_ok dv_new"
  by (simp add: dv_ok_def dv_new_def)

lemma dv_map_new [simp]: "dv_map dv_new = Map.empty"
  by (simp add: dv_map_def dv_new_def)

lemma deleted_at_map:
  "dv_ok d \<Longrightarrow> deleted_at ord d = (case dv_map d ord of Some c \<Rightarrow> c | None \<Rightarrow> NEVER_DELETED)"
  using binary_search_map_of [of "dv_entries d" ord]
  by (auto simp: dv_ok_def deleted_at_def dv_map_def split: sum.splits option.splits)

lemma mark_deleted_present:
  "dv_ok d \<Longrightarrow> dv_map d ord = Some c' \<Longrightarrow> mark_deleted ord c d = (False, d)"
  using binary_search_map_of [of "dv_entries d" ord]
  by (auto simp: dv_ok_def mark_deleted_def dv_map_def split: sum.splits)

lemma mark_deleted_absent:
  assumes "dv_ok d" "dv_map d ord = None"
  obtains d' where "mark_deleted ord c d = (True, d')" "dv_ok d'" "dv_map d' = (dv_map d)(ord \<mapsto> c)"
    "set (dv_entries d') = insert (ord, c) (set (dv_entries d))"
proof -
  let ?xs = "dv_entries d"
  define p where "p = length (takeWhile (\<lambda>x. fst x < ord) ?xs)"
  have srt: "sorted_wrt (<) (map fst ?xs)" using assms(1) by (simp add: dv_ok_def)
  note sp = takeWhile_sorted_split [OF srt, where k = ord, folded p_def]
  have nin: "ord \<notin> fst ` set ?xs" using assms(2) by (simp add: dv_map_def map_of_eq_None_iff)
  then have miss: "\<not> (p < length ?xs \<and> fst (?xs ! p) = ord)" by auto
  let ?ys = "take p ?xs @ (ord, c) # drop p ?xs"
  let ?d = "d\<lparr>dv_entries := ?ys, dv_min_deleted := min (dv_min_deleted d) c,
              dv_max_deleted := max (dv_max_deleted d) c\<rparr>"
  have m: "mark_deleted ord c d = (True, ?d)"
    using miss by (simp add: mark_deleted_def binary_search_by_key_def p_def [symmetric])
  have set: "set ?ys = insert (ord, c) (set ?xs)"
  proof -
    have "set ?xs = set (take p ?xs) \<union> set (drop p ?xs)" by (metis append_take_drop_id set_append)
    then show ?thesis by auto
  qed
  have "sorted_wrt (<) (map fst (take p ?xs))" "sorted_wrt (<) (map fst (drop p ?xs))"
    using srt by (simp_all add: take_map [symmetric] drop_map [symmetric] sorted_wrt_take sorted_wrt_drop)
  moreover have gt: "\<forall>x \<in> set (drop p ?xs). ord < fst x"
    using sp(2) nin set_drop_subset [of p ?xs] by (force simp: order.order_iff_strict)
  ultimately have "sorted_wrt (<) (map fst ?ys)"
    using sp(1) by (auto simp: sorted_wrt_append intro: less_trans)
  moreover have "snd ` set ?ys = insert c (snd ` set ?xs)" unfolding set by simp
  ultimately have "dv_ok ?d"
    using assms(1) unfolding dv_ok_def
    by (simp add: min.commute max.commute insert_commute [of NEVER_DELETED] insert_commute [of 0] del: set_append list.set)
  moreover have "map_of ?ys = (map_of ?xs)(ord \<mapsto> c)"
  proof -
    have "map_of (take p ?xs) ord = None" using sp(1) by (auto simp: map_of_eq_None_iff)
    then have "map_of ?ys = (map_of (take p ?xs @ drop p ?xs))(ord \<mapsto> c)"
      by (auto simp: map_add_def fun_eq_iff simp del: append_take_drop_id split: option.split)
    then show ?thesis by (simp only: append_take_drop_id)
  qed
  ultimately show ?thesis using that [OF m] set by (simp add: dv_map_def)
qed

lemma mark_deleted_spec:
  assumes "dv_ok d"
  shows "dv_ok (snd (mark_deleted ord c d))"
    and "fst (mark_deleted ord c d) \<longleftrightarrow> dv_map d ord = None"
    and "dv_map (snd (mark_deleted ord c d)) = (if dv_map d ord = None then (dv_map d)(ord \<mapsto> c) else dv_map d)"
  using mark_deleted_present [OF assms] mark_deleted_absent [OF assms, of ord c] assms
  by (cases "dv_map d ord"; metis fst_conv option.distinct(1) snd_conv)+

section \<open>Fast path and per-row test\<close>

lemma dv_map_mem: "dv_ok d \<Longrightarrow> dv_map d ord = Some c \<longleftrightarrow> (ord, c) \<in> set (dv_entries d)"
  by (simp add: dv_ok_def dv_map_def strict_sorted_iff)

lemma min_deleted_le: "dv_ok d \<Longrightarrow> dv_map d ord = Some c \<Longrightarrow> dv_min_deleted d \<le> c"
  by (force simp: dv_ok_def dv_map_mem intro: Min_le)

lemma is_deleted_for_iff:
  assumes "dv_ok d" "snap \<noteq> NEVER_DELETED"
  shows "is_deleted_for ord snap d \<longleftrightarrow> (\<exists>c. (ord, c) \<in> set (dv_entries d) \<and> c \<le> snap)"
proof -
  have "snap < NEVER_DELETED" using assms(2) by (simp add: less_NEVER_DELETED)
  then show ?thesis
    unfolding is_deleted_for_def deleted_at_map [OF assms(1)] dv_map_mem [OF assms(1), symmetric]
    by (cases "dv_map d ord") (simp_all add: not_le)
qed

text \<open>
  When the cached minimum clears the snapshot, no row of the part is deleted for it, and
  conversely when no row is deleted for a snapshot the part has entries for, the minimum
  clears it.
\<close>

lemma is_irrelevant_iff:
  assumes "dv_ok d" "snap \<noteq> NEVER_DELETED"
  shows "is_irrelevant_to snap d \<longleftrightarrow> (\<forall>ord. \<not> is_deleted_for ord snap d)"
proof -
  have fin: "finite (insert NEVER_DELETED (snd ` set (dv_entries d)))" by simp
  have top: "snap < NEVER_DELETED" using assms(2) by (simp add: less_NEVER_DELETED)
  have "(\<forall>ord. \<not> is_deleted_for ord snap d) \<longleftrightarrow> (\<forall>e \<in> set (dv_entries d). snap < snd e)"
    unfolding is_deleted_for_iff [OF assms] by (auto simp: not_le)
  also have "\<dots> \<longleftrightarrow> snap < dv_min_deleted d"
    using assms(1) top by (auto simp: dv_ok_def)
  also have "\<dots> \<longleftrightarrow> is_irrelevant_to snap d"
    using assms(1) top by (auto simp: is_irrelevant_to_def unaffected_by_deletes_from_def dv_ok_def)
  finally show ?thesis by simp
qed

lemma deleted_ordinals_spec:
  assumes "dv_ok d" "snap \<noteq> NEVER_DELETED"
  shows "set (deleted_ordinals_for snap d) = {ord. is_deleted_for ord snap d}"
    and "sorted_wrt (<) (deleted_ordinals_for snap d)"
    and "deleted_count_for snap d = length (deleted_ordinals_for snap d)"
proof -
  show s: "set (deleted_ordinals_for snap d) = {ord. is_deleted_for ord snap d}"
    unfolding is_deleted_for_iff [OF assms] by (force simp: deleted_ordinals_for_def)
  show "sorted_wrt (<) (deleted_ordinals_for snap d)"
    using assms(1) unfolding dv_ok_def deleted_ordinals_for_def
    by (auto simp: sorted_wrt_map intro: sorted_wrt_filter)
  show "deleted_count_for snap d = length (deleted_ordinals_for snap d)"
    using is_irrelevant_iff [OF assms] s
    by (auto simp: deleted_count_for_def deleted_ordinals_for_def filter_empty_conv)
qed

section \<open>Properties\<close>

text \<open>
  Tombstones are permanent: marking an ordinal records the commit number when it has none
  and reports so, and otherwise changes nothing; every other ordinal keeps its answer.
\<close>

theorem mark_deleted_first_wins:
  assumes "dv_ok d"
  shows "dv_ok (snd (mark_deleted ord c d)) \<and>
    (fst (mark_deleted ord c d) \<longleftrightarrow> dv_map d ord = None) \<and>
    deleted_at o' (snd (mark_deleted ord c d)) = (if o' = ord \<and> dv_map d ord = None then c else deleted_at o' d)"
  using mark_deleted_spec [OF assms, of ord c] by (simp add: deleted_at_map [OF assms] deleted_at_map)

theorem mark_deleted_first_wins_witness:
  "deleted_at 7 (snd (mark_deleted 7 4 dv_new)) = 4 \<and>
   deleted_at 7 (snd (mark_deleted 7 9 (snd (mark_deleted 7 4 dv_new)))) = 4"
  using mark_deleted_first_wins [of dv_new 7 4 7]
    mark_deleted_first_wins [of "snd (mark_deleted 7 4 dv_new)" 7 9 7] mark_deleted_spec(3) [OF dv_ok_new, of 7 4]
  by simp

text \<open>
  The one-comparison fast path is exact: a delete vector is reported irrelevant to a
  snapshot exactly when no ordinal of it is deleted for that snapshot; and the ordinals listed as
  deleted are the ones that are, in increasing order and counted.
\<close>

theorem delete_vector_fast_path:
  assumes "dv_ok d" "snap \<noteq> NEVER_DELETED"
  shows "(is_irrelevant_to snap d \<longleftrightarrow> (\<forall>ord. \<not> is_deleted_for ord snap d)) \<and>
    set (deleted_ordinals_for snap d) = {ord. is_deleted_for ord snap d} \<and>
    sorted_wrt (<) (deleted_ordinals_for snap d) \<and> deleted_count_for snap d = length (deleted_ordinals_for snap d)"
  using is_irrelevant_iff [OF assms] deleted_ordinals_spec [OF assms] by blast

theorem delete_vector_fast_path_witness:
  "is_irrelevant_to 3 (snd (mark_deleted 7 4 dv_new)) \<longleftrightarrow> (\<forall>ord. \<not> is_deleted_for ord 3 (snd (mark_deleted 7 4 dv_new)))"
  using delete_vector_fast_path [of "snd (mark_deleted 7 4 dv_new)" 3] mark_deleted_spec(1) [OF dv_ok_new, of 7 4]
  by (simp add: NEVER_DELETED_def)

end
