(* ===== verification/Ck_Part.thy ===== *)
theory Ck_Part
  imports Ck_L0 Ck_Bloom Ck_DeleteVector
begin

text \<open>
  \<open>src/src/part.rs\<close>: a sealed, key-sorted run of rows with its creation stamps, bounds,
  Bloom filter, zonemaps and mutable deletion vector.

  The lemmas show that the four-stage lookup funnel (bounds, Bloom filter, binary search
  widened to the run of equal keys, visibility) returns exactly what a linear search for
  the first visible row with the key returns, that the scan and the row count take the
  zero-work path only when it gives the same rows, and that a part built from sealed
  entries holds the same versions.
\<close>

section \<open>Creation stamps\<close>

datatype created_csns = Uniform csn | PerRow "csn list"

fun created_at_ord :: "created_csns \<Rightarrow> nat \<Rightarrow> csn option" where
  "created_at_ord (Uniform c) i = Some c"
| "created_at_ord (PerRow v) i = nth_opt v i"

fun is_uniform :: "created_csns \<Rightarrow> bool" where
  "is_uniform (Uniform _) = True"
| "is_uniform (PerRow _) = False"

fun maybe_collapse :: "csn \<Rightarrow> created_csns \<Rightarrow> created_csns" where
  "maybe_collapse horizon (Uniform c) = Uniform c"
| "maybe_collapse horizon (PerRow v) =
     (if v = [] then Uniform 0
      else let mn = Min (set v); mx = Max (set v)
           in if mn = mx \<or> mx \<le> horizon then Uniform mn else PerRow v)"

datatype lookup_result = OutOfBounds | BloomMiss | NotPresent | NotVisible | Found u32

fun lr_ordinal :: "lookup_result \<Rightarrow> u32 option" where
  "lr_ordinal (Found o') = Some o'"
| "lr_ordinal _ = None"

section \<open>Parts\<close>

record part =
  p_id :: u64
  p_batch :: batch
  p_created :: created_csns
  p_created_min :: csn
  p_created_max :: csn
  p_min_key :: value_t
  p_max_key :: value_t
  p_col_bounds :: "(value_t \<times> value_t) option list"
  p_bloom :: bloom
  p_dv :: delete_vector

text \<open>The lowest and highest creation stamp; \<open>0\<close> for a part of no rows.\<close>

fun created_bounds :: "created_csns \<Rightarrow> csn \<times> csn" where
  "created_bounds (Uniform c) = (c, c)"
| "created_bounds (PerRow v) = (if v = [] then (0, 0) else (Min (set v), Max (set v)))"

text \<open>\<open>Part::new\<close> asserts that the batch is sorted and that the stamps match its rows.\<close>

definition part_new :: "arrow \<Rightarrow> u64 \<Rightarrow> batch \<Rightarrow> created_csns \<Rightarrow> part option" where
  "part_new A pid batch created =
     do {
       srt \<leftarrow> is_sorted_by_key batch;
       if \<not> srt \<or> (case created of PerRow v \<Rightarrow> length v \<noteq> b_len batch | Uniform _ \<Rightarrow> False) then None
       else do {
         (min_key, max_key) \<leftarrow>
           (if b_is_empty batch then Some (VNull, VNull)
            else do { a \<leftarrow> b_key batch 0; z \<leftarrow> b_key batch (b_len batch - 1); Some (a, z) });
         keys \<leftarrow> b_keys batch;
         bloom \<leftarrow> bf_build_values keys;
         bounds \<leftarrow> traverse (column_bounds A batch) [0..<arity (b_schema batch)];
         Some \<lparr>p_id = pid, p_batch = batch, p_created = created,
               p_created_min = fst (created_bounds created), p_created_max = snd (created_bounds created),
               p_min_key = min_key, p_max_key = max_key, p_col_bounds = bounds,
               p_bloom = bloom, p_dv = dv_new\<rparr> } }"

definition part_col_bounds :: "part \<Rightarrow> nat \<Rightarrow> (value_t \<times> value_t) option" where
  "part_col_bounds p col = (case nth_opt (p_col_bounds p) col of Some b \<Rightarrow> b | None \<Rightarrow> None)"

definition p_num_rows :: "part \<Rightarrow> nat" where
  "p_num_rows p = b_len (p_batch p)"

definition p_created_at :: "part \<Rightarrow> nat \<Rightarrow> csn option" where
  "p_created_at p i = created_at_ord (p_created p) i"

section \<open>Lookup\<close>

function search_from :: "batch \<Rightarrow> value_t \<Rightarrow> nat \<Rightarrow> nat \<Rightarrow> (nat + nat) option" where
  "search_from b key lo hi =
     (if lo < hi
      then let mid = (lo + hi) div 2
           in do {
                k \<leftarrow> b_key b mid;
                (case total_cmp k key of
                   Less \<Rightarrow> search_from b key (mid + 1) hi
                 | Greater \<Rightarrow> search_from b key lo mid
                 | Equal \<Rightarrow> Some (Inr mid)) }
      else Some (Inl lo))"
  by pat_completeness auto
termination
  by (relation "measure (\<lambda>(b, key, lo, hi). hi - lo)") auto

declare search_from.simps [simp del]

definition search_key :: "batch \<Rightarrow> value_t \<Rightarrow> (nat + nat) option" where
  "search_key b key = search_from b key 0 (b_len b)"

fun run_lo :: "batch \<Rightarrow> value_t \<Rightarrow> nat \<Rightarrow> nat option" where
  "run_lo b key 0 = Some 0"
| "run_lo b key (Suc n) =
     do { k \<leftarrow> b_key b n; if total_cmp k key = Equal then run_lo b key n else Some (Suc n) }"

function run_hi :: "batch \<Rightarrow> value_t \<Rightarrow> nat \<Rightarrow> nat option" where
  "run_hi b key hi =
     (if hi + 1 < b_len b
      then do { k \<leftarrow> b_key b (hi + 1); if total_cmp k key = Equal then run_hi b key (hi + 1) else Some hi }
      else Some hi)"
  by pat_completeness auto
termination
  by (relation "measure (\<lambda>(b, key, hi). b_len b - hi)") auto

declare run_hi.simps [simp del]

definition equal_key_run :: "batch \<Rightarrow> nat \<Rightarrow> (nat \<times> nat) option" where
  "equal_key_run b i =
     do { key \<leftarrow> b_key b i; lo \<leftarrow> run_lo b key i; hi \<leftarrow> run_hi b key i; Some (lo, hi) }"

fun part_pick :: "created_csns \<Rightarrow> delete_vector \<Rightarrow> bool \<Rightarrow> snapshot \<Rightarrow> nat list \<Rightarrow> lookup_result option" where
  "part_pick created dv dv_relevant snap [] = Some NotVisible"
| "part_pick created dv dv_relevant snap (i # is) =
     do {
       c \<leftarrow> created_at_ord created i;
       if snap < c then part_pick created dv dv_relevant snap is
       else if dv_relevant \<and> is_deleted_for (word_of_nat i) snap dv then part_pick created dv dv_relevant snap is
       else Some (Found (word_of_nat i)) }"

definition part_lookup :: "part \<Rightarrow> value_t \<Rightarrow> snapshot \<Rightarrow> lookup_result option" where
  "part_lookup p key snap =
     (if b_is_empty (p_batch p) \<or> total_cmp key (p_min_key p) = Less \<or> total_cmp key (p_max_key p) = Greater
      then Some OutOfBounds
      else do {
        maybe \<leftarrow> bf_maybe_contains_value (p_bloom p) key;
        if \<not> maybe then Some BloomMiss
        else do {
          r \<leftarrow> search_key (p_batch p) key;
          (case r of
             Inl _ \<Rightarrow> Some NotPresent
           | Inr hit \<Rightarrow> do {
               (lo, hi) \<leftarrow> equal_key_run (p_batch p) hit;
               part_pick (p_created p) (p_dv p) (\<not> is_irrelevant_to snap (p_dv p)) snap [lo..<Suc hi] }) } })"

section \<open>Deletion, scan and garbage collection of stamps\<close>

definition part_mark_deleted :: "u32 \<Rightarrow> csn \<Rightarrow> part \<Rightarrow> bool \<times> part" where
  "part_mark_deleted ord c p =
     (let (ok, dv) = mark_deleted ord c (p_dv p) in (ok, p\<lparr>p_dv := dv\<rparr>))"

fun mark_all :: "(u32 \<times> csn) list \<Rightarrow> delete_vector \<Rightarrow> delete_vector" where
  "mark_all [] d = d"
| "mark_all ((ord, c) # rest) d = mark_all rest (snd (mark_deleted ord c d))"

definition with_deletions :: "arrow \<Rightarrow> u64 \<Rightarrow> batch \<Rightarrow> created_csns \<Rightarrow> (u32 \<times> csn) list \<Rightarrow> part option" where
  "with_deletions A pid batch created deletions =
     do { p \<leftarrow> part_new A pid batch created; Some (p\<lparr>p_dv := mark_all deletions (p_dv p)\<rparr>) }"

definition is_fully_visible_to :: "snapshot \<Rightarrow> part \<Rightarrow> bool" where
  "is_fully_visible_to snap p \<longleftrightarrow>
     sees_all_created_up_to snap (p_created_max p) \<and> is_irrelevant_to snap (p_dv p)"

fun visible_ordinals :: "created_csns \<Rightarrow> delete_vector \<Rightarrow> snapshot \<Rightarrow> nat list \<Rightarrow> nat list option" where
  "visible_ordinals created dv snap [] = Some []"
| "visible_ordinals created dv snap (i # is) =
     do {
       c \<leftarrow> created_at_ord created i;
       rest \<leftarrow> visible_ordinals created dv snap is;
       Some (if c \<le> snap \<and> \<not> is_deleted_for (word_of_nat i) snap dv then i # rest else rest) }"

definition part_scan :: "arrow \<Rightarrow> part \<Rightarrow> snapshot \<Rightarrow> batch option" where
  "part_scan A p snap =
     (if is_fully_visible_to snap p then Some (p_batch p)
      else do {
        vis \<leftarrow> visible_ordinals (p_created p) (p_dv p) snap [0..<b_len (p_batch p)];
        b_take A (p_batch p) (map word_of_nat vis) })"

definition part_visible_count :: "part \<Rightarrow> snapshot \<Rightarrow> nat option" where
  "part_visible_count p snap =
     (if is_fully_visible_to snap p then Some (b_len (p_batch p))
      else do {
        vis \<leftarrow> visible_ordinals (p_created p) (p_dv p) snap [0..<b_len (p_batch p)];
        Some (length vis) })"

definition p_dv_density :: "part \<Rightarrow> f64" where
  "p_dv_density p = dv_density (b_len (p_batch p)) (p_dv p)"

definition collapse_versions :: "csn \<Rightarrow> part \<Rightarrow> part" where
  "collapse_versions horizon p = p\<lparr>p_created := maybe_collapse horizon (p_created p)\<rparr>"

section \<open>The invariant\<close>

fun created_val :: "created_csns \<Rightarrow> nat \<Rightarrow> csn" where
  "created_val (Uniform c) i = c"
| "created_val (PerRow v) i = v ! i"

fun created_fits :: "nat \<Rightarrow> created_csns \<Rightarrow> bool" where
  "created_fits n (Uniform c) = True"
| "created_fits n (PerRow v) = (length v = n)"

abbreviation p_created_val :: "part \<Rightarrow> nat \<Rightarrow> csn" where
  "p_created_val p i \<equiv> created_val (p_created p) i"

definition p_deleted_val :: "part \<Rightarrow> nat \<Rightarrow> csn" where
  "p_deleted_val p i = deleted_at (word_of_nat i) (p_dv p)"

abbreviation p_schema :: "part \<Rightarrow> schema" where
  "p_schema p \<equiv> b_schema (p_batch p)"

abbreviation p_key :: "part \<Rightarrow> nat \<Rightarrow> value_t" where
  "p_key p i \<equiv> batch_key (p_batch p) i"

definition part_ok :: "part \<Rightarrow> bool" where
  "part_ok p \<longleftrightarrow>
     batch_ok (p_batch p) \<and> b_len (p_batch p) < 2 ^ 32 \<and>
     (\<forall>i j. i < j \<longrightarrow> j < b_len (p_batch p) \<longrightarrow> vo.le (p_key p i) (p_key p j)) \<and>
     created_fits (b_len (p_batch p)) (p_created p) \<and>
     (\<forall>i < b_len (p_batch p). p_created_val p i \<le> p_created_max p) \<and>
     (0 < b_len (p_batch p) \<longrightarrow> p_min_key p = p_key p 0 \<and> p_max_key p = p_key p (b_len (p_batch p) - 1)) \<and>
     bf_ok (p_bloom p) \<and>
     (\<forall>i < b_len (p_batch p). bf_maybe_contains_value (p_bloom p) (p_key p i) = Some True) \<and>
     dv_ok (p_dv p) \<and> (\<forall>e \<in> set (dv_entries (p_dv p)). unat (fst e) < b_len (p_batch p))"

text \<open>No recorded deletion stamp is the one that stands for ``not deleted''.\<close>

definition dv_clean :: "part \<Rightarrow> bool" where
  "dv_clean p \<longleftrightarrow> (\<forall>ord. dv_map (p_dv p) ord \<noteq> Some NEVER_DELETED)"

definition part_versions :: "part \<Rightarrow> version list" where
  "part_versions p =
     map (\<lambda>i. (batch_rows (p_batch p) ! i, p_created_val p i, p_deleted_val p i)) [0..<b_len (p_batch p)]"

lemma part_okD:
  assumes "part_ok p"
  shows "batch_ok (p_batch p)" "b_len (p_batch p) < 2 ^ 32" "dv_ok (p_dv p)" "bf_ok (p_bloom p)"
  using assms by (simp_all add: part_ok_def)

lemma created_at_ok: "part_ok p \<Longrightarrow> i < b_len (p_batch p) \<Longrightarrow> created_at_ord (p_created p) i = Some (p_created_val p i)"
  by (cases "p_created p") (auto simp: part_ok_def)

lemma p_created_le_max: "part_ok p \<Longrightarrow> i < b_len (p_batch p) \<Longrightarrow> p_created_val p i \<le> p_created_max p"
  by (simp add: part_ok_def)

section \<open>Binary search\<close>

abbreviation p_keys :: "part \<Rightarrow> value_t set" where
  "p_keys p \<equiv> col_values (key_ty (p_schema p))"

lemma p_key_in: "part_ok p \<Longrightarrow> i < b_len (p_batch p) \<Longrightarrow> p_key p i \<in> p_keys p"
  using batch_key_col by (simp add: part_okD key_ty_def)

lemma p_key_mono: "part_ok p \<Longrightarrow> i \<le> j \<Longrightarrow> j < b_len (p_batch p) \<Longrightarrow> vo.le (p_key p i) (p_key p j)"
  using vo.le_refl [OF p_key_in, of p j] by (cases "i = j") (auto simp: part_ok_def)

lemma p_key_between:
  assumes "part_ok p" "i \<le> m" "m \<le> j" "j < b_len (p_batch p)" "p_key p i = k" "p_key p j = k"
  shows "p_key p m = k"
proof -
  have "vo.le k (p_key p m)" "vo.le (p_key p m) k"
    using p_key_mono [OF assms(1)] assms by (metis order.strict_trans1)+
  moreover have "p_key p m \<in> p_keys p" "k \<in> p_keys p" using p_key_in [OF assms(1)] assms by auto
  ultimately show ?thesis by (metis vo.le_antisym)
qed

text \<open>The search returns an index of the key, or the key is absent.\<close>

lemma search_from_spec:
  assumes "part_ok p" "key \<in> p_keys p" "hi \<le> b_len (p_batch p)"
    "\<forall>i < lo. i < b_len (p_batch p) \<longrightarrow> p_key p i \<noteq> key" "\<forall>i. hi \<le> i \<longrightarrow> i < b_len (p_batch p) \<longrightarrow> p_key p i \<noteq> key"
  shows "\<exists>r. search_from (p_batch p) key lo hi = Some r \<and>
    (case r of Inr i \<Rightarrow> i < b_len (p_batch p) \<and> p_key p i = key
             | Inl _ \<Rightarrow> \<forall>i < b_len (p_batch p). p_key p i \<noteq> key)"
  using assms(3-5)
proof (induction "hi - lo" arbitrary: lo hi rule: less_induct)
  case less
  let ?b = "p_batch p"
  show ?case
  proof (cases "lo < hi")
    case False
    have "p_key p i \<noteq> key" if "i < b_len ?b" for i
      using less.prems(2,3) False that by (cases "i < lo") auto
    then show ?thesis using False by (simp add: search_from.simps)
  next
    case True
    define mid where "mid = (lo + hi) div 2"
    have mid: "lo \<le> mid" "mid < hi" using True by (auto simp: mid_def)
    then have ml: "mid < b_len ?b" using less.prems(1) by simp
    have k: "b_key ?b mid = Some (p_key p mid)" using ml part_okD(1) [OF assms(1)] by (simp add: b_key_ok)
    note K = p_key_in [OF assms(1)]
    have step: "search_from ?b key lo hi = (case total_cmp (p_key p mid) key of
        Less \<Rightarrow> search_from ?b key (mid + 1) hi | Greater \<Rightarrow> search_from ?b key lo mid | Equal \<Rightarrow> Some (Inr mid))"
      using True k by (subst search_from.simps) (simp add: Let_def mid_def [symmetric])
    show ?thesis
    proof (cases "total_cmp (p_key p mid) key")
      case Less
      then have lt: "vo.lt (p_key p mid) key" by (simp add: vo.lt_def)
      have "p_key p i \<noteq> key" if "i \<le> mid" for i
        using p_key_mono [OF assms(1) that ml] lt vo.le_lt_trans [OF K K assms(2), of i mid] that ml vo.lt_irrefl [OF assms(2)]
        by (metis order.strict_trans1)
      then have "\<forall>i < mid + 1. i < b_len ?b \<longrightarrow> p_key p i \<noteq> key" by simp
      then show ?thesis using less.hyps [of hi "mid + 1"] less.prems mid Less step by simp
    next
      case Greater
      then have gt: "vo.lt key (p_key p mid)" using vo.cmp_swap [OF assms(2) K [OF ml]] by (simp add: vo.lt_def)
      have "p_key p i \<noteq> key" if "mid \<le> i" "i < b_len ?b" for i
        using p_key_mono [OF assms(1) that] gt vo.lt_le_trans [OF assms(2) K [OF ml] K [OF that(2)]] vo.lt_irrefl [OF assms(2)]
        by metis
      then show ?thesis using less.hyps [of mid lo] less.prems mid Greater step by simp
    next
      case Equal
      then show ?thesis using step ml vo.cmp_Equal [OF K [OF ml] assms(2)] by simp
    qed
  qed
qed

lemma search_key_spec:
  assumes "part_ok p" "key \<in> p_keys p"
  obtains i where "search_key (p_batch p) key = Some (Inr i)" "i < b_len (p_batch p)" "p_key p i = key"
  | j where "search_key (p_batch p) key = Some (Inl j)" "\<forall>i < b_len (p_batch p). p_key p i \<noteq> key"
proof -
  obtain r where r: "search_key (p_batch p) key = Some r"
      "case r of Inr i \<Rightarrow> i < b_len (p_batch p) \<and> p_key p i = key | Inl _ \<Rightarrow> \<forall>i < b_len (p_batch p). p_key p i \<noteq> key"
    using search_from_spec [OF assms, of "b_len (p_batch p)" 0] unfolding search_key_def by auto
  show ?thesis using that r by (cases r) auto
qed

section \<open>The run of equal keys\<close>

lemma run_lo_spec:
  assumes "part_ok p" "key \<in> p_keys p" "i \<le> b_len (p_batch p)"
  shows "\<exists>lo. run_lo (p_batch p) key i = Some lo \<and> lo \<le> i \<and> (\<forall>j. lo \<le> j \<longrightarrow> j < i \<longrightarrow> p_key p j = key) \<and>
    (0 < lo \<longrightarrow> p_key p (lo - 1) \<noteq> key)"
  using assms(3)
proof (induction i)
  case (Suc n)
  then have n: "n < b_len (p_batch p)" by simp
  have k: "b_key (p_batch p) n = Some (p_key p n)" using n part_okD(1) [OF assms(1)] by (simp add: b_key_ok)
  have e: "total_cmp (p_key p n) key = Equal \<longleftrightarrow> p_key p n = key" by (rule vo.cmp_Equal [OF p_key_in [OF assms(1) n] assms(2)])
  show ?case
  proof (cases "p_key p n = key")
    case True
    obtain lo where "run_lo (p_batch p) key n = Some lo" "lo \<le> n" "\<forall>j. lo \<le> j \<longrightarrow> j < n \<longrightarrow> p_key p j = key"
        "0 < lo \<longrightarrow> p_key p (lo - 1) \<noteq> key"
      using Suc by auto
    then show ?thesis using True k e by (auto simp: less_Suc_eq)
  next
    case False
    then show ?thesis using k e by auto
  qed
qed simp

lemma run_hi_spec:
  assumes "part_ok p" "key \<in> p_keys p" "i < b_len (p_batch p)"
  shows "\<exists>hi. run_hi (p_batch p) key i = Some hi \<and> i \<le> hi \<and> hi < b_len (p_batch p) \<and>
    (\<forall>j. i < j \<longrightarrow> j \<le> hi \<longrightarrow> p_key p j = key) \<and> (Suc hi < b_len (p_batch p) \<longrightarrow> p_key p (Suc hi) \<noteq> key)"
  using assms(3)
proof (induction "b_len (p_batch p) - i" arbitrary: i rule: less_induct)
  case less
  show ?case
  proof (cases "i + 1 < b_len (p_batch p)")
    case True
    have k: "b_key (p_batch p) (i + 1) = Some (p_key p (i + 1))" using True part_okD(1) [OF assms(1)] by (simp add: b_key_ok)
    have e: "total_cmp (p_key p (i + 1)) key = Equal \<longleftrightarrow> p_key p (i + 1) = key"
      by (rule vo.cmp_Equal [OF p_key_in [OF assms(1) True] assms(2)])
    show ?thesis
    proof (cases "p_key p (i + 1) = key")
      case True': True
      obtain hi where hi: "run_hi (p_batch p) key (i + 1) = Some hi" "i + 1 \<le> hi" "hi < b_len (p_batch p)"
          "\<forall>j. i + 1 < j \<longrightarrow> j \<le> hi \<longrightarrow> p_key p j = key" "Suc hi < b_len (p_batch p) \<longrightarrow> p_key p (Suc hi) \<noteq> key"
      proof -
        have "b_len (p_batch p) - (i + 1) < b_len (p_batch p) - i" using True by simp
        from less.hyps [OF this True] show ?thesis using that by blast
      qed
      have "p_key p j = key" if "i < j" "j \<le> hi" for j
        using hi(4) True' that by (cases "j = i + 1") auto
      then show ?thesis using hi True True' k e by (subst run_hi.simps) auto
    next
      case False
      then show ?thesis using True k e less.prems by (subst run_hi.simps) auto
    qed
  next
    case False
    then show ?thesis using less.prems by (subst run_hi.simps) auto
  qed
qed

text \<open>The run around a hit is exactly the set of rows with its key.\<close>

lemma equal_key_run_spec:
  assumes "part_ok p" "i < b_len (p_batch p)"
  obtains lo hi where "equal_key_run (p_batch p) i = Some (lo, hi)" "lo \<le> hi" "hi < b_len (p_batch p)"
    "\<And>j. j < b_len (p_batch p) \<Longrightarrow> p_key p j = p_key p i \<longleftrightarrow> lo \<le> j \<and> j \<le> hi"
proof -
  let ?k = "p_key p i"
  have K: "?k \<in> p_keys p" using p_key_in [OF assms] .
  obtain lo where lo: "run_lo (p_batch p) ?k i = Some lo" "lo \<le> i" "\<forall>j. lo \<le> j \<longrightarrow> j < i \<longrightarrow> p_key p j = ?k"
      "0 < lo \<longrightarrow> p_key p (lo - 1) \<noteq> ?k"
    using run_lo_spec [OF assms(1) K] assms(2) by (metis less_imp_le)
  obtain hi where hi: "run_hi (p_batch p) ?k i = Some hi" "i \<le> hi" "hi < b_len (p_batch p)"
      "\<forall>j. i < j \<longrightarrow> j \<le> hi \<longrightarrow> p_key p j = ?k" "Suc hi < b_len (p_batch p) \<longrightarrow> p_key p (Suc hi) \<noteq> ?k"
    using run_hi_spec [OF assms(1) K assms(2)] by blast
  have inside: "p_key p j = ?k" if "lo \<le> j" "j \<le> hi" for j
    using lo(3) hi(4) that by (cases j i rule: linorder_cases) auto
  have below: "lo \<le> j" if "j < b_len (p_batch p)" "p_key p j = ?k" for j
  proof (rule ccontr)
    assume "\<not> lo \<le> j"
    then have "0 < lo" "j \<le> lo - 1" "lo - 1 \<le> i" using lo(2) by auto
    then show False using p_key_between [OF assms(1) _ _ assms(2) that(2) refl] lo(4) by blast
  qed
  have above: "j \<le> hi" if "j < b_len (p_batch p)" "p_key p j = ?k" for j
  proof (rule ccontr)
    assume "\<not> j \<le> hi"
    then have "Suc hi \<le> j" "i \<le> Suc hi" using hi(2) by auto
    then show False using p_key_between [OF assms(1) _ _ that(1) refl that(2)] hi(5) that(1) by (meson le_less_trans)
  qed
  have "equal_key_run (p_batch p) i = Some (lo, hi)"
    using part_okD(1) [OF assms(1)] assms(2) lo(1) hi(1) by (simp add: equal_key_run_def b_key_ok)
  then show ?thesis using that lo(2) hi(2,3) inside below above by (metis order_trans)
qed

section \<open>The lookup funnel\<close>

definition p_sees :: "part \<Rightarrow> snapshot \<Rightarrow> nat \<Rightarrow> bool" where
  "p_sees p snap i \<longleftrightarrow> sees snap (p_created_val p i) (p_deleted_val p i)"

definition part_hits :: "part \<Rightarrow> value_t \<Rightarrow> snapshot \<Rightarrow> nat set" where
  "part_hits p key snap = {i. i < b_len (p_batch p) \<and> p_key p i = key \<and> p_sees p snap i}"

lemma p_sees_iff:
  "p_sees p snap i \<longleftrightarrow> p_created_val p i \<le> snap \<and> \<not> is_deleted_for (word_of_nat i) snap (p_dv p)"
  by (auto simp: p_sees_def sees_def is_deleted_for_def p_deleted_val_def)

lemma part_pick_spec:
  assumes "part_ok p" "snap \<noteq> NEVER_DELETED" "\<forall>i \<in> set is. i < b_len (p_batch p)"
  shows "part_pick (p_created p) (p_dv p) (\<not> is_irrelevant_to snap (p_dv p)) snap is =
    Some (case filter (p_sees p snap) is of [] \<Rightarrow> NotVisible | i # _ \<Rightarrow> Found (word_of_nat i))"
  using assms(3)
proof (induction "is")
  case (Cons i "is")
  have irr: "is_irrelevant_to snap (p_dv p) \<Longrightarrow> \<not> is_deleted_for (word_of_nat i) snap (p_dv p)"
    using is_irrelevant_iff [OF part_okD(3) [OF assms(1)] assms(2)] by simp
  show ?case using Cons irr created_at_ok [OF assms(1), of i] by (auto simp: p_sees_iff not_le)
qed simp

lemma filter_upt_first:
  assumes "filter P [lo..<h] = i # xs"
  shows "i = Min {j. lo \<le> j \<and> j < h \<and> P j}"
proof -
  have "sorted (i # xs)" using sorted_wrt_filter [of "(\<le>)" "[lo..<h]" P] assms by simp
  moreover have set: "{j. lo \<le> j \<and> j < h \<and> P j} = set (i # xs)" unfolding assms [symmetric] by auto
  ultimately show ?thesis unfolding set by (intro Min_eqI [symmetric]) auto
qed

text \<open>The funnel finds what a linear search for the first visible row of the key finds.\<close>

lemma part_lookup_spec:
  assumes "part_ok p" "key \<in> p_keys p" "snap \<noteq> NEVER_DELETED"
  obtains r where "part_lookup p key snap = Some r"
    "lr_ordinal r = (if part_hits p key snap = {} then None else Some (word_of_nat (Min (part_hits p key snap))))"
proof -
  let ?b = "p_batch p" and ?n = "b_len (p_batch p)"
  have absent: "part_hits p key snap = {}" if "\<forall>i < ?n. p_key p i \<noteq> key" using that by (auto simp: part_hits_def)
  show ?thesis
  proof (cases "b_is_empty ?b \<or> total_cmp key (p_min_key p) = Less \<or> total_cmp key (p_max_key p) = Greater")
    case True
    have "p_key p i \<noteq> key" if i: "i < ?n" for i
    proof
      assume e: "p_key p i = key"
      have n: "0 < ?n" using i by simp
      have "p_min_key p = p_key p 0" "p_max_key p = p_key p (?n - 1)" using assms(1) n by (simp_all add: part_ok_def)
      moreover have "vo.le (p_key p 0) key" "vo.le key (p_key p (?n - 1))"
        using p_key_mono [OF assms(1)] i e by auto
      moreover have "p_key p 0 \<in> p_keys p" "p_key p (?n - 1) \<in> p_keys p" using p_key_in [OF assms(1)] n by auto
      ultimately show False using True n vo.cmp_swap [OF assms(2)]
        by (auto simp: b_is_empty_def b_len_def vo.le_def)
    qed
    then show ?thesis using that [of OutOfBounds] True absent by (simp add: part_lookup_def)
  next
    case False
    obtain m where m: "bf_maybe_contains_value (p_bloom p) key = Some m"
      using bloom.probe_total [OF part_okD(4) [OF assms(1)]] by blast
    show ?thesis
    proof (cases m)
      case False': False
      have "p_key p i \<noteq> key" if "i < ?n" for i
        using assms(1) that m False' by (auto simp: part_ok_def)
      then show ?thesis using that [of BloomMiss] False False' m absent by (simp add: part_lookup_def)
    next
      case True
      from assms(1,2) show ?thesis
      proof (cases rule: search_key_spec)
        case (1 i)
        obtain lo hi where run: "equal_key_run ?b i = Some (lo, hi)" "lo \<le> hi" "hi < ?n"
            "\<And>j. j < ?n \<Longrightarrow> p_key p j = p_key p i \<longleftrightarrow> lo \<le> j \<and> j \<le> hi"
          using equal_key_run_spec [OF assms(1) 1(2)] by metis
        let ?f = "filter (p_sees p snap) [lo..<Suc hi]"
        have hits: "part_hits p key snap = {j. lo \<le> j \<and> j < Suc hi \<and> p_sees p snap j}"
          using run(3,4) 1(3) by (auto simp: part_hits_def)
        have look: "part_lookup p key snap = Some (case ?f of [] \<Rightarrow> NotVisible | i # _ \<Rightarrow> Found (word_of_nat i))"
          using False m True 1(1) run part_pick_spec [OF assms(1,3), of "[lo..<Suc hi]"]
          by (simp add: part_lookup_def del: upt_Suc)
        show ?thesis
        proof (cases ?f)
          case Nil
          then have "part_hits p key snap = {}" unfolding hits by (auto simp: filter_empty_conv simp del: upt_Suc)
          then show ?thesis using that look Nil by simp
        next
          case (Cons j js)
          then have "j \<in> part_hits p key snap" 
          proof -
            have "j \<in> set ?f" unfolding Cons by simp
            then show ?thesis unfolding hits by (simp del: upt_Suc)
          qed
          moreover have "j = Min (part_hits p key snap)" unfolding hits by (rule filter_upt_first [OF Cons])
          ultimately have "part_hits p key snap \<noteq> {}" "part_lookup p key snap = Some (Found (word_of_nat (Min (part_hits p key snap))))"
            using look unfolding Cons by auto
          then show ?thesis using that by simp
        qed
      next
        case (2 j)
        then show ?thesis using that [of NotPresent] False m True absent by (simp add: part_lookup_def)
      qed
    qed
  qed
qed

section \<open>Scans\<close>

definition visible_list :: "part \<Rightarrow> snapshot \<Rightarrow> nat list" where
  "visible_list p snap = filter (p_sees p snap) [0..<b_len (p_batch p)]"

lemma visible_ordinals_spec:
  assumes "part_ok p" "\<forall>i \<in> set is. i < b_len (p_batch p)"
  shows "visible_ordinals (p_created p) (p_dv p) snap is = Some (filter (p_sees p snap) is)"
  using assms(2) by (induction "is") (auto simp: created_at_ok [OF assms(1)] p_sees_iff)

lemma fully_visible_list:
  assumes "part_ok p" "snap \<noteq> NEVER_DELETED" "is_fully_visible_to snap p"
  shows "visible_list p snap = [0..<b_len (p_batch p)]"
proof -
  have "\<not> is_deleted_for ord snap (p_dv p)" for ord
    using is_irrelevant_iff [OF part_okD(3) [OF assms(1)] assms(2)] assms(3) by (simp add: is_fully_visible_to_def)
  moreover have "p_created_val p i \<le> snap" if "i < b_len (p_batch p)" for i
    using p_created_le_max [OF assms(1) that] assms(3)
    by (auto simp: is_fully_visible_to_def sees_all_created_up_to_def)
  ultimately show ?thesis by (auto simp: visible_list_def p_sees_iff filter_id_conv)
qed

lemma unat_word_of_nat32: "i < 2 ^ 32 \<Longrightarrow> unat (word_of_nat i :: u32) = i"
  by (simp add: unat_of_nat)

text \<open>A scan returns the visible rows in key order, on either path.\<close>

lemma part_scan_spec:
  assumes "arrow_ok A" "part_ok p" "snap \<noteq> NEVER_DELETED"
  obtains bt where "part_scan A p snap = Some bt" "batch_ok bt" "b_schema bt = p_schema p"
    "batch_rows bt = map (\<lambda>i. batch_rows (p_batch p) ! i) (visible_list p snap)"
proof (cases "is_fully_visible_to snap p")
  case True
  then have "map (\<lambda>i. batch_rows (p_batch p) ! i) (visible_list p snap) = batch_rows (p_batch p)"
    using fully_visible_list [OF assms(2,3)] by (auto intro: nth_equalityI)
  then show ?thesis using that True part_okD(1) [OF assms(2)] by (simp add: part_scan_def)
next
  case False
  let ?b = "p_batch p"
  have vis: "visible_ordinals (p_created p) (p_dv p) snap [0..<b_len ?b] = Some (visible_list p snap)"
    using visible_ordinals_spec [OF assms(2)] by (simp add: visible_list_def)
  have small: "i < b_len ?b \<and> i < 2 ^ 32" if "i \<in> set (visible_list p snap)" for i
    using that part_okD(2) [OF assms(2)] by (auto simp: visible_list_def)
  then have "\<forall>j \<in> set (map word_of_nat (visible_list p snap)). unat (j :: u32) < b_len ?b"
    by (auto simp: unat_word_of_nat32)
  then obtain bt where "b_take A ?b (map word_of_nat (visible_list p snap)) = Some bt" "batch_ok bt"
      "b_schema bt = p_schema p" "b_len bt = length (map word_of_nat (visible_list p snap) :: u32 list)" "batch_rows bt = map (\<lambda>j. batch_rows ?b ! unat j) (map word_of_nat (visible_list p snap) :: u32 list)"
    by (rule b_take_ok [OF assms(1) part_okD(1) [OF assms(2)]])
  moreover have "map (\<lambda>j. batch_rows ?b ! unat j) (map word_of_nat (visible_list p snap) :: u32 list) =
      map (\<lambda>i. batch_rows ?b ! i) (visible_list p snap)"
    unfolding map_map by (rule map_cong [OF refl]) (use small unat_word_of_nat32 in simp)
  ultimately show ?thesis using that False vis by (simp add: part_scan_def)
qed

lemma part_visible_count_spec:
  assumes "part_ok p" "snap \<noteq> NEVER_DELETED"
  shows "part_visible_count p snap = Some (length (visible_list p snap))"
  using visible_ordinals_spec [OF assms(1), of "[0..<b_len (p_batch p)]" snap] fully_visible_list [OF assms]
  by (auto simp: part_visible_count_def visible_list_def)

section \<open>Tombstones\<close>

lemma part_mark_deleted_ok:
  fixes c :: csn
  assumes "part_ok p" "i < b_len (p_batch p)"
  defines "q \<equiv> snd (part_mark_deleted (word_of_nat i) c p)"
  shows "part_ok q" "p_batch q = p_batch p" "p_created q = p_created p" "p_id q = p_id p"
    and "fst (part_mark_deleted (word_of_nat i) c p) \<longleftrightarrow> dv_map (p_dv p) (word_of_nat i) = None"
    and "dv_map (p_dv q) = (if dv_map (p_dv p) (word_of_nat i) = None then (dv_map (p_dv p))(word_of_nat i \<mapsto> c) else dv_map (p_dv p))"
proof -
  note m = mark_deleted_spec [OF part_okD(3) [OF assms(1)], of "word_of_nat i" c]
  have q: "q = p\<lparr>p_dv := snd (mark_deleted (word_of_nat i) c (p_dv p))\<rparr>"
    by (simp add: q_def part_mark_deleted_def Let_def split: prod.split)
  show "p_batch q = p_batch p" "p_created q = p_created p" "p_id q = p_id p" by (simp_all add: q)
  show "fst (part_mark_deleted (word_of_nat i) c p) \<longleftrightarrow> dv_map (p_dv p) (word_of_nat i) = None"
    using m(2) by (cases "mark_deleted (word_of_nat i) c (p_dv p)") (simp add: part_mark_deleted_def)
  show map: "dv_map (p_dv q) = (if dv_map (p_dv p) (word_of_nat i) = None then (dv_map (p_dv p))(word_of_nat i \<mapsto> c) else dv_map (p_dv p))"
    using m(3) by (simp add: q)
  have "unat o' < b_len (p_batch p)" if "(o', d) \<in> set (dv_entries (p_dv q))" for o' d
  proof -
    have "dv_map (p_dv q) o' = Some d" using that dv_map_mem m(1) by (simp add: q)
    then have "o' = word_of_nat i \<or> dv_map (p_dv p) o' = Some d" unfolding map by (auto split: if_splits)
    then show ?thesis
      using assms(1,2) part_okD(2,3) [OF assms(1)] dv_map_mem [of "p_dv p" o' d]
      by (auto simp: part_ok_def unat_word_of_nat32)
  qed
  then have "\<forall>e \<in> set (dv_entries (p_dv q)). unat (fst e) < b_len (p_batch p)" by auto
  then show "part_ok q" using assms(1) m(1) unfolding part_ok_def q by simp
qed

lemma dv_map_mark_all:
  "dv_ok d \<Longrightarrow> dv_ok (mark_all l d) \<and> dv_map (mark_all l d) = map_of l ++ dv_map d"
proof (induction l arbitrary: d)
  case (Cons e l)
  obtain o' c where e: "e = (o', c)" by force
  note m = mark_deleted_spec [OF Cons.prems, of o' c]
  have "map_of l ++ (if dv_map d o' = None then (dv_map d)(o' \<mapsto> c) else dv_map d) = map_of (e # l) ++ dv_map d"
    by (auto simp: e map_add_def fun_eq_iff split: option.split)
  then show ?case using Cons.IH [OF m(1)] unfolding m(3) by (simp add: e fun_upd_def)
qed simp

section \<open>Building parts\<close>

text \<open>The tombstones of a run whose \<open>i\<close>-th row was deleted at \<open>ds ! i\<close>.\<close>

definition stamp_deletions :: "csn list \<Rightarrow> (u32 \<times> csn) list" where
  "stamp_deletions ds =
     map (\<lambda>(i, d). (word_of_nat i, d)) (filter (\<lambda>(i, d). d \<noteq> NEVER_DELETED) (enumerate 0 ds))"

lemma word_of_nat32_inj: "i < 2 ^ 32 \<Longrightarrow> j < 2 ^ 32 \<Longrightarrow> (word_of_nat i :: u32) = word_of_nat j \<longleftrightarrow> i = j"
  by (metis unat_word_of_nat32)

lemma map_of_stamp:
  assumes "length ds \<le> 2 ^ 32" "i < length ds"
  shows "map_of (stamp_deletions ds) (word_of_nat i) = (if ds ! i = NEVER_DELETED then None else Some (ds ! i))"
proof -
  have small: "j < length ds \<Longrightarrow> j < 2 ^ 32" for j using assms(1) by simp
  have mem: "(word_of_nat i, d) \<in> set (stamp_deletions ds) \<longleftrightarrow> d = ds ! i \<and> d \<noteq> NEVER_DELETED" for d
    using assms(2) small word_of_nat32_inj
    by (auto simp: stamp_deletions_def in_set_enumerate_eq image_iff)
  show ?thesis
  proof (cases "map_of (stamp_deletions ds) (word_of_nat i)")
    case None
    then show ?thesis using mem [of "ds ! i"] by (force simp: map_of_eq_None_iff)
  next
    case (Some d)
    then show ?thesis using mem [of d] by (auto dest: map_of_SomeD)
  qed
qed

lemma stamp_not_never: "map_of (stamp_deletions ds) ord \<noteq> Some NEVER_DELETED"
  by (auto simp: stamp_deletions_def dest: map_of_SomeD)

lemma stamp_deletions_range:
  assumes "length ds \<le> 2 ^ 32" "(o', d) \<in> set (stamp_deletions ds)"
  shows "unat o' < length ds"
  using assms by (auto simp: stamp_deletions_def in_set_enumerate_eq unat_word_of_nat32)

lemma stamp_deletions_map:
  "stamp_deletions (map f xs) =
     map (\<lambda>(i, x). (word_of_nat i, f x)) (filter (\<lambda>(i, x). f x \<noteq> NEVER_DELETED) (enumerate 0 xs))"
proof -
  have "map (\<lambda>(i, d). (word_of_nat i :: u32, d)) (filter (\<lambda>(i, d). d \<noteq> NEVER_DELETED) (enumerate n (map f xs))) =
      map (\<lambda>(i, x). (word_of_nat i, f x)) (filter (\<lambda>(i, x). f x \<noteq> NEVER_DELETED) (enumerate n xs))" for n
    by (induction xs arbitrary: n) auto
  then show ?thesis by (simp add: stamp_deletions_def)
qed

lemma seal_deletions_stamp: "seal_deletions es = stamp_deletions (map e_deleted es)"
  by (simp add: seal_deletions_def stamp_deletions_map)

lemma sorted_keys_nth:
  assumes "sorted_wrt vo.le (map (\<lambda>r. r ! sc_key_index (b_schema b)) (batch_rows b))" "i < j" "j < b_len b"
  shows "vo.le (batch_key b i) (batch_key b j)"
  using sorted_wrt_nth_less [OF assms(1,2)] assms(2,3) by (simp add: batch_key_def nth_batch_rows)

lemma part_new_ok:
  assumes "batch_ok b" "b_len b < 2 ^ 32" "created_fits (b_len b) created"
    "sorted_wrt vo.le (map (\<lambda>r. r ! sc_key_index (b_schema b)) (batch_rows b))"
  obtains p where "part_new A pid b created = Some p" "part_ok p" "p_batch p = b" "p_created p = created"
    "p_id p = pid" "p_dv p = dv_new"
proof -
  let ?n = "b_len b"
  note srt = sorted_keys_nth [OF assms(4)]
  have sorted: "is_sorted_by_key b = Some True"
    using srt by (simp add: is_sorted_by_key_ok [OF assms(1)] vo.le_def)
  obtain bl where bl: "bf_build_values (map (batch_key b) [0..<?n]) = Some bl" "bf_ok bl"
    using bloom.build_ok [of "map (batch_key b) [0..<?n]"] assms(2) by auto
  have probe: "bf_maybe_contains_value bl (batch_key b i) = Some True" if "i < ?n" for i
    using bloom.no_false_negative [OF _ bl(1)] assms(2) that by simp
  obtain bounds where bounds: "traverse (column_bounds A b) [0..<arity (b_schema b)] = Some bounds"
  proof -
    have "column_bounds A b c = Some (the (column_bounds A b c))" if "c \<in> set [0..<arity (b_schema b)]" for c
      using that batch_ok_cols(1) [OF assms(1)] by (simp add: column_bounds_def arity_def)
    then have "traverse (column_bounds A b) [0..<arity (b_schema b)] =
        Some (map (\<lambda>c. the (column_bounds A b c)) [0..<arity (b_schema b)])"
      by (rule traverse_Some)
    then show ?thesis using that by simp
  qed
  have fit: "\<not> (case created of PerRow v \<Rightarrow> length v \<noteq> ?n | Uniform _ \<Rightarrow> False)"
    using assms(3) by (cases created) auto
  have mx: "created_val created i \<le> snd (created_bounds created)" if "i < ?n" for i
    using assms(3) that by (cases created) auto
  obtain mn mxk where ks: "(if b_is_empty b then Some (VNull, VNull)
      else do { a \<leftarrow> b_key b 0; z \<leftarrow> b_key b (?n - 1); Some (a, z) }) = Some (mn, mxk)"
      "0 < ?n \<longrightarrow> mn = batch_key b 0 \<and> mxk = batch_key b (?n - 1)"
    by (cases "?n = 0") (auto simp: b_is_empty_def b_len_def [symmetric] b_key_ok [OF assms(1)])
  let ?p = "\<lparr>p_id = pid, p_batch = b, p_created = created, p_created_min = fst (created_bounds created),
     p_created_max = snd (created_bounds created), p_min_key = mn, p_max_key = mxk, p_col_bounds = bounds,
     p_bloom = bl, p_dv = dv_new\<rparr>"
  have "part_new A pid b created = Some ?p"
    unfolding part_new_def using sorted fit ks(1) bl(1) bounds by (simp add: b_keys_ok [OF assms(1)])
  moreover have "part_ok ?p"
    using assms(1-3) srt bl(2) probe mx ks(2) by (simp add: part_ok_def dv_new_def dv_ok_def)
  ultimately show ?thesis using that by simp
qed

lemma with_deletions_ok:
  assumes "batch_ok b" "b_len b < 2 ^ 32" "created_fits (b_len b) created"
    "sorted_wrt vo.le (map (\<lambda>r. r ! sc_key_index (b_schema b)) (batch_rows b))" "length ds = b_len b"
  obtains p where "with_deletions A pid b created (stamp_deletions ds) = Some p" "part_ok p" "p_batch p = b"
    "p_created p = created" "p_id p = pid" "\<And>i. i < b_len b \<Longrightarrow> p_deleted_val p i = ds ! i"
    "dv_map (p_dv p) = map_of (stamp_deletions ds)"
proof -
  obtain p where p: "part_new A pid b created = Some p" "part_ok p" "p_batch p = b" "p_created p = created"
      "p_id p = pid" "p_dv p = dv_new"
    by (rule part_new_ok [OF assms(1-4)])
  let ?dv = "mark_all (stamp_deletions ds) dv_new"
  have dv: "dv_ok ?dv" "dv_map ?dv = map_of (stamp_deletions ds)" using dv_map_mark_all [OF dv_ok_new] by auto
  have rng: "unat (fst e) < b_len b" if "e \<in> set (dv_entries ?dv)" for e
  proof -
    have "dv_map ?dv (fst e) = Some (snd e)" using that dv_map_mem [OF dv(1)] by simp
    then have "(fst e, snd e) \<in> set (stamp_deletions ds)" unfolding dv(2) by (rule map_of_SomeD)
    then show ?thesis using stamp_deletions_range [of ds "fst e" "snd e"] assms(2,5) by simp
  qed
  let ?q = "p\<lparr>p_dv := ?dv\<rparr>"
  have "part_ok ?q" using p(2,3) dv(1) rng unfolding part_ok_def by simp
  moreover have "p_deleted_val ?q i = ds ! i" if "i < b_len b" for i
    using map_of_stamp [of ds i] that assms(2,5) by (simp add: p_deleted_val_def deleted_at_map [OF dv(1)] dv(2))
  moreover have "with_deletions A pid b created (stamp_deletions ds) = Some ?q" using p by (simp add: with_deletions_def)
  ultimately show ?thesis using that [of ?q] p dv(2) by simp
qed

text \<open>A part made of a sealed buffer holds exactly the buffer's versions.\<close>

lemma part_of_sealed:
  assumes "arrow_ok A" "l0_ok b" "decimals_ok (l0_schema b)" "length (l0_entries b) < 2 ^ 32"
  obtains sl p where "l0_seal A b = Some (sl, l0_clear b)"
    "with_deletions A pid (sl_batch sl) (PerRow (sl_created sl)) (sl_deletions sl) = Some p"
    "part_ok p" "p_id p = pid" "p_schema p = l0_schema b"
    "part_versions p = map entry_version (seal_order b)" "dv_clean p"
proof -
  obtain sl where sl: "l0_seal A b = Some (sl, l0_clear b)" "batch_ok (sl_batch sl)"
    "b_schema (sl_batch sl) = l0_schema b" "batch_rows (sl_batch sl) = map e_row (seal_order b)"
    "sl_created sl = map e_created (seal_order b)" "sl_deletions sl = seal_deletions (seal_order b)"
    "sorted_wrt vo.le (map (\<lambda>r. r ! l0_ki b) (batch_rows (sl_batch sl)))"
    by (rule l0_seal_ok [OF assms(1-3)])
  have len: "b_len (sl_batch sl) = length (seal_order b)" "length (seal_order b) = length (l0_entries b)"
    using arg_cong [OF sl(4), of length] by (simp_all add: seal_order_def)
  obtain p where p: "with_deletions A pid (sl_batch sl) (PerRow (sl_created sl)) (stamp_deletions (map e_deleted (seal_order b))) = Some p"
      "part_ok p" "p_batch p = sl_batch sl" "p_created p = PerRow (sl_created sl)" "p_id p = pid"
      "\<And>i. i < b_len (sl_batch sl) \<Longrightarrow> p_deleted_val p i = map e_deleted (seal_order b) ! i"
      "dv_map (p_dv p) = map_of (stamp_deletions (map e_deleted (seal_order b)))"
    by (rule with_deletions_ok [OF sl(2), of "PerRow (sl_created sl)" "map e_deleted (seal_order b)" A pid])
       (use sl assms(4) len in auto)
  have "part_versions p = map entry_version (seal_order b)"
    using p(3,4,6) len(1) sl(4,5) by (auto simp: part_versions_def entry_version_def intro!: nth_equalityI)
  moreover have "dv_clean p" by (simp add: dv_clean_def p(7) stamp_not_never)
  ultimately show ?thesis using that sl(1,3,6) p by (simp add: seal_deletions_stamp)
qed

section \<open>Collapsing creation stamps\<close>

lemma collapse_val:
  fixes h :: csn
  assumes "i < length v"
  defines "c \<equiv> created_val (maybe_collapse h (PerRow v)) i"
  shows "c \<le> v ! i" "c = v ! i \<or> v ! i \<le> h"
proof -
  define mn where "mn = Min (set v)"
  define mx where "mx = Max (set v)"
  have b: "mn \<le> v ! i" "v ! i \<le> mx" "v \<noteq> []" using assms(1) by (auto simp: mn_def mx_def)
  have "c = (if mn = mx \<or> mx \<le> h then mn else v ! i)"
    using b(3) by (simp add: c_def mn_def mx_def Let_def)
  then show "c \<le> v ! i" "c = v ! i \<or> v ! i \<le> h" using b by auto
qed

lemma collapse_ok:
  assumes "part_ok p"
  shows "part_ok (collapse_versions h p)"
proof -
  have "created_fits (b_len (p_batch p)) (maybe_collapse h (p_created p))"
    using assms by (cases "p_created p") (auto simp: part_ok_def Let_def)
  moreover have "created_val (maybe_collapse h (p_created p)) i \<le> p_created_max p" if "i < b_len (p_batch p)" for i
  proof (cases "p_created p")
    case (PerRow v)
    then have "i < length v" using assms that by (simp add: part_ok_def)
    then show ?thesis
      using collapse_val(1) [of i v h] p_created_le_max [OF assms that] unfolding PerRow by simp
  qed (use p_created_le_max [OF assms that] in simp)
  ultimately show ?thesis using assms unfolding part_ok_def collapse_versions_def by simp
qed

text \<open>No snapshot at or above the horizon can tell the collapsed stamps from the original.\<close>

lemma collapse_sees:
  assumes "part_ok p" "h \<le> snap" "i < b_len (p_batch p)"
  shows "p_sees (collapse_versions h p) snap i = p_sees p snap i"
proof (cases "p_created p")
  case (PerRow v)
  then have "i < length v" using assms(1,3) by (simp add: part_ok_def)
  from collapse_val [OF this, of h]
  have "created_val (maybe_collapse h (p_created p)) i \<le> snap \<longleftrightarrow> p_created_val p i \<le> snap"
    unfolding PerRow created_val.simps(2) using assms(2) by (metis order_trans)
  then show ?thesis by (simp add: p_sees_def sees_def collapse_versions_def p_deleted_val_def)
qed (simp add: p_sees_def collapse_versions_def p_deleted_val_def)

section \<open>Properties\<close>

text \<open>
  C26. Sealing keeps every version. The buffer's entries become one immutable part that is well formed
  and holds exactly the same row versions, creation and deletion stamps included; the buffer is
  empty afterwards.
\<close>

theorem seal_keeps_versions:
  assumes "arrow_ok A" "l0_ok b" "decimals_ok (l0_schema b)" "length (l0_entries b) < 2 ^ 32"
  shows "\<exists>sl p. l0_seal A b = Some (sl, l0_new (l0_schema b)) \<and>
    with_deletions A pid (sl_batch sl) (PerRow (sl_created sl)) (sl_deletions sl) = Some p \<and>
    part_ok p \<and> mset (part_versions p) = mset (map entry_version (l0_entries b))"
proof -
  obtain sl p where "l0_seal A b = Some (sl, l0_clear b)"
    "with_deletions A pid (sl_batch sl) (PerRow (sl_created sl)) (sl_deletions sl) = Some p"
    "part_ok p" "part_versions p = map entry_version (seal_order b)"
    by (rule part_of_sealed [OF assms])
  then show ?thesis using mset_seal_order [of b] by (intro exI [of _ sl] exI [of _ p]) (simp add: l0_clear_def l0_new_def)
qed

theorem seal_keeps_versions_witness:
  "\<exists>sl p. l0_seal ref_arrow sample_l0 = Some (sl, l0_new sample_schema) \<and>
     with_deletions ref_arrow 9 (sl_batch sl) (PerRow (sl_created sl)) (sl_deletions sl) = Some p \<and>
     mset (part_versions p) = {#([VInt 1, VText ''x''], 1, 3), ([VInt 1, VText ''y''], 3, NEVER_DELETED)#}"
  using seal_keeps_versions [OF arrow_ok_ref sample_l0_ok, of 9] sample_schema_ok(2)
  by (auto simp: sample_l0_def entry_version_def)

text \<open>The sample buffer sealed into a part.\<close>

lemma sample_part:
  obtains p where "part_ok p" "p_schema p = sample_schema"
    "part_versions p = [([VInt 1, VText ''x''], 1, 3), ([VInt 1, VText ''y''], 3, NEVER_DELETED)]"
proof -
  obtain p where "part_ok p" "p_schema p = l0_schema sample_l0" "part_versions p = map entry_version (seal_order sample_l0)"
    by (rule part_of_sealed [OF arrow_ok_ref sample_l0_ok, of 9]) (simp_all add: sample_l0_def sample_schema_ok)
  moreover have "seal_order sample_l0 = l0_entries sample_l0"
    by (simp add: seal_order_def sample_l0_def sample_schema_ok l0_entry_cmp_def then_cmp_def cmp_of_def)
  ultimately show ?thesis using that by (simp add: sample_l0_def entry_version_def)
qed

text \<open>
  C27. The lookup funnel of a part is exact. Whatever stage decides (key bounds, filter, binary
  search, visibility), the ordinal returned is the first row of the key that the snapshot sees, and a
  miss means that there is none.
\<close>

theorem part_lookup_exact:
  assumes "part_ok p" "key \<in> p_keys p" "snap \<noteq> NEVER_DELETED"
  shows "\<exists>r. part_lookup p key snap = Some r \<and>
    lr_ordinal r = (if part_hits p key snap = {} then None else Some (word_of_nat (Min (part_hits p key snap))))"
  using part_lookup_spec [OF assms] by metis

text \<open>
  C28. Scanning a part, with or without the fully-visible fast path, gives the rows the snapshot
  sees in ordinal order, and the visible count is their number.
\<close>

theorem part_scan_exact:
  assumes "arrow_ok A" "part_ok p" "snap \<noteq> NEVER_DELETED"
  shows "\<exists>b. part_scan A p snap = Some b \<and> batch_ok b \<and>
    batch_rows b = map fst (filter (\<lambda>(r, c, d). sees snap c d) (part_versions p)) \<and>
    part_visible_count p snap = Some (b_len b)"
proof -
  obtain b where b: "part_scan A p snap = Some b" "batch_ok b"
    "batch_rows b = map (\<lambda>i. batch_rows (p_batch p) ! i) (visible_list p snap)"
    using part_scan_spec [OF assms] by blast
  moreover have "map (\<lambda>i. batch_rows (p_batch p) ! i) (visible_list p snap) =
      map fst (filter (\<lambda>(r, c, d). sees snap c d) (part_versions p))"
    by (simp add: part_versions_def visible_list_def p_sees_def [abs_def] filter_map comp_def)
  moreover have "b_len b = length (visible_list p snap)"
    using arg_cong [OF b(3), of length] by simp
  ultimately show ?thesis using part_visible_count_spec [OF assms(2,3)] by simp
qed

lemma sample_part_vals:
  assumes "part_versions p = [(r, c, d), (r', c', d')]"
  shows "b_len (p_batch p) = 2" "batch_rows (p_batch p) ! 0 = r" "batch_rows (p_batch p) ! 1 = r'"
    "p_created_val p 0 = c" "p_deleted_val p 0 = d" "p_created_val p 1 = c'" "p_deleted_val p 1 = d'"
proof -
  have l: "length (part_versions p) = 2" using assms by simp
  then show n: "b_len (p_batch p) = 2" by (simp add: part_versions_def)
  have "part_versions p ! 0 = (r, c, d)" "part_versions p ! 1 = (r', c', d')" using assms by simp_all
  then show "batch_rows (p_batch p) ! 0 = r" "batch_rows (p_batch p) ! 1 = r'"
    "p_created_val p 0 = c" "p_deleted_val p 0 = d" "p_created_val p 1 = c'" "p_deleted_val p 1 = d'"
    by (simp_all add: part_versions_def n)
qed

theorem part_lookup_exact_witness:
  "\<exists>p r. part_lookup p (VInt 1) 5 = Some r \<and> lr_ordinal r = Some 1"
proof -
  obtain p where p: "part_ok p" "p_schema p = sample_schema"
    "part_versions p = [([VInt 1, VText ''x''], 1, 3), ([VInt 1, VText ''y''], 3, NEVER_DELETED)]"
    by (rule sample_part)
  note v = sample_part_vals [OF p(3)]
  have "\<not> sees 5 1 3" "sees 5 3 NEVER_DELETED" by (code_simp+)
  then have "p_sees p 5 1" "\<not> p_sees p 5 0" by (simp_all add: p_sees_def v [unfolded One_nat_def])
  moreover have "p_key p 0 = VInt 1" "p_key p 1 = VInt 1"
    using v(1-3) p(2) by (simp_all add: batch_key_def batch_rows_def sample_schema_ok)
  ultimately have "part_hits p (VInt 1) 5 = {1}"
    by (auto simp: part_hits_def v less_Suc_eq numeral_2_eq_2)
  moreover have "VInt 1 \<in> p_keys p" by (simp add: p(2) sample_schema_ok col_values_def)
  ultimately show ?thesis using part_lookup_exact [OF p(1), of "VInt 1" 5] by (auto simp: NEVER_DELETED_def)
qed

theorem part_scan_exact_witness:
  "\<exists>p b. part_scan ref_arrow p 5 = Some b \<and> batch_rows b = [[VInt 1, VText ''y'']] \<and> part_visible_count p 5 = Some 1"
proof -
  obtain p where p: "part_ok p"
    "part_versions p = [([VInt 1, VText ''x''], 1, 3), ([VInt 1, VText ''y''], 3, NEVER_DELETED)]"
    by (rule sample_part)
  have "\<not> sees 5 1 3" "sees 5 3 NEVER_DELETED" "5 \<noteq> NEVER_DELETED" by (code_simp+)
  then obtain b where b: "part_scan ref_arrow p 5 = Some b" "batch_rows b = [[VInt 1, VText ''y'']]" "part_visible_count p 5 = Some (b_len b)"
    using part_scan_exact [OF arrow_ok_ref p(1), of 5] by (auto simp: p(2))
  moreover have "b_len b = 1" using arg_cong [OF b(2), of length] by simp
  ultimately show ?thesis by auto
qed

end
