(* ===== verification/Ck_Metrics.thy ===== *)
theory Ck_Metrics
  imports Ck_Float
begin

text \<open>
  \<open>src/src/metrics.rs\<close>: the engine's monotonic counters (wrapping 64-bit) and the derived
  ratios.  Every operation of the table layer threads them.
\<close>

record metrics =
  mt_inserts :: u64
  mt_updates :: u64
  mt_deletes :: u64
  mt_scans :: u64
  mt_lookups :: u64
  mt_parts_probed :: u64
  mt_bounds_skips :: u64
  mt_bloom_skips :: u64
  mt_scan_fast_path :: u64
  mt_scan_slow_path :: u64
  mt_seals :: u64
  mt_compactions :: u64
  mt_parts_merged :: u64
  mt_rows_reclaimed :: u64
  mt_backpressure_events :: u64
  mt_backpressure_nanos :: u64
  mt_compactions_discarded :: u64
  mt_tombstones_replayed :: u64

definition metrics_new :: metrics where
  "metrics_new = \<lparr>mt_inserts = 0, mt_updates = 0, mt_deletes = 0, mt_scans = 0, mt_lookups = 0,
     mt_parts_probed = 0, mt_bounds_skips = 0, mt_bloom_skips = 0, mt_scan_fast_path = 0,
     mt_scan_slow_path = 0, mt_seals = 0, mt_compactions = 0, mt_parts_merged = 0,
     mt_rows_reclaimed = 0, mt_backpressure_events = 0, mt_backpressure_nanos = 0,
     mt_compactions_discarded = 0, mt_tombstones_replayed = 0\<rparr>"

text \<open>A counter is named by its update function.\<close>

type_synonym counter = "(u64 \<Rightarrow> u64) \<Rightarrow> metrics \<Rightarrow> metrics"

definition bump :: "counter \<Rightarrow> metrics \<Rightarrow> metrics" where
  "bump c m = c (\<lambda>x. x + 1) m"

definition mt_add :: "counter \<Rightarrow> u64 \<Rightarrow> metrics \<Rightarrow> metrics" where
  "mt_add c n m = c (\<lambda>x. x + n) m"

definition ratio :: "u64 \<Rightarrow> u64 \<Rightarrow> f64" where
  "ratio a b = (if b = 0 then 0 else f64_div (f64_of_int (uint a)) (f64_of_int (uint b)))"

definition fanout_per_lookup :: "metrics \<Rightarrow> f64" where
  "fanout_per_lookup m = ratio (mt_parts_probed m) (mt_lookups m)"

definition fast_path_ratio :: "metrics \<Rightarrow> f64" where
  "fast_path_ratio m = ratio (mt_scan_fast_path m) (mt_scan_fast_path m + mt_scan_slow_path m)"

definition skip_ratio :: "metrics \<Rightarrow> f64" where
  "skip_ratio m = ratio (mt_bounds_skips m + mt_bloom_skips m) (mt_parts_probed m)"

end
