(* ===== verification/Ck_Compaction.thy ===== *)
theory Ck_Compaction
  imports Ck_Part Ck_Metrics
begin

text \<open>
  \<open>src/src/compaction.rs\<close>: the compaction policy and the two-phase merge.  \<open>plan_merge\<close>
  builds the replacement part from the source parts as they were when the plan was made;
  \<open>apply_plan\<close> installs it later, replaying the tombstones that arrived in between.

  The main lemma (\<open>apply_plan_view\<close>) shows that installing a plan changes no row that any
  snapshot at or above the reclamation horizon can see, for every set of tombstones
  written after the plan's starting CSN.
\<close>

section \<open>Policy\<close>

record compaction_policy =
  cp_max_parts :: nat
  cp_max_dv_density :: f64
  cp_max_merge_width :: nat

text \<open>The default density is the double nearest to \<open>0.1\<close>.\<close>

definition default_policy :: compaction_policy where
  "default_policy =
     \<lparr>cp_max_parts = 8, cp_max_dv_density = 0x3FB999999999999A, cp_max_merge_width = 16\<rparr>"

definition f64_ge :: "f64 \<Rightarrow> f64 \<Rightarrow> bool" where
  "f64_ge a b \<longleftrightarrow> f64_partial_cmp a b = Some Greater \<or> f64_partial_cmp a b = Some Equal"

definition should_compact :: "compaction_policy \<Rightarrow> part list \<Rightarrow> bool" where
  "should_compact cp parts \<longleftrightarrow>
     (if parts = [] then False
      else if cp_max_parts cp \<le> length parts then True
      else list_ex (\<lambda>p. f64_ge (p_dv_density p) (cp_max_dv_density cp)) parts)"

definition select_parts :: "compaction_policy \<Rightarrow> part list \<Rightarrow> part list" where
  "select_parts cp parts =
     (let n = min (length parts) (cp_max_merge_width cp) in drop (length parts - n) parts)"

section \<open>Planning a merge\<close>

text \<open>Key, creation, deletion, source part and source ordinal of a surviving row.\<close>

type_synonym plan_row = "value_t \<times> csn \<times> csn \<times> u64 \<times> u32"

record merge_plan =
  mp_source_ids :: "u64 list"
  mp_merged :: part
  mp_mapping :: "u64 \<times> u32 \<Rightarrow> u32 option"
  mp_started_at :: csn
  mp_rows_reclaimed :: nat

fun collect_part :: "part \<Rightarrow> csn \<Rightarrow> nat list \<Rightarrow> plan_row list option" where
  "collect_part p horizon [] = Some []"
| "collect_part p horizon (ord # ords) =
     (let deleted = deleted_at (word_of_nat ord) (p_dv p)
      in if deleted \<le> horizon then collect_part p horizon ords
         else do {
           key \<leftarrow> b_key (p_batch p) ord;
           created \<leftarrow> p_created_at p ord;
           rest \<leftarrow> collect_part p horizon ords;
           Some ((key, created, deleted, p_id p, word_of_nat ord) # rest) })"

fun collect_rows :: "part list \<Rightarrow> csn \<Rightarrow> plan_row list option" where
  "collect_rows [] horizon = Some []"
| "collect_rows (p # ps) horizon =
     do {
       rs \<leftarrow> collect_part p horizon [0..<b_len (p_batch p)];
       rest \<leftarrow> collect_rows ps horizon;
       Some (rs @ rest) }"

fun pr_key :: "plan_row \<Rightarrow> value_t" where "pr_key (k, c, d, src, ord) = k"
fun pr_created :: "plan_row \<Rightarrow> csn" where "pr_created (k, c, d, src, ord) = c"
fun pr_deleted :: "plan_row \<Rightarrow> csn" where "pr_deleted (k, c, d, src, ord) = d"
fun pr_src :: "plan_row \<Rightarrow> u64" where "pr_src (k, c, d, src, ord) = src"
fun pr_ord :: "plan_row \<Rightarrow> u32" where "pr_ord (k, c, d, src, ord) = ord"

definition plan_row_cmp :: "plan_row \<Rightarrow> plan_row \<Rightarrow> ordering" where
  "plan_row_cmp a b =
     then_cmp (total_cmp (pr_key a) (pr_key b)) (cmp_of (pr_created a) (pr_created b))"

text \<open>Collecting into a \<open>HashMap\<close>: a later part replaces an earlier one with the same id.\<close>

definition by_id :: "part list \<Rightarrow> u64 \<Rightarrow> part option" where
  "by_id parts = map_of (rev (map (\<lambda>p. (p_id p, p)) parts))"

definition source_row :: "part list \<Rightarrow> plan_row \<Rightarrow> row option" where
  "source_row parts r =
     do { src \<leftarrow> by_id parts (pr_src r); b_row (p_batch src) (unat (pr_ord r)) }"

definition ordinal_map :: "plan_row list \<Rightarrow> u64 \<times> u32 \<Rightarrow> u32 option" where
  "ordinal_map rows =
     map_of (rev (map (\<lambda>(i, r). ((pr_src r, pr_ord r), word_of_nat i)) (enumerate 0 rows)))"

definition plan_deletions :: "plan_row list \<Rightarrow> (u32 \<times> csn) list" where
  "plan_deletions rows =
     map (\<lambda>(i, r). (word_of_nat i, pr_deleted r))
       (filter (\<lambda>(i, r). pr_deleted r \<noteq> NEVER_DELETED) (enumerate 0 rows))"

text \<open>The outer option is a panic; the inner one is the plan, absent when there is nothing to merge.\<close>

definition plan_merge :: "arrow \<Rightarrow> part list \<Rightarrow> u64 \<Rightarrow> csn \<Rightarrow> csn \<Rightarrow> merge_plan option option" where
  "plan_merge A parts new_part_id horizon started_at =
     (case parts of
        [] \<Rightarrow> Some None
      | p0 # _ \<Rightarrow> do {
          rows0 \<leftarrow> collect_rows parts horizon;
          let total = sum_list (map (\<lambda>p. b_len (p_batch p)) parts);
          let rows = sort_by plan_row_cmp rows0;
          merged_rows \<leftarrow> traverse (source_row parts) rows;
          batch \<leftarrow> from_rows A (b_schema (p_batch p0)) merged_rows;
          merged \<leftarrow> with_deletions A new_part_id batch (PerRow (map pr_created rows)) (plan_deletions rows);
          Some (Some \<lparr>mp_source_ids = map p_id parts,
                      mp_merged = collapse_versions horizon merged,
                      mp_mapping = ordinal_map rows,
                      mp_started_at = started_at,
                      mp_rows_reclaimed = total - length rows0\<rparr>) })"

section \<open>Installing a plan\<close>

fun replay_entries :: "merge_plan \<Rightarrow> u64 \<Rightarrow> (u32 \<times> csn) list \<Rightarrow> part \<times> u64 \<Rightarrow> part \<times> u64" where
  "replay_entries plan src [] st = st"
| "replay_entries plan src ((ord, c) # rest) (m, n) =
     (case mp_mapping plan (src, ord) of
        None \<Rightarrow> replay_entries plan src rest (m, n)
      | Some out \<Rightarrow>
          (let (ok, m') = part_mark_deleted out c m
           in replay_entries plan src rest (m', if ok then n + 1 else n)))"

definition present :: "part list \<Rightarrow> u64 \<Rightarrow> nat option" where
  "present parts = map_of (rev (map (\<lambda>(i, p). (p_id p, i)) (enumerate 0 parts)))"

fun replay_sources :: "part list \<Rightarrow> merge_plan \<Rightarrow> u64 list \<Rightarrow> part \<times> u64 \<Rightarrow> (part \<times> u64) option" where
  "replay_sources parts plan [] st = Some st"
| "replay_sources parts plan (src # rest) st =
     do {
       i \<leftarrow> present parts src;
       p \<leftarrow> nth_opt parts i;
       replay_sources parts plan rest
         (replay_entries plan src (entries_after (mp_started_at plan) (p_dv p)) st) }"

text \<open>Returns the new part list, the metrics and the number of parts replaced.\<close>

definition apply_plan :: "part list \<Rightarrow> merge_plan \<Rightarrow> metrics \<Rightarrow> (part list \<times> metrics \<times> nat) option" where
  "apply_plan parts plan m =
     (if \<not> list_all (\<lambda>i. present parts i \<noteq> None) (mp_source_ids plan)
      then Some (parts, bump mt_compactions_discarded_update m, 0)
      else do {
        (merged, replayed) \<leftarrow> replay_sources parts plan (mp_source_ids plan) (mp_merged plan, 0);
        let m = mt_add mt_tombstones_replayed_update replayed m;
        let replaced = length (mp_source_ids plan);
        let parts' = filter (\<lambda>p. p_id p \<notin> set (mp_source_ids plan)) parts @ [merged];
        let m = bump mt_compactions_update m;
        let m = mt_add mt_parts_merged_update (word_of_nat replaced) m;
        let m = mt_add mt_rows_reclaimed_update (word_of_nat (mp_rows_reclaimed plan)) m;
        Some (parts', m, replaced) })"

section \<open>Views\<close>

text \<open>The rows a snapshot sees of a collection of versions.\<close>

fun version_sees :: "snapshot \<Rightarrow> version \<Rightarrow> bool" where
  "version_sees snap (r, c, d) = sees snap c d"

definition view :: "snapshot \<Rightarrow> version multiset \<Rightarrow> row multiset" where
  "view snap M = image_mset fst (filter_mset (version_sees snap) M)"

lemma view_empty [simp]: "view snap {#} = {#}"
  by (simp add: view_def)

lemma view_union [simp]: "view snap (M + N) = view snap M + view snap N"
  by (simp add: view_def)

lemma view_add: "view snap (add_mset v M) = (if version_sees snap v then add_mset (fst v) (view snap M) else view snap M)"
  by (simp add: view_def)

lemma view_mset: "view snap (mset vs) = mset (map fst (filter (version_sees snap) vs))"
  by (simp add: view_def)

definition versions_of :: "part list \<Rightarrow> version multiset" where
  "versions_of ps = sum_list (map (\<lambda>p. mset (part_versions p)) ps)"

lemma versions_of_simps [simp]:
  "versions_of [] = {#}" "versions_of (p # ps) = mset (part_versions p) + versions_of ps"
  "versions_of (ps @ qs) = versions_of ps + versions_of qs"
  by (simp_all add: versions_of_def)

lemma versions_of_mem: "p \<in> set ps \<Longrightarrow> set (part_versions p) \<subseteq> set_mset (versions_of ps)"
  by (induction ps) auto

lemma versions_of_mset: "mset ps = mset qs \<Longrightarrow> versions_of ps = versions_of qs"
proof -
  have "versions_of xs = \<Sum>\<^sub># (image_mset (\<lambda>p. mset (part_versions p)) (mset xs))" for xs
    by (induction xs) simp_all
  then show "mset ps = mset qs \<Longrightarrow> versions_of ps = versions_of qs" by simp
qed

lemma versions_of_filter: "versions_of ps = versions_of (filter P ps) + versions_of (filter (\<lambda>p. \<not> P p) ps)"
  by (induction ps) auto

text \<open>A part's view is what its scan returns.\<close>

lemma view_part: "view snap (mset (part_versions p)) = mset (map (\<lambda>i. batch_rows (p_batch p) ! i) (visible_list p snap))"
proof -
  have "filter (version_sees snap) (map (\<lambda>i. (batch_rows (p_batch p) ! i, p_created_val p i, p_deleted_val p i)) xs) =
      map (\<lambda>i. (batch_rows (p_batch p) ! i, p_created_val p i, p_deleted_val p i)) (filter (p_sees p snap) xs)" for xs
    by (induction xs) (auto simp: p_sees_def)
  then show ?thesis unfolding view_mset part_versions_def visible_list_def by (simp add: comp_def)
qed

section \<open>What a plan contains\<close>

definition prow :: "part \<Rightarrow> nat \<Rightarrow> plan_row" where
  "prow p i = (p_key p i, p_created_val p i, p_deleted_val p i, p_id p, word_of_nat i)"

definition survivors :: "part \<Rightarrow> csn \<Rightarrow> nat list" where
  "survivors p h = filter (\<lambda>i. h < p_deleted_val p i) [0..<b_len (p_batch p)]"

lemma prow_simps [simp]:
  "pr_key (prow p i) = p_key p i" "pr_created (prow p i) = p_created_val p i"
  "pr_deleted (prow p i) = p_deleted_val p i" "pr_src (prow p i) = p_id p" "pr_ord (prow p i) = word_of_nat i"
  by (simp_all add: prow_def)

lemma collect_part_spec:
  assumes "part_ok p" "\<forall>i \<in> set ords. i < b_len (p_batch p)"
  shows "collect_part p h ords = Some (map (prow p) (filter (\<lambda>i. h < p_deleted_val p i) ords))"
  using assms(2)
proof (induction ords)
  case (Cons i ords)
  then show ?case
    using assms(1) by (simp add: Let_def p_deleted_val_def [symmetric] b_key_ok part_okD p_created_at_def
        created_at_ok prow_def not_le)
qed simp

lemma collect_rows_spec:
  "\<forall>p \<in> set ps. part_ok p \<Longrightarrow> collect_rows ps h = Some (concat (map (\<lambda>p. map (prow p) (survivors p h)) ps))"
  by (induction ps) (auto simp: collect_part_spec survivors_def)

lemma by_id_mem:
  assumes "distinct (map p_id ps)" "p \<in> set ps"
  shows "by_id ps (p_id p) = Some p"
proof -
  have "distinct (map fst (rev (map (\<lambda>p. (p_id p, p)) ps)))" using assms(1) by (simp add: rev_map [symmetric] comp_def)
  then show ?thesis unfolding by_id_def using assms(2) by (intro map_of_is_SomeI) auto
qed

lemma source_row_prow:
  assumes "distinct (map p_id ps)" "p \<in> set ps" "part_ok p" "i < b_len (p_batch p)"
  shows "source_row ps (prow p i) = Some (batch_rows (p_batch p) ! i)"
proof -
  have "unat (word_of_nat i :: u32) = i" using assms(4) part_okD(2) [OF assms(3)] by (intro unat_word_of_nat32) simp
  then show ?thesis
    using assms by (simp add: source_row_def by_id_mem b_row_ok part_okD)
qed

text \<open>The row a plan entry stands for.\<close>

definition srow :: "part list \<Rightarrow> plan_row \<Rightarrow> row" where
  "srow ps r = the (source_row ps r)"

definition plan_rows :: "part list \<Rightarrow> csn \<Rightarrow> plan_row list" where
  "plan_rows ps h = sort_by plan_row_cmp (concat (map (\<lambda>p. map (prow p) (survivors p h)) ps))"

lemma plan_rows_mem: "r \<in> set (plan_rows ps h) \<Longrightarrow> \<exists>p \<in> set ps. \<exists>i < b_len (p_batch p). r = prow p i \<and> h < p_deleted_val p i"
  by (auto simp: plan_rows_def survivors_def)

text \<open>The sources of a merge: well-formed parts of one schema with distinct ids.\<close>

definition sources_ok :: "schema \<Rightarrow> part list \<Rightarrow> bool" where
  "sources_ok s ps \<longleftrightarrow>
     distinct (map p_id ps) \<and> schema_ok s \<and> decimals_ok s \<and> (\<forall>p \<in> set ps. part_ok p \<and> p_schema p = s) \<and>
     sum_list (map (\<lambda>p. b_len (p_batch p)) ps) < 2 ^ 32"

lemma length_plan_rows: "length (plan_rows ps h) \<le> sum_list (map (\<lambda>p. b_len (p_batch p)) ps)"
proof -
  have "length (survivors p h) \<le> b_len (p_batch p)" for p
    unfolding survivors_def using length_filter_le [of _ "[0..<b_len (p_batch p)]"] by simp
  then have "sum_list (map (\<lambda>p. length (survivors p h)) ps) \<le> sum_list (map (\<lambda>p. b_len (p_batch p)) ps)"
    by (intro sum_list_mono)
  then show ?thesis by (simp add: plan_rows_def length_concat comp_def)
qed

lemma plan_merge_ok:
  assumes "arrow_ok A" "sources_ok s ps" "ps \<noteq> []"
  obtains plan m where "plan_merge A ps new_id h started = Some (Some plan)"
    "mp_source_ids plan = map p_id ps" "mp_merged plan = collapse_versions h m" "mp_mapping plan = ordinal_map (plan_rows ps h)"
    "mp_started_at plan = started" "part_ok m" "p_id m = new_id" "p_schema m = s"
    "b_len (p_batch m) = length (plan_rows ps h)" "batch_rows (p_batch m) = map (srow ps) (plan_rows ps h)"
    "p_created m = PerRow (map pr_created (plan_rows ps h))"
    "dv_map (p_dv m) = map_of (stamp_deletions (map pr_deleted (plan_rows ps h)))"
proof -
  let ?R = "plan_rows ps h"
  have dist: "distinct (map p_id ps)" and so: "schema_ok s" and dec: "decimals_ok s"
    and ok: "\<forall>p \<in> set ps. part_ok p \<and> p_schema p = s"
    using assms(2) by (auto simp: sources_ok_def)
  have small: "length ?R < 2 ^ 32" using length_plan_rows [of ps h] assms(2) by (simp add: sources_ok_def)
  have src: "source_row ps r = Some (srow ps r)" "row_ok s (srow ps r)" "srow ps r ! sc_key_index s = pr_key r"
      "pr_key r \<in> col_values (key_ty s)" if r: "r \<in> set ?R" for r
  proof -
    obtain p i where p: "p \<in> set ps" "i < b_len (p_batch p)" "r = prow p i" using plan_rows_mem [OF r] by blast
    have pk: "part_ok p" "p_schema p = s" using ok p(1) by auto
    have sr: "source_row ps r = Some (batch_rows (p_batch p) ! i)"
      using source_row_prow [OF dist p(1) pk(1) p(2)] by (simp add: p(3))
    then show "source_row ps r = Some (srow ps r)" by (simp add: srow_def)
    have eq: "srow ps r = batch_rows (p_batch p) ! i" using sr by (simp add: srow_def)
    show "row_ok s (srow ps r)" using row_ok_batch_rows [OF part_okD(1) [OF pk(1)]] p(2) pk(2) by (simp add: eq)
    show "srow ps r ! sc_key_index s = pr_key r" using p(2) pk(2) unfolding eq by (simp add: p(3) batch_key_def nth_batch_rows)
    show "pr_key r \<in> col_values (key_ty s)" using p_key_in [OF pk(1) p(2)] pk(2) by (simp add: p(3))
  qed
  have rows: "traverse (source_row ps) ?R = Some (map (srow ps) ?R)" by (rule traverse_Some) (rule src(1))
  have "\<forall>r \<in> set (map (srow ps) ?R). length r = arity s" using src(2) by (auto simp: row_ok_def)
  then obtain b where b: "from_rows A s (map (srow ps) ?R) = Some b" "batch_ok b" "b_schema b = s"
      "b_len b = length (map (srow ps) ?R)" "batch_rows b = map (canon_row s) (map (srow ps) ?R)"
    by (rule from_rows_ok [OF assms(1) so dec])
  have rows_b: "batch_rows b = map (srow ps) ?R" using b(5) src(2) by (simp add: canon_row_id)
  have "sorted_wrt vo.le (map pr_key ?R)"
    unfolding plan_rows_def plan_row_cmp_def [abs_def]
    by (rule sorted_keys_of_sort [of _ pr_key "key_ty s" pr_created]) (use src(4) in \<open>auto simp: plan_rows_def\<close>)
  moreover have "map (\<lambda>r. r ! sc_key_index (b_schema b)) (batch_rows b) = map pr_key ?R"
    using src(3) by (simp add: rows_b b(3))
  ultimately have srt: "sorted_wrt vo.le (map (\<lambda>r. r ! sc_key_index (b_schema b)) (batch_rows b))" by simp
  obtain m where m: "with_deletions A new_id b (PerRow (map pr_created ?R)) (stamp_deletions (map pr_deleted ?R)) = Some m"
      "part_ok m" "p_batch m = b" "p_created m = PerRow (map pr_created ?R)" "p_id m = new_id"
      "\<And>i. i < b_len b \<Longrightarrow> p_deleted_val m i = map pr_deleted ?R ! i"
      "dv_map (p_dv m) = map_of (stamp_deletions (map pr_deleted ?R))"
    by (rule with_deletions_ok [OF b(2) _ _ srt, of "PerRow (map pr_created ?R)" "map pr_deleted ?R" A new_id])
       (use b(4) small in simp_all)
  obtain p0 ps' where ps: "ps = p0 # ps'" using assms(3) by (cases ps) auto
  have s0: "p_schema p0 = s" using ok by (simp add: ps)
  have coll: "collect_rows ps h = Some (concat (map (\<lambda>p. map (prow p) (survivors p h)) ps))"
    by (rule collect_rows_spec) (use ok in simp)
  have dels: "plan_deletions ?R = stamp_deletions (map pr_deleted ?R)"
    by (simp add: plan_deletions_def stamp_deletions_map)
  let ?plan = "\<lparr>mp_source_ids = map p_id ps, mp_merged = collapse_versions h m, mp_mapping = ordinal_map ?R,
      mp_started_at = started, mp_rows_reclaimed = sum_list (map (\<lambda>p. b_len (p_batch p)) ps) -
        length (concat (map (\<lambda>p. map (prow p) (survivors p h)) ps))\<rparr>"
  have "plan_merge A ps new_id h started = Some (Some ?plan)"
    unfolding plan_merge_def ps list.case(2) coll [unfolded ps] Let_def bind.bind_lunit
      plan_rows_def [symmetric, unfolded ps] rows [unfolded ps] s0 b(1) [unfolded ps] dels [unfolded ps] m(1) [unfolded ps] ..
  then show ?thesis using that [of ?plan m] m b(3,4) rows_b by simp
qed

section \<open>Replaying tombstones\<close>

text \<open>The tombstones a source part contributes to the merged part.\<close>

definition replay_list :: "merge_plan \<Rightarrow> u64 \<Rightarrow> (u32 \<times> csn) list \<Rightarrow> (u32 \<times> csn) list" where
  "replay_list plan src es =
     concat (map (\<lambda>(ord, c). case mp_mapping plan (src, ord) of None \<Rightarrow> [] | Some out \<Rightarrow> [(out, c)]) es)"

lemma mark_all_append: "mark_all (xs @ ys) d = mark_all ys (mark_all xs d)"
  by (induction xs d rule: mark_all.induct) simp_all

lemma replay_entries_spec:
  "fst (replay_entries plan src es (m, n)) = m\<lparr>p_dv := mark_all (replay_list plan src es) (p_dv m)\<rparr>"
proof (induction es arbitrary: m n)
  case (Cons e es)
  obtain ord c where e: "e = (ord, c)" by force
  show ?case
  proof (cases "mp_mapping plan (src, ord)")
    case None
    then show ?thesis using Cons.IH [of m n] by (simp add: e replay_list_def)
  next
    case (Some out)
    obtain ok d where md: "mark_deleted out c (p_dv m) = (ok, d)" by force
    have "part_mark_deleted out c m = (ok, m\<lparr>p_dv := d\<rparr>)" by (simp add: part_mark_deleted_def md)
    then show ?thesis
      using Some Cons.IH [of "m\<lparr>p_dv := d\<rparr>" "if ok then n + 1 else n"] by (simp add: e replay_list_def md)
  qed
qed (simp add: replay_list_def)

lemma map_fst_rev_enumerate:
  "map fst (rev (map (\<lambda>(i, x). (f x, g i)) (enumerate n xs))) = rev (map f xs)"
  by (induction xs arbitrary: n) simp_all

lemma present_mem:
  assumes "distinct (map p_id parts)" "q \<in> set parts"
  shows "\<exists>i. present parts (p_id q) = Some i \<and> i < length parts \<and> parts ! i = q"
proof -
  obtain i where i: "i < length parts" "parts ! i = q" using assms(2) by (meson in_set_conv_nth)
  have "distinct (map fst (rev (map (\<lambda>(i, p). (p_id p, i)) (enumerate 0 parts))))"
    unfolding map_fst_rev_enumerate [of p_id "\<lambda>i. i"] using assms(1) by simp
  then have "present parts (p_id q) = Some i"
    unfolding present_def using i by (intro map_of_is_SomeI) (auto simp: in_set_enumerate_eq intro!: image_eqI [of _ _ "(i, q)"])
  then show ?thesis using i by blast
qed

lemma replay_sources_spec:
  assumes "distinct (map p_id parts)" "\<forall>i \<in> set ids. \<exists>q \<in> set parts. p_id q = i"
  shows "\<exists>n'. replay_sources parts plan ids (m, n) =
    Some (m\<lparr>p_dv := mark_all (concat (map (\<lambda>i. replay_list plan i
       (entries_after (mp_started_at plan) (p_dv (the (by_id parts i))))) ids)) (p_dv m)\<rparr>, n')"
  using assms(2)
proof (induction ids arbitrary: m n)
  case (Cons i ids)
  then obtain q where q: "q \<in> set parts" "p_id q = i" by auto
  obtain k where k: "present parts i = Some k" "k < length parts" "parts ! k = q"
    using present_mem [OF assms(1) q(1)] q(2) by blast
  have bq: "by_id parts i = Some q" using by_id_mem [OF assms(1) q(1)] q(2) by simp
  let ?L = "replay_list plan i (entries_after (mp_started_at plan) (p_dv q))"
  obtain m' n' where st: "replay_entries plan i (entries_after (mp_started_at plan) (p_dv q)) (m, n) = (m', n')" by force
  have m': "m' = m\<lparr>p_dv := mark_all ?L (p_dv m)\<rparr>"
    using replay_entries_spec [of plan i "entries_after (mp_started_at plan) (p_dv q)" m n] st by simp
  have "replay_sources parts plan (i # ids) (m, n) = replay_sources parts plan ids (m', n')"
    using k st by simp
  then show ?case using Cons.IH [of m' n'] Cons.prems by (simp add: m' bq mark_all_append)
qed simp

section \<open>The ordinal mapping\<close>

lemma distinct_plan_pairs:
  assumes "sources_ok s ps"
  shows "distinct (map (\<lambda>r. (pr_src r, pr_ord r)) (plan_rows ps h))"
proof -
  let ?g = "\<lambda>r. (pr_src r, pr_ord r)"
  have "distinct (map ?g (concat (map (\<lambda>p. map (prow p) (survivors p h)) xs)))"
    if "set xs \<subseteq> set ps" "distinct (map p_id xs)" for xs
    using that
  proof (induction xs)
    case (Cons p xs)
    have ok: "part_ok p" using assms Cons.prems(1) by (simp add: sources_ok_def)
    have "inj_on (\<lambda>i. word_of_nat i :: u32) (set (survivors p h))"
      using part_okD(2) [OF ok] by (intro inj_onI) (auto simp: survivors_def word_of_nat32_inj)
    then have "distinct (map ?g (map (prow p) (survivors p h)))"
      by (auto simp: distinct_map survivors_def inj_on_def)
    moreover have "set (map ?g (map (prow p) (survivors p h))) \<inter>
        set (map ?g (concat (map (\<lambda>p. map (prow p) (survivors p h)) xs))) = {}"
      using Cons.prems(2) by (auto simp: image_iff)
    ultimately show ?case using Cons by simp
  qed simp
  then have d: "distinct (map ?g (concat (map (\<lambda>p. map (prow p) (survivors p h)) ps)))"
    using assms by (simp add: sources_ok_def)
  have "mset (map ?g (plan_rows ps h)) = mset (map ?g (concat (map (\<lambda>p. map (prow p) (survivors p h)) ps)))"
    unfolding plan_rows_def mset_map mset_sort_by ..
  from mset_eq_imp_distinct_iff [OF this] d show ?thesis by simp
qed

lemma ordinal_map_iff:
  assumes "distinct (map (\<lambda>r. (pr_src r, pr_ord r)) R)" "length R \<le> 2 ^ 32" "j < length R"
  shows "ordinal_map R k = Some (word_of_nat j) \<longleftrightarrow> k = (pr_src (R ! j), pr_ord (R ! j))"
proof -
  let ?l = "rev (map (\<lambda>(i, r). ((pr_src r, pr_ord r), word_of_nat i :: u32)) (enumerate 0 R))"
  have d: "distinct (map fst ?l)"
    unfolding map_fst_rev_enumerate [of "\<lambda>r. (pr_src r, pr_ord r)"] using assms(1) by simp
  have mem: "(k, w) \<in> set ?l \<longleftrightarrow> (\<exists>i < length R. k = (pr_src (R ! i), pr_ord (R ! i)) \<and> w = word_of_nat i)" for w
  proof -
    have "set (enumerate 0 R) = (\<lambda>i. (i, R ! i)) ` {..<length R}"
      by (auto simp: in_set_enumerate_eq)
    then have "set ?l = (\<lambda>i. ((pr_src (R ! i), pr_ord (R ! i)), word_of_nat i)) ` {..<length R}"
      by (simp add: image_image)
    then show ?thesis by auto
  qed
  have "ordinal_map R k = Some (word_of_nat j) \<longleftrightarrow> (k, word_of_nat j) \<in> set ?l"
    unfolding ordinal_map_def using d by (simp only: map_of_eq_Some_iff)
  also have "\<dots> \<longleftrightarrow> k = (pr_src (R ! j), pr_ord (R ! j))"
    unfolding mem using assms(2,3) word_of_nat32_inj [of j] by (auto simp: word_of_nat32_inj)
  finally show ?thesis .
qed

lemma map_of_eqI:
  assumes "\<And>c. (k, c) \<in> set L \<longleftrightarrow> f = Some c"
  shows "map_of L k = f"
proof (cases "map_of L k")
  case None
  then have "\<And>c. (k, c) \<notin> set L" by (force simp: map_of_eq_None_iff)
  then show ?thesis using assms None by (cases f) auto
next
  case (Some c)
  then show ?thesis using assms [of c] by (simp add: map_of_SomeD)
qed

section \<open>Installing a plan preserves the view\<close>

text \<open>
  A source part at installation time: the part the plan was made from, with further
  tombstones, each stamped after the plan started.
\<close>

definition evolved :: "csn \<Rightarrow> part \<Rightarrow> part \<Rightarrow> bool" where
  "evolved started p q \<longleftrightarrow>
     p_id q = p_id p \<and> p_batch q = p_batch p \<and> p_created q = p_created p \<and>
     dv_map (p_dv p) \<subseteq>\<^sub>m dv_map (p_dv q) \<and>
     (\<forall>ord c. dv_map (p_dv q) ord = Some c \<longrightarrow> dv_map (p_dv p) ord = Some c \<or> started < c)"

lemma evolved_refl: "evolved started p p"
  by (simp add: evolved_def)

lemma evolved_deleted:
  assumes "evolved started p q" "part_ok p" "part_ok q" "p_deleted_val p i \<noteq> NEVER_DELETED"
  shows "p_deleted_val q i = p_deleted_val p i"
proof -
  obtain d where "dv_map (p_dv p) (word_of_nat i) = Some d"
    using assms(2,4) by (cases "dv_map (p_dv p) (word_of_nat i)") (auto simp: p_deleted_val_def deleted_at_map part_okD)
  moreover have "dv_map (p_dv q) (word_of_nat i) = Some d"
    using assms(1) calculation unfolding evolved_def map_le_def by (metis domI)
  ultimately show ?thesis using assms(2,3) by (simp add: p_deleted_val_def deleted_at_map part_okD)
qed

text \<open>The tombstones replayed from all sources, seen at an output ordinal.\<close>

lemma replayed_at:
  fixes started :: csn
  assumes "sources_ok s ps" "R = plan_rows ps h" "mp_mapping plan = ordinal_map R"
    "\<And>i. i \<in> set (map p_id ps) \<Longrightarrow> dv_ok (D i)" "j < length R"
  defines "L \<equiv> concat (map (\<lambda>i. replay_list plan i (entries_after started (D i))) (map p_id ps))"
  shows "map_of L (word_of_nat j) =
    (case dv_map (D (pr_src (R ! j))) (pr_ord (R ! j)) of Some c \<Rightarrow> if started < c then Some c else None | None \<Rightarrow> None)"
proof (rule map_of_eqI)
  fix c
  let ?r = "R ! j"
  have len: "length R \<le> 2 ^ 32" using length_plan_rows [of ps h] assms(1,2) by (simp add: sources_ok_def)
  have map: "mp_mapping plan k = Some (word_of_nat j) \<longleftrightarrow> k = (pr_src ?r, pr_ord ?r)" for k
    using ordinal_map_iff [OF _ len assms(5)] distinct_plan_pairs [OF assms(1), of h] by (simp add: assms(2,3))
  have src: "pr_src ?r \<in> set (map p_id ps)"
    using plan_rows_mem [of ?r ps h] assms(2,5) nth_mem [OF assms(5)] by auto
  have "(word_of_nat j, c) \<in> set (replay_list plan i es) \<longleftrightarrow> i = pr_src ?r \<and> (pr_ord ?r, c) \<in> set es" for i es
  proof -
    have "(word_of_nat j, c) \<in> set (replay_list plan i es) \<longleftrightarrow>
        (\<exists>ord. (ord, c) \<in> set es \<and> mp_mapping plan (i, ord) = Some (word_of_nat j))"
      unfolding replay_list_def by (induction es) (auto split: option.splits)
    then show ?thesis unfolding map by auto
  qed
  then have "(word_of_nat j, c) \<in> set L \<longleftrightarrow> (pr_ord ?r, c) \<in> set (entries_after started (D (pr_src ?r)))"
    using src by (auto simp: L_def)
  also have "\<dots> \<longleftrightarrow> dv_map (D (pr_src ?r)) (pr_ord ?r) = Some c \<and> started < c"
    using dv_map_mem [OF assms(4) [OF src]] by (auto simp: entries_after_def)
  finally show "(word_of_nat j, c) \<in> set L \<longleftrightarrow>
      (case dv_map (D (pr_src ?r)) (pr_ord ?r) of Some c \<Rightarrow> if started < c then Some c else None | None \<Rightarrow> None) = Some c"
    by (auto split: option.splits)
qed

text \<open>After the replay an output row is deleted exactly when its source row is.\<close>

lemma replayed_deleted:
  assumes "evolved started p q" "part_ok p" "part_ok q" "i < b_len (p_batch p)"
    and "ds = p_deleted_val p i"
    and "replay = (case dv_map (p_dv q) (word_of_nat i) of Some c \<Rightarrow> if started < c then Some c else None | None \<Rightarrow> None)"
    and "final = (case (if ds = NEVER_DELETED then None else Some ds) of Some c \<Rightarrow> Some c | None \<Rightarrow> replay)"
  shows "(case final of Some c \<Rightarrow> c | None \<Rightarrow> NEVER_DELETED) = p_deleted_val q i"
proof (cases "ds = NEVER_DELETED")
  case False
  then show ?thesis using assms evolved_deleted [OF assms(1-3), of i] by simp
next
  case True
  show ?thesis
  proof (cases "dv_map (p_dv q) (word_of_nat i)")
    case None
    then show ?thesis using True assms by (simp add: p_deleted_val_def deleted_at_map part_okD)
  next
    case (Some c)
    show ?thesis
    proof (cases "started < c")
      case False
      then have "dv_map (p_dv p) (word_of_nat i) = Some c" using assms(1) Some by (auto simp: evolved_def)
      then have "c = NEVER_DELETED" using True assms by (simp add: p_deleted_val_def deleted_at_map part_okD)
      then show ?thesis using Some True assms by (simp add: p_deleted_val_def deleted_at_map part_okD)
    qed (use Some True assms in \<open>simp add: p_deleted_val_def deleted_at_map part_okD\<close>)
  qed
qed

lemma mset_filter_map_sort:
  "mset (map f (filter P (sort_by c xs))) = mset (map f (filter P xs))"
  by simp

lemma mset_concat_map: "mset (concat (map f xs)) = sum_list (map (\<lambda>x. mset (f x)) xs)"
  by (induction xs) simp_all

text \<open>The surviving rows of a source part are the ones a snapshot above the horizon can see.\<close>

lemma survivors_view:
  assumes "evolved started p q" "part_ok p" "part_ok q" "h \<le> snap" "snap \<noteq> NEVER_DELETED"
  shows "mset (map (\<lambda>i. batch_rows (p_batch p) ! i)
      (filter (\<lambda>i. sees snap (p_created_val p i) (p_deleted_val q i)) (survivors p h))) =
    view snap (mset (part_versions q))"
proof -
  have same: "p_batch q = p_batch p" "p_created q = p_created p" using assms(1) by (auto simp: evolved_def)
  have drop: "h < p_deleted_val p i" if "sees snap (p_created_val p i) (p_deleted_val q i)" for i
  proof (rule ccontr)
    assume "\<not> h < p_deleted_val p i"
    then have le: "p_deleted_val p i \<le> snap" using assms(4) by (meson not_less order_trans)
    then have "p_deleted_val p i \<noteq> NEVER_DELETED" using assms(5) by (metis less_NEVER_DELETED not_less)
    then show False using evolved_deleted [OF assms(1-3)] that le by (simp add: sees_def not_less [symmetric])
  qed
  have "filter (\<lambda>i. sees snap (p_created_val p i) (p_deleted_val q i)) (survivors p h) = visible_list q snap"
    unfolding survivors_def visible_list_def filter_filter same p_sees_def
    by (rule filter_cong) (use drop in auto)
  then show ?thesis by (simp add: view_part same)
qed

text \<open>The merged part after the replay, as the view of its plan rows.\<close>

lemma merged_view:
  assumes "part_ok m" "b_len (p_batch m) = length R" "batch_rows (p_batch m) = map f R"
    "p_created m = PerRow (map pr_created R)"
    "\<And>j. j < length R \<Longrightarrow> p_deleted_val m' j = nd (R ! j)"
    "m' = (collapse_versions h m)\<lparr>p_dv := d\<rparr>" "h \<le> snap"
  shows "view snap (mset (part_versions m')) = mset (map f (filter (\<lambda>r. sees snap (pr_created r) (nd r)) R))"
proof -
  have sees: "p_sees m' snap j \<longleftrightarrow> sees snap (pr_created (R ! j)) (nd (R ! j))" if j: "j < length R" for j
  proof -
    define c where "c = created_val (maybe_collapse h (PerRow (map pr_created R))) j"
    have "j < length (map pr_created R)" using j by simp
    from collapse_val [OF this, of h] have "c \<le> pr_created (R ! j)" "c = pr_created (R ! j) \<or> pr_created (R ! j) \<le> h"
      unfolding c_def [symmetric] using j by auto
    then have "c \<le> snap \<longleftrightarrow> pr_created (R ! j) \<le> snap" using assms(7) by (auto intro: order_trans)
    then have "created_val (maybe_collapse h (PerRow (map pr_created R))) j \<le> snap \<longleftrightarrow> pr_created (R ! j) \<le> snap"
      by (simp only: c_def)
    then show ?thesis
      using assms(5) [OF j] unfolding p_sees_def sees_def
      by (simp add: assms(6) collapse_versions_def assms(4) p_deleted_val_def)
  qed
  have "map (\<lambda>i. batch_rows (p_batch m) ! i) (filter (\<lambda>j. sees snap (pr_created (R ! j)) (nd (R ! j))) [0..<length R]) =
      map f (filter (\<lambda>r. sees snap (pr_created r) (nd r)) R)"
  proof -
    have "map f (filter Q R) = map (\<lambda>j. f (R ! j)) (filter (\<lambda>j. Q (R ! j)) [0..<length R])" for Q
      by (subst (1) map_nth [symmetric, of R]) (simp add: filter_map comp_def)
    then show ?thesis using assms(3) by simp
  qed
  moreover have "visible_list m' snap = filter (\<lambda>j. sees snap (pr_created (R ! j)) (nd (R ! j))) [0..<length R]"
    unfolding visible_list_def by (rule filter_cong) (use sees assms(2,6) in \<open>auto simp: collapse_versions_def\<close>)
  ultimately show ?thesis unfolding view_part by (simp add: assms(6) collapse_versions_def)
qed

lemma part_ok_replay:
  assumes "part_ok m" "\<forall>e \<in> set L. unat (fst e) < b_len (p_batch m)"
  shows "part_ok (m\<lparr>p_dv := mark_all L (p_dv m)\<rparr>)"
proof -
  have dv: "dv_ok (mark_all L (p_dv m))" "dv_map (mark_all L (p_dv m)) = map_of L ++ dv_map (p_dv m)"
    using dv_map_mark_all [OF part_okD(3) [OF assms(1)], of L] by auto
  have "unat o' < b_len (p_batch m)" if "(o', c) \<in> set (dv_entries (mark_all L (p_dv m)))" for o' c
  proof -
    have "(map_of L ++ dv_map (p_dv m)) o' = Some c" using that dv by (simp add: dv_map_mem [symmetric])
    then have "(o', c) \<in> set L \<or> (o', c) \<in> set (dv_entries (p_dv m))"
      using dv_map_mem [OF part_okD(3) [OF assms(1)]] by (auto simp: map_add_Some_iff dest: map_of_SomeD)
    then show ?thesis using assms by (fastforce simp: part_ok_def)
  qed
  then show ?thesis using assms(1) dv(1) unfolding part_ok_def by auto
qed

lemma replay_list_range:
  assumes "mp_mapping plan = ordinal_map R" "length R \<le> 2 ^ 32" "e \<in> set (replay_list plan i es)"
  shows "unat (fst e) < length R"
proof -
  obtain ord where "mp_mapping plan (i, ord) = Some (fst e)"
    using assms(3) by (auto simp: replay_list_def split: option.splits)
  then have "(fst e) \<in> snd ` set (rev (map (\<lambda>(i, r). ((pr_src r, pr_ord r), word_of_nat i :: u32)) (enumerate 0 R)))"
    unfolding assms(1) ordinal_map_def by (force dest: map_of_SomeD)
  then show ?thesis using assms(2) by (auto simp: in_set_enumerate_eq unat_word_of_nat32)
qed

text \<open>What a merge relies on: its sources, and the parts it finds when it is installed.\<close>

definition merge_ok :: "schema \<Rightarrow> csn \<Rightarrow> part list \<Rightarrow> part list \<Rightarrow> bool" where
  "merge_ok s started ps parts \<longleftrightarrow>
     sources_ok s ps \<and> ps \<noteq> [] \<and> distinct (map p_id parts) \<and> (\<forall>q \<in> set parts. part_ok q) \<and>
     (\<forall>p \<in> set ps. \<exists>q \<in> set parts. evolved started p q)"

text \<open>The present state of a source, and the deletion stamp a plan row has by now.\<close>

definition part_now :: "part list \<Rightarrow> u64 \<Rightarrow> part" where
  "part_now parts i = the (by_id parts i)"

definition deleted_now :: "part list \<Rightarrow> plan_row \<Rightarrow> csn" where
  "deleted_now parts r = p_deleted_val (part_now parts (pr_src r)) (unat (pr_ord r))"

definition replayed_list :: "merge_plan \<Rightarrow> csn \<Rightarrow> part list \<Rightarrow> u64 list \<Rightarrow> (u32 \<times> csn) list" where
  "replayed_list plan started parts ids =
     concat (map (\<lambda>i. replay_list plan i (entries_after started (p_dv (part_now parts i)))) ids)"

lemma merge_okD:
  assumes "merge_ok s started ps parts"
  shows "sources_ok s ps" "ps \<noteq> []" "distinct (map p_id parts)" "\<forall>q \<in> set parts. part_ok q"
    "length (plan_rows ps h) < 2 ^ 32" "length (plan_rows ps h) \<le> 2 ^ 32" "distinct (map p_id ps)"
  using assms length_plan_rows [of ps h] by (auto simp: merge_ok_def sources_ok_def)

lemma part_now_evolved:
  assumes "merge_ok s started ps parts" "p \<in> set ps"
  shows "part_now parts (p_id p) \<in> set parts" "evolved started p (part_now parts (p_id p))"
    "part_ok (part_now parts (p_id p))" "part_ok p"
proof -
  obtain q where "q \<in> set parts" "evolved started p q" using assms unfolding merge_ok_def by blast
  moreover from this have "by_id parts (p_id p) = Some q" using by_id_mem [OF merge_okD(3) [OF assms(1)], of q] by (metis evolved_def)
  ultimately show "part_now parts (p_id p) \<in> set parts" "evolved started p (part_now parts (p_id p))"
    "part_ok (part_now parts (p_id p))" "part_ok p"
    using assms by (auto simp: part_now_def merge_ok_def sources_ok_def)
qed

lemma plan_row_slot:
  assumes "merge_ok s started ps parts" "r \<in> set (plan_rows ps h)"
  obtains p i where "p \<in> set ps" "i < b_len (p_batch p)" "r = prow p i" "unat (word_of_nat i :: u32) = i"
  using plan_rows_mem [OF assms(2)] part_now_evolved(4) [OF assms(1)] part_okD(2) unat_word_of_nat32
  by (metis order.strict_trans)

lemma merged_deleted:
  assumes mk: "merge_ok s started ps parts" and plan: "mp_mapping plan = ordinal_map (plan_rows ps h)"
    and m: "part_ok m" "part_ok m'" "dv_map (p_dv m) = map_of (stamp_deletions (map pr_deleted (plan_rows ps h)))"
    and dv: "p_dv m' = mark_all (replayed_list plan started parts (map p_id ps)) (p_dv m)"
    and j: "j < length (plan_rows ps h)"
  shows "p_deleted_val m' j = deleted_now parts (plan_rows ps h ! j)"
proof -
  let ?R = "plan_rows ps h" and ?L = "replayed_list plan started parts (map p_id ps)"
  obtain p i where p: "p \<in> set ps" "i < b_len (p_batch p)" "?R ! j = prow p i" "unat (word_of_nat i :: u32) = i"
    by (rule plan_row_slot [OF mk nth_mem [OF j]])
  note q = part_now_evolved [OF mk p(1)]
  have "\<forall>i \<in> set (map p_id ps). dv_ok (p_dv (part_now parts i))"
    using part_now_evolved(3) [OF mk] part_okD(3) by auto
  then have "map_of ?L (word_of_nat j) = (case dv_map (p_dv (part_now parts (p_id p))) (word_of_nat i) of
      Some c \<Rightarrow> if started < c then Some c else None | None \<Rightarrow> None)"
    using replayed_at [OF merge_okD(1) [OF mk] refl plan _ j, of "\<lambda>i. p_dv (part_now parts i)" started]
    by (force simp: replayed_list_def p(3) comp_def)
  moreover have "dv_map (p_dv m) (word_of_nat j) =
      (if p_deleted_val p i = NEVER_DELETED then None else Some (p_deleted_val p i))"
    using map_of_stamp [of "map pr_deleted ?R" j] merge_okD(6) [OF mk] j by (simp add: m(3) p(3))
  moreover have "dv_map (p_dv m') (word_of_nat j) = (case dv_map (p_dv m) (word_of_nat j) of
      Some c \<Rightarrow> Some c | None \<Rightarrow> map_of ?L (word_of_nat j))"
    using dv_map_mark_all [OF part_okD(3) [OF m(1)], of ?L] by (simp add: dv map_add_def)
  ultimately show ?thesis
    using replayed_deleted [OF q(2,4,3) p(2) refl refl refl]
    by (auto simp add: deleted_now_def p(3,4) p_deleted_val_def [of m'] deleted_at_map [OF part_okD(3) [OF m(2)]] split: if_splits)
qed

lemma source_view:
  assumes mk: "merge_ok s started ps parts" and p: "p \<in> set ps" and h: "h \<le> snap" "snap \<noteq> NEVER_DELETED"
  shows "mset (map (srow ps) (filter (\<lambda>r. sees snap (pr_created r) (deleted_now parts r)) (map (prow p) (survivors p h)))) =
    view snap (mset (part_versions (part_now parts (p_id p))))"
proof -
  note q = part_now_evolved [OF mk p]
  have i: "srow ps (prow p i) = batch_rows (p_batch p) ! i \<and> deleted_now parts (prow p i) = p_deleted_val (part_now parts (p_id p)) i"
    if "i \<in> set (survivors p h)" for i
  proof -
    have "i < b_len (p_batch p)" using that by (simp add: survivors_def)
    then show ?thesis using source_row_prow [OF merge_okD(7) [OF mk] p q(4)] part_okD(2) [OF q(4)]
      by (simp add: srow_def deleted_now_def unat_word_of_nat32)
  qed
  have "map (srow ps) (filter (\<lambda>r. sees snap (pr_created r) (deleted_now parts r)) (map (prow p) (survivors p h))) =
      map (\<lambda>i. batch_rows (p_batch p) ! i)
        (filter (\<lambda>i. sees snap (p_created_val p i) (p_deleted_val (part_now parts (p_id p)) i)) (survivors p h))"
    using i by (auto simp: filter_map comp_def intro!: map_cong filter_cong)
  then show ?thesis using survivors_view [OF q(2,4,3) h] by simp
qed

lemma sources_now:
  assumes mk: "merge_ok s started ps parts"
  shows "versions_of (map (\<lambda>p. part_now parts (p_id p)) ps) = versions_of (filter (\<lambda>q. p_id q \<in> p_id ` set ps) parts)"
proof (rule versions_of_mset, rule set_eq_iff_mset_eq_distinct [THEN iffD1])
  have pid: "p_id (part_now parts (p_id p)) = p_id p" if "p \<in> set ps" for p
    using part_now_evolved(2) [OF mk that] by (simp add: evolved_def)
  then have "map p_id (map (\<lambda>p. part_now parts (p_id p)) ps) = map p_id ps" by simp
  then show "distinct (map (\<lambda>p. part_now parts (p_id p)) ps)" using merge_okD(7) [OF mk] by (metis distinct_map)
  show "distinct (filter (\<lambda>q. p_id q \<in> p_id ` set ps) parts)" using merge_okD(3) [OF mk] by (simp add: distinct_map)
  show "set (map (\<lambda>p. part_now parts (p_id p)) ps) = set (filter (\<lambda>q. p_id q \<in> p_id ` set ps) parts)"
    using part_now_evolved(1) [OF mk] pid by_id_mem [OF merge_okD(3) [OF mk]]
    by (auto simp: part_now_def image_iff) (metis option.sel)
qed

lemma merged_now_view:
  assumes mk: "merge_ok s started ps parts" and h: "h \<le> snap" "snap \<noteq> NEVER_DELETED"
  shows "mset (map (srow ps) (filter (\<lambda>r. sees snap (pr_created r) (deleted_now parts r)) (plan_rows ps h))) =
    view snap (versions_of (filter (\<lambda>q. p_id q \<in> p_id ` set ps) parts))"
proof -
  have "mset (map (srow ps) (filter (\<lambda>r. sees snap (pr_created r) (deleted_now parts r)) (plan_rows ps h))) =
      sum_list (map (\<lambda>p. mset (map (srow ps) (filter (\<lambda>r. sees snap (pr_created r) (deleted_now parts r)) (map (prow p) (survivors p h))))) ps)"
    unfolding plan_rows_def mset_filter_map_sort by (simp add: filter_concat map_concat comp_def mset_concat_map)
  also have "\<dots> = sum_list (map (\<lambda>p. view snap (mset (part_versions (part_now parts (p_id p))))) ps)"
    using source_view [OF mk _ h] by (simp cong: map_cong)
  also have "\<dots> = view snap (versions_of (map (\<lambda>p. part_now parts (p_id p)) ps))"
    by (induction ps) simp_all
  finally show ?thesis by (simp add: sources_now [OF mk])
qed

text \<open>The stamps of the merged part come from the sources: creation is not raised, deletion is as it is now.\<close>

lemma merged_stamps:
  assumes mk: "merge_ok s started ps parts" and m: "p_created m' = maybe_collapse h (PerRow (map pr_created (plan_rows ps h)))"
    "b_len (p_batch m') = length (plan_rows ps h)"
    and nd: "\<And>j. j < length (plan_rows ps h) \<Longrightarrow> p_deleted_val m' j = deleted_now parts (plan_rows ps h ! j)"
    and v: "v \<in> set (part_versions m')"
  shows "\<exists>w \<in># versions_of parts. fst (snd v) \<le> fst (snd w) \<and> snd (snd v) = snd (snd w)"
proof -
  let ?R = "plan_rows ps h"
  obtain j where j: "j < length ?R" "v = (batch_rows (p_batch m') ! j, p_created_val m' j, p_deleted_val m' j)"
    using v m(2) by (auto simp: part_versions_def)
  obtain p i where p: "p \<in> set ps" "i < b_len (p_batch p)" "?R ! j = prow p i" "unat (word_of_nat i :: u32) = i"
    by (rule plan_row_slot [OF mk nth_mem [OF j(1)]])
  let ?q = "part_now parts (p_id p)"
  note q = part_now_evolved [OF mk p(1)]
  have "j < length (map pr_created ?R)" using j(1) by simp
  from collapse_val(1) [OF this, of h] have c: "p_created_val m' j \<le> p_created_val ?q i"
    unfolding m(1) using j(1) p(3) q(2) by (simp add: evolved_def del: maybe_collapse.simps)
  have b: "b_len (p_batch ?q) = b_len (p_batch p)" using q(2) by (simp add: evolved_def)
  have "(batch_rows (p_batch ?q) ! i, p_created_val ?q i, p_deleted_val ?q i) \<in> set (part_versions ?q)"
    unfolding part_versions_def b using p(2) by (auto simp: image_iff)
  moreover have "set (part_versions ?q) \<subseteq> set_mset (versions_of parts)" using q(1) by (rule versions_of_mem)
  ultimately show ?thesis using c nd [OF j(1)] j(2) p(3,4)
    by (intro bexI [of _ "(batch_rows (p_batch ?q) ! i, p_created_val ?q i, p_deleted_val ?q i)"]) (auto simp: deleted_now_def)
qed

lemma merged_clean:
  assumes mk: "merge_ok s started ps parts" and m: "part_ok m" "dv_clean m"
    and dv: "p_dv m' = mark_all (replayed_list plan started parts (map p_id ps)) (p_dv m)" and cl: "\<forall>q \<in> set parts. dv_clean q"
  shows "dv_clean m'"
proof -
  let ?L = "replayed_list plan started parts (map p_id ps)"
  have "c \<noteq> NEVER_DELETED" if L: "(ord, c) \<in> set ?L" for ord c
  proof -
    from L obtain p ord' where p: "p \<in> set ps" "(ord', c) \<in> set (dv_entries (p_dv (part_now parts (p_id p))))"
      by (auto simp: replayed_list_def replay_list_def entries_after_def split: option.splits)
    have "dv_map (p_dv (part_now parts (p_id p))) ord' = Some c"
      using p(2) dv_map_mem part_okD(3) part_now_evolved(3) [OF mk p(1)] by blast
    then show ?thesis using cl part_now_evolved(1) [OF mk p(1)] by (auto simp: dv_clean_def)
  qed
  then have "map_of ?L ord \<noteq> Some NEVER_DELETED" for ord using map_of_SomeD by fastforce
  then show ?thesis
    using dv_map_mark_all [OF part_okD(3) [OF m(1)], of ?L] m(2) by (auto simp: dv_clean_def dv map_add_Some_iff)
qed

lemma apply_plan_ok:
  assumes A: "arrow_ok A" and mk: "merge_ok s started ps parts" and pl: "plan_merge A ps new_id h started = Some (Some plan)"
  obtains m' mt' where "apply_plan parts plan mt =
      Some (filter (\<lambda>q. p_id q \<notin> p_id ` set ps) parts @ [m'], mt', length ps)"
    "part_ok m'" "p_id m' = new_id" "p_schema m' = s"
    "\<And>snap. h \<le> snap \<Longrightarrow> snap \<noteq> NEVER_DELETED \<Longrightarrow>
       view snap (mset (part_versions m')) = view snap (versions_of (filter (\<lambda>q. p_id q \<in> p_id ` set ps) parts))"
    "\<And>v. v \<in> set (part_versions m') \<Longrightarrow> \<exists>w \<in># versions_of parts. fst (snd v) \<le> fst (snd w) \<and> snd (snd v) = snd (snd w)"
    "\<forall>q \<in> set parts. dv_clean q \<Longrightarrow> dv_clean m'"
proof -
  let ?R = "plan_rows ps h" and ?L = "replayed_list plan started parts (map p_id ps)"
  obtain plan' m where pm: "plan_merge A ps new_id h started = Some (Some plan')"
    "mp_source_ids plan' = map p_id ps" "mp_merged plan' = collapse_versions h m" "mp_mapping plan' = ordinal_map ?R"
    "mp_started_at plan' = started" "part_ok m" "p_id m = new_id" "p_schema m = s"
    "b_len (p_batch m) = length ?R" "batch_rows (p_batch m) = map (srow ps) ?R"
    "p_created m = PerRow (map pr_created ?R)" "dv_map (p_dv m) = map_of (stamp_deletions (map pr_deleted ?R))"
    by (rule plan_merge_ok [OF A merge_okD(1,2) [OF mk]])
  have plan: "plan' = plan" using pm(1) pl by simp
  note pm = pm [unfolded plan]
  define m' where "m' = (collapse_versions h m)\<lparr>p_dv := mark_all ?L (p_dv m)\<rparr>"
  have m': "p_dv m' = mark_all ?L (p_dv m)" "p_batch m' = p_batch m" "p_created m' = maybe_collapse h (p_created m)"
    "p_id m' = new_id" "p_schema m' = s"
    by (simp_all add: m'_def collapse_versions_def pm(7,8))
  have ids: "\<forall>i \<in> set (map p_id ps). \<exists>q \<in> set parts. p_id q = i" using part_now_evolved [OF mk] by (fastforce simp: evolved_def)
  obtain n' where rs: "replay_sources parts plan (map p_id ps) (collapse_versions h m, 0) = Some (m', n')"
    using replay_sources_spec [OF merge_okD(3) [OF mk] ids, of plan "collapse_versions h m" 0]
    by (auto simp: m'_def replayed_list_def part_now_def pm(5) collapse_versions_def)
  have all: "list_all (\<lambda>i. present parts i \<noteq> None) (map p_id ps)"
    using ids present_mem [OF merge_okD(3) [OF mk]] by (fastforce simp: list_all_iff)
  have "\<forall>e \<in> set ?L. unat (fst e) < b_len (p_batch m)"
    unfolding replayed_list_def pm(9) using replay_list_range [OF pm(4) merge_okD(6) [OF mk]] by auto
  then have okm: "part_ok m'"
    using part_ok_replay [of "collapse_versions h m" ?L] collapse_ok [OF pm(6)] by (simp add: m'_def collapse_versions_def)
  have nd: "p_deleted_val m' j = deleted_now parts (?R ! j)" if "j < length ?R" for j
    by (rule merged_deleted [OF mk pm(4,6) okm pm(12) m'(1) that])
  have view: "view snap (mset (part_versions m')) = view snap (versions_of (filter (\<lambda>q. p_id q \<in> p_id ` set ps) parts))"
    if h: "h \<le> snap" "snap \<noteq> NEVER_DELETED" for snap
    using merged_view [where nd = "deleted_now parts", OF pm(6,9,10,11) nd m'_def h(1)] merged_now_view [OF mk h] by simp
  have clean: "dv_clean m'" if "\<forall>q \<in> set parts. dv_clean q"
    by (rule merged_clean [OF mk pm(6) _ m'(1) that]) (simp add: dv_clean_def pm(12) stamp_not_never)
  obtain mt' where ap: "apply_plan parts plan mt = Some (filter (\<lambda>q. p_id q \<notin> p_id ` set ps) parts @ [m'], mt', length ps)"
    using all rs by (simp add: apply_plan_def pm(2,3) Let_def)
  show ?thesis
    by (rule that [OF ap okm m'(4,5) view merged_stamps [OF mk _ _ nd] clean]) (simp_all add: m' pm(9,11))
qed

text \<open>
  Installing a plan leaves the view of the whole part list unchanged for every snapshot at
  or above the reclamation horizon.
\<close>

lemma apply_plan_view:
  assumes "arrow_ok A" "merge_ok s started ps parts" "plan_merge A ps new_id h started = Some (Some plan)"
  shows "\<exists>parts' mt'. apply_plan parts plan mt = Some (parts', mt', length ps) \<and> (\<forall>q \<in> set parts'. part_ok q) \<and>
    (\<forall>snap. h \<le> snap \<longrightarrow> snap \<noteq> NEVER_DELETED \<longrightarrow> view snap (versions_of parts') = view snap (versions_of parts))"
proof (rule apply_plan_ok [OF assms, where mt = mt], goal_cases)
  case (1 m' mt')
  note a = 1
  have "versions_of parts = versions_of (filter (\<lambda>q. p_id q \<in> p_id ` set ps) parts) + versions_of (filter (\<lambda>q. p_id q \<notin> p_id ` set ps) parts)"
    by (rule versions_of_filter)
  then have "\<And>snap. h \<le> snap \<Longrightarrow> snap \<noteq> NEVER_DELETED \<Longrightarrow>
      view snap (versions_of (filter (\<lambda>q. p_id q \<notin> p_id ` set ps) parts @ [m'])) = view snap (versions_of parts)"
    using a(5) by (simp add: add.commute)
  moreover have "\<forall>q \<in> set (filter (\<lambda>q. p_id q \<notin> p_id ` set ps) parts @ [m']). part_ok q" using a(2) merge_okD(4) [OF assms(2)] by auto
  ultimately show ?thesis using a(1) by blast
qed

section \<open>Properties\<close>

text \<open>
  C25. Compaction is invisible to readers. Planning a merge of some parts against a horizon and
  installing the plan later, when the sources may have received further tombstones stamped after the plan
  started, always succeeds, and every snapshot at or above the horizon sees exactly the rows it
  saw before; the concurrent tombstones are carried over.
\<close>

theorem compaction_preserves_view:
  assumes "arrow_ok A" "merge_ok s started ps parts"
  shows "\<exists>plan parts' mt'. plan_merge A ps new_id h started = Some (Some plan) \<and>
    apply_plan parts plan mt = Some (parts', mt', length ps) \<and> (\<forall>q \<in> set parts'. part_ok q) \<and>
    (\<forall>snap. h \<le> snap \<longrightarrow> snap \<noteq> NEVER_DELETED \<longrightarrow> view snap (versions_of parts') = view snap (versions_of parts))"
proof -
  obtain plan where "plan_merge A ps new_id h started = Some (Some plan)"
    by (rule plan_merge_ok [OF assms(1) merge_okD(1,2) [OF assms(2)]])
  then show ?thesis using apply_plan_view [OF assms] by blast
qed

theorem compaction_preserves_view_witness:
  "\<exists>p plan parts' mt'. plan_merge ref_arrow [p] 10 4 4 = Some (Some plan) \<and>
     apply_plan [p] plan metrics_new = Some (parts', mt', 1) \<and> view 5 (versions_of parts') = {#[VInt 1, VText ''y'']#}"
proof -
  obtain p where p: "part_ok p" "p_schema p = sample_schema"
    "part_versions p = [([VInt 1, VText ''x''], 1, 3), ([VInt 1, VText ''y''], 3, NEVER_DELETED)]"
    by (rule sample_part)
  have "merge_ok sample_schema 4 [p] [p]"
    using p sample_part_vals(1) [OF p(3)] evolved_refl [of 4 p] by (simp add: merge_ok_def sources_ok_def sample_schema_ok)
  then obtain plan parts' mt' where pl: "plan_merge ref_arrow [p] 10 4 4 = Some (Some plan)"
      "apply_plan [p] plan metrics_new = Some (parts', mt', 1)"
      "\<And>snap. 4 \<le> snap \<Longrightarrow> snap \<noteq> NEVER_DELETED \<Longrightarrow> view snap (versions_of parts') = view snap (versions_of [p])"
    using compaction_preserves_view [OF arrow_ok_ref, of sample_schema 4 "[p]" "[p]" 10 4 metrics_new] by auto
  have "4 \<le> (5 :: u64)" "(5 :: u64) \<noteq> NEVER_DELETED" "\<not> sees 5 1 3" "sees 5 3 NEVER_DELETED" by (code_simp+)
  then have "view 5 (versions_of parts') = {#[VInt 1, VText ''y'']#}"
    using pl(3) [of 5] by (simp add: p(3) view_add)
  with pl(1,2) show ?thesis by blast
qed

end
