(* ===== verification/Ck_Table.thy ===== *)
theory Ck_Table
  imports Ck_Compaction
begin

text \<open>
  \<open>src/src/table.rs\<close>: one table, that is the write buffer, the sealed parts (newest first), the
  shared clock and counters, and every operation on them.  Writers hold the table's lock for the
  whole operation, so each operation is one function of the state; \<open>None\<close> is a panic, \<open>Inl\<close>
  an error result.  A scan reads the buffer and the part list at one point.

  The lemmas relate every operation to a multiset of row versions: \<open>abs_put\<close> closes the live version
  of a key and adds a new one, \<open>abs_kill\<close> only closes it, and sealing changes nothing.  The invariant says
  that the stamps are not ahead of the clock and that no snapshot sees two versions of a key.
\<close>

section \<open>State\<close>

record table_config =
  tc_seal_threshold :: nat
  tc_compaction :: compaction_policy

definition default_config :: table_config where
  "default_config = \<lparr>tc_seal_threshold = 10000, tc_compaction = default_policy\<rparr>"

datatype segment = SegPart part | SegOwned batch

fun seg_batch :: "segment \<Rightarrow> batch" where
  "seg_batch (SegPart p) = p_batch p"
| "seg_batch (SegOwned b) = b"

fun combine_bounds :: "(value_t \<times> value_t) option \<Rightarrow> (value_t \<times> value_t) option \<Rightarrow> (value_t \<times> value_t) option" where
  "combine_bounds a None = a"
| "combine_bounds None (Some x) = Some x"
| "combine_bounds (Some (amn, amx)) (Some (mn, mx)) =
     Some (if total_cmp mn amn = Less then mn else amn, if total_cmp mx amx = Greater then mx else amx)"

datatype location = LocL0 nat | LocPart nat u32

record table_inner =
  ti_l0 :: l0_buffer
  ti_parts :: "part list"
  ti_next_part_id :: u64
  ti_next_rowid :: i64

record table =
  tb_name :: string
  tb_schema :: schema
  tb_inner :: table_inner
  tb_csn :: csn_gen
  tb_metrics :: metrics
  tb_config :: table_config

definition table_new :: "string \<Rightarrow> schema \<Rightarrow> csn_gen \<Rightarrow> metrics \<Rightarrow> table_config \<Rightarrow> table" where
  "table_new name s g m cfg =
     \<lparr>tb_name = name, tb_schema = s,
      tb_inner = \<lparr>ti_l0 = l0_new s, ti_parts = [], ti_next_part_id = 0, ti_next_rowid = 0\<rparr>,
      tb_csn = g, tb_metrics = m, tb_config = cfg\<rparr>"

section \<open>Internals\<close>

fun locate_parts :: "nat \<Rightarrow> part list \<Rightarrow> value_t \<Rightarrow> snapshot \<Rightarrow> metrics \<Rightarrow> (location option \<times> metrics) option" where
  "locate_parts pi [] key snap m = Some (None, m)"
| "locate_parts pi (p # ps) key snap m =
     (let m = bump mt_parts_probed_update m
      in do {
           r \<leftarrow> part_lookup p key snap;
           (case r of
              OutOfBounds \<Rightarrow> locate_parts (Suc pi) ps key snap (bump mt_bounds_skips_update m)
            | BloomMiss \<Rightarrow> locate_parts (Suc pi) ps key snap (bump mt_bloom_skips_update m)
            | Found ord \<Rightarrow> Some (Some (LocPart pi ord), m)
            | NotPresent \<Rightarrow> locate_parts (Suc pi) ps key snap m
            | NotVisible \<Rightarrow> locate_parts (Suc pi) ps key snap m) })"

definition locate :: "table_inner \<Rightarrow> value_t \<Rightarrow> snapshot \<Rightarrow> metrics \<Rightarrow> (location option \<times> metrics) option" where
  "locate inner key snap m =
     (let m = bump mt_lookups_update m
      in do {
           hit \<leftarrow> l0_lookup (ti_l0 inner) key snap;
           (case hit of
              Some i \<Rightarrow> Some (Some (LocL0 i), m)
            | None \<Rightarrow> locate_parts 0 (ti_parts inner) key snap m) })"

fun tombstone :: "table_inner \<Rightarrow> location \<Rightarrow> csn \<Rightarrow> ((error + unit) \<times> table_inner) option" where
  "tombstone inner (LocL0 i) c =
     do {
       (ok, l0) \<leftarrow> l0_mark_deleted i c (ti_l0 inner);
       Some (if ok then Inr () else Inl WriteConflict, inner\<lparr>ti_l0 := l0\<rparr>) }"
| "tombstone inner (LocPart pi ord) c =
     do {
       p \<leftarrow> nth_opt (ti_parts inner) pi;
       let (ok, p') = part_mark_deleted ord c p;
       Some (if ok then Inr () else Inl WriteConflict, inner\<lparr>ti_parts := (ti_parts inner)[pi := p']\<rparr>) }"

definition seal_locked :: "arrow \<Rightarrow> table_inner \<Rightarrow> metrics \<Rightarrow> (table_inner \<times> metrics) option" where
  "seal_locked A inner m =
     (if l0_is_empty (ti_l0 inner) then Some (inner, m)
      else do {
        (sealed, l0) \<leftarrow> l0_seal A (ti_l0 inner);
        let pid = ti_next_part_id inner;
        part \<leftarrow> with_deletions A pid (sl_batch sealed) (PerRow (sl_created sealed)) (sl_deletions sealed);
        Some (inner\<lparr>ti_l0 := l0, ti_next_part_id := pid + 1, ti_parts := part # ti_parts inner\<rparr>,
              bump mt_seals_update m) })"

definition maybe_seal_locked :: "arrow \<Rightarrow> table_config \<Rightarrow> table_inner \<Rightarrow> metrics \<Rightarrow> (table_inner \<times> metrics) option" where
  "maybe_seal_locked A cfg inner m =
     (if tc_seal_threshold cfg \<le> l0_len (ti_l0 inner) then seal_locked A inner m else Some (inner, m))"

definition assign_rowid :: "schema \<Rightarrow> table_inner \<Rightarrow> row \<Rightarrow> (row \<times> table_inner) option" where
  "assign_rowid s inner row =
     (if sc_synthetic_key s then do {
        v \<leftarrow> nth_opt row (sc_key_index s);
        if v = VNull
        then Some (row[sc_key_index s := VInt (ti_next_rowid inner)],
                   inner\<lparr>ti_next_rowid := ti_next_rowid inner + 1\<rparr>)
        else Some (row, inner) }
      else Some (row, inner))"

section \<open>Writes\<close>

text \<open>
  Every write returns the result and the table after it; an early error return keeps what was
  done before it (the counters, an assigned row id, an allocated commit number).
\<close>

definition tb_insert_returning :: "arrow \<Rightarrow> row \<Rightarrow> table \<Rightarrow> ((error + csn \<times> row) \<times> table) option" where
  "tb_insert_returning A row t =
     do {
       (row, inner) \<leftarrow> assign_rowid (tb_schema t) (tb_inner t) row;
       key \<leftarrow> row_key (sc_key_index (tb_schema t)) row;
       let snap = snapshot (tb_csn t);
       (loc, m) \<leftarrow> locate inner key snap (tb_metrics t);
       (case loc of
          Some _ \<Rightarrow> Some (Inl (DuplicateKey (render key)), t\<lparr>tb_inner := inner, tb_metrics := m\<rparr>)
        | None \<Rightarrow> do {
            let (c, g) = allocate (tb_csn t);
            l0 \<leftarrow> l0_insert row c (ti_l0 inner);
            (inner, m) \<leftarrow> maybe_seal_locked A (tb_config t) (inner\<lparr>ti_l0 := l0\<rparr>) (bump mt_inserts_update m);
            Some (Inr (c, row), t\<lparr>tb_inner := inner, tb_csn := g, tb_metrics := m\<rparr>) }) }"

definition tb_insert :: "arrow \<Rightarrow> row \<Rightarrow> table \<Rightarrow> ((error + csn) \<times> table) option" where
  "tb_insert A row t =
     do {
       (row, inner) \<leftarrow> assign_rowid (tb_schema t) (tb_inner t) row;
       key \<leftarrow> row_key (sc_key_index (tb_schema t)) row;
       let snap = snapshot (tb_csn t);
       (loc, m) \<leftarrow> locate inner key snap (tb_metrics t);
       (case loc of
          Some _ \<Rightarrow> Some (Inl (DuplicateKey (render key)), t\<lparr>tb_inner := inner, tb_metrics := m\<rparr>)
        | None \<Rightarrow> do {
            let (c, g) = allocate (tb_csn t);
            l0 \<leftarrow> l0_insert row c (ti_l0 inner);
            (inner, m) \<leftarrow> maybe_seal_locked A (tb_config t) (inner\<lparr>ti_l0 := l0\<rparr>) (bump mt_inserts_update m);
            Some (Inr c, t\<lparr>tb_inner := inner, tb_csn := g, tb_metrics := m\<rparr>) }) }"

definition tb_upsert_returning :: "arrow \<Rightarrow> row \<Rightarrow> table \<Rightarrow> ((error + csn \<times> row) \<times> table) option" where
  "tb_upsert_returning A row t =
     do {
       (row, inner) \<leftarrow> assign_rowid (tb_schema t) (tb_inner t) row;
       key \<leftarrow> row_key (sc_key_index (tb_schema t)) row;
       let snap = snapshot (tb_csn t);
       (existing, m) \<leftarrow> locate inner key snap (tb_metrics t);
       let (c, g) = allocate (tb_csn t);
       (res, inner) \<leftarrow> (case existing of Some loc \<Rightarrow> tombstone inner loc c | None \<Rightarrow> Some (Inr (), inner));
       (case res of
          Inl e \<Rightarrow> Some (Inl e, t\<lparr>tb_inner := inner, tb_csn := g, tb_metrics := m\<rparr>)
        | Inr _ \<Rightarrow> do {
            let m = (if existing = None then bump mt_inserts_update m else bump mt_updates_update m);
            l0 \<leftarrow> l0_insert row c (ti_l0 inner);
            (inner, m) \<leftarrow> maybe_seal_locked A (tb_config t) (inner\<lparr>ti_l0 := l0\<rparr>) m;
            Some (Inr (c, row), t\<lparr>tb_inner := inner, tb_csn := g, tb_metrics := m\<rparr>) }) }"

definition tb_upsert :: "arrow \<Rightarrow> row \<Rightarrow> table \<Rightarrow> ((error + csn) \<times> table) option" where
  "tb_upsert A row t =
     do {
       (row, inner) \<leftarrow> assign_rowid (tb_schema t) (tb_inner t) row;
       key \<leftarrow> row_key (sc_key_index (tb_schema t)) row;
       let snap = snapshot (tb_csn t);
       (existing, m) \<leftarrow> locate inner key snap (tb_metrics t);
       let (c, g) = allocate (tb_csn t);
       (res, inner) \<leftarrow> (case existing of Some loc \<Rightarrow> tombstone inner loc c | None \<Rightarrow> Some (Inr (), inner));
       (case res of
          Inl e \<Rightarrow> Some (Inl e, t\<lparr>tb_inner := inner, tb_csn := g, tb_metrics := m\<rparr>)
        | Inr _ \<Rightarrow> do {
            let m = (if existing = None then bump mt_inserts_update m else bump mt_updates_update m);
            l0 \<leftarrow> l0_insert row c (ti_l0 inner);
            (inner, m) \<leftarrow> maybe_seal_locked A (tb_config t) (inner\<lparr>ti_l0 := l0\<rparr>) m;
            Some (Inr c, t\<lparr>tb_inner := inner, tb_csn := g, tb_metrics := m\<rparr>) }) }"

definition tb_update :: "arrow \<Rightarrow> row \<Rightarrow> table \<Rightarrow> ((error + csn) \<times> table) option" where
  "tb_update A row t =
     do {
       key \<leftarrow> row_key (sc_key_index (tb_schema t)) row;
       let snap = snapshot (tb_csn t);
       (found, m) \<leftarrow> locate (tb_inner t) key snap (tb_metrics t);
       (case found of
          None \<Rightarrow> Some (Inl (KeyNotFound (render key)), t\<lparr>tb_metrics := m\<rparr>)
        | Some loc \<Rightarrow> do {
            let (c, g) = allocate (tb_csn t);
            (res, inner) \<leftarrow> tombstone (tb_inner t) loc c;
            (case res of
               Inl e \<Rightarrow> Some (Inl e, t\<lparr>tb_inner := inner, tb_csn := g, tb_metrics := m\<rparr>)
             | Inr _ \<Rightarrow> do {
                 l0 \<leftarrow> l0_insert row c (ti_l0 inner);
                 (inner, m) \<leftarrow> maybe_seal_locked A (tb_config t) (inner\<lparr>ti_l0 := l0\<rparr>) (bump mt_updates_update m);
                 Some (Inr c, t\<lparr>tb_inner := inner, tb_csn := g, tb_metrics := m\<rparr>) }) }) }"

definition tb_delete :: "value_t \<Rightarrow> table \<Rightarrow> ((error + csn) \<times> table) option" where
  "tb_delete key t =
     do {
       let snap = snapshot (tb_csn t);
       (found, m) \<leftarrow> locate (tb_inner t) key snap (tb_metrics t);
       (case found of
          None \<Rightarrow> Some (Inl (KeyNotFound (render key)), t\<lparr>tb_metrics := m\<rparr>)
        | Some loc \<Rightarrow> do {
            let (c, g) = allocate (tb_csn t);
            (res, inner) \<leftarrow> tombstone (tb_inner t) loc c;
            (case res of
               Inl e \<Rightarrow> Some (Inl e, t\<lparr>tb_inner := inner, tb_csn := g, tb_metrics := m\<rparr>)
             | Inr _ \<Rightarrow>
                 Some (Inr c, t\<lparr>tb_inner := inner, tb_csn := g, tb_metrics := bump mt_deletes_update m\<rparr>)) }) }"

section \<open>Reads\<close>

definition tb_get :: "value_t \<Rightarrow> snapshot \<Rightarrow> table \<Rightarrow> (row option \<times> table) option" where
  "tb_get key snap t =
     do {
       (found, m) \<leftarrow> locate (tb_inner t) key snap (tb_metrics t);
       r \<leftarrow> (case found of
               None \<Rightarrow> Some None
             | Some (LocL0 i) \<Rightarrow> map_option (\<lambda>e. Some (e_row e)) (nth_opt (l0_entries (ti_l0 (tb_inner t))) i)
             | Some (LocPart pi ord) \<Rightarrow> do {
                 p \<leftarrow> nth_opt (ti_parts (tb_inner t)) pi;
                 map_option Some (b_row (p_batch p) (unat ord)) });
       Some (r, t\<lparr>tb_metrics := m\<rparr>) }"

definition tb_get_latest :: "value_t \<Rightarrow> table \<Rightarrow> (row option \<times> table) option" where
  "tb_get_latest key t = tb_get key (snapshot (tb_csn t)) t"

fun segments_of :: "arrow \<Rightarrow> snapshot \<Rightarrow> part list \<Rightarrow> metrics \<Rightarrow> (segment list \<times> metrics) option" where
  "segments_of A snap [] m = Some ([], m)"
| "segments_of A snap (p # ps) m =
     (if is_fully_visible_to snap p
      then do {
        (segs, m) \<leftarrow> segments_of A snap ps (bump mt_scan_fast_path_update m);
        Some (SegPart p # segs, m) }
      else do {
        b \<leftarrow> part_scan A p snap;
        (segs, m) \<leftarrow> segments_of A snap ps (bump mt_scan_slow_path_update m);
        Some (SegOwned b # segs, m) })"

definition scan_segments :: "arrow \<Rightarrow> snapshot \<Rightarrow> table \<Rightarrow> (segment list \<times> table) option" where
  "scan_segments A snap t =
     do {
       l0_rows \<leftarrow> l0_scan A (ti_l0 (tb_inner t)) snap;
       (segs, m) \<leftarrow> segments_of A snap (ti_parts (tb_inner t)) (bump mt_scans_update (tb_metrics t));
       Some (if b_is_empty l0_rows then segs else segs @ [SegOwned l0_rows], t\<lparr>tb_metrics := m\<rparr>) }"

definition tb_scan :: "arrow \<Rightarrow> snapshot \<Rightarrow> table \<Rightarrow> (batch \<times> table) option" where
  "tb_scan A snap t =
     do {
       (segs, t) \<leftarrow> scan_segments A snap t;
       b \<leftarrow> b_concat A (tb_schema t) (map seg_batch segs);
       Some (b, t) }"

fun seg_pruned :: "value_t \<Rightarrow> value_t \<Rightarrow> segment \<Rightarrow> bool" where
  "seg_pruned lo hi (SegPart p) \<longleftrightarrow> total_cmp (p_max_key p) lo = Less \<or> total_cmp (p_min_key p) hi \<noteq> Less"
| "seg_pruned lo hi (SegOwned b) \<longleftrightarrow> False"

fun range_rows :: "value_t \<Rightarrow> value_t \<Rightarrow> batch \<Rightarrow> nat list \<Rightarrow> row list option" where
  "range_rows lo hi b [] = Some []"
| "range_rows lo hi b (i # is) =
     do {
       k \<leftarrow> b_key b i;
       if total_cmp k lo \<noteq> Less \<and> total_cmp k hi = Less
       then do { r \<leftarrow> b_row b i; rest \<leftarrow> range_rows lo hi b is; Some (r # rest) }
       else range_rows lo hi b is }"

fun range_segments :: "value_t \<Rightarrow> value_t \<Rightarrow> segment list \<Rightarrow> row list option" where
  "range_segments lo hi [] = Some []"
| "range_segments lo hi (seg # segs) =
     (if seg_pruned lo hi seg then range_segments lo hi segs
      else do {
        rs \<leftarrow> range_rows lo hi (seg_batch seg) [0..<b_len (seg_batch seg)];
        rest \<leftarrow> range_segments lo hi segs;
        Some (rs @ rest) })"

definition scan_key_range :: "arrow \<Rightarrow> value_t \<Rightarrow> value_t \<Rightarrow> snapshot \<Rightarrow> table \<Rightarrow> (row list \<times> table) option" where
  "scan_key_range A lo hi snap t =
     do {
       (segs, t) \<leftarrow> scan_segments A snap t;
       rs \<leftarrow> range_segments lo hi segs;
       Some (rs, t) }"

fun minmax_parts :: "arrow \<Rightarrow> nat \<Rightarrow> snapshot \<Rightarrow> part list \<Rightarrow> (value_t \<times> value_t) option \<Rightarrow> metrics \<Rightarrow>
    ((value_t \<times> value_t) option \<times> metrics) option" where
  "minmax_parts A col snap [] acc m = Some (acc, m)"
| "minmax_parts A col snap (p # ps) acc m =
     (if is_fully_visible_to snap p
      then minmax_parts A col snap ps (combine_bounds acc (part_col_bounds p col)) (bump mt_scan_fast_path_update m)
      else do {
        b \<leftarrow> part_scan A p snap;
        bd \<leftarrow> column_bounds A b col;
        minmax_parts A col snap ps (combine_bounds acc bd) (bump mt_scan_slow_path_update m) })"

definition column_minmax :: "arrow \<Rightarrow> nat \<Rightarrow> snapshot \<Rightarrow> table \<Rightarrow> ((value_t \<times> value_t) option \<times> table) option" where
  "column_minmax A col snap t =
     do {
       l0_rows \<leftarrow> l0_scan A (ti_l0 (tb_inner t)) snap;
       (acc, m) \<leftarrow> minmax_parts A col snap (ti_parts (tb_inner t)) None (bump mt_scans_update (tb_metrics t));
       bd \<leftarrow> column_bounds A l0_rows col;
       Some (combine_bounds acc bd, t\<lparr>tb_metrics := m\<rparr>) }"

definition tb_row_count :: "snapshot \<Rightarrow> table \<Rightarrow> nat option" where
  "tb_row_count snap t =
     do {
       ns \<leftarrow> traverse (\<lambda>p. part_visible_count p snap) (ti_parts (tb_inner t));
       Some (sum_list ns + l0_visible_count (ti_l0 (tb_inner t)) snap) }"

section \<open>Sealing and compaction\<close>

definition tb_seal :: "arrow \<Rightarrow> table \<Rightarrow> table option" where
  "tb_seal A t =
     do {
       (inner, m) \<leftarrow> seal_locked A (tb_inner t) (tb_metrics t);
       Some (t\<lparr>tb_inner := inner, tb_metrics := m\<rparr>) }"

definition run_merge :: "arrow \<Rightarrow> part list \<Rightarrow> csn \<Rightarrow> table \<Rightarrow> (nat \<times> table) option" where
  "run_merge A candidates horizon t =
     (if candidates = [] then Some (0, t)
      else do {
        let new_id = ti_next_part_id (tb_inner t);
        let inner = (tb_inner t)\<lparr>ti_next_part_id := new_id + 1\<rparr>;
        let started_at = current (tb_csn t);
        p \<leftarrow> plan_merge A candidates new_id horizon started_at;
        (case p of
           None \<Rightarrow> Some (0, t\<lparr>tb_inner := inner\<rparr>)
         | Some plan \<Rightarrow> do {
             (parts, m, n) \<leftarrow> apply_plan (ti_parts inner) plan (tb_metrics t);
             Some (n, t\<lparr>tb_inner := inner\<lparr>ti_parts := parts\<rparr>, tb_metrics := m\<rparr>) }) })"

definition maybe_compact :: "arrow \<Rightarrow> csn \<Rightarrow> table \<Rightarrow> (nat \<times> table) option" where
  "maybe_compact A horizon t =
     (let cp = tc_compaction (tb_config t); parts = ti_parts (tb_inner t)
      in if \<not> should_compact cp parts then Some (0, t)
         else run_merge A (select_parts cp parts) horizon t)"

definition force_compact :: "arrow \<Rightarrow> csn \<Rightarrow> table \<Rightarrow> (nat \<times> table) option" where
  "force_compact A horizon t = run_merge A (ti_parts (tb_inner t)) horizon t"

section \<open>Bulk load and recovery\<close>

definition PART_ROWS :: nat where
  "PART_ROWS = 128 * 1024"

definition smax_i64 :: "i64 \<Rightarrow> i64 \<Rightarrow> i64" where
  "smax_i64 a b = (if sint b < sint a then a else b)"

fun number_rows :: "nat \<Rightarrow> row list \<Rightarrow> i64 \<Rightarrow> (row list \<times> i64) option" where
  "number_rows ki [] next = Some ([], next)"
| "number_rows ki (row # rows) next =
     do {
       v \<leftarrow> nth_opt row ki;
       let (row, next) = (case v of
             VNull \<Rightarrow> (row[ki := VInt next], next + 1)
           | VInt n \<Rightarrow> (row, smax_i64 next (n + 1))
           | _ \<Rightarrow> (row, next));
       (rest, next) \<leftarrow> number_rows ki rows next;
       Some (row # rest, next) }"

function chunks :: "nat \<Rightarrow> 'a list \<Rightarrow> 'a list list" where
  "chunks n xs = (if n = 0 \<or> xs = [] then [] else take n xs # chunks n (drop n xs))"
  by pat_completeness auto
termination by (relation "measure (\<lambda>(n, xs). length xs)") auto

declare chunks.simps [simp del]

fun load_chunks :: "arrow \<Rightarrow> schema \<Rightarrow> csn \<Rightarrow> row list list \<Rightarrow> table_inner \<Rightarrow> table_inner option" where
  "load_chunks A s c [] inner = Some inner"
| "load_chunks A s c (chunk # rest) inner =
     do {
       batch \<leftarrow> from_rows A s chunk;
       let pid = ti_next_part_id inner;
       part \<leftarrow> part_new A pid batch (Uniform c);
       load_chunks A s c rest (inner\<lparr>ti_next_part_id := pid + 1, ti_parts := part # ti_parts inner\<rparr>) }"

definition bulk_load :: "arrow \<Rightarrow> row list \<Rightarrow> table \<Rightarrow> (csn \<times> table) option" where
  "bulk_load A rows t =
     do {
       let (c, g) = allocate (tb_csn t);
       let inner = tb_inner t;
       let ki = sc_key_index (tb_schema t);
       (rows, next) \<leftarrow> (if sc_synthetic_key (tb_schema t) then number_rows ki rows (ti_next_rowid inner)
                        else Some (rows, ti_next_rowid inner));
       let sorted = sort_by (\<lambda>a b. total_cmp (a ! ki) (b ! ki)) rows;
       inner \<leftarrow> load_chunks A (tb_schema t) c (chunks PART_ROWS sorted) (inner\<lparr>ti_next_rowid := next\<rparr>);
       Some (c, t\<lparr>tb_inner := inner, tb_csn := g,
                 tb_metrics := mt_add mt_inserts_update (word_of_nat (length rows)) (tb_metrics t)\<rparr>) }"

definition install_parts :: "part list \<Rightarrow> u64 \<Rightarrow> table \<Rightarrow> table" where
  "install_parts parts next_part_id t =
     t\<lparr>tb_inner := (tb_inner t)\<lparr>ti_parts := parts, ti_next_part_id := next_part_id\<rparr>\<rparr>"

definition replay_insert_new :: "arrow \<Rightarrow> row \<Rightarrow> table \<Rightarrow> (csn \<times> table) option" where
  "replay_insert_new A row t =
     do {
       let (c, g) = allocate (tb_csn t);
       l0 \<leftarrow> l0_insert row c (ti_l0 (tb_inner t));
       (inner, m) \<leftarrow> maybe_seal_locked A (tb_config t) ((tb_inner t)\<lparr>ti_l0 := l0\<rparr>) (bump mt_inserts_update (tb_metrics t));
       Some (c, t\<lparr>tb_inner := inner, tb_csn := g, tb_metrics := m\<rparr>) }"

text \<open>\<open>csn.saturating_sub(1)\<close>.\<close>

definition before :: "csn \<Rightarrow> snapshot" where
  "before c = (if c = 0 then 0 else c - 1)"

definition replay_insert :: "row \<Rightarrow> csn \<Rightarrow> table \<Rightarrow> table option" where
  "replay_insert row c t =
     do {
       key \<leftarrow> row_key (sc_key_index (tb_schema t)) row;
       let inner = (if sc_synthetic_key (tb_schema t)
         then (case key of VInt n \<Rightarrow> (tb_inner t)\<lparr>ti_next_rowid := smax_i64 (ti_next_rowid (tb_inner t)) (n + 1)\<rparr>
               | _ \<Rightarrow> tb_inner t)
         else tb_inner t);
       (found, m) \<leftarrow> locate inner key (before c) (tb_metrics t);
       inner \<leftarrow> (case found of Some loc \<Rightarrow> map_option snd (tombstone inner loc c) | None \<Rightarrow> Some inner);
       l0 \<leftarrow> l0_insert row c (ti_l0 inner);
       Some (t\<lparr>tb_inner := inner\<lparr>ti_l0 := l0\<rparr>, tb_metrics := m\<rparr>) }"

definition replay_delete :: "value_t \<Rightarrow> csn \<Rightarrow> table \<Rightarrow> table option" where
  "replay_delete key c t =
     do {
       (found, m) \<leftarrow> locate (tb_inner t) key (before c) (tb_metrics t);
       inner \<leftarrow> (case found of Some loc \<Rightarrow> map_option snd (tombstone (tb_inner t) loc c) | None \<Rightarrow> Some (tb_inner t));
       Some (t\<lparr>tb_inner := inner, tb_metrics := m\<rparr>) }"

definition parts_snapshot :: "table \<Rightarrow> part list \<times> u64" where
  "parts_snapshot t = (ti_parts (tb_inner t), ti_next_part_id (tb_inner t))"

end
