(* ===== verification/Ck_Mvcc.thy ===== *)
theory Ck_Mvcc
  imports Ck_Compaction
begin

text \<open>
  The abstract multi-version store that the tables implement: a multiset of row versions, each the row
  with the commit numbers that created and deleted it.  A write closes the live
  version of its key (\<open>abs_kill\<close>) and may add a new one (\<open>abs_put\<close>), both stamped with a commit number
  above every stamp in the store.  The lemmas show what a snapshot sees after a write and that the
  store's invariant is kept; the locale at the end gives repeatable reads for any implementation whose
  steps respect the past.
\<close>

section \<open>Versions and writes\<close>

fun close_version :: "nat \<Rightarrow> value_t \<Rightarrow> csn \<Rightarrow> version \<Rightarrow> version" where
  "close_version ki key c (r, cr, d) = (if r ! ki = key \<and> d = NEVER_DELETED then (r, cr, c) else (r, cr, d))"

definition abs_kill :: "nat \<Rightarrow> value_t \<Rightarrow> csn \<Rightarrow> version multiset \<Rightarrow> version multiset" where
  "abs_kill ki key c M = image_mset (close_version ki key c) M"

definition abs_put :: "nat \<Rightarrow> row \<Rightarrow> csn \<Rightarrow> version multiset \<Rightarrow> version multiset" where
  "abs_put ki r c M = add_mset (r, c, NEVER_DELETED) (abs_kill ki (r ! ki) c M)"

text \<open>The versions of a key that a snapshot sees.\<close>

definition seen :: "nat \<Rightarrow> value_t \<Rightarrow> snapshot \<Rightarrow> version multiset \<Rightarrow> version multiset" where
  "seen ki key snap M = filter_mset (\<lambda>v. fst v ! ki = key \<and> version_sees snap v) M"

definition stamped :: "csn \<Rightarrow> version multiset \<Rightarrow> bool" where
  "stamped n M \<longleftrightarrow> (\<forall>(r, c, d) \<in># M. c \<le> n \<and> (d = NEVER_DELETED \<or> d \<le> n))"

text \<open>
  The invariant, for the commit number \<open>n\<close> reached and the number \<open>f\<close> below which history may have been
  reclaimed: no stamp is ahead of \<open>n\<close>, and no snapshot from \<open>f\<close> on sees two versions of a key.
\<close>

definition store_ok :: "nat \<Rightarrow> csn \<Rightarrow> csn \<Rightarrow> version multiset \<Rightarrow> bool" where
  "store_ok ki f n M \<longleftrightarrow>
     f \<le> n \<and> n \<noteq> NEVER_DELETED \<and> stamped n M \<and> (\<forall>key snap. f \<le> snap \<longrightarrow> size (seen ki key snap M) \<le> 1)"

lemma NEVER_not_less [simp]: "\<not> NEVER_DELETED < (c :: csn)"
  using le_NEVER_DELETED [of c] by (simp add: not_less)

lemma seen_union: "seen ki key snap (M + N) = seen ki key snap M + seen ki key snap N"
  by (simp add: seen_def)

lemma seen_add: "seen ki key snap (add_mset v M) =
    (if fst v ! ki = key \<and> version_sees snap v then add_mset v (seen ki key snap M) else seen ki key snap M)"
  by (simp add: seen_def)

lemma seen_empty_iff: "seen ki key snap M = {#} \<longleftrightarrow> (\<forall>v \<in># M. fst v ! ki = key \<longrightarrow> \<not> version_sees snap v)"
  by (auto simp: seen_def simp flip: set_mset_eq_empty_iff)

lemma mem_seen: "v \<in># seen ki key snap M \<longleftrightarrow> v \<in># M \<and> fst v ! ki = key \<and> version_sees snap v"
  by (simp add: seen_def)

lemma seen_unique:
  assumes "store_ok ki f n M" "v \<in># seen ki key snap M" "f \<le> snap"
  shows "seen ki key snap M = {#v#}"
proof -
  have "size (seen ki key snap M) \<le> 1" using assms(1,3) by (simp add: store_ok_def)
  moreover obtain N where "seen ki key snap M = add_mset v N" using assms(2) by (metis insert_DiffM)
  ultimately show ?thesis by simp
qed

text \<open>At the newest commit number, seen means never deleted.\<close>

lemma sees_now:
  assumes "stamped n M" "(r, c, d) \<in># M" "n \<noteq> NEVER_DELETED"
  shows "sees n c d \<longleftrightarrow> d = NEVER_DELETED"
  using assms by (auto simp: stamped_def sees_def less_NEVER_DELETED)

lemma seen_now: "store_ok ki f n M \<Longrightarrow> v \<in># M \<Longrightarrow> version_sees n v \<longleftrightarrow> snd (snd v) = NEVER_DELETED"
  using sees_now [of n M "fst v" "fst (snd v)" "snd (snd v)"] by (cases v) (simp add: store_ok_def)

lemma close_version_id: "\<not> (fst v ! ki = key \<and> snd (snd v) = NEVER_DELETED) \<Longrightarrow> close_version ki key c v = v"
  by (cases v) auto

lemma fst_close_version [simp]: "fst (close_version ki key c v) = fst v"
  by (cases v) simp

text \<open>Closing a key when the only live version of it is \<open>(r, cr)\<close>.\<close>

lemma abs_kill_none: "seen ki key n M = {#} \<Longrightarrow> store_ok ki f n M \<Longrightarrow> abs_kill ki key c M = M"
  unfolding abs_kill_def using seen_now [of ki f n M]
  by (subst multiset.map_cong [where g = id, OF refl]) (auto simp: seen_empty_iff close_version_id)

lemma abs_kill_one:
  assumes "store_ok ki f n M" "(r, cr, NEVER_DELETED) \<in># M" "r ! ki = key"
  shows "abs_kill ki key c M = add_mset (r, cr, c) (M - {#(r, cr, NEVER_DELETED)#})"
proof -
  let ?v = "(r, cr, NEVER_DELETED)" and ?N = "M - {#(r, cr, NEVER_DELETED)#}"
  have M: "M = add_mset ?v ?N" using assms(2) by simp
  have "?v \<in># seen ki key n M" using assms seen_now [OF assms(1,2)] by (simp add: mem_seen)
  then have "seen ki key n M = {#?v#}" by (rule seen_unique [OF assms(1)]) (use assms(1) in \<open>simp add: store_ok_def\<close>)
  moreover have "seen ki key n M = add_mset ?v (seen ki key n ?N)"
    by (subst M, subst seen_add) (use assms seen_now [OF assms(1,2)] in simp)
  ultimately have N: "seen ki key n ?N = {#}" by simp
  have "\<forall>v \<in># ?N. \<not> (fst v ! ki = key \<and> snd (snd v) = NEVER_DELETED)"
    using N seen_now [OF assms(1) in_diffD] unfolding seen_empty_iff by blast
  then have "abs_kill ki key c ?N = ?N"
    unfolding abs_kill_def by (subst multiset.map_cong [where g = id, OF refl]) (auto simp: close_version_id)
  then show ?thesis using assms(3) by (subst M) (simp add: abs_kill_def)
qed

section \<open>What a write changes\<close>

lemma version_sees_close:
  assumes "stamped n M" "n < c" "c \<noteq> NEVER_DELETED" "v \<in># M"
  shows "version_sees snap (close_version ki key c v) \<longleftrightarrow>
    version_sees snap v \<and> \<not> (c \<le> snap \<and> fst v ! ki = key \<and> snd (snd v) = NEVER_DELETED)"
  using assms by (cases v) (auto simp: sees_def stamped_def less_NEVER_DELETED)

lemma seen_kill:
  assumes "stamped n M" "n < c" "c \<noteq> NEVER_DELETED"
  shows "seen ki k snap (abs_kill ki key c M) = image_mset (close_version ki key c)
    (filter_mset (\<lambda>v. \<not> (c \<le> snap \<and> fst v ! ki = key \<and> snd (snd v) = NEVER_DELETED)) (seen ki k snap M))"
proof -
  have "filter_mset (\<lambda>v. fst v ! ki = k \<and> version_sees snap (close_version ki key c v)) M =
      filter_mset (\<lambda>v. \<not> (c \<le> snap \<and> fst v ! ki = key \<and> snd (snd v) = NEVER_DELETED)) (seen ki k snap M)"
    unfolding seen_def filter_filter_mset
    by (rule filter_mset_cong [OF refl]) (use version_sees_close [OF assms] in blast)
  then show ?thesis by (simp add: seen_def abs_kill_def filter_mset_image_mset)
qed

lemma view_kill:
  assumes "stamped n M" "n < c" "c \<noteq> NEVER_DELETED"
  shows "view snap (abs_kill ki key c M) = image_mset fst
    (filter_mset (\<lambda>v. version_sees snap v \<and> \<not> (c \<le> snap \<and> fst v ! ki = key \<and> snd (snd v) = NEVER_DELETED)) M)"
proof -
  have "filter_mset (\<lambda>v. version_sees snap (close_version ki key c v)) M =
      filter_mset (\<lambda>v. version_sees snap v \<and> \<not> (c \<le> snap \<and> fst v ! ki = key \<and> snd (snd v) = NEVER_DELETED)) M"
    by (rule filter_mset_cong [OF refl]) (use version_sees_close [OF assms] in blast)
  then show ?thesis by (simp add: view_def abs_kill_def filter_mset_image_mset multiset.map_comp comp_def)
qed

text \<open>A snapshot taken before the write sees what it saw.\<close>

lemma view_kill_past:
  assumes "stamped n M" "n < c" "c \<noteq> NEVER_DELETED" "snap < c"
  shows "view snap (abs_kill ki key c M) = view snap M"
  using view_kill [OF assms(1-3)] assms(4) by (simp add: view_def not_le)

lemma view_put_past:
  assumes "stamped n M" "n < c" "c \<noteq> NEVER_DELETED" "snap < c"
  shows "view snap (abs_put ki r c M) = view snap M"
  using view_kill_past [OF assms] assms(4) by (simp add: abs_put_def view_add sees_def not_le)

text \<open>At its own commit number a write has replaced the rows of its key, and only those.\<close>

lemma view_kill_now:
  assumes "store_ok ki f n M" "n < c" "c \<noteq> NEVER_DELETED"
  shows "view c (abs_kill ki key c M) = filter_mset (\<lambda>r. r ! ki \<noteq> key) (view n M)"
proof -
  have s: "stamped n M" and n: "n \<noteq> NEVER_DELETED" using assms(1) by (auto simp: store_ok_def)
  have "version_sees c v \<longleftrightarrow> version_sees n v" if "v \<in># M" for v
    using that s assms(2,3) n by (cases v) (auto simp: stamped_def sees_def less_NEVER_DELETED not_less dest: order.strict_implies_order order_trans)
  then have "filter_mset (\<lambda>v. version_sees c v \<and> \<not> (c \<le> c \<and> fst v ! ki = key \<and> snd (snd v) = NEVER_DELETED)) M =
      filter_mset (\<lambda>v. fst v ! ki \<noteq> key) (filter_mset (version_sees n) M)"
    unfolding filter_filter_mset using seen_now [OF assms(1)] by (intro filter_mset_cong refl) auto
  then show ?thesis unfolding view_kill [OF s assms(2,3)] by (simp add: view_def filter_mset_image_mset)
qed

lemma view_put_now:
  assumes "store_ok ki f n M" "n < c" "c \<noteq> NEVER_DELETED"
  shows "view c (abs_put ki r c M) = add_mset r (filter_mset (\<lambda>r'. r' ! ki \<noteq> r ! ki) (view n M))"
  using view_kill_now [OF assms] assms(3) by (simp add: abs_put_def view_add sees_live)

section \<open>The invariant is kept\<close>

lemma stamped_mono: "stamped n M \<Longrightarrow> n \<le> n' \<Longrightarrow> stamped n' M"
  by (fastforce simp: stamped_def)

lemma store_ok_mono: "store_ok ki f n M \<Longrightarrow> n \<le> n' \<Longrightarrow> n' \<noteq> NEVER_DELETED \<Longrightarrow> store_ok ki f n' M"
  using stamped_mono by (auto simp: store_ok_def)

lemma store_ok_empty: "f \<le> n \<Longrightarrow> n \<noteq> NEVER_DELETED \<Longrightarrow> store_ok ki f n {#}"
  by (simp add: store_ok_def stamped_def seen_def)

lemma stamped_kill:
  assumes "stamped n M" "n < c"
  shows "stamped c (abs_kill ki key c M)"
proof -
  have "c' \<le> c" if "c' \<le> n" for c' using that assms(2) by (meson order.strict_implies_order order_trans)
  then show ?thesis using assms(1) by (auto simp: stamped_def abs_kill_def split: if_splits)
qed

lemma store_ok_kill:
  assumes "store_ok ki f n M" "n < c" "c \<noteq> NEVER_DELETED"
  shows "store_ok ki f c (abs_kill ki key c M)"
proof -
  have s: "stamped n M" using assms(1) by (simp add: store_ok_def)
  have "size (seen ki k snap (abs_kill ki key c M)) \<le> 1" if "f \<le> snap" for k snap
  proof -
    have "size (seen ki k snap M) \<le> 1" using assms(1) that by (simp add: store_ok_def)
    then show ?thesis unfolding seen_kill [OF s assms(2,3)] size_image_mset
      by (rule order_trans [OF size_filter_mset_lesseq])
  qed
  moreover have "f \<le> c" using assms(1,2) by (auto simp: store_ok_def)
  ultimately show ?thesis using stamped_kill [OF s assms(2)] assms(3) by (simp add: store_ok_def)
qed

text \<open>Adding a version needs that no live version of its key is left.\<close>

lemma seen_kill_from:
  assumes "store_ok ki f n M" "n < c" "c \<noteq> NEVER_DELETED" "c \<le> snap"
  shows "seen ki key snap (abs_kill ki key c M) = {#}"
proof -
  have s: "stamped n M" using assms(1) by (simp add: store_ok_def)
  have "\<not> (version_sees snap v \<and> snd (snd v) \<noteq> NEVER_DELETED)" if "v \<in># M" for v
  proof (cases v)
    case (fields r cr d)
    then have "d = NEVER_DELETED \<or> d \<le> n" using that s by (auto simp: stamped_def)
    moreover have "d \<le> n \<Longrightarrow> \<not> snap < d" using assms(2,4) by (metis leD order.strict_trans2 order.strict_implies_order)
    ultimately show ?thesis using fields by (auto simp: sees_def)
  qed
  then show ?thesis unfolding seen_kill [OF s assms(2,3)] using assms(4)
    by (auto simp: mem_seen simp flip: set_mset_eq_empty_iff)
qed

lemma store_ok_put:
  assumes "store_ok ki f n M" "n < c" "c \<noteq> NEVER_DELETED"
  shows "store_ok ki f c (abs_put ki r c M)"
proof -
  note k = store_ok_kill [OF assms, of "r ! ki"]
  have "size (seen ki key snap (abs_put ki r c M)) \<le> 1" if "f \<le> snap" for key snap
  proof (cases "key = r ! ki \<and> sees snap c NEVER_DELETED")
    case True
    then have "seen ki key snap (abs_kill ki (r ! ki) c M) = {#}"
      using seen_kill_from [OF assms, of snap] by (simp add: sees_def)
    then show ?thesis using True by (auto simp: abs_put_def seen_add)
  next
    case False
    then have "seen ki key snap (abs_put ki r c M) = seen ki key snap (abs_kill ki (r ! ki) c M)"
      by (auto simp: abs_put_def seen_add)
    then show ?thesis using k that by (simp add: store_ok_def)
  qed
  then show ?thesis using k assms(3) by (auto simp: store_ok_def stamped_def abs_put_def)
qed

text \<open>A rewrite of the store that no snapshot from \<open>h\<close> on can tell apart keeps the invariant from \<open>h\<close> on.\<close>

lemma size_seen_view: "size (seen ki key snap M) = size (filter_mset (\<lambda>r. r ! ki = key) (view snap M))"
  by (simp add: seen_def view_def filter_mset_image_mset filter_filter_mset conj_commute)

lemma store_ok_transfer:
  assumes "store_ok ki f n M" "stamped n M'" "h \<le> n"
    "\<And>snap. h \<le> snap \<Longrightarrow> snap \<noteq> NEVER_DELETED \<Longrightarrow> view snap M' = view snap M"
  shows "store_ok ki (max f h) n M'"
proof -
  have "size (seen ki key snap M') \<le> 1" if "max f h \<le> snap" for key snap
  proof (cases "snap = NEVER_DELETED")
    case True
    then have "seen ki key snap M' = {#}" by (auto simp: seen_empty_iff sees_def)
    then show ?thesis by simp
  next
    case False
    then show ?thesis using assms(1,4) that by (simp add: store_ok_def size_seen_view)
  qed
  then show ?thesis using assms(1-3) by (simp add: store_ok_def)
qed

section \<open>Repeatable reads\<close>

text \<open>
  What a store has to promise for repeatable reads: its steps keep an invariant, and a step does not change what a
  snapshot sees that is pinned when the step starts.  Then a snapshot that stays pinned sees the same rows for
  the whole run.
\<close>

locale snapshot_store =
  fixes step :: "'s \<Rightarrow> 's \<Rightarrow> bool"
    and ok :: "'s \<Rightarrow> bool"
    and pinned :: "'s \<Rightarrow> csn set"
    and rows :: "csn \<Rightarrow> 's \<Rightarrow> row multiset"
  assumes step_ok: "ok s \<Longrightarrow> step s s' \<Longrightarrow> ok s'"
    and step_rows: "ok s \<Longrightarrow> step s s' \<Longrightarrow> c \<in> pinned s \<Longrightarrow> rows c s' = rows c s"
begin

lemma reachable_ok: "step\<^sup>*\<^sup>* s s' \<Longrightarrow> ok s \<Longrightarrow> ok s'"
  by (induction rule: rtranclp_induct) (auto intro: step_ok)

lemma repeatable:
  assumes "(\<lambda>a b. step a b \<and> c \<in> pinned b)\<^sup>*\<^sup>* s s'" "ok s" "c \<in> pinned s"
  shows "ok s' \<and> c \<in> pinned s' \<and> rows c s' = rows c s"
  using assms
proof (induction rule: rtranclp_induct)
  case (step a b)
  then show ?case using step_ok [of a b] step_rows [of a b c] by simp
qed simp

end

end
