(* ===== verification/Ck_TableOk.thy ===== *)
theory Ck_TableOk
  imports Ck_Table Ck_Mvcc
begin

text \<open>
  Correctness of \<open>src/src/table.rs\<close>: every operation of a table is the corresponding operation of
  the abstract version store, keeps the table's invariant and never panics on it.
\<close>

section \<open>The invariant and the versions of a table\<close>

definition ti_versions :: "table_inner \<Rightarrow> version multiset" where
  "ti_versions inner = mset (map entry_version (l0_entries (ti_l0 inner))) + versions_of (ti_parts inner)"

definition inner_ok :: "schema \<Rightarrow> table_inner \<Rightarrow> bool" where
  "inner_ok s inner \<longleftrightarrow>
     schema_ok s \<and> decimals_ok s \<and> (sc_synthetic_key s \<longrightarrow> key_ty s = TInt) \<and>
     l0_ok (ti_l0 inner) \<and> l0_schema (ti_l0 inner) = s \<and>
     (\<forall>p \<in> set (ti_parts inner). part_ok p \<and> p_schema p = s \<and> dv_clean p \<and> p_id p < ti_next_part_id inner) \<and>
     distinct (map p_id (ti_parts inner))"

section \<open>Locating a key\<close>

fun loc_ok :: "table_inner \<Rightarrow> location \<Rightarrow> bool" where
  "loc_ok inner (LocL0 i) \<longleftrightarrow> i < length (l0_entries (ti_l0 inner))"
| "loc_ok inner (LocPart pi ord) \<longleftrightarrow> pi < length (ti_parts inner) \<and> unat ord < b_len (p_batch (ti_parts inner ! pi))"

fun loc_version :: "table_inner \<Rightarrow> location \<Rightarrow> version" where
  "loc_version inner (LocL0 i) = entry_version (l0_entries (ti_l0 inner) ! i)"
| "loc_version inner (LocPart pi ord) = part_versions (ti_parts inner ! pi) ! unat ord"

lemma length_part_versions [simp]: "length (part_versions p) = b_len (p_batch p)"
  by (simp add: part_versions_def)

lemma mem_versions_of: "v \<in># versions_of ps \<longleftrightarrow> (\<exists>p \<in> set ps. v \<in> set (part_versions p))"
  by (induction ps) auto

lemma loc_version_mem: "loc_ok inner l \<Longrightarrow> loc_version inner l \<in># ti_versions inner"
proof (cases l)
  case (LocPart pi ord)
  moreover assume "loc_ok inner l"
  ultimately show ?thesis unfolding ti_versions_def
    by (auto simp: mem_versions_of intro!: bexI [of _ "ti_parts inner ! pi"] nth_mem)
qed (auto simp: ti_versions_def)

lemma part_version_nth:
  assumes "i < b_len (p_batch p)"
  shows "part_versions p ! i = (batch_rows (p_batch p) ! i, p_created_val p i, p_deleted_val p i)"
  using assms by (simp add: part_versions_def)

lemma part_key_row: "i < b_len (p_batch p) \<Longrightarrow> batch_rows (p_batch p) ! i ! sc_key_index (p_schema p) = p_key p i"
  by (simp add: batch_key_def nth_batch_rows)

lemma seen_part:
  "seen (sc_key_index (p_schema p)) key snap (mset (part_versions p)) = {#} \<longleftrightarrow> part_hits p key snap = {}"
proof -
  have "(\<forall>v \<in> set (part_versions p). fst v ! sc_key_index (p_schema p) = key \<longrightarrow> \<not> version_sees snap v) \<longleftrightarrow>
      (\<forall>i < b_len (p_batch p). p_key p i = key \<longrightarrow> \<not> p_sees p snap i)"
    by (auto simp: all_set_conv_all_nth part_version_nth part_key_row p_sees_def)
  then show ?thesis by (auto simp: seen_empty_iff part_hits_def)
qed

lemma part_hit_version:
  assumes "i \<in> part_hits p key snap"
  shows "i < b_len (p_batch p)" "fst (part_versions p ! i) ! sc_key_index (p_schema p) = key" "version_sees snap (part_versions p ! i)"
  using assms by (auto simp: part_hits_def part_version_nth part_key_row p_sees_def)

lemma seen_l0:
  "seen (l0_ki b) key snap (mset (map entry_version (l0_entries b))) = {#} \<longleftrightarrow> l0_hits b key snap = {}"
  by (auto simp: seen_empty_iff l0_hits_def all_set_conv_all_nth entry_version_def visible_to_def)

definition found_in :: "schema \<Rightarrow> value_t \<Rightarrow> snapshot \<Rightarrow> nat \<Rightarrow> part list \<Rightarrow> location option \<Rightarrow> bool" where
  "found_in s key snap k ps loc \<longleftrightarrow>
    (case loc of
       None \<Rightarrow> seen (sc_key_index s) key snap (versions_of ps) = {#}
     | Some (LocPart pi ord) \<Rightarrow> k \<le> pi \<and> pi - k < length ps \<and> unat ord \<in> part_hits (ps ! (pi - k)) key snap
     | Some (LocL0 _) \<Rightarrow> False)"

lemma found_in_Cons:
  assumes "found_in s key snap (Suc k) ps loc" "seen (sc_key_index s) key snap (mset (part_versions p)) = {#}"
  shows "found_in s key snap k (p # ps) loc"
  using assms by (auto simp: found_in_def seen_union nth_Cons' split: option.splits location.splits)

lemma locate_parts_spec:
  assumes "\<forall>p \<in> set ps. part_ok p \<and> p_schema p = s" "key \<in> col_values (key_ty s)" "snap \<noteq> NEVER_DELETED"
  shows "\<exists>loc m'. locate_parts k ps key snap m = Some (loc, m') \<and> found_in s key snap k ps loc"
  using assms(1)
proof (induction ps arbitrary: k m)
  case Nil
  then show ?case by (simp add: found_in_def seen_def)
next
  case (Cons p ps)
  have p: "part_ok p" "p_schema p = s" using Cons.prems by auto
  obtain r where r: "part_lookup p key snap = Some r"
    "lr_ordinal r = (if part_hits p key snap = {} then None else Some (word_of_nat (Min (part_hits p key snap))))"
    using part_lookup_spec [OF p(1) _ assms(3), of key] assms(2) p(2) by metis
  show ?case
  proof (cases "part_hits p key snap = {}")
    case True
    then have "seen (sc_key_index s) key snap (mset (part_versions p)) = {#}"
      using seen_part [of p key snap] by (simp add: p(2))
    then have more: "\<exists>loc m'. locate_parts (Suc k) ps key snap m2 = Some (loc, m') \<and> found_in s key snap k (p # ps) loc" for m2
      using Cons.IH [of "Suc k" m2] Cons.prems found_in_Cons by fastforce
    from r True show ?thesis by (cases r) (auto simp: Let_def more simp del: ex_simps)
  next
    case False
    have fin: "finite (part_hits p key snap)" by (simp add: part_hits_def)
    define i where "i = Min (part_hits p key snap)"
    have i: "i \<in> part_hits p key snap" using Min_in [OF fin False] by (simp add: i_def)
    then have "unat (word_of_nat i :: u32) = i" using part_okD(2) [OF p(1)] by (auto simp: part_hits_def unat_word_of_nat32)
    then show ?thesis using r False i by (cases r) (auto simp: Let_def i_def [symmetric] found_in_def)
  qed
qed

lemma locate_spec:
  assumes "inner_ok s inner" "key \<in> col_values (key_ty s)" "snap \<noteq> NEVER_DELETED"
  shows "\<exists>loc m'. locate inner key snap m = Some (loc, m') \<and>
    (case loc of
       None \<Rightarrow> seen (sc_key_index s) key snap (ti_versions inner) = {#}
     | Some l \<Rightarrow> loc_ok inner l \<and> loc_version inner l \<in># seen (sc_key_index s) key snap (ti_versions inner))"
proof -
  let ?ki = "sc_key_index s" and ?hits = "l0_hits (ti_l0 inner) key snap"
  have l0: "l0_ok (ti_l0 inner)" "l0_schema (ti_l0 inner) = s" and ps: "\<forall>p \<in> set (ti_parts inner). part_ok p \<and> p_schema p = s"
    using assms(1) by (auto simp: inner_ok_def)
  have look: "l0_lookup (ti_l0 inner) key snap = Some (if ?hits = {} then None else Some (Max ?hits))"
    by (rule l0_lookup_spec) (use l0 assms(2) in auto)
  show ?thesis
  proof (cases "?hits = {}")
    case True
    then have none: "seen ?ki key snap (mset (map entry_version (l0_entries (ti_l0 inner)))) = {#}"
      using seen_l0 [of "ti_l0 inner" key snap] l0(2) by simp
    obtain loc m' where l: "locate_parts 0 (ti_parts inner) key snap (bump mt_lookups_update m) = Some (loc, m')"
        "found_in s key snap 0 (ti_parts inner) loc"
      using locate_parts_spec [OF ps assms(2,3)] by blast
    have "case loc of None \<Rightarrow> seen ?ki key snap (ti_versions inner) = {#}
        | Some l \<Rightarrow> loc_ok inner l \<and> loc_version inner l \<in># seen ?ki key snap (ti_versions inner)"
    proof (cases loc)
      case None
      then show ?thesis using l(2) none by (simp add: found_in_def ti_versions_def seen_union)
    next
      case (Some x)
      with l(2) obtain pi ord where x: "x = LocPart pi ord" "pi < length (ti_parts inner)" "unat ord \<in> part_hits (ti_parts inner ! pi) key snap"
        by (cases x) (auto simp: found_in_def)
      note h = part_hit_version [OF x(3)]
      have "loc_ok inner x" using x h(1) by simp
      moreover have "p_schema (ti_parts inner ! pi) = s" using x(2) ps by simp
      ultimately show ?thesis using loc_version_mem [of inner x] h x(1) Some by (simp add: mem_seen)
    qed
    then show ?thesis using look l(1) True by (simp add: locate_def Let_def)
  next
    case False
    have fin: "finite ?hits" by (simp add: l0_hits_def)
    have i: "Max ?hits \<in> ?hits" by (rule Max_in [OF fin False])
    then have "loc_ok inner (LocL0 (Max ?hits))" by (simp add: l0_hits_def)
    moreover have "loc_version inner (LocL0 (Max ?hits)) \<in># seen ?ki key snap (ti_versions inner)"
      using loc_version_mem [OF calculation] i l0(2) by (simp add: mem_seen l0_hits_def entry_version_def visible_to_def)
    ultimately show ?thesis using look False by (simp add: locate_def Let_def)
  qed
qed

section \<open>Tombstones and new entries\<close>

lemma versions_of_update:
  assumes "i < length ps"
  shows "versions_of (ps[i := q]) = versions_of ps - mset (part_versions (ps ! i)) + mset (part_versions q)"
proof -
  have "ps = take i ps @ ps ! i # drop (Suc i) ps" using assms by (rule id_take_nth_drop)
  then have "versions_of ps = versions_of (take i ps) + mset (part_versions (ps ! i)) + versions_of (drop (Suc i) ps)"
    by (metis add.assoc versions_of_simps(2,3))
  moreover have "versions_of (ps[i := q]) = versions_of (take i ps) + mset (part_versions q) + versions_of (drop (Suc i) ps)"
    using assms by (simp add: upd_conv_take_nth_drop versions_of_simps)
  ultimately show ?thesis by simp
qed

lemma versions_of_sub: "i < length ps \<Longrightarrow> mset (part_versions (ps ! i)) \<subseteq># versions_of ps"
proof (induction ps arbitrary: i)
  case (Cons p ps)
  then show ?case by (cases i) (auto intro: subset_mset.add_increasing)
qed simp

lemma multiset_swap_sub:
  assumes "P \<subseteq># V" "x \<in># P"
  shows "L + (V - P + add_mset y (P - {#x#})) = add_mset y (L + V - {#x#})"
proof -
  obtain W P' where "V = P + W" "P = add_mset x P'"
    using assms by (metis mset_subset_eq_exists_conv insert_DiffM)
  then show ?thesis by simp
qed

lemma part_mark_versions:
  fixes c :: csn
  assumes "part_ok p" "dv_clean p" "unat ord < b_len (p_batch p)" "p_deleted_val p (unat ord) = NEVER_DELETED"
  defines "q \<equiv> snd (part_mark_deleted ord c p)"
  shows "fst (part_mark_deleted ord c p)"
    "part_versions q = (part_versions p)[unat ord := (batch_rows (p_batch p) ! unat ord, p_created_val p (unat ord), c)]"
    "c \<noteq> NEVER_DELETED \<Longrightarrow> dv_clean q" "started < c \<Longrightarrow> evolved started p q"
    "part_ok q" "p_schema q = p_schema p" "p_id q = p_id p"
proof -
  have w: "word_of_nat (unat ord) = ord" by simp
  note m = part_mark_deleted_ok [OF assms(1,3), of c, unfolded w, folded q_def]
  have none: "dv_map (p_dv p) ord = None"
    using assms(2,4) deleted_at_map [OF part_okD(3) [OF assms(1)], of ord]
    by (auto simp: p_deleted_val_def dv_clean_def split: option.splits)
  show "fst (part_mark_deleted ord c p)" using m(5) none by simp
  show "part_ok q" "p_schema q = p_schema p" "p_id q = p_id p" using m by simp_all
  show "c \<noteq> NEVER_DELETED \<Longrightarrow> dv_clean q" using m(6) none assms(2) by (simp add: dv_clean_def)
  show "started < c \<Longrightarrow> evolved started p q" using m(2-4,6) none by (auto simp: evolved_def map_le_def)
  have "p_deleted_val q i = (if i = unat ord then c else p_deleted_val p i)" if "i < b_len (p_batch p)" for i
  proof -
    have "i < 2 ^ 32" using that part_okD(2) [OF assms(1)] by simp
    then have "word_of_nat i = ord \<longleftrightarrow> i = unat ord" by (metis unat_word_of_nat32 w)
    then show ?thesis using m(6) none
      by (auto simp: p_deleted_val_def deleted_at_map [OF part_okD(3) [OF m(1)]] deleted_at_map [OF part_okD(3) [OF assms(1)]])
  qed
  then show "part_versions q = (part_versions p)[unat ord := (batch_rows (p_batch p) ! unat ord, p_created_val p (unat ord), c)]"
    using m(2,3) by (intro nth_equalityI) (auto simp: part_version_nth nth_list_update)
qed

text \<open>
  Two states of a table between which parts only received tombstones above \<open>started\<close>, and new parts only
  took unused numbers.
\<close>

definition inner_evolved :: "csn \<Rightarrow> table_inner \<Rightarrow> table_inner \<Rightarrow> bool" where
  "inner_evolved started inner inner' \<longleftrightarrow>
     (\<forall>p \<in> set (ti_parts inner). \<exists>q \<in> set (ti_parts inner'). evolved started p q) \<and>
     (\<forall>q \<in> set (ti_parts inner'). p_id q \<in> p_id ` set (ti_parts inner) \<or> ti_next_part_id inner \<le> p_id q) \<and>
     ti_next_part_id inner \<le> ti_next_part_id inner'"

lemma inner_evolved_refl [simp]: "inner_evolved started inner inner"
  using evolved_refl by (auto simp: inner_evolved_def)

lemma evolved_trans: "evolved started p q \<Longrightarrow> evolved started q r \<Longrightarrow> evolved started p r"
  unfolding evolved_def by (auto intro: map_le_trans)

lemma inner_evolved_trans:
  assumes "inner_evolved started a b" "inner_evolved started b c"
  shows "inner_evolved started a c"
  unfolding inner_evolved_def
proof (intro conjI ballI)
  show "\<exists>q \<in> set (ti_parts c). evolved started p q" if "p \<in> set (ti_parts a)" for p
    using assms that unfolding inner_evolved_def by (meson evolved_trans)
  show "p_id q \<in> p_id ` set (ti_parts a) \<or> ti_next_part_id a \<le> p_id q" if "q \<in> set (ti_parts c)" for q
  proof (cases "p_id q \<in> p_id ` set (ti_parts b)")
    case True
    then obtain q' where "q' \<in> set (ti_parts b)" "p_id q = p_id q'" by auto
    then show ?thesis using assms(1) by (simp add: inner_evolved_def)
  next
    case False
    then have "ti_next_part_id b \<le> p_id q" using assms(2) that by (auto simp: inner_evolved_def)
    moreover have "ti_next_part_id a \<le> ti_next_part_id b" using assms(1) by (simp add: inner_evolved_def)
    ultimately show ?thesis by (auto intro: order_trans)
  qed
  show "ti_next_part_id a \<le> ti_next_part_id c" using assms by (auto simp: inner_evolved_def)
qed

lemma inner_evolved_same:
  "ti_parts inner' = ti_parts inner \<Longrightarrow> ti_next_part_id inner' = ti_next_part_id inner \<Longrightarrow> inner_evolved started inner inner'"
  using evolved_refl by (auto simp: inner_evolved_def)

lemma inner_evolved_l0 [simp]: "inner_evolved started (inner\<lparr>ti_l0 := b\<rparr>) inner' = inner_evolved started inner inner'"
  "inner_evolved started inner (inner'\<lparr>ti_l0 := b\<rparr>) = inner_evolved started inner inner'"
  "inner_evolved started (inner\<lparr>ti_next_rowid := n\<rparr>) inner' = inner_evolved started inner inner'"
  by (simp_all add: inner_evolved_def)

text \<open>What closing one live version leaves.\<close>

definition version_closed :: "schema \<Rightarrow> table_inner \<Rightarrow> row \<Rightarrow> csn \<Rightarrow> csn \<Rightarrow> table_inner \<Rightarrow> bool" where
  "version_closed s inner r cr c inner' \<longleftrightarrow>
     inner_ok s inner' \<and> ti_versions inner' = add_mset (r, cr, c) (ti_versions inner - {#(r, cr, NEVER_DELETED)#}) \<and>
     length (l0_entries (ti_l0 inner')) = length (l0_entries (ti_l0 inner)) \<and>
     ti_next_part_id inner' = ti_next_part_id inner \<and> ti_next_rowid inner' = ti_next_rowid inner \<and>
     (\<forall>started. started < c \<longrightarrow> inner_evolved started inner inner')"

lemma tombstone_l0_ok:
  assumes ok: "inner_ok s inner" and l: "loc_ok inner (LocL0 i)" "loc_version inner (LocL0 i) = (r, cr, NEVER_DELETED)"
  shows "\<exists>inner'. tombstone inner (LocL0 i) c = Some (Inr (), inner') \<and> version_closed s inner r cr c inner'"
proof -
  have i: "i < length (l0_entries (ti_l0 inner))" using l by simp
  let ?e = "l0_entries (ti_l0 inner) ! i"
  have e: "e_deleted ?e = NEVER_DELETED" "e_row ?e = r" "e_created ?e = cr"
    using l(2) by (simp_all add: entry_version_def)
  have l0: "l0_ok (ti_l0 inner)" using ok by (simp add: inner_ok_def)
  obtain b where b: "l0_mark_deleted i c (ti_l0 inner) = Some (True, b)" "l0_ok b" "l0_schema b = l0_schema (ti_l0 inner)"
    "l0_entries b = (l0_entries (ti_l0 inner))[i := ?e\<lparr>e_deleted := c\<rparr>]"
    by (rule l0_mark_deleted_ok [OF l0 i, of c]) (auto simp: e)
  have "mset (map entry_version (l0_entries b)) =
      add_mset (r, cr, c) (mset (map entry_version (l0_entries (ti_l0 inner))) - {#(r, cr, NEVER_DELETED)#})"
    unfolding b(4) map_update using i e by (simp add: mset_update entry_version_def)
  moreover have "(r, cr, NEVER_DELETED) \<in># mset (map entry_version (l0_entries (ti_l0 inner)))"
    using nth_mem [OF i] e by (auto simp: entry_version_def image_iff intro!: bexI [of _ ?e])
  ultimately have "ti_versions (inner\<lparr>ti_l0 := b\<rparr>) = add_mset (r, cr, c) (ti_versions inner - {#(r, cr, NEVER_DELETED)#})"
    by (simp add: ti_versions_def del: mset_map)
  moreover have "inner_ok s (inner\<lparr>ti_l0 := b\<rparr>)" using ok b by (simp add: inner_ok_def)
  ultimately show ?thesis using b by (simp add: version_closed_def inner_evolved_same)
qed

lemma replaced_part_ok:
  assumes ok: "inner_ok s inner" and pi: "pi < length (ti_parts inner)"
    and q: "part_ok q" "p_schema q = s" "dv_clean q" "p_id q = p_id (ti_parts inner ! pi)"
  shows "inner_ok s (inner\<lparr>ti_parts := (ti_parts inner)[pi := q]\<rparr>)"
    "evolved started (ti_parts inner ! pi) q \<Longrightarrow> inner_evolved started inner (inner\<lparr>ti_parts := (ti_parts inner)[pi := q]\<rparr>)"
proof -
  have ids: "map p_id ((ti_parts inner)[pi := q]) = map p_id (ti_parts inner)"
    using q(4) pi by (simp add: map_update list_update_same_conv)
  have "x = q \<or> x \<in> set (ti_parts inner)" if "x \<in> set ((ti_parts inner)[pi := q])" for x
    using that set_update_subset_insert by fastforce
  moreover have "p_id q < ti_next_part_id inner" using q(4) nth_mem [OF pi] ok by (simp add: inner_ok_def)
  ultimately have "\<forall>x \<in> set ((ti_parts inner)[pi := q]). part_ok x \<and> p_schema x = s \<and> dv_clean x \<and> p_id x < ti_next_part_id inner"
    using ok q(1-3) by (metis inner_ok_def)
  then show "inner_ok s (inner\<lparr>ti_parts := (ti_parts inner)[pi := q]\<rparr>)" using ok ids by (simp add: inner_ok_def)
  assume e: "evolved started (ti_parts inner ! pi) q"
  have "\<exists>y \<in> set ((ti_parts inner)[pi := q]). evolved started x y" if x: "x \<in> set (ti_parts inner)" for x
  proof -
    obtain j where j: "j < length (ti_parts inner)" "x = ti_parts inner ! j" using x by (auto simp: in_set_conv_nth)
    then have "evolved started x ((ti_parts inner)[pi := q] ! j)" using e evolved_refl pi by (cases "j = pi") auto
    then show ?thesis using j(1) nth_mem [of j "(ti_parts inner)[pi := q]"] by auto
  qed
  moreover have "p_id ` set ((ti_parts inner)[pi := q]) = p_id ` set (ti_parts inner)" using ids by (metis set_map)
  ultimately show "inner_evolved started inner (inner\<lparr>ti_parts := (ti_parts inner)[pi := q]\<rparr>)"
    unfolding inner_evolved_def by (simp, blast)
qed

lemma tombstone_part_ok:
  assumes ok: "inner_ok s inner" and l: "loc_ok inner (LocPart pi ord)" "loc_version inner (LocPart pi ord) = (r, cr, NEVER_DELETED)"
    and c: "c \<noteq> NEVER_DELETED"
  shows "\<exists>inner'. tombstone inner (LocPart pi ord) c = Some (Inr (), inner') \<and> version_closed s inner r cr c inner'"
proof -
  let ?p = "ti_parts inner ! pi"
  have p: "pi < length (ti_parts inner)" "unat ord < b_len (p_batch ?p)" using l by auto
  then have pk: "part_ok ?p" "dv_clean ?p" "p_schema ?p = s" using ok by (auto simp: inner_ok_def)
  have v: "part_versions ?p ! unat ord = (r, cr, NEVER_DELETED)" using l by simp
  then have d: "p_deleted_val ?p (unat ord) = NEVER_DELETED" "batch_rows (p_batch ?p) ! unat ord = r" "p_created_val ?p (unat ord) = cr"
    using p(2) by (simp_all add: part_version_nth)
  obtain q where q: "part_mark_deleted ord c ?p = (True, q)"
    using part_mark_versions(1) [where c = c, OF pk(1,2) p(2) d(1)] by (metis prod.collapse)
  note m = part_mark_versions [where c = c, OF pk(1,2) p(2) d(1), unfolded q snd_conv d(2,3)]
  let ?inner = "inner\<lparr>ti_parts := (ti_parts inner)[pi := q]\<rparr>"
  have sub: "mset (part_versions ?p) \<subseteq># versions_of (ti_parts inner)" using p(1) by (rule versions_of_sub)
  have "mset (part_versions q) = add_mset (r, cr, c) (mset (part_versions ?p) - {#(r, cr, NEVER_DELETED)#})"
    using p(2) v by (simp add: m(2) mset_update)
  moreover have "(r, cr, NEVER_DELETED) \<in># mset (part_versions ?p)" using p(2) v nth_mem [of "unat ord" "part_versions ?p"] by simp
  moreover have "ti_l0 ?inner = ti_l0 inner" "ti_parts ?inner = (ti_parts inner)[pi := q]" by simp_all
  ultimately have "ti_versions ?inner = add_mset (r, cr, c) (ti_versions inner - {#(r, cr, NEVER_DELETED)#})"
    unfolding ti_versions_def using multiset_swap_sub [OF sub] by (simp only: versions_of_update [OF p(1)])
  moreover note replaced_part_ok [OF ok p(1) m(5) _ m(3) [OF c] m(7)] m(4,6) pk(3)
  ultimately show ?thesis using p(1) q by (auto simp: version_closed_def)
qed

lemma tombstone_ok:
  assumes ok: "inner_ok s inner" and l: "loc_ok inner l" "loc_version inner l = (r, cr, NEVER_DELETED)" and c: "c \<noteq> NEVER_DELETED"
  shows "\<exists>inner'. tombstone inner l c = Some (Inr (), inner') \<and> version_closed s inner r cr c inner'"
  using tombstone_l0_ok [OF ok] tombstone_part_ok [OF ok _ _ c] l by (cases l) blast+

lemma close_ok:
  assumes ok: "inner_ok s inner" and st: "store_ok (sc_key_index s) f n (ti_versions inner)" and key: "key \<in> col_values (key_ty s)"
    and c: "n < c" "c \<noteq> NEVER_DELETED" and loc: "locate inner key n m = Some (loc, m1)"
  obtains inner' where "(case loc of Some l \<Rightarrow> tombstone inner l c | None \<Rightarrow> Some (Inr (), inner)) = Some (Inr (), inner')"
    "inner_ok s inner'" "ti_versions inner' = abs_kill (sc_key_index s) key c (ti_versions inner)"
    "length (l0_entries (ti_l0 inner')) = length (l0_entries (ti_l0 inner))"
    "ti_next_part_id inner' = ti_next_part_id inner" "ti_next_rowid inner' = ti_next_rowid inner"
    "\<And>started. started < c \<Longrightarrow> inner_evolved started inner inner'"
proof -
  have n: "n \<noteq> NEVER_DELETED" using st by (simp add: store_ok_def)
  have L: "case loc of None \<Rightarrow> seen (sc_key_index s) key n (ti_versions inner) = {#}
      | Some l \<Rightarrow> loc_ok inner l \<and> loc_version inner l \<in># seen (sc_key_index s) key n (ti_versions inner)"
    using locate_spec [OF ok key n, of m] loc by auto
  show thesis
  proof (cases loc)
    case None
    then show ?thesis using L abs_kill_none [OF _ st] that [of inner] ok by simp
  next
    case (Some l)
    then have l: "loc_ok inner l" "loc_version inner l \<in># ti_versions inner" "fst (loc_version inner l) ! sc_key_index s = key"
      "version_sees n (loc_version inner l)" using L by (auto simp: mem_seen)
    then have "snd (snd (loc_version inner l)) = NEVER_DELETED" using seen_now [OF st] by blast
    then obtain r cr where v: "loc_version inner l = (r, cr, NEVER_DELETED)" by (metis prod.collapse)
    have kill: "abs_kill (sc_key_index s) key c (ti_versions inner) = add_mset (r, cr, c) (ti_versions inner - {#(r, cr, NEVER_DELETED)#})"
      using abs_kill_one [OF st] l v by simp
    obtain inner' where "tombstone inner l c = Some (Inr (), inner')" "version_closed s inner r cr c inner'"
      using tombstone_ok [OF ok l(1) v c(2)] by blast
    then show ?thesis using that [of inner'] Some kill by (simp add: version_closed_def)
  qed
qed

section \<open>Sealing\<close>

lemma inner_ok_fresh:
  assumes "inner_ok s inner" "part_ok p" "p_schema p = s" "dv_clean p" "p_id p = ti_next_part_id inner"
    "l0_ok b" "l0_schema b = s" "ti_next_part_id inner \<noteq> - 1"
  shows "inner_ok s (inner\<lparr>ti_l0 := b, ti_next_part_id := ti_next_part_id inner + 1, ti_parts := p # ti_parts inner\<rparr>)"
proof -
  have "x < ti_next_part_id inner + 1" if "x < ti_next_part_id inner" for x
    using that less_plus_one_word [OF assms(8)] by (rule order.strict_trans)
  moreover have "ti_next_part_id inner < ti_next_part_id inner + 1" using assms(8) by (simp add: less_plus_one_word)
  ultimately show ?thesis using assms by (force simp: inner_ok_def)
qed

lemma seal_locked_ok:
  assumes A: "arrow_ok A" and ok: "inner_ok s inner" and room: "length (l0_entries (ti_l0 inner)) < 2 ^ 32" "ti_next_part_id inner \<noteq> - 1"
  obtains inner' m' where "seal_locked A inner m = Some (inner', m')" "inner_ok s inner'" "ti_versions inner' = ti_versions inner"
    "l0_entries (ti_l0 inner') = []" "ti_next_rowid inner' = ti_next_rowid inner"
    "\<And>started. inner_evolved started inner inner'"
proof (cases "l0_is_empty (ti_l0 inner)")
  case True
  then show thesis using that [of inner m] ok by (simp add: seal_locked_def l0_is_empty_def)
next
  case False
  let ?b = "ti_l0 inner"
  have l0: "l0_ok ?b" "l0_schema ?b = s" "decimals_ok (l0_schema ?b)" using ok by (auto simp: inner_ok_def)
  obtain sl p where p: "l0_seal A ?b = Some (sl, l0_clear ?b)"
    "with_deletions A (ti_next_part_id inner) (sl_batch sl) (PerRow (sl_created sl)) (sl_deletions sl) = Some p"
    "part_ok p" "p_id p = ti_next_part_id inner" "p_schema p = l0_schema ?b"
    "part_versions p = map entry_version (seal_order ?b)" "dv_clean p"
    by (rule part_of_sealed [OF A l0(1,3) room(1)])
  let ?inner = "inner\<lparr>ti_l0 := l0_clear ?b, ti_next_part_id := ti_next_part_id inner + 1, ti_parts := p # ti_parts inner\<rparr>"
  have "inner_ok s ?inner"
    by (rule inner_ok_fresh [OF ok]) (use p l0 l0_ok_clear [OF l0(1)] room(2) in \<open>auto simp: l0_clear_def\<close>)
  moreover have "ti_versions ?inner = ti_versions inner"
    using mset_seal_order [of ?b] by (simp add: ti_versions_def l0_clear_def p(6))
  moreover have "inner_evolved started inner ?inner" for started
    using evolved_refl p(4) less_plus_one_word [OF room(2)] by (auto simp: inner_evolved_def)
  ultimately show thesis using that [of ?inner "bump mt_seals_update m"] False p(1,2)
    by (simp add: seal_locked_def l0_clear_def Let_def)
qed

definition l0_room :: "table_config \<Rightarrow> table_inner \<Rightarrow> bool" where
  "l0_room cfg inner \<longleftrightarrow> length (l0_entries (ti_l0 inner)) < 2 ^ 32 - 1 \<and> tc_seal_threshold cfg < 2 ^ 32"

text \<open>Appending a row and sealing when the buffer is full.\<close>

lemma append_ok:
  assumes A: "arrow_ok A" and ok: "inner_ok s inner" and r: "row_ok s r" and room: "l0_room cfg inner" "ti_next_part_id inner \<noteq> - 1"
  obtains b inner' m' where "l0_insert r c (ti_l0 inner) = Some b" "maybe_seal_locked A cfg (inner\<lparr>ti_l0 := b\<rparr>) m = Some (inner', m')"
    "inner_ok s (inner\<lparr>ti_l0 := b\<rparr>)" "inner_ok s inner'" "ti_versions (inner\<lparr>ti_l0 := b\<rparr>) = add_mset (r, c, NEVER_DELETED) (ti_versions inner)"
    "ti_versions inner' = add_mset (r, c, NEVER_DELETED) (ti_versions inner)"
    "l0_room cfg inner'" "ti_next_rowid inner' = ti_next_rowid inner"
    "\<And>started. inner_evolved started inner inner'"
proof -
  have l0: "l0_ok (ti_l0 inner)" "l0_schema (ti_l0 inner) = s" using ok by (auto simp: inner_ok_def)
  obtain b where b: "l0_insert r c (ti_l0 inner) = Some b" "l0_ok b" "l0_schema b = l0_schema (ti_l0 inner)"
    "l0_entries b = l0_entries (ti_l0 inner) @ [\<lparr>e_row = r, e_created = c, e_deleted = NEVER_DELETED\<rparr>]"
    by (rule l0_insert_ok [OF l0(1), of r c]) (use r l0 in auto)
  let ?i = "inner\<lparr>ti_l0 := b\<rparr>"
  have i: "inner_ok s ?i" "ti_versions ?i = add_mset (r, c, NEVER_DELETED) (ti_versions inner)"
    using ok b l0 by (simp_all add: inner_ok_def ti_versions_def entry_version_def)
  have len: "length (l0_entries (ti_l0 ?i)) < 2 ^ 32" using room(1) b(4) by (simp add: l0_room_def)
  show thesis
  proof (cases "tc_seal_threshold cfg \<le> l0_len b")
    case True
    obtain inner' m' where s: "seal_locked A ?i m = Some (inner', m')" "inner_ok s inner'" "ti_versions inner' = ti_versions ?i"
      "l0_entries (ti_l0 inner') = []" "ti_next_rowid inner' = ti_next_rowid ?i"
      "\<And>started. inner_evolved started ?i inner'"
      by (rule seal_locked_ok [OF A i(1) len, of m]) (use room(2) in auto)
    then show ?thesis using that [OF b(1) _ i(1) s(2) i(2)] True room(1) i(2) by (simp add: maybe_seal_locked_def l0_room_def)
  next
    case False
    then show ?thesis using that [OF b(1) _ i(1) i(1) i(2)] room(1) i(2) by (simp add: maybe_seal_locked_def l0_room_def l0_len_def)
  qed
qed

section \<open>Row identifiers\<close>

definition fill_rowid :: "schema \<Rightarrow> table_inner \<Rightarrow> row \<Rightarrow> row" where
  "fill_rowid s inner r = (if sc_synthetic_key s \<and> r ! sc_key_index s = VNull then r[sc_key_index s := VInt (ti_next_rowid inner)] else r)"

lemma assign_rowid_ok:
  assumes ok: "inner_ok s inner" and r: "row_ok s r"
  obtains n where "assign_rowid s inner r = Some (fill_rowid s inner r, inner\<lparr>ti_next_rowid := n\<rparr>)" "row_ok s (fill_rowid s inner r)"
proof -
  have ki: "sc_key_index s < arity s" and ty: "sc_synthetic_key s \<Longrightarrow> col_ty s (sc_key_index s) = TInt"
    using ok by (auto simp: inner_ok_def schema_ok_def arity_def key_ty_def)
  have len: "length r = arity s" using r by (simp add: row_ok_def)
  have "row_ok s (fill_rowid s inner r)"
    using r ki ty by (auto simp: row_ok_def fill_rowid_def nth_list_update)
  moreover have "\<exists>n. assign_rowid s inner r = Some (fill_rowid s inner r, inner\<lparr>ti_next_rowid := n\<rparr>)"
    using ki len by (auto simp: assign_rowid_def fill_rowid_def intro: exI [of _ "ti_next_rowid inner"])
  ultimately show ?thesis using that by blast
qed

lemma inner_rowid [simp]:
  "ti_versions (inner\<lparr>ti_next_rowid := n\<rparr>) = ti_versions inner" "inner_ok s (inner\<lparr>ti_next_rowid := n\<rparr>) = inner_ok s inner"
  "l0_room cfg (inner\<lparr>ti_next_rowid := n\<rparr>) = l0_room cfg inner"
  by (simp_all add: ti_versions_def inner_ok_def l0_room_def)

lemma locate_rowid [simp]: "locate (inner\<lparr>ti_next_rowid := n\<rparr>) key snap m = locate inner key snap m"
  by (simp add: locate_def)

section \<open>Writes\<close>

definition tb_versions :: "table \<Rightarrow> version multiset" where
  "tb_versions t = ti_versions (tb_inner t)"

abbreviation tb_ki :: "table \<Rightarrow> nat" where
  "tb_ki t \<equiv> sc_key_index (tb_schema t)"

abbreviation tb_now :: "table \<Rightarrow> csn" where
  "tb_now t \<equiv> current (tb_csn t)"

abbreviation tb_keys :: "table \<Rightarrow> value_t set" where
  "tb_keys t \<equiv> col_values (key_ty (tb_schema t))"

text \<open>The invariant; \<open>f\<close> is the highest horizon a compaction has used.\<close>

definition table_ok :: "csn \<Rightarrow> table \<Rightarrow> bool" where
  "table_ok f t \<longleftrightarrow>
     inner_ok (tb_schema t) (tb_inner t) \<and> l0_room (tb_config t) (tb_inner t) \<and> 0 < cg_next (tb_csn t) \<and>
     store_ok (tb_ki t) f (tb_now t) (tb_versions t)"

text \<open>The 64-bit counters have a number left.\<close>

definition can_write :: "table \<Rightarrow> bool" where
  "can_write t \<longleftrightarrow> cg_next (tb_csn t) \<noteq> - 1 \<and> ti_next_part_id (tb_inner t) \<noteq> - 1"

definition live :: "table \<Rightarrow> value_t \<Rightarrow> bool" where
  "live t key \<longleftrightarrow> seen (tb_ki t) key (tb_now t) (tb_versions t) \<noteq> {#}"

definition tb_frame :: "table \<Rightarrow> table \<Rightarrow> bool" where
  "tb_frame t t' \<longleftrightarrow> tb_name t' = tb_name t \<and> tb_schema t' = tb_schema t \<and> tb_config t' = tb_config t \<and>
     cg_active (tb_csn t') = cg_active (tb_csn t)"

text \<open>What a successful write leaves: the next commit number is used, and the versions are \<open>M\<close>.\<close>

definition written :: "csn \<Rightarrow> table \<Rightarrow> version multiset \<Rightarrow> table \<Rightarrow> bool" where
  "written f t M t' \<longleftrightarrow>
     table_ok f t' \<and> tb_frame t t' \<and> tb_now t' = cg_next (tb_csn t) \<and> tb_versions t' = M \<and>
     (\<forall>started. started \<le> tb_now t \<longrightarrow> inner_evolved started (tb_inner t) (tb_inner t'))"

text \<open>What a refused write leaves.\<close>

definition untouched :: "csn \<Rightarrow> table \<Rightarrow> table \<Rightarrow> bool" where
  "untouched f t t' \<longleftrightarrow>
     table_ok f t' \<and> tb_frame t t' \<and> tb_csn t' = tb_csn t \<and> tb_versions t' = tb_versions t \<and>
     ti_parts (tb_inner t') = ti_parts (tb_inner t) \<and> ti_next_part_id (tb_inner t') = ti_next_part_id (tb_inner t)"

lemma clock_facts:
  assumes "table_ok f t" "can_write t"
  shows "tb_now t < cg_next (tb_csn t)" "cg_next (tb_csn t) \<noteq> NEVER_DELETED" "allocate (tb_csn t) = (cg_next (tb_csn t), (tb_csn t)\<lparr>cg_next := cg_next (tb_csn t) + 1\<rparr>)"
    "current ((tb_csn t)\<lparr>cg_next := cg_next (tb_csn t) + 1\<rparr>) = cg_next (tb_csn t)" "0 < cg_next (tb_csn t) + 1"
proof -
  have z: "0 < cg_next (tb_csn t)" "cg_next (tb_csn t) \<noteq> - 1" using assms by (auto simp: table_ok_def can_write_def)
  show "tb_now t < cg_next (tb_csn t)" by (rule current_less [OF z(1)])
  show "cg_next (tb_csn t) \<noteq> NEVER_DELETED" using z(2) by (simp add: NEVER_DELETED_def)
  show "0 < cg_next (tb_csn t) + 1" using less_plus_one_word [OF z(2)] z(1) by (rule order.strict_trans [rotated])
qed (simp_all add: allocate_def current_def)

lemma table_okD:
  assumes "table_ok f t"
  shows "inner_ok (tb_schema t) (tb_inner t)" "l0_room (tb_config t) (tb_inner t)"
    "store_ok (tb_ki t) f (tb_now t) (ti_versions (tb_inner t))" "tb_now t \<noteq> NEVER_DELETED" "f \<le> tb_now t" "0 < cg_next (tb_csn t)"
  using assms by (auto simp: table_ok_def tb_versions_def store_ok_def)

lemma l0_room_len: "l0_room cfg inner \<Longrightarrow> length (l0_entries (ti_l0 inner')) = length (l0_entries (ti_l0 inner)) \<Longrightarrow> l0_room cfg inner'"
  by (simp add: l0_room_def)

lemma row_key_in:
  assumes "inner_ok s inner" "row_ok s r"
  shows "row_key (sc_key_index s) r = Some (r ! sc_key_index s)" "r ! sc_key_index s \<in> col_values (key_ty s)"
  using assms row_ok_key by (auto simp: inner_ok_def)

text \<open>The tail shared by the writes that add a row: close the live version, append, seal.\<close>

lemma put_tail:
  fixes nr :: i64
  assumes A: "arrow_ok A" and t: "table_ok f t" "can_write t" and r: "row_ok (tb_schema t) r"
    and loc: "locate (tb_inner t) (r ! tb_ki t) (tb_now t) m0 = Some (loc, m1)"
  defines "inner0 \<equiv> (tb_inner t)\<lparr>ti_next_rowid := nr\<rparr>" and "c \<equiv> cg_next (tb_csn t)"
  obtains inner1 b inner2 m2 where
    "(case loc of Some l \<Rightarrow> tombstone inner0 l c | None \<Rightarrow> Some (Inr (), inner0)) = Some (Inr (), inner1)"
    "l0_insert r c (ti_l0 inner1) = Some b" "maybe_seal_locked A (tb_config t) (inner1\<lparr>ti_l0 := b\<rparr>) m = Some (inner2, m2)"
    "\<And>m'. written f t (abs_put (tb_ki t) r c (tb_versions t))
        (t\<lparr>tb_inner := inner2, tb_csn := (tb_csn t)\<lparr>cg_next := c + 1\<rparr>, tb_metrics := m'\<rparr>)"
proof -
  note D = table_okD [OF t(1)] and C = clock_facts [OF t]
  have ok0: "inner_ok (tb_schema t) inner0" "store_ok (tb_ki t) f (tb_now t) (ti_versions inner0)"
    "locate inner0 (r ! tb_ki t) (tb_now t) m0 = Some (loc, m1)" "l0_room (tb_config t) inner0"
    using D loc by (simp_all add: inner0_def)
  obtain inner1 where i1: "(case loc of Some l \<Rightarrow> tombstone inner0 l c | None \<Rightarrow> Some (Inr (), inner0)) = Some (Inr (), inner1)"
    "inner_ok (tb_schema t) inner1" "ti_versions inner1 = abs_kill (tb_ki t) (r ! tb_ki t) c (ti_versions inner0)"
    "length (l0_entries (ti_l0 inner1)) = length (l0_entries (ti_l0 inner0))" "ti_next_part_id inner1 = ti_next_part_id inner0"
    "ti_next_rowid inner1 = ti_next_rowid inner0"
    "\<And>started. started < c \<Longrightarrow> inner_evolved started inner0 inner1"
    by (rule close_ok [OF ok0(1,2) row_key_in(2) [OF D(1) r] C(1,2) [folded c_def] ok0(3)]) (rule that, assumption+)
  have room: "l0_room (tb_config t) inner1" "ti_next_part_id inner1 \<noteq> - 1"
    using l0_room_len [OF ok0(4) i1(4)] i1(5) t(2) by (auto simp: inner0_def can_write_def)
  obtain b inner2 m2 where i2: "l0_insert r c (ti_l0 inner1) = Some b"
    "maybe_seal_locked A (tb_config t) (inner1\<lparr>ti_l0 := b\<rparr>) m = Some (inner2, m2)" "inner_ok (tb_schema t) inner2"
    "ti_versions inner2 = add_mset (r, c, NEVER_DELETED) (ti_versions inner1)" "l0_room (tb_config t) inner2"
    "\<And>started. inner_evolved started inner1 inner2"
    by (rule append_ok [OF A i1(2) r room, of c m]) (rule that, assumption+)
  have v: "ti_versions inner2 = abs_put (tb_ki t) r c (tb_versions t)"
    by (simp add: i2(4) i1(3) abs_put_def inner0_def tb_versions_def)
  have "store_ok (tb_ki t) f c (ti_versions inner2)"
    unfolding v tb_versions_def by (rule store_ok_put [OF D(3)]) (use C in \<open>auto simp: c_def\<close>)
  moreover have "inner_evolved started (tb_inner t) inner2" if "started \<le> tb_now t" for started
    using inner_evolved_trans [OF i1(7) i2(6)] that C(1) by (auto simp: inner0_def c_def)
  ultimately have "written f t (abs_put (tb_ki t) r c (tb_versions t))
        (t\<lparr>tb_inner := inner2, tb_csn := (tb_csn t)\<lparr>cg_next := c + 1\<rparr>, tb_metrics := m'\<rparr>)" for m'
    using i2(3,5) C(4,5) v by (simp add: written_def table_ok_def tb_frame_def tb_versions_def c_def)
  then show thesis using that [OF i1(1) i2(1,2)] by blast
qed

lemma locate_live:
  assumes "table_ok f t" "key \<in> tb_keys t"
  obtains loc m' where "locate (tb_inner t) key (snapshot (tb_csn t)) m = Some (loc, m')" "loc = None \<longleftrightarrow> \<not> live t key"
  using locate_spec [OF table_okD(1) [OF assms(1)] assms(2) table_okD(4) [OF assms(1)], of m]
  by (fastforce simp: live_def tb_versions_def snapshot_def split: option.splits)

lemma live_rowid: "inner = (tb_inner t)\<lparr>ti_next_rowid := n\<rparr> \<Longrightarrow> table_ok f t \<Longrightarrow> untouched f t (t\<lparr>tb_inner := inner, tb_metrics := m\<rparr>)"
  by (simp add: untouched_def table_ok_def tb_frame_def tb_versions_def)

lemma untouched_metrics: "table_ok f t \<Longrightarrow> untouched f t (t\<lparr>tb_metrics := m\<rparr>)"
  by (simp add: untouched_def table_ok_def tb_frame_def tb_versions_def)

lemmas option_sum_case = option.case sum.case prod.case

definition stored_row :: "table \<Rightarrow> row \<Rightarrow> row" where
  "stored_row t r = fill_rowid (tb_schema t) (tb_inner t) r"

lemma insert_returning_ok:
  assumes A: "arrow_ok A" and t: "table_ok f t" "can_write t" and r: "row_ok (tb_schema t) r"
  defines "r' \<equiv> stored_row t r"
  shows "\<exists>t'. if live t (r' ! tb_ki t)
    then tb_insert_returning A r t = Some (Inl (DuplicateKey (render (r' ! tb_ki t))), t') \<and> untouched f t t'
    else tb_insert_returning A r t = Some (Inr (cg_next (tb_csn t), r'), t') \<and>
      written f t (abs_put (tb_ki t) r' (cg_next (tb_csn t)) (tb_versions t)) t'"
proof -
  note D = table_okD [OF t(1)]
  obtain n where n: "assign_rowid (tb_schema t) (tb_inner t) r = Some (r', (tb_inner t)\<lparr>ti_next_rowid := n\<rparr>)" "row_ok (tb_schema t) r'"
    unfolding r'_def stored_row_def by (rule assign_rowid_ok [OF D(1) r])
  note k = row_key_in [OF D(1) n(2)]
  obtain loc m where l: "locate (tb_inner t) (r' ! tb_ki t) (snapshot (tb_csn t)) (tb_metrics t) = Some (loc, m)"
      "loc = None \<longleftrightarrow> \<not> live t (r' ! tb_ki t)"
    by (rule locate_live [OF t(1) k(2)])
  show ?thesis
  proof (cases loc)
    case None
    obtain b inner2 m2 where p: "l0_insert r' (cg_next (tb_csn t)) (ti_l0 ((tb_inner t)\<lparr>ti_next_rowid := n\<rparr>)) = Some b"
      "maybe_seal_locked A (tb_config t) ((tb_inner t)\<lparr>ti_next_rowid := n, ti_l0 := b\<rparr>) (bump mt_inserts_update m) = Some (inner2, m2)"
      "\<And>m'. written f t (abs_put (tb_ki t) r' (cg_next (tb_csn t)) (tb_versions t))
          (t\<lparr>tb_inner := inner2, tb_csn := (tb_csn t)\<lparr>cg_next := cg_next (tb_csn t) + 1\<rparr>, tb_metrics := m'\<rparr>)"
      by (rule put_tail [OF A t n(2), of "tb_metrics t" None m n "bump mt_inserts_update m"]) (use l None in \<open>auto simp: snapshot_def\<close>)
    then show ?thesis using l None n(1) k(1) by (simp add: tb_insert_returning_def clock_facts(3) [OF t])
  next
    case (Some x)
    then show ?thesis using l n(1) k(1) live_rowid [OF refl t(1)] by (simp add: tb_insert_returning_def)
  qed
qed

text \<open>\<open>insert\<close> is \<open>insert_returning\<close> without the row.\<close>

lemma insert_eq_returning: "tb_insert A r t = map_option (map_prod (map_sum id fst) id) (tb_insert_returning A r t)"
  unfolding tb_insert_def tb_insert_returning_def
  by (auto simp: Let_def split: option.splits prod.splits bind_splits)

lemma upsert_eq_returning: "tb_upsert A r t = map_option (map_prod (map_sum id fst) id) (tb_upsert_returning A r t)"
  unfolding tb_upsert_def tb_upsert_returning_def
  by (auto simp: Let_def split: option.splits prod.splits sum.splits bind_splits)

lemma upsert_returning_ok:
  assumes A: "arrow_ok A" and t: "table_ok f t" "can_write t" and r: "row_ok (tb_schema t) r"
  defines "r' \<equiv> stored_row t r"
  shows "\<exists>t'. tb_upsert_returning A r t = Some (Inr (cg_next (tb_csn t), r'), t') \<and>
    written f t (abs_put (tb_ki t) r' (cg_next (tb_csn t)) (tb_versions t)) t'"
proof -
  note D = table_okD [OF t(1)]
  obtain n where n: "assign_rowid (tb_schema t) (tb_inner t) r = Some (r', (tb_inner t)\<lparr>ti_next_rowid := n\<rparr>)" "row_ok (tb_schema t) r'"
    unfolding r'_def stored_row_def by (rule assign_rowid_ok [OF D(1) r])
  note k = row_key_in [OF D(1) n(2)]
  obtain loc m where l: "locate (tb_inner t) (r' ! tb_ki t) (tb_now t) (tb_metrics t) = Some (loc, m)"
    using locate_live [OF t(1) k(2), of "tb_metrics t"] by (metis snapshot_def)
  let ?m = "if loc = None then bump mt_inserts_update m else bump mt_updates_update m"
  obtain inner1 b inner2 m2 where p: "(case loc of Some l \<Rightarrow> tombstone ((tb_inner t)\<lparr>ti_next_rowid := n\<rparr>) l (cg_next (tb_csn t))
        | None \<Rightarrow> Some (Inr (), (tb_inner t)\<lparr>ti_next_rowid := n\<rparr>)) = Some (Inr (), inner1)"
    "l0_insert r' (cg_next (tb_csn t)) (ti_l0 inner1) = Some b"
    "maybe_seal_locked A (tb_config t) (inner1\<lparr>ti_l0 := b\<rparr>) ?m = Some (inner2, m2)"
    "\<And>m'. written f t (abs_put (tb_ki t) r' (cg_next (tb_csn t)) (tb_versions t))
        (t\<lparr>tb_inner := inner2, tb_csn := (tb_csn t)\<lparr>cg_next := cg_next (tb_csn t) + 1\<rparr>, tb_metrics := m'\<rparr>)"
    by (rule put_tail [OF A t n(2) l, of n ?m]) (rule that, assumption+)
  then show ?thesis using l n(1) k(1) by (simp add: tb_upsert_returning_def clock_facts(3) [OF t] snapshot_def Let_def)
qed

lemma update_ok:
  assumes A: "arrow_ok A" and t: "table_ok f t" "can_write t" and r: "row_ok (tb_schema t) r"
  shows "\<exists>t'. if live t (r ! tb_ki t)
    then tb_update A r t = Some (Inr (cg_next (tb_csn t)), t') \<and>
      written f t (abs_put (tb_ki t) r (cg_next (tb_csn t)) (tb_versions t)) t'
    else tb_update A r t = Some (Inl (KeyNotFound (render (r ! tb_ki t))), t') \<and> untouched f t t'"
proof -
  note D = table_okD [OF t(1)]
  note k = row_key_in [OF D(1) r]
  obtain loc m where l: "locate (tb_inner t) (r ! tb_ki t) (snapshot (tb_csn t)) (tb_metrics t) = Some (loc, m)"
      "loc = None \<longleftrightarrow> \<not> live t (r ! tb_ki t)"
    by (rule locate_live [OF t(1) k(2)])
  show ?thesis
  proof (cases loc)
    case None
    then show ?thesis using l k(1) untouched_metrics [OF t(1)] by (simp add: tb_update_def)
  next
    case (Some x)
    obtain inner1 b inner2 m2 where p: "tombstone (tb_inner t) x (cg_next (tb_csn t)) = Some (Inr (), inner1)"
      "l0_insert r (cg_next (tb_csn t)) (ti_l0 inner1) = Some b"
      "maybe_seal_locked A (tb_config t) (inner1\<lparr>ti_l0 := b\<rparr>) (bump mt_updates_update m) = Some (inner2, m2)"
      "\<And>m'. written f t (abs_put (tb_ki t) r (cg_next (tb_csn t)) (tb_versions t))
          (t\<lparr>tb_inner := inner2, tb_csn := (tb_csn t)\<lparr>cg_next := cg_next (tb_csn t) + 1\<rparr>, tb_metrics := m'\<rparr>)"
      by (rule put_tail [OF A t r, of "tb_metrics t" "Some x" m "ti_next_rowid (tb_inner t)" "bump mt_updates_update m"])
         (use l Some in \<open>auto simp: snapshot_def\<close>)
    then show ?thesis using l Some k(1) by (simp add: tb_update_def clock_facts(3) [OF t])
  qed
qed

lemma delete_ok:
  assumes t: "table_ok f t" "can_write t" and key: "key \<in> tb_keys t"
  shows "\<exists>t'. if live t key
    then tb_delete key t = Some (Inr (cg_next (tb_csn t)), t') \<and>
      written f t (abs_kill (tb_ki t) key (cg_next (tb_csn t)) (tb_versions t)) t'
    else tb_delete key t = Some (Inl (KeyNotFound (render key)), t') \<and> untouched f t t'"
proof -
  note D = table_okD [OF t(1)] and C = clock_facts [OF t]
  let ?c = "cg_next (tb_csn t)"
  obtain loc m where l: "locate (tb_inner t) key (tb_now t) (tb_metrics t) = Some (loc, m)" "loc = None \<longleftrightarrow> \<not> live t key"
    using locate_live [OF t(1) key, of "tb_metrics t"] by (metis snapshot_def)
  obtain inner1 where i: "(case loc of Some l \<Rightarrow> tombstone (tb_inner t) l ?c | None \<Rightarrow> Some (Inr (), tb_inner t)) = Some (Inr (), inner1)"
    "inner_ok (tb_schema t) inner1" "ti_versions inner1 = abs_kill (tb_ki t) key ?c (ti_versions (tb_inner t))"
    "length (l0_entries (ti_l0 inner1)) = length (l0_entries (ti_l0 (tb_inner t)))"
    "\<And>started. started < ?c \<Longrightarrow> inner_evolved started (tb_inner t) inner1"
    by (rule close_ok [OF D(1,3) key C(1,2) l(1)]) (rule that, assumption+)
  have "store_ok (tb_ki t) f ?c (ti_versions inner1)" unfolding i(3) by (rule store_ok_kill [OF D(3) C(1,2)])
  moreover have "inner_evolved started (tb_inner t) inner1" if "started \<le> tb_now t" for started
    using i(5) that C(1) by auto
  ultimately have w: "written f t (abs_kill (tb_ki t) key ?c (tb_versions t))
      (t\<lparr>tb_inner := inner1, tb_csn := (tb_csn t)\<lparr>cg_next := ?c + 1\<rparr>, tb_metrics := m'\<rparr>)" for m'
    using i(2,3) l0_room_len [OF D(2) i(4)] C(4,5) by (simp add: written_def table_ok_def tb_frame_def tb_versions_def)
  show ?thesis
  proof (cases loc)
    case None
    then show ?thesis using l untouched_metrics [OF t(1)] by (simp add: tb_delete_def snapshot_def)
  next
    case (Some x)
    then show ?thesis using l i(1) w by (simp add: tb_delete_def snapshot_def C(3))
  qed
qed

section \<open>Reads\<close>

lemma view_filter_key: "filter_mset (\<lambda>r. r ! ki = key) (view snap M) = image_mset fst (seen ki key snap M)"
  by (simp add: view_def seen_def filter_mset_image_mset filter_filter_mset conj_commute)

lemma loc_row:
  assumes "inner_ok s inner" "loc_ok inner l"
  shows "(case l of LocL0 i \<Rightarrow> map_option (\<lambda>e. Some (e_row e)) (nth_opt (l0_entries (ti_l0 inner)) i)
    | LocPart pi ord \<Rightarrow> do { p \<leftarrow> nth_opt (ti_parts inner) pi; map_option Some (b_row (p_batch p) (unat ord)) }) =
    Some (Some (fst (loc_version inner l)))"
  using assms by (cases l) (auto simp: entry_version_def inner_ok_def b_row_ok part_okD part_version_nth)

lemma get_ok:
  assumes t: "table_ok f t" and key: "key \<in> tb_keys t" and snap: "f \<le> snap" "snap \<noteq> NEVER_DELETED"
  shows "\<exists>res t'. tb_get key snap t = Some (res, t') \<and> untouched f t t' \<and>
    filter_mset (\<lambda>r. r ! tb_ki t = key) (view snap (tb_versions t)) = (case res of None \<Rightarrow> {#} | Some r \<Rightarrow> {#r#})"
proof -
  note D = table_okD [OF t]
  obtain loc m where l: "locate (tb_inner t) key snap (tb_metrics t) = Some (loc, m)"
    "case loc of None \<Rightarrow> seen (tb_ki t) key snap (tb_versions t) = {#}
      | Some l \<Rightarrow> loc_ok (tb_inner t) l \<and> loc_version (tb_inner t) l \<in># seen (tb_ki t) key snap (tb_versions t)"
    unfolding tb_versions_def using locate_spec [OF D(1) key snap(2), of "tb_metrics t"] by blast
  show ?thesis
  proof (cases loc)
    case None
    then show ?thesis using l untouched_metrics [OF t] by (auto simp: tb_get_def view_filter_key)
  next
    case (Some x)
    then have "seen (tb_ki t) key snap (tb_versions t) = {#loc_version (tb_inner t) x#}"
      using seen_unique [OF D(3) _ snap(1)] l(2) by (simp add: tb_versions_def)
    then show ?thesis using l Some loc_row [OF D(1), of x] untouched_metrics [OF t]
      by (auto simp: tb_get_def view_filter_key)
  qed
qed

definition seg_ok :: "schema \<Rightarrow> segment \<Rightarrow> bool" where
  "seg_ok s seg \<longleftrightarrow> batch_ok (seg_batch seg) \<and> b_schema (seg_batch seg) = s \<and> (\<forall>p. seg = SegPart p \<longrightarrow> part_ok p)"

definition seg_rows :: "segment list \<Rightarrow> row multiset" where
  "seg_rows segs = sum_list (map (\<lambda>seg. mset (batch_rows (seg_batch seg))) segs)"

lemma segments_of_ok:
  assumes A: "arrow_ok A" and snap: "snap \<noteq> NEVER_DELETED" and ps: "\<forall>p \<in> set ps. part_ok p \<and> p_schema p = s"
  shows "\<exists>segs m'. segments_of A snap ps m = Some (segs, m') \<and> (\<forall>seg \<in> set segs. seg_ok s seg) \<and> seg_rows segs = view snap (versions_of ps)"
  using ps
proof (induction ps arbitrary: m)
  case (Cons p ps)
  have p: "part_ok p" "p_schema p = s" using Cons.prems by auto
  have IH: "\<exists>segs m'. segments_of A snap ps m2 = Some (segs, m') \<and> (\<forall>seg \<in> set segs. seg_ok s seg) \<and> seg_rows segs = view snap (versions_of ps)" for m2
    using Cons by simp
  show ?case
  proof (cases "is_fully_visible_to snap p")
    case True
    then have "mset (batch_rows (p_batch p)) = view snap (mset (part_versions p))"
      using fully_visible_list [OF p(1) snap True] map_nth [of "batch_rows (p_batch p)"] by (simp add: view_part)
    then show ?thesis using IH [of "bump mt_scan_fast_path_update m"] True p by (auto simp: seg_ok_def seg_rows_def part_okD)
  next
    case False
    obtain b where "part_scan A p snap = Some b" "batch_ok b" "b_schema b = p_schema p"
      "batch_rows b = map (\<lambda>i. batch_rows (p_batch p) ! i) (visible_list p snap)"
      by (rule part_scan_spec [OF A p(1) snap])
    then show ?thesis using IH [of "bump mt_scan_slow_path_update m"] False p by (auto simp: seg_ok_def seg_rows_def view_part)
  qed
qed (simp add: seg_rows_def)

lemma view_l0: "view snap (mset (map entry_version es)) = mset (map e_row (filter (visible_to snap) es))"
  by (induction es) (auto simp: view_add entry_version_def visible_to_def)

lemma scan_segments_ok:
  assumes A: "arrow_ok A" and t: "table_ok f t" and snap: "snap \<noteq> NEVER_DELETED"
  shows "\<exists>segs t'. scan_segments A snap t = Some (segs, t') \<and> untouched f t t' \<and>
    (\<forall>seg \<in> set segs. seg_ok (tb_schema t) seg) \<and> seg_rows segs = view snap (tb_versions t)"
proof -
  note D = table_okD [OF t]
  have l0: "l0_ok (ti_l0 (tb_inner t))" "l0_schema (ti_l0 (tb_inner t)) = tb_schema t" "decimals_ok (tb_schema t)"
    and ps: "\<forall>p \<in> set (ti_parts (tb_inner t)). part_ok p \<and> p_schema p = tb_schema t"
    using D(1) by (auto simp: inner_ok_def)
  obtain b where b: "l0_scan A (ti_l0 (tb_inner t)) snap = Some b" "batch_ok b" "b_schema b = l0_schema (ti_l0 (tb_inner t))"
    "batch_rows b = map e_row (filter (visible_to snap) (l0_entries (ti_l0 (tb_inner t))))"
    by (rule l0_scan_ok [OF A l0(1), of snap]) (use l0 in auto)
  obtain segs m where s: "segments_of A snap (ti_parts (tb_inner t)) (bump mt_scans_update (tb_metrics t)) = Some (segs, m)"
    "\<forall>seg \<in> set segs. seg_ok (tb_schema t) seg" "seg_rows segs = view snap (versions_of (ti_parts (tb_inner t)))"
    using segments_of_ok [OF A snap ps] by blast
  have v: "view snap (tb_versions t) = mset (batch_rows b) + seg_rows segs"
    by (simp add: tb_versions_def ti_versions_def s(3) b(4) view_l0 [symmetric] del: mset_map)
  have e: "b_is_empty b \<longleftrightarrow> batch_rows b = []"
    by (metis b_is_empty_def b_len_def length_batch_rows length_0_conv)
  show ?thesis
    using b(1-3) s v e l0(2) untouched_metrics [OF t, of m]
    by (auto simp: scan_segments_def seg_ok_def seg_rows_def add.commute)
qed

lemma sum_list_mset_rows: "mset (concat (map batch_rows (map seg_batch segs))) = seg_rows segs"
  by (induction segs) (simp_all add: seg_rows_def)

lemma scan_ok:
  assumes A: "arrow_ok A" and t: "table_ok f t" and snap: "snap \<noteq> NEVER_DELETED"
  shows "\<exists>b t'. tb_scan A snap t = Some (b, t') \<and> untouched f t t' \<and> batch_ok b \<and> mset (batch_rows b) = view snap (tb_versions t)"
proof -
  obtain segs t' where s: "scan_segments A snap t = Some (segs, t')" "untouched f t t'"
    "\<forall>seg \<in> set segs. seg_ok (tb_schema t) seg" "seg_rows segs = view snap (tb_versions t)"
    using scan_segments_ok [OF assms] by blast
  have so: "schema_ok (tb_schema t)" using table_okD(1) [OF t] by (simp add: inner_ok_def)
  obtain b where "b_concat A (tb_schema t) (map seg_batch segs) = Some b" "batch_ok b"
    "batch_rows b = concat (map batch_rows (map seg_batch segs))"
    by (rule b_concat_ok [OF A so, of "map seg_batch segs"]) (use s(3) in \<open>auto simp: seg_ok_def\<close>)
  then show ?thesis using s sum_list_mset_rows [of segs] by (auto simp: tb_scan_def untouched_def tb_frame_def)
qed

lemma row_count_ok:
  assumes t: "table_ok f t" and snap: "snap \<noteq> NEVER_DELETED"
  shows "tb_row_count snap t = Some (size (view snap (tb_versions t)))"
proof -
  have ps: "\<forall>p \<in> set (ti_parts (tb_inner t)). part_ok p" using table_okD(1) [OF t] by (auto simp: inner_ok_def)
  then have "traverse (\<lambda>p. part_visible_count p snap) (ti_parts (tb_inner t)) =
      Some (map (\<lambda>p. length (visible_list p snap)) (ti_parts (tb_inner t)))"
    using part_visible_count_spec snap by (intro traverse_Some) auto
  moreover have "sum_list (map (\<lambda>p. length (visible_list p snap)) qs) = size (view snap (versions_of qs))" for qs
    by (induction qs) (simp_all add: view_part)
  ultimately show ?thesis
    by (simp add: tb_row_count_def tb_versions_def ti_versions_def view_l0 l0_visible_count_def del: mset_map)
qed

section \<open>Key ranges\<close>

definition in_range :: "nat \<Rightarrow> value_t \<Rightarrow> value_t \<Rightarrow> row \<Rightarrow> bool" where
  "in_range ki lo hi r \<longleftrightarrow> total_cmp (r ! ki) lo \<noteq> Less \<and> total_cmp (r ! ki) hi = Less"

lemma range_rows_ok:
  assumes "batch_ok b" "\<forall>i \<in> set is. i < b_len b"
  shows "range_rows lo hi b is = Some (filter (in_range (sc_key_index (b_schema b)) lo hi) (map (\<lambda>i. batch_rows b ! i) is))"
  using assms(2)
  by (induction "is") (auto simp: assms(1) b_key_ok b_row_ok in_range_def batch_key_def nth_batch_rows)

lemma pruned_part:
  assumes p: "part_ok p" and k: "lo \<in> p_keys p" "hi \<in> p_keys p" and pr: "seg_pruned lo hi (SegPart p)"
  shows "filter (in_range (sc_key_index (p_schema p)) lo hi) (batch_rows (p_batch p)) = []"
proof -
  have "\<not> in_range (sc_key_index (p_schema p)) lo hi (batch_rows (p_batch p) ! i)" if i: "i < b_len (p_batch p)" for i
  proof
    assume r: "in_range (sc_key_index (p_schema p)) lo hi (batch_rows (p_batch p) ! i)"
    let ?n = "b_len (p_batch p) - 1"
    have mm: "p_min_key p = p_key p 0" "p_max_key p = p_key p ?n" using p i by (auto simp: part_ok_def)
    have K: "p_key p 0 \<in> p_keys p" "p_key p ?n \<in> p_keys p" "p_key p i \<in> p_keys p" using p_key_in [OF p] i by simp_all
    have m: "vo.le (p_key p 0) (p_key p i)" "vo.le (p_key p i) (p_key p ?n)" using p_key_mono [OF p] i by simp_all
    have "vo.le lo (p_key p i)" "vo.lt (p_key p i) hi"
      using r i vo.not_le [OF k(1) K(3)] by (auto simp: in_range_def batch_key_def nth_batch_rows vo.lt_def vo.le_def)
    moreover have "vo.lt (p_key p ?n) lo \<or> vo.le hi (p_key p 0)"
      using pr vo.not_le [OF k(2) K(1)] by (auto simp: mm vo.lt_def)
    ultimately show False
      using m vo.le_trans [OF k(1) K(3,2)] vo.not_le [OF k(1) K(2)] vo.le_trans [OF k(2) K(1,3)] vo.not_le [OF k(2) K(3)] by blast
  qed
  then show ?thesis by (auto simp: filter_empty_conv in_set_conv_nth)
qed

lemma range_segments_ok:
  assumes "\<forall>seg \<in> set segs. seg_ok s seg" "lo \<in> col_values (key_ty s)" "hi \<in> col_values (key_ty s)"
  shows "\<exists>rs. range_segments lo hi segs = Some rs \<and> mset rs = filter_mset (in_range (sc_key_index s) lo hi) (seg_rows segs)"
  using assms(1)
proof (induction segs)
  case (Cons seg segs)
  then obtain rs where rs: "range_segments lo hi segs = Some rs" "mset rs = filter_mset (in_range (sc_key_index s) lo hi) (seg_rows segs)"
    by auto
  have sg: "batch_ok (seg_batch seg)" "b_schema (seg_batch seg) = s" "\<And>p. seg = SegPart p \<Longrightarrow> part_ok p"
    using Cons.prems by (auto simp: seg_ok_def)
  let ?f = "filter (in_range (sc_key_index s) lo hi) (batch_rows (seg_batch seg))"
  have rr: "range_rows lo hi (seg_batch seg) [0..<b_len (seg_batch seg)] = Some ?f"
    using range_rows_ok [OF sg(1), of "[0..<b_len (seg_batch seg)]" lo hi] map_nth [of "batch_rows (seg_batch seg)"] by (simp add: sg(2))
  have "seg_pruned lo hi seg \<Longrightarrow> ?f = []"
    using pruned_part [of _ lo hi] sg(2,3) assms(2,3) by (cases seg) auto
  then show ?case using rs rr by (cases "seg_pruned lo hi seg") (simp_all add: seg_rows_def flip: mset_filter)
qed (simp add: seg_rows_def)

lemma scan_key_range_ok:
  assumes A: "arrow_ok A" and t: "table_ok f t" and snap: "snap \<noteq> NEVER_DELETED" and k: "lo \<in> tb_keys t" "hi \<in> tb_keys t"
  shows "\<exists>rs t'. scan_key_range A lo hi snap t = Some (rs, t') \<and> untouched f t t' \<and>
    mset rs = filter_mset (in_range (tb_ki t) lo hi) (view snap (tb_versions t))"
proof -
  obtain segs t' where s: "scan_segments A snap t = Some (segs, t')" "untouched f t t'"
    "\<forall>seg \<in> set segs. seg_ok (tb_schema t) seg" "seg_rows segs = view snap (tb_versions t)"
    using scan_segments_ok [OF A t snap] by blast
  then show ?thesis using range_segments_ok [OF s(3) k] by (auto simp: scan_key_range_def)
qed

section \<open>Sealing and compaction\<close>

text \<open>A table whose versions were rearranged, with the clock as it was.\<close>

definition rearranged :: "csn \<Rightarrow> csn \<Rightarrow> table \<Rightarrow> table \<Rightarrow> bool" where
  "rearranged f h t t' \<longleftrightarrow>
     table_ok (max f h) t' \<and> tb_frame t t' \<and> tb_csn t' = tb_csn t \<and>
     (\<forall>snap. h \<le> snap \<longrightarrow> snap \<noteq> NEVER_DELETED \<longrightarrow> view snap (tb_versions t') = view snap (tb_versions t))"

lemma seal_ok:
  assumes A: "arrow_ok A" and t: "table_ok f t" "ti_next_part_id (tb_inner t) \<noteq> - 1"
  shows "\<exists>t'. tb_seal A t = Some t' \<and> table_ok f t' \<and> tb_frame t t' \<and> tb_csn t' = tb_csn t \<and> tb_versions t' = tb_versions t \<and>
    l0_entries (ti_l0 (tb_inner t')) = [] \<and> (\<forall>started. inner_evolved started (tb_inner t) (tb_inner t'))"
proof -
  note D = table_okD [OF t(1)]
  have room: "length (l0_entries (ti_l0 (tb_inner t))) < 2 ^ 32" using D(2) by (simp add: l0_room_def)
  obtain inner' m' where "seal_locked A (tb_inner t) (tb_metrics t) = Some (inner', m')" "inner_ok (tb_schema t) inner'"
    "ti_versions inner' = ti_versions (tb_inner t)" "l0_entries (ti_l0 inner') = []"
    "\<And>started. inner_evolved started (tb_inner t) inner'"
    by (rule seal_locked_ok [OF A D(1) room t(2), of "tb_metrics t"]) (rule that, assumption+)
  then show ?thesis using t(1) D(2) by (simp add: tb_seal_def table_ok_def tb_frame_def tb_versions_def l0_room_def)
qed

lemma stamped_union: "stamped n (M + N) \<longleftrightarrow> stamped n M \<and> stamped n N"
  by (simp add: stamped_def ball_Un)

text \<open>Installing a plan made from earlier states of some of the table's parts.\<close>

lemma install_ok:
  assumes A: "arrow_ok A" and t: "table_ok f t" and mk: "merge_ok (tb_schema t) started ps (ti_parts (tb_inner t))"
    and pl: "plan_merge A ps new_id h started = Some (Some plan)" and h: "h \<le> tb_now t"
    and fresh: "new_id < ti_next_part_id (tb_inner t)" "new_id \<notin> p_id ` set (ti_parts (tb_inner t))"
  obtains merged m' where "apply_plan (ti_parts (tb_inner t)) plan m =
      Some (filter (\<lambda>q. p_id q \<notin> p_id ` set ps) (ti_parts (tb_inner t)) @ [merged], m', length ps)" "p_id merged = new_id"
    "\<And>mt. rearranged f h t (t\<lparr>tb_inner := (tb_inner t)\<lparr>ti_parts := filter (\<lambda>q. p_id q \<notin> p_id ` set ps) (ti_parts (tb_inner t)) @ [merged]\<rparr>, tb_metrics := mt\<rparr>)"
proof -
  let ?parts = "ti_parts (tb_inner t)" and ?keep = "filter (\<lambda>q. p_id q \<notin> p_id ` set ps) (ti_parts (tb_inner t))"
  note D = table_okD [OF t]
  obtain x m' where x: "apply_plan ?parts plan m = Some (?keep @ [x], m', length ps)" "part_ok x" "p_id x = new_id" "p_schema x = tb_schema t"
    "\<And>snap. h \<le> snap \<Longrightarrow> snap \<noteq> NEVER_DELETED \<Longrightarrow>
       view snap (mset (part_versions x)) = view snap (versions_of (filter (\<lambda>q. p_id q \<in> p_id ` set ps) ?parts))"
    "\<And>v. v \<in> set (part_versions x) \<Longrightarrow> \<exists>w \<in># versions_of ?parts. fst (snd v) \<le> fst (snd w) \<and> snd (snd v) = snd (snd w)"
    "\<forall>q \<in> set ?parts. dv_clean q \<Longrightarrow> dv_clean x"
    by (rule apply_plan_ok [OF A mk pl, of m]) (rule that, assumption+)
  let ?inner = "(tb_inner t)\<lparr>ti_parts := ?keep @ [x]\<rparr>"
  have parts: "versions_of ?parts = versions_of (filter (\<lambda>q. p_id q \<in> p_id ` set ps) ?parts) + versions_of ?keep"
    by (rule versions_of_filter)
  have view: "view snap (ti_versions ?inner) = view snap (ti_versions (tb_inner t))" if "h \<le> snap" "snap \<noteq> NEVER_DELETED" for snap
    using x(5) [OF that] by (simp add: ti_versions_def parts add_ac)
  have dc: "dv_clean x" using x(7) D(1) by (auto simp: inner_ok_def)
  have ok: "inner_ok (tb_schema t) ?inner"
    using D(1) x(2-4) dc fresh by (auto simp: inner_ok_def distinct_map inj_on_def)
  have st: "stamped (tb_now t) (ti_versions (tb_inner t))" using D(3) by (simp add: store_ok_def)
  have "stamped (tb_now t) (mset (part_versions x))"
    unfolding stamped_def
  proof (clarify)
    fix r c d assume "(r, c, d) \<in># mset (part_versions x)"
    then obtain w where "w \<in># versions_of ?parts" "c \<le> fst (snd w)" "d = snd (snd w)" using x(6) by fastforce
    then show "c \<le> tb_now t \<and> (d = NEVER_DELETED \<or> d \<le> tb_now t)"
      using st unfolding stamped_def ti_versions_def by (cases w) (auto dest!: bspec intro: order_trans)
  qed
  then have "stamped (tb_now t) (ti_versions ?inner)"
    using st by (simp add: stamped_union ti_versions_def parts del: mset_map)
  then have "store_ok (tb_ki t) (max f h) (tb_now t) (ti_versions ?inner)" by (rule store_ok_transfer [OF D(3) _ h view])
  then have "rearranged f h t (t\<lparr>tb_inner := ?inner, tb_metrics := mt\<rparr>)" for mt
    using ok view D(2,6) by (simp add: rearranged_def table_ok_def tb_frame_def tb_versions_def l0_room_def)
  then show thesis using that x(1,3) by blast
qed

lemma run_merge_ok:
  assumes A: "arrow_ok A" and t: "table_ok f t" "ti_next_part_id (tb_inner t) \<noteq> - 1" and h: "h \<le> tb_now t"
    and ps: "ps \<noteq> []" "set ps \<subseteq> set (ti_parts (tb_inner t))" "distinct ps" "sum_list (map (\<lambda>p. b_len (p_batch p)) ps) < 2 ^ 32"
  shows "\<exists>t'. run_merge A ps h t = Some (length ps, t') \<and> rearranged f h t t'"
proof -
  let ?n = "ti_next_part_id (tb_inner t)" and ?inner = "(tb_inner t)\<lparr>ti_next_part_id := ti_next_part_id (tb_inner t) + 1\<rparr>"
  note D = table_okD [OF t(1)]
  have lt: "x \<le> ?n \<Longrightarrow> x < ?n + 1" for x using less_plus_one_word [OF t(2)] by (auto intro: order.strict_trans1)
  have inner: "inner_ok (tb_schema t) ?inner" using D(1) lt by (auto simp: inner_ok_def)
  let ?t = "t\<lparr>tb_inner := ?inner\<rparr>"
  have tok: "table_ok f ?t" using t(1) inner by (simp add: table_ok_def l0_room_def tb_versions_def ti_versions_def)
  have "distinct (map p_id ps)"
    using ps(2,3) D(1) by (auto simp: inner_ok_def distinct_map intro: inj_on_subset)
  then have mk: "merge_ok (tb_schema t) (tb_now t) ps (ti_parts (tb_inner t))"
    using D(1) ps evolved_refl [of "tb_now t"] by (auto simp: merge_ok_def sources_ok_def inner_ok_def)
  obtain plan where pl: "plan_merge A ps ?n h (tb_now t) = Some (Some plan)"
    by (rule plan_merge_ok [OF A merge_okD(1,2) [OF mk]])
  have fresh: "?n < ti_next_part_id ?inner" "?n \<notin> p_id ` set (ti_parts (tb_inner t))" using lt D(1) by (auto simp: inner_ok_def)
  obtain x m' where "apply_plan (ti_parts ?inner) plan (tb_metrics t) = Some (filter (\<lambda>q. p_id q \<notin> p_id ` set ps) (ti_parts ?inner) @ [x], m', length ps)"
    "\<And>mt. rearranged f h ?t (?t\<lparr>tb_inner := ?inner\<lparr>ti_parts := filter (\<lambda>q. p_id q \<notin> p_id ` set ps) (ti_parts ?inner) @ [x]\<rparr>, tb_metrics := mt\<rparr>)"
    by (rule install_ok [OF A tok, of "tb_now t" ps ?n h plan "tb_metrics t"]) (use mk pl h fresh in auto)
  moreover have "rearranged f h t t' \<longleftrightarrow> rearranged f h ?t t'" for t'
    by (simp add: rearranged_def tb_frame_def tb_versions_def ti_versions_def)
  ultimately show ?thesis using ps(1) pl by (simp add: run_merge_def Let_def)
qed

lemma select_parts_facts: "set (select_parts cp parts) \<subseteq> set parts" "distinct parts \<Longrightarrow> distinct (select_parts cp parts)"
  by (simp_all add: select_parts_def Let_def set_drop_subset)

lemma inner_distinct: "inner_ok s inner \<Longrightarrow> distinct (ti_parts inner)"
  by (simp add: inner_ok_def distinct_map)

section \<open>Recovery\<close>

text \<open>
  During recovery the clock is not yet set, so the invariant is stated for the highest commit number
  \<open>n\<close> replayed so far.
\<close>

definition recovering :: "csn \<Rightarrow> csn \<Rightarrow> table \<Rightarrow> bool" where
  "recovering f n t \<longleftrightarrow> inner_ok (tb_schema t) (tb_inner t) \<and> store_ok (tb_ki t) f n (tb_versions t)"

lemma before_facts:
  assumes "n < (c :: csn)" "c \<noteq> NEVER_DELETED"
  shows "n \<le> before c" "before c < c" "before c \<noteq> NEVER_DELETED"
proof -
  have "c \<noteq> 0" using assms(1) by auto
  then have b: "before c = c - 1" "0 < c" by (simp_all add: before_def word_gt_0)
  then have p: "before c < c" using current_less [of "\<lparr>cg_next = c, cg_active = []\<rparr>"] by (simp add: current_def)
  show "n \<le> before c" using assms(1) b less_iff_le_pred [of c n] by simp
  show "before c < c" by (rule p)
  show "before c \<noteq> NEVER_DELETED" using p by auto
qed

lemma rowid_seen:
  "\<exists>nr. (if sc_synthetic_key s
     then (case k of VInt n \<Rightarrow> inner\<lparr>ti_next_rowid := smax_i64 (ti_next_rowid inner) (n + 1)\<rparr> | _ \<Rightarrow> inner)
     else inner) = inner\<lparr>ti_next_rowid := nr\<rparr>"
proof (cases "sc_synthetic_key s \<and> (\<exists>n. k = VInt n)")
  case False
  then show ?thesis by (intro exI [of _ "ti_next_rowid inner"]) (auto split: value_t.split)
qed auto

lemma replay_insert_ok:
  assumes t: "recovering f n t" and r: "row_ok (tb_schema t) r" and c: "n < c" "c \<noteq> NEVER_DELETED"
  obtains t' where "replay_insert r c t = Some t'" "recovering f c t'" "tb_versions t' = abs_put (tb_ki t) r c (tb_versions t)"
    "tb_frame t t'" "tb_csn t' = tb_csn t" "length (l0_entries (ti_l0 (tb_inner t'))) = Suc (length (l0_entries (ti_l0 (tb_inner t))))"
    "inner_evolved n (tb_inner t) (tb_inner t')"
proof -
  let ?k = "r ! tb_ki t"
  have ok: "inner_ok (tb_schema t) (tb_inner t)" "store_ok (tb_ki t) f n (tb_versions t)" using t by (auto simp: recovering_def)
  note B = before_facts [OF c] and k = row_key_in [OF ok(1) r]
  obtain nr where nr: "(if sc_synthetic_key (tb_schema t)
         then (case ?k of VInt n \<Rightarrow> (tb_inner t)\<lparr>ti_next_rowid := smax_i64 (ti_next_rowid (tb_inner t)) (n + 1)\<rparr> | _ \<Rightarrow> tb_inner t)
         else tb_inner t) = (tb_inner t)\<lparr>ti_next_rowid := nr\<rparr>"
    using rowid_seen [where s = "tb_schema t" and k = ?k and inner = "tb_inner t"] by blast
  let ?i = "(tb_inner t)\<lparr>ti_next_rowid := nr\<rparr>"
  have st: "store_ok (tb_ki t) f (before c) (ti_versions ?i)" using store_ok_mono [OF ok(2) B(1,3)] by (simp add: tb_versions_def)
  have oki: "inner_ok (tb_schema t) ?i" using ok(1) by simp
  obtain loc m where l: "locate ?i ?k (before c) (tb_metrics t) = Some (loc, m)"
    using locate_spec [OF oki k(2) B(3), of "tb_metrics t"] by blast
  obtain i1 where i1: "(case loc of Some l \<Rightarrow> tombstone ?i l c | None \<Rightarrow> Some (Inr (), ?i)) = Some (Inr (), i1)"
    "inner_ok (tb_schema t) i1" "ti_versions i1 = abs_kill (tb_ki t) ?k c (ti_versions ?i)"
    "length (l0_entries (ti_l0 i1)) = length (l0_entries (ti_l0 ?i))"
    "\<And>started. started < c \<Longrightarrow> inner_evolved started ?i i1"
    by (rule close_ok [OF oki st k(2) B(2) c(2) l]) (rule that, assumption+)
  have l0: "l0_ok (ti_l0 i1)" "l0_schema (ti_l0 i1) = tb_schema t" using i1(2) by (auto simp: inner_ok_def)
  obtain b where b: "l0_insert r c (ti_l0 i1) = Some b" "l0_ok b" "l0_schema b = l0_schema (ti_l0 i1)"
    "l0_entries b = l0_entries (ti_l0 i1) @ [\<lparr>e_row = r, e_created = c, e_deleted = NEVER_DELETED\<rparr>]"
    by (rule l0_insert_ok [OF l0(1), of r c]) (use r l0(2) in auto)
  have v: "ti_versions (i1\<lparr>ti_l0 := b\<rparr>) = abs_put (tb_ki t) r c (tb_versions t)"
    using i1(3) b(4) by (simp add: ti_versions_def abs_put_def entry_version_def tb_versions_def)
  have "(case loc of None \<Rightarrow> Some ?i | Some l \<Rightarrow> map_option snd (tombstone ?i l c)) = Some i1"
    using i1(1) by (cases loc) auto
  then have "replay_insert r c t = Some (t\<lparr>tb_inner := i1\<lparr>ti_l0 := b\<rparr>, tb_metrics := m\<rparr>)"
    unfolding replay_insert_def k(1) bind.bind_lunit Let_def nr l prod.case by (simp only: bind.bind_lunit b(1))
  moreover have "store_ok (tb_ki t) f c (abs_put (tb_ki t) r c (tb_versions t))" by (rule store_ok_put [OF ok(2) c])
  ultimately show thesis using that v i1(2,4) i1(5) [OF c(1)] b l0(2) by (simp add: recovering_def tb_versions_def tb_frame_def inner_ok_def)
qed

lemma replay_delete_ok:
  assumes t: "recovering f n t" and key: "key \<in> tb_keys t" and c: "n < c" "c \<noteq> NEVER_DELETED"
  obtains t' where "replay_delete key c t = Some t'" "recovering f c t'" "tb_versions t' = abs_kill (tb_ki t) key c (tb_versions t)"
    "tb_frame t t'" "tb_csn t' = tb_csn t" "length (l0_entries (ti_l0 (tb_inner t'))) = length (l0_entries (ti_l0 (tb_inner t)))"
    "inner_evolved n (tb_inner t) (tb_inner t')"
proof -
  have ok: "inner_ok (tb_schema t) (tb_inner t)" "store_ok (tb_ki t) f n (tb_versions t)" using t by (auto simp: recovering_def)
  note B = before_facts [OF c]
  have st: "store_ok (tb_ki t) f (before c) (ti_versions (tb_inner t))" using store_ok_mono [OF ok(2) B(1,3)] by (simp add: tb_versions_def)
  obtain loc m where l: "locate (tb_inner t) key (before c) (tb_metrics t) = Some (loc, m)"
    using locate_spec [OF ok(1) key B(3), of "tb_metrics t"] by blast
  obtain i1 where i1: "(case loc of Some l \<Rightarrow> tombstone (tb_inner t) l c | None \<Rightarrow> Some (Inr (), tb_inner t)) = Some (Inr (), i1)"
    "inner_ok (tb_schema t) i1" "ti_versions i1 = abs_kill (tb_ki t) key c (ti_versions (tb_inner t))"
    "length (l0_entries (ti_l0 i1)) = length (l0_entries (ti_l0 (tb_inner t)))"
    "\<And>started. started < c \<Longrightarrow> inner_evolved started (tb_inner t) i1"
    by (rule close_ok [OF ok(1) st key B(2) c(2) l]) (rule that, assumption+)
  have "(case loc of None \<Rightarrow> Some (tb_inner t) | Some l \<Rightarrow> map_option snd (tombstone (tb_inner t) l c)) = Some i1"
    using i1(1) by (cases loc) auto
  then have "replay_delete key c t = Some (t\<lparr>tb_inner := i1, tb_metrics := m\<rparr>)" unfolding replay_delete_def using l by simp
  moreover have "store_ok (tb_ki t) f c (abs_kill (tb_ki t) key c (tb_versions t))" by (rule store_ok_kill [OF ok(2) c])
  ultimately show thesis using that i1(1-4) i1(5) [OF c(1)] by (simp add: recovering_def tb_versions_def tb_frame_def)
qed

section \<open>Properties\<close>

text \<open>A new table with a new clock.\<close>

lemma table_new_ok:
  assumes "schema_ok s" "decimals_ok s" "sc_synthetic_key s \<longrightarrow> key_ty s = TInt" "tc_seal_threshold cfg < 2 ^ 32" "0 < cg_next g"
  shows "table_ok 0 (table_new name s g m cfg)"
proof -
  have "current g < cg_next g" by (rule current_less [OF assms(5)])
  then have "store_ok (sc_key_index s) 0 (current g) {#}" by (intro store_ok_empty) auto
  then show ?thesis
    using assms l0_ok_new [OF assms(1)]
    by (simp add: table_ok_def table_new_def inner_ok_def tb_versions_def ti_versions_def l0_room_def l0_new_def)
qed

text \<open>A new table over the sample schema, for the worked instances.\<close>

definition sample_table :: table where
  "sample_table = table_new ''t'' sample_schema csn_new metrics_new default_config"

lemma sample_not_synthetic: "\<not> sc_synthetic_key sample_schema"
  by (simp add: sample_schema_def)

lemma sample_table_ok: "table_ok 0 sample_table" "can_write sample_table"
  using table_new_ok [of sample_schema default_config csn_new "''t''" metrics_new] sample_schema_ok sample_not_synthetic
  by (auto simp: sample_table_def default_config_def csn_new_def FIRST_CSN_def can_write_def table_new_def)

lemma sample_table_facts:
  "tb_schema sample_table = sample_schema" "tb_versions sample_table = {#}" "cg_next (tb_csn sample_table) = 1"
  "tb_now sample_table = 0" "\<not> live sample_table key" "stored_row sample_table r = r"
  by (simp_all add: sample_table_def table_new_def tb_versions_def ti_versions_def l0_new_def csn_new_def FIRST_CSN_def
      current_def live_def seen_def stored_row_def fill_rowid_def sample_not_synthetic)

text \<open>
  C18. An insert adds exactly one version, the row with its row id filled in, stamped with the next commit number, when no
  live row has its key; otherwise it reports the duplicate and changes no row and not the clock. In both
  cases the table stays well formed, and nothing panics.
\<close>

theorem insert_refines:
  assumes "arrow_ok A" "table_ok f t" "can_write t" "row_ok (tb_schema t) r"
  shows "\<exists>t'. if live t (stored_row t r ! tb_ki t)
    then tb_insert A r t = Some (Inl (DuplicateKey (render (stored_row t r ! tb_ki t))), t') \<and> untouched f t t'
    else tb_insert A r t = Some (Inr (cg_next (tb_csn t)), t') \<and>
      written f t (abs_put (tb_ki t) (stored_row t r) (cg_next (tb_csn t)) (tb_versions t)) t' \<and>
      view (cg_next (tb_csn t)) (tb_versions t') = add_mset (stored_row t r) (view (tb_now t) (tb_versions t))"
proof (cases "live t (stored_row t r ! tb_ki t)")
  case True
  then show ?thesis using insert_returning_ok [OF assms] by (auto simp: insert_eq_returning)
next
  case False
  let ?r = "stored_row t r"
  obtain t' where t': "tb_insert_returning A r t = Some (Inr (cg_next (tb_csn t), ?r), t')"
      "written f t (abs_put (tb_ki t) ?r (cg_next (tb_csn t)) (tb_versions t)) t'"
    using insert_returning_ok [OF assms] False by auto
  have "\<forall>x \<in># view (tb_now t) (tb_versions t). x ! tb_ki t \<noteq> ?r ! tb_ki t"
    using False by (auto simp: live_def view_def seen_empty_iff)
  then have "filter_mset (\<lambda>x. x ! tb_ki t \<noteq> ?r ! tb_ki t) (view (tb_now t) (tb_versions t)) = view (tb_now t) (tb_versions t)"
    by (simp add: filter_mset_eq_conv)
  then have "view (cg_next (tb_csn t)) (tb_versions t') = add_mset ?r (view (tb_now t) (tb_versions t))"
    using view_put_now [OF table_okD(3) [OF assms(2)] clock_facts(1,2) [OF assms(2,3)], of ?r] t'(2)
    by (simp add: written_def tb_versions_def)
  then show ?thesis using t' False by (auto simp: insert_eq_returning)
qed

theorem insert_refines_witness:
  "\<exists>t'. tb_insert ref_arrow [VInt 1, VText ''x''] sample_table = Some (Inr 1, t') \<and> view 1 (tb_versions t') = {#[VInt 1, VText ''x'']#}"
  using insert_refines [OF arrow_ok_ref sample_table_ok, of "[VInt 1, VText ''x'']"] sample_schema_ok(3) [of 1 "''x''"]
  by (auto simp: sample_table_facts view_def)

text \<open>
  C19. An upsert always succeeds: the rows visible at its commit number are the rows visible before
  without those of its key, plus the new row; no write conflict can be reported, because the live version that is
  located can always be closed.
\<close>

theorem upsert_refines:
  assumes "arrow_ok A" "table_ok f t" "can_write t" "row_ok (tb_schema t) r"
  shows "\<exists>t'. tb_upsert A r t = Some (Inr (cg_next (tb_csn t)), t') \<and>
    written f t (abs_put (tb_ki t) (stored_row t r) (cg_next (tb_csn t)) (tb_versions t)) t' \<and>
    view (cg_next (tb_csn t)) (tb_versions t') =
      add_mset (stored_row t r) (filter_mset (\<lambda>x. x ! tb_ki t \<noteq> stored_row t r ! tb_ki t) (view (tb_now t) (tb_versions t)))"
  using upsert_returning_ok [OF assms] view_put_now [OF table_okD(3) [OF assms(2)] clock_facts(1,2) [OF assms(2,3)], of "stored_row t r"]
  by (auto simp: upsert_eq_returning written_def tb_versions_def)

theorem upsert_refines_witness:
  "\<exists>t'. tb_upsert ref_arrow [VInt 1, VText ''x''] sample_table = Some (Inr 1, t') \<and> view 1 (tb_versions t') = {#[VInt 1, VText ''x'']#}"
  using upsert_refines [OF arrow_ok_ref sample_table_ok, of "[VInt 1, VText ''x'']"] sample_schema_ok(3) [of 1 "''x''"]
  by (auto simp: sample_table_facts view_def)

text \<open>
  C20. An update of a live key replaces its row under the next commit number; of any other key it reports that the key
  is not found and changes nothing.
\<close>

theorem update_refines:
  assumes "arrow_ok A" "table_ok f t" "can_write t" "row_ok (tb_schema t) r"
  shows "\<exists>t'. if live t (r ! tb_ki t)
    then tb_update A r t = Some (Inr (cg_next (tb_csn t)), t') \<and>
      written f t (abs_put (tb_ki t) r (cg_next (tb_csn t)) (tb_versions t)) t'
    else tb_update A r t = Some (Inl (KeyNotFound (render (r ! tb_ki t))), t') \<and> untouched f t t'"
  by (rule update_ok [OF assms])

theorem update_refines_witness:
  "\<exists>t'. tb_update ref_arrow [VInt 1, VText ''x''] sample_table = Some (Inl (KeyNotFound (render (VInt 1))), t') \<and> tb_versions t' = {#}"
  using update_refines [OF arrow_ok_ref sample_table_ok, of "[VInt 1, VText ''x'']"] sample_schema_ok(3) [of 1 "''x''"]
  by (auto simp: sample_table_facts untouched_def sample_schema_ok(5))

text \<open>
  C21. A delete of a live key closes its version, so that from its commit number on no row of the key is
  visible; of any other key it reports that the key is not found and changes nothing.
\<close>

theorem delete_refines:
  assumes "table_ok f t" "can_write t" "key \<in> tb_keys t"
  shows "\<exists>t'. if live t key
    then tb_delete key t = Some (Inr (cg_next (tb_csn t)), t') \<and>
      written f t (abs_kill (tb_ki t) key (cg_next (tb_csn t)) (tb_versions t)) t' \<and>
      view (cg_next (tb_csn t)) (tb_versions t') = filter_mset (\<lambda>x. x ! tb_ki t \<noteq> key) (view (tb_now t) (tb_versions t))
    else tb_delete key t = Some (Inl (KeyNotFound (render key)), t') \<and> untouched f t t'"
  using delete_ok [OF assms] view_kill_now [OF table_okD(3) [OF assms(1)] clock_facts(1,2) [OF assms(1,2)], of key]
  by (auto simp: written_def tb_versions_def)

theorem delete_refines_witness:
  "\<exists>t'. tb_delete (VInt 1) sample_table = Some (Inl (KeyNotFound (render (VInt 1))), t') \<and> tb_versions t' = {#}"
  using delete_refines [OF sample_table_ok, of "VInt 1"]
  by (auto simp: sample_table_facts untouched_def sample_schema_ok(4) col_values_def)

text \<open>
  C22. A point read is exact: for every snapshot not below the reclaimed history it returns the row of the
  key that the snapshot sees, of which there is at most one, and nothing when there is none.
\<close>

theorem get_exact:
  assumes "table_ok f t" "key \<in> tb_keys t" "f \<le> snap" "snap \<noteq> NEVER_DELETED"
  shows "\<exists>res t'. tb_get key snap t = Some (res, t') \<and> untouched f t t' \<and>
    filter_mset (\<lambda>r. r ! tb_ki t = key) (view snap (tb_versions t)) = (case res of None \<Rightarrow> {#} | Some r \<Rightarrow> {#r#})"
  by (rule get_ok [OF assms])

theorem get_exact_witness:
  "\<exists>t' u. tb_insert ref_arrow [VInt 1, VText ''x''] sample_table = Some (Inr 1, t') \<and>
     tb_get (VInt 1) 1 t' = Some (Some [VInt 1, VText ''x''], u)"
proof -
  obtain t' where t': "tb_insert_returning ref_arrow [VInt 1, VText ''x''] sample_table = Some (Inr (1, [VInt 1, VText ''x'']), t')"
    "written 0 sample_table (abs_put 0 [VInt 1, VText ''x''] 1 {#}) t'"
    using insert_returning_ok [OF arrow_ok_ref sample_table_ok, of "[VInt 1, VText ''x'']"] sample_schema_ok(3) [of 1 "''x''"]
    by (auto simp: sample_table_facts sample_schema_ok(5))
  then have ok: "table_ok 0 t'" "tb_schema t' = sample_schema" "tb_versions t' = {#([VInt 1, VText ''x''], 1, NEVER_DELETED)#}"
    by (auto simp: written_def tb_frame_def sample_table_facts abs_put_def abs_kill_def)
  have "sees 1 1 NEVER_DELETED" "(1 :: u64) \<noteq> NEVER_DELETED" by (code_simp+)
  then show ?thesis
    using get_exact [OF ok(1), of "VInt 1" 1] t'(1)
    by (auto simp: ok sample_schema_ok(4,5) col_values_def view_def insert_eq_returning split: option.splits)
qed

text \<open>
  C23. A full scan returns exactly the rows the snapshot sees, whatever is spread over the buffer and the parts and
  whichever parts take the zero-copy path; the row count is their number.
\<close>

theorem scan_exact:
  assumes "arrow_ok A" "table_ok f t" "snap \<noteq> NEVER_DELETED"
  shows "\<exists>b t'. tb_scan A snap t = Some (b, t') \<and> untouched f t t' \<and> batch_ok b \<and>
    mset (batch_rows b) = view snap (tb_versions t) \<and> tb_row_count snap t = Some (b_len b)"
proof -
  obtain b t' where b: "tb_scan A snap t = Some (b, t')" "untouched f t t'" "batch_ok b" "mset (batch_rows b) = view snap (tb_versions t)"
    using scan_ok [OF assms] by blast
  have "b_len b = size (view snap (tb_versions t))" using arg_cong [OF b(4), of size] by simp
  then show ?thesis using b row_count_ok [OF assms(2,3)] by auto
qed

theorem scan_exact_witness: "\<exists>b t'. tb_scan ref_arrow 0 sample_table = Some (b, t') \<and> batch_rows b = []"
proof -
  have "(0 :: u64) \<noteq> NEVER_DELETED" by code_simp
  then show ?thesis using scan_exact [OF arrow_ok_ref sample_table_ok(1), of 0] by (auto simp: sample_table_facts view_def)
qed

text \<open>
  A key-range scan returns exactly the visible rows with a key in the half-open range; skipping the parts whose
  key bounds do not meet the range loses nothing.
\<close>

theorem key_range_exact:
  assumes "arrow_ok A" "table_ok f t" "snap \<noteq> NEVER_DELETED" "lo \<in> tb_keys t" "hi \<in> tb_keys t"
  shows "\<exists>rs t'. scan_key_range A lo hi snap t = Some (rs, t') \<and> untouched f t t' \<and>
    mset rs = filter_mset (\<lambda>r. total_cmp (r ! tb_ki t) lo \<noteq> Less \<and> total_cmp (r ! tb_ki t) hi = Less) (view snap (tb_versions t))"
  using scan_key_range_ok [OF assms] by (simp add: in_range_def [abs_def])

theorem key_range_exact_witness: "\<exists>t'. scan_key_range ref_arrow (VInt 1) (VInt 5) 0 sample_table = Some ([], t')"
proof -
  have "(0 :: u64) \<noteq> NEVER_DELETED" by code_simp
  then show ?thesis using key_range_exact [OF arrow_ok_ref sample_table_ok(1), of 0 "VInt 1" "VInt 5"]
    by (auto simp: sample_table_facts view_def col_values_def sample_schema_ok(4))
qed

lemma sum_list_drop_le: "sum_list (map g (drop k xs)) \<le> (sum_list (map g xs) :: nat)"
  by (metis append_take_drop_id le_add2 map_append sum_list_append)

lemma compact_ok:
  assumes "arrow_ok A" "table_ok f t" "ti_next_part_id (tb_inner t) \<noteq> - 1" "h \<le> tb_now t"
    "sum_list (map (\<lambda>p. b_len (p_batch p)) (ti_parts (tb_inner t))) < 2 ^ 32"
  shows "(\<exists>n t'. maybe_compact A h t = Some (n, t') \<and> rearranged f h t t') \<and> (\<exists>n t'. force_compact A h t = Some (n, t') \<and> rearranged f h t t')"
proof -
  let ?parts = "ti_parts (tb_inner t)" and ?sel = "select_parts (tc_compaction (tb_config t)) (ti_parts (tb_inner t))"
  have self: "rearranged f h t t" using assms(2,4) store_ok_transfer [OF table_okD(3) [OF assms(2)], of "ti_versions (tb_inner t)" h]
    by (simp add: rearranged_def tb_frame_def table_ok_def tb_versions_def store_ok_def)
  have d: "distinct ?parts" using table_okD(1) [OF assms(2)] by (rule inner_distinct)
  have run: "\<exists>n t'. run_merge A ps h t = Some (n, t') \<and> rearranged f h t t'"
    if "set ps \<subseteq> set ?parts" "distinct ps" "sum_list (map (\<lambda>p. b_len (p_batch p)) ps) < 2 ^ 32" for ps
    using run_merge_ok [OF assms(1-4), of ps] that self by (cases "ps = []") (auto simp: run_merge_def)
  have "sum_list (map (\<lambda>p. b_len (p_batch p)) ?sel) \<le> sum_list (map (\<lambda>p. b_len (p_batch p)) ?parts)"
    unfolding select_parts_def Let_def by (rule sum_list_drop_le)
  then show ?thesis
    using run [of ?sel] run [of ?parts] select_parts_facts [where cp = "tc_compaction (tb_config t)" and parts = ?parts] d self assms(5)
    by (auto simp: maybe_compact_def force_compact_def Let_def)
qed

text \<open>
  C24. Compacting a table, by policy or by force, against any horizon up to the current commit number never panics, keeps
  the table well formed, and is invisible to every snapshot at or above the horizon.
\<close>

theorem compact_keeps_views:
  assumes "arrow_ok A" "table_ok f t" "ti_next_part_id (tb_inner t) \<noteq> - 1" "h \<le> tb_now t"
    "sum_list (map (\<lambda>p. b_len (p_batch p)) (ti_parts (tb_inner t))) < 2 ^ 32"
  shows "(\<exists>n t'. maybe_compact A h t = Some (n, t') \<and> rearranged f h t t') \<and> (\<exists>n t'. force_compact A h t = Some (n, t') \<and> rearranged f h t t')"
  using compact_ok [OF assms] .

theorem compact_keeps_views_witness:
  "\<exists>n t'. force_compact ref_arrow 0 sample_table = Some (n, t') \<and> view 0 (tb_versions t') = {#}"
proof -
  have z: "(0 :: u64) \<noteq> NEVER_DELETED" by code_simp
  have "\<exists>n t'. force_compact ref_arrow 0 sample_table = Some (n, t') \<and> rearranged 0 0 sample_table t'"
    using compact_keeps_views [OF arrow_ok_ref sample_table_ok(1), of 0] sample_table_ok(2)
    by (simp add: can_write_def sample_table_facts) (simp add: sample_table_def table_new_def)
  then show ?thesis using z by (auto simp: rearranged_def sample_table_facts view_def)
qed

text \<open>
  Replaying a logged write during recovery, on a table whose stamps all lie below the logged commit number,
  gives exactly the versions that the write gave when it was first executed: the row's key is closed at that number and
  the row added, or the key closed. So a replay reproduces the stamps, and with them every snapshot.
\<close>

theorem replay_refines:
  assumes "recovering f n t" "n < c" "c \<noteq> NEVER_DELETED"
  shows "(row_ok (tb_schema t) r \<longrightarrow> (\<exists>t'. replay_insert r c t = Some t' \<and> recovering f c t' \<and>
      tb_versions t' = abs_put (tb_ki t) r c (tb_versions t))) \<and>
    (key \<in> tb_keys t \<longrightarrow> (\<exists>t'. replay_delete key c t = Some t' \<and> recovering f c t' \<and>
      tb_versions t' = abs_kill (tb_ki t) key c (tb_versions t)))"
  using replay_insert_ok [OF assms(1) _ assms(2,3), of r] replay_delete_ok [OF assms(1) _ assms(2,3), of key] by metis

theorem replay_refines_witness:
  "\<exists>t' t''. replay_insert [VInt 1, VText ''x''] 5 sample_table = Some t' \<and> replay_delete (VInt 1) 6 t' = Some t'' \<and>
     tb_versions t'' = {#([VInt 1, VText ''x''], 5, 6)#}"
proof -
  have w: "(0 :: u64) < 5" "(5 :: u64) < 6" "(5 :: u64) \<noteq> NEVER_DELETED" "(6 :: u64) \<noteq> NEVER_DELETED" by (code_simp+)
  have r0: "recovering 0 0 sample_table" using sample_table_ok(1) by (simp add: recovering_def table_ok_def sample_table_facts)
  obtain t' where t': "replay_insert [VInt 1, VText ''x''] 5 sample_table = Some t'" "recovering 0 5 t'" "tb_frame sample_table t'"
    "tb_versions t' = abs_put 0 [VInt 1, VText ''x''] 5 {#}"
    by (rule replay_insert_ok [OF r0 _ w(1,3), of "[VInt 1, VText ''x'']"]) (use sample_schema_ok(3,5) in \<open>auto simp: sample_table_facts\<close>)
  moreover have "tb_schema t' = sample_schema" using t'(3) by (simp add: tb_frame_def sample_table_facts)
  ultimately show ?thesis using replay_refines [OF t'(2) w(2,4), of "[]" "VInt 1"]
    by (auto simp: abs_put_def abs_kill_def sample_schema_ok(4,5) col_values_def)
qed

end
