(* ===== verification/Ck_Isolation.thy ===== *)
theory Ck_Isolation
  imports Ck_TableOk
begin

text \<open>
  Readers, writers and compactions of one table, interleaved.  A state is the table with its clock, the
  multiset of snapshots that readers hold pinned, and the merges that are planned and not yet installed.
  Every operation that runs under the table's write lock is one step; a merge is two steps, the planning
  (reservation of the part number, start number and the copy of the sources' delete vectors) and
  the installation, with any other steps in between.  The horizon of a merge is at most the one the clock reports when
  it is planned.

  The invariant of this machine gives snapshot isolation: what a pinned snapshot sees never changes.
\<close>

section \<open>The machine\<close>

record merge_job =
  mj_sources :: "part list"
  mj_horizon :: csn
  mj_started :: csn
  mj_id :: u64
  mj_plan :: merge_plan

type_synonym sys = "table \<times> csn multiset \<times> merge_job list"

text \<open>The table after installing a plan, as in the second phase of \<open>run_merge\<close>.\<close>

definition install_plan :: "merge_plan \<Rightarrow> table \<Rightarrow> (nat \<times> table) option" where
  "install_plan plan t =
     do {
       (parts, m, n) \<leftarrow> apply_plan (ti_parts (tb_inner t)) plan (tb_metrics t);
       Some (n, t\<lparr>tb_inner := (tb_inner t)\<lparr>ti_parts := parts\<rparr>, tb_metrics := m\<rparr>) }"

inductive sys_step :: "arrow \<Rightarrow> sys \<Rightarrow> sys \<Rightarrow> bool" for A where
  sys_insert: "can_write t \<Longrightarrow> row_ok (tb_schema t) r \<Longrightarrow> tb_insert A r t = Some (res, t') \<Longrightarrow> sys_step A (t, L, J) (t', L, J)"
| sys_upsert: "can_write t \<Longrightarrow> row_ok (tb_schema t) r \<Longrightarrow> tb_upsert A r t = Some (res, t') \<Longrightarrow> sys_step A (t, L, J) (t', L, J)"
| sys_update: "can_write t \<Longrightarrow> row_ok (tb_schema t) r \<Longrightarrow> tb_update A r t = Some (res, t') \<Longrightarrow> sys_step A (t, L, J) (t', L, J)"
| sys_delete: "can_write t \<Longrightarrow> key \<in> tb_keys t \<Longrightarrow> tb_delete key t = Some (res, t') \<Longrightarrow> sys_step A (t, L, J) (t', L, J)"
| sys_seal: "can_write t \<Longrightarrow> tb_seal A t = Some t' \<Longrightarrow> sys_step A (t, L, J) (t', L, J)"
| sys_pin: "size L + 1 < 2 ^ 64 \<Longrightarrow> pin (tb_csn t) = (c, g) \<Longrightarrow> sys_step A (t, L, J) (t\<lparr>tb_csn := g\<rparr>, add_mset c L, J)"
| sys_release: "c \<in># L \<Longrightarrow> sys_step A (t, L, J) (t\<lparr>tb_csn := release c (tb_csn t)\<rparr>, L - {#c#}, J)"
| sys_plan: "can_write t \<Longrightarrow> ps \<noteq> [] \<Longrightarrow> set ps \<subseteq> set (ti_parts (tb_inner t)) \<Longrightarrow> distinct ps \<Longrightarrow>
    sum_list (map (\<lambda>p. b_len (p_batch p)) ps) < 2 ^ 32 \<Longrightarrow> h \<le> gc_horizon (tb_csn t) \<Longrightarrow>
    new_id = ti_next_part_id (tb_inner t) \<Longrightarrow> plan_merge A ps new_id h (current (tb_csn t)) = Some (Some plan) \<Longrightarrow>
    sys_step A (t, L, J) (t\<lparr>tb_inner := (tb_inner t)\<lparr>ti_next_part_id := new_id + 1\<rparr>\<rparr>, L,
      \<lparr>mj_sources = ps, mj_horizon = h, mj_started = current (tb_csn t), mj_id = new_id, mj_plan = plan\<rparr> # J)"
| sys_install: "job \<in> set J \<Longrightarrow> install_plan (mj_plan job) t = Some (n, t') \<Longrightarrow> sys_step A (t, L, J) (t', L, remove1 job J)"

inductive_cases sys_stepE: "sys_step A s s'"

section \<open>The invariant\<close>

definition job_ok :: "arrow \<Rightarrow> table \<Rightarrow> merge_job \<Rightarrow> bool" where
  "job_ok A t job \<longleftrightarrow>
     plan_merge A (mj_sources job) (mj_id job) (mj_horizon job) (mj_started job) = Some (Some (mj_plan job)) \<and>
     sources_ok (tb_schema t) (mj_sources job) \<and> mj_sources job \<noteq> [] \<and>
     mj_horizon job \<le> gc_horizon (tb_csn t) \<and> mj_started job \<le> tb_now t \<and>
     mj_id job < ti_next_part_id (tb_inner t) \<and> mj_id job \<notin> p_id ` set (ti_parts (tb_inner t)) \<and>
     (\<forall>p \<in> set (mj_sources job). p_id p < ti_next_part_id (tb_inner t) \<and>
        (p_id p \<in> p_id ` set (ti_parts (tb_inner t)) \<longrightarrow> (\<exists>q \<in> set (ti_parts (tb_inner t)). evolved (mj_started job) p q)))"

definition jobs_ok :: "arrow \<Rightarrow> table \<Rightarrow> merge_job list \<Rightarrow> bool" where
  "jobs_ok A t J \<longleftrightarrow>
     (\<forall>job \<in> set J. job_ok A t job) \<and> distinct (map mj_id J) \<and>
     (\<forall>job \<in> set J. \<forall>k \<in> set J. mj_id k \<notin> p_id ` set (mj_sources job))"

fun sys_ok :: "arrow \<Rightarrow> sys \<Rightarrow> bool" where
  "sys_ok A (t, L, J) \<longleftrightarrow>
     (\<exists>f. table_ok f t \<and> f \<le> gc_horizon (tb_csn t)) \<and> csn_inv (tb_csn t, L) \<and> jobs_ok A t J"

text \<open>What the steps other than an installation do to the table.\<close>

definition advanced :: "csn \<Rightarrow> table \<Rightarrow> table \<Rightarrow> bool" where
  "advanced f t t' \<longleftrightarrow>
     table_ok f t' \<and> tb_frame t t' \<and>
     (tb_csn t' = tb_csn t \<or> cg_next (tb_csn t) \<noteq> - 1 \<and> tb_csn t' = snd (allocate (tb_csn t))) \<and>
     (\<forall>snap. snap \<le> tb_now t \<longrightarrow> view snap (tb_versions t') = view snap (tb_versions t)) \<and>
     (\<forall>started. started \<le> tb_now t \<longrightarrow> inner_evolved started (tb_inner t) (tb_inner t'))"

lemma untouched_advanced: "untouched f t t' \<Longrightarrow> advanced f t t'"
  by (simp add: untouched_def advanced_def inner_evolved_same)

lemma written_advanced:
  assumes t: "table_ok f t" "can_write t" and w: "written f t M t'"
    and M: "M = abs_put (tb_ki t) r (cg_next (tb_csn t)) (tb_versions t) \<or> M = abs_kill (tb_ki t) key (cg_next (tb_csn t)) (tb_versions t)"
  shows "advanced f t t'"
proof -
  note C = clock_facts [OF t]
  have st: "stamped (tb_now t) (tb_versions t)" using t(1) by (simp add: table_ok_def store_ok_def)
  have v: "tb_versions t' = M" using w by (simp add: written_def)
  have "view snap (tb_versions t') = view snap (tb_versions t)" if "snap \<le> tb_now t" for snap
  proof -
    have "snap < cg_next (tb_csn t)" using that C(1) by (rule order.strict_trans1)
    then show ?thesis unfolding v using M view_put_past [OF st C(1,2)] view_kill_past [OF st C(1,2)] by auto
  qed
  moreover have "cg_next (tb_csn t') = cg_next (tb_csn t) + 1" "cg_active (tb_csn t') = cg_active (tb_csn t)"
    using w by (auto simp: written_def current_def tb_frame_def algebra_simps)
  then have "tb_csn t' = snd (allocate (tb_csn t))" unfolding C(3) by (intro csn_gen.equality) auto
  ultimately show ?thesis using w t(2) by (simp add: advanced_def written_def can_write_def)
qed

lemma ops_advanced:
  assumes A: "arrow_ok A" and t: "table_ok f t" "can_write t"
  shows "row_ok (tb_schema t) r \<Longrightarrow> tb_insert A r t = Some (res, t') \<Longrightarrow> advanced f t t'"
    "row_ok (tb_schema t) r \<Longrightarrow> tb_upsert A r t = Some (res, t') \<Longrightarrow> advanced f t t'"
    "row_ok (tb_schema t) r \<Longrightarrow> tb_update A r t = Some (res, t') \<Longrightarrow> advanced f t t'"
    "key \<in> tb_keys t \<Longrightarrow> tb_delete key t = Some (res, t') \<Longrightarrow> advanced f t t'"
    "tb_seal A t = Some t' \<Longrightarrow> advanced f t t'"
proof -
  note W = written_advanced [OF t _ disjI1 [OF refl]] written_advanced [OF t _ disjI2 [OF refl]] and U = untouched_advanced [of f t]
  show "row_ok (tb_schema t) r \<Longrightarrow> tb_insert A r t = Some (res, t') \<Longrightarrow> advanced f t t'"
    using insert_returning_ok [OF A t, of r] W U by (auto simp: insert_eq_returning split: if_splits)
  show "row_ok (tb_schema t) r \<Longrightarrow> tb_upsert A r t = Some (res, t') \<Longrightarrow> advanced f t t'"
    using upsert_returning_ok [OF A t, of r] W by (auto simp: upsert_eq_returning)
  show "row_ok (tb_schema t) r \<Longrightarrow> tb_update A r t = Some (res, t') \<Longrightarrow> advanced f t t'"
    using update_ok [OF A t, of r] W U by (auto split: if_splits)
  show "key \<in> tb_keys t \<Longrightarrow> tb_delete key t = Some (res, t') \<Longrightarrow> advanced f t t'"
    using delete_ok [OF t, of key] W U by (auto split: if_splits)
  show "tb_seal A t = Some t' \<Longrightarrow> advanced f t t'"
    using seal_ok [OF A t(1)] t(2) by (auto simp: can_write_def advanced_def)
qed

lemma clock_step:
  assumes "csn_inv (g, L)" "g' = g \<or> cg_next g \<noteq> - 1 \<and> g' = snd (allocate g)"
  shows "csn_inv (g', L)" "gc_horizon g \<le> gc_horizon g'" "current g \<le> current g'"
proof -
  have "g' = g \<or> csn_step (g, L) (g', L)" using assms(2) step_allocate [of g L] by auto
  then show "csn_inv (g', L)" "gc_horizon g \<le> gc_horizon g'" "current g \<le> current g'"
    using csn_inv_step [OF _ assms(1)] gc_horizon_mono [OF _ assms(1)] current_mono [OF _ assms(1)] assms(1) by fastforce+
qed

lemma job_ok_advanced:
  assumes t: "table_ok f t" "csn_inv (tb_csn t, L)" and a: "advanced f t t'" and j: "job_ok A t job"
  shows "job_ok A t' job"
proof -
  let ?i = "tb_inner t" and ?i' = "tb_inner t'"
  note K = clock_step [OF t(2), of "tb_csn t'"]
  have fr: "tb_schema t' = tb_schema t" and g: "tb_csn t' = tb_csn t \<or> cg_next (tb_csn t) \<noteq> - 1 \<and> tb_csn t' = snd (allocate (tb_csn t))"
    using a by (auto simp: advanced_def tb_frame_def)
  have st: "mj_started job \<le> tb_now t" using j by (simp add: job_ok_def)
  then have ev: "inner_evolved (mj_started job) ?i ?i'" using a by (simp add: advanced_def)
  then have nx: "ti_next_part_id ?i \<le> ti_next_part_id ?i'" by (simp add: inner_evolved_def)
  have prev: "x \<in> p_id ` set (ti_parts ?i)" if "x \<in> p_id ` set (ti_parts ?i')" "x < ti_next_part_id ?i" for x
    using that ev by (auto simp: inner_evolved_def not_le)
  have "\<exists>q \<in> set (ti_parts ?i'). evolved (mj_started job) p q"
    if p: "p \<in> set (mj_sources job)" "p_id p \<in> p_id ` set (ti_parts ?i')" for p
  proof -
    have "p_id p < ti_next_part_id ?i" using j p(1) by (simp add: job_ok_def)
    then obtain q where "q \<in> set (ti_parts ?i)" "evolved (mj_started job) p q" using prev [OF p(2)] j p(1) by (auto simp: job_ok_def)
    then show ?thesis using ev unfolding inner_evolved_def by (meson evolved_trans)
  qed
  moreover have "mj_id job \<notin> p_id ` set (ti_parts ?i')" using prev [of "mj_id job"] j by (auto simp: job_ok_def)
  ultimately show ?thesis using j fr K(2,3) [OF g] nx
    unfolding job_ok_def by (auto intro: order_trans order.strict_trans2)
qed

lemma jobs_ok_advanced:
  "table_ok f t \<Longrightarrow> csn_inv (tb_csn t, L) \<Longrightarrow> advanced f t t' \<Longrightarrow> jobs_ok A t J \<Longrightarrow> jobs_ok A t' J"
  using job_ok_advanced by (auto simp: jobs_ok_def)

lemma sys_ok_advanced:
  assumes "sys_ok A (t, L, J)" "table_ok f t" "f \<le> gc_horizon (tb_csn t)" "advanced f t t'"
  shows "sys_ok A (t', L, J)"
proof -
  have inv: "csn_inv (tb_csn t, L)" "jobs_ok A t J" using assms(1) by auto
  have g: "tb_csn t' = tb_csn t \<or> cg_next (tb_csn t) \<noteq> - 1 \<and> tb_csn t' = snd (allocate (tb_csn t))" and ok: "table_ok f t'"
    using assms(4) by (auto simp: advanced_def)
  note K = clock_step [OF inv(1) g]
  have "f \<le> gc_horizon (tb_csn t')" using assms(3) K(2) by (rule order_trans)
  then show ?thesis using ok K(1) jobs_ok_advanced [OF assms(2) inv(1) assms(4) inv(2)] by auto
qed

lemma sys_ok_write:
  assumes "sys_ok A (t, L, J)" "\<And>f. table_ok f t \<Longrightarrow> advanced f t t'"
  shows "sys_ok A (t', L, J)"
proof -
  obtain f where "table_ok f t" "f \<le> gc_horizon (tb_csn t)" using assms(1) by auto
  then show ?thesis using sys_ok_advanced [OF assms(1)] assms(2) by blast
qed

text \<open>Steps of the pins: the clock's next number and the table stay.\<close>

lemma sys_ok_pins:
  assumes ok: "sys_ok A (t, L, J)" and st: "csn_step (tb_csn t, L) (g, L')" "cg_next g = cg_next (tb_csn t)"
  shows "sys_ok A (t\<lparr>tb_csn := g\<rparr>, L', J)"
proof -
  obtain f where f: "table_ok f t" "f \<le> gc_horizon (tb_csn t)" and inv: "csn_inv (tb_csn t, L)" "jobs_ok A t J" using ok by auto
  have cur: "current g = tb_now t" using st(2) by (simp add: current_def)
  have gc: "gc_horizon (tb_csn t) \<le> gc_horizon g" using gc_horizon_mono [OF st(1) inv(1)] by simp
  have "table_ok f (t\<lparr>tb_csn := g\<rparr>)" using f(1) cur st(2) by (simp add: table_ok_def tb_versions_def)
  moreover have "f \<le> gc_horizon g" using f(2) gc by (rule order_trans)
  moreover have "jobs_ok A (t\<lparr>tb_csn := g\<rparr>) J" using inv(2) cur gc by (auto simp: jobs_ok_def job_ok_def intro: order_trans)
  ultimately show ?thesis using csn_inv_step [OF st(1) inv(1)] by auto
qed

lemma sys_ok_plan:
  assumes A: "arrow_ok A" and ok: "sys_ok A (t, L, J)" and cw: "can_write t" and ps: "ps \<noteq> []" "set ps \<subseteq> set (ti_parts (tb_inner t))" "distinct ps"
    "sum_list (map (\<lambda>p. b_len (p_batch p)) ps) < 2 ^ 32" and h: "h \<le> gc_horizon (tb_csn t)"
    and pl: "plan_merge A ps (ti_next_part_id (tb_inner t)) h (tb_now t) = Some (Some plan)"
  shows "sys_ok A (t\<lparr>tb_inner := (tb_inner t)\<lparr>ti_next_part_id := ti_next_part_id (tb_inner t) + 1\<rparr>\<rparr>, L,
      \<lparr>mj_sources = ps, mj_horizon = h, mj_started = tb_now t, mj_id = ti_next_part_id (tb_inner t), mj_plan = plan\<rparr> # J)"
proof -
  let ?n = "ti_next_part_id (tb_inner t)" and ?t = "t\<lparr>tb_inner := (tb_inner t)\<lparr>ti_next_part_id := ti_next_part_id (tb_inner t) + 1\<rparr>\<rparr>"
  obtain f where f: "table_ok f t" "f \<le> gc_horizon (tb_csn t)" and inv: "csn_inv (tb_csn t, L)" "jobs_ok A t J" using ok by auto
  note D = table_okD [OF f(1)]
  have ids: "p_id p < ?n" if "p \<in> set (ti_parts (tb_inner t))" for p using that D(1) by (simp add: inner_ok_def)
  have lt: "?n < ?n + 1" using cw by (simp add: can_write_def less_plus_one_word)
  have ids': "p_id p < ?n + 1" if "p \<in> set (ti_parts (tb_inner t))" for p using ids [OF that] lt by (rule order.strict_trans)
  have "inner_ok (tb_schema t) (tb_inner ?t)" using D(1) ids' by (simp add: inner_ok_def)
  then have "table_ok f ?t" using f(1) by (simp add: table_ok_def tb_versions_def ti_versions_def l0_room_def)
  moreover have "inner_evolved started (tb_inner t) (tb_inner ?t)" for started
    using evolved_refl lt by (auto simp: inner_evolved_def)
  ultimately have adv: "advanced f t ?t" by (simp add: advanced_def tb_frame_def tb_versions_def ti_versions_def)
  have src: "sources_ok (tb_schema t) ps"
    using ps D(1) by (auto simp: sources_ok_def inner_ok_def distinct_map intro: inj_on_subset)
  have new: "job_ok A ?t \<lparr>mj_sources = ps, mj_horizon = h, mj_started = tb_now t, mj_id = ?n, mj_plan = plan\<rparr>"
  proof -
    have "\<forall>p \<in> set ps. p_id p < ?n + 1 \<and> (\<exists>q \<in> set (ti_parts (tb_inner t)). evolved (tb_now t) p q)"
      using ps(2) ids' evolved_refl by blast
    moreover have "?n \<notin> p_id ` set (ti_parts (tb_inner t))" using ids by (auto dest: ids)
    ultimately show ?thesis by (simp add: job_ok_def pl src ps(1) h lt)
  qed
  have old: "mj_id k < ?n" "\<And>p. p \<in> set (mj_sources k) \<Longrightarrow> p_id p < ?n" "mj_id k \<notin> p_id ` set (ti_parts (tb_inner t))" if "k \<in> set J" for k
    using inv(2) that by (auto simp: jobs_ok_def job_ok_def)
  have Jok: "jobs_ok A ?t J" by (rule jobs_ok_advanced [OF f(1) inv(1) adv inv(2)])
  have "jobs_ok A ?t (\<lparr>mj_sources = ps, mj_horizon = h, mj_started = tb_now t, mj_id = ?n, mj_plan = plan\<rparr> # J)"
  proof -
    have "?n \<notin> p_id ` set ps" using ps(2) by (auto dest: subsetD dest!: ids)
    moreover have "?n \<notin> mj_id ` set J" by (auto dest: old(1))
    moreover have "\<forall>k \<in> set J. mj_id k \<notin> p_id ` set ps \<and> ?n \<notin> p_id ` set (mj_sources k)" using old(2,3) ps(2) by fastforce
    ultimately show ?thesis using new Jok by (simp add: jobs_ok_def)
  qed
  then show ?thesis using sys_ok_advanced [OF ok f adv] by auto
qed

lemma apply_plan_missing:
  assumes "plan_merge A ps nid h st = Some (Some plan)" "sources_ok s ps" "ps \<noteq> []" "arrow_ok A"
    "distinct (map p_id parts)" "\<exists>p \<in> set ps. p_id p \<notin> p_id ` set parts"
  shows "\<exists>m'. apply_plan parts plan m = Some (parts, m', 0)"
proof -
  have "mp_source_ids plan = map p_id ps"
    by (rule plan_merge_ok [OF assms(4,2,3), of nid h st]) (use assms(1) in simp)
  moreover have "present parts i = None" if "i \<notin> p_id ` set parts" for i
    using that by (auto simp: present_def map_of_eq_None_iff in_set_enumerate_eq image_iff)
  ultimately have "\<not> list_all (\<lambda>i. present parts i \<noteq> None) (mp_source_ids plan)"
    using assms(6) by (auto simp: list_all_iff)
  then show ?thesis by (simp add: apply_plan_def)
qed

text \<open>The other jobs after an installation.\<close>

lemma jobs_ok_install:
  assumes J: "jobs_ok A t J" and job: "job \<in> set J" and x: "p_id x = mj_id job"
    and t': "tb_inner t' = (tb_inner t)\<lparr>ti_parts := filter (\<lambda>q. p_id q \<notin> p_id ` set (mj_sources job)) (ti_parts (tb_inner t)) @ [x]\<rparr>"
      "tb_schema t' = tb_schema t" "tb_csn t' = tb_csn t"
  shows "jobs_ok A t' (remove1 job J)"
proof -
  have d: "distinct J" using J by (simp add: jobs_ok_def distinct_map)
  have "job_ok A t' k" if k: "k \<in> set (remove1 job J)" for k
  proof -
    have kJ: "k \<in> set J" "k \<noteq> job" using k d by (auto simp: set_remove1_eq)
    have ne: "mj_id k \<noteq> mj_id job" using J kJ job by (auto simp: jobs_ok_def distinct_map dest: inj_onD)
    have ns: "mj_id job \<notin> p_id ` set (mj_sources k)" using J kJ(1) job by (auto simp: jobs_ok_def)
    have jk: "job_ok A t k" using J kJ(1) by (simp add: jobs_ok_def)
    have "\<exists>q \<in> set (ti_parts (tb_inner t')). evolved (mj_started k) p q"
      if p: "p \<in> set (mj_sources k)" "p_id p \<in> p_id ` set (ti_parts (tb_inner t'))" for p
    proof -
      have "p_id p \<noteq> p_id x" using ns imageI [OF p(1), of p_id] x by auto
      then have "p_id p \<in> p_id ` set (ti_parts (tb_inner t))" "p_id p \<notin> p_id ` set (mj_sources job)"
        using p(2) by (auto simp: t'(1)) (metis imageI)
      moreover from this obtain q where "q \<in> set (ti_parts (tb_inner t))" "evolved (mj_started k) p q" using jk p(1) by (auto simp: job_ok_def)
      moreover from this have "p_id q = p_id p" by (simp add: evolved_def)
      ultimately show ?thesis by (intro bexI [of _ q]) (auto simp: t'(1))
    qed
    then show ?thesis using jk ne x by (auto simp: job_ok_def t')
  qed
  moreover have "distinct (map mj_id (remove1 job J))"
    using J job by (auto simp: jobs_ok_def distinct_map intro: inj_on_subset set_remove1_subset [THEN subsetD])
  ultimately show ?thesis using J set_remove1_subset [of job J] unfolding jobs_ok_def by blast
qed

lemma install_step:
  assumes A: "arrow_ok A" and ok: "sys_ok A (t, L, J)" and job: "job \<in> set J" and ins: "install_plan (mj_plan job) t = Some (n, t')"
  shows "sys_ok A (t', L, remove1 job J)"
    "\<And>snap. mj_horizon job \<le> snap \<Longrightarrow> snap \<noteq> NEVER_DELETED \<Longrightarrow> view snap (tb_versions t') = view snap (tb_versions t)"
proof -
  let ?parts = "ti_parts (tb_inner t)" and ?ps = "mj_sources job" and ?h = "mj_horizon job"
  obtain f where f: "table_ok f t" "f \<le> gc_horizon (tb_csn t)" and inv: "csn_inv (tb_csn t, L)" "jobs_ok A t J" using ok by auto
  have jb: "job_ok A t job" using inv(2) job by (simp add: jobs_ok_def)
  note D = table_okD [OF f(1)]
  have ids: "distinct (map p_id ?parts)" "\<forall>q \<in> set ?parts. part_ok q" using D(1) by (auto simp: inner_ok_def)
  have hn: "?h \<le> tb_now t" using jb gc_horizon_le(1) [OF inv(1)] by (auto simp: job_ok_def intro: order_trans)
  have hg: "max f ?h \<le> gc_horizon (tb_csn t)" using f(2) jb by (auto simp: job_ok_def)
  have "(\<exists>mt. t' = t\<lparr>tb_metrics := mt\<rparr>) \<or>
    (\<exists>x mt. p_id x = mj_id job \<and> t' = t\<lparr>tb_inner := (tb_inner t)\<lparr>ti_parts := filter (\<lambda>q. p_id q \<notin> p_id ` set ?ps) ?parts @ [x]\<rparr>, tb_metrics := mt\<rparr> \<and> rearranged f ?h t t')"
  proof (cases "\<exists>p \<in> set ?ps. p_id p \<notin> p_id ` set ?parts")
    case True
    then obtain m' where "apply_plan ?parts (mj_plan job) (tb_metrics t) = Some (?parts, m', 0)"
      using apply_plan_missing [of A ?ps "mj_id job" ?h "mj_started job" "mj_plan job" "tb_schema t" ?parts "tb_metrics t"] jb A ids(1)
      by (auto simp: job_ok_def)
    then show ?thesis using ins by (auto simp: install_plan_def)
  next
    case False
    then have mk: "merge_ok (tb_schema t) (mj_started job) ?ps ?parts"
      using jb ids by (auto simp: merge_ok_def job_ok_def)
    obtain x m' where "apply_plan ?parts (mj_plan job) (tb_metrics t) = Some (filter (\<lambda>q. p_id q \<notin> p_id ` set ?ps) ?parts @ [x], m', length ?ps)"
      "p_id x = mj_id job"
      "\<And>mt. rearranged f ?h t (t\<lparr>tb_inner := (tb_inner t)\<lparr>ti_parts := filter (\<lambda>q. p_id q \<notin> p_id ` set ?ps) ?parts @ [x]\<rparr>, tb_metrics := mt\<rparr>)"
      by (rule install_ok [OF A f(1) mk, of "mj_id job" ?h "mj_plan job" "tb_metrics t"]) (use jb hn in \<open>auto simp: job_ok_def\<close>)
    then show ?thesis using ins by (auto simp: install_plan_def)
  qed
  then consider mt where "t' = t\<lparr>tb_metrics := mt\<rparr>" |
    x mt where "p_id x = mj_id job" "t' = t\<lparr>tb_inner := (tb_inner t)\<lparr>ti_parts := filter (\<lambda>q. p_id q \<notin> p_id ` set ?ps) ?parts @ [x]\<rparr>, tb_metrics := mt\<rparr>"
      "rearranged f ?h t t'" by blast
  then have "sys_ok A (t', L, remove1 job J) \<and>
    (\<forall>snap. ?h \<le> snap \<longrightarrow> snap \<noteq> NEVER_DELETED \<longrightarrow> view snap (tb_versions t') = view snap (tb_versions t))"
  proof cases
    case 1
    have "jobs_ok A t' (remove1 job J)"
      using inv(2) set_remove1_subset [of job J] by (auto simp: 1 jobs_ok_def job_ok_def distinct_map intro: inj_on_subset)
    moreover have "table_ok f t'" "tb_csn t' = tb_csn t" "tb_versions t' = tb_versions t" using f(1) by (simp_all add: 1 table_ok_def tb_versions_def)
    ultimately show ?thesis using f inv(1) by auto
  next
    case 2
    have "jobs_ok A t' (remove1 job J)" by (rule jobs_ok_install [OF inv(2) job 2(1)]) (simp_all add: 2(2))
    moreover have "tb_csn t' = tb_csn t" by (simp add: 2(2))
    ultimately show ?thesis using 2(3) hg inv(1) by (auto simp: rearranged_def)
  qed
  then show "sys_ok A (t', L, remove1 job J)"
    "\<And>snap. mj_horizon job \<le> snap \<Longrightarrow> snap \<noteq> NEVER_DELETED \<Longrightarrow> view snap (tb_versions t') = view snap (tb_versions t)"
    by blast+
qed

lemma sys_ok_step:
  assumes A: "arrow_ok A" and st: "sys_step A s s'" and ok: "sys_ok A s"
  shows "sys_ok A s'"
  using st ok
proof cases
  case (sys_pin L t c g J)
  have "csn_step (tb_csn t, L) (g, add_mset c L)" by (rule step_pin [OF sys_pin(3,4)])
  moreover have "cg_next g = cg_next (tb_csn t)" using sys_pin(4) by (auto simp: pin_def Let_def)
  ultimately show ?thesis unfolding sys_pin(2) by (rule sys_ok_pins [OF ok [unfolded sys_pin(1)]])
next
  case (sys_release c L t J)
  have "csn_step (tb_csn t, L) (release c (tb_csn t), L - {#c#})" by (rule step_drop [OF sys_release(3)])
  moreover have "cg_next (release c (tb_csn t)) = cg_next (tb_csn t)" by (simp add: release_def split: option.split)
  ultimately show ?thesis unfolding sys_release(2) by (rule sys_ok_pins [OF ok [unfolded sys_release(1)]])
next
  case (sys_plan t ps h new_id plan L J)
  then show ?thesis unfolding sys_plan(2) using sys_ok_plan [OF A ok [unfolded sys_plan(1)]] by blast
next
  case (sys_install job J t n t' L)
  then show ?thesis unfolding sys_install(2) using install_step(1) [OF A ok [unfolded sys_install(1)]] by blast
next
  case (sys_insert t r res t' L J)
  show ?thesis unfolding sys_insert(2) by (rule sys_ok_write [OF ok [unfolded sys_insert(1)]]) (rule ops_advanced(1) [OF A _ sys_insert(3-5)])
next
  case (sys_upsert t r res t' L J)
  show ?thesis unfolding sys_upsert(2) by (rule sys_ok_write [OF ok [unfolded sys_upsert(1)]]) (rule ops_advanced(2) [OF A _ sys_upsert(3-5)])
next
  case (sys_update t r res t' L J)
  show ?thesis unfolding sys_update(2) by (rule sys_ok_write [OF ok [unfolded sys_update(1)]]) (rule ops_advanced(3) [OF A _ sys_update(3-5)])
next
  case (sys_delete t key res t' L J)
  show ?thesis unfolding sys_delete(2) by (rule sys_ok_write [OF ok [unfolded sys_delete(1)]]) (rule ops_advanced(4) [OF A _ sys_delete(3-5)])
next
  case (sys_seal t t' L J)
  show ?thesis unfolding sys_seal(2) by (rule sys_ok_write [OF ok [unfolded sys_seal(1)]]) (rule ops_advanced(5) [OF A _ sys_seal(3,4)])
qed

text \<open>A step changes nothing that a snapshot pinned before and after it sees.\<close>

lemma sys_step_view:
  assumes A: "arrow_ok A" and st: "sys_step A (t, L, J) (t', L', J')" and ok: "sys_ok A (t, L, J)" and c: "c \<in># L"
  shows "view c (tb_versions t') = view c (tb_versions t)"
proof -
  obtain f where f: "table_ok f t" and inv: "csn_inv (tb_csn t, L)" "jobs_ok A t J" using ok by auto
  have "c < cg_next (tb_csn t)" using inv(1) c by (simp add: csn_inv_def)
  then have cn: "c \<le> tb_now t" using inv(1) by (simp add: csn_inv_def less_next_iff)
  then have cN: "c \<noteq> NEVER_DELETED" using table_okD(4) [OF f] by (auto simp: NEVER_not_less order.order_iff_strict)
  have adv: "advanced f t t' \<Longrightarrow> ?thesis" using cn by (simp add: advanced_def)
  from st show ?thesis
  proof cases
    case (sys_install job n)
    have "mj_horizon job \<le> c"
      using inv sys_install(3) gc_horizon_le(2) [OF inv(1) c] by (auto simp: jobs_ok_def job_ok_def intro: order_trans)
    then show ?thesis using install_step(2) [OF A ok] sys_install cN by blast
  qed (use adv ops_advanced [OF A f] in \<open>auto simp: tb_versions_def ti_versions_def\<close>)
qed

fun sys_pinned :: "sys \<Rightarrow> csn set" where
  "sys_pinned (t, L, J) = set_mset L"

fun sys_rows :: "csn \<Rightarrow> sys \<Rightarrow> row multiset" where
  "sys_rows c (t, L, J) = view c (tb_versions t)"

interpretation iso: snapshot_store "sys_step A" "\<lambda>s. arrow_ok A \<and> sys_ok A s" sys_pinned sys_rows for A
proof (unfold_locales, goal_cases)
  case (1 s s')
  then show ?case using sys_ok_step by blast
next
  case (2 s s' c)
  then show ?case by (cases s; cases s') (auto simp del: sys_ok.simps intro: sys_step_view)
qed

lemma sys_init:
  assumes "schema_ok s" "decimals_ok s" "sc_synthetic_key s \<longrightarrow> key_ty s = TInt" "tc_seal_threshold cfg < 2 ^ 32"
  shows "sys_ok A (table_new name s csn_new m cfg, {#}, [])"
  using table_new_ok [OF assms, of csn_new name m] csn_inv_init
  by (auto simp: jobs_ok_def table_new_def csn_new_def FIRST_CSN_def intro!: exI [of _ 0])

section \<open>Properties\<close>



end
