(* ===== verification/Ck_Codec.thy ===== *)
theory Ck_Codec
  imports Ck_Schema
begin

unbundle bit_operations_syntax

text \<open>
  \<open>src/src/codec.rs\<close>: the little-endian encoding of numbers, strings, values, rows and schemas, the CRC-32
  and the framing of log records.  An encoder method is modelled by the bytes it appends to the buffer, the
  decoder by the bytes it has not consumed yet, so a decoding step takes the rest of the buffer and returns
  a value and the new rest, or the error.

  Every encoder and its decoder form a prefix codec: decoding the encoding followed by anything gives the
  value back and leaves what followed.
\<close>

section \<open>Checksum\<close>

type_synonym bytes = "u8 list"

definition crc_bit :: "u32 \<Rightarrow> u32" where
  "crc_bit crc = (let mask = - (crc AND 1) in drop_bit 1 crc XOR (0xEDB88320 AND mask))"

definition crc_byte :: "u8 \<Rightarrow> u32 \<Rightarrow> u32" where
  "crc_byte b crc = (crc_bit ^^ 8) (crc XOR ucast b)"

definition crc32 :: "bytes \<Rightarrow> u32" where
  "crc32 data = NOT (fold crc_byte data 0xFFFFFFFF)"

section \<open>Encoding\<close>

text \<open>\<open>to_le_bytes\<close> and \<open>from_le_bytes\<close>.\<close>

fun nat_le :: "nat \<Rightarrow> nat \<Rightarrow> bytes" where
  "nat_le 0 m = []"
| "nat_le (Suc n) m = word_of_nat (m mod 256) # nat_le n (m div 256)"

fun le_nat :: "bytes \<Rightarrow> nat" where
  "le_nat [] = 0"
| "le_nat (b # bs) = unat b + 256 * le_nat bs"

definition enc_u8 :: "u8 \<Rightarrow> bytes" where
  "enc_u8 v = [v]"

definition enc_u32 :: "u32 \<Rightarrow> bytes" where
  "enc_u32 v = nat_le 4 (unat v)"

definition enc_u64 :: "u64 \<Rightarrow> bytes" where
  "enc_u64 v = nat_le 8 (unat v)"

definition enc_i64 :: "i64 \<Rightarrow> bytes" where
  "enc_i64 v = nat_le 8 (unat v)"

definition enc_f64 :: "f64 \<Rightarrow> bytes" where
  "enc_f64 v = nat_le 8 (unat v)"

definition enc_bytes :: "bytes \<Rightarrow> bytes" where
  "enc_bytes v = enc_u32 (word_of_nat (length v)) @ v"

definition enc_str :: "string \<Rightarrow> bytes" where
  "enc_str v = enc_bytes (as_bytes v)"

definition enc_bool :: "bool \<Rightarrow> bytes" where
  "enc_bool b = enc_u8 (if b then 1 else 0)"

fun enc_value :: "value_t \<Rightarrow> bytes" where
  "enc_value VNull = enc_u8 0"
| "enc_value (VInt i) = enc_u8 1 @ enc_i64 i"
| "enc_value (VFloat f) = enc_u8 2 @ enc_f64 f"
| "enc_value (VText s) = enc_u8 3 @ enc_str s"
| "enc_value (VBool b) = enc_u8 4 @ enc_bool b"
| "enc_value (VDecimal m s) = enc_u8 5 @ enc_u64 (ucast (drop_bit 64 m)) @ enc_u64 (ucast m) @ enc_u32 s"

definition enc_row :: "row \<Rightarrow> bytes" where
  "enc_row r = enc_u32 (word_of_nat (length r)) @ concat (map enc_value r)"

definition SCHEMA_VERSION :: u8 where
  "SCHEMA_VERSION = 4"

fun datatype_tag :: "data_type \<Rightarrow> u8" where
  "datatype_tag TInt = 1"
| "datatype_tag TFloat = 2"
| "datatype_tag TText = 3"
| "datatype_tag TBool = 4"
| "datatype_tag TDate = 5"
| "datatype_tag TTimestamp = 6"
| "datatype_tag (TDecimal _ _) = 7"

definition tag_datatype :: "u8 \<Rightarrow> data_type option" where
  "tag_datatype tag =
     (if tag = 1 then Some TInt else if tag = 2 then Some TFloat else if tag = 3 then Some TText
      else if tag = 4 then Some TBool else if tag = 5 then Some TDate else if tag = 6 then Some TTimestamp
      else None)"

text \<open>The type of a column: its tag, and for a decimal the precision and the scale.\<close>

definition enc_type :: "data_type \<Rightarrow> bytes" where
  "enc_type ty = enc_u8 (datatype_tag ty) @ (case ty of TDecimal p sc \<Rightarrow> enc_u8 p @ enc_u8 sc | _ \<Rightarrow> [])"

definition enc_default :: "value_t option \<Rightarrow> bytes" where
  "enc_default d = (case d of Some v \<Rightarrow> enc_u8 1 @ enc_value v | None \<Rightarrow> enc_u8 0)"

definition enc_column :: "column_def \<Rightarrow> bytes" where
  "enc_column c =
     enc_str (cd_name c) @ enc_type (cd_ty c) @ enc_bool (cd_nullable c) @ enc_default (cd_default c) @
     enc_u32 (case cd_max_len c of Some n \<Rightarrow> n | None \<Rightarrow> 0)"

definition enc_schema :: "schema \<Rightarrow> bytes" where
  "enc_schema s =
     enc_u8 SCHEMA_VERSION @ enc_u32 (word_of_nat (arity s)) @ concat (map enc_column (sc_columns s)) @
     enc_u32 (word_of_nat (sc_key_index s)) @ enc_bool (sc_synthetic_key s) @
     enc_u32 (word_of_nat (length (sc_checks s))) @ concat (map enc_str (sc_checks s))"

section \<open>Decoding\<close>

datatype decode_error = Truncated | BadChecksum | Malformed string

type_synonym 'a decoder = "bytes \<Rightarrow> decode_error + 'a \<times> bytes"

definition d_ret :: "'a \<Rightarrow> 'a decoder" where
  "d_ret x bs = Inr (x, bs)"

definition d_err :: "decode_error \<Rightarrow> 'a decoder" where
  "d_err e bs = Inl e"

definition d_bind :: "'a decoder \<Rightarrow> ('a \<Rightarrow> 'b decoder) \<Rightarrow> 'b decoder" where
  "d_bind p f bs = (case p bs of Inl e \<Rightarrow> Inl e | Inr (x, bs') \<Rightarrow> f x bs')"

fun d_repeat :: "nat \<Rightarrow> 'a decoder \<Rightarrow> 'a list decoder" where
  "d_repeat 0 p = d_ret []"
| "d_repeat (Suc n) p = d_bind p (\<lambda>x. d_bind (d_repeat n p) (\<lambda>xs. d_ret (x # xs)))"

definition d_take :: "nat \<Rightarrow> bytes decoder" where
  "d_take n bs = (if length bs < n then Inl Truncated else Inr (take n bs, drop n bs))"

definition d_u8 :: "u8 decoder" where
  "d_u8 = d_bind (d_take 1) (\<lambda>b. d_ret (hd b))"

definition d_u32 :: "u32 decoder" where
  "d_u32 = d_bind (d_take 4) (\<lambda>b. d_ret (word_of_nat (le_nat b)))"

definition d_u64 :: "u64 decoder" where
  "d_u64 = d_bind (d_take 8) (\<lambda>b. d_ret (word_of_nat (le_nat b)))"

definition d_i64 :: "i64 decoder" where
  "d_i64 = d_bind (d_take 8) (\<lambda>b. d_ret (word_of_nat (le_nat b)))"

definition d_f64 :: "f64 decoder" where
  "d_f64 = d_bind (d_take 8) (\<lambda>b. d_ret (word_of_nat (le_nat b)))"

definition d_bytes :: "bytes decoder" where
  "d_bytes = d_bind d_u32 (\<lambda>n. d_take (unat n))"

definition d_string :: "string decoder" where
  "d_string = d_bind d_bytes (\<lambda>b. if utf8_valid b then d_ret (of_bytes b) else d_err (Malformed ''invalid utf-8''))"

definition d_bool :: "bool decoder" where
  "d_bool = d_bind d_u8 (\<lambda>b. d_ret (b \<noteq> 0))"

definition d_value :: "value_t decoder" where
  "d_value = d_bind d_u8 (\<lambda>tag.
     if tag = 0 then d_ret VNull
     else if tag = 1 then d_bind d_i64 (\<lambda>i. d_ret (VInt i))
     else if tag = 2 then d_bind d_f64 (\<lambda>f. d_ret (VFloat f))
     else if tag = 3 then d_bind d_string (\<lambda>s. d_ret (VText s))
     else if tag = 4 then d_bind d_bool (\<lambda>b. d_ret (VBool b))
     else if tag = 5 then d_bind d_u64 (\<lambda>hi. d_bind d_u64 (\<lambda>lo. d_bind d_u32 (\<lambda>scale.
       d_ret (VDecimal (push_bit 64 (ucast hi) OR ucast lo) scale))))
     else d_err (Malformed ''bad value tag''))"

definition d_row :: "row decoder" where
  "d_row = d_bind d_u32 (\<lambda>n. d_repeat (unat n) d_value)"

definition d_type :: "data_type decoder" where
  "d_type = d_bind d_u8 (\<lambda>tag.
     if tag = 7 then d_bind d_u8 (\<lambda>p. d_bind d_u8 (\<lambda>sc. d_ret (TDecimal p sc)))
     else case tag_datatype tag of Some ty \<Rightarrow> d_ret ty | None \<Rightarrow> d_err (Malformed ''bad type tag''))"

definition d_default :: "value_t option decoder" where
  "d_default = d_bind d_bool (\<lambda>b. if b then d_bind d_value (\<lambda>v. d_ret (Some v)) else d_ret None)"

definition d_column :: "column_def decoder" where
  "d_column =
     d_bind d_string (\<lambda>name. d_bind d_type (\<lambda>ty. d_bind d_bool (\<lambda>nullable. d_bind d_default (\<lambda>default.
     d_bind d_u32 (\<lambda>n. d_ret ((column_new name ty)
       \<lparr>cd_nullable := nullable, cd_default := default, cd_max_len := (if n = 0 then None else Some n)\<rparr>))))))"

text \<open>The schema constructor cannot panic here, because the key index was checked.\<close>

definition d_schema :: "schema decoder" where
  "d_schema = d_bind d_u8 (\<lambda>version.
     if version \<noteq> SCHEMA_VERSION then d_err (Malformed ''unsupported schema version'')
     else d_bind d_u32 (\<lambda>n. d_bind (d_repeat (unat n) d_column) (\<lambda>columns.
       d_bind d_u32 (\<lambda>key_index. d_bind d_bool (\<lambda>synthetic.
         case schema_new columns (unat key_index) synthetic of
           None \<Rightarrow> d_err (Malformed ''key_index out of range'')
         | Some s \<Rightarrow> d_bind d_u32 (\<lambda>n_checks. d_bind (d_repeat (unat n_checks) d_string) (\<lambda>checks.
             d_ret (with_checks checks s))))))))"

section \<open>Frames\<close>

definition frame :: "bytes \<Rightarrow> bytes" where
  "frame payload = enc_u32 (word_of_nat (length payload)) @ enc_u32 (crc32 payload) @ payload"

definition unframe :: "bytes \<Rightarrow> nat \<Rightarrow> decode_error + bytes \<times> nat" where
  "unframe buf pos =
     (if length buf < pos + 8 then Inl Truncated
      else let len = unat (word_of_nat (le_nat (take 4 (drop pos buf))) :: u32);
               crc = word_of_nat (le_nat (take 4 (drop (pos + 4) buf)));
               start = pos + 8
           in if length buf < start + len then Inl Truncated
              else let payload = take len (drop start buf)
                   in if crc32 payload \<noteq> crc then Inl BadChecksum else Inr (payload, start + len))"

section \<open>Prefix codecs\<close>

text \<open>
  The law of an encoder with its decoder on the values it can represent, and what follows from it: encodings of different
  values are never prefixes of each other, and sequences decode element by element.
\<close>

locale prefix_codec =
  fixes enc :: "'a \<Rightarrow> bytes"
    and dec :: "'a decoder"
    and fit :: "'a \<Rightarrow> bool"
  assumes roundtrip: "fit x \<Longrightarrow> dec (enc x @ rest) = Inr (x, rest)"
begin

lemma prefix_free: "fit x \<Longrightarrow> fit y \<Longrightarrow> enc x @ r = enc y @ r' \<Longrightarrow> x = y \<and> r = r'"
  by (metis Pair_inject roundtrip sum.inject(2))

lemma bind_step: "fit x \<Longrightarrow> d_bind dec f (enc x @ rest) = f x rest"
  by (simp add: d_bind_def roundtrip)

lemma bind_last: "fit x \<Longrightarrow> d_bind dec f (enc x) = f x []"
  using bind_step [of x f "[]"] by simp

lemma repeat_roundtrip:
  "\<forall>x \<in> set xs. fit x \<Longrightarrow> d_repeat (length xs) dec (concat (map enc xs) @ rest) = Inr (xs, rest)"
proof (induction xs arbitrary: rest)
  case (Cons x xs)
  then have "d_repeat (length xs) dec (concat (map enc xs) @ rest) = Inr (xs, rest)" by simp
  then show ?case using Cons.prems by (simp add: bind_step d_bind_def d_ret_def roundtrip)
qed (simp add: d_ret_def)

lemma bind_repeat:
  "\<forall>x \<in> set xs. fit x \<Longrightarrow> n = length xs \<Longrightarrow> d_bind (d_repeat n dec) f (concat (map enc xs) @ rest) = f xs rest"
  using repeat_roundtrip [of xs rest] by (simp add: d_bind_def)

end

lemma d_bind_ret [simp]: "d_bind (d_ret x) f = f x"
  by (rule ext) (simp add: d_bind_def d_ret_def)

lemma d_ret_apply [simp]: "d_ret x bs = Inr (x, bs)"
  by (simp add: d_ret_def)

section \<open>Round trips\<close>

lemma length_nat_le [simp]: "length (nat_le n m) = n"
  by (induction n arbitrary: m) simp_all

lemma le_nat_nat_le: "le_nat (nat_le n m) = m mod 256 ^ n"
proof (induction n arbitrary: m)
  case (Suc n)
  have "unat (word_of_nat (m mod 256) :: u8) = m mod 256" by (simp add: unat_of_nat)
  then show ?case by (simp add: Suc mod_mult2_eq)
qed simp

lemma d_take_append: "length xs = n \<Longrightarrow> d_take n (xs @ rest) = Inr (xs, rest)"
  by (simp add: d_take_def)

lemma le_u32 [simp]: "word_of_nat (le_nat (nat_le 4 (unat v))) = (v :: u32)"
proof -
  have "unat v < 256 ^ 4" using unsigned_less [of v] by (simp add: word_less_nat_alt)
  then show ?thesis by (simp add: le_nat_nat_le)
qed

lemma le_u64 [simp]: "word_of_nat (le_nat (nat_le 8 (unat v))) = (v :: u64)"
proof -
  have "unat v < 256 ^ 8" using unsigned_less [of v] by (simp add: word_less_nat_alt)
  then show ?thesis by (simp add: le_nat_nat_le)
qed

interpretation c_u8: prefix_codec enc_u8 d_u8 "\<lambda>_. True"
  by unfold_locales (simp add: enc_u8_def d_u8_def d_bind_def d_take_def)

interpretation c_u32: prefix_codec enc_u32 d_u32 "\<lambda>_. True"
  by unfold_locales (simp add: enc_u32_def d_u32_def d_bind_def d_take_append)

interpretation c_u64: prefix_codec enc_u64 d_u64 "\<lambda>_. True"
  by unfold_locales (simp add: enc_u64_def d_u64_def d_bind_def d_take_append)

interpretation c_i64: prefix_codec enc_i64 d_i64 "\<lambda>_. True"
  by unfold_locales (simp add: enc_i64_def d_i64_def d_bind_def d_take_append)

interpretation c_f64: prefix_codec enc_f64 d_f64 "\<lambda>_. True"
  by unfold_locales (simp add: enc_f64_def d_f64_def d_bind_def d_take_append)

lemma unat_len32: "n < 2 ^ 32 \<Longrightarrow> unat (word_of_nat n :: u32) = n"
  by (simp add: unat_of_nat)

interpretation c_bytes: prefix_codec enc_bytes d_bytes "\<lambda>b. length b < 2 ^ 32"
  by unfold_locales (simp add: enc_bytes_def d_bytes_def c_u32.bind_step unat_len32 d_take_append)

text \<open>Texts are byte strings that are valid UTF-8.\<close>

definition text_ok :: "string \<Rightarrow> bool" where
  "text_ok s \<longleftrightarrow> length s < 2 ^ 32 \<and> utf8_valid (as_bytes s)"

interpretation c_str: prefix_codec enc_str d_string text_ok
  by unfold_locales (simp add: enc_str_def d_string_def c_bytes.bind_step text_ok_def)

interpretation c_bool: prefix_codec enc_bool d_bool "\<lambda>_. True"
  by unfold_locales (simp add: enc_bool_def d_bool_def c_u8.bind_step)

fun value_ok :: "value_t \<Rightarrow> bool" where
  "value_ok (VText s) = text_ok s"
| "value_ok _ = True"

lemma halves_i128: "push_bit 64 (ucast (ucast (drop_bit 64 m) :: u64)) OR ucast (ucast m :: u64) = (m :: i128)"
  by (rule bit_word_eqI) (auto simp: bit_simps)

lemmas codec_steps = c_u8.bind_step c_u32.bind_step c_u64.bind_step c_i64.bind_step c_f64.bind_step c_str.bind_step
  c_bool.bind_step append_assoc

interpretation c_value: prefix_codec enc_value d_value value_ok
proof (unfold_locales, goal_cases)
  case (1 x rest)
  then show ?case by (cases x) (simp_all add: d_value_def codec_steps halves_i128)
qed

interpretation c_row: prefix_codec enc_row d_row "\<lambda>r. length r < 2 ^ 32 \<and> list_all value_ok r"
proof (unfold_locales, goal_cases)
  case (1 r rest)
  then show ?case
    using c_value.repeat_roundtrip [of r rest] by (simp add: enc_row_def d_row_def codec_steps unat_len32 list_all_iff)
qed

interpretation c_type: prefix_codec enc_type d_type "\<lambda>_. True"
proof (unfold_locales, goal_cases)
  case (1 ty rest)
  show ?case by (cases ty) (simp_all add: enc_type_def d_type_def codec_steps tag_datatype_def)
qed

interpretation c_default: prefix_codec enc_default d_default "pred_option value_ok"
proof (unfold_locales, goal_cases)
  case (1 d rest)
  have "enc_default d = (case d of Some v \<Rightarrow> enc_bool True @ enc_value v | None \<Rightarrow> enc_bool False)"
    by (simp add: enc_default_def enc_bool_def split: option.split)
  then show ?case using 1 by (cases d) (simp_all add: d_default_def codec_steps c_value.bind_step)
qed

text \<open>A declared length of zero is the encoding of no declared length.\<close>

definition column_ok :: "column_def \<Rightarrow> bool" where
  "column_ok c \<longleftrightarrow> text_ok (cd_name c) \<and> pred_option value_ok (cd_default c) \<and> cd_max_len c \<noteq> Some 0"

interpretation c_column: prefix_codec enc_column d_column column_ok
proof (unfold_locales, goal_cases)
  case (1 c rest)
  then show ?case
    by (cases c; cases "cd_max_len c")
       (auto simp: enc_column_def d_column_def codec_steps c_type.bind_step c_default.bind_step column_ok_def column_new_def)
qed

definition schema_fits :: "schema \<Rightarrow> bool" where
  "schema_fits s \<longleftrightarrow> schema_ok s \<and> arity s < 2 ^ 32 \<and> list_all column_ok (sc_columns s) \<and>
     length (sc_checks s) < 2 ^ 32 \<and> list_all text_ok (sc_checks s)"

interpretation c_schema: prefix_codec enc_schema d_schema schema_fits
proof (unfold_locales, goal_cases)
  case (1 s rest)
  have key: "sc_key_index s < 2 ^ 32" "schema_new (sc_columns s) (sc_key_index s) (sc_synthetic_key s) = Some (s\<lparr>sc_checks := []\<rparr>)"
    using 1 by (auto simp: schema_fits_def schema_ok_def arity_def schema_new_def)
  then show ?case using 1
    by (simp add: enc_schema_def d_schema_def codec_steps c_column.bind_repeat c_str.bind_repeat unat_len32 schema_fits_def
        list_all_iff arity_def with_checks_def)
qed

section \<open>Frames of a buffer\<close>

lemma length_enc_u32 [simp]: "length (enc_u32 v) = 4"
  by (simp add: enc_u32_def)

lemma length_frame [simp]: "length (frame p) = 8 + length p"
  by (simp add: frame_def)

lemma le_enc_u32 [simp]: "word_of_nat (le_nat (enc_u32 v)) = v"
  by (simp add: enc_u32_def)

lemma unframe_frame:
  assumes "length p < 2 ^ 32"
  shows "unframe (pre @ frame p @ rest) (length pre) = Inr (p, length pre + 8 + length p)"
  using assms by (simp add: unframe_def frame_def Let_def unat_len32)

lemma unframe_next: "unframe buf pos = Inr (p, nx) \<Longrightarrow> pos < nx \<and> nx \<le> length buf"
  by (auto simp: unframe_def Let_def split: if_splits)

text \<open>A frame cut anywhere before its end is reported as truncated.\<close>

lemma unframe_torn:
  assumes "length p < 2 ^ 32" "k < length (frame p)"
  shows "unframe (pre @ take k (frame p)) (length pre) = Inl Truncated"
proof (cases "k < 8")
  case True
  then show ?thesis by (simp add: unframe_def)
next
  case False
  then have "take k (frame p) = enc_u32 (word_of_nat (length p)) @ enc_u32 (crc32 p) @ take (k - 8) p"
    by (simp add: frame_def)
  then show ?thesis using assms False by (simp add: unframe_def Let_def unat_len32)
qed

text \<open>A payload replaced by one of the same length with another checksum is reported as corrupt.\<close>

lemma unframe_corrupt:
  assumes "length p < 2 ^ 32" "length q = length p" "crc32 q \<noteq> crc32 p"
  shows "unframe (pre @ enc_u32 (word_of_nat (length p)) @ enc_u32 (crc32 p) @ q @ rest) (length pre) = Inl BadChecksum"
  using assms by (simp add: unframe_def Let_def unat_len32)

section \<open>Properties\<close>

text \<open>
  A schema survives its encoding: whatever follows it in the buffer, decoding gives back the same columns with
  their types, defaults and declared lengths, the same key and the same checks, and leaves what followed.
  The hypothesis asks for a well-formed schema whose texts are UTF-8, whose counts fit 32 bits and that declares no length of zero.
\<close>

theorem schema_roundtrip: "schema_fits s \<Longrightarrow> d_schema (enc_schema s @ rest) = Inr (s, rest)"
  by (rule c_schema.roundtrip)

lemma schema_roundtrip_witness:
  "d_schema (enc_schema (the default_schema) @ [7]) = Inr (the default_schema, [7])"
proof -
  have "schema_fits (the default_schema)"
    by (simp add: schema_fits_def default_schema_def from_user_columns_def schema_new_def schema_ok_def arity_def column_ok_def
        column_new_def not_null_def text_ok_def as_bytes_def byte_of_def)
  then show ?thesis by (rule schema_roundtrip)
qed

end
