(* ===== verification/Ck_Log.thy ===== *)
theory Ck_Log
  imports Ck_Codec
begin

text \<open>
  Append-only logs of framed records.  The write-ahead log, the manifest and the tombstones behind a part image are all
  read by the same loop: decode frame after frame and stop at the first one that is torn, corrupt or
  undecodable.  The locale \<open>framed_log\<close> states what a record type has to promise and proves what the loop
  returns on an intact log, on a log with a torn last record and on a log with a corrupt one.
\<close>

section \<open>The reading loop\<close>

text \<open>
  \<open>log_loop dec step buf pos acc\<close> is the loop \<open>while pos < buf.len()\<close> of \<open>Wal::replay_bytes\<close>,
  \<open>Manifest::scan\<close> and \<open>decode_part_file\<close>: the result is the accumulator, the position behind the
  last good record, and whether the loop left through a \<open>break\<close>.
\<close>

function log_loop :: "(bytes \<Rightarrow> decode_error + 'r) \<Rightarrow> ('a \<Rightarrow> 'r \<Rightarrow> 'a) \<Rightarrow> bytes \<Rightarrow> nat \<Rightarrow> 'a \<Rightarrow> 'a \<times> nat \<times> bool" where
  "log_loop dec step buf pos acc =
     (if pos < length buf
      then case unframe buf pos of
             Inl _ \<Rightarrow> (acc, pos, True)
           | Inr (payload, nx) \<Rightarrow>
               (case dec payload of Inl _ \<Rightarrow> (acc, pos, True) | Inr r \<Rightarrow> log_loop dec step buf nx (step acc r))
      else (acc, pos, False))"
  by auto
termination
  by (relation "measure (\<lambda>(dec, step, buf, pos, acc). length buf - pos)") (auto dest!: unframe_next sym [of "Inr _"])

declare log_loop.simps [simp del]

section \<open>Record types\<close>

text \<open>A record type: its payload bytes and their decoder, on the records that fit a frame.\<close>

locale framed_log =
  fixes payload :: "'r \<Rightarrow> bytes"
    and dec :: "bytes \<Rightarrow> decode_error + 'r"
    and fit :: "'r \<Rightarrow> bool"
  assumes decodes: "fit r \<Longrightarrow> dec (payload r) = Inr r"
    and small: "fit r \<Longrightarrow> length (payload r) < 2 ^ 32"
begin

definition image :: "'r list \<Rightarrow> bytes" where
  "image rs = concat (map (\<lambda>r. frame (payload r)) rs)"

lemma image_simps [simp]:
  "image [] = []" "image (r # rs) = frame (payload r) @ image rs" "image (rs @ ss) = image rs @ image ss"
  by (simp_all add: image_def)

text \<open>The loop passes over intact records, whatever stands before and behind them.\<close>

lemma loop_records:
  assumes "\<forall>r \<in> set rs. fit r"
  shows "log_loop dec step (pre @ image rs @ rest) (length pre) acc =
         log_loop dec step (pre @ image rs @ rest) (length pre + length (image rs)) (foldl step acc rs)"
  using assms
proof (induction rs arbitrary: pre acc)
  case (Cons r rs)
  let ?buf = "pre @ frame (payload r) @ image rs @ rest"
  have "log_loop dec step ?buf (length pre) acc = log_loop dec step ?buf (length pre + 8 + length (payload r)) (step acc r)"
    using Cons.prems unframe_frame [OF small, of r pre "image rs @ rest"]
    by (subst log_loop.simps) (simp add: decodes)
  also have "\<dots> = log_loop dec step ?buf (length pre + length (image (r # rs))) (foldl step (step acc r) rs)"
    using Cons.IH [of "pre @ frame (payload r)" "step acc r"] Cons.prems by (simp add: add.assoc)
  finally show ?case by simp
qed simp

lemma loop_intact:
  assumes "\<forall>r \<in> set rs. fit r"
  shows "log_loop dec step (pre @ image rs) (length pre) acc = (foldl step acc rs, length pre + length (image rs), False)"
  using loop_records [OF assms, of step pre "[]" acc] by (simp add: log_loop.simps)

text \<open>A record that is cut short ends the log at its start.\<close>

lemma loop_torn:
  assumes "\<forall>r \<in> set rs. fit r" "fit r" "0 < k" "k < length (frame (payload r))"
  shows "log_loop dec step (pre @ image rs @ take k (frame (payload r))) (length pre) acc =
         (foldl step acc rs, length pre + length (image rs), True)"
proof -
  have "unframe ((pre @ image rs) @ take k (frame (payload r))) (length (pre @ image rs)) = Inl Truncated"
    using assms small by (intro unframe_torn) auto
  then show ?thesis
    using loop_records [OF assms(1), of step pre "take k (frame (payload r))" acc] assms(3,4)
    by (simp add: log_loop.simps)
qed

text \<open>So does a record whose payload no longer matches its checksum, whatever follows it.\<close>

lemma loop_corrupt:
  assumes "\<forall>r \<in> set rs. fit r" "fit r" "length q = length (payload r)" "crc32 q \<noteq> crc32 (payload r)"
  shows "log_loop dec step (pre @ image rs @ enc_u32 (word_of_nat (length (payload r))) @ enc_u32 (crc32 (payload r)) @ q @ rest)
           (length pre) acc = (foldl step acc rs, length pre + length (image rs), True)"
proof -
  let ?t = "enc_u32 (word_of_nat (length (payload r))) @ enc_u32 (crc32 (payload r)) @ q @ rest"
  have "unframe ((pre @ image rs) @ ?t) (length (pre @ image rs)) = Inl BadChecksum"
    using assms small by (intro unframe_corrupt) auto
  then show ?thesis
    using loop_records [OF assms(1), of step pre ?t acc] by (simp add: log_loop.simps)
qed

lemma image_prefix:
  "n \<le> length (image rs) \<Longrightarrow> \<exists>k torn. take n (image rs) = image (take k rs) @ torn \<and> k \<le> length rs \<and>
     (torn = [] \<or> (\<exists>j. k < length rs \<and> 0 < j \<and> j < length (frame (payload (rs ! k))) \<and> torn = take j (frame (payload (rs ! k)))))"
proof (induction rs arbitrary: n)
  case (Cons r rs)
  let ?l = "length (frame (payload r))"
  show ?case
  proof (cases "n < ?l")
    case True
    then have "take n (image (r # rs)) = image (take 0 (r # rs)) @ take n (frame (payload r))" by simp
    then show ?thesis using True by (intro exI [of _ 0] exI [of _ "take n (frame (payload r))"]) (cases "n = 0"; auto)
  next
    case False
    then have "n - ?l \<le> length (image rs)" using Cons.prems by simp
    from Cons.IH [OF this] obtain k torn where *: "take (n - ?l) (image rs) = image (take k rs) @ torn" "k \<le> length rs"
      "torn = [] \<or> (\<exists>j. k < length rs \<and> 0 < j \<and> j < length (frame (payload (rs ! k))) \<and> torn = take j (frame (payload (rs ! k))))"
      by blast
    have "take n (image (r # rs)) = image (take (Suc k) (r # rs)) @ torn" using False *(1) by simp
    then show ?thesis using * by (intro exI [of _ "Suc k"] exI [of _ torn]) auto
  qed
qed simp

text \<open>Cutting an intact log anywhere loses a suffix of its records and nothing else.\<close>

lemma loop_cut:
  assumes "\<forall>r \<in> set rs. fit r" "n \<le> length (image rs)"
  obtains k t where "k \<le> length rs" "length (image (take k rs)) \<le> n"
    "\<And>m. m \<le> length rs \<Longrightarrow> length (image (take m rs)) \<le> n \<Longrightarrow> m \<le> k"
    "\<And>step acc. log_loop dec step (take n (image rs)) 0 acc = (foldl step acc (take k rs), length (image (take k rs)), t)"
    "t \<longleftrightarrow> n \<noteq> length (image (take k rs))"
proof -
  from image_prefix [OF assms(2)] obtain k torn where
    k: "take n (image rs) = image (take k rs) @ torn" "k \<le> length rs" and
    torn: "torn = [] \<or> (\<exists>j. k < length rs \<and> 0 < j \<and> j < length (frame (payload (rs ! k))) \<and> torn = take j (frame (payload (rs ! k))))"
    by blast
  have n: "n = length (image (take k rs)) + length torn"
    using k(1) assms(2) by (metis length_append length_take min.absorb2)
  have fits: "\<forall>r \<in> set (take k rs). fit r" using assms(1) by (meson in_set_takeD)
  have most: "m \<le> k" if "m \<le> length rs" "length (image (take m rs)) \<le> n" for m
  proof (rule ccontr)
    assume "\<not> m \<le> k"
    then have "k < length rs" "take m rs = take k rs @ rs ! k # drop (Suc k) (take m rs)"
      using that(1) id_take_nth_drop [of k "take m rs"] by (auto simp: min_def)
    then have "image (take m rs) = image (take k rs) @ frame (payload (rs ! k)) @ image (drop (Suc k) (take m rs))"
      by (metis image_simps(2,3))
    then have "length (image (take k rs)) + length (frame (payload (rs ! k))) \<le> n" using that(2) by simp
    then show False using torn n by auto
  qed
  have loop: "log_loop dec step (take n (image rs)) 0 acc = (foldl step acc (take k rs), length (image (take k rs)), torn \<noteq> [])" for step acc
  proof (cases "torn = []")
    case True
    then show ?thesis using loop_intact [OF fits, of step "[]" acc] k(1) by simp
  next
    case False
    then obtain j where j: "k < length rs" "0 < j" "j < length (frame (payload (rs ! k)))" "torn = take j (frame (payload (rs ! k)))"
      using torn by blast
    then show ?thesis using loop_torn [OF fits _ j(2,3), of step "[]" acc] assms(1) k(1) False by simp
  qed
  show ?thesis
    by (rule that [OF k(2) _ most loop]) (use n in auto)
qed

end

end
