(* ===== verification/Ck_Io.thy ===== *)
theory Ck_Io
  imports Ck_Log
begin

text \<open>
  \<open>src/src/io.rs\<close>: the file interface and the in-memory file system with fault injection and simulated power
  loss.  An operation takes the file system and returns its result and the new file system; a fault that fires is the
  left injection.  A file handle is the path of the file: the handles the engine keeps
  (\<open>wal.log\<close> and \<open>MANIFEST\<close>) are never removed, so the path and the handle name the same file.

  Offsets and lengths are natural numbers: the image of a file is a vector, and the sum of an offset in it and a length
  never reaches the width of an address.  The simulated latency of a sync changes no state and is left out.
\<close>

section \<open>One file\<close>

record mem_file =
  mf_live :: bytes
  mf_durable :: bytes
  mf_write_seq :: u64
  mf_synced_seq :: u64

definition mf_new :: mem_file where
  "mf_new = \<lparr>mf_live = [], mf_durable = [], mf_write_seq = 0, mf_synced_seq = 0\<rparr>"

text \<open>\<open>Vec::resize(n, 0)\<close>.\<close>

definition resize0 :: "nat \<Rightarrow> bytes \<Rightarrow> bytes" where
  "resize0 n xs = take n xs @ replicate (n - length xs) 0"

definition overwrite :: "nat \<Rightarrow> bytes \<Rightarrow> bytes \<Rightarrow> bytes" where
  "overwrite off bs xs =
     (let e = off + length bs; ys = (if length xs < e then resize0 e xs else xs)
      in take off ys @ bs @ drop e ys)"

definition mf_crash :: "mem_file \<Rightarrow> mem_file" where
  "mf_crash f = f\<lparr>mf_live := mf_durable f\<rparr>"

text \<open>Reading fills the front of the buffer and reports how much of it.\<close>

definition mf_pread :: "nat \<Rightarrow> bytes \<Rightarrow> mem_file \<Rightarrow> nat \<times> bytes" where
  "mf_pread off buf f =
     (if length (mf_live f) \<le> off then (0, buf)
      else let n = min (length buf) (length (mf_live f) - off)
           in (n, take n (drop off (mf_live f)) @ drop n buf))"

definition mf_pwrite :: "nat \<Rightarrow> bytes \<Rightarrow> mem_file \<Rightarrow> mem_file" where
  "mf_pwrite off bs f = f\<lparr>mf_live := overwrite off bs (mf_live f), mf_write_seq := mf_write_seq f + 1\<rparr>"

definition mf_sync :: "mem_file \<Rightarrow> mem_file" where
  "mf_sync f =
     (if mf_write_seq f \<noteq> mf_synced_seq f then f\<lparr>mf_durable := mf_live f, mf_synced_seq := mf_write_seq f\<rparr> else f)"

definition mf_truncate :: "nat \<Rightarrow> mem_file \<Rightarrow> mem_file" where
  "mf_truncate n f = f\<lparr>mf_live := resize0 n (mf_live f), mf_write_seq := mf_write_seq f + 1\<rparr>"

section \<open>The file system\<close>

datatype fault_op = FRead | FWrite | FSync

record fault =
  ft_op :: fault_op
  ft_after :: u64

record mem_io =
  io_files :: "(string, mem_file) btree"
  io_faults :: "fault list"
  io_drop_writes :: bool

definition io_new :: mem_io where
  "io_new = \<lparr>io_files = [], io_faults = [], io_drop_writes = False\<rparr>"

definition inject_fault :: "fault_op \<Rightarrow> u64 \<Rightarrow> mem_io \<Rightarrow> mem_io" where
  "inject_fault op after io = io\<lparr>io_faults := io_faults io @ [\<lparr>ft_op = op, ft_after = after\<rparr>]\<rparr>"

definition set_drop_writes :: "bool \<Rightarrow> mem_io \<Rightarrow> mem_io" where
  "set_drop_writes on io = io\<lparr>io_drop_writes := on\<rparr>"

definition clear_faults :: "mem_io \<Rightarrow> mem_io" where
  "clear_faults io = set_drop_writes False (io\<lparr>io_faults := []\<rparr>)"

text \<open>Only the first scheduled fault of the operation counts down.\<close>

fun due :: "fault_op \<Rightarrow> fault list \<Rightarrow> bool \<times> fault list" where
  "due op [] = (False, [])"
| "due op (f # fs) =
     (if ft_op f = op
      then if ft_after f = 0 then (True, fs) else (False, f\<lparr>ft_after := ft_after f - 1\<rparr> # fs)
      else let (fired, fs') = due op fs in (fired, f # fs'))"

definition check_fault :: "fault_op \<Rightarrow> mem_io \<Rightarrow> bool \<times> mem_io" where
  "check_fault op io = (let (fired, fs) = due op (io_faults io) in (fired, io\<lparr>io_faults := fs\<rparr>))"

definition io_file :: "string \<Rightarrow> mem_io \<Rightarrow> mem_file option" where
  "io_file path io = bt_get str_cmp path (io_files io)"

definition io_put :: "string \<Rightarrow> mem_file \<Rightarrow> mem_io \<Rightarrow> mem_io" where
  "io_put path f io = io\<lparr>io_files := bt_insert str_cmp path f (io_files io)\<rparr>"

text \<open>The file behind a handle.\<close>

definition handle :: "string \<Rightarrow> mem_io \<Rightarrow> mem_file" where
  "handle path io = (case io_file path io of Some f \<Rightarrow> f | None \<Rightarrow> mf_new)"

datatype io_error = Injected fault_op | InvalidData decode_error | TooShort

type_synonym 'a io_result = "(io_error + 'a) \<times> mem_io"

definition io_open :: "string \<Rightarrow> mem_io \<Rightarrow> mem_io" where
  "io_open path io = (case io_file path io of Some f \<Rightarrow> io | None \<Rightarrow> io_put path mf_new io)"

definition io_remove :: "string \<Rightarrow> mem_io \<Rightarrow> mem_io" where
  "io_remove path io = io\<lparr>io_files := bt_remove str_cmp path (io_files io)\<rparr>"

definition io_exists :: "string \<Rightarrow> mem_io \<Rightarrow> bool" where
  "io_exists path io \<longleftrightarrow> io_file path io \<noteq> None"

definition io_list :: "mem_io \<Rightarrow> string list" where
  "io_list io = map fst (io_files io)"

definition io_crash :: "mem_io \<Rightarrow> mem_io" where
  "io_crash io = io\<lparr>io_files := map (map_prod id mf_crash) (io_files io)\<rparr>"

definition io_durable_bytes :: "mem_io \<Rightarrow> nat" where
  "io_durable_bytes io = sum_list (map (\<lambda>(path, f). length (mf_durable f)) (io_files io))"

text \<open>The operations of a handle.\<close>

definition pread :: "string \<Rightarrow> nat \<Rightarrow> bytes \<Rightarrow> mem_io \<Rightarrow> (nat \<times> bytes) io_result" where
  "pread path off buf io =
     (let (fired, io) = check_fault FRead io
      in if fired then (Inl (Injected FRead), io) else (Inr (mf_pread off buf (handle path io)), io))"

definition pwrite :: "string \<Rightarrow> nat \<Rightarrow> bytes \<Rightarrow> mem_io \<Rightarrow> nat io_result" where
  "pwrite path off bs io =
     (let (fired, io) = check_fault FWrite io
      in if fired then (Inl (Injected FWrite), io)
         else if io_drop_writes io then (Inr (length bs), io)
         else (Inr (length bs), io_put path (mf_pwrite off bs (handle path io)) io))"

definition sync :: "string \<Rightarrow> mem_io \<Rightarrow> unit io_result" where
  "sync path io =
     (let (fired, io) = check_fault FSync io
      in if fired then (Inl (Injected FSync), io) else (Inr (), io_put path (mf_sync (handle path io)) io))"

definition file_len :: "string \<Rightarrow> mem_io \<Rightarrow> nat" where
  "file_len path io = length (mf_live (handle path io))"

definition file_truncate :: "string \<Rightarrow> nat \<Rightarrow> mem_io \<Rightarrow> mem_io" where
  "file_truncate path n io = io_put path (mf_truncate n (handle path io)) io"

text \<open>Sequencing with the early return of \<open>?\<close>.\<close>

definition io_bind :: "'a io_result \<Rightarrow> ('a \<Rightarrow> mem_io \<Rightarrow> 'b io_result) \<Rightarrow> 'b io_result" where
  "io_bind r f = (case r of (Inl e, io) \<Rightarrow> (Inl e, io) | (Inr x, io) \<Rightarrow> f x io)"

text \<open>Reading a whole file into a zeroed buffer, as every reader of a log does.\<close>

definition read_whole :: "string \<Rightarrow> mem_io \<Rightarrow> bytes io_result" where
  "read_whole path io =
     (let n = file_len path io; buf = replicate n 0
      in if 0 < n then io_bind (pread path 0 buf io) (\<lambda>(_, buf) io. (Inr buf, io)) else (Inr buf, io))"

section \<open>Images\<close>

lemma length_resize0 [simp]: "length (resize0 n xs) = n"
  by (simp add: resize0_def)

lemma resize0_0 [simp]: "resize0 0 xs = []"
  by (simp add: resize0_def)

lemma overwrite_end [simp]: "overwrite (length xs) bs xs = xs @ bs"
  by (simp add: overwrite_def resize0_def Let_def)

lemma overwrite_Nil [simp]: "overwrite 0 bs [] = bs"
  using overwrite_end [of "[]" bs] by simp

text \<open>Writing over the tail of an image, as the manifest does over a torn record.\<close>

lemma overwrite_over: "length bs \<ge> length ys \<Longrightarrow> overwrite (length xs) bs (xs @ ys) = xs @ bs"
  by (simp add: overwrite_def resize0_def Let_def)

lemma overwrite_within: "length bs < length ys \<Longrightarrow> overwrite (length xs) bs (xs @ ys) = xs @ bs @ drop (length bs) ys"
  by (simp add: overwrite_def Let_def)

lemma mf_sync_live [simp]: "mf_live (mf_sync f) = mf_live f"
  by (simp add: mf_sync_def)

text \<open>
  The two serial numbers tell whether the durable image lags behind.  The live image can only differ from it while
  the numbers differ; the write counter is assumed not to have wrapped around.
\<close>

definition mf_ok :: "mem_file \<Rightarrow> bool" where
  "mf_ok f \<longleftrightarrow> mf_synced_seq f \<le> mf_write_seq f \<and> (mf_synced_seq f = mf_write_seq f \<longrightarrow> mf_durable f = mf_live f)"

definition mf_fresh :: "mem_file \<Rightarrow> bool" where
  "mf_fresh f \<longleftrightarrow> mf_write_seq f \<noteq> - 1"

lemma mf_ok_new [simp]: "mf_ok mf_new"
  by (simp add: mf_ok_def mf_new_def)

lemma seq_bump: "(a :: u64) \<le> b \<Longrightarrow> b \<noteq> - 1 \<Longrightarrow> a < b + 1"
  by (rule order.strict_trans1 [OF _ less_plus_one_word])

lemma mf_ok_pwrite: "mf_ok f \<Longrightarrow> mf_fresh f \<Longrightarrow> mf_ok (mf_pwrite off bs f)"
  using seq_bump by (fastforce simp: mf_ok_def mf_fresh_def mf_pwrite_def)

lemma mf_ok_truncate: "mf_ok f \<Longrightarrow> mf_fresh f \<Longrightarrow> mf_ok (mf_truncate n f)"
  using seq_bump by (fastforce simp: mf_ok_def mf_fresh_def mf_truncate_def)

lemma mf_sync_ok: "mf_ok f \<Longrightarrow> mf_ok (mf_sync f) \<and> mf_durable (mf_sync f) = mf_live f"
  by (auto simp: mf_ok_def mf_sync_def)

lemma mf_ok_crash: "mf_ok f \<Longrightarrow> mf_ok (mf_crash f)"
  by (auto simp: mf_ok_def mf_crash_def)

section \<open>The namespace\<close>

interpretation sk: cmp_order str_cmp UNIV
proof unfold_locales
  fix a b c
  assume "str_cmp a b = Less" "str_cmp b c = Less"
  then show "str_cmp a c = Less" by (rule str_cmp_trans)
qed simp_all

definition io_ok :: "mem_io \<Rightarrow> bool" where
  "io_ok io \<longleftrightarrow> sk.bt_ok (io_files io)"

text \<open>No scheduled fault and no lost writes: what remains is a file system that does what it is told.\<close>

definition io_calm :: "mem_io \<Rightarrow> bool" where
  "io_calm io \<longleftrightarrow> io_ok io \<and> io_faults io = [] \<and> \<not> io_drop_writes io"

lemma io_calm_ok: "io_calm io \<Longrightarrow> io_ok io"
  by (simp add: io_calm_def)

lemma io_file_put: "io_ok io \<Longrightarrow> io_file path (io_put p f io) = (if path = p then Some f else io_file path io)"
  by (simp add: io_file_def io_put_def io_ok_def sk.bt_get_insert)

lemma handle_put [simp]: "io_ok io \<Longrightarrow> handle path (io_put p f io) = (if path = p then f else handle path io)"
  by (simp add: handle_def io_file_put)

lemma io_ok_put [simp]: "io_ok io \<Longrightarrow> io_ok (io_put p f io)"
  by (simp add: io_ok_def io_put_def sk.bt_ok_insert)

lemma io_calm_put [simp]: "io_calm io \<Longrightarrow> io_calm (io_put p f io)"
  using io_ok_put [of io p f] by (simp add: io_calm_def) (simp add: io_put_def)

lemma io_calm_open [simp]: "io_calm io \<Longrightarrow> io_calm (io_open path io)"
  by (simp add: io_open_def split: option.split)

lemma handle_open [simp]: "io_ok io \<Longrightarrow> handle p (io_open path io) = handle p io"
  by (auto simp: io_open_def handle_def io_file_put split: option.splits)

lemma io_open_frame [simp]: "io_ok io \<Longrightarrow> io_ok (io_open path io)" "io_drop_writes (io_open path io) = io_drop_writes io"
  by (simp_all add: io_open_def split: option.split) (simp add: io_put_def)

lemma check_fault_calm: "io_calm io \<Longrightarrow> check_fault op io = (False, io)"
  by (simp add: check_fault_def io_calm_def)

lemma pwrite_calm: "io_calm io \<Longrightarrow> pwrite path off bs io = (Inr (length bs), io_put path (mf_pwrite off bs (handle path io)) io)"
  by (simp add: pwrite_def check_fault_calm) (simp add: io_calm_def)

lemma sync_calm: "io_calm io \<Longrightarrow> sync path io = (Inr (), io_put path (mf_sync (handle path io)) io)"
  by (simp add: sync_def check_fault_calm)

lemma pread_calm: "io_calm io \<Longrightarrow> pread path off buf io = (Inr (mf_pread off buf (handle path io)), io)"
  by (simp add: pread_def check_fault_calm)

lemma read_whole_calm: "io_calm io \<Longrightarrow> read_whole path io = (Inr (mf_live (handle path io)), io)"
  by (auto simp: read_whole_def file_len_def Let_def pread_calm io_bind_def mf_pread_def)

lemma io_calm_truncate [simp]: "io_calm io \<Longrightarrow> io_calm (file_truncate path n io)"
  by (simp add: file_truncate_def)

lemma io_file_remove: "io_ok io \<Longrightarrow> io_file p (io_remove path io) = (if p = path then None else io_file p io)"
  by (simp add: io_file_def io_remove_def io_ok_def sk.bt_get_remove)

lemma io_calm_remove [simp]: "io_calm io \<Longrightarrow> io_calm (io_remove path io)"
  by (simp add: io_calm_def io_remove_def io_ok_def sk.bt_ok_remove)

text \<open>Power loss reverts every file to its durable image.\<close>

lemma bt_ok_map: "sk.bt_ok (map (map_prod id g) m) = sk.bt_ok m"
  by (induction m) (auto simp: sk.bt_ok_Cons)

lemma bt_get_map: "bt_get str_cmp k (map (map_prod id g) m) = map_option g (bt_get str_cmp k m)"
proof (induction m)
  case (Cons p m)
  then show ?case by (cases p; cases "str_cmp k (fst p)") (simp_all del: str_cmp_simps(2))
qed simp

lemma handle_crash: "handle path (io_crash io) = mf_crash (handle path io)"
  by (auto simp: handle_def io_file_def io_crash_def bt_get_map mf_crash_def mf_new_def split: option.split)

lemma io_calm_crash: "io_calm io \<Longrightarrow> io_calm (io_crash io)"
  by (simp add: io_calm_def io_ok_def io_crash_def bt_ok_map)

end
