(* ===== verification/Ck_Durability.thy ===== *)
theory Ck_Durability
  imports Ck_Prelude
begin

text \<open>
  \<open>src/src/durability.rs\<close>: the durability modes and the coordinator of batched syncs.  Every method of the
  coordinator runs under its mutex and is one atomic step here.  \<open>begin\<close> blocks on the condition variable
  while another thread is syncing: that outcome is \<^const>\<open>None\<close>, and the caller tries again after a wake-up, which is what its loop does.
  \<open>wait_until\<close> waits for a deadline of the wall clock and is left out.
\<close>

datatype durability = Sync | Group | Async

definition waits_for_disk :: "durability \<Rightarrow> bool" where
  "waits_for_disk d \<longleftrightarrow> d = Sync \<or> d = Group"

definition may_lose_data :: "durability \<Rightarrow> bool" where
  "may_lose_data d \<longleftrightarrow> d = Async"

fun durability_name :: "durability \<Rightarrow> string" where
  "durability_name Sync = ''sync''"
| "durability_name Group = ''group''"
| "durability_name Async = ''async''"

record group_commit =
  gc_durable :: nat
  gc_syncing :: bool
  gc_generation :: u64

datatype commit_action = Done | DoSync

definition gc_new :: group_commit where
  "gc_new = \<lparr>gc_durable = 0, gc_syncing = False, gc_generation = 0\<rparr>"

definition gc_begin :: "nat \<Rightarrow> group_commit \<Rightarrow> (commit_action \<times> group_commit) option" where
  "gc_begin needed g =
     (if needed \<le> gc_durable g then Some (Done, g)
      else if \<not> gc_syncing g then Some (DoSync, g\<lparr>gc_syncing := True\<rparr>)
      else None)"

definition gc_complete :: "nat \<Rightarrow> group_commit \<Rightarrow> group_commit" where
  "gc_complete off g =
     g\<lparr>gc_durable := (if gc_durable g < off then off else gc_durable g), gc_syncing := False, gc_generation := gc_generation g + 1\<rparr>"

definition gc_reset_to :: "nat \<Rightarrow> group_commit \<Rightarrow> group_commit" where
  "gc_reset_to off g = g\<lparr>gc_durable := off, gc_syncing := False, gc_generation := gc_generation g + 1\<rparr>"

definition gc_abort :: "group_commit \<Rightarrow> group_commit" where
  "gc_abort g = g\<lparr>gc_syncing := False, gc_generation := gc_generation g + 1\<rparr>"

lemma gc_begin_cases:
  "gc_begin n g = Some (Done, g') \<longleftrightarrow> n \<le> gc_durable g \<and> g' = g"
  "gc_begin n g = Some (DoSync, g') \<longleftrightarrow> gc_durable g < n \<and> \<not> gc_syncing g \<and> g' = g\<lparr>gc_syncing := True\<rparr>"
  "gc_begin n g = None \<longleftrightarrow> gc_durable g < n \<and> gc_syncing g"
  by (auto simp: gc_begin_def)

lemma gc_complete_simps [simp]:
  "gc_durable (gc_complete n g) = max n (gc_durable g)" "gc_syncing (gc_complete n g) = False"
  by (auto simp: gc_complete_def)

lemma gc_abort_simps [simp]: "gc_durable (gc_abort g) = gc_durable g" "gc_syncing (gc_abort g) = False"
  by (simp_all add: gc_abort_def)

lemma gc_reset_simps [simp]: "gc_durable (gc_reset_to n g) = n" "gc_syncing (gc_reset_to n g) = False"
  by (simp_all add: gc_reset_to_def)

lemma waits_for_disk_iff: "waits_for_disk d \<longleftrightarrow> \<not> may_lose_data d"
  by (cases d) (simp_all add: waits_for_disk_def may_lose_data_def)

end
