(* ===== verification/Ck_Wal.thy ===== *)
theory Ck_Wal
  imports Ck_Io Ck_Durability
begin

text \<open>
  \<open>src/src/wal.rs\<close>: the records of the write-ahead log with their encoding, the log with its append, group commit and
  truncation, and replay.  The sequential operations run to completion one after the other; an operation that would block
  on another thread's sync is \<^const>\<open>None\<close>.  The interleaving of concurrent committers is the subject of \<open>Ck_WalRace\<close>.
\<close>

section \<open>Records\<close>

definition OP_INSERT :: u8 where "OP_INSERT = 1"
definition OP_DELETE :: u8 where "OP_DELETE = 2"
definition OP_SEAL :: u8 where "OP_SEAL = 3"
definition OP_CHECKPOINT :: u8 where "OP_CHECKPOINT = 4"
definition OP_TXN :: u8 where "OP_TXN = 5"
definition TXN_PUT :: u8 where "TXN_PUT = 1"
definition TXN_DEL :: u8 where "TXN_DEL = 2"

lemmas opcodes = OP_INSERT_def OP_DELETE_def OP_SEAL_def OP_CHECKPOINT_def OP_TXN_def TXN_PUT_def TXN_DEL_def

datatype txn_kind = TPut row | TDelete value_t

record txn_op =
  op_table :: u32
  op_csn :: csn
  op_kind :: txn_kind

datatype wal_record =
    WInsert u32 csn row
  | WDelete u32 csn value_t
  | WSeal u32 csn u64
  | WCheckpoint csn
  | WTxn "txn_op list"

text \<open>\<open>Iterator::max().unwrap_or(0)\<close> on unsigned numbers.\<close>

definition max_or_0 :: "u64 list \<Rightarrow> u64" where
  "max_or_0 xs = foldl max 0 xs"

fun rec_csn :: "wal_record \<Rightarrow> csn" where
  "rec_csn (WInsert _ c _) = c"
| "rec_csn (WDelete _ c _) = c"
| "rec_csn (WSeal _ c _) = c"
| "rec_csn (WCheckpoint c) = c"
| "rec_csn (WTxn ops) = max_or_0 (map op_csn ops)"

fun rec_table :: "wal_record \<Rightarrow> u32 option" where
  "rec_table (WInsert t _ _) = Some t"
| "rec_table (WDelete t _ _) = Some t"
| "rec_table (WSeal t _ _) = Some t"
| "rec_table (WCheckpoint _) = None"
| "rec_table (WTxn _) = None"

fun enc_kind :: "txn_kind \<Rightarrow> bytes" where
  "enc_kind (TPut r) = enc_u8 TXN_PUT @ enc_row r"
| "enc_kind (TDelete k) = enc_u8 TXN_DEL @ enc_value k"

definition enc_op :: "txn_op \<Rightarrow> bytes" where
  "enc_op op = enc_u32 (op_table op) @ enc_u64 (op_csn op) @ enc_kind (op_kind op)"

fun rec_payload :: "wal_record \<Rightarrow> bytes" where
  "rec_payload (WInsert t c r) = enc_u8 OP_INSERT @ enc_u32 t @ enc_u64 c @ enc_row r"
| "rec_payload (WDelete t c k) = enc_u8 OP_DELETE @ enc_u32 t @ enc_u64 c @ enc_value k"
| "rec_payload (WSeal t c p) = enc_u8 OP_SEAL @ enc_u32 t @ enc_u64 c @ enc_u64 p"
| "rec_payload (WCheckpoint c) = enc_u8 OP_CHECKPOINT @ enc_u64 c"
| "rec_payload (WTxn ops) = enc_u8 OP_TXN @ enc_u32 (word_of_nat (length ops)) @ concat (map enc_op ops)"

definition rec_encode :: "wal_record \<Rightarrow> bytes" where
  "rec_encode r = frame (rec_payload r)"

definition d_kind :: "txn_kind decoder" where
  "d_kind = d_bind d_u8 (\<lambda>tag.
     if tag = TXN_PUT then d_bind d_row (\<lambda>r. d_ret (TPut r))
     else if tag = TXN_DEL then d_bind d_value (\<lambda>k. d_ret (TDelete k))
     else d_err (Malformed ''bad txn op''))"

definition d_op :: "txn_op decoder" where
  "d_op = d_bind d_u32 (\<lambda>t. d_bind d_u64 (\<lambda>c. d_bind d_kind (\<lambda>k. d_ret \<lparr>op_table = t, op_csn = c, op_kind = k\<rparr>)))"

definition d_record :: "wal_record decoder" where
  "d_record = d_bind d_u8 (\<lambda>tag.
     if tag = OP_INSERT then d_bind d_u32 (\<lambda>t. d_bind d_u64 (\<lambda>c. d_bind d_row (\<lambda>r. d_ret (WInsert t c r))))
     else if tag = OP_DELETE then d_bind d_u32 (\<lambda>t. d_bind d_u64 (\<lambda>c. d_bind d_value (\<lambda>k. d_ret (WDelete t c k))))
     else if tag = OP_SEAL then d_bind d_u32 (\<lambda>t. d_bind d_u64 (\<lambda>c. d_bind d_u64 (\<lambda>p. d_ret (WSeal t c p))))
     else if tag = OP_CHECKPOINT then d_bind d_u64 (\<lambda>c. d_ret (WCheckpoint c))
     else if tag = OP_TXN then d_bind d_u32 (\<lambda>n. d_bind (d_repeat (unat n) d_op) (\<lambda>ops. d_ret (WTxn ops)))
     else d_err (Malformed ''unknown wal opcode''))"

text \<open>A payload is decoded from its start; what may follow the record is not looked at.\<close>

definition run_decoder :: "'a decoder \<Rightarrow> bytes \<Rightarrow> decode_error + 'a" where
  "run_decoder d payload = (case d payload of Inl e \<Rightarrow> Inl e | Inr (x, _) \<Rightarrow> Inr x)"

definition rec_decode :: "bytes \<Rightarrow> decode_error + wal_record" where
  "rec_decode = run_decoder d_record"

section \<open>Replay\<close>

record replay_result =
  rr_records :: "wal_record list"
  rr_valid_bytes :: nat
  rr_truncated_tail :: bool

definition replay_bytes :: "bytes \<Rightarrow> replay_result" where
  "replay_bytes buf =
     (let (records, pos, truncated) = log_loop rec_decode (\<lambda>rs r. rs @ [r]) buf 0 []
      in \<lparr>rr_records = records, rr_valid_bytes = pos, rr_truncated_tail = truncated\<rparr>)"

definition rr_max_csn :: "replay_result \<Rightarrow> csn" where
  "rr_max_csn rr = max_or_0 (map rec_csn (rr_records rr))"

definition last_checkpoint :: "replay_result \<Rightarrow> csn" where
  "last_checkpoint rr = max_or_0 (List.map_filter (\<lambda>r. case r of WCheckpoint c \<Rightarrow> Some c | _ \<Rightarrow> None) (rr_records rr))"

definition wal_replay :: "string \<Rightarrow> mem_io \<Rightarrow> replay_result io_result" where
  "wal_replay path io = io_bind (read_whole path (io_open path io)) (\<lambda>buf io. (Inr (replay_bytes buf), io))"

section \<open>The log\<close>

record wal =
  w_file :: string
  w_written :: nat
  w_group :: group_commit
  w_mode :: durability
  w_syncs :: u64
  w_appends :: u64

definition wal_open :: "string \<Rightarrow> durability \<Rightarrow> mem_io \<Rightarrow> wal \<times> mem_io" where
  "wal_open path mode io =
     (let io = io_open path io; written = file_len path io
      in (\<lparr>w_file = path, w_written = written, w_group = gc_complete written gc_new, w_mode = mode, w_syncs = 0, w_appends = 0\<rparr>, io))"

definition set_mode :: "durability \<Rightarrow> wal \<Rightarrow> wal" where
  "set_mode m w = w\<lparr>w_mode := m\<rparr>"

definition durable_bytes :: "wal \<Rightarrow> nat" where
  "durable_bytes w = gc_durable (w_group w)"

type_synonym 'a wal_result = "((io_error + 'a) \<times> wal \<times> mem_io) option"

definition commit_to :: "nat \<Rightarrow> wal \<Rightarrow> mem_io \<Rightarrow> unit wal_result" where
  "commit_to off w io =
     (case gc_begin off (w_group w) of
        None \<Rightarrow> None
      | Some (Done, g) \<Rightarrow> Some (Inr (), w\<lparr>w_group := g\<rparr>, io)
      | Some (DoSync, g) \<Rightarrow>
          let covered = w_written w
          in (case sync (w_file w) io of
                (Inr _, io) \<Rightarrow> Some (Inr (), w\<lparr>w_group := gc_complete covered g, w_syncs := w_syncs w + 1\<rparr>, io)
              | (Inl e, io) \<Rightarrow> Some (Inl e, w\<lparr>w_group := gc_abort g\<rparr>, io)))"

text \<open>The part of an append under the append lock.\<close>

definition append_locked :: "wal_record \<Rightarrow> wal \<Rightarrow> mem_io \<Rightarrow> (io_error + nat) \<times> wal \<times> mem_io" where
  "append_locked r w io =
     (let bs = rec_encode r; off = w_written w
      in case pwrite (w_file w) off bs io of
           (Inl e, io) \<Rightarrow> (Inl e, w, io)
         | (Inr _, io) \<Rightarrow> let e = off + length bs in (Inr e, w\<lparr>w_written := e, w_appends := w_appends w + 1\<rparr>, io))"

definition append_async :: "wal_record \<Rightarrow> wal \<Rightarrow> mem_io \<Rightarrow> nat wal_result" where
  "append_async r w io = Some (append_locked r w io)"

definition wal_append :: "wal_record \<Rightarrow> wal \<Rightarrow> mem_io \<Rightarrow> nat wal_result" where
  "wal_append r w io =
     (case append_locked r w io of
        (Inl e, w, io) \<Rightarrow> Some (Inl e, w, io)
      | (Inr e, w, io) \<Rightarrow>
          (case w_mode w of
             Async \<Rightarrow> Some (Inr e, w, io)
           | _ \<Rightarrow> (case commit_to e w io of
                     None \<Rightarrow> None
                   | Some (Inl err, w, io) \<Rightarrow> Some (Inl err, w, io)
                   | Some (Inr _, w, io) \<Rightarrow> Some (Inr e, w, io))))"

definition wal_flush :: "wal \<Rightarrow> mem_io \<Rightarrow> unit wal_result" where
  "wal_flush w io = commit_to (w_written w) w io"

text \<open>Dropping the front of the log: read the tail, empty the file, write the tail back, sync, lower the watermark.\<close>

definition truncate_before :: "nat \<Rightarrow> wal \<Rightarrow> mem_io \<Rightarrow> (io_error + unit) \<times> wal \<times> mem_io" where
  "truncate_before off w io =
     (let total = w_written w
      in if off = 0 \<or> total < off then (Inr (), w, io)
         else let buf = replicate (total - off) 0
              in case (if buf \<noteq> [] then io_bind (pread (w_file w) off buf io) (\<lambda>(_, buf) io. (Inr buf, io)) else (Inr buf, io)) of
                   (Inl e, io) \<Rightarrow> (Inl e, w, io)
                 | (Inr tail, io) \<Rightarrow>
                     (let io = file_truncate (w_file w) 0 io
                      in case (if tail \<noteq> [] then pwrite (w_file w) 0 tail io else (Inr 0, io)) of
                           (Inl e, io) \<Rightarrow> (Inl e, w, io)
                         | (Inr _, io) \<Rightarrow>
                             (let w = w\<lparr>w_written := length tail\<rparr>
                              in case sync (w_file w) io of
                                   (Inl e, io) \<Rightarrow> (Inl e, w, io)
                                 | (Inr _, io) \<Rightarrow> (Inr (), w\<lparr>w_group := gc_reset_to (length tail) (w_group w)\<rparr>, io))))"

section \<open>The records as a framed log\<close>

definition row_fits_frame :: "row \<Rightarrow> bool" where
  "row_fits_frame r \<longleftrightarrow> length r < 2 ^ 32 \<and> list_all value_ok r"

fun kind_ok :: "txn_kind \<Rightarrow> bool" where
  "kind_ok (TPut r) = row_fits_frame r"
| "kind_ok (TDelete k) = value_ok k"

fun rec_ok :: "wal_record \<Rightarrow> bool" where
  "rec_ok (WInsert t c r) = row_fits_frame r"
| "rec_ok (WDelete t c k) = value_ok k"
| "rec_ok (WTxn ops) = (length ops < 2 ^ 32 \<and> list_all (\<lambda>op. kind_ok (op_kind op)) ops)"
| "rec_ok _ = True"

definition rec_fits :: "wal_record \<Rightarrow> bool" where
  "rec_fits r \<longleftrightarrow> rec_ok r \<and> length (rec_payload r) < 2 ^ 32"

interpretation c_kind: prefix_codec enc_kind d_kind kind_ok
proof (unfold_locales, goal_cases)
  case (1 k rest)
  then show ?case
    by (cases k) (simp_all add: d_kind_def codec_steps opcodes c_row.bind_step c_value.bind_step row_fits_frame_def)
qed

interpretation c_op: prefix_codec enc_op d_op "\<lambda>op. kind_ok (op_kind op)"
  by unfold_locales (simp add: enc_op_def d_op_def codec_steps c_kind.bind_step)

interpretation c_record: prefix_codec rec_payload d_record rec_ok
proof (unfold_locales, goal_cases)
  case (1 r rest)
  then show ?case
    by (cases r) (simp_all add: d_record_def codec_steps opcodes c_row.bind_step c_value.bind_step row_fits_frame_def
        c_op.bind_repeat unat_len32 list_all_iff)
qed

interpretation wl: framed_log rec_payload rec_decode rec_fits
proof (unfold_locales, goal_cases)
  case (1 r)
  then show ?case using c_record.roundtrip [of r "[]"] by (simp add: rec_decode_def run_decoder_def rec_fits_def)
qed (simp add: rec_fits_def)

text \<open>The bytes of a log.\<close>

definition log_image :: "wal_record list \<Rightarrow> bytes" where
  "log_image rs = concat (map rec_encode rs)"

lemma log_image_wl: "log_image = wl.image"
  by (rule ext) (simp add: log_image_def wl.image_def rec_encode_def [abs_def])

lemma log_image_simps [simp]:
  "log_image [] = []" "log_image (r # rs) = rec_encode r @ log_image rs" "log_image (rs @ ss) = log_image rs @ log_image ss"
  by (simp_all add: log_image_def)

lemma foldl_snoc [simp]: "foldl (\<lambda>rs r. rs @ [r]) acc xs = acc @ xs"
  by (induction xs arbitrary: acc) simp_all

lemma replay_intact:
  assumes "list_all rec_fits rs"
  shows "replay_bytes (log_image rs) = \<lparr>rr_records = rs, rr_valid_bytes = length (log_image rs), rr_truncated_tail = False\<rparr>"
  using wl.loop_intact [of rs "\<lambda>rs r. rs @ [r]" "[]" "[]"] assms
  by (simp add: replay_bytes_def log_image_wl list_all_iff)

section \<open>The state of the log\<close>

text \<open>
  The log holds the records \<open>rs\<close>: the file is their image, the durable image is a prefix of it, and the
  watermark of the coordinator does not run ahead of the durable image.
\<close>

definition log_core :: "wal_record list \<Rightarrow> wal \<Rightarrow> mem_io \<Rightarrow> bool" where
  "log_core rs w io \<longleftrightarrow>
     io_ok io \<and> \<not> io_drop_writes io \<and> list_all rec_fits rs \<and> mf_ok (handle (w_file w) io) \<and>
     mf_live (handle (w_file w) io) = log_image rs \<and> w_written w = length (log_image rs) \<and>
     (\<exists>n. mf_durable (handle (w_file w) io) = take n (log_image rs)) \<and>
     gc_durable (w_group w) \<le> length (mf_durable (handle (w_file w) io))"

text \<open>Between sequential operations no sync is in flight.\<close>

definition log_ok :: "wal_record list \<Rightarrow> wal \<Rightarrow> mem_io \<Rightarrow> bool" where
  "log_ok rs w io \<longleftrightarrow> log_core rs w io \<and> \<not> gc_syncing (w_group w)"

lemmas log_ok_defs = log_ok_def log_core_def

definition all_durable :: "wal \<Rightarrow> mem_io \<Rightarrow> bool" where
  "all_durable w io \<longleftrightarrow> mf_durable (handle (w_file w) io) = mf_live (handle (w_file w) io)"

lemma check_fault_files [simp]:
  "io_files (snd (check_fault op io)) = io_files io" "io_drop_writes (snd (check_fault op io)) = io_drop_writes io"
  by (simp_all add: check_fault_def Let_def split: prod.split)

lemma io_ok_cong: "io_files io' = io_files io \<Longrightarrow> io_ok io' = io_ok io \<and> handle p io' = handle p io"
  by (simp add: io_ok_def handle_def io_file_def)

lemma check_fault_frame [simp]:
  "io_ok (snd (check_fault op io)) = io_ok io" "handle p (snd (check_fault op io)) = handle p io"
  using io_ok_cong [of "snd (check_fault op io)" io p] by simp_all

lemma pwrite_cases:
  obtains io' where "pwrite path off bs io = (Inl (Injected FWrite), io')" "io_files io' = io_files io"
      "io_drop_writes io' = io_drop_writes io"
  | io' where "\<not> io_drop_writes io" "io_files io' = io_files io" "io_drop_writes io' = io_drop_writes io"
      "pwrite path off bs io = (Inr (length bs), io_put path (mf_pwrite off bs (handle path io)) io')"
  | io' where "io_drop_writes io"  "io_files io' = io_files io" "pwrite path off bs io = (Inr (length bs), io')"
  using check_fault_files [of FWrite io] check_fault_frame(2) [of path FWrite io]
  by (cases "check_fault FWrite io"; cases "fst (check_fault FWrite io)"; cases "io_drop_writes io")
     (auto simp: pwrite_def)

lemma sync_cases:
  obtains io' where "sync path io = (Inl (Injected FSync), io')" "io_files io' = io_files io" "io_drop_writes io' = io_drop_writes io"
  | io' where "sync path io = (Inr (), io_put path (mf_sync (handle path io)) io')" "io_files io' = io_files io"
      "io_drop_writes io' = io_drop_writes io"
  using check_fault_files [of FSync io] check_fault_frame(2) [of path FSync io]
  by (cases "check_fault FSync io"; cases "fst (check_fault FSync io)") (auto simp: sync_def)

lemma io_drop_put [simp]: "io_drop_writes (io_put p f io) = io_drop_writes io"
  by (simp add: io_put_def)

text \<open>Writing one more record under the append lock, on every outcome.\<close>

lemma append_locked_core:
  assumes ok: "log_core rs w io" and fits: "rec_fits r" and fresh: "mf_fresh (handle (w_file w) io)"
  obtains e io' where "append_locked r w io = (Inl e, w, io')" "log_core rs w io'" "io_files io' = io_files io"
  | w' io' where "append_locked r w io = (Inr (length (log_image (rs @ [r]))), w', io')" "log_core (rs @ [r]) w' io'"
      "w_mode w' = w_mode w" "w_file w' = w_file w" "w_group w' = w_group w"
      "mf_durable (handle (w_file w) io') = mf_durable (handle (w_file w) io)"
proof (rule pwrite_cases [of "w_file w" "w_written w" "rec_encode r" io])
  fix io'
  assume "pwrite (w_file w) (w_written w) (rec_encode r) io = (Inl (Injected FWrite), io')" "io_files io' = io_files io"
    "io_drop_writes io' = io_drop_writes io"
  then have "append_locked r w io = (Inl (Injected FWrite), w, io') \<and> log_core rs w io' \<and> io_files io' = io_files io"
    using ok io_ok_cong [of io' io "w_file w"] by (auto simp: append_locked_def log_core_def)
  then show ?thesis using that(1) by blast
next
  fix io'
  assume p: "\<not> io_drop_writes io" "io_files io' = io_files io" "io_drop_writes io' = io_drop_writes io"
    "pwrite (w_file w) (w_written w) (rec_encode r) io =
       (Inr (length (rec_encode r)), io_put (w_file w) (mf_pwrite (w_written w) (rec_encode r) (handle (w_file w) io)) io')"
  let ?io = "io_put (w_file w) (mf_pwrite (w_written w) (rec_encode r) (handle (w_file w) io)) io'"
  let ?w = "w\<lparr>w_written := length (log_image (rs @ [r])), w_appends := w_appends w + 1\<rparr>"
  obtain n where n: "mf_durable (handle (w_file w) io) = take n (log_image rs)" using ok by (auto simp: log_core_def)
  have "mf_durable (handle (w_file w) io) = take (min n (length (log_image rs))) (log_image (rs @ [r]))"
    using n by (simp add: min_def)
  moreover have "mf_live (mf_pwrite (w_written w) (rec_encode r) (handle (w_file w) io)) = log_image (rs @ [r])"
    "mf_durable (mf_pwrite (w_written w) (rec_encode r) (handle (w_file w) io)) = mf_durable (handle (w_file w) io)"
    "mf_ok (mf_pwrite (w_written w) (rec_encode r) (handle (w_file w) io))"
    using ok fresh by (simp_all add: log_core_def mf_ok_pwrite) (simp_all add: mf_pwrite_def)
  ultimately have "log_core (rs @ [r]) ?w ?io"
    using ok p io_ok_cong [of io' io "w_file w"] fits
    by (auto simp: log_core_def intro!: exI [of _ "min n (length (log_image rs))"])
  moreover have "append_locked r w io = (Inr (length (log_image (rs @ [r]))), ?w, ?io)"
    using ok p by (simp add: append_locked_def log_core_def Let_def)
  moreover have "mf_durable (handle (w_file w) ?io) = mf_durable (handle (w_file w) io)"
    using ok p(2) io_ok_cong [of io' io "w_file w"] by (simp add: log_core_def mf_pwrite_def)
  ultimately show ?thesis using that(2) [of ?w ?io] by simp
next
  fix io' assume "io_drop_writes io"
  then show ?thesis using ok by (simp add: log_core_def)
qed

lemma append_locked_ok:
  assumes ok: "log_ok rs w io" and fits: "rec_fits r" and fresh: "mf_fresh (handle (w_file w) io)"
  obtains e io' where "append_locked r w io = (Inl e, w, io')" "log_ok rs w io'"
  | w' io' where "append_locked r w io = (Inr (length (log_image (rs @ [r]))), w', io')" "log_ok (rs @ [r]) w' io'"
      "w_mode w' = w_mode w" "w_file w' = w_file w"
  by (rule append_locked_core [of rs w io r]) (use assms in \<open>auto simp: log_ok_def intro: that\<close>)

lemma commit_to_ok:
  assumes ok: "log_ok rs w io" and n: "n \<le> w_written w"
  obtains w' io' where "commit_to n w io = Some (Inr (), w', io')" "log_ok rs w' io'" "n \<le> gc_durable (w_group w')"
      "w_mode w' = w_mode w" "w_file w' = w_file w"
  | e w' io' where "commit_to n w io = Some (Inl e, w', io')" "log_ok rs w' io'" "w_mode w' = w_mode w" "w_file w' = w_file w"
proof (cases "n \<le> gc_durable (w_group w)")
  case True
  then have "commit_to n w io = Some (Inr (), w, io)" by (simp add: commit_to_def gc_begin_def)
  then show ?thesis using that(1) ok True by blast
next
  case False
  then have begin_: "gc_begin n (w_group w) = Some (DoSync, (w_group w)\<lparr>gc_syncing := True\<rparr>)"
    using ok by (simp add: gc_begin_def log_ok_defs)
  show ?thesis
  proof (rule sync_cases [of "w_file w" io])
    fix io'
    assume s: "sync (w_file w) io = (Inl (Injected FSync), io')" "io_files io' = io_files io" "io_drop_writes io' = io_drop_writes io"
    let ?w = "w\<lparr>w_group := gc_abort ((w_group w)\<lparr>gc_syncing := True\<rparr>)\<rparr>"
    have "log_ok rs ?w io'" using ok s io_ok_cong [of io' io "w_file w"] by (auto simp: log_ok_defs)
    moreover have "commit_to n w io = Some (Inl (Injected FSync), ?w, io')" using s begin_ by (simp add: commit_to_def)
    ultimately show ?thesis using that(2) by simp
  next
    fix io'
    assume s: "sync (w_file w) io = (Inr (), io_put (w_file w) (mf_sync (handle (w_file w) io)) io')" "io_files io' = io_files io"
      "io_drop_writes io' = io_drop_writes io"
    let ?w = "w\<lparr>w_group := gc_complete (w_written w) ((w_group w)\<lparr>gc_syncing := True\<rparr>), w_syncs := w_syncs w + 1\<rparr>"
    let ?io = "io_put (w_file w) (mf_sync (handle (w_file w) io)) io'"
    have "mf_ok (mf_sync (handle (w_file w) io))" "mf_durable (mf_sync (handle (w_file w) io)) = log_image rs"
      using ok mf_sync_ok [of "handle (w_file w) io"] by (simp_all add: log_ok_defs)
    then have "log_ok rs ?w ?io" using ok s io_ok_cong [of io' io "w_file w"]
      by (auto simp: log_ok_defs max_def intro!: exI [of _ "length (log_image rs)"])
    moreover have "commit_to n w io = Some (Inr (), ?w, ?io)" using s begin_ by (simp add: commit_to_def)
    ultimately show ?thesis using that(1) n by simp
  qed
qed

section \<open>What survives\<close>

lemma replay_cut:
  assumes "list_all rec_fits rs" "n \<le> length (log_image rs)"
  obtains k where "k \<le> length rs" "length (log_image (take k rs)) \<le> n"
    "\<And>m. m \<le> length rs \<Longrightarrow> length (log_image (take m rs)) \<le> n \<Longrightarrow> m \<le> k"
    "replay_bytes (take n (log_image rs)) =
       \<lparr>rr_records = take k rs, rr_valid_bytes = length (log_image (take k rs)),
        rr_truncated_tail = (n \<noteq> length (log_image (take k rs)))\<rparr>"
proof (rule wl.loop_cut [of rs n])
  show "\<forall>r \<in> set rs. rec_fits r" using assms(1) by (simp add: list_all_iff)
  show "n \<le> length (wl.image rs)" using assms(2) by (simp add: log_image_wl)
  fix k t
  assume k: "k \<le> length rs" "length (wl.image (take k rs)) \<le> n"
    "\<And>m. m \<le> length rs \<Longrightarrow> length (wl.image (take m rs)) \<le> n \<Longrightarrow> m \<le> k" "t = (n \<noteq> length (wl.image (take k rs)))"
    and loop: "\<And>step (acc :: wal_record list). log_loop rec_decode step (take n (wl.image rs)) 0 acc = (foldl step acc (take k rs), length (wl.image (take k rs)), t)"
  show thesis
    by (rule that [of k]) (use k in \<open>simp_all add: log_image_wl replay_bytes_def loop\<close>)
qed

text \<open>After power loss a prefix of the log comes back, and it contains every record that ends at or below the watermark.\<close>

lemma log_survives:
  assumes "log_ok rs w io"
  obtains k where "k \<le> length rs" "rr_records (replay_bytes (mf_live (handle (w_file w) (io_crash io)))) = take k rs"
    "\<And>m. m \<le> length rs \<Longrightarrow> length (log_image (take m rs)) \<le> gc_durable (w_group w) \<Longrightarrow> m \<le> k"
proof -
  from assms obtain n where n: "mf_durable (handle (w_file w) io) = take n (log_image rs)"
    and fits: "list_all rec_fits rs" and wm: "gc_durable (w_group w) \<le> length (mf_durable (handle (w_file w) io))"
    by (auto simp: log_ok_defs)
  let ?n = "min n (length (log_image rs))"
  have img: "mf_live (handle (w_file w) (io_crash io)) = take ?n (log_image rs)"
    using n by (simp add: handle_crash mf_crash_def min_def)
  have n': "?n \<le> length (log_image rs)" by simp
  show ?thesis
  proof (rule replay_cut [OF fits n'])
    fix k
    assume "k \<le> length rs" "\<And>m. m \<le> length rs \<Longrightarrow> length (log_image (take m rs)) \<le> ?n \<Longrightarrow> m \<le> k"
      "replay_bytes (take ?n (log_image rs)) =
       \<lparr>rr_records = take k rs, rr_valid_bytes = length (log_image (take k rs)),
        rr_truncated_tail = (?n \<noteq> length (log_image (take k rs)))\<rparr>"
    then show ?thesis using wm n by (intro that [of k]) (auto simp: img)
  qed
qed

lemma rec_encode_nonempty [simp]: "rec_encode r \<noteq> []"
  using length_frame [of "rec_payload r"] by (auto simp: rec_encode_def simp del: length_frame)

lemma wal_append_ok:
  assumes ok: "log_ok rs w io" and fits: "rec_fits r" and fresh: "mf_fresh (handle (w_file w) io)"
  obtains w' io' where "wal_append r w io = Some (Inr (length (log_image (rs @ [r]))), w', io')" "log_ok (rs @ [r]) w' io'"
      "w_file w' = w_file w" "waits_for_disk (w_mode w) \<Longrightarrow> length (log_image (rs @ [r])) \<le> gc_durable (w_group w')"
  | e rs' w' io' where "wal_append r w io = Some (Inl e, w', io')" "log_ok rs' w' io'" "rs' = rs \<or> rs' = rs @ [r]"
      "w_file w' = w_file w"
proof (rule append_locked_ok [OF ok fits fresh])
  fix e io'
  assume "append_locked r w io = (Inl e, w, io')" "log_ok rs w io'"
  then show ?thesis by (intro that(2)) (auto simp: wal_append_def)
next
  fix w' io'
  assume a: "append_locked r w io = (Inr (length (log_image (rs @ [r]))), w', io')" "log_ok (rs @ [r]) w' io'"
    "w_mode w' = w_mode w" "w_file w' = w_file w"
  show ?thesis
  proof (cases "w_mode w = Async")
    case True
    then show ?thesis using a by (intro that(1) [of w' io']) (auto simp: wal_append_def waits_for_disk_def)
  next
    case False
    define n where "n = length (log_image (rs @ [r]))"
    have wr: "n \<le> w_written w'" using a(2) by (simp add: log_ok_defs n_def)
    have app: "wal_append r w io = (case commit_to n w' io' of None \<Rightarrow> None
       | Some (Inl err, w, io) \<Rightarrow> Some (Inl err, w, io)
       | Some (Inr _, w, io) \<Rightarrow> Some (Inr n, w, io))"
      using False a(1,3) n_def [symmetric] by (cases "w_mode w") (simp_all add: wal_append_def cong: option.case_cong)
    show ?thesis
      by (rule commit_to_ok [OF a(2) wr]) (use app a(4) in \<open>auto simp: n_def intro: that\<close>)
  qed
qed

text \<open>Dropping the records in front of a record boundary.\<close>

lemma mf_live_truncate0 [simp]: "mf_live (mf_truncate 0 f) = []"
  by (simp add: mf_truncate_def)

lemma mf_truncate_write:
  assumes "mf_ok f" "mf_fresh f" "mf_fresh (mf_truncate 0 f)"
  shows "mf_ok (mf_pwrite 0 bs (mf_truncate 0 f))" "mf_live (mf_pwrite 0 bs (mf_truncate 0 f)) = bs"
  by (rule mf_ok_pwrite [OF mf_ok_truncate [OF assms(1,2)] assms(3)]) (simp add: mf_pwrite_def mf_truncate_def)

lemma truncate_before_ok:
  assumes ok: "log_ok (rs @ ss) w io" and calm: "io_calm io"
    and fresh: "mf_fresh (handle (w_file w) io)" "mf_fresh (mf_truncate 0 (handle (w_file w) io))"
  obtains w' io' where "truncate_before (length (log_image rs)) w io = (Inr (), w', io')"
    "log_ok (if rs = [] then rs @ ss else ss) w' io'" "w_file w' = w_file w" "w_mode w' = w_mode w" "io_calm io'"
    "rs \<noteq> [] \<Longrightarrow> all_durable w' io'" "durable_bytes w' = (if rs = [] then durable_bytes w else length (log_image ss))"
proof (cases "rs = []")
  case True
  then have "truncate_before (length (log_image rs)) w io = (Inr (), w, io)" by (simp add: truncate_before_def)
  then show ?thesis using that [of w io] ok calm True by simp
next
  case False
  let ?p = "w_file w" let ?f = "handle (w_file w) io"
  have live: "mf_live ?f = log_image rs @ log_image ss" and wr: "w_written w = length (log_image rs) + length (log_image ss)"
    and iok: "io_ok io" and mok: "mf_ok ?f"
    using ok by (auto simp: log_ok_defs)
  have pos: "0 < length (log_image rs)" using False by (cases rs) simp_all
  have rd: "(if replicate (length (log_image ss)) 0 \<noteq> ([] :: bytes)
      then io_bind (pread ?p (length (log_image rs)) (replicate (length (log_image ss)) 0) io) (\<lambda>(_, buf) io. (Inr buf, io))
      else (Inr (replicate (length (log_image ss)) 0), io)) = (Inr (log_image ss), io)"
    by (auto simp: pread_calm [OF calm] mf_pread_def live io_bind_def)
  let ?io1 = "file_truncate ?p 0 io"
  define g where "g = (if log_image ss = [] then mf_truncate 0 ?f else mf_pwrite 0 (log_image ss) (mf_truncate 0 ?f))"
  define io2 where "io2 = (if log_image ss = [] then ?io1 else io_put ?p (mf_pwrite 0 (log_image ss) (handle ?p ?io1)) ?io1)"
  have calm1: "io_calm ?io1" using calm by simp
  have io2: "(if log_image ss \<noteq> [] then pwrite ?p 0 (log_image ss) ?io1 else (Inr 0, ?io1)) =
      (Inr (length (log_image ss)), io2)" "io_calm io2" "handle ?p io2 = g"
    using calm1 iok by (auto simp: io2_def g_def pwrite_calm file_truncate_def io_calm_ok)
  have g: "mf_ok g" "mf_live g = log_image ss"
    using mf_truncate_write [OF mok fresh, of "log_image ss"] mf_ok_truncate [OF mok fresh(1)] by (auto simp: g_def)
  let ?w = "w\<lparr>w_written := length (log_image ss), w_group := gc_reset_to (length (log_image ss)) (w_group w)\<rparr>"
  let ?io = "io_put ?p (mf_sync (handle ?p io2)) io2"
  have "truncate_before (length (log_image rs)) w io = (Inr (), ?w, ?io)"
    using pos wr rd io2(1) by (simp add: truncate_before_def Let_def sync_calm [OF io2(2)])
  moreover have "log_ok ss ?w ?io"
    using ok io2(2,3) g mf_sync_ok [of g]
    by (auto simp: log_ok_defs io_calm_def intro!: exI [of _ "length (log_image ss)"])
  moreover have "all_durable ?w ?io" "io_calm ?io"
    using io2(2,3) g mf_sync_ok [of g] by (auto simp: all_durable_def io_calm_ok)
  ultimately show ?thesis using that [of ?w ?io] False by (simp add: durable_bytes_def)
qed

lemma wal_open_ok:
  assumes "io_ok io" "\<not> io_drop_writes io" "mf_ok (handle path io)" "list_all rec_fits rs"
    "mf_live (handle path io) = log_image rs" "mf_durable (handle path io) = log_image rs" "wal_open path mode io = (w, io')"
  shows "log_ok rs w io' \<and> w_file w = path \<and> w_mode w = mode"
  using assms by (auto simp: wal_open_def Let_def log_ok_defs file_len_def gc_new_def max_def
      intro!: exI [of _ "length (log_image rs)"])

section \<open>Properties\<close>

text \<open>
  Every log record survives its encoding, transactions included: replaying the framed record gives it back, all of its
  operations in order, and reports a clean log.
\<close>

theorem wal_record_roundtrip:
  "rec_fits r \<Longrightarrow>
   replay_bytes (rec_encode r) = \<lparr>rr_records = [r], rr_valid_bytes = length (rec_encode r), rr_truncated_tail = False\<rparr>"
  using replay_intact [of "[r]"] by simp

definition sample_txn :: wal_record where
  "sample_txn = WTxn [\<lparr>op_table = 1, op_csn = 7, op_kind = TPut [VInt 4, VText ''ab'', VNull]\<rparr>,
                      \<lparr>op_table = 2, op_csn = 8, op_kind = TDelete (VInt 3)\<rparr>]"

lemma sample_txn_fits: "rec_fits sample_txn"
  by (simp add: rec_fits_def sample_txn_def row_fits_frame_def text_ok_def as_bytes_def byte_of_def enc_op_def
      enc_u8_def enc_u32_def enc_u64_def enc_i64_def enc_row_def enc_str_def enc_bytes_def)

lemma wal_record_roundtrip_witness: "rr_records (replay_bytes (rec_encode sample_txn)) = [sample_txn]"
  using wal_record_roundtrip [OF sample_txn_fits] by simp

text \<open>
  C35. A log cut at any byte replays to a prefix of its records: the longest one that is complete in what is left.  A record that is
  cut, a transaction in particular, contributes nothing, and the tail is reported as truncated exactly when
  the cut falls inside a record.
\<close>

theorem wal_replay_prefix:
  "list_all rec_fits rs \<and> n \<le> length (log_image rs) \<Longrightarrow>
   \<exists>k \<le> length rs.
     replay_bytes (take n (log_image rs)) =
       \<lparr>rr_records = take k rs, rr_valid_bytes = length (log_image (take k rs)),
        rr_truncated_tail = (length (log_image (take k rs)) < n)\<rparr> \<and>
     (\<forall>m. m \<le> length rs \<and> length (log_image (take m rs)) \<le> n \<longrightarrow> m \<le> k)"
  by (rule replay_cut [of rs n]) (auto intro!: exI)

lemma wal_replay_prefix_witness:
  "\<exists>k \<le> 2. rr_records (replay_bytes (take (length (rec_encode sample_txn) + 3) (log_image [sample_txn, WCheckpoint 9]))) =
     take k [sample_txn, WCheckpoint 9] \<and> 1 \<le> k"
proof -
  have "list_all rec_fits [sample_txn, WCheckpoint 9] \<and>
      length (rec_encode sample_txn) + 3 \<le> length (log_image [sample_txn, WCheckpoint 9])"
    using sample_txn_fits by (simp add: rec_fits_def rec_encode_def enc_u8_def enc_u64_def)
  from wal_replay_prefix [OF this] obtain k where
    "k \<le> 2" "rr_records (replay_bytes (take (length (rec_encode sample_txn) + 3) (log_image [sample_txn, WCheckpoint 9]))) =
     take k [sample_txn, WCheckpoint 9]"
    "\<forall>m. m \<le> 2 \<and> length (log_image (take m [sample_txn, WCheckpoint 9])) \<le> length (rec_encode sample_txn) + 3 \<longrightarrow> m \<le> k"
    by (force simp: numeral_2_eq_2)
  then show ?thesis by (auto intro!: exI [of _ k] dest!: spec [of _ 1])
qed

text \<open>
  Acknowledged means durable: an append never blocks when no sync is in flight, and whatever faults the device injects, one that
  returns successfully in the sync or group mode leaves the log, after a power loss, with every record up to and
  including the new one.  An append that fails keeps the log well formed and loses nothing that was there.
\<close>

theorem wal_append_durable:
  "log_ok rs w io \<and> rec_fits r \<and> mf_fresh (handle (w_file w) io) \<Longrightarrow>
   case wal_append r w io of
     None \<Rightarrow> False
   | Some (Inr e, w', io') \<Rightarrow> log_ok (rs @ [r]) w' io' \<and> e = w_written w' \<and>
       (waits_for_disk (w_mode w) \<longrightarrow>
          replay_bytes (mf_live (handle (w_file w) (io_crash io'))) =
            \<lparr>rr_records = rs @ [r], rr_valid_bytes = e, rr_truncated_tail = False\<rparr>)
   | Some (Inl _, w', io') \<Rightarrow> log_ok rs w' io' \<or> log_ok (rs @ [r]) w' io'"
proof (elim conjE)
  assume ok: "log_ok rs w io" "rec_fits r" "mf_fresh (handle (w_file w) io)"
  show ?thesis
  proof (rule wal_append_ok [OF ok])
    fix w' io'
    assume a: "wal_append r w io = Some (Inr (length (log_image (rs @ [r]))), w', io')" "log_ok (rs @ [r]) w' io'"
      "w_file w' = w_file w" "waits_for_disk (w_mode w) \<Longrightarrow> length (log_image (rs @ [r])) \<le> gc_durable (w_group w')"
    have "mf_live (handle (w_file w) (io_crash io')) = log_image (rs @ [r])" if waits: "waits_for_disk (w_mode w)"
    proof -
      obtain n where n: "mf_durable (handle (w_file w) io') = take n (log_image (rs @ [r]))"
        using a(2,3) unfolding log_ok_defs by metis
      have "length (log_image (rs @ [r])) \<le> length (mf_durable (handle (w_file w) io'))"
        using a(2,3) a(4) [OF waits] unfolding log_ok_defs by simp
      then show ?thesis using n by (simp add: handle_crash mf_crash_def)
    qed
    then show ?thesis using a(1,2) replay_intact [of "rs @ [r]"] by (auto simp: log_ok_defs)
  next
    fix e rs' w' io'
    assume "wal_append r w io = Some (Inl e, w', io')" "log_ok rs' w' io'" "rs' = rs \<or> rs' = rs @ [r]"
    then show ?thesis by auto
  qed
qed

text \<open>A fresh log in an empty file system, with a fault scheduled for the second sync.\<close>

definition sample_io :: mem_io where
  "sample_io = inject_fault FSync 1 io_new"

definition sample_wal :: wal where
  "sample_wal = fst (wal_open ''wal.log'' Group sample_io)"

lemma sample_log_ok: "log_ok [] sample_wal (snd (wal_open ''wal.log'' Group sample_io))"
  using wal_open_ok [of sample_io "''wal.log''" "[]" Group sample_wal "snd (wal_open ''wal.log'' Group sample_io)"]
  by (simp add: sample_wal_def sample_io_def io_new_def inject_fault_def io_ok_def handle_def io_file_def mf_new_def mf_ok_def)

lemma sample_io_ok: "io_ok sample_io" "handle p sample_io = mf_new"
  by (simp_all add: sample_io_def io_new_def inject_fault_def io_ok_def handle_def io_file_def)

lemma wal_append_durable_witness:
  "case wal_append sample_txn sample_wal (snd (wal_open ''wal.log'' Group sample_io)) of
     None \<Rightarrow> False
   | Some (Inr e, w', io') \<Rightarrow> rr_records (replay_bytes (mf_live (handle ''wal.log'' (io_crash io')))) = [sample_txn]
   | Some (Inl _, w', io') \<Rightarrow> log_ok [] w' io' \<or> log_ok [sample_txn] w' io'"
proof -
  let ?io = "snd (wal_open ''wal.log'' Group sample_io)"
  have w: "w_file sample_wal = ''wal.log''" "w_mode sample_wal = Group" by (simp_all add: sample_wal_def wal_open_def Let_def)
  have "mf_fresh (handle (w_file sample_wal) ?io)"
    by (simp add: wal_open_def Let_def sample_io_ok mf_fresh_def mf_new_def)
  with sample_log_ok sample_txn_fits
  have "log_ok [] sample_wal ?io \<and> rec_fits sample_txn \<and> mf_fresh (handle (w_file sample_wal) ?io)" by blast
  note ok = wal_append_durable [OF this]
  show ?thesis
  proof (cases "wal_append sample_txn sample_wal ?io")
    case (Some x)
    obtain res w' io' where x: "x = (res, w', io')" by (cases x)
    show ?thesis using ok by (cases res) (simp_all add: Some x w waits_for_disk_def)
  qed (use ok in simp)
qed

text \<open>
  Dropping the front of the log at a record boundary keeps exactly the records behind it, makes them durable, and lowers the watermark
  with the file, so that the next append is synced again.
\<close>

theorem wal_truncate_keeps_tail:
  "log_ok (rs @ ss) w io \<and> rs \<noteq> [] \<and> io_calm io \<and> mf_fresh (handle (w_file w) io) \<and>
   mf_fresh (mf_truncate 0 (handle (w_file w) io)) \<Longrightarrow>
   case truncate_before (length (log_image rs)) w io of
     (res, w', io') \<Rightarrow> res = Inr () \<and> log_ok ss w' io' \<and> durable_bytes w' = length (log_image ss) \<and>
       rr_records (replay_bytes (mf_live (handle (w_file w) (io_crash io')))) = ss"
proof (elim conjE)
  assume ok: "log_ok (rs @ ss) w io" "io_calm io" "mf_fresh (handle (w_file w) io)" "mf_fresh (mf_truncate 0 (handle (w_file w) io))"
    and ne: "rs \<noteq> []"
  show ?thesis
  proof (rule truncate_before_ok [OF ok])
    fix w' io'
    assume t: "truncate_before (length (log_image rs)) w io = (Inr (), w', io')"
      "log_ok (if rs = [] then rs @ ss else ss) w' io'" "w_file w' = w_file w" "rs \<noteq> [] \<Longrightarrow> all_durable w' io'"
      "durable_bytes w' = (if rs = [] then durable_bytes w else length (log_image ss))"
    then have l: "log_ok ss w' io'" "all_durable w' io'" using ne by auto
    then have "list_all rec_fits ss" "mf_live (handle (w_file w) (io_crash io')) = log_image ss"
      using t(3) by (auto simp: log_ok_defs all_durable_def handle_crash mf_crash_def)
    then show ?thesis using t(1,5) l ne replay_intact [of ss] by simp
  qed
qed

text \<open>A file system whose log holds given bytes, all of them durable.\<close>

definition io_with_log :: "bytes \<Rightarrow> mem_io" where
  "io_with_log bs = io_put ''wal.log'' \<lparr>mf_live = bs, mf_durable = bs, mf_write_seq = 0, mf_synced_seq = 0\<rparr> io_new"

lemma io_with_log:
  "io_calm (io_with_log bs)"
  "handle ''wal.log'' (io_with_log bs) = \<lparr>mf_live = bs, mf_durable = bs, mf_write_seq = 0, mf_synced_seq = 0\<rparr>"
proof -
  have "io_calm io_new" by (simp add: io_calm_def io_ok_def io_new_def)
  then show "io_calm (io_with_log bs)"
    "handle ''wal.log'' (io_with_log bs) = \<lparr>mf_live = bs, mf_durable = bs, mf_write_seq = 0, mf_synced_seq = 0\<rparr>"
    by (simp_all add: io_with_log_def io_calm_ok)
qed

lemma wal_truncate_keeps_tail_witness:
  "rr_records (replay_bytes (mf_live (handle ''wal.log'' (io_crash (snd (snd
     (case wal_open ''wal.log'' Sync (io_with_log (log_image [sample_txn, WCheckpoint 9])) of
        (w, io) \<Rightarrow> truncate_before (length (log_image [sample_txn])) w io))))))) = [WCheckpoint 9]"
proof -
  let ?bs = "log_image [sample_txn, WCheckpoint 9]"
  obtain w io where open_: "wal_open ''wal.log'' Sync (io_with_log ?bs) = (w, io)" by (cases "wal_open ''wal.log'' Sync (io_with_log ?bs)")
  have fits: "list_all rec_fits [sample_txn, WCheckpoint 9]"
    using sample_txn_fits by (simp add: rec_fits_def enc_u8_def enc_u64_def)
  have ok: "log_ok [sample_txn, WCheckpoint 9] w io \<and> w_file w = ''wal.log'' \<and> w_mode w = Sync"
    by (rule wal_open_ok [OF _ _ _ fits _ _ open_]) (use io_with_log [of ?bs] in \<open>simp_all add: io_calm_def mf_ok_def\<close>)
  have io: "io_calm io" "handle ''wal.log'' io = handle ''wal.log'' (io_with_log ?bs)"
    using open_ io_with_log(1) [of ?bs] by (auto simp: wal_open_def Let_def io_calm_ok)
  have "log_ok ([sample_txn] @ [WCheckpoint 9]) w io \<and> [sample_txn] \<noteq> [] \<and> io_calm io \<and> mf_fresh (handle (w_file w) io) \<and>
   mf_fresh (mf_truncate 0 (handle (w_file w) io))"
    using ok io io_with_log(2) [of ?bs] by (simp add: mf_fresh_def mf_truncate_def)
  from wal_truncate_keeps_tail [OF this] show ?thesis
    using ok unfolding open_ by (simp add: case_prod_beta)
qed

section \<open>Restarting on a torn tail\<close>

lemma unframe_swallows:
  assumes "length p < 2 ^ 32" "8 \<le> k" "k + length x < length (frame p)"
  shows "unframe (pre @ take k (frame p) @ x) (length pre) = Inl Truncated"
proof -
  have "take k (frame p) = enc_u32 (word_of_nat (length p)) @ enc_u32 (crc32 p) @ take (k - 8) p"
    using assms(2) by (simp add: frame_def)
  then show ?thesis using assms by (simp add: unframe_def Let_def unat_len32)
qed

lemma replay_swallows:
  assumes "list_all rec_fits rs" "rec_fits r" "8 \<le> k" "k + length x < length (rec_encode r)"
  shows "replay_bytes (log_image rs @ take k (rec_encode r) @ x) =
    \<lparr>rr_records = rs, rr_valid_bytes = length (log_image rs), rr_truncated_tail = True\<rparr>"
proof -
  have "unframe (log_image rs @ take k (frame (rec_payload r)) @ x) (length (log_image rs)) = Inl Truncated"
    using assms by (intro unframe_swallows) (auto simp: rec_fits_def rec_encode_def)
  then show ?thesis
    using wl.loop_records [of rs "\<lambda>rs r. rs @ [r]" "[]" "take k (rec_encode r) @ x" "[]"] assms
    by (simp add: replay_bytes_def log_image_wl list_all_iff log_loop.simps rec_encode_def)
qed

text \<open>
  C39. A restart on a log with a torn last record can lose what is acknowledged next.  Opening the log puts the append position behind the
  torn bytes, and nothing cuts them off.  When the header of the torn record is complete and the record was longer than the
  next one, that next record, appended, synced and acknowledged, is taken for the missing bytes of the torn one:
  after another power loss the replay returns only the records before the tear.
\<close>

theorem torn_restart_loses_append:
  "list_all rec_fits rs \<and> rec_fits r \<and> 8 \<le> k \<and> k + length (rec_encode q) < length (rec_encode r) \<Longrightarrow>
   case wal_open ''wal.log'' Sync (io_with_log (log_image rs @ take k (rec_encode r))) of
     (w, io) \<Rightarrow> \<exists>e w' io'. wal_append q w io = Some (Inr e, w', io') \<and>
       fst (wal_replay ''wal.log'' (io_crash io')) =
         Inr \<lparr>rr_records = rs, rr_valid_bytes = length (log_image rs), rr_truncated_tail = True\<rparr>"
proof (elim conjE)
  assume fits: "list_all rec_fits rs" "rec_fits r" and k: "8 \<le> k" "k + length (rec_encode q) < length (rec_encode r)"
  define t where "t = log_image rs @ take k (rec_encode r)"
  obtain w io where open_: "wal_open ''wal.log'' Sync (io_with_log t) = (w, io)" by (cases "wal_open ''wal.log'' Sync (io_with_log t)")
  have calm: "io_calm io" and h: "handle ''wal.log'' io = handle ''wal.log'' (io_with_log t)"
    using open_ io_with_log(1) [of t] by (auto simp: wal_open_def Let_def io_calm_ok)
  have w: "w_file w = ''wal.log''" "w_written w = length t" "gc_durable (w_group w) = length t" "w_mode w = Sync"
    "\<not> gc_syncing (w_group w)"
    using open_ io_with_log [of t] by (auto simp: wal_open_def Let_def file_len_def io_calm_ok gc_new_def)
  define f where "f = mf_sync (mf_pwrite (length t) (rec_encode q) (handle ''wal.log'' io))"
  have f: "mf_durable f = t @ rec_encode q"
    using h io_with_log(2) [of t] by (simp add: f_def mf_sync_def mf_pwrite_def)
  have "\<exists>e w' io'. wal_append q w io = Some (Inr e, w', io') \<and> io_calm io' \<and> handle ''wal.log'' io' = f"
    using calm w io_calm_ok [OF calm]
    by (simp add: wal_append_def append_locked_def pwrite_calm commit_to_def gc_begin_def sync_calm Let_def io_calm_ok f_def)
  then obtain e w' io' where a: "wal_append q w io = Some (Inr e, w', io')" "io_calm io'" "handle ''wal.log'' io' = f" by blast
  have "fst (wal_replay ''wal.log'' (io_crash io')) = Inr (replay_bytes (t @ rec_encode q))"
    using a io_calm_crash [OF a(2)] f
    by (simp add: wal_replay_def read_whole_calm io_bind_def handle_crash mf_crash_def io_calm_ok)
  then show ?thesis using open_ a(1) replay_swallows [OF fits k] by (simp add: t_def)
qed

lemma torn_restart_loses_append_witness:
  "case wal_open ''wal.log'' Sync (io_with_log (log_image [WCheckpoint 1] @ take 8 (rec_encode sample_txn))) of
     (w, io) \<Rightarrow> \<exists>e w' io'. wal_append (WCheckpoint 2) w io = Some (Inr e, w', io') \<and>
       fst (wal_replay ''wal.log'' (io_crash io')) =
         Inr \<lparr>rr_records = [WCheckpoint 1], rr_valid_bytes = length (log_image [WCheckpoint 1]), rr_truncated_tail = True\<rparr>"
proof -
  have "list_all rec_fits [WCheckpoint 1] \<and> rec_fits sample_txn \<and> 8 \<le> (8 :: nat) \<and>
      8 + length (rec_encode (WCheckpoint 2)) < length (rec_encode sample_txn)"
    using sample_txn_fits
    by (simp add: rec_fits_def sample_txn_def rec_encode_def enc_op_def enc_u8_def enc_u32_def enc_u64_def enc_i64_def enc_row_def enc_str_def
        enc_bytes_def)
  then show ?thesis by (rule torn_restart_loses_append)
qed

end
