(* ===== verification/Ck_WalRace.thy ===== *)
theory Ck_WalRace
  imports Ck_Wal
begin

text \<open>
  Concurrent committers on the write-ahead log (\<open>Wal::append\<close> with \<open>GroupCommit\<close> of \<open>src/src/durability.rs\<close>).
  Each step of the relation below is one of the atomic actions a thread performs between two points where others may run: the
  write under the append lock, the election under the coordinator's mutex, the load of the covered length, the sync, and the
  publication of its result.  Threads are numbered, appends and injected faults come at any time.

  The results: whatever the interleaving, a record whose append was acknowledged survives a power loss, and the
  threads never deadlock.  Truncation is not a step: the last section shows the interleaving with a truncation that loses a record.
\<close>

section \<open>Steps\<close>

text \<open>
  Where a thread is inside \<open>append\<close>: not in it, waiting for its offset to become durable, elected, syncing with the length its
  sync will cover, done with the sync, or about to give up after a failed sync.
\<close>

datatype pc = Idle | Appended nat | Elected nat | Syncing nat nat | Synced nat nat | Failing nat

record commit_sys =
  cs_wal :: wal
  cs_io :: mem_io
  cs_pc :: "nat \<Rightarrow> pc"
  cs_log :: "wal_record list"
  cs_acked :: "nat set"

text \<open>The records written so far and the acknowledged offsets are ghost state.\<close>

inductive work_step :: "commit_sys \<Rightarrow> commit_sys \<Rightarrow> bool" where
  durable: "cs_pc s t = Appended n \<Longrightarrow> gc_begin n (w_group (cs_wal s)) = Some (Done, g) \<Longrightarrow>
    work_step s (s\<lparr>cs_wal := (cs_wal s)\<lparr>w_group := g\<rparr>, cs_pc := (cs_pc s)(t := Idle), cs_acked := insert n (cs_acked s)\<rparr>)"
| elect: "cs_pc s t = Appended n \<Longrightarrow> gc_begin n (w_group (cs_wal s)) = Some (DoSync, g) \<Longrightarrow>
    work_step s (s\<lparr>cs_wal := (cs_wal s)\<lparr>w_group := g\<rparr>, cs_pc := (cs_pc s)(t := Elected n)\<rparr>)"
| load: "cs_pc s t = Elected n \<Longrightarrow>
    work_step s (s\<lparr>cs_pc := (cs_pc s)(t := Syncing n (w_written (cs_wal s)))\<rparr>)"
| sync_ok: "cs_pc s t = Syncing n c \<Longrightarrow> sync (w_file (cs_wal s)) (cs_io s) = (Inr (), io) \<Longrightarrow>
    work_step s (s\<lparr>cs_io := io, cs_pc := (cs_pc s)(t := Synced n c)\<rparr>)"
| sync_err: "cs_pc s t = Syncing n c \<Longrightarrow> sync (w_file (cs_wal s)) (cs_io s) = (Inl e, io) \<Longrightarrow>
    work_step s (s\<lparr>cs_io := io, cs_pc := (cs_pc s)(t := Failing n)\<rparr>)"
| complete: "cs_pc s t = Synced n c \<Longrightarrow>
    work_step s (s\<lparr>cs_wal := (cs_wal s)\<lparr>w_group := gc_complete c (w_group (cs_wal s)), w_syncs := w_syncs (cs_wal s) + 1\<rparr>,
      cs_pc := (cs_pc s)(t := Idle), cs_acked := insert n (cs_acked s)\<rparr>)"
| abort: "cs_pc s t = Failing n \<Longrightarrow>
    work_step s (s\<lparr>cs_wal := (cs_wal s)\<lparr>w_group := gc_abort (w_group (cs_wal s))\<rparr>, cs_pc := (cs_pc s)(t := Idle)\<rparr>)"

inductive commit_step :: "commit_sys \<Rightarrow> commit_sys \<Rightarrow> bool" where
  work: "work_step s s' \<Longrightarrow> commit_step s s'"
| logged: "cs_pc s t = Idle \<Longrightarrow> rec_fits r \<Longrightarrow> mf_fresh (handle (w_file (cs_wal s)) (cs_io s)) \<Longrightarrow>
    append_locked r (cs_wal s) (cs_io s) = (Inr n, w, io) \<Longrightarrow>
    commit_step s (s\<lparr>cs_wal := w, cs_io := io, cs_pc := (cs_pc s)(t := Appended n), cs_log := cs_log s @ [r]\<rparr>)"
| log_err: "cs_pc s t = Idle \<Longrightarrow> rec_fits r \<Longrightarrow> mf_fresh (handle (w_file (cs_wal s)) (cs_io s)) \<Longrightarrow>
    append_locked r (cs_wal s) (cs_io s) = (Inl e, w, io) \<Longrightarrow> commit_step s (s\<lparr>cs_wal := w, cs_io := io\<rparr>)"
| inject: "commit_step s (s\<lparr>cs_io := inject_fault op k (cs_io s)\<rparr>)"

definition commit_init :: "commit_sys \<Rightarrow> bool" where
  "commit_init s \<longleftrightarrow> log_ok (cs_log s) (cs_wal s) (cs_io s) \<and> (\<forall>t. cs_pc s t = Idle) \<and> cs_acked s = {}"

definition commit_reachable :: "commit_sys \<Rightarrow> bool" where
  "commit_reachable s \<longleftrightarrow> (\<exists>s0. commit_init s0 \<and> commit_step\<^sup>*\<^sup>* s0 s)"

section \<open>Invariant\<close>

fun leading :: "pc \<Rightarrow> bool" where
  "leading (Elected _) = True"
| "leading (Syncing _ _) = True"
| "leading (Synced _ _) = True"
| "leading (Failing _) = True"
| "leading _ = False"

text \<open>What a thread knows: its record is written, its sync covers it, and a finished sync made the covered part durable.\<close>

fun pc_ok :: "wal \<Rightarrow> mem_io \<Rightarrow> pc \<Rightarrow> bool" where
  "pc_ok w io Idle = True"
| "pc_ok w io (Appended n) = (n \<le> w_written w)"
| "pc_ok w io (Elected n) = (n \<le> w_written w)"
| "pc_ok w io (Syncing n c) = (n \<le> c \<and> c \<le> w_written w)"
| "pc_ok w io (Synced n c) = (n \<le> c \<and> c \<le> length (mf_durable (handle (w_file w) io)))"
| "pc_ok w io (Failing n) = (n \<le> w_written w)"

definition exclusive :: "(nat \<Rightarrow> pc) \<Rightarrow> bool \<Rightarrow> bool" where
  "exclusive f b \<longleftrightarrow> (\<forall>t u. leading (f t) \<and> leading (f u) \<longrightarrow> t = u) \<and> (b \<longleftrightarrow> (\<exists>t. leading (f t)))"

lemma exclusive_move: "exclusive f b \<Longrightarrow> leading (f t) = leading p \<Longrightarrow> exclusive (f(t := p)) b"
  by (auto simp: exclusive_def)

lemma exclusive_elect: "exclusive f False \<Longrightarrow> leading p \<Longrightarrow> exclusive (f(t := p)) True"
  by (auto simp: exclusive_def)

lemma exclusive_leave: "exclusive f b \<Longrightarrow> leading (f t) \<Longrightarrow> \<not> leading p \<Longrightarrow> exclusive (f(t := p)) False"
  by (auto simp: exclusive_def)

definition commit_inv :: "commit_sys \<Rightarrow> bool" where
  "commit_inv s \<longleftrightarrow>
     log_core (cs_log s) (cs_wal s) (cs_io s) \<and> (\<forall>t. pc_ok (cs_wal s) (cs_io s) (cs_pc s t)) \<and>
     exclusive (cs_pc s) (gc_syncing (w_group (cs_wal s))) \<and>
     (\<forall>n \<in> cs_acked s. n \<le> length (mf_durable (handle (w_file (cs_wal s)) (cs_io s))))"

lemma commit_inv_init: "commit_init s \<Longrightarrow> commit_inv s"
  by (auto simp: commit_init_def commit_inv_def log_ok_def exclusive_def)

text \<open>Moving one thread and the coordinator, with the file as it is.\<close>

lemma pc_ok_group [simp]: "pc_ok (w\<lparr>w_group := g\<rparr>) io p = pc_ok w io p" "pc_ok (w\<lparr>w_syncs := k\<rparr>) io p = pc_ok w io p"
  by (cases p; simp)+

lemma log_core_group:
  "log_core rs (w\<lparr>w_group := g\<rparr>) io \<longleftrightarrow> log_core rs (w\<lparr>w_group := g\<rparr>) io" "log_core rs (w\<lparr>w_syncs := k\<rparr>) io = log_core rs w io"
  by (simp_all add: log_core_def)

lemma pc_ok_mono:
  assumes "pc_ok w io p" "w_written w \<le> w_written w'"
    "length (mf_durable (handle (w_file w) io)) \<le> length (mf_durable (handle (w_file w') io'))"
  shows "pc_ok w' io' p"
  using assms by (cases p) auto

lemma sync_Inr:
  assumes "sync path io = (Inr (), io')"
  obtains io1 where "io' = io_put path (mf_sync (handle path io)) io1" "io_files io1 = io_files io" "io_drop_writes io1 = io_drop_writes io"
  using assms by (cases rule: sync_cases [of path io]) auto

lemma sync_Inl: "sync path io = (Inl e, io') \<Longrightarrow> io_files io' = io_files io \<and> io_drop_writes io' = io_drop_writes io"
  by (cases rule: sync_cases [of path io]) auto

lemma work_step_inv:
  assumes "work_step s s'" "commit_inv s"
  shows "commit_inv s'"
  using assms
proof (induction rule: work_step.induct)
  case (sync_ok s t n c io)
  let ?p = "w_file (cs_wal s)" let ?f = "handle (w_file (cs_wal s)) (cs_io s)"
  have core: "log_core (cs_log s) (cs_wal s) (cs_io s)" and pcs: "\<And>t. pc_ok (cs_wal s) (cs_io s) (cs_pc s t)"
    using sync_ok.prems by (auto simp: commit_inv_def)
  from sync_ok.hyps(2) obtain io1 where io1: "io = io_put ?p (mf_sync ?f) io1" "io_files io1 = io_files (cs_io s)"
    "io_drop_writes io1 = io_drop_writes (cs_io s)"
    by (rule sync_Inr)
  have live: "mf_live ?f = log_image (cs_log s)" "w_written (cs_wal s) = length (log_image (cs_log s))" "mf_ok ?f"
    "io_ok io1" "length (mf_durable ?f) \<le> length (log_image (cs_log s))"
    using core io1 io_ok_cong [of io1 "cs_io s" ?p] by (auto simp: log_core_def)
  have h: "handle ?p io = mf_sync ?f" "mf_durable (mf_sync ?f) = log_image (cs_log s)" "mf_ok (mf_sync ?f)"
    using live io1 mf_sync_ok [of ?f] by auto
  have "log_core (cs_log s) (cs_wal s) io"
    using core h io1 live by (auto simp: log_core_def intro!: exI [of _ "length (log_image (cs_log s))"])
  moreover have "pc_ok (cs_wal s) io p" if "pc_ok (cs_wal s) (cs_io s) p" for p
    using that by (rule pc_ok_mono) (use h live in auto)
  moreover have "n \<le> c \<and> c \<le> length (log_image (cs_log s))" using pcs [of t] sync_ok.hyps(1) live by simp
  moreover have "n \<le> length (log_image (cs_log s))" if "n \<in> cs_acked s" for n
    using that sync_ok.prems live(5) by (auto simp: commit_inv_def intro: order_trans)
  moreover have "exclusive ((cs_pc s)(t := Synced n c)) (gc_syncing (w_group (cs_wal s)))"
    using sync_ok.prems sync_ok.hyps(1) by (intro exclusive_move) (simp_all add: commit_inv_def)
  ultimately show ?case using pcs by (simp add: commit_inv_def h)
next
  case (sync_err s t n c e io)
  let ?p = "w_file (cs_wal s)"
  have "io_files io = io_files (cs_io s) \<and> io_drop_writes io = io_drop_writes (cs_io s)"
    using sync_err.hyps(2) by (rule sync_Inl)
  then have h: "io_ok io = io_ok (cs_io s)" "handle p io = handle p (cs_io s)" "io_drop_writes io = io_drop_writes (cs_io s)" for p
    using io_ok_cong [of io "cs_io s" p] by auto
  have "pc_ok (cs_wal s) io p = pc_ok (cs_wal s) (cs_io s) p" for p by (cases p) (simp_all add: h)
  moreover have "n \<le> w_written (cs_wal s)"
    using sync_err.prems sync_err.hyps(1) by (auto simp: commit_inv_def dest!: spec [of _ t])
  moreover have "exclusive ((cs_pc s)(t := Failing n)) (gc_syncing (w_group (cs_wal s)))"
    using sync_err.prems sync_err.hyps(1) by (intro exclusive_move) (simp_all add: commit_inv_def)
  ultimately show ?case using sync_err.prems by (simp add: commit_inv_def log_core_def h)
next
  case (durable s t n g)
  then have "exclusive ((cs_pc s)(t := Idle)) (gc_syncing (w_group (cs_wal s)))"
    by (intro exclusive_move) (simp_all add: commit_inv_def)
  then show ?case using durable by (auto simp: commit_inv_def gc_begin_cases log_core_def)
next
  case (elect s t n g)
  then have "exclusive ((cs_pc s)(t := Elected n)) True" "n \<le> w_written (cs_wal s)"
    by (auto simp: commit_inv_def gc_begin_cases intro!: exclusive_elect dest!: spec [of _ t])
  then show ?case using elect by (auto simp: commit_inv_def gc_begin_cases log_core_def)
next
  case (load s t n)
  then have "exclusive ((cs_pc s)(t := Syncing n (w_written (cs_wal s)))) (gc_syncing (w_group (cs_wal s)))" "n \<le> w_written (cs_wal s)"
    by (auto simp: commit_inv_def intro!: exclusive_move dest!: spec [of _ t])
  then show ?case using load by (simp add: commit_inv_def)
next
  case (complete s t n c)
  then have "exclusive ((cs_pc s)(t := Idle)) False" "n \<le> c" "c \<le> length (mf_durable (handle (w_file (cs_wal s)) (cs_io s)))"
    by (auto simp: commit_inv_def intro!: exclusive_leave dest!: spec [of _ t])
  then show ?case using complete.prems by (auto simp: commit_inv_def log_core_def)
next
  case (abort s t n)
  then have "exclusive ((cs_pc s)(t := Idle)) False"
    by (auto simp: commit_inv_def intro!: exclusive_leave)
  then show ?case using abort.prems by (auto simp: commit_inv_def log_core_def)
qed

lemma append_locked_Inr:
  assumes "log_core rs w io" "rec_fits r" "mf_fresh (handle (w_file w) io)" "append_locked r w io = (Inr n, w', io')"
  shows "log_core (rs @ [r]) w' io'" "w_file w' = w_file w" "w_group w' = w_group w" "n = length (log_image (rs @ [r]))"
    "mf_durable (handle (w_file w) io') = mf_durable (handle (w_file w) io)"
  using assms(4) by (cases rule: append_locked_core [OF assms(1-3)]; simp)+

lemma append_locked_Inl:
  assumes "log_core rs w io" "rec_fits r" "mf_fresh (handle (w_file w) io)" "append_locked r w io = (Inl e, w', io')"
  shows "log_core rs w io'" "w' = w" "io_files io' = io_files io"
  using assms(4) by (cases rule: append_locked_core [OF assms(1-3)]; simp)+

lemma inject_frame [simp]:
  "io_files (inject_fault op k io) = io_files io" "io_drop_writes (inject_fault op k io) = io_drop_writes io"
  "handle p (inject_fault op k io) = handle p io" "io_ok (inject_fault op k io) = io_ok io"
  by (simp_all add: inject_fault_def handle_def io_file_def io_ok_def)

lemma commit_step_inv:
  assumes "commit_step s s'" "commit_inv s"
  shows "commit_inv s'"
  using assms
proof (induction rule: commit_step.induct)
  case (work s s')
  then show ?case by (blast intro: work_step_inv)
next
  case (logged s t r n w io)
  let ?p = "w_file (cs_wal s)"
  have core: "log_core (cs_log s) (cs_wal s) (cs_io s)" and pcs: "\<And>t. pc_ok (cs_wal s) (cs_io s) (cs_pc s t)"
    and ex: "exclusive (cs_pc s) (gc_syncing (w_group (cs_wal s)))"
    and acked: "\<And>n. n \<in> cs_acked s \<Longrightarrow> n \<le> length (mf_durable (handle ?p (cs_io s)))"
    using logged.prems by (auto simp: commit_inv_def)
  note a = append_locked_Inr [OF core logged.hyps(2-4)]
  have "w_written (cs_wal s) \<le> w_written w" using core a(1) by (simp add: log_core_def)
  then have "pc_ok w io p" if "pc_ok (cs_wal s) (cs_io s) p" for p using that by (rule_tac pc_ok_mono) (auto simp: a)
  moreover have "exclusive ((cs_pc s)(t := Appended n)) (gc_syncing (w_group (cs_wal s)))"
    using ex logged.hyps(1) by (intro exclusive_move) simp_all
  moreover have "n \<le> w_written w" using a(1,4) by (simp add: log_core_def)
  ultimately show ?case using a pcs acked by (simp add: commit_inv_def)
next
  case (log_err s t r e w io)
  then have core: "log_core (cs_log s) (cs_wal s) (cs_io s)" by (simp add: commit_inv_def)
  note a = append_locked_Inl [OF core log_err.hyps(2-4)]
  have "pc_ok (cs_wal s) io p = pc_ok (cs_wal s) (cs_io s) p" for p
    using io_ok_cong [OF a(3), of "w_file (cs_wal s)"] by (cases p) simp_all
  then show ?case using log_err.prems a io_ok_cong [OF a(3), of "w_file (cs_wal s)"] by (simp add: commit_inv_def)
next
  case (inject s op k)
  have "pc_ok (cs_wal s) (inject_fault op k (cs_io s)) p = pc_ok (cs_wal s) (cs_io s) p" for p by (cases p) simp_all
  then show ?case using inject by (simp add: commit_inv_def log_core_def)
qed

lemma commit_reachable_inv: "commit_reachable s \<Longrightarrow> commit_inv s"
proof -
  have "commit_inv s" if "commit_step\<^sup>*\<^sup>* s0 s" "commit_inv s0" for s0
    using that by (induction rule: rtranclp_induct) (blast intro: commit_step_inv)+
  then show "commit_reachable s \<Longrightarrow> commit_inv s" by (auto simp: commit_reachable_def commit_inv_init)
qed

section \<open>Draining\<close>

fun rank_pc :: "pc \<Rightarrow> nat" where
  "rank_pc Idle = 0"
| "rank_pc (Synced _ _) = 1"
| "rank_pc (Failing _) = 1"
| "rank_pc (Syncing _ _) = 2"
| "rank_pc (Elected _) = 3"
| "rank_pc (Appended _) = 4"

text \<open>The offset a thread will be told about when its commit succeeds.\<close>

fun waiting_for :: "pc \<Rightarrow> nat option" where
  "waiting_for (Appended n) = Some n"
| "waiting_for (Elected n) = Some n"
| "waiting_for (Syncing n _) = Some n"
| "waiting_for (Synced n _) = Some n"
| "waiting_for _ = None"

definition busy :: "commit_sys \<Rightarrow> nat set" where
  "busy s = {t. cs_pc s t \<noteq> Idle}"

definition work_left :: "commit_sys \<Rightarrow> nat" where
  "work_left s = (\<Sum>t \<in> busy s. rank_pc (cs_pc s t))"

lemma work_left_move:
  assumes "finite (busy s)" "cs_pc s' = (cs_pc s)(t := p)" "rank_pc p < rank_pc (cs_pc s t)"
  shows "work_left s' < work_left s" "finite (busy s')"
proof -
  have sub: "busy s' \<subseteq> busy s" "t \<in> busy s" using assms(2,3) by (auto simp: busy_def split: if_splits)
  then show fin: "finite (busy s')" using assms(1) by (blast intro: finite_subset)
  have "work_left s' \<le> (\<Sum>u \<in> busy s. rank_pc (cs_pc s' u))" unfolding work_left_def
    by (rule sum_mono2) (use assms(1) sub in \<open>auto simp: busy_def\<close>)
  also have "\<dots> < work_left s" unfolding work_left_def
    by (rule sum_strict_mono_ex1) (use assms sub in auto)
  finally show "work_left s' < work_left s" .
qed

text \<open>Whenever a thread is inside an append, some thread can take a step: a leader always can, and without one a waiting thread is elected.\<close>

lemma work_enabled:
  assumes "commit_inv s" "cs_pc s t \<noteq> Idle" "io_calm (cs_io s)"
  obtains s' u p where "work_step s s'" "cs_pc s' = (cs_pc s)(u := p)" "rank_pc p < rank_pc (cs_pc s u)"
    "io_calm (cs_io s')" "cs_log s' = cs_log s" "cs_acked s \<subseteq> cs_acked s'"
    "\<And>n. waiting_for (cs_pc s u) = Some n \<Longrightarrow> waiting_for p = Some n \<or> n \<in> cs_acked s'"
proof (cases "\<exists>u. leading (cs_pc s u)")
  case True
  then obtain u where u: "leading (cs_pc s u)" by blast
  show ?thesis
  proof (cases "cs_pc s u")
    case (Elected n)
    from work_step.load [OF this] show ?thesis by (rule that) (use Elected assms(3) in auto)
  next
    case (Syncing n c)
    from work_step.sync_ok [OF Syncing sync_calm [OF assms(3)]] show ?thesis
      by (rule that) (use Syncing assms(3) in auto)
  next
    case (Synced n c)
    from work_step.complete [OF this] show ?thesis by (rule that) (use Synced assms(3) in auto)
  next
    case (Failing n)
    from work_step.abort [OF this] show ?thesis by (rule that) (use Failing assms(3) in auto)
  qed (use u in auto)
next
  case False
  then have "\<not> gc_syncing (w_group (cs_wal s))" using assms(1) by (simp add: commit_inv_def exclusive_def)
  moreover obtain n where n: "cs_pc s t = Appended n" using False assms(2) by (metis leading.simps(1-4) pc.exhaust)
  ultimately consider (durable) "gc_begin n (w_group (cs_wal s)) = Some (Done, w_group (cs_wal s))"
    | (elect) "gc_begin n (w_group (cs_wal s)) = Some (DoSync, (w_group (cs_wal s))\<lparr>gc_syncing := True\<rparr>)"
    by (cases "n \<le> gc_durable (w_group (cs_wal s))") (simp_all add: gc_begin_def)
  then show ?thesis
  proof cases
    case durable
    from work_step.durable [OF n durable] show ?thesis by (rule that) (use n assms(3) in auto)
  next
    case elect
    from work_step.elect [OF n elect] show ?thesis by (rule that) (use n assms(3) in auto)
  qed
qed

lemma drain:
  assumes "commit_inv s" "finite (busy s)" "io_calm (cs_io s)"
  shows "\<exists>s'. work_step\<^sup>*\<^sup>* s s' \<and> (\<forall>t. cs_pc s' t = Idle) \<and> cs_log s' = cs_log s \<and> cs_acked s \<subseteq> cs_acked s' \<and>
    (\<forall>t n. waiting_for (cs_pc s t) = Some n \<longrightarrow> n \<in> cs_acked s')"
  using assms
proof (induction "work_left s" arbitrary: s rule: less_induct)
  case less
  show ?case
  proof (cases "\<forall>t. cs_pc s t = Idle")
    case True
    then show ?thesis by (intro exI [of _ s]) simp
  next
    case False
    then obtain t where "cs_pc s t \<noteq> Idle" by blast
    from work_enabled [OF less.prems(1) this less.prems(3)] obtain s1 u p where
      s1: "work_step s s1" "cs_pc s1 = (cs_pc s)(u := p)" "rank_pc p < rank_pc (cs_pc s u)"
        "io_calm (cs_io s1)" "cs_log s1 = cs_log s" "cs_acked s \<subseteq> cs_acked s1"
        "\<And>n. waiting_for (cs_pc s u) = Some n \<Longrightarrow> waiting_for p = Some n \<or> n \<in> cs_acked s1" by metis
    note left = work_left_move [OF less.prems(2) s1(2,3)]
    from less.hyps [OF left(1) work_step_inv [OF s1(1) less.prems(1)] left(2) s1(4)] obtain s' where
      s': "work_step\<^sup>*\<^sup>* s1 s'" "\<forall>t. cs_pc s' t = Idle" "cs_log s' = cs_log s1" "cs_acked s1 \<subseteq> cs_acked s'"
        "\<forall>t n. waiting_for (cs_pc s1 t) = Some n \<longrightarrow> n \<in> cs_acked s'" by blast
    have "n \<in> cs_acked s'" if "waiting_for (cs_pc s v) = Some n" for v n
      using that s1(7) s'(4) s'(5) [rule_format, of v n] by (cases "v = u") (auto simp: s1(2))
    then show ?thesis using s1 s' converse_rtranclp_into_rtranclp [OF s1(1) s'(1)]
      by (intro exI [of _ s']) auto
  qed
qed

section \<open>Properties\<close>

text \<open>
  C33. Group commit never loses an acknowledged record.  In every interleaving of any number of threads that append, elect a leader, sync for
  each other, fail and retry, with faults injected at any time: whatever is left of the log after a power loss, the durable image or
  any longer prefix of what was written, it replays to a prefix of the records in the order they were
  written that contains every record whose append was acknowledged.
\<close>

theorem group_commit_durable:
  "commit_reachable s \<and>
   (img = mf_live (handle (w_file (cs_wal s)) (io_crash (cs_io s))) \<or>
    img = take m (mf_live (handle (w_file (cs_wal s)) (cs_io s))) \<and> length (mf_durable (handle (w_file (cs_wal s)) (cs_io s))) \<le> m) \<Longrightarrow>
   \<exists>k \<le> length (cs_log s). rr_records (replay_bytes img) = take k (cs_log s) \<and>
     (\<forall>j \<le> length (cs_log s). (\<exists>n \<in> cs_acked s. length (log_image (take j (cs_log s))) \<le> n) \<longrightarrow> j \<le> k)"
proof (elim conjE)
  let ?f = "handle (w_file (cs_wal s)) (cs_io s)"
  assume reach: "commit_reachable s" and img: "img = mf_live (handle (w_file (cs_wal s)) (io_crash (cs_io s))) \<or>
    img = take m (mf_live ?f) \<and> length (mf_durable ?f) \<le> m"
  note inv = commit_reachable_inv [OF reach, unfolded commit_inv_def log_core_def]
  obtain d where d: "mf_durable ?f = take d (log_image (cs_log s))" using inv by blast
  have live: "mf_live ?f = log_image (cs_log s)" "list_all rec_fits (cs_log s)" using inv by auto
  obtain n where n: "img = take n (log_image (cs_log s))" "n \<le> length (log_image (cs_log s))" "length (mf_durable ?f) \<le> n"
  proof (rule disjE [OF img])
    assume "img = mf_live (handle (w_file (cs_wal s)) (io_crash (cs_io s)))"
    then show thesis using d by (intro that [of "min d (length (log_image (cs_log s)))"]) (auto simp: handle_crash mf_crash_def min_def)
  next
    assume "img = take m (mf_live ?f) \<and> length (mf_durable ?f) \<le> m"
    then show thesis using d live by (intro that [of "min m (length (log_image (cs_log s)))"]) (auto simp: min_def)
  qed
  show ?thesis
  proof (rule replay_cut [OF live(2) n(2)])
    fix k
    assume k: "k \<le> length (cs_log s)"
      "\<And>j. j \<le> length (cs_log s) \<Longrightarrow> length (log_image (take j (cs_log s))) \<le> n \<Longrightarrow> j \<le> k"
      "replay_bytes (take n (log_image (cs_log s))) = \<lparr>rr_records = take k (cs_log s), rr_valid_bytes = length (log_image (take k (cs_log s))),
        rr_truncated_tail = (n \<noteq> length (log_image (take k (cs_log s))))\<rparr>"
    have "j \<le> k" if "j \<le> length (cs_log s)" "a \<in> cs_acked s" "length (log_image (take j (cs_log s))) \<le> a" for j a
    proof -
      have "a \<le> length (mf_durable ?f)" using inv that(2) by blast
      then show ?thesis using that(1,3) n(3) by (intro k(2)) linarith+
    qed
    then show ?thesis using k(1,3) n(1) by (intro exI [of _ k]) auto
  qed
qed

text \<open>
  C34. Group commit does not deadlock, and nobody waits in vain: from every reachable state with finitely many threads inside an append and no fault pending, the
  threads' own steps lead to a state where all of them have returned, and every thread that was waiting for
  its offset has been acknowledged, without any further append.
\<close>

theorem group_commit_drains:
  "commit_reachable s \<and> finite {t. cs_pc s t \<noteq> Idle} \<and> io_faults (cs_io s) = [] \<Longrightarrow>
   \<exists>s'. work_step\<^sup>*\<^sup>* s s' \<and> (\<forall>t. cs_pc s' t = Idle) \<and> cs_log s' = cs_log s \<and>
     (\<forall>t n. waiting_for (cs_pc s t) = Some n \<longrightarrow> n \<in> cs_acked s')"
proof (elim conjE)
  assume "commit_reachable s" and fin: "finite {t. cs_pc s t \<noteq> Idle}" and faults: "io_faults (cs_io s) = []"
  note inv = commit_reachable_inv [OF this(1)]
  then have "io_calm (cs_io s)" using faults by (simp add: commit_inv_def log_core_def io_calm_def)
  from drain [OF inv fin [folded busy_def] this] show ?thesis by blast
qed

text \<open>Two threads: one is syncing, the other has its record written and waits.\<close>

definition sample_sys :: commit_sys where
  "sample_sys = \<lparr>cs_wal = fst (wal_open ''wal.log'' Group (io_with_log [])), cs_io = snd (wal_open ''wal.log'' Group (io_with_log [])),
     cs_pc = (\<lambda>_. Idle), cs_log = [], cs_acked = {}\<rparr>"

lemma sample_sys_init: "commit_init sample_sys" "io_calm (cs_io sample_sys)" "mf_fresh (handle (w_file (cs_wal sample_sys)) (cs_io sample_sys))"
proof -
  have "log_ok [] (cs_wal sample_sys) (cs_io sample_sys) \<and> w_file (cs_wal sample_sys) = ''wal.log'' \<and> w_mode (cs_wal sample_sys) = Group"
    by (rule wal_open_ok [of "io_with_log []" "''wal.log''" "[]" Group])
       (use io_with_log [of "[]"] in \<open>simp_all add: io_calm_def mf_ok_def sample_sys_def\<close>)
  then show "commit_init sample_sys" by (simp add: commit_init_def sample_sys_def)
  show "io_calm (cs_io sample_sys)" "mf_fresh (handle (w_file (cs_wal sample_sys)) (cs_io sample_sys))"
    using io_with_log [of "[]"] by (simp_all add: sample_sys_def wal_open_def Let_def io_calm_ok mf_fresh_def)
qed

text \<open>One thread commits a transaction on its own.\<close>

lemma sample_commit:
  obtains s where "commit_reachable s" "cs_log s = [sample_txn]" "cs_pc s 0 = Appended (length (rec_encode sample_txn))"
    "io_calm (cs_io s)" "finite (busy s)"
proof -
  let ?s = sample_sys
  have ok: "log_ok [] (cs_wal ?s) (cs_io ?s)" "\<And>t. cs_pc ?s t = Idle" "cs_log ?s = []"
    using sample_sys_init(1) by (auto simp: commit_init_def sample_sys_def)
  then have "append_locked sample_txn (cs_wal ?s) (cs_io ?s) =
      (Inr (length (rec_encode sample_txn)), (cs_wal ?s)\<lparr>w_written := length (rec_encode sample_txn), w_appends := w_appends (cs_wal ?s) + 1\<rparr>,
       io_put (w_file (cs_wal ?s)) (mf_pwrite 0 (rec_encode sample_txn) (handle (w_file (cs_wal ?s)) (cs_io ?s))) (cs_io ?s))"
    using sample_sys_init(2) by (simp add: append_locked_def Let_def pwrite_calm log_ok_defs)
  from commit_step.logged [OF ok(2) sample_txn_fits sample_sys_init(3) this, of 0] obtain s where
    s: "commit_step ?s s" "cs_log s = [sample_txn]" "cs_pc s = (cs_pc ?s)(0 := Appended (length (rec_encode sample_txn)))" "io_calm (cs_io s)"
    using sample_sys_init(2) ok(3) by fastforce
  have "busy s = {0}" by (auto simp: busy_def s(3) ok(2))
  moreover have "commit_reachable s" using s(1) sample_sys_init(1) by (auto simp: commit_reachable_def)
  ultimately show ?thesis using s that by simp
qed

lemma group_commit_drains_witness:
  "\<exists>s s'. work_step\<^sup>*\<^sup>* s s' \<and> cs_log s' = [sample_txn] \<and> length (rec_encode sample_txn) \<in> cs_acked s'"
proof (rule sample_commit)
  fix s
  assume s: "commit_reachable s" "cs_log s = [sample_txn]" "cs_pc s 0 = Appended (length (rec_encode sample_txn))"
    "io_calm (cs_io s)" "finite (busy s)"
  have "commit_reachable s \<and> finite {t. cs_pc s t \<noteq> Idle} \<and> io_faults (cs_io s) = []"
    using s by (simp add: busy_def io_calm_def)
  from group_commit_drains [OF this] obtain s' where s': "work_step\<^sup>*\<^sup>* s s'" "cs_log s' = cs_log s"
    "\<forall>t n. waiting_for (cs_pc s t) = Some n \<longrightarrow> n \<in> cs_acked s'" by blast
  from s'(3) [rule_format, of 0 "length (rec_encode sample_txn)"] s(3) have "length (rec_encode sample_txn) \<in> cs_acked s'" by simp
  then show ?thesis using s' s(2) by auto
qed

lemma work_steps_commit: "work_step\<^sup>*\<^sup>* s s' \<Longrightarrow> commit_step\<^sup>*\<^sup>* s s'"
  by (induction rule: rtranclp_induct) (auto intro: rtranclp.rtrancl_into_rtrancl commit_step.work)

lemma group_commit_durable_witness:
  "\<exists>s. commit_reachable s \<and> length (rec_encode sample_txn) \<in> cs_acked s \<and>
     rr_records (replay_bytes (mf_live (handle (w_file (cs_wal s)) (io_crash (cs_io s))))) = [sample_txn]"
proof (rule sample_commit)
  fix s
  assume s: "commit_reachable s" "cs_log s = [sample_txn]" "cs_pc s 0 = Appended (length (rec_encode sample_txn))"
    "io_calm (cs_io s)" "finite (busy s)"
  from drain [OF commit_reachable_inv [OF s(1)] s(5,4)] obtain s' where s': "work_step\<^sup>*\<^sup>* s s'" "cs_log s' = [sample_txn]"
    "\<forall>t n. waiting_for (cs_pc s t) = Some n \<longrightarrow> n \<in> cs_acked s'" using s(2) by force
  have reach: "commit_reachable s'"
    using s(1) work_steps_commit [OF s'(1)] by (auto simp: commit_reachable_def intro: rtranclp_trans)
  have ack: "length (rec_encode sample_txn) \<in> cs_acked s'"
    using s'(3) [rule_format, of 0 "length (rec_encode sample_txn)"] s(3) by simp
  let ?img = "mf_live (handle (w_file (cs_wal s')) (io_crash (cs_io s')))"
  have "\<exists>k \<le> length (cs_log s'). rr_records (replay_bytes ?img) = take k (cs_log s') \<and>
     (\<forall>j \<le> length (cs_log s'). (\<exists>n \<in> cs_acked s'. length (log_image (take j (cs_log s'))) \<le> n) \<longrightarrow> j \<le> k)"
    by (rule group_commit_durable) (use reach in blast)
  then obtain k where k: "k \<le> 1" "rr_records (replay_bytes ?img) = take k [sample_txn]"
    "\<forall>j \<le> 1. (\<exists>n \<in> cs_acked s'. length (log_image (take j [sample_txn])) \<le> n) \<longrightarrow> j \<le> k" using s'(2) by auto
  have "1 \<le> k" using k(3) [rule_format, of 1] ack by auto
  then show ?thesis using k(1,2) reach ack by auto
qed

section \<open>Truncation during a sync\<close>

text \<open>
  C40. Truncating the log while another thread's sync is in flight can make a later append acknowledge without a sync.
  One thread has synced its record and is about to publish the length it covered; the checkpoint truncates the log and resets the watermark; then the
  publication raises the watermark to the old length again.  The next append that fits below it is acknowledged in
  the group mode without any sync, and a power loss removes its record.
\<close>

theorem truncate_race_loses_append:
  "log_ok [] w io \<and> w_mode w = Group \<and> io_calm io \<and> mf_fresh (handle (w_file w) io) \<and> mf_fresh (mf_truncate 0 (handle (w_file w) io)) \<and>
   length (rec_encode q) \<le> length (rec_encode r) \<Longrightarrow>
   \<exists>n w1 io1 g io2 w2 io3 e w3 io4.
     append_locked r w io = (Inr n, w1, io1) \<and> gc_begin n (w_group w1) = Some (DoSync, g) \<and> sync (w_file w1) io1 = (Inr (), io2) \<and>
     truncate_before (w_written w1) (w1\<lparr>w_group := g\<rparr>) io2 = (Inr (), w2, io3) \<and>
     wal_append q (w2\<lparr>w_group := gc_complete (w_written w1) (w_group w2)\<rparr>) io3 = Some (Inr e, w3, io4) \<and>
     rr_records (replay_bytes (mf_live (handle (w_file w) (io_crash io4)))) = []"
proof (elim conjE)
  assume ok: "log_ok [] w io" "w_mode w = Group" "io_calm io" and fresh: "mf_fresh (handle (w_file w) io)"
      "mf_fresh (mf_truncate 0 (handle (w_file w) io))"
    and len: "length (rec_encode q) \<le> length (rec_encode r)"
  define p f where "p = w_file w" and "f = handle p io"
  have f: "mf_live f = []" "mf_durable f = []" "mf_ok f" and w: "w_written w = 0" "gc_durable (w_group w) = 0" "\<not> gc_syncing (w_group w)"
    using ok(1) by (auto simp: log_ok_defs p_def f_def)
  define f2 where "f2 = mf_sync (mf_pwrite 0 (rec_encode r) f)"
  define f3 where "f3 = mf_truncate 0 f2"
  have ok2: "mf_ok f2" using mf_sync_ok [OF mf_ok_pwrite [OF f(3)]] fresh(1) by (simp add: f2_def f_def p_def)
  have "mf_write_seq f2 = mf_write_seq (mf_truncate 0 f)" by (simp add: f2_def mf_sync_def mf_pwrite_def mf_truncate_def)
  then have "mf_fresh f2" using fresh(2) unfolding mf_fresh_def f_def p_def by metis
  then have "mf_ok f3" using mf_ok_truncate [OF ok2] by (simp add: f3_def)
  then have f4: "mf_durable (mf_sync f3) = []" using mf_sync_ok [of f3] by (simp add: f3_def)
  define w1 where "w1 = w\<lparr>w_written := length (rec_encode r), w_appends := w_appends w + 1\<rparr>"
  define io1 where "io1 = io_put p (mf_pwrite 0 (rec_encode r) f) io"
  define io2 where "io2 = io_put p f2 io1"
  define io3 where "io3 = io_put p (mf_sync f3) (io_put p f3 io2)"
  define g where "g = (w_group w)\<lparr>gc_syncing := True\<rparr>"
  define w2 where "w2 = w1\<lparr>w_written := 0, w_group := gc_reset_to 0 g\<rparr>"
  define w3 where "w3 = w2\<lparr>w_group := gc_complete (w_written w1) (w_group w2), w_written := length (rec_encode q), w_appends := w_appends w2 + 1\<rparr>"
  define io4 where "io4 = io_put p (mf_pwrite 0 (rec_encode q) (mf_sync f3)) io3"
  have calm: "io_calm io" "io_calm io1" "io_calm io2" "io_calm io3" using ok(3) by (simp_all add: io1_def io2_def io3_def)
  note oks = io_calm_ok [OF calm(1)] io_calm_ok [OF calm(2)] io_calm_ok [OF calm(3)] io_calm_ok [OF calm(4)]
  have 1: "append_locked r w io = (Inr (length (rec_encode r)), w1, io1)"
    using w(1) by (simp add: append_locked_def Let_def pwrite_calm [OF calm(1)] w1_def io1_def f_def p_def)
  have 2: "gc_begin (length (rec_encode r)) (w_group w1) = Some (DoSync, g)" using w by (simp add: gc_begin_def w1_def g_def)
  have 3: "sync (w_file w1) io1 = (Inr (), io2)"
  proof -
    have "handle p io1 = mf_pwrite 0 (rec_encode r) f" using oks by (simp add: io1_def)
    then show ?thesis by (simp add: sync_calm [OF calm(2)] w1_def io2_def f2_def p_def [symmetric])
  qed
  have h2: "handle p io2 = f2" "w_file w1 = p" "io_calm (io_put p f3 io2)"
    using oks calm by (simp_all add: io2_def w1_def p_def [symmetric])
  have 4: "truncate_before (w_written w1) (w1\<lparr>w_group := g\<rparr>) io2 = (Inr (), w2, io3)"
    using oks h2 by (simp add: truncate_before_def Let_def file_truncate_def sync_calm w2_def io3_def f3_def w1_def)
  have h3: "handle p io3 = mf_sync f3" using oks h2(3) by (simp add: io3_def io_calm_ok)
  have "gc_begin (length (rec_encode q)) (gc_complete (w_written w1) (w_group w2)) = Some (Done, gc_complete (w_written w1) (w_group w2))"
    using len by (simp add: gc_begin_def w1_def)
  then have 5: "wal_append q (w2\<lparr>w_group := gc_complete (w_written w1) (w_group w2)\<rparr>) io3 = Some (Inr (length (rec_encode q)), w3, io4)"
    using ok(2) h2(2) h3 by (simp add: wal_append_def append_locked_def Let_def pwrite_calm [OF calm(4)] commit_to_def w3_def w2_def
        w1_def io4_def)
  have "mf_live (handle p (io_crash io4)) = []"
    using oks f4 by (simp add: handle_crash io4_def mf_crash_def mf_pwrite_def)
  then have "rr_records (replay_bytes (mf_live (handle (w_file w) (io_crash io4)))) = []"
    using replay_intact [of "[]"] by (simp add: p_def)
  with 1 2 3 4 5 show ?thesis by blast
qed

lemma truncate_race_loses_append_witness:
  "\<exists>w io. log_ok [] w io \<and> (\<exists>n w1 io1 g io2 w2 io3 e w3 io4.
     append_locked sample_txn w io = (Inr n, w1, io1) \<and> gc_begin n (w_group w1) = Some (DoSync, g) \<and> sync (w_file w1) io1 = (Inr (), io2) \<and>
     truncate_before (w_written w1) (w1\<lparr>w_group := g\<rparr>) io2 = (Inr (), w2, io3) \<and>
     wal_append sample_txn (w2\<lparr>w_group := gc_complete (w_written w1) (w_group w2)\<rparr>) io3 = Some (Inr e, w3, io4) \<and>
     rr_records (replay_bytes (mf_live (handle (w_file w) (io_crash io4)))) = [])"
proof -
  let ?w = "cs_wal sample_sys" let ?io = "cs_io sample_sys"
  have "log_ok [] ?w ?io" using sample_sys_init(1) by (simp add: commit_init_def) (simp add: sample_sys_def)
  moreover have "mf_fresh (mf_truncate 0 (handle (w_file ?w) ?io))" "w_mode ?w = Group"
    using io_with_log [of "[]"] by (simp_all add: sample_sys_def wal_open_def Let_def io_calm_ok mf_fresh_def mf_truncate_def)
  ultimately have "log_ok [] ?w ?io \<and> w_mode ?w = Group \<and> io_calm ?io \<and> mf_fresh (handle (w_file ?w) ?io) \<and>
     mf_fresh (mf_truncate 0 (handle (w_file ?w) ?io)) \<and> length (rec_encode sample_txn) \<le> length (rec_encode sample_txn)"
    using sample_sys_init by simp
  from truncate_race_loses_append [OF this] show ?thesis using \<open>log_ok [] ?w ?io\<close> by blast
qed

end
