(* ===== verification/Ck_Manifest.thy ===== *)
theory Ck_Manifest
  imports Ck_Wal
begin

text \<open>
  \<open>src/src/manifest.rs\<close>: the durable catalog, an append-only log of complete snapshots.  A snapshot is encoded like a log
  record and framed; opening the file takes the last snapshot that decodes and continues behind it, over a torn tail.
\<close>

section \<open>Snapshots\<close>

record table_meta =
  tm_id :: u32
  tm_name :: string
  tm_schema :: schema
  tm_part_ids :: "u64 list"
  tm_next_part_id :: u64

record manifest_state =
  ms_tables :: "table_meta list"
  ms_checkpoint_csn :: csn
  ms_next_table_id :: u32

definition ms_default :: manifest_state where
  "ms_default = \<lparr>ms_tables = [], ms_checkpoint_csn = 0, ms_next_table_id = 0\<rparr>"

definition ms_table :: "string \<Rightarrow> manifest_state \<Rightarrow> table_meta option" where
  "ms_table name s = find (\<lambda>t. tm_name t = name) (ms_tables s)"

definition enc_meta :: "table_meta \<Rightarrow> bytes" where
  "enc_meta t =
     enc_u32 (tm_id t) @ enc_str (tm_name t) @ enc_schema (tm_schema t) @ enc_u64 (tm_next_part_id t) @
     enc_u32 (word_of_nat (length (tm_part_ids t))) @ concat (map enc_u64 (tm_part_ids t))"

definition ms_payload :: "manifest_state \<Rightarrow> bytes" where
  "ms_payload s =
     enc_u64 (ms_checkpoint_csn s) @ enc_u32 (ms_next_table_id s) @ enc_u32 (word_of_nat (length (ms_tables s))) @
     concat (map enc_meta (ms_tables s))"

definition ms_encode :: "manifest_state \<Rightarrow> bytes" where
  "ms_encode s = frame (ms_payload s)"

definition d_meta :: "table_meta decoder" where
  "d_meta =
     d_bind d_u32 (\<lambda>tid. d_bind d_string (\<lambda>name. d_bind d_schema (\<lambda>sch. d_bind d_u64 (\<lambda>next_part_id.
     d_bind d_u32 (\<lambda>pn. d_bind (d_repeat (unat pn) d_u64) (\<lambda>part_ids.
       d_ret \<lparr>tm_id = tid, tm_name = name, tm_schema = sch, tm_part_ids = part_ids, tm_next_part_id = next_part_id\<rparr>))))))"

definition d_manifest :: "manifest_state decoder" where
  "d_manifest =
     d_bind d_u64 (\<lambda>checkpoint_csn. d_bind d_u32 (\<lambda>next_table_id. d_bind d_u32 (\<lambda>n. d_bind (d_repeat (unat n) d_meta) (\<lambda>tables.
       d_ret \<lparr>ms_tables = tables, ms_checkpoint_csn = checkpoint_csn, ms_next_table_id = next_table_id\<rparr>))))"

definition ms_decode :: "bytes \<Rightarrow> decode_error + manifest_state" where
  "ms_decode = run_decoder d_manifest"

section \<open>The file\<close>

record manifest =
  mn_file :: string
  mn_len :: nat
  mn_commits :: u64

definition manifest_scan :: "bytes \<Rightarrow> manifest_state \<times> nat" where
  "manifest_scan buf = (let (state, pos, stopped) = log_loop ms_decode (\<lambda>_ s. s) buf 0 ms_default in (state, pos))"

definition manifest_open :: "string \<Rightarrow> mem_io \<Rightarrow> (manifest \<times> manifest_state) io_result" where
  "manifest_open path io =
     io_bind (read_whole path (io_open path io)) (\<lambda>buf io.
       let (state, valid) = manifest_scan buf
       in (Inr (\<lparr>mn_file = path, mn_len = valid, mn_commits = 0\<rparr>, state), io))"

definition manifest_commit :: "manifest_state \<Rightarrow> manifest \<Rightarrow> mem_io \<Rightarrow> (io_error + unit) \<times> manifest \<times> mem_io" where
  "manifest_commit st m io =
     (let bs = ms_encode st
      in case pwrite (mn_file m) (mn_len m) bs io of
           (Inl e, io) \<Rightarrow> (Inl e, m, io)
         | (Inr _, io) \<Rightarrow>
             (case sync (mn_file m) io of
                (Inl e, io) \<Rightarrow> (Inl e, m, io)
              | (Inr _, io) \<Rightarrow> (Inr (), m\<lparr>mn_len := mn_len m + length bs, mn_commits := mn_commits m + 1\<rparr>, io)))"

definition manifest_compact :: "manifest_state \<Rightarrow> manifest \<Rightarrow> mem_io \<Rightarrow> (io_error + unit) \<times> manifest \<times> mem_io" where
  "manifest_compact st m io =
     (let bs = ms_encode st; io = file_truncate (mn_file m) 0 io
      in case pwrite (mn_file m) 0 bs io of
           (Inl e, io) \<Rightarrow> (Inl e, m, io)
         | (Inr _, io) \<Rightarrow>
             (case sync (mn_file m) io of
                (Inl e, io) \<Rightarrow> (Inl e, m, io)
              | (Inr _, io) \<Rightarrow> (Inr (), m\<lparr>mn_len := length bs\<rparr>, io)))"

section \<open>Snapshots as a framed log\<close>

definition meta_ok :: "table_meta \<Rightarrow> bool" where
  "meta_ok t \<longleftrightarrow> text_ok (tm_name t) \<and> schema_fits (tm_schema t) \<and> length (tm_part_ids t) < 2 ^ 32"

definition ms_fits :: "manifest_state \<Rightarrow> bool" where
  "ms_fits s \<longleftrightarrow> length (ms_tables s) < 2 ^ 32 \<and> list_all meta_ok (ms_tables s) \<and> length (ms_payload s) < 2 ^ 32"

interpretation c_meta: prefix_codec enc_meta d_meta meta_ok
  by unfold_locales
     (simp add: enc_meta_def d_meta_def codec_steps c_schema.bind_step c_u64.bind_repeat unat_len32 meta_ok_def)

interpretation c_manifest: prefix_codec ms_payload d_manifest "\<lambda>s. length (ms_tables s) < 2 ^ 32 \<and> list_all meta_ok (ms_tables s)"
  by unfold_locales
     (simp add: ms_payload_def d_manifest_def codec_steps c_meta.bind_repeat unat_len32 list_all_iff)

interpretation ml: framed_log ms_payload ms_decode ms_fits
proof (unfold_locales, goal_cases)
  case (1 s)
  then show ?case using c_manifest.roundtrip [of s "[]"] by (simp add: ms_decode_def run_decoder_def ms_fits_def)
qed (simp add: ms_fits_def)

definition ms_image :: "manifest_state list \<Rightarrow> bytes" where
  "ms_image ss = concat (map ms_encode ss)"

lemma ms_image_ml: "ms_image = ml.image"
  by (rule ext) (simp add: ms_image_def ml.image_def ms_encode_def [abs_def])

lemma ms_image_simps [simp]:
  "ms_image [] = []" "ms_image (s # ss) = ms_encode s @ ms_image ss" "ms_image (ss @ ss') = ms_image ss @ ms_image ss'"
  by (simp_all add: ms_image_def)

lemma foldl_last [simp]: "foldl (\<lambda>_ s. s) a xs = last (a # xs)"
  by (induction xs arbitrary: a) auto

text \<open>The last complete snapshot is the state, over a torn tail too.\<close>

lemma scan_torn:
  assumes "list_all ms_fits ss" "ms_fits s" "k < length (ms_encode s)"
  shows "manifest_scan (ms_image ss @ take k (ms_encode s)) = (last (ms_default # ss), length (ms_image ss))"
proof (cases "k = 0")
  case True
  then show ?thesis using ml.loop_intact [of ss "\<lambda>_ s. s" "[]" ms_default] assms(1)
    by (simp add: manifest_scan_def ms_image_ml list_all_iff)
next
  case False
  then show ?thesis using ml.loop_torn [of ss s k "\<lambda>_ s. s" "[]" ms_default] assms
    by (simp add: manifest_scan_def ms_image_ml list_all_iff ms_encode_def)
qed

lemma scan_intact: "list_all ms_fits ss \<Longrightarrow> manifest_scan (ms_image ss) = (last (ms_default # ss), length (ms_image ss))"
  using ml.loop_intact [of ss "\<lambda>_ s. s" "[]" ms_default] by (simp add: manifest_scan_def ms_image_ml list_all_iff)

lemma manifest_open_calm:
  "io_calm io \<Longrightarrow> manifest_scan (mf_live (handle path io)) = (st, n) \<Longrightarrow>
   manifest_open path io = (Inr (\<lparr>mn_file = path, mn_len = n, mn_commits = 0\<rparr>, st), io_open path io)"
  by (simp add: manifest_open_def read_whole_calm io_bind_def io_calm_ok)

text \<open>After a commit or a compaction the file holds the new snapshot last, durably.\<close>

lemma manifest_commit_calm:
  assumes calm: "io_calm io" and live: "mf_live (handle (mn_file m) io) = pre @ old" and m: "mn_len m = length pre"
    and old: "length old \<le> length (ms_encode st)" and ok: "mf_ok (handle (mn_file m) io)" "mf_fresh (handle (mn_file m) io)"
  obtains io' where "manifest_commit st m io = (Inr (), m\<lparr>mn_len := mn_len m + length (ms_encode st), mn_commits := mn_commits m + 1\<rparr>, io')"
    "io_calm io'" "mf_live (handle (mn_file m) io') = pre @ ms_encode st" "mf_durable (handle (mn_file m) io') = pre @ ms_encode st"
    "mf_ok (handle (mn_file m) io')" "\<And>p. p \<noteq> mn_file m \<Longrightarrow> handle p io' = handle p io"
proof -
  let ?p = "mn_file m"
  define f where "f = mf_pwrite (mn_len m) (ms_encode st) (handle ?p io)"
  have f: "mf_live f = pre @ ms_encode st" "mf_ok f"
    using live m old mf_ok_pwrite [OF ok] by (simp_all add: f_def) (simp add: mf_pwrite_def overwrite_over)
  define io' where "io' = io_put ?p (mf_sync f) (io_put ?p f io)"
  have "manifest_commit st m io = (Inr (), m\<lparr>mn_len := mn_len m + length (ms_encode st), mn_commits := mn_commits m + 1\<rparr>, io')"
    using calm by (simp add: manifest_commit_def Let_def pwrite_calm sync_calm io'_def f_def io_calm_ok)
  then show ?thesis
    by (rule that) (use calm f mf_sync_ok [of f] in \<open>simp_all add: io'_def io_calm_ok\<close>)
qed

lemma manifest_compact_calm:
  assumes calm: "io_calm io" and ok: "mf_ok (handle (mn_file m) io)" "mf_fresh (handle (mn_file m) io)"
    "mf_fresh (mf_truncate 0 (handle (mn_file m) io))"
  obtains io' where "manifest_compact st m io = (Inr (), m\<lparr>mn_len := length (ms_encode st)\<rparr>, io')"
    "io_calm io'" "mf_live (handle (mn_file m) io') = ms_encode st" "mf_durable (handle (mn_file m) io') = ms_encode st"
    "mf_ok (handle (mn_file m) io')" "\<And>p. p \<noteq> mn_file m \<Longrightarrow> handle p io' = handle p io"
proof -
  let ?p = "mn_file m"
  define f where "f = mf_pwrite 0 (ms_encode st) (mf_truncate 0 (handle ?p io))"
  note f = mf_truncate_write [OF ok, of "ms_encode st", folded f_def]
  define io' where "io' = io_put ?p (mf_sync f) (io_put ?p f (file_truncate ?p 0 io))"
  have "manifest_compact st m io = (Inr (), m\<lparr>mn_len := length (ms_encode st)\<rparr>, io')"
    using calm by (simp add: manifest_compact_def Let_def pwrite_calm sync_calm io'_def f_def io_calm_ok file_truncate_def)
  then show ?thesis
    by (rule that) (use calm f mf_sync_ok [of f] in \<open>simp_all add: io'_def io_calm_ok file_truncate_def\<close>)
qed

section \<open>Properties\<close>

text \<open>
  C36. The manifest always recovers the last committed catalog.  Opening a file that holds complete snapshots and the torn beginning of
  another returns the last complete one and continues behind it; committing the next snapshot over the torn tail
  makes it the state that the next opening returns after a power loss, and compacting the file to one snapshot does the same.
\<close>

theorem manifest_last_commit_wins:
  "list_all ms_fits ss \<and> ms_fits x \<and> ms_fits st \<and> k < length (ms_encode x) \<and> k \<le> length (ms_encode st) \<and> io_calm io \<and>
   mf_live (handle path io) = ms_image ss @ take k (ms_encode x) \<and> mf_ok (handle path io) \<and> mf_fresh (handle path io) \<and>
   mf_fresh (mf_truncate 0 (handle path io)) \<Longrightarrow>
   \<exists>m io1 m2 io2 m3 io3 n2 n3.
     manifest_open path io = (Inr (m, last (ms_default # ss)), io1) \<and>
     manifest_commit st m io1 = (Inr (), m2, io2) \<and>
     fst (manifest_open path (io_crash io2)) = Inr (n2, st) \<and>
     manifest_compact st m io1 = (Inr (), m3, io3) \<and>
     fst (manifest_open path (io_crash io3)) = Inr (n3, st)"
proof (elim conjE)
  assume fits: "list_all ms_fits ss" "ms_fits x" "ms_fits st" and k: "k < length (ms_encode x)" "k \<le> length (ms_encode st)"
    and calm: "io_calm io" and live: "mf_live (handle path io) = ms_image ss @ take k (ms_encode x)"
    and ok: "mf_ok (handle path io)" "mf_fresh (handle path io)" "mf_fresh (mf_truncate 0 (handle path io))"
  let ?io = "io_open path io"
  let ?m = "\<lparr>mn_file = path, mn_len = length (ms_image ss), mn_commits = 0\<rparr>"
  have "manifest_scan (mf_live (handle path io)) = (last (ms_default # ss), length (ms_image ss))"
    using scan_torn [OF fits(1,2) k(1)] live by simp
  then have op: "manifest_open path io = (Inr (?m, last (ms_default # ss)), ?io)"
    using manifest_open_calm [OF calm] by simp
  have h: "handle path ?io = handle path io" "io_calm ?io" using calm by (simp_all add: io_calm_ok)
  have reopen: "\<exists>n. fst (manifest_open path (io_crash io')) = Inr (n, st)"
    if "io_calm io'" "mf_durable (handle path io') = ms_image xs @ ms_encode st" "list_all ms_fits xs" for io' xs
    using manifest_open_calm [OF io_calm_crash [OF that(1)], of path] scan_intact [of "xs @ [st]"] that fits(3)
    by (simp add: handle_crash mf_crash_def)
  obtain io2 where c2: "manifest_commit st ?m ?io = (Inr (), ?m\<lparr>mn_len := mn_len ?m + length (ms_encode st), mn_commits := mn_commits ?m + 1\<rparr>, io2)"
      "io_calm io2" "mf_durable (handle path io2) = ms_image ss @ ms_encode st"
    by (rule manifest_commit_calm [of ?io ?m "ms_image ss" "take k (ms_encode x)" st]) (use h live k ok in simp_all)
  obtain io3 where c3: "manifest_compact st ?m ?io = (Inr (), ?m\<lparr>mn_len := length (ms_encode st)\<rparr>, io3)"
      "io_calm io3" "mf_durable (handle path io3) = ms_image [] @ ms_encode st"
    by (rule manifest_compact_calm [of ?io ?m st]) (use h ok in simp_all)
  show ?thesis
    using op c2(1) c3(1) reopen [OF c2(2,3) fits(1)] reopen [OF c3(2,3)] by fastforce
qed

definition sample_catalog :: manifest_state where
  "sample_catalog = \<lparr>ms_tables = [\<lparr>tm_id = 0, tm_name = ''orders'', tm_schema = the default_schema, tm_part_ids = [2, 1],
     tm_next_part_id = 3\<rparr>], ms_checkpoint_csn = 9, ms_next_table_id = 1\<rparr>"

lemma sample_catalog_fits: "ms_fits sample_catalog" "ms_fits ms_default"
  by (simp_all add: ms_fits_def sample_catalog_def ms_default_def meta_ok_def ms_payload_def enc_meta_def schema_fits_def default_schema_def
      schema_new_def schema_ok_def arity_def column_ok_def column_new_def text_ok_def as_bytes_def byte_of_def enc_u8_def enc_u32_def
      enc_u64_def enc_str_def enc_bytes_def enc_schema_def enc_column_def enc_type_def enc_bool_def enc_default_def)

lemma manifest_last_commit_wins_witness:
  "\<exists>m io1 m2 io2 n2.
     manifest_open ''wal.log'' (io_with_log (ms_image [ms_default] @ take 5 (ms_encode sample_catalog))) = (Inr (m, ms_default), io1) \<and>
     manifest_commit sample_catalog m io1 = (Inr (), m2, io2) \<and> fst (manifest_open ''wal.log'' (io_crash io2)) = Inr (n2, sample_catalog)"
proof -
  let ?io = "io_with_log (ms_image [ms_default] @ take 5 (ms_encode sample_catalog))"
  have h: "io_calm ?io" "handle ''wal.log'' ?io = \<lparr>mf_live = ms_image [ms_default] @ take 5 (ms_encode sample_catalog),
    mf_durable = ms_image [ms_default] @ take 5 (ms_encode sample_catalog), mf_write_seq = 0, mf_synced_seq = 0\<rparr>"
    by (rule io_with_log)+
  have len: "8 \<le> length (ms_encode sample_catalog)" by (simp add: ms_encode_def)
  have "list_all ms_fits [ms_default] \<and> ms_fits sample_catalog \<and> ms_fits sample_catalog \<and> 5 < length (ms_encode sample_catalog) \<and>
    5 \<le> length (ms_encode sample_catalog) \<and> io_calm ?io \<and>
    mf_live (handle ''wal.log'' ?io) = ms_image [ms_default] @ take 5 (ms_encode sample_catalog) \<and> mf_ok (handle ''wal.log'' ?io) \<and>
    mf_fresh (handle ''wal.log'' ?io) \<and> mf_fresh (mf_truncate 0 (handle ''wal.log'' ?io))"
    using sample_catalog_fits h len by (simp add: mf_ok_def mf_fresh_def mf_truncate_def)
  from manifest_last_commit_wins [OF this] show ?thesis by force
qed

end
