(* ===== verification/Ck_Persist.thy ===== *)
theory Ck_Persist
  imports Ck_Part Ck_Wal
begin

text \<open>
  \<open>src/src/persist.rs\<close> with \<open>Batch::to_ipc\<close> and \<open>Batch::from_ipc\<close>: the file of a part, a summary frame, an image
  frame and frames of tombstones appended later.  The bytes of an Arrow IPC stream belong to the Arrow library: its stream writer and reader
  are the fields of the record \<open>ipc\<close>, and \<open>ipc_ok\<close> states that the reader returns what the writer was given.
  An operation that can panic returns \<^const>\<open>None\<close> for it.
\<close>

section \<open>Arrow streams\<close>

record ipc =
  ip_write :: "fields \<Rightarrow> record_batch list \<Rightarrow> bytes"
  ip_read :: "bytes \<Rightarrow> record_batch list option"

definition to_ipc :: "ipc \<Rightarrow> batch \<Rightarrow> bytes" where
  "to_ipc I b = ip_write I (schema_arrow (b_schema b)) (if \<not> b_is_empty b then [b_rb b] else [])"

definition from_ipc :: "arrow \<Rightarrow> ipc \<Rightarrow> schema \<Rightarrow> bytes \<Rightarrow> batch option" where
  "from_ipc A I s bs =
     do {
       batches \<leftarrow> ip_read I bs;
       if batches = [] then Some (b_empty A s)
       else do { rb \<leftarrow> ar_concat A (schema_arrow s) batches; Some \<lparr>b_schema = s, b_rb = rb\<rparr> } }"

section \<open>Encoding\<close>

definition PART_MAGIC :: u32 where "PART_MAGIC = 0x43484B50"
definition PART_VERSION :: u8 where "PART_VERSION = 3"
definition SUMMARY_MAGIC :: u32 where "SUMMARY_MAGIC = 0x43484B53"
definition STAMPS_UNIFORM :: u8 where "STAMPS_UNIFORM = 0"
definition STAMPS_PER_ROW :: u8 where "STAMPS_PER_ROW = 1"

record part_summary =
  ps_id :: u64
  ps_num_rows :: nat
  ps_min_key :: value_t
  ps_max_key :: value_t
  ps_created_min :: csn
  ps_created_max :: csn

definition summary_payload :: "part \<Rightarrow> bytes" where
  "summary_payload p =
     enc_u32 SUMMARY_MAGIC @ enc_u8 PART_VERSION @ enc_u64 (p_id p) @ enc_u64 (word_of_nat (p_num_rows p)) @
     enc_value (p_min_key p) @ enc_value (p_max_key p) @ enc_u64 (p_created_min p) @ enc_u64 (p_created_max p)"

definition encode_summary :: "part \<Rightarrow> bytes" where
  "encode_summary p = frame (summary_payload p)"

definition d_summary :: "part_summary decoder" where
  "d_summary = d_bind d_u32 (\<lambda>magic.
     if magic \<noteq> SUMMARY_MAGIC then d_err (Malformed ''bad summary magic'')
     else d_bind d_u8 (\<lambda>version.
       if version \<noteq> PART_VERSION then d_err (Malformed ''unsupported part version'')
       else d_bind d_u64 (\<lambda>pid. d_bind d_u64 (\<lambda>n. d_bind d_value (\<lambda>mn. d_bind d_value (\<lambda>mx. d_bind d_u64 (\<lambda>cmn. d_bind d_u64 (\<lambda>cmx.
         d_ret \<lparr>ps_id = pid, ps_num_rows = unat n, ps_min_key = mn, ps_max_key = mx, ps_created_min = cmn, ps_created_max = cmx\<rparr>))))))))"

definition decode_summary :: "bytes \<Rightarrow> decode_error + part_summary" where
  "decode_summary = run_decoder d_summary"

text \<open>The version stamps: one number for a uniform part, else one for each row.\<close>

definition enc_stamps :: "part \<Rightarrow> bytes option" where
  "enc_stamps p =
     (if is_uniform (p_created p) then Some (enc_u8 STAMPS_UNIFORM @ enc_u64 (p_created_min p))
      else do {
        cs \<leftarrow> traverse (p_created_at p) [0..<b_len (p_batch p)];
        Some (enc_u8 STAMPS_PER_ROW @ concat (map enc_u64 cs)) })"

definition image_payload :: "ipc \<Rightarrow> part \<Rightarrow> bytes option" where
  "image_payload I p =
     do {
       stamps \<leftarrow> enc_stamps p;
       Some (enc_u32 PART_MAGIC @ enc_u8 PART_VERSION @ enc_u64 (p_id p) @ enc_u64 (word_of_nat (b_len (p_batch p))) @ stamps @
             enc_schema (b_schema (p_batch p)) @ enc_bytes (to_ipc I (p_batch p))) }"

definition encode_part :: "ipc \<Rightarrow> part \<Rightarrow> bytes option" where
  "encode_part I p = map_option frame (image_payload I p)"

definition tombstone_payload :: "(u32 \<times> csn) list \<Rightarrow> bytes" where
  "tombstone_payload entries =
     enc_u32 (word_of_nat (length entries)) @ concat (map (\<lambda>(ord, c). enc_u32 ord @ enc_u64 c) entries)"

definition encode_tombstones :: "(u32 \<times> csn) list \<Rightarrow> bytes" where
  "encode_tombstones entries = frame (tombstone_payload entries)"

section \<open>Decoding\<close>

definition d_stamps :: "nat \<Rightarrow> created_csns decoder" where
  "d_stamps n = d_bind d_u8 (\<lambda>tag.
     if tag = STAMPS_UNIFORM then d_bind d_u64 (\<lambda>c. d_ret (Uniform c))
     else if tag = STAMPS_PER_ROW then d_bind (d_repeat n d_u64) (\<lambda>v. d_ret (PerRow v))
     else d_err (Malformed ''bad stamp encoding''))"

definition d_image :: "arrow \<Rightarrow> ipc \<Rightarrow> (u64 \<times> batch \<times> created_csns) decoder" where
  "d_image A I = d_bind d_u32 (\<lambda>magic.
     if magic \<noteq> PART_MAGIC then d_err (Malformed ''bad part magic'')
     else d_bind d_u8 (\<lambda>version.
       if version \<noteq> PART_VERSION then d_err (Malformed ''unsupported part version'')
       else d_bind d_u64 (\<lambda>pid. d_bind d_u64 (\<lambda>n. d_bind (d_stamps (unat n)) (\<lambda>created. d_bind d_schema (\<lambda>s. d_bind d_bytes (\<lambda>stream.
         case from_ipc A I s stream of
           None \<Rightarrow> d_err (Malformed ''bad ipc stream'')
         | Some batch \<Rightarrow> if b_len batch \<noteq> unat n then d_err (Malformed ''row count mismatch'') else d_ret (pid, batch, created))))))))"

definition decode_part_image :: "arrow \<Rightarrow> ipc \<Rightarrow> bytes \<Rightarrow> decode_error + u64 \<times> batch \<times> created_csns" where
  "decode_part_image A I = run_decoder (d_image A I)"

definition d_tombstone :: "(u32 \<times> csn) decoder" where
  "d_tombstone = d_bind d_u32 (\<lambda>ord. d_bind d_u64 (\<lambda>c. d_ret (ord, c)))"

definition decode_tombstones :: "bytes \<Rightarrow> decode_error + (u32 \<times> csn) list" where
  "decode_tombstones = run_decoder (d_bind d_u32 (\<lambda>n. d_repeat (unat n) d_tombstone))"

text \<open>Frame 0 is the summary, frame 1 the image, the rest are tombstones up to the first that is torn.\<close>

definition decode_part_file :: "arrow \<Rightarrow> ipc \<Rightarrow> bytes \<Rightarrow> (decode_error + part) option" where
  "decode_part_file A I buf =
     (case unframe buf 0 of
        Inl e \<Rightarrow> Some (Inl e)
      | Inr (summary, after_summary) \<Rightarrow>
          (case decode_summary summary of
             Inl e \<Rightarrow> Some (Inl e)
           | Inr _ \<Rightarrow>
               (case unframe buf after_summary of
                  Inl e \<Rightarrow> Some (Inl e)
                | Inr (payload, pos) \<Rightarrow>
                    (case decode_part_image A I payload of
                       Inl e \<Rightarrow> Some (Inl e)
                     | Inr (pid, batch, created) \<Rightarrow>
                         let (tombstones, _, _) = log_loop decode_tombstones (@) buf pos []
                         in map_option Inr (with_deletions A pid batch created tombstones)))))"

section \<open>Files\<close>

definition write_part :: "ipc \<Rightarrow> string \<Rightarrow> part \<Rightarrow> mem_io \<Rightarrow> unit io_result option" where
  "write_part I path p io =
     do {
       img \<leftarrow> encode_part I p;
       let io = file_truncate path 0 (io_open path io);
       Some (io_bind (pwrite path 0 (encode_summary p @ img) io) (\<lambda>_ io.
         let entries = entries_after 0 (p_dv p)
         in io_bind (if entries \<noteq> [] then pwrite path (file_len path io) (encode_tombstones entries) io else (Inr 0, io)) (\<lambda>_ io.
              sync path io))) }"

definition append_tombstones :: "string \<Rightarrow> (u32 \<times> csn) list \<Rightarrow> mem_io \<Rightarrow> unit io_result" where
  "append_tombstones path entries io =
     (if entries = [] then (Inr (), io)
      else io_bind (pwrite path (file_len path io) (encode_tombstones entries) io) (\<lambda>_ io. sync path io))"

definition read_part :: "arrow \<Rightarrow> ipc \<Rightarrow> string \<Rightarrow> mem_io \<Rightarrow> part io_result option" where
  "read_part A I path io =
     (case read_whole path (io_open path io) of
        (Inl e, io) \<Rightarrow> Some (Inl e, io)
      | (Inr buf, io) \<Rightarrow>
          map_option (\<lambda>r. case r of Inl e \<Rightarrow> (Inl (InvalidData e), io) | Inr p \<Rightarrow> (Inr p, io)) (decode_part_file A I buf))"

text \<open>Only the first frame is read: its header gives the length.\<close>

definition read_part_summary :: "string \<Rightarrow> mem_io \<Rightarrow> part_summary io_result" where
  "read_part_summary path io =
     io_bind (pread path 0 (replicate 8 0) (io_open path io)) (\<lambda>(n, head) io.
       if n < 8 then (Inl TooShort, io)
       else let len = unat (word_of_nat (le_nat (take 4 head)) :: u32)
            in io_bind (pread path 0 (replicate (8 + len) 0) io) (\<lambda>(_, buf) io.
                 case unframe buf 0 of
                   Inl e \<Rightarrow> (Inl (InvalidData e), io)
                 | Inr (payload, _) \<Rightarrow>
                     (case decode_summary payload of Inl e \<Rightarrow> (Inl (InvalidData e), io) | Inr s \<Rightarrow> (Inr s, io))))"

section \<open>The contract of the stream library\<close>

fun arr_fits :: "arrow_array \<Rightarrow> bool" where
  "arr_fits (AUtf8 xs) = list_all (pred_option text_ok) xs"
| "arr_fits _ = True"

text \<open>Record batches within the limits of the format: fewer than $2^{32}$ rows and columns, texts in UTF-8.\<close>

definition rb_fits :: "record_batch \<Rightarrow> bool" where
  "rb_fits rb \<longleftrightarrow> rb_num_rows rb < 2 ^ 32 \<and> length (rb_columns rb) < 2 ^ 32 \<and> list_all arr_fits (rb_columns rb)"

definition ipc_ok :: "ipc \<Rightarrow> bool" where
  "ipc_ok I \<longleftrightarrow>
     (\<forall>fs rbs. length rbs < 2 ^ 32 \<longrightarrow> (\<forall>rb \<in> set rbs. rb_typed fs rb \<and> rb_fits rb) \<longrightarrow> ip_read I (ip_write I fs rbs) = Some rbs)"

lemma from_to_ipc:
  assumes "arrow_ok A" "ipc_ok I" "batch_ok b" "rb_fits (b_rb b)"
  obtains b' where "from_ipc A I (b_schema b) (to_ipc I b) = Some b'" "batch_ok b'" "b_schema b' = b_schema b" "batch_rows b' = batch_rows b"
proof -
  let ?rbs = "if \<not> b_is_empty b then [b_rb b] else []"
  have "ip_read I (ip_write I (schema_arrow (b_schema b)) ?rbs) = Some ?rbs"
  proof -
    have "\<forall>rb \<in> set ?rbs. rb_typed (schema_arrow (b_schema b)) rb \<and> rb_fits rb" using assms(3,4) by (simp add: batch_ok_def)
    moreover have "length ?rbs < 2 ^ 32" by simp
    ultimately show ?thesis using assms(2) unfolding ipc_ok_def by blast
  qed
  then have eq: "from_ipc A I (b_schema b) (to_ipc I b) = b_concat A (b_schema b) [b]"
    by (simp add: from_ipc_def to_ipc_def b_concat_def)
  have "schema_ok (b_schema b)" using assms(3) by (simp add: batch_ok_def)
  from b_concat_ok [OF assms(1) this, of "[b]"] assms(3) eq that show ?thesis by auto
qed

section \<open>Round trips of the frames\<close>

definition summary_of :: "part \<Rightarrow> part_summary" where
  "summary_of p = \<lparr>ps_id = p_id p, ps_num_rows = p_num_rows p, ps_min_key = p_min_key p, ps_max_key = p_max_key p,
     ps_created_min = p_created_min p, ps_created_max = p_created_max p\<rparr>"

text \<open>
  What a part has to satisfy to be written: texts in UTF-8, every count and every payload within 32 bits, and
  the low stamp it reports is the one of its rows, as \<open>Part::new\<close> computes it.
\<close>

definition storable :: "ipc \<Rightarrow> part \<Rightarrow> bool" where
  "storable I p \<longleftrightarrow>
     value_ok (p_min_key p) \<and> value_ok (p_max_key p) \<and> schema_fits (p_schema p) \<and> rb_fits (b_rb (p_batch p)) \<and>
     length (to_ipc I (p_batch p)) < 2 ^ 32 \<and> length (summary_payload p) < 2 ^ 32 \<and>
     pred_option (\<lambda>img. length img < 2 ^ 32) (image_payload I p) \<and>
     length (dv_entries (p_dv p)) < 2 ^ 32 \<and> length (tombstone_payload (dv_entries (p_dv p))) < 2 ^ 32 \<and>
     p_created_min p = fst (created_bounds (p_created p))"

definition no_zero_stamp :: "delete_vector \<Rightarrow> bool" where
  "no_zero_stamp d \<longleftrightarrow> (\<forall>e \<in> set (dv_entries d). snd e \<noteq> 0)"

lemma unat_len64: "n < 2 ^ 32 \<Longrightarrow> unat (word_of_nat n :: u64) = n"
  by (simp add: unat_of_nat)

lemma decode_summary_ok:
  assumes "part_ok p" "storable I p"
  shows "decode_summary (summary_payload p) = Inr (summary_of p)"
proof -
  have "unat (word_of_nat (p_num_rows p) :: u64) = p_num_rows p" using part_okD(2) [OF assms(1)] by (simp add: p_num_rows_def unat_len64)
  moreover have "d_summary (summary_payload p @ []) = Inr (\<lparr>ps_id = p_id p, ps_num_rows = unat (word_of_nat (p_num_rows p) :: u64),
      ps_min_key = p_min_key p, ps_max_key = p_max_key p, ps_created_min = p_created_min p, ps_created_max = p_created_max p\<rparr>, [])"
    using assms(2) by (simp add: summary_payload_def d_summary_def codec_steps c_value.bind_step c_u64.bind_last storable_def)
  ultimately show ?thesis by (simp add: decode_summary_def run_decoder_def summary_of_def)
qed

lemma stamps_ok:
  assumes "part_ok p" "storable I p"
  obtains st where "enc_stamps p = Some st" "\<And>rest. d_stamps (b_len (p_batch p)) (st @ rest) = Inr (p_created p, rest)"
proof (cases "p_created p")
  case (Uniform c)
  then have "p_created_min p = c" using assms(2) by (simp add: storable_def)
  then have "d_stamps (b_len (p_batch p)) ((enc_u8 STAMPS_UNIFORM @ enc_u64 c) @ rest) = Inr (p_created p, rest)" for rest
    using Uniform by (simp add: d_stamps_def codec_steps)
  then show ?thesis using that [of "enc_u8 STAMPS_UNIFORM @ enc_u64 c"] Uniform \<open>p_created_min p = c\<close> by (simp add: enc_stamps_def)
next
  case (PerRow v)
  then have len: "length v = b_len (p_batch p)" using assms(1) by (simp add: part_ok_def)
  have "traverse (p_created_at p) [0..<b_len (p_batch p)] = Some (map (\<lambda>i. v ! i) [0..<b_len (p_batch p)])"
    by (rule traverse_Some) (use PerRow len in \<open>simp add: p_created_at_def\<close>)
  also have "map (\<lambda>i. v ! i) [0..<b_len (p_batch p)] = v" using len by (intro nth_equalityI) simp_all
  finally have tr: "traverse (p_created_at p) [0..<b_len (p_batch p)] = Some v" .
  have "d_stamps (b_len (p_batch p)) ((enc_u8 STAMPS_PER_ROW @ concat (map enc_u64 v)) @ rest) = Inr (p_created p, rest)" for rest
    using PerRow by (simp add: d_stamps_def codec_steps c_u64.bind_repeat STAMPS_UNIFORM_def STAMPS_PER_ROW_def len)
  then show ?thesis using that [of "enc_u8 STAMPS_PER_ROW @ concat (map enc_u64 v)"] PerRow tr by (simp add: enc_stamps_def)
qed

lemma decode_image_ok:
  assumes A: "arrow_ok A" "ipc_ok I" and p: "part_ok p" "storable I p"
  obtains img b where "image_payload I p = Some img" "decode_part_image A I img = Inr (p_id p, b, p_created p)"
    "batch_ok b" "b_schema b = p_schema p" "batch_rows b = batch_rows (p_batch p)"
proof -
  have fits: "schema_fits (p_schema p)" "length (to_ipc I (p_batch p)) < 2 ^ 32" using p(2) by (simp_all add: storable_def)
  obtain b where b: "from_ipc A I (p_schema p) (to_ipc I (p_batch p)) = Some b" "batch_ok b" "b_schema b = p_schema p"
      "batch_rows b = batch_rows (p_batch p)"
    by (rule from_to_ipc [OF A part_okD(1) [OF p(1)]]) (use p(2) in \<open>simp_all add: storable_def\<close>)
  obtain st where st: "enc_stamps p = Some st" "\<And>rest. d_stamps (b_len (p_batch p)) (st @ rest) = Inr (p_created p, rest)"
    by (rule stamps_ok [OF p]) (rule that, assumption+)
  let ?img = "enc_u32 PART_MAGIC @ enc_u8 PART_VERSION @ enc_u64 (p_id p) @ enc_u64 (word_of_nat (b_len (p_batch p))) @ st @
             enc_schema (p_schema p) @ enc_bytes (to_ipc I (p_batch p))"
  have n: "unat (word_of_nat (b_len (p_batch p)) :: u64) = b_len (p_batch p)" using part_okD(2) [OF p(1)] by (simp add: unat_len64)
  have len: "b_len b = b_len (p_batch p)" using b(4) by (metis length_batch_rows)
  have "d_image A I ?img = Inr ((p_id p, b, p_created p), [])"
    using fits by (simp add: d_image_def codec_steps n d_bind_def [of "d_stamps _"] st(2) c_schema.bind_step c_bytes.bind_last b(1) len)
  then have "decode_part_image A I ?img = Inr (p_id p, b, p_created p)" by (simp add: decode_part_image_def run_decoder_def)
  then show ?thesis using that [of ?img b] b st(1) by (simp add: image_payload_def)
qed

interpretation c_tombstone: prefix_codec "\<lambda>(ord, c). enc_u32 ord @ enc_u64 c" d_tombstone "\<lambda>_. True"
  by unfold_locales (auto simp: d_tombstone_def codec_steps)

definition tombs_fit :: "(u32 \<times> csn) list \<Rightarrow> bool" where
  "tombs_fit es \<longleftrightarrow> length es < 2 ^ 32 \<and> length (tombstone_payload es) < 2 ^ 32"

interpretation tl: framed_log tombstone_payload decode_tombstones tombs_fit
proof (unfold_locales, goal_cases)
  case (1 es)
  then have "d_bind d_u32 (\<lambda>n. d_repeat (unat n) d_tombstone) (tombstone_payload es) = Inr (es, [])"
    using c_tombstone.repeat_roundtrip [of es "[]"] by (simp add: tombstone_payload_def c_u32.bind_step unat_len32 tombs_fit_def)
  then show ?case by (simp add: decode_tombstones_def run_decoder_def)
qed (simp add: tombs_fit_def)

section \<open>Reading a part file\<close>

text \<open>A part built from rows and any tombstones that name them.\<close>

lemma with_deletions_rows:
  assumes "batch_ok b" "b_len b < 2 ^ 32" "created_fits (b_len b) created"
    "sorted_wrt vo.le (map (\<lambda>r. r ! sc_key_index (b_schema b)) (batch_rows b))" "\<forall>e \<in> set l. unat (fst e) < b_len b"
  obtains q where "with_deletions A pid b created l = Some q" "part_ok q" "p_batch q = b" "p_created q = created" "p_id q = pid"
    "dv_map (p_dv q) = map_of l"
proof -
  obtain p where p: "part_new A pid b created = Some p" "part_ok p" "p_batch p = b" "p_created p = created"
      "p_id p = pid" "p_dv p = dv_new"
    by (rule part_new_ok [OF assms(1-4)])
  let ?dv = "mark_all l dv_new"
  have dv: "dv_ok ?dv" "dv_map ?dv = map_of l" using dv_map_mark_all [OF dv_ok_new] by auto
  have "unat (fst e) < b_len b" if "e \<in> set (dv_entries ?dv)" for e
  proof -
    have "dv_map ?dv (fst e) = Some (snd e)" using that dv_map_mem [OF dv(1)] by simp
    then have "(fst e, snd e) \<in> set l" unfolding dv(2) by (rule map_of_SomeD)
    then show ?thesis using assms(5) by force
  qed
  then have "part_ok (p\<lparr>p_dv := ?dv\<rparr>)" using p(2,3) dv(1) unfolding part_ok_def by simp
  moreover have "with_deletions A pid b created l = Some (p\<lparr>p_dv := ?dv\<rparr>)" using p by (simp add: with_deletions_def)
  ultimately show ?thesis using that [of "p\<lparr>p_dv := ?dv\<rparr>"] p dv(2) by simp
qed

lemma part_rows_sorted:
  assumes "part_ok p"
  shows "sorted_wrt vo.le (map (\<lambda>r. r ! sc_key_index (p_schema p)) (batch_rows (p_batch p)))"
  using assms by (auto simp: sorted_wrt_iff_nth_less part_ok_def nth_batch_rows batch_key_def)

text \<open>The versions a part holds once more tombstones are placed on it, an earlier one winning over a later one.\<close>

definition same_part :: "part \<Rightarrow> (u32 \<rightharpoonup> csn) \<Rightarrow> part \<Rightarrow> bool" where
  "same_part p d q \<longleftrightarrow> part_ok q \<and> p_id q = p_id p \<and> p_schema q = p_schema p \<and> p_created q = p_created p \<and>
     batch_rows (p_batch q) = batch_rows (p_batch p) \<and> dv_map (p_dv q) = d"

lemma same_part_versions:
  assumes "same_part p (dv_map (p_dv p)) q" "part_ok p"
  shows "part_versions q = part_versions p"
proof -
  have len: "b_len (p_batch q) = b_len (p_batch p)" using assms(1) by (metis length_batch_rows same_part_def)
  have "p_deleted_val q i = p_deleted_val p i" for i
    using assms by (simp add: p_deleted_val_def deleted_at_map part_okD same_part_def)
  then show ?thesis using assms(1) len by (simp add: part_versions_def same_part_def)
qed

lemma foldl_append_concat: "foldl (@) acc ts = acc @ concat ts"
  by (induction ts arbitrary: acc) simp_all

lemma decode_file_ok:
  assumes A: "arrow_ok A" "ipc_ok I" and p: "part_ok p" "storable I p"
    and ts: "list_all tombs_fit ts" "\<forall>t \<in> set ts. \<forall>e \<in> set t. unat (fst e) < b_len (p_batch p)"
    and torn: "tombs_fit t" "k < length (encode_tombstones t)"
  obtains img q where "encode_part I p = Some img"
    "decode_part_file A I (encode_summary p @ img @ tl.image ts @ take k (encode_tombstones t)) = Some (Inr q)"
    "same_part p (map_of (concat ts)) q"
proof -
  obtain pl b where pl: "image_payload I p = Some pl" "decode_part_image A I pl = Inr (p_id p, b, p_created p)"
    "batch_ok b" "b_schema b = p_schema p" "batch_rows b = batch_rows (p_batch p)"
    by (rule decode_image_ok [OF A p])
  have small: "length (summary_payload p) < 2 ^ 32" "length pl < 2 ^ 32" using p(2) pl(1) by (simp_all add: storable_def)
  have len: "b_len b = b_len (p_batch p)" using pl(5) by (metis length_batch_rows)
  let ?tail = "tl.image ts @ take k (encode_tombstones t)"
  let ?buf = "encode_summary p @ frame pl @ ?tail"
  have u1: "unframe ?buf 0 = Inr (summary_payload p, 8 + length (summary_payload p))"
    using unframe_frame [OF small(1), of "[]" "frame pl @ ?tail"] by (simp add: encode_summary_def)
  have u2: "unframe ?buf (8 + length (summary_payload p)) = Inr (pl, length (encode_summary p @ frame pl))"
    using unframe_frame [OF small(2), of "encode_summary p" ?tail] by (simp add: encode_summary_def)
  have foldl: "foldl (@) [] ts = concat ts" using foldl_append_concat [of "[]" ts] by simp
  have fits: "\<forall>t \<in> set ts. tombs_fit t" using ts(1) by (simp add: list_all_iff)
  have loop: "\<exists>pos stop. log_loop decode_tombstones (@) ?buf (length (encode_summary p @ frame pl)) [] = (concat ts, pos, stop)"
  proof (cases "k = 0")
    case True
    then show ?thesis using tl.loop_intact [OF fits, of "(@)" "encode_summary p @ frame pl" "[]"] foldl by auto
  next
    case False
    then show ?thesis
      using tl.loop_torn [OF fits torn(1), of k "(@)" "encode_summary p @ frame pl" "[]"] torn(2) foldl by (auto simp: encode_tombstones_def)
  qed
  have cf: "created_fits (b_len b) (p_created p)" using p(1) len by (simp add: part_ok_def)
  obtain q where q: "with_deletions A (p_id p) b (p_created p) (concat ts) = Some q" "part_ok q" "p_batch q = b" "p_created q = p_created p"
      "p_id q = p_id p" "dv_map (p_dv q) = map_of (concat ts)"
  proof (rule with_deletions_rows [OF pl(3) _ cf, of "concat ts" A "p_id p"])
    show "b_len b < 2 ^ 32" using part_okD(2) [OF p(1)] len by simp
    show "sorted_wrt vo.le (map (\<lambda>r. r ! sc_key_index (b_schema b)) (batch_rows b))" using part_rows_sorted [OF p(1)] pl(4,5) by simp
    show "\<forall>e \<in> set (concat ts). unat (fst e) < b_len b" using ts(2) len by auto
  qed
  have "decode_part_file A I ?buf = Some (Inr q)"
    using loop q(1) decode_summary_ok [OF p] unfolding decode_part_file_def u1 by (auto simp: u2 pl(2))
  then show ?thesis using that [of "frame pl" q] pl q by (simp add: encode_part_def same_part_def)
qed

section \<open>Writing a part file\<close>

text \<open>Room for a number of writes before the write counter wraps around.\<close>

definition mf_room :: "nat \<Rightarrow> mem_file \<Rightarrow> bool" where
  "mf_room n f \<longleftrightarrow> unat (mf_write_seq f) + n < 2 ^ 64"

lemma mf_room_fresh: "mf_room (Suc n) f \<Longrightarrow> mf_fresh f"
  by (auto simp: mf_room_def mf_fresh_def unsigned_minus_1_eq_mask mask_eq_exp_minus_1)

lemma mf_room_step:
  assumes "mf_room (Suc n) f"
  shows "mf_room n (mf_pwrite off bs f)" "mf_room n (mf_truncate k f)"
proof -
  have "unat (mf_write_seq f + 1) = Suc (unat (mf_write_seq f))"
    using mf_room_fresh [OF assms] by (simp add: mf_fresh_def unat_plus_one_word)
  then show "mf_room n (mf_pwrite off bs f)" "mf_room n (mf_truncate k f)"
    using assms by (simp_all add: mf_room_def mf_pwrite_def mf_truncate_def)
qed

lemma mf_room_sync [simp]: "mf_room n (mf_sync f) = mf_room n f"
  by (simp add: mf_room_def mf_sync_def)

lemma mf_room_le: "mf_room n f \<Longrightarrow> m \<le> n \<Longrightarrow> mf_room m f"
  by (simp add: mf_room_def)

lemma mf_pwrite_end [simp]: "mf_live (mf_pwrite (length (mf_live f)) bs f) = mf_live f @ bs"
  by (simp add: mf_pwrite_def)

lemma entries_after_0: "no_zero_stamp d \<Longrightarrow> entries_after 0 d = dv_entries d"
  by (auto simp: entries_after_def no_zero_stamp_def word_gt_0 intro: filter_True)

definition part_image :: "ipc \<Rightarrow> part \<Rightarrow> (u32 \<times> csn) list list \<Rightarrow> bytes" where
  "part_image I p ts = encode_summary p @ the (encode_part I p) @ concat (map encode_tombstones ts)"

lemma tl_image: "tl.image ts = concat (map encode_tombstones ts)"
  by (simp add: tl.image_def encode_tombstones_def [abs_def])

definition tombs_of :: "delete_vector \<Rightarrow> (u32 \<times> csn) list list" where
  "tombs_of d = (if dv_entries d = [] then [] else [dv_entries d])"

lemma write_part_ok:
  assumes enc: "encode_part I p = Some img" and zero: "no_zero_stamp (p_dv p)"
    and calm: "io_calm io" and ok: "mf_ok (handle path io)" "mf_room 3 (handle path io)"
  obtains io' where "write_part I path p io = Some (Inr (), io')" "io_calm io'"
    "mf_live (handle path io') = part_image I p (tombs_of (p_dv p))"
    "mf_durable (handle path io') = part_image I p (tombs_of (p_dv p))" "mf_ok (handle path io')"
    "\<And>q. q \<noteq> path \<Longrightarrow> handle q io' = handle q io"
proof -
  let ?f0 = "mf_truncate 0 (handle path io)"
  define f1 where "f1 = mf_pwrite 0 (encode_summary p @ img) ?f0"
  have room: "mf_room (Suc (Suc (Suc 0))) (handle path io)" using ok(2) by (simp add: numeral_3_eq_3)
  note r0 = mf_room_step(2) [OF room, of 0]
  note r1 = mf_room_step(1) [OF r0, of 0 "encode_summary p @ img", folded f1_def]
  have ok1: "mf_ok f1" "mf_live f1 = encode_summary p @ img"
    using mf_truncate_write [OF ok(1) mf_room_fresh [OF room] mf_room_fresh [OF r0]] by (simp_all add: f1_def)
  define f2 where "f2 = (if dv_entries (p_dv p) = [] then f1 else mf_pwrite (length (mf_live f1)) (encode_tombstones (dv_entries (p_dv p))) f1)"
  have ok2: "mf_ok f2" using mf_ok_pwrite [OF ok1(1) mf_room_fresh [OF r1]] ok1(1) by (simp add: f2_def)
  have live2: "mf_live f2 = part_image I p (tombs_of (p_dv p))"
    using enc ok1(2) mf_pwrite_end [of f1] by (simp add: f2_def part_image_def tombs_of_def)
  let ?io0 = "io_put path ?f0 (io_open path io)"
  let ?io1 = "io_put path f1 ?io0"
  define io2 where "io2 = (if dv_entries (p_dv p) = [] then ?io1 else io_put path f2 ?io1)"
  have c: "io_calm ?io0" "io_calm ?io1" "io_calm io2" using calm by (simp_all add: io2_def)
  have h: "handle path io2 = f2" "file_len path ?io1 = length (mf_live f1)" "\<And>q. q \<noteq> path \<Longrightarrow> handle q io2 = handle q io"
    using calm by (simp_all add: io2_def f2_def io_calm_ok file_len_def)
  have "write_part I path p io = Some (Inr (), io_put path (mf_sync f2) io2)"
    using calm c h by (simp add: write_part_def enc file_truncate_def Let_def io_calm_ok pwrite_calm sync_calm io_bind_def
        entries_after_0 [OF zero] f1_def [symmetric] io2_def f2_def)
  then show ?thesis
    by (rule that) (use c h ok2 live2 mf_sync_ok [OF ok2] in \<open>simp_all add: io_calm_ok\<close>)
qed

lemma append_tombstones_ok:
  assumes "entries \<noteq> []" and calm: "io_calm io" and ok: "mf_ok (handle path io)" "mf_fresh (handle path io)"
  obtains io' where "append_tombstones path entries io = (Inr (), io')" "io_calm io'"
    "mf_live (handle path io') = mf_live (handle path io) @ encode_tombstones entries"
    "mf_durable (handle path io') = mf_live (handle path io) @ encode_tombstones entries" "mf_ok (handle path io')"
    "\<And>q. q \<noteq> path \<Longrightarrow> handle q io' = handle q io"
proof -
  define f where "f = mf_pwrite (length (mf_live (handle path io))) (encode_tombstones entries) (handle path io)"
  have f: "mf_ok f" "mf_live f = mf_live (handle path io) @ encode_tombstones entries"
    using mf_ok_pwrite [OF ok] by (simp_all add: f_def)
  have "append_tombstones path entries io = (Inr (), io_put path (mf_sync f) (io_put path f io))"
    using assms(1) calm by (simp add: append_tombstones_def pwrite_calm sync_calm io_bind_def file_len_def io_calm_ok f_def)
  then show ?thesis
    by (rule that) (use calm f mf_sync_ok [OF f(1)] in \<open>simp_all add: io_calm_ok\<close>)
qed

lemma read_part_ok:
  assumes "arrow_ok A" "ipc_ok I" "part_ok p" "storable I p" "list_all tombs_fit ts"
    "\<forall>t \<in> set ts. \<forall>e \<in> set t. unat (fst e) < b_len (p_batch p)" "tombs_fit t" "k < length (encode_tombstones t)"
    "io_calm io" "mf_live (handle path io) = part_image I p ts @ take k (encode_tombstones t)"
  obtains q where "read_part A I path io = Some (Inr q, io_open path io)" "same_part p (map_of (concat ts)) q"
proof -
  obtain img q where q: "encode_part I p = Some img"
    "decode_part_file A I (encode_summary p @ img @ tl.image ts @ take k (encode_tombstones t)) = Some (Inr q)"
    "same_part p (map_of (concat ts)) q"
    by (rule decode_file_ok [OF assms(1-8)])
  have "read_part A I path io = Some (Inr q, io_open path io)"
    using assms(9,10) q(1,2) by (simp add: read_part_def read_whole_calm io_calm_ok part_image_def tl_image)
  then show ?thesis using that q(3) by blast
qed

lemma read_summary_ok:
  assumes p: "part_ok p" "storable I p" and calm: "io_calm io" and live: "mf_live (handle path io) = encode_summary p @ rest"
  shows "read_part_summary path io = (Inr (summary_of p), io_open path io)"
proof -
  let ?n = "length (summary_payload p)"
  have n: "?n < 2 ^ 32" using p(2) by (simp add: storable_def)
  have len: "length (encode_summary p) = 8 + ?n" by (simp add: encode_summary_def)
  have head: "take 4 (take 8 (encode_summary p)) = enc_u32 (word_of_nat ?n)" by (simp add: encode_summary_def frame_def)
  have "mf_pread 0 (replicate 8 0) (handle path io) = (8, take 8 (encode_summary p))"
    using len by (auto simp: mf_pread_def live)
  moreover have "mf_pread 0 (replicate (8 + ?n) 0) (handle path io) = (8 + ?n, encode_summary p)"
    using len by (auto simp: mf_pread_def live)
  moreover have "unframe (encode_summary p) 0 = Inr (summary_payload p, 8 + ?n)"
    using unframe_frame [OF n, of "[]" "[]"] by (simp add: encode_summary_def)
  ultimately show ?thesis
    using calm n decode_summary_ok [OF p] head
    by (simp add: read_part_summary_def pread_calm io_calm_ok io_bind_def unat_len32 del: take_take)
qed

section \<open>A model of the stream library\<close>

text \<open>A stream format that satisfies the contract, built from the codecs of the engine.\<close>

definition enc_opt :: "('a \<Rightarrow> bytes) \<Rightarrow> 'a option \<Rightarrow> bytes" where
  "enc_opt e x = (case x of None \<Rightarrow> enc_bool False | Some v \<Rightarrow> enc_bool True @ e v)"

definition d_opt :: "'a decoder \<Rightarrow> 'a option decoder" where
  "d_opt d = d_bind d_bool (\<lambda>b. if b then d_bind d (\<lambda>v. d_ret (Some v)) else d_ret None)"

definition enc_seq :: "('a \<Rightarrow> bytes) \<Rightarrow> 'a list \<Rightarrow> bytes" where
  "enc_seq e xs = enc_u32 (word_of_nat (length xs)) @ concat (map e xs)"

definition d_seq :: "'a decoder \<Rightarrow> 'a list decoder" where
  "d_seq d = d_bind d_u32 (\<lambda>n. d_repeat (unat n) d)"

lemma codec_opt: "prefix_codec e d P \<Longrightarrow> prefix_codec (enc_opt e) (d_opt d) (pred_option P)"
proof (unfold_locales, goal_cases)
  case (1 x rest)
  then show ?case
    by (cases x) (simp_all add: enc_opt_def d_opt_def codec_steps prefix_codec.bind_step)
qed

lemma codec_seq: "prefix_codec e d P \<Longrightarrow> prefix_codec (enc_seq e) (d_seq d) (\<lambda>xs. length xs < 2 ^ 32 \<and> list_all P xs)"
proof (unfold_locales, goal_cases)
  case (1 xs rest)
  then show ?case
    using prefix_codec.repeat_roundtrip [of e d P xs rest]
    by (simp add: enc_seq_def d_seq_def codec_steps unat_len32 list_all_iff)
qed

definition enc_i128 :: "i128 \<Rightarrow> bytes" where
  "enc_i128 m = enc_u64 (ucast (drop_bit 64 m)) @ enc_u64 (ucast m)"

definition d_i128 :: "i128 decoder" where
  "d_i128 = d_bind d_u64 (\<lambda>hi. d_bind d_u64 (\<lambda>lo. d_ret (push_bit 64 (ucast hi) OR ucast lo)))"

definition enc_i32 :: "i32 \<Rightarrow> bytes" where
  "enc_i32 = enc_u32"

interpretation c_i128: prefix_codec enc_i128 d_i128 "\<lambda>_. True"
  by unfold_locales (simp add: enc_i128_def d_i128_def codec_steps halves_i128)

interpretation x_int: prefix_codec "enc_seq (enc_opt enc_i64)" "d_seq (d_opt d_i64)" "\<lambda>xs. length xs < 2 ^ 32 \<and> list_all (pred_option (\<lambda>_. True)) xs"
  by (intro codec_seq codec_opt c_i64.prefix_codec_axioms)

interpretation x_float: prefix_codec "enc_seq (enc_opt enc_f64)" "d_seq (d_opt d_f64)" "\<lambda>xs. length xs < 2 ^ 32 \<and> list_all (pred_option (\<lambda>_. True)) xs"
  by (intro codec_seq codec_opt c_f64.prefix_codec_axioms)

interpretation x_text: prefix_codec "enc_seq (enc_opt enc_str)" "d_seq (d_opt d_string)" "\<lambda>xs. length xs < 2 ^ 32 \<and> list_all (pred_option text_ok) xs"
  by (intro codec_seq codec_opt c_str.prefix_codec_axioms)

interpretation x_bool: prefix_codec "enc_seq (enc_opt enc_bool)" "d_seq (d_opt d_bool)" "\<lambda>xs. length xs < 2 ^ 32 \<and> list_all (pred_option (\<lambda>_. True)) xs"
  by (intro codec_seq codec_opt c_bool.prefix_codec_axioms)

interpretation x_date: prefix_codec "enc_seq (enc_opt enc_i32)" "d_seq (d_opt d_u32)" "\<lambda>xs. length xs < 2 ^ 32 \<and> list_all (pred_option (\<lambda>_. True)) xs"
  unfolding enc_i32_def by (intro codec_seq codec_opt c_u32.prefix_codec_axioms)

interpretation x_dec: prefix_codec "enc_seq (enc_opt enc_i128)" "d_seq (d_opt d_i128)" "\<lambda>xs. length xs < 2 ^ 32 \<and> list_all (pred_option (\<lambda>_. True)) xs"
  by (intro codec_seq codec_opt c_i128.prefix_codec_axioms)

fun enc_array :: "arrow_array \<Rightarrow> bytes" where
  "enc_array (AInt64 xs) = enc_u8 0 @ enc_seq (enc_opt enc_i64) xs"
| "enc_array (AFloat64 xs) = enc_u8 1 @ enc_seq (enc_opt enc_f64) xs"
| "enc_array (AUtf8 xs) = enc_u8 2 @ enc_seq (enc_opt enc_str) xs"
| "enc_array (ABoolean xs) = enc_u8 3 @ enc_seq (enc_opt enc_bool) xs"
| "enc_array (ADate32 xs) = enc_u8 4 @ enc_seq (enc_opt enc_i32) xs"
| "enc_array (ATimestamp xs) = enc_u8 5 @ enc_seq (enc_opt enc_i64) xs"
| "enc_array (ADecimal p s xs) = enc_u8 6 @ enc_u8 p @ enc_u8 s @ enc_seq (enc_opt enc_i128) xs"

definition d_array :: "arrow_array decoder" where
  "d_array = d_bind d_u8 (\<lambda>tag.
     if tag = 0 then d_bind (d_seq (d_opt d_i64)) (\<lambda>xs. d_ret (AInt64 xs))
     else if tag = 1 then d_bind (d_seq (d_opt d_f64)) (\<lambda>xs. d_ret (AFloat64 xs))
     else if tag = 2 then d_bind (d_seq (d_opt d_string)) (\<lambda>xs. d_ret (AUtf8 xs))
     else if tag = 3 then d_bind (d_seq (d_opt d_bool)) (\<lambda>xs. d_ret (ABoolean xs))
     else if tag = 4 then d_bind (d_seq (d_opt d_u32)) (\<lambda>xs. d_ret (ADate32 xs))
     else if tag = 5 then d_bind (d_seq (d_opt d_i64)) (\<lambda>xs. d_ret (ATimestamp xs))
     else d_bind d_u8 (\<lambda>p. d_bind d_u8 (\<lambda>s. d_bind (d_seq (d_opt d_i128)) (\<lambda>xs. d_ret (ADecimal p s xs)))))"

lemma pred_option_True [simp]: "pred_option (\<lambda>_. True) x"
  by (cases x) simp_all

interpretation x_array: prefix_codec enc_array d_array "\<lambda>a. arr_len a < 2 ^ 32 \<and> arr_fits a"
proof (unfold_locales, goal_cases)
  case (1 a rest)
  then show ?case
    by (cases a) (simp_all add: d_array_def codec_steps x_int.bind_step x_float.bind_step x_text.bind_step x_bool.bind_step x_date.bind_step
        x_dec.bind_step list_all_iff)
qed

definition enc_rb :: "record_batch \<Rightarrow> bytes" where
  "enc_rb rb = enc_u32 (word_of_nat (rb_num_rows rb)) @ enc_seq enc_array (rb_columns rb)"

definition d_rb :: "record_batch decoder" where
  "d_rb = d_bind d_u32 (\<lambda>n. d_bind (d_seq d_array) (\<lambda>cols. d_ret \<lparr>rb_num_rows = unat n, rb_columns = cols\<rparr>))"

interpretation x_cols: prefix_codec "enc_seq enc_array" "d_seq d_array" "\<lambda>xs. length xs < 2 ^ 32 \<and> list_all (\<lambda>a. arr_len a < 2 ^ 32 \<and> arr_fits a) xs"
  by (intro codec_seq x_array.prefix_codec_axioms)

definition rb_streams :: "record_batch \<Rightarrow> bool" where
  "rb_streams rb \<longleftrightarrow> rb_num_rows rb < 2 ^ 32 \<and> length (rb_columns rb) < 2 ^ 32 \<and> list_all (\<lambda>a. arr_len a < 2 ^ 32 \<and> arr_fits a) (rb_columns rb)"

interpretation x_rb: prefix_codec enc_rb d_rb rb_streams
  by unfold_locales (simp add: enc_rb_def d_rb_def codec_steps x_cols.bind_step unat_len32 rb_streams_def)

interpretation x_rbs: prefix_codec "enc_seq enc_rb" "d_seq d_rb" "\<lambda>xs. length xs < 2 ^ 32 \<and> list_all rb_streams xs"
  by (intro codec_seq x_rb.prefix_codec_axioms)

definition ref_ipc :: ipc where
  "ref_ipc = \<lparr>ip_write = (\<lambda>fs rbs. enc_seq enc_rb rbs),
     ip_read = (\<lambda>bs. case d_seq d_rb bs of Inl _ \<Rightarrow> None | Inr (rbs, _) \<Rightarrow> Some rbs)\<rparr>"

lemma ipc_ok_ref: "ipc_ok ref_ipc"
proof -
  have "ip_read ref_ipc (ip_write ref_ipc fs rbs) = Some rbs"
    if "length rbs < 2 ^ 32" "\<forall>rb \<in> set rbs. rb_typed fs rb \<and> rb_fits rb" for fs rbs
  proof -
    have "list_all rb_streams rbs" using that(2) by (fastforce simp: list_all_iff rb_streams_def rb_fits_def rb_typed_def)
    then show ?thesis using x_rbs.roundtrip [of rbs "[]"] that(1) by (simp add: ref_ipc_def)
  qed
  then show ?thesis by (simp add: ipc_ok_def)
qed

section \<open>Properties\<close>

text \<open>
  C37. A part survives its file.  Writing a well-formed part and losing power, the summary read back is the part's, and reading
  the file gives a well-formed part with the same number and schema that holds exactly the same row versions, with
  their creation and deletion stamps.  The stream library is assumed to read back what it wrote.
\<close>

theorem part_file_roundtrip:
  "arrow_ok A \<and> ipc_ok I \<and> part_ok p \<and> storable I p \<and> no_zero_stamp (p_dv p) \<and> io_calm io \<and> mf_ok (handle path io) \<and>
   mf_room 3 (handle path io) \<Longrightarrow>
   \<exists>io' q io''. write_part I path p io = Some (Inr (), io') \<and> fst (read_part_summary path (io_crash io')) = Inr (summary_of p) \<and>
     read_part A I path (io_crash io') = Some (Inr q, io'') \<and>
     part_ok q \<and> p_id q = p_id p \<and> p_schema q = p_schema p \<and> part_versions q = part_versions p"
proof (elim conjE)
  assume A: "arrow_ok A" "ipc_ok I" and p: "part_ok p" "storable I p" and zero: "no_zero_stamp (p_dv p)"
    and io: "io_calm io" "mf_ok (handle path io)" "mf_room 3 (handle path io)"
  obtain img where img: "encode_part I p = Some img" using decode_image_ok [OF A p] by (metis encode_part_def option.simps(9))
  obtain io' where io': "write_part I path p io = Some (Inr (), io')" "io_calm io'" "mf_durable (handle path io') = part_image I p (tombs_of (p_dv p))"
    by (rule write_part_ok [OF img zero io])
  have fits: "tombs_fit (dv_entries (p_dv p))" using p(2) by (simp add: storable_def tombs_fit_def)
  have live: "mf_live (handle path (io_crash io')) = part_image I p (tombs_of (p_dv p))"
    using io'(3) by (simp add: handle_crash mf_crash_def)
  have rng: "\<forall>t \<in> set (tombs_of (p_dv p)). \<forall>e \<in> set t. unat (fst e) < b_len (p_batch p)"
    using p(1) by (auto simp: tombs_of_def part_ok_def)
  have "list_all tombs_fit (tombs_of (p_dv p))" "concat (tombs_of (p_dv p)) = dv_entries (p_dv p)" using fits by (simp_all add: tombs_of_def)
  then obtain q where q: "read_part A I path (io_crash io') = Some (Inr q, io_open path (io_crash io'))" "same_part p (map_of (dv_entries (p_dv p))) q"
    using read_part_ok [OF A p _ rng fits, of 0 "io_crash io'" path] live io_calm_crash [OF io'(2)]
    by (auto simp: encode_tombstones_def)
  have "dv_map (p_dv p) = map_of (dv_entries (p_dv p))" by (simp add: dv_map_def)
  then have "part_versions q = part_versions p" using same_part_versions q(2) p(1) by simp
  moreover have "fst (read_part_summary path (io_crash io')) = Inr (summary_of p)"
    using read_summary_ok [OF p io_calm_crash [OF io'(2)]] live by (simp add: part_image_def)
  ultimately show ?thesis using io'(1) q by (auto simp: same_part_def)
qed

text \<open>
  Tombstones appended to a part file are all or nothing: cut anywhere inside the appended record, the file reads as before the
  append; complete, it reads with the new tombstones on top, a row keeping its first deletion.
\<close>

theorem tombstone_append_atomic:
  "arrow_ok A \<and> ipc_ok I \<and> part_ok p \<and> storable I p \<and> list_all tombs_fit (ts @ [es]) \<and>
   list_all (\<lambda>e. unat (fst e) < b_len (p_batch p)) (concat (ts @ [es])) \<and> k \<le> length (encode_tombstones es) \<and> io_calm io \<and>
   mf_live (handle path io) = part_image I p ts @ take k (encode_tombstones es) \<Longrightarrow>
   \<exists>q io'. read_part A I path io = Some (Inr q, io') \<and>
     same_part p (map_of (concat (if k < length (encode_tombstones es) then ts else ts @ [es]))) q"
proof (elim conjE)
  assume A: "arrow_ok A" "ipc_ok I" and p: "part_ok p" "storable I p" and fits: "list_all tombs_fit (ts @ [es])"
    and rng: "list_all (\<lambda>e. unat (fst e) < b_len (p_batch p)) (concat (ts @ [es]))" and k: "k \<le> length (encode_tombstones es)"
    and io: "io_calm io" and live: "mf_live (handle path io) = part_image I p ts @ take k (encode_tombstones es)"
  have rng': "\<forall>t \<in> set xs. \<forall>e \<in> set t. unat (fst e) < b_len (p_batch p)" if "set xs \<subseteq> set (ts @ [es])" for xs
    using rng that by (force simp: list_all_iff)
  have fit': "tombs_fit es" "list_all tombs_fit ts" using fits by simp_all
  show ?thesis
  proof (cases "k < length (encode_tombstones es)")
    case True
    have r: "\<forall>t \<in> set ts. \<forall>e \<in> set t. unat (fst e) < b_len (p_batch p)" by (rule rng') auto
    obtain q where "read_part A I path io = Some (Inr q, io_open path io)" "same_part p (map_of (concat ts)) q"
      by (rule read_part_ok [OF A p fit'(2) r fit'(1) True io live])
    then show ?thesis using True by auto
  next
    case False
    then have "mf_live (handle path io) = part_image I p (ts @ [es]) @ take 0 (encode_tombstones es)"
      using live k by (simp add: part_image_def)
    moreover have "0 < length (encode_tombstones es)" by (simp add: encode_tombstones_def)
    moreover have "\<forall>t \<in> set (ts @ [es]). \<forall>e \<in> set t. unat (fst e) < b_len (p_batch p)" by (rule rng') auto
    ultimately obtain q where "read_part A I path io = Some (Inr q, io_open path io)" "same_part p (map_of (concat (ts @ [es]))) q"
      by (metis read_part_ok [OF A p fits _ fit'(1) _ io])
    then show ?thesis using False by auto
  qed
qed

text \<open>A part of two rows, the first deleted, with a model of the stream library.\<close>

definition stored_batch :: batch where
  "stored_batch = \<lparr>b_schema = sample_schema,
     b_rb = \<lparr>rb_num_rows = 2, rb_columns = [AInt64 [Some 1, Some 2], AUtf8 [Some ''x'', None]]\<rparr>\<rparr>"

lemma part_new_low: "part_new A pid b c = Some p \<Longrightarrow> p_created_min p = fst (created_bounds c)"
  by (auto simp: part_new_def Option.bind_eq_Some_conv split: if_splits)

lemma stored_part:
  obtains p where "part_ok p" "storable ref_ipc p" "p_schema p = sample_schema" "dv_entries (p_dv p) = [(0, 5)]" "b_len (p_batch p) = 2"
    "part_versions p = [([VInt 1, VText ''x''], 1, 5), ([VInt 2, VNull], 3, NEVER_DELETED)]"
proof -
  let ?b = stored_batch
  have b: "batch_ok ?b" "b_len ?b = 2" "b_schema ?b = sample_schema"
    using sample_schema_ok(1)
    by (auto simp: batch_ok_def stored_batch_def rb_typed_def b_len_def schema_arrow_def sample_schema_def not_null_def column_new_def)
  have rows: "batch_rows ?b = [[VInt 1, VText ''x''], [VInt 2, VNull]]"
    by code_simp
  have srt: "sorted_wrt vo.le (map (\<lambda>r. r ! sc_key_index (b_schema ?b)) (batch_rows ?b))"
    by (simp add: rows b(3) sample_schema_ok(5) vo.le_def num_total_cmp_def cmp_of_def)
  obtain p where p: "part_new ref_arrow 9 ?b (PerRow [1, 3]) = Some p" "part_ok p" "p_batch p = ?b" "p_created p = PerRow [1, 3]"
      "p_id p = 9" "p_dv p = dv_new"
    by (rule part_new_ok [OF b(1), of "PerRow [1, 3]" ref_arrow 9]) (use b srt in simp_all)
  define q where "q = snd (part_mark_deleted (word_of_nat 0) 5 p)"
  have q: "part_ok q" "p_batch q = ?b" "p_created q = PerRow [1, 3]"
    using part_mark_deleted_ok [OF p(2), of 0 5] b(2) p(3,4) by (simp_all add: q_def)
  have dv: "p_dv q = snd (mark_deleted 0 5 dv_new)"
    by (simp add: q_def part_mark_deleted_def p(6) split: prod.split)
  then have es: "dv_entries (p_dv q) = [(0, 5)]"
    by (simp add: mark_deleted_def dv_new_def binary_search_by_key_def)
  have keys: "p_min_key q = VInt 1" "p_max_key q = VInt 2"
    using q(1,2) b(2,3) rows sample_schema_ok(5) by (auto simp: part_ok_def batch_key_def nth_batch_rows [symmetric])
  have low: "p_created_min q = 1" using part_new_low [OF p(1)] by (simp add: q_def part_mark_deleted_def split: prod.split)
  have "schema_fits sample_schema" "rb_fits (b_rb ?b)" "length (to_ipc ref_ipc ?b) < 1000" "length (enc_schema sample_schema) < 1000"
    by (simp_all add: schema_fits_def schema_ok_def sample_schema_def arity_def column_ok_def column_new_def not_null_def text_ok_def as_bytes_def
        byte_of_def rb_fits_def stored_batch_def to_ipc_def ref_ipc_def b_is_empty_def b_len_def enc_seq_def enc_rb_def enc_opt_def enc_bool_def
        enc_str_def enc_bytes_def enc_u8_def enc_i64_def enc_schema_def enc_column_def enc_type_def enc_default_def)
  moreover have "length (summary_payload q) < 2 ^ 32" by (simp add: summary_payload_def keys enc_u8_def enc_u64_def enc_i64_def)
  moreover have "enc_stamps q = Some (enc_u8 STAMPS_PER_ROW @ enc_u64 1 @ enc_u64 3)"
    by (simp add: enc_stamps_def q b(2) p_created_at_def numeral_2_eq_2 upt_rec)
  ultimately have st: "storable ref_ipc q"
    by (simp add: storable_def keys low es q b(3) image_payload_def tombstone_payload_def enc_u8_def enc_u64_def enc_bytes_def)
  have "part_versions q = [([VInt 1, VText ''x''], 1, 5), ([VInt 2, VNull], 3, NEVER_DELETED)]"
    using part_okD(3) [OF q(1)] es
    by (simp add: part_versions_def q b(2) rows p_deleted_val_def deleted_at_map dv_map_def numeral_2_eq_2 upt_rec)
  then show ?thesis using that [OF q(1) st] q b es by simp
qed

lemma part_file_roundtrip_witness:
  "\<exists>p io' q io''. write_part ref_ipc ''part-0-9.dat'' p io_new = Some (Inr (), io') \<and>
     read_part ref_arrow ref_ipc ''part-0-9.dat'' (io_crash io') = Some (Inr q, io'') \<and>
     part_versions q = [([VInt 1, VText ''x''], 1, 5), ([VInt 2, VNull], 3, NEVER_DELETED)]"
proof (rule stored_part)
  fix p
  assume p: "part_ok p" "storable ref_ipc p" "dv_entries (p_dv p) = [(0, 5)]"
    "part_versions p = [([VInt 1, VText ''x''], 1, 5), ([VInt 2, VNull], 3, NEVER_DELETED)]"
  have "handle ''part-0-9.dat'' io_new = mf_new" "io_calm io_new"
    by (simp_all add: handle_def io_file_def io_new_def io_calm_def io_ok_def)
  then have "arrow_ok ref_arrow \<and> ipc_ok ref_ipc \<and> part_ok p \<and> storable ref_ipc p \<and> no_zero_stamp (p_dv p) \<and> io_calm io_new \<and>
      mf_ok (handle ''part-0-9.dat'' io_new) \<and> mf_room 3 (handle ''part-0-9.dat'' io_new)"
    using arrow_ok_ref ipc_ok_ref p(1-3) by (simp add: no_zero_stamp_def mf_room_def mf_new_def mf_ok_def)
  from part_file_roundtrip [OF this] show ?thesis using p(4) by metis
qed

lemma tombstone_append_atomic_witness:
  "\<exists>p q io'. part_ok p \<and>
     read_part ref_arrow ref_ipc ''wal.log'' (io_with_log (part_image ref_ipc p [[(0, 5)]] @ take 9 (encode_tombstones [(1, 8)]))) = Some (Inr q, io') \<and>
     dv_map (p_dv q) = [0 \<mapsto> 5]"
proof (rule stored_part)
  fix p
  assume p: "part_ok p" "storable ref_ipc p" "b_len (p_batch p) = 2"
  let ?img = "part_image ref_ipc p [[(0, 5)]] @ take 9 (encode_tombstones [(1, 8)])"
  have len: "length (encode_tombstones [(1 :: u32, 8)]) = 24" "tombs_fit [(0, 5)]" "tombs_fit [(1, 8)]"
    by (simp_all add: encode_tombstones_def tombstone_payload_def tombs_fit_def enc_u64_def)
  have "arrow_ok ref_arrow \<and> ipc_ok ref_ipc \<and> part_ok p \<and> storable ref_ipc p \<and> list_all tombs_fit ([[(0, 5)]] @ [[(1, 8)]]) \<and>
      list_all (\<lambda>e. unat (fst e) < b_len (p_batch p)) (concat ([[(0, 5)]] @ [[(1, 8)]])) \<and> 9 \<le> length (encode_tombstones [(1 :: u32, 8)]) \<and>
      io_calm (io_with_log ?img) \<and> mf_live (handle ''wal.log'' (io_with_log ?img)) = ?img"
    using arrow_ok_ref ipc_ok_ref p io_with_log [of ?img] len by simp
  from tombstone_append_atomic [OF this] show ?thesis using p(1) len by (auto simp: same_part_def)
qed

end
