(* ===== verification/Ck_Pager.thy ===== *)
theory Ck_Pager
  imports Ck_Persist Ck_Metrics
begin

text \<open>
  \<open>src/src/pager.rs\<close>: parts that stay on disk until they are touched.  A paged part keeps its summary resident; the first
  operation that needs its rows reads the file.  Faults of concurrent readers are serialised by a lock and the first one wins, so loading is one step.
  The memory estimate of a loaded part, only added to a counter, is the parameter \<open>mem\<close>.
\<close>

record pager_metrics =
  pm_parts_registered :: u64
  pm_parts_faulted :: u64
  pm_index_only_hits :: u64
  pm_bytes_faulted :: u64

definition pm_default :: pager_metrics where
  "pm_default = \<lparr>pm_parts_registered = 0, pm_parts_faulted = 0, pm_index_only_hits = 0, pm_bytes_faulted = 0\<rparr>"

definition resident_fraction :: "pager_metrics \<Rightarrow> f64" where
  "resident_fraction m = ratio (pm_parts_faulted m) (pm_parts_registered m)"

record paged_part =
  pg_summary :: part_summary
  pg_path :: string
  pg_loaded :: "part option"

definition pg_register :: "part_summary \<Rightarrow> string \<Rightarrow> pager_metrics \<Rightarrow> paged_part \<times> pager_metrics" where
  "pg_register s path m =
     (\<lparr>pg_summary = s, pg_path = path, pg_loaded = None\<rparr>, m\<lparr>pm_parts_registered := pm_parts_registered m + 1\<rparr>)"

definition pg_resident :: "part \<Rightarrow> string \<Rightarrow> pager_metrics \<Rightarrow> paged_part \<times> pager_metrics" where
  "pg_resident p path m =
     (\<lparr>pg_summary = \<lparr>ps_id = p_id p, ps_num_rows = p_num_rows p, ps_min_key = p_min_key p, ps_max_key = p_max_key p,
                    ps_created_min = p_created_min p, ps_created_max = p_created_max p\<rparr>,
       pg_path = path, pg_loaded = Some p\<rparr>,
      m\<lparr>pm_parts_registered := pm_parts_registered m + 1, pm_parts_faulted := pm_parts_faulted m + 1\<rparr>)"

definition is_resident :: "paged_part \<Rightarrow> bool" where
  "is_resident pg \<longleftrightarrow> pg_loaded pg \<noteq> None"

definition definitely_excludes :: "value_t \<Rightarrow> paged_part \<Rightarrow> bool" where
  "definitely_excludes key pg \<longleftrightarrow>
     ps_num_rows (pg_summary pg) = 0 \<or> total_cmp key (ps_min_key (pg_summary pg)) = Less \<or>
     total_cmp key (ps_max_key (pg_summary pg)) = Greater"

type_synonym 'a pg_result = "((io_error + 'a) \<times> paged_part \<times> pager_metrics \<times> mem_io) option"

definition pg_load :: "arrow \<Rightarrow> ipc \<Rightarrow> (part \<Rightarrow> u64) \<Rightarrow> paged_part \<Rightarrow> pager_metrics \<Rightarrow> mem_io \<Rightarrow> part pg_result" where
  "pg_load A I mem pg m io =
     (case pg_loaded pg of
        Some p \<Rightarrow> Some (Inr p, pg, m, io)
      | None \<Rightarrow>
          (case read_part A I (pg_path pg) io of
             None \<Rightarrow> None
           | Some (Inl e, io) \<Rightarrow> Some (Inl e, pg, m, io)
           | Some (Inr p, io) \<Rightarrow>
               Some (Inr p, pg\<lparr>pg_loaded := Some p\<rparr>,
                     m\<lparr>pm_parts_faulted := pm_parts_faulted m + 1, pm_bytes_faulted := pm_bytes_faulted m + mem p\<rparr>, io)))"

text \<open>An operation on the loaded part.\<close>

definition pg_with :: "(part \<Rightarrow> 'a option) \<Rightarrow> part pg_result \<Rightarrow> 'a pg_result" where
  "pg_with f r =
     (case r of
        None \<Rightarrow> None
      | Some (Inl e, pg, m, io) \<Rightarrow> Some (Inl e, pg, m, io)
      | Some (Inr p, pg, m, io) \<Rightarrow> (case f p of None \<Rightarrow> None | Some x \<Rightarrow> Some (Inr x, pg, m, io)))"

definition pg_lookup :: "arrow \<Rightarrow> ipc \<Rightarrow> (part \<Rightarrow> u64) \<Rightarrow> value_t \<Rightarrow> snapshot \<Rightarrow> paged_part \<Rightarrow> pager_metrics \<Rightarrow> mem_io \<Rightarrow>
    lookup_result pg_result" where
  "pg_lookup A I mem key snap pg m io =
     (if definitely_excludes key pg
      then Some (Inr OutOfBounds, pg, m\<lparr>pm_index_only_hits := pm_index_only_hits m + 1\<rparr>, io)
      else pg_with (\<lambda>p. part_lookup p key snap) (pg_load A I mem pg m io))"

definition pg_scan :: "arrow \<Rightarrow> ipc \<Rightarrow> (part \<Rightarrow> u64) \<Rightarrow> snapshot \<Rightarrow> paged_part \<Rightarrow> pager_metrics \<Rightarrow> mem_io \<Rightarrow> batch pg_result" where
  "pg_scan A I mem snap pg m io = pg_with (\<lambda>p. part_scan A p snap) (pg_load A I mem pg m io)"

definition pg_visible_count :: "arrow \<Rightarrow> ipc \<Rightarrow> (part \<Rightarrow> u64) \<Rightarrow> snapshot \<Rightarrow> paged_part \<Rightarrow> pager_metrics \<Rightarrow> mem_io \<Rightarrow> nat pg_result" where
  "pg_visible_count A I mem snap pg m io = pg_with (\<lambda>p. part_visible_count p snap) (pg_load A I mem pg m io)"

definition maybe_fully_visible :: "snapshot \<Rightarrow> paged_part \<Rightarrow> bool" where
  "maybe_fully_visible snap pg \<longleftrightarrow> sees_all_created_up_to snap (ps_created_max (pg_summary pg))"

definition read_summary :: "string \<Rightarrow> mem_io \<Rightarrow> part_summary io_result" where
  "read_summary path io = read_part_summary path io"

section \<open>Paging is invisible\<close>

lemma same_part_bounds:
  assumes "same_part p d q" "part_ok p"
  shows "b_len (p_batch q) = b_len (p_batch p)" "0 < b_len (p_batch p) \<Longrightarrow> p_min_key q = p_min_key p \<and> p_max_key q = p_max_key p"
proof -
  show len: "b_len (p_batch q) = b_len (p_batch p)" using assms(1) by (metis length_batch_rows same_part_def)
  assume pos: "0 < b_len (p_batch p)"
  have key: "p_key q i = p_key p i" if "i < b_len (p_batch p)" for i
    using assms(1) that len nth_batch_rows [of i "p_batch q"] nth_batch_rows [of i "p_batch p"] by (simp add: batch_key_def same_part_def)
  have "p_min_key q = p_key q 0" "p_max_key q = p_key q (b_len (p_batch p) - 1)" "p_min_key p = p_key p 0"
    "p_max_key p = p_key p (b_len (p_batch p) - 1)"
    using assms pos len by (auto simp: part_ok_def same_part_def)
  then show "p_min_key q = p_min_key p \<and> p_max_key q = p_max_key p" using key pos by simp
qed

text \<open>What the bounds exclude, the lookup of the loaded part excludes too.\<close>

lemma excludes_exact:
  assumes "same_part p d q" "part_ok p" "pg_summary pg = summary_of p"
  shows "definitely_excludes key pg \<longleftrightarrow>
    b_is_empty (p_batch q) \<or> total_cmp key (p_min_key q) = Less \<or> total_cmp key (p_max_key q) = Greater"
  using same_part_bounds [OF assms(1,2)] assms(3)
  by (cases "b_len (p_batch p) = 0") (auto simp: definitely_excludes_def summary_of_def p_num_rows_def b_is_empty_def b_len_def)

text \<open>
  C38. Demand paging is invisible: a lookup on a paged part answers what the loaded part answers, whether the summary alone decides or the file is read
  first; a key outside the bounds touches neither the file nor the residency, and a part once loaded is not read again.
\<close>

theorem paged_lookup_exact:
  "part_ok p \<and> same_part p d q \<and> pg_summary pg = summary_of p \<and> key \<in> p_keys p \<and> snap \<noteq> NEVER_DELETED \<and>
   (pg_loaded pg = Some q \<and> io' = io \<or> pg_loaded pg = None \<and> read_part A I (pg_path pg) io = Some (Inr q, io')) \<Longrightarrow>
   \<exists>r m'. part_lookup q key snap = Some r \<and> pg_lookup A I mem key snap pg m io =
     (if definitely_excludes key pg then Some (Inr r, pg, m', io) else Some (Inr r, pg\<lparr>pg_loaded := Some q\<rparr>, m', io'))"
proof (elim conjE)
  assume ok: "part_ok p" "same_part p d q" "pg_summary pg = summary_of p" and key: "key \<in> p_keys p" "snap \<noteq> NEVER_DELETED"
    and src: "pg_loaded pg = Some q \<and> io' = io \<or> pg_loaded pg = None \<and> read_part A I (pg_path pg) io = Some (Inr q, io')"
  obtain r where r: "part_lookup q key snap = Some r"
    by (rule part_lookup_spec [of q key snap]) (use ok(2) key in \<open>simp_all add: same_part_def\<close>)
  show ?thesis
  proof (cases "definitely_excludes key pg")
    case True
    then have "r = OutOfBounds" using r excludes_exact [OF ok(2,1,3)] by (auto simp: part_lookup_def)
    then show ?thesis using True r by (simp add: pg_lookup_def)
  next
    case False
    have "\<exists>m'. pg_load A I mem pg m io = Some (Inr q, pg\<lparr>pg_loaded := Some q\<rparr>, m', io')"
      using src by (auto simp: pg_load_def)
    then show ?thesis using False r by (auto simp: pg_lookup_def pg_with_def)
  qed
qed

lemma paged_lookup_exact_witness:
  "\<exists>p q r m' pg' io'. part_versions q = [([VInt 1, VText ''x''], 1, 5), ([VInt 2, VNull], 3, NEVER_DELETED)] \<and>
     part_lookup q (VInt 1) 4 = Some r \<and>
     pg_lookup ref_arrow ref_ipc (\<lambda>_. 0) (VInt 1) 4 \<lparr>pg_summary = summary_of p, pg_path = ''wal.log'', pg_loaded = None\<rparr> pm_default
       (io_with_log (part_image ref_ipc p [[(0, 5)]])) = Some (Inr r, pg', m', io')"
proof (rule stored_part)
  fix p
  assume p: "part_ok p" "storable ref_ipc p" "part_versions p = [([VInt 1, VText ''x''], 1, 5), ([VInt 2, VNull], 3, NEVER_DELETED)]"
     "p_schema p = sample_schema" "b_len (p_batch p) = 2" "dv_entries (p_dv p) = [(0, 5)]"
  let ?io = "io_with_log (part_image ref_ipc p [[(0, 5)]])"
  let ?pg = "\<lparr>pg_summary = summary_of p, pg_path = ''wal.log'', pg_loaded = None\<rparr>"
  have fit: "tombs_fit [(0, 5)]" by (simp add: tombs_fit_def tombstone_payload_def enc_u64_def)
  obtain q where q: "read_part ref_arrow ref_ipc ''wal.log'' ?io = Some (Inr q, io_open ''wal.log'' ?io)" "same_part p (map_of (concat [[(0, 5)]])) q"
    by (rule read_part_ok [OF arrow_ok_ref ipc_ok_ref p(1,2), of "[[(0, 5)]]" "[(0, 5)]" 0 ?io "''wal.log''"])
       (use io_with_log [of "part_image ref_ipc p [[(0, 5)]]"] fit p(5) in \<open>simp_all add: encode_tombstones_def\<close>)
  have "same_part p (dv_map (p_dv p)) q" using q(2) p(6) by (simp add: dv_map_def)
  note v = same_part_versions [OF this p(1)]
  have "VInt 1 \<in> p_keys p" by (simp add: p(4) sample_schema_ok col_values_def)
  then have hyp: "part_ok p \<and> same_part p (map_of (concat [[(0, 5)]])) q \<and> pg_summary ?pg = summary_of p \<and> VInt 1 \<in> p_keys p \<and> 4 \<noteq> NEVER_DELETED \<and>
      (pg_loaded ?pg = Some q \<and> io_open ''wal.log'' ?io = ?io \<or>
       pg_loaded ?pg = None \<and> read_part ref_arrow ref_ipc (pg_path ?pg) ?io = Some (Inr q, io_open ''wal.log'' ?io))"
    using p(1) q by (simp add: NEVER_DELETED_def)
  obtain r where r: "part_lookup q (VInt 1) 4 = Some r"
    and "\<exists>pg' m' io'. pg_lookup ref_arrow ref_ipc (\<lambda>_. 0) (VInt 1) 4 ?pg pm_default ?io = Some (Inr r, pg', m', io')"
    using paged_lookup_exact [OF hyp, of "\<lambda>_. 0" pm_default] by (auto split: if_splits)
  then show ?thesis using v p(3) by metis
qed

end
