(* ===== verification/Ck_FloatArith.thy ===== *)
theory Ck_FloatArith
  imports Ck_Float
begin

text \<open>
  The remaining \<open>f64\<close> arithmetic of the engine: addition, subtraction, negation and remainder,
  on bit patterns like the operations of \<open>Ck_Float\<close>.  Finite operands are added exactly and the
  sum is rounded once; the remainder is exact.  The sign and payload of a NaN result, which the
  language leaves open, are those of \<open>f64_nan\<close>.
\<close>

definition f64_negate :: "f64 \<Rightarrow> f64" where
  "f64_negate b = b XOR 0x8000000000000000"

definition f64_signed :: "f64 \<Rightarrow> int" where
  "f64_signed b = (if f64_neg b then - fst (f64_mag b) else fst (f64_mag b))"

definition f64_add :: "f64 \<Rightarrow> f64 \<Rightarrow> f64" where
  "f64_add a b =
     (if f64_is_nan a \<or> f64_is_nan b then f64_nan
      else if f64_is_inf a then (if f64_is_inf b \<and> f64_neg a \<noteq> f64_neg b then f64_nan else a)
      else if f64_is_inf b then b
      else let n = f64_signed a * snd (f64_mag b) + f64_signed b * snd (f64_mag a);
               neg = (if n = 0 then f64_neg a \<and> f64_neg b else n < 0)
           in f64_pack neg \<bar>n\<bar> (snd (f64_mag a) * snd (f64_mag b)))"

definition f64_sub :: "f64 \<Rightarrow> f64 \<Rightarrow> f64" where
  "f64_sub a b = f64_add a (f64_negate b)"

text \<open>The \<open>%\<close> of two floats truncates: the result has the sign of the dividend.\<close>

definition f64_rem :: "f64 \<Rightarrow> f64 \<Rightarrow> f64" where
  "f64_rem a b =
     (if f64_is_nan a \<or> f64_is_nan b \<or> f64_is_inf a \<or> f64_is_zero b then f64_nan
      else if f64_is_inf b then a
      else let (pa, qa) = f64_mag a; (pb, qb) = f64_mag b
           in f64_pack (f64_neg a) ((pa * qb) mod (pb * qa)) (qa * qb))"

section \<open>Integers are exact up to \<open>2 ^ 53\<close>\<close>

lemma ilog2_bounds:
  assumes "0 < n"
  shows "0 \<le> ilog2 n \<and> 2 ^ nat (ilog2 n) \<le> n \<and> n < 2 * 2 ^ nat (ilog2 n)"
  using assms
proof (induction n rule: ilog2.induct)
  case (1 n)
  show ?case
  proof (cases "n < 2")
    case True
    then show ?thesis using 1(2) by (simp add: ilog2.simps [of n])
  next
    case False
    then have IH: "0 \<le> ilog2 (n div 2)" "2 ^ nat (ilog2 (n div 2)) \<le> n div 2"
      "n div 2 < 2 * 2 ^ nat (ilog2 (n div 2))"
      using 1(1) by auto
    have "nat (ilog2 n) = Suc (nat (ilog2 (n div 2)))" "0 \<le> ilog2 n"
      using False IH(1) by (simp_all add: ilog2.simps [of n] nat_add_distrib)
    then show ?thesis using IH(2,3) by (simp, intro conjI; linarith)
  qed
qed

definition f64_int_key :: "int \<Rightarrow> int" where
  "f64_int_key n = (ilog2 n + 1022) * 2 ^ 52 + n * 2 ^ (52 - nat (ilog2 n))"

lemma ilog2_less53:
  assumes "0 < n" "n < 2 ^ 53"
  shows "nat (ilog2 n) \<le> 52"
proof (rule ccontr)
  assume "\<not> nat (ilog2 n) \<le> 52"
  then have "(2 :: int) ^ 53 \<le> 2 ^ nat (ilog2 n)" by (intro power_increasing) auto
  then show False using ilog2_bounds [OF assms(1)] assms(2) by linarith
qed

lemma f64_int_key_bounds:
  assumes "0 < n" "n < 2 ^ 53"
  shows "(ilog2 n + 1023) * 2 ^ 52 \<le> f64_int_key n" "f64_int_key n < (ilog2 n + 1024) * 2 ^ 52"
proof -
  define L where "L = nat (ilog2 n)"
  have L: "ilog2 n = int L" "L \<le> 52" "2 ^ L \<le> n" "n < 2 * 2 ^ L"
    using ilog2_bounds [OF assms(1)] ilog2_less53 [OF assms] by (auto simp: L_def)
  have p: "(2 :: int) ^ L * 2 ^ (52 - L) = 2 ^ 52" using L(2) by (simp flip: power_add)
  have "2 ^ L * 2 ^ (52 - L) \<le> n * 2 ^ (52 - L)" using L(3) by (rule mult_right_mono) simp
  moreover have "n * 2 ^ (52 - L) < (2 * 2 ^ L) * 2 ^ (52 - L)" using L(4) by (rule mult_strict_right_mono) simp
  ultimately have b: "2 ^ 52 \<le> n * 2 ^ (52 - L)" "n * 2 ^ (52 - L) < 2 * 2 ^ 52"
    using p by (simp_all add: mult.assoc)
  show "(ilog2 n + 1023) * 2 ^ 52 \<le> f64_int_key n" "f64_int_key n < (ilog2 n + 1024) * 2 ^ 52"
    using b unfolding f64_int_key_def L_def [symmetric] by (simp_all add: distrib_right)
qed

lemma f64_int_key_mono:
  assumes "0 < a" "a < b" "b < 2 ^ 53"
  shows "f64_int_key a < f64_int_key b"
proof (cases "ilog2 a = ilog2 b")
  case True
  then show ?thesis using assms(2) by (simp add: f64_int_key_def)
next
  case False
  have a: "a < 2 ^ 53" "0 < b" using assms by simp_all
  have "ilog2 a < ilog2 b"
  proof (rule ccontr)
    assume "\<not> ilog2 a < ilog2 b"
    then have "Suc (nat (ilog2 b)) \<le> nat (ilog2 a)"
      using False ilog2_bounds [OF a(2)] by linarith
    then have "(2 :: int) ^ Suc (nat (ilog2 b)) \<le> 2 ^ nat (ilog2 a)" by (rule power_increasing) simp
    then show False using ilog2_bounds [OF assms(1)] ilog2_bounds [OF a(2)] assms(2) by simp
  qed
  then have "(ilog2 a + 1024) * 2 ^ 52 \<le> (ilog2 b + 1023) * 2 ^ 52" by simp
  then show ?thesis
    using f64_int_key_bounds(2) [OF assms(1) a(1)] f64_int_key_bounds(1) [OF a(2) assms(3)] by linarith
qed

lemma f64_pack_int:
  assumes "0 < n" "n < 2 ^ 53"
  shows "f64_pack neg n 1 = word_of_int ((if neg then 2 ^ 63 else 0) + f64_int_key n)"
proof -
  define L where "L = nat (ilog2 n)"
  have L: "ilog2 n = int L" "L \<le> 52" "2 ^ L \<le> n" "n < 2 * 2 ^ L"
    using ilog2_bounds [OF assms(1)] ilog2_less53 [OF assms] by (auto simp: L_def)
  have one: "ilog2 1 = 0" by (simp add: ilog2.simps [of 1])
  have p: "(2 :: int) ^ L * 2 ^ (52 - L) = 2 ^ 52" using L(2) by (simp flip: power_add)
  have "2 ^ L * 2 ^ (52 - L) \<le> n * 2 ^ (52 - L)" using L(3) by (rule mult_right_mono) simp
  moreover have "n * 2 ^ (52 - L) < (2 * 2 ^ L) * 2 ^ (52 - L)" using L(4) by (rule mult_strict_right_mono) simp
  ultimately have b: "2 ^ 52 \<le> n * 2 ^ (52 - L)" "n * 2 ^ (52 - L) < 2 ^ 53"
    using p by (simp_all add: mult.assoc)
  have sh: "shift_quot n 1 (int L - 52) = (n * 2 ^ (52 - L), 1)"
  proof (cases "L = 52")
    case True
    then show ?thesis by (simp add: shift_quot_def)
  next
    case False
    then have "\<not> (0 :: int) \<le> int L - 52" "nat (- (int L - 52)) = 52 - L" using L(2) by auto
    then show ?thesis by (simp only: shift_quot_def if_False mult_1)
  qed
  have l: "shift_quot n 1 (int L) = (n, 2 ^ L)" by (simp add: shift_quot_def)
  have e: "max (- 1074) (int L - 52) = int L - 52" by simp
  have c: "\<not> n * 2 ^ (52 - L) < 2 ^ 52" "n * 2 ^ (52 - L) \<noteq> 2 ^ 53" "\<not> 971 < int L - 52"
    using b L(2) by auto
  have k: "f64_int_key n = (int L - 52 + 1075) * 2 ^ 52 + (n * 2 ^ (52 - L) - 2 ^ 52)"
    unfolding f64_int_key_def L_def [symmetric] L(1) by (simp add: distrib_right)
  have q: "(if 2 ^ L \<le> n then int L else int L - 1) = int L" "(n = 0) = False"
    using assms(1) L(3) by simp_all
  have h: "((1 :: int) < 2 * 0 \<or> 1 = 2 * (0 :: int) \<and> odd (n * 2 ^ (52 - L))) = False" by simp
  show ?thesis
    unfolding f64_pack_def Let_def one L(1) diff_0_right l prod.case k q e sh div_by_1 mod_by_1 h if_False
    using c by (simp only: if_False prod.case add.assoc)
qed

lemma f64_neg_iff: "f64_neg b \<longleftrightarrow> 2 ^ 63 \<le> uint b"
proof -
  have "bit b 63 = bit (uint b) 63" by (simp add: bit_uint_iff)
  also have "\<dots> \<longleftrightarrow> odd (uint b div 2 ^ 63)" by (rule bit_iff_odd)
  also have "\<dots> \<longleftrightarrow> 2 ^ 63 \<le> uint b"
  proof (cases "2 ^ 63 \<le> uint b")
    case True
    then have "uint b div 2 ^ 63 = 1" using uint_lt2p [of b] by (intro div_pos_pos_trivial [THEN trans] int_div_pos_eq [where r = "uint b - 2 ^ 63"]) auto
    then show ?thesis using True by simp
  qed (simp add: div_pos_pos_trivial)
  finally show ?thesis by (simp only: f64_neg_def)
qed

lemma f64_key_of_word:
  assumes "0 \<le> k" "k < 2 ^ 63"
  shows "f64_num_key (word_of_int k) = k" "f64_num_key (word_of_int (2 ^ 63 + k)) = - k"
proof -
  have w: "uint (word_of_int j :: 64 word) = j" if "0 \<le> j" "j < 2 ^ 64" for j
    using that by (simp add: uint_word_of_int_eq take_bit_int_eq_self)
  have u: "uint (word_of_int k :: 64 word) = k" "uint (word_of_int (2 ^ 63 + k) :: 64 word) = 2 ^ 63 + k"
    using assms by (intro w; simp)+
  have "\<not> f64_neg (word_of_int k)" "f64_neg (word_of_int (2 ^ 63 + k))"
    using assms u by (simp_all add: f64_neg_iff)
  then show "f64_num_key (word_of_int k) = k" "f64_num_key (word_of_int (2 ^ 63 + k)) = - k"
    using assms u by (simp_all add: f64_num_key_def)
qed

text \<open>The casts of integers below \<open>2 ^ 53\<close> compare as the integers.\<close>

lemma f64_exp_key: "f64_exp b = \<bar>f64_num_key b\<bar> div 2 ^ 52"
proof -
  have "f64_exp b = uint b div 2 ^ 52 mod 2 ^ 11" by (simp add: f64_exp_def drop_bit_eq_div uint_div_distrib)
  also have "\<dots> = uint b mod 2 ^ (52 + 11) div 2 ^ 52" by (rule div_exp_mod_exp_eq)
  finally show ?thesis by (simp add: f64_num_key_def Let_def)
qed

lemma num_key_int:
  assumes "\<bar>i\<bar> < 2 ^ 53"
  shows "f64_num_key (f64_of_int i) = sgn i * (if i = 0 then 0 else f64_int_key \<bar>i\<bar>)"
    and "\<not> f64_is_nan (f64_of_int i)"
proof -
  show "f64_num_key (f64_of_int i) = sgn i * (if i = 0 then 0 else f64_int_key \<bar>i\<bar>)"
  proof (cases "i = 0")
    case True
    then show ?thesis by (simp add: f64_of_int_def f64_pack_def f64_zero_def f64_num_key_def)
  next
    case False
    note b = f64_int_key_bounds [of "\<bar>i\<bar>"] ilog2_less53 [of "\<bar>i\<bar>"] ilog2_bounds [of "\<bar>i\<bar>"]
    have k: "0 \<le> f64_int_key \<bar>i\<bar>" "f64_int_key \<bar>i\<bar> < 2 ^ 63" using b False assms by auto
    show ?thesis
      using False assms f64_pack_int [of "\<bar>i\<bar>"] f64_key_of_word [OF k]
      by (auto simp: f64_of_int_def sgn_if)
  qed
  then have "\<bar>f64_num_key (f64_of_int i)\<bar> < 2047 * 2 ^ 52"
    using f64_int_key_bounds [of "\<bar>i\<bar>"] ilog2_less53 [of "\<bar>i\<bar>"] ilog2_bounds [of "\<bar>i\<bar>"] assms
    by (auto simp: abs_mult)
  then have "f64_exp (f64_of_int i) < 2047" by (simp add: f64_exp_key)
  then show "\<not> f64_is_nan (f64_of_int i)" by (simp add: f64_is_nan_def)
qed

lemma cmp_f64_of_int:
  assumes "\<bar>i\<bar> < 2 ^ 53" "\<bar>j\<bar> < 2 ^ 53"
  shows "f64_partial_cmp (f64_of_int i) (f64_of_int j) = Some (cmp_of i j)"
proof -
  have mono: "f64_num_key (f64_of_int a) < f64_num_key (f64_of_int b)"
    if "\<bar>a\<bar> < 2 ^ 53" "\<bar>b\<bar> < 2 ^ 53" "a < b" for a b
  proof -
    have pos: "0 < f64_int_key n" if "0 < n" "n < 2 ^ 53" for n
      using f64_int_key_bounds(1) [OF that] ilog2_bounds [OF that(1)] by (auto intro: less_le_trans)
    show ?thesis
      using that f64_int_key_mono [of a b] f64_int_key_mono [of "- b" "- a"] pos [of b] pos [of "- a"]
      by (auto simp: num_key_int sgn_if abs_if)
  qed
  show ?thesis
    using mono [of i j] mono [of j i] assms num_key_int(2) [of i] num_key_int(2) [of j]
    by (cases i j rule: linorder_cases) (simp_all add: f64_partial_cmp_def cmp_of_def)
qed

text \<open>The two orders of floats agree except on the two zeros and on NaN.\<close>

lemma total_key_num_key: "f64_total_key b = (if f64_neg b then f64_num_key b - 1 else f64_num_key b)"
proof -
  have M: "(0x7FFFFFFFFFFFFFFF :: f64) = mask 63" by (simp add: mask_eq_exp_minus_1)
  define m where "m = uint b mod 2 ^ 63"
  have m: "0 \<le> m" "m < 2 ^ 63" by (simp_all add: m_def)
  have s: "sint (word_of_int j :: f64) = j" if "- (2 ^ 63) \<le> j" "j < 2 ^ 63" for j
    using that by (subst sint_sbintrunc', intro signed_take_bit_int_eq_self) simp_all
  have t: "uint (take_bit 63 b) = m" by (simp add: take_bit_eq_mod uint_mod_distrib m_def)
  show ?thesis
  proof (cases "bit b 63")
    case True
    have "b XOR mask 63 = NOT (take_bit 63 b)"
    proof (rule bit_word_eqI)
      fix n assume "n < LENGTH(64)"
      then show "bit (b XOR mask 63) n \<longleftrightarrow> bit (NOT (take_bit 63 b)) n"
        using True by (cases "n = 63") (auto simp: bit_simps)
    qed
    also have "\<dots> = word_of_int (- m - 1)" by (simp add: not_eq_complement t [symmetric])
    finally show ?thesis using True m s [of "- m - 1"]
      by (simp add: f64_total_key_def M f64_neg_def f64_num_key_def m_def)
  next
    case False
    have "b = take_bit 63 b"
    proof (rule bit_word_eqI)
      fix n assume "n < LENGTH(64)"
      then show "bit b n \<longleftrightarrow> bit (take_bit 63 b) n"
        using False by (cases "n = 63") (auto simp: bit_simps)
    qed
    then have "b = word_of_int m" using t by (metis word_of_int_uint)
    then show ?thesis using False m s [of m]
      by (simp add: f64_total_key_def f64_neg_def f64_num_key_def m_def)
  qed
qed

lemma partial_cmp_total:
  assumes "a \<noteq> f64_zero True" "b \<noteq> f64_zero True" "f64_partial_cmp a b = Some c"
  shows "f64_total_cmp a b = c"
proof -
  have neg: "f64_num_key x < 0" if "x \<noteq> f64_zero True" "f64_neg x" for x
  proof (rule ccontr)
    assume "\<not> f64_num_key x < 0"
    then have "uint x mod 2 ^ 63 = 0" using that(2) by (simp add: f64_num_key_def)
    then have "uint x = 2 ^ 63"
      using that(2) uint_lt2p [of x] unfolding f64_neg_iff by (auto elim!: dvdE simp: mod_eq_0_iff_dvd)
    then have "x = word_of_int (2 ^ 63)" by (metis word_of_int_uint)
    then show False using that(1) by (simp add: f64_zero_def)
  qed
  have pos: "\<not> f64_neg x \<Longrightarrow> 0 \<le> f64_num_key x" for x by (simp add: f64_num_key_def)
  show ?thesis
    using assms neg [of a] neg [of b] pos [of a] pos [of b]
    by (cases "f64_neg a"; cases "f64_neg b")
       (auto simp: f64_partial_cmp_def f64_total_cmp_def total_key_num_key cmp_of_def split: if_splits)
qed

end
