(* ===== verification/Ck_Backpressure.thy ===== *)
theory Ck_Backpressure
  imports Ck_FloatArith Ck_Metrics
begin

text \<open>
  \<open>src/src/backpressure.rs\<close>: how long a writer is delayed when compaction falls behind.  A
  \<open>Duration\<close> is a number of nanoseconds.  The sleep itself changes no state of the engine and is left
  out, so \<open>apply\<close> and \<open>record_only\<close> are the same function.
\<close>

record backpressure_config =
  bc_soft_limit :: nat
  bc_hard_limit :: nat
  bc_base_delay :: nat
  bc_max_delay :: nat
  bc_stall_cap :: nat

definition bc_default :: backpressure_config where
  "bc_default = \<lparr>bc_soft_limit = 12, bc_hard_limit = 48, bc_base_delay = 50000, bc_max_delay = 5000000, bc_stall_cap = 100000000\<rparr>"

datatype pressure = PrNone | Throttle nat | Stall nat

fun delay :: "pressure \<Rightarrow> nat" where
  "delay PrNone = 0"
| "delay (Throttle d) = d"
| "delay (Stall d) = d"

fun is_engaged :: "pressure \<Rightarrow> bool" where
  "is_engaged PrNone = False"
| "is_engaged _ = True"

text \<open>\<open>f64::clamp(0.0, 1.0)\<close> and the saturating \<open>as u64\<close>.\<close>

definition f64_clamp01 :: "f64 \<Rightarrow> f64" where
  "f64_clamp01 x =
     (if f64_partial_cmp x 0 = Some Less then 0
      else if f64_partial_cmp x (f64_of_int 1) = Some Greater then f64_of_int 1 else x)"

definition f64_to_u64 :: "f64 \<Rightarrow> nat" where
  "f64_to_u64 x =
     (if f64_is_nan x \<or> f64_neg x then 0
      else if f64_is_inf x then 2 ^ 64 - 1
      else min (nat (fst (f64_mag x) div snd (f64_mag x))) (2 ^ 64 - 1))"

definition ramp_nanos :: "backpressure_config \<Rightarrow> nat \<Rightarrow> nat" where
  "ramp_nanos c parts =
     (let span = f64_of_int (int (max (bc_hard_limit c - bc_soft_limit c) 1));
          over = f64_of_int (int (parts - bc_soft_limit c));
          frac = f64_clamp01 (f64_div over span);
          base = f64_of_int (int (bc_base_delay c));
          mx = f64_of_int (int (bc_max_delay c))
      in f64_to_u64 (f64_add base (f64_mul (f64_sub mx base) frac)))"

definition evaluate :: "backpressure_config \<Rightarrow> nat \<Rightarrow> pressure" where
  "evaluate c parts =
     (if parts < bc_soft_limit c then PrNone
      else if bc_hard_limit c \<le> parts then Stall (min (bc_max_delay c) (bc_stall_cap c))
      else Throttle (min (ramp_nanos c parts) (bc_stall_cap c)))"

definition bp_apply :: "backpressure_config \<Rightarrow> nat \<Rightarrow> metrics \<Rightarrow> nat \<times> metrics" where
  "bp_apply c parts m =
     (let p = evaluate c parts
      in if \<not> is_engaged p then (0, m)
         else (delay p, mt_add mt_backpressure_nanos_update (word_of_nat (delay p)) (bump mt_backpressure_events_update m)))"

lemma evaluate_cases:
  "is_engaged (evaluate c parts) \<longleftrightarrow> bc_soft_limit c \<le> parts"
  "delay (evaluate c parts) \<le> bc_stall_cap c"
  by (simp_all add: evaluate_def)

text \<open>
  A writer is delayed exactly from the soft limit on, each delay is counted, and no single
  delay exceeds the stall cap, whatever the thresholds and the rounding of the ramp.
\<close>

theorem backpressure_bounded:
  "fst (bp_apply c parts m) \<le> bc_stall_cap c \<and>
   mt_backpressure_events (snd (bp_apply c parts m)) = mt_backpressure_events m + (if parts < bc_soft_limit c then 0 else 1) \<and>
   mt_backpressure_nanos (snd (bp_apply c parts m)) = mt_backpressure_nanos m + word_of_nat (fst (bp_apply c parts m))"
  using evaluate_cases [of c parts]
  by (auto simp: bp_apply_def Let_def bump_def mt_add_def not_le)

end
