(* ===== verification/Ck_Database.thy ===== *)
theory Ck_Database
  imports Ck_Isolation Ck_Io
begin

text \<open>
  \<open>src/src/database.rs\<close>: the catalog of tables.  The tables share one clock and one set of counters;
  in the program these are reference-counted, here they are fields of the database, put into a table
  when it is fetched and taken back when the table is stored after an operation.

  The invariant says that every table is well formed under the shared clock, and the step relation
  interleaves the operations of all tables with the catalog operations, for the snapshots of the whole catalog.
\<close>

section \<open>State and operations\<close>

record database =
  db_tables :: "(string, table) btree"
  db_csn :: csn_gen
  db_metrics :: metrics
  db_config :: table_config

definition with_config :: "table_config \<Rightarrow> database" where
  "with_config cfg = \<lparr>db_tables = [], db_csn = csn_new, db_metrics = metrics_new, db_config = cfg\<rparr>"

definition database_new :: database where
  "database_new = with_config default_config"

definition attach :: "database \<Rightarrow> table \<Rightarrow> table" where
  "attach db t = t\<lparr>tb_csn := db_csn db, tb_metrics := db_metrics db\<rparr>"

definition db_table :: "string \<Rightarrow> database \<Rightarrow> error + table" where
  "db_table name db =
     (case bt_get str_cmp name (db_tables db) of Some t \<Rightarrow> Inr (attach db t) | None \<Rightarrow> Inl (TableNotFound name))"

text \<open>The state after an operation on the table \<open>name\<close> left it as \<open>t\<close>.\<close>

definition db_store :: "string \<Rightarrow> table \<Rightarrow> database \<Rightarrow> database" where
  "db_store name t db = db\<lparr>db_tables := bt_insert str_cmp name t (db_tables db), db_csn := tb_csn t, db_metrics := tb_metrics t\<rparr>"

definition create_table_full :: "string \<Rightarrow> schema \<Rightarrow> table_config \<Rightarrow> database \<Rightarrow> (error + table) \<times> database" where
  "create_table_full name s cfg db =
     (if bt_get str_cmp name (db_tables db) \<noteq> None then (Inl (TableExists name), db)
      else let t = table_new name s (db_csn db) (db_metrics db) cfg
           in (Inr t, db\<lparr>db_tables := bt_insert str_cmp name t (db_tables db)\<rparr>))"

definition create_table_schema :: "string \<Rightarrow> schema \<Rightarrow> database \<Rightarrow> (error + table) \<times> database" where
  "create_table_schema name s db = create_table_full name s (db_config db) db"

text \<open>\<open>default_schema\<close> panics when it cannot be built.\<close>

definition create_table_with :: "string \<Rightarrow> table_config \<Rightarrow> database \<Rightarrow> ((error + table) \<times> database) option" where
  "create_table_with name cfg db = map_option (\<lambda>s. create_table_full name s cfg db) default_schema"

definition create_table :: "string \<Rightarrow> database \<Rightarrow> ((error + table) \<times> database) option" where
  "create_table name db = create_table_with name (db_config db) db"

definition table_or_create :: "string \<Rightarrow> database \<Rightarrow> ((error + table) \<times> database) option" where
  "table_or_create name db = (case db_table name db of Inr t \<Rightarrow> Some (Inr t, db) | Inl _ \<Rightarrow> create_table name db)"

definition db_drop_table :: "string \<Rightarrow> database \<Rightarrow> (error + unit) \<times> database" where
  "db_drop_table name db =
     (case bt_get str_cmp name (db_tables db) of
        Some _ \<Rightarrow> (Inr (), db\<lparr>db_tables := bt_remove str_cmp name (db_tables db)\<rparr>)
      | None \<Rightarrow> (Inl (TableNotFound name), db))"

definition db_truncate :: "string \<Rightarrow> database \<Rightarrow> (error + unit) \<times> database" where
  "db_truncate name db =
     (case bt_get str_cmp name (db_tables db) of
        None \<Rightarrow> (Inl (TableNotFound name), db)
      | Some old \<Rightarrow>
          let fresh = table_new name (tb_schema old) (db_csn db) (db_metrics db) (db_config db)
          in (Inr (), db\<lparr>db_tables := bt_insert str_cmp name fresh (db_tables db)\<rparr>))"

definition table_names :: "database \<Rightarrow> string list" where
  "table_names db = map fst (db_tables db)"

definition db_len :: "database \<Rightarrow> nat" where
  "db_len db = length (db_tables db)"

definition db_is_empty :: "database \<Rightarrow> bool" where
  "db_is_empty db \<longleftrightarrow> db_len db = 0"

definition set_csn_floor :: "csn \<Rightarrow> database \<Rightarrow> database" where
  "set_csn_floor c db = db\<lparr>db_csn := set_floor c (db_csn db)\<rparr>"

definition db_snapshot :: "database \<Rightarrow> snapshot" where
  "db_snapshot db = snapshot (db_csn db)"

definition db_pin :: "database \<Rightarrow> csn \<times> database" where
  "db_pin db = (let (c, g) = pin (db_csn db) in (c, db\<lparr>db_csn := g\<rparr>))"

text \<open>Dropping the guard of a pin.\<close>

definition db_release :: "csn \<Rightarrow> database \<Rightarrow> database" where
  "db_release c db = db\<lparr>db_csn := release c (db_csn db)\<rparr>"

definition db_gc_horizon :: "database \<Rightarrow> csn" where
  "db_gc_horizon db = gc_horizon (db_csn db)"

text \<open>Visiting the tables in the order of their names.\<close>

fun each_table :: "(table \<Rightarrow> ('a \<times> table) option) \<Rightarrow> string list \<Rightarrow> database \<Rightarrow> ('a list \<times> database) option" where
  "each_table f [] db = Some ([], db)"
| "each_table f (n # ns) db =
     (case db_table n db of
        Inl _ \<Rightarrow> None
      | Inr t \<Rightarrow> do {
          (x, t) \<leftarrow> f t;
          (xs, db) \<leftarrow> each_table f ns (db_store n t db);
          Some (x # xs, db) })"

definition seal_all :: "arrow \<Rightarrow> database \<Rightarrow> database option" where
  "seal_all A db = map_option snd (each_table (\<lambda>t. map_option (Pair ()) (tb_seal A t)) (table_names db) db)"

definition compact_all :: "arrow \<Rightarrow> csn \<Rightarrow> database \<Rightarrow> (nat \<times> database) option" where
  "compact_all A horizon db = map_option (map_prod sum_list id) (each_table (maybe_compact A horizon) (table_names db) db)"

section \<open>The invariant\<close>

definition db_versions :: "string \<Rightarrow> database \<Rightarrow> version multiset" where
  "db_versions n db = (case bt_get str_cmp n (db_tables db) of Some t \<Rightarrow> tb_versions t | None \<Rightarrow> {#})"

definition db_ok :: "csn \<Rightarrow> database \<Rightarrow> bool" where
  "db_ok f db \<longleftrightarrow>
     sk.bt_ok (db_tables db) \<and> 0 < cg_next (db_csn db) \<and> current (db_csn db) \<noteq> NEVER_DELETED \<and> f \<le> current (db_csn db) \<and>
     tc_seal_threshold (db_config db) < 2 ^ 32 \<and>
     (\<forall>n t. bt_get str_cmp n (db_tables db) = Some t \<longrightarrow> table_ok f (attach db t) \<and> tb_name t = n)"

lemma attach_simps [simp]:
  "tb_csn (attach db t) = db_csn db" "tb_metrics (attach db t) = db_metrics db" "tb_inner (attach db t) = tb_inner t"
  "tb_schema (attach db t) = tb_schema t" "tb_name (attach db t) = tb_name t" "tb_config (attach db t) = tb_config t"
  "tb_versions (attach db t) = tb_versions t"
  by (simp_all add: attach_def tb_versions_def)

lemma db_table_iff: "db_table n db = Inr t \<longleftrightarrow> (\<exists>u. bt_get str_cmp n (db_tables db) = Some u \<and> t = attach db u)"
  by (auto simp: db_table_def split: option.split)

lemma db_table_ok: "db_ok f db \<Longrightarrow> db_table n db = Inr t \<Longrightarrow> table_ok f t \<and> tb_csn t = db_csn db \<and> tb_name t = n"
  by (auto simp: db_table_iff db_ok_def)

lemma db_versions_table: "db_table n db = Inr t \<Longrightarrow> db_versions n db = tb_versions t"
  by (auto simp: db_table_iff db_versions_def)

lemma bt_get_str: "sk.bt_ok m \<Longrightarrow> bt_get str_cmp n (bt_insert str_cmp k v m) = (if n = k then Some v else bt_get str_cmp n m)"
  by (simp add: sk.bt_get_insert)

text \<open>Time passes: a table stays well formed when only the clock moved on.\<close>

lemma table_ok_later:
  assumes "table_ok f t" "tb_inner t' = tb_inner t" "tb_schema t' = tb_schema t" "tb_config t' = tb_config t"
    "tb_now t \<le> tb_now t'" "tb_now t' \<noteq> NEVER_DELETED" "0 < cg_next (tb_csn t')"
  shows "table_ok f t'"
  using assms store_ok_mono [of "tb_ki t" f "tb_now t" "tb_versions t" "tb_now t'"]
  by (simp add: table_ok_def tb_versions_def)

text \<open>The number below which history may be reclaimed can be raised.\<close>

lemma table_ok_raise: "table_ok f t \<Longrightarrow> f \<le> h \<Longrightarrow> h \<le> tb_now t \<Longrightarrow> table_ok h t"
  by (auto simp: table_ok_def store_ok_def intro: order_trans)

lemma db_ok_raise: "db_ok f db \<Longrightarrow> f \<le> h \<Longrightarrow> h \<le> current (db_csn db) \<Longrightarrow> db_ok h db"
  using table_ok_raise by (fastforce simp: db_ok_def)

lemma set_bt_insert_keys: "sk.bt_ok m \<Longrightarrow> fst ` set (bt_insert str_cmp k v m) = insert k (fst ` set m)"
  by (auto simp: sk.set_bt_insert image_iff)

lemma db_store_ok:
  assumes db: "db_ok f db" "db_table n db = Inr t" and t': "table_ok f t'" "tb_frame t t'" "tb_now t \<le> tb_now t'"
  shows "db_ok f (db_store n t' db)" "\<And>k. db_versions k (db_store n t' db) = (if k = n then tb_versions t' else db_versions k db)"
    "fst ` set (db_tables (db_store n t' db)) = fst ` set (db_tables db)"
proof -
  have bt: "sk.bt_ok (db_tables db)" using db(1) by (simp add: db_ok_def)
  note D = db_table_ok [OF db]
  obtain u where u: "bt_get str_cmp n (db_tables db) = Some u" "t = attach db u" using db(2) by (auto simp: db_table_iff)
  let ?db = "db_store n t' db"
  have now: "current (db_csn db) \<le> tb_now t'" "tb_now t' \<noteq> NEVER_DELETED" "0 < cg_next (tb_csn t')" "f \<le> tb_now t'"
    using t' D table_okD [OF t'(1)] by auto
  have same: "attach ?db t' = t'" by (simp add: attach_def db_store_def)
  have other: "table_ok f (attach ?db v)" if "bt_get str_cmp k (db_tables db) = Some v" for k v
  proof (rule table_ok_later)
    show "table_ok f (attach db v)" using db(1) that by (simp add: db_ok_def)
  qed (use now in \<open>simp_all add: db_store_def\<close>)
  have get: "bt_get str_cmp k (db_tables ?db) = (if k = n then Some t' else bt_get str_cmp k (db_tables db))" for k
    using bt by (simp add: db_store_def bt_get_str)
  have "table_ok f (attach ?db v) \<and> tb_name v = k" if "bt_get str_cmp k (db_tables ?db) = Some v" for k v
  proof (cases "k = n")
    case True
    then show ?thesis using that same t'(1,2) D by (simp add: get tb_frame_def)
  next
    case False
    then show ?thesis using that other [of k v] db(1) by (simp add: get db_ok_def)
  qed
  moreover have "sk.bt_ok (db_tables ?db)" "db_csn ?db = tb_csn t'" "db_config ?db = db_config db"
    using bt by (simp_all add: db_store_def sk.bt_ok_insert)
  ultimately show "db_ok f ?db" using db(1) now by (simp add: db_ok_def)
  show "\<And>k. db_versions k ?db = (if k = n then tb_versions t' else db_versions k db)"
    using bt by (simp add: db_versions_def db_store_def bt_get_str)
  have "n \<in> fst ` set (db_tables db)"
    using u(1) sk.bt_get_map_of [OF bt, of n] by (auto simp: image_iff dest!: map_of_SomeD) force
  then show "fst ` set (db_tables ?db) = fst ` set (db_tables db)"
    using bt by (auto simp: db_store_def set_bt_insert_keys)
qed

text \<open>What visiting every table keeps: the clock, the catalog, and a relation \<open>K\<close> of the versions.\<close>

type_synonym version_rel = "version multiset \<Rightarrow> version multiset \<Rightarrow> bool"

definition kept :: "csn \<Rightarrow> version_rel \<Rightarrow> table \<Rightarrow> table \<Rightarrow> bool" where
  "kept f K t t' \<longleftrightarrow> table_ok f t' \<and> tb_frame t t' \<and> tb_csn t' = tb_csn t \<and> K (tb_versions t) (tb_versions t')"

definition db_kept :: "csn \<Rightarrow> version_rel \<Rightarrow> database \<Rightarrow> database \<Rightarrow> bool" where
  "db_kept f K db db' \<longleftrightarrow>
     db_ok f db' \<and> db_csn db' = db_csn db \<and> db_config db' = db_config db \<and> fst ` set (db_tables db') = fst ` set (db_tables db) \<and>
     (\<forall>n. K (db_versions n db) (db_versions n db'))"

lemma each_table_ok:
  assumes refl: "\<And>M. K M M" and trans: "\<And>L M N. K L M \<Longrightarrow> K M N \<Longrightarrow> K L N" and step: "\<And>t. table_ok f t \<Longrightarrow> Q (tb_inner t) \<Longrightarrow> \<exists>x t'. g t = Some (x, t') \<and> kept f K t t' \<and> R t'"
  shows "db_ok f db \<Longrightarrow> distinct ns \<Longrightarrow> \<forall>n \<in> set ns. \<exists>t. bt_get str_cmp n (db_tables db) = Some t \<and> Q (tb_inner t) \<Longrightarrow>
    \<exists>xs db'. each_table g ns db = Some (xs, db') \<and> db_kept f K db db' \<and>
      (\<forall>n. n \<notin> set ns \<longrightarrow> bt_get str_cmp n (db_tables db') = bt_get str_cmp n (db_tables db)) \<and>
      (\<forall>n \<in> set ns. \<exists>t. bt_get str_cmp n (db_tables db') = Some t \<and> R t)"
proof (induction ns arbitrary: db)
  case Nil
  then show ?case by (simp add: db_kept_def refl)
next
  case (Cons n ns)
  obtain u where u: "bt_get str_cmp n (db_tables db) = Some u" "Q (tb_inner u)" using Cons.prems(3) by auto
  then have t: "db_table n db = Inr (attach db u)" by (simp add: db_table_def)
  then have ok: "table_ok f (attach db u)" using db_table_ok [OF Cons.prems(1)] by blast
  obtain x t' where x: "g (attach db u) = Some (x, t')" "kept f K (attach db u) t'" "R t'" using step [OF ok] u(2) by auto
  let ?db = "db_store n t' db"
  have bt: "sk.bt_ok (db_tables db)" using Cons.prems(1) by (simp add: db_ok_def)
  have get: "bt_get str_cmp k (db_tables ?db) = (if k = n then Some t' else bt_get str_cmp k (db_tables db))" for k
    using bt by (simp add: db_store_def bt_get_str)
  have kt: "table_ok f t'" "tb_frame (attach db u) t'" "tb_now (attach db u) \<le> tb_now t'" "tb_csn t' = db_csn db"
    using x(2) by (auto simp: kept_def)
  note S = db_store_ok [OF Cons.prems(1) t kt(1-3)]
  have "\<forall>k \<in> set ns. \<exists>t. bt_get str_cmp k (db_tables ?db) = Some t \<and> Q (tb_inner t)"
    using Cons.prems(2,3) by (auto simp: get)
  then obtain xs db' where r: "each_table g ns ?db = Some (xs, db')" "db_kept f K ?db db'"
      "\<And>k. k \<notin> set ns \<Longrightarrow> bt_get str_cmp k (db_tables db') = bt_get str_cmp k (db_tables ?db)"
      "\<forall>k \<in> set ns. \<exists>t. bt_get str_cmp k (db_tables db') = Some t \<and> R t"
    using Cons.IH [OF S(1)] Cons.prems(2) by (auto simp del: db_store_def)
  have st: "db_csn ?db = db_csn db" "db_config ?db = db_config db" using kt(4) by (simp_all add: db_store_def)
  have v: "K (db_versions k db) (db_versions k ?db)" for k
  proof -
    have "db_versions n db = tb_versions u" using u(1) by (simp add: db_versions_def)
    then show ?thesis using x(2) refl by (simp add: S(2) kept_def)
  qed
  have "db_kept f K db db'" using r(2) S(3) st v trans unfolding db_kept_def by metis
  moreover have "n \<notin> set ns" using Cons.prems(2) by simp
  ultimately show ?case using r x(3) get t x(1) by (auto simp: db_store_def)
qed

lemma names_distinct: "sk.bt_ok m \<Longrightarrow> distinct (map fst m)"
  by (induction m) (auto simp: sk.bt_ok_Cons sk.lt_def)

lemma mem_names: "sk.bt_ok m \<Longrightarrow> n \<in> fst ` set m \<longleftrightarrow> (\<exists>t. bt_get str_cmp n m = Some t)"
  using dom_map_of_conv_image_fst [of m] by (auto simp: sk.bt_get_map_of dom_def)

lemma bt_get_mem: "sk.bt_ok m \<Longrightarrow> bt_get str_cmp n m = Some t \<Longrightarrow> (n, t) \<in> set m"
  by (simp add: sk.bt_get_map_of map_of_SomeD)

definition db_all :: "(table_inner \<Rightarrow> bool) \<Rightarrow> database \<Rightarrow> bool" where
  "db_all Q db \<longleftrightarrow> (\<forall>p \<in> set (db_tables db). Q (tb_inner (snd p)))"

lemma every_table_ok:
  assumes "\<And>M. K M M" "\<And>L M N. K L M \<Longrightarrow> K M N \<Longrightarrow> K L N"
    and "\<And>t. table_ok f t \<Longrightarrow> Q (tb_inner t) \<Longrightarrow> \<exists>x t'. g t = Some (x, t') \<and> kept f K t t' \<and> R t'"
    and "db_ok f db" "db_all Q db"
  obtains xs db' where "each_table g (table_names db) db = Some (xs, db')" "db_kept f K db db'"
    "\<And>n t. bt_get str_cmp n (db_tables db') = Some t \<Longrightarrow> R t"
proof -
  have bt: "sk.bt_ok (db_tables db)" using assms(4) by (simp add: db_ok_def)
  have names: "set (table_names db) = fst ` set (db_tables db)" by (simp add: table_names_def)
  have "\<forall>n \<in> set (table_names db). \<exists>t. bt_get str_cmp n (db_tables db) = Some t \<and> Q (tb_inner t)"
  proof
    fix n assume "n \<in> set (table_names db)"
    then obtain t where t: "bt_get str_cmp n (db_tables db) = Some t" using mem_names [OF bt] names by auto
    then show "\<exists>t. bt_get str_cmp n (db_tables db) = Some t \<and> Q (tb_inner t)"
      using bt_get_mem [OF bt t] assms(5) by (force simp: db_all_def)
  qed
  note Q = this
  have dist: "distinct (table_names db)" using names_distinct [OF bt] by (simp add: table_names_def)
  have "\<exists>xs db'. each_table g (table_names db) db = Some (xs, db') \<and> db_kept f K db db' \<and>
      (\<forall>n. n \<notin> set (table_names db) \<longrightarrow> bt_get str_cmp n (db_tables db') = bt_get str_cmp n (db_tables db)) \<and>
      (\<forall>n \<in> set (table_names db). \<exists>t. bt_get str_cmp n (db_tables db') = Some t \<and> R t)"
  proof (rule each_table_ok [OF assms(1) _ _ assms(4) dist Q])
    show "K L M \<Longrightarrow> K M N \<Longrightarrow> K L N" for L M N by (rule assms(2))
    show "\<exists>x t'. g t = Some (x, t') \<and> kept f K t t' \<and> R t'" if "table_ok f t" "Q (tb_inner t)" for t
      using that by (rule assms(3))
  qed
  then obtain xs db' where d: "each_table g (table_names db) db = Some (xs, db')" "db_kept f K db db'"
    "\<forall>n. n \<notin> set (table_names db) \<longrightarrow> bt_get str_cmp n (db_tables db') = bt_get str_cmp n (db_tables db)"
    "\<forall>n \<in> set (table_names db). \<exists>t. bt_get str_cmp n (db_tables db') = Some t \<and> R t"
    by blast
  have "R t" if "bt_get str_cmp n (db_tables db') = Some t" for n t
  proof -
    have "n \<in> set (table_names db)"
      using that d(2) mem_names [of "db_tables db'" n] names by (auto simp: db_kept_def db_ok_def)
    then show ?thesis using d(4) that by auto
  qed
  then show thesis using that d(1,2) by blast
qed

definition part_room :: "table_inner \<Rightarrow> bool" where
  "part_room i \<longleftrightarrow> ti_next_part_id i \<noteq> - 1 \<and> sum_list (map (\<lambda>p. b_len (p_batch p)) (ti_parts i)) < 2 ^ 32"

lemma seal_all_ok:
  assumes A: "arrow_ok A" and db: "db_ok f db" "db_all part_room db"
  obtains db' where "seal_all A db = Some db'" "db_kept f (=) db db'"
    "\<And>n t. bt_get str_cmp n (db_tables db') = Some t \<Longrightarrow> l0_entries (ti_l0 (tb_inner t)) = []"
proof -
  have "\<exists>x t'. map_option (Pair ()) (tb_seal A t) = Some (x, t') \<and> kept f (=) t t' \<and> l0_entries (ti_l0 (tb_inner t')) = []"
    if "table_ok f t" "part_room (tb_inner t)" for t
    using seal_ok [OF A that(1)] that(2) by (fastforce simp: part_room_def kept_def)
  from every_table_ok [OF _ _ this db] obtain xs db' where
    "each_table (\<lambda>t. map_option (Pair ()) (tb_seal A t)) (table_names db) db = Some (xs, db')" "db_kept f (=) db db'"
    "\<And>n t. bt_get str_cmp n (db_tables db') = Some t \<Longrightarrow> l0_entries (ti_l0 (tb_inner t)) = []"
    by (metis (full_types))
  then show thesis by (intro that) (simp_all add: seal_all_def)
qed

definition same_views :: "csn \<Rightarrow> version_rel" where
  "same_views h M N \<longleftrightarrow> (\<forall>snap. h \<le> snap \<longrightarrow> snap \<noteq> NEVER_DELETED \<longrightarrow> view snap N = view snap M)"

lemma compact_all_ok:
  assumes A: "arrow_ok A" and db: "db_ok f db" "db_all part_room db" and h: "f \<le> h" "h \<le> current (db_csn db)"
  obtains n db' where "compact_all A h db = Some (n, db')" "db_kept h (same_views h) db db'"
proof -
  have ok: "db_ok h db" by (rule db_ok_raise [OF db(1) h])
  have step: "\<exists>x t'. maybe_compact A h t = Some (x, t') \<and> kept h (same_views h) t t' \<and> True"
    if "table_ok h t" "part_room (tb_inner t)" for t
    using compact_ok [OF A that(1), of h] that table_okD(5) [OF that(1)]
    by (fastforce simp: part_room_def kept_def rearranged_def same_views_def)
  obtain xs db' where "each_table (maybe_compact A h) (table_names db) db = Some (xs, db')" "db_kept h (same_views h) db db'"
    by (rule every_table_ok [of "same_views h", OF _ _ step ok db(2)]) (auto simp: same_views_def)
  then show thesis by (intro that) (simp_all add: compact_all_def)
qed

section \<open>The catalog operations\<close>

definition good_schema :: "schema \<Rightarrow> bool" where
  "good_schema s \<longleftrightarrow> schema_ok s \<and> decimals_ok s \<and> (sc_synthetic_key s \<longrightarrow> key_ty s = TInt)"

lemma table_ok_schema: "table_ok f t \<Longrightarrow> good_schema (tb_schema t)"
  using table_okD(1) [of f t] by (simp add: good_schema_def inner_ok_def)

lemma with_config_ok: "tc_seal_threshold cfg < 2 ^ 32 \<Longrightarrow> db_ok 0 (with_config cfg)"
  by (simp add: db_ok_def with_config_def csn_new_def FIRST_CSN_def current_def NEVER_DELETED_def)

text \<open>Putting a fresh table under a name, as creation and truncation do.\<close>

definition fresh_table :: "string \<Rightarrow> schema \<Rightarrow> database \<Rightarrow> database" where
  "fresh_table name s db = db\<lparr>db_tables := bt_insert str_cmp name (table_new name s (db_csn db) (db_metrics db) (db_config db)) (db_tables db)\<rparr>"

lemma fresh_table_ok:
  assumes "db_ok f db" "good_schema s"
  shows "db_ok f (fresh_table name s db)" "db_csn (fresh_table name s db) = db_csn db"
    "db_versions n (fresh_table name s db) = (if n = name then {#} else db_versions n db)"
proof -
  let ?t = "table_new name s (db_csn db) (db_metrics db) (db_config db)" and ?db = "fresh_table name s db"
  have bt: "sk.bt_ok (db_tables db)" using assms(1) by (simp add: db_ok_def)
  have get: "bt_get str_cmp n (db_tables ?db) = (if n = name then Some ?t else bt_get str_cmp n (db_tables db))" for n
    using bt by (simp add: fresh_table_def bt_get_str)
  have at: "attach ?db u = attach db u" "db_csn ?db = db_csn db" "db_config ?db = db_config db" for u
    by (simp_all add: attach_def fresh_table_def)
  have "table_ok 0 ?t" using assms by (intro table_new_ok) (auto simp: good_schema_def db_ok_def)
  moreover have "tb_now ?t = current (db_csn db)" "attach db ?t = ?t" by (simp_all add: table_new_def attach_def)
  ultimately have "table_ok f (attach db ?t)" using assms(1) table_ok_raise [of 0 ?t f] by (simp add: db_ok_def)
  moreover have "tb_name ?t = name" by (simp add: table_new_def)
  ultimately have "table_ok f (attach ?db u) \<and> tb_name u = n" if "bt_get str_cmp n (db_tables ?db) = Some u" for n u
    using that assms(1) by (auto simp: get at db_ok_def split: if_splits)
  moreover have "sk.bt_ok (db_tables ?db)" using bt by (simp add: fresh_table_def sk.bt_ok_insert)
  ultimately show "db_ok f ?db" using assms(1) at(2,3) by (simp add: db_ok_def)
  show "db_csn ?db = db_csn db" by (rule at)
  show "db_versions n ?db = (if n = name then {#} else db_versions n db)"
    by (simp add: db_versions_def get) (simp add: table_new_def tb_versions_def ti_versions_def l0_new_def)
qed

lemma create_schema_cases:
  "create_table_schema name s db =
    (if bt_get str_cmp name (db_tables db) \<noteq> None then (Inl (TableExists name), db)
     else (Inr (table_new name s (db_csn db) (db_metrics db) (db_config db)), fresh_table name s db))"
  by (simp add: create_table_schema_def create_table_full_def fresh_table_def Let_def)

lemma truncate_cases:
  "db_truncate name db = (case bt_get str_cmp name (db_tables db) of
     None \<Rightarrow> (Inl (TableNotFound name), db) | Some old \<Rightarrow> (Inr (), fresh_table name (tb_schema old) db))"
  by (simp add: db_truncate_def fresh_table_def Let_def split: option.split)

lemma drop_ok:
  assumes "db_ok f db" "db_drop_table name db = (res, db')"
  shows "db_ok f db'" "db_csn db' = db_csn db" "n \<noteq> name \<Longrightarrow> db_versions n db' = db_versions n db"
proof -
  have bt: "sk.bt_ok (db_tables db)" using assms(1) by (simp add: db_ok_def)
  have c: "db' = db \<or> db' = db\<lparr>db_tables := bt_remove str_cmp name (db_tables db)\<rparr>"
    using assms(2) by (auto simp: db_drop_table_def split: option.splits)
  have at: "attach (db\<lparr>db_tables := m\<rparr>) u = attach db u" for m u by (simp add: attach_def)
  show "db_ok f db'"
    using c assms(1) bt by (auto simp: db_ok_def at sk.bt_get_remove sk.bt_ok_remove split: if_splits)
  show "db_csn db' = db_csn db" "n \<noteq> name \<Longrightarrow> db_versions n db' = db_versions n db"
    using c bt by (auto simp: db_versions_def sk.bt_get_remove)
qed

section \<open>The machine\<close>

text \<open>
  Writes to any table, sealing and compaction of all tables, pins, and catalog operations, interleaved.
  \<open>S\<close> names the tables under observation: tables outside it may be dropped and truncated.
\<close>

inductive table_op :: "arrow \<Rightarrow> table \<Rightarrow> table \<Rightarrow> bool" for A where
  top_insert: "row_ok (tb_schema t) r \<Longrightarrow> tb_insert A r t = Some (res, t') \<Longrightarrow> table_op A t t'"
| top_upsert: "row_ok (tb_schema t) r \<Longrightarrow> tb_upsert A r t = Some (res, t') \<Longrightarrow> table_op A t t'"
| top_update: "row_ok (tb_schema t) r \<Longrightarrow> tb_update A r t = Some (res, t') \<Longrightarrow> table_op A t t'"
| top_delete: "key \<in> tb_keys t \<Longrightarrow> tb_delete key t = Some (res, t') \<Longrightarrow> table_op A t t'"
| top_seal: "tb_seal A t = Some t' \<Longrightarrow> table_op A t t'"

type_synonym db_sys = "database \<times> csn multiset"

inductive db_step :: "arrow \<Rightarrow> string set \<Rightarrow> db_sys \<Rightarrow> db_sys \<Rightarrow> bool" for A S where
  dbs_write: "db_table n db = Inr t \<Longrightarrow> can_write t \<Longrightarrow> table_op A t t' \<Longrightarrow> db_step A S (db, L) (db_store n t' db, L)"
| dbs_seal_all: "db_all part_room db \<Longrightarrow> seal_all A db = Some db' \<Longrightarrow> db_step A S (db, L) (db', L)"
| dbs_compact: "db_all part_room db \<Longrightarrow> compact_all A (db_gc_horizon db) db = Some (k, db') \<Longrightarrow> db_step A S (db, L) (db', L)"
| dbs_create: "good_schema s \<Longrightarrow> create_table_schema n s db = (res, db') \<Longrightarrow> db_step A S (db, L) (db', L)"
| dbs_drop: "n \<notin> S \<Longrightarrow> db_drop_table n db = (res, db') \<Longrightarrow> db_step A S (db, L) (db', L)"
| dbs_truncate: "n \<notin> S \<Longrightarrow> db_truncate n db = (res, db') \<Longrightarrow> db_step A S (db, L) (db', L)"
| dbs_pin: "size L + 1 < 2 ^ 64 \<Longrightarrow> db_pin db = (c, db') \<Longrightarrow> db_step A S (db, L) (db', add_mset c L)"
| dbs_release: "c \<in># L \<Longrightarrow> db_step A S (db, L) (db_release c db, L - {#c#})"

fun db_sys_ok :: "db_sys \<Rightarrow> bool" where
  "db_sys_ok (db, L) \<longleftrightarrow> csn_inv (db_csn db, L) \<and> db_ok (gc_horizon (db_csn db)) db"

fun db_pinned :: "db_sys \<Rightarrow> csn set" where
  "db_pinned (db, L) = set_mset L"

fun db_rows :: "string \<Rightarrow> csn \<Rightarrow> db_sys \<Rightarrow> row multiset" where
  "db_rows n c (db, L) = view c (db_versions n db)"

lemma table_op_advanced:
  assumes A: "arrow_ok A" and t: "table_ok f t" "can_write t" and op: "table_op A t t'"
  shows "table_ok f t'" "tb_frame t t'" "tb_csn t' = tb_csn t \<or> cg_next (tb_csn t) \<noteq> - 1 \<and> tb_csn t' = snd (allocate (tb_csn t))"
    "\<And>snap. snap \<le> tb_now t \<Longrightarrow> view snap (tb_versions t') = view snap (tb_versions t)"
proof -
  have "advanced f t t'" using op ops_advanced [OF A t] by cases auto
  then show "table_ok f t'" "tb_frame t t'" "tb_csn t' = tb_csn t \<or> cg_next (tb_csn t) \<noteq> - 1 \<and> tb_csn t' = snd (allocate (tb_csn t))"
    "\<And>snap. snap \<le> tb_now t \<Longrightarrow> view snap (tb_versions t') = view snap (tb_versions t)"
    by (auto simp: advanced_def)
qed

text \<open>Steps of the pins leave the clock's next number and the tables.\<close>

lemma db_sys_ok_pins:
  assumes ok: "db_sys_ok (db, L)" and st: "csn_step (db_csn db, L) (g, L')" "cg_next g = cg_next (db_csn db)"
  shows "db_sys_ok (db\<lparr>db_csn := g\<rparr>, L')" "db_versions n (db\<lparr>db_csn := g\<rparr>) = db_versions n db"
proof -
  have inv: "csn_inv (db_csn db, L)" "db_ok (gc_horizon (db_csn db)) db" using ok by auto
  have inv': "csn_inv (g, L')" using csn_inv_step [OF st(1) inv(1)] .
  have cur: "current g = current (db_csn db)" using st(2) by (simp add: current_def)
  have gc: "gc_horizon (db_csn db) \<le> gc_horizon g" using gc_horizon_mono [OF st(1) inv(1)] by simp
  have "db_ok (gc_horizon g) db" using db_ok_raise [OF inv(2) gc] gc_horizon_le(1) [OF inv'] cur by simp
  moreover have "table_ok f (attach (db\<lparr>db_csn := g\<rparr>) t) = table_ok f (attach db t)" for f t
    using st(2) cur by (simp add: table_ok_def)
  ultimately have "db_ok (gc_horizon g) (db\<lparr>db_csn := g\<rparr>)" using st(2) cur by (simp add: db_ok_def)
  then show "db_sys_ok (db\<lparr>db_csn := g\<rparr>, L')" using inv' by simp
  show "db_versions n (db\<lparr>db_csn := g\<rparr>) = db_versions n db" by (simp add: db_versions_def)
qed

lemma pinned_past:
  assumes "csn_inv (g, L)" "c \<in># L"
  shows "c \<le> current g"
  using assms less_next_iff [of g c] by (auto simp: csn_inv_def)

lemma db_step_ok:
  assumes A: "arrow_ok A" and ok: "db_sys_ok s" and st: "db_step A S s s'"
  shows "db_sys_ok s' \<and> (\<forall>n \<in> S. \<forall>c \<in> db_pinned s. db_rows n c s' = db_rows n c s)"
  using st ok
proof cases
  case (dbs_write n db t t' L)
  have inv: "csn_inv (db_csn db, L)" "db_ok (gc_horizon (db_csn db)) db" using ok dbs_write(1) by auto
  note D = db_table_ok [OF inv(2) dbs_write(3)]
  have t: "table_ok (gc_horizon (db_csn db)) t" "tb_csn t = db_csn db" using D by auto
  note O = table_op_advanced [OF A t(1) dbs_write(4,5)]
  have csn: "db_csn (db_store n t' db) = tb_csn t'" by (simp add: db_store_def)
  have K: "csn_inv (tb_csn t', L)" "gc_horizon (db_csn db) \<le> gc_horizon (tb_csn t')" "tb_now t \<le> tb_now t'"
    using clock_step [OF inv(1) O(3) [unfolded t(2)]] t(2) by auto
  note S = db_store_ok [OF inv(2) dbs_write(3) O(1,2) K(3)]
  have "gc_horizon (tb_csn t') \<le> tb_now t'" using gc_horizon_le(1) [OF K(1)] .
  then have "db_ok (gc_horizon (tb_csn t')) (db_store n t' db)"
    using db_ok_raise [OF S(1) K(2)] by (simp add: csn)
  moreover have "view c (db_versions k (db_store n t' db)) = view c (db_versions k db)" if "c \<in># L" for c k
    using O(4) [of c] pinned_past [OF inv(1) that] t(2) db_versions_table [OF dbs_write(3)] by (simp add: S(2))
  ultimately show ?thesis using dbs_write(1,2) K(1) csn by auto
next
  case (dbs_seal_all db db' L)
  have inv: "csn_inv (db_csn db, L)" "db_ok (gc_horizon (db_csn db)) db" using ok dbs_seal_all(1) by auto
  obtain d where d: "seal_all A db = Some d" "db_kept (gc_horizon (db_csn db)) (=) db d"
    by (rule seal_all_ok [OF A inv(2) dbs_seal_all(3)])
  then have "d = db'" using dbs_seal_all(4) by simp
  then show ?thesis using d(2) inv dbs_seal_all(1,2) by (auto simp: db_kept_def)
next
  case (dbs_compact db k db' L)
  let ?h = "gc_horizon (db_csn db)"
  have inv: "csn_inv (db_csn db, L)" "db_ok ?h db" using ok dbs_compact(1) by auto
  have h: "?h \<le> current (db_csn db)" using gc_horizon_le(1) [OF inv(1)] .
  obtain m d where d: "compact_all A ?h db = Some (m, d)" "db_kept ?h (same_views ?h) db d"
    by (rule compact_all_ok [OF A inv(2) dbs_compact(3) order_refl h])
  then have "d = db'" using dbs_compact(4) by (simp add: db_gc_horizon_def)
  moreover have "c \<noteq> NEVER_DELETED" if "c \<in># L" for c
    using pinned_past [OF inv(1) that] inv(2) by (auto simp: db_ok_def order.order_iff_strict)
  moreover have "?h \<le> c" if "c \<in># L" for c using gc_horizon_le(2) [OF inv(1) that] .
  ultimately show ?thesis using d(2) inv dbs_compact(1,2) by (auto simp: db_kept_def same_views_def)
next
  case (dbs_create s n db res db' L)
  have inv: "csn_inv (db_csn db, L)" "db_ok (gc_horizon (db_csn db)) db" using ok dbs_create(1) by auto
  have "db' = db \<or> bt_get str_cmp n (db_tables db) = None \<and> db' = fresh_table n s db"
    using dbs_create(4) by (auto simp: create_schema_cases split: if_splits)
  moreover have "db_versions n db = {#}" if "bt_get str_cmp n (db_tables db) = None" using that by (simp add: db_versions_def)
  ultimately show ?thesis using fresh_table_ok [OF inv(2) dbs_create(3), where name = n] inv dbs_create(1,2) by auto
next
  case (dbs_drop n db res db' L)
  have inv: "csn_inv (db_csn db, L)" "db_ok (gc_horizon (db_csn db)) db" using ok dbs_drop(1) by auto
  note D = drop_ok [OF inv(2) dbs_drop(4)]
  have "db_versions k db' = db_versions k db" if "k \<in> S" for k using D(3) [of k] that dbs_drop(3) by metis
  then show ?thesis using D(1,2) inv dbs_drop(1,2) by auto
next
  case (dbs_truncate n db res db' L)
  have inv: "csn_inv (db_csn db, L)" "db_ok (gc_horizon (db_csn db)) db" using ok dbs_truncate(1) by auto
  have "db' = db \<or> (\<exists>s. good_schema s \<and> db' = fresh_table n s db)"
    using dbs_truncate(4) inv(2) table_ok_schema by (fastforce simp: truncate_cases db_ok_def split: option.splits)
  then show ?thesis using fresh_table_ok [OF inv(2), where name = n] inv dbs_truncate(1-3) by auto
next
  case (dbs_pin L db c db')
  obtain g where g: "pin (db_csn db) = (c, g)" "db' = db\<lparr>db_csn := g\<rparr>"
    using dbs_pin(4) by (auto simp: db_pin_def split: prod.splits)
  have "csn_step (db_csn db, L) (g, add_mset c L)" by (rule step_pin [OF dbs_pin(3) g(1)])
  moreover have "cg_next g = cg_next (db_csn db)" using g(1) by (auto simp: pin_def Let_def)
  ultimately show ?thesis using db_sys_ok_pins [OF ok [unfolded dbs_pin(1)]] dbs_pin(1,2) g(2) by auto
next
  case (dbs_release c L db)
  have "csn_step (db_csn db, L) (release c (db_csn db), L - {#c#})" by (rule step_drop [OF dbs_release(3)])
  moreover have "cg_next (release c (db_csn db)) = cg_next (db_csn db)" by (simp add: release_def split: option.split)
  ultimately show ?thesis using db_sys_ok_pins [OF ok [unfolded dbs_release(1)]] dbs_release(1,2) by (auto simp: db_release_def)
qed

interpretation cat: snapshot_store "db_step A S" "\<lambda>s. arrow_ok A \<and> n \<in> S \<and> db_sys_ok s" db_pinned "db_rows n" for A S n
  by unfold_locales (use db_step_ok in blast)+

lemma db_sys_init: "tc_seal_threshold cfg < 2 ^ 32 \<Longrightarrow> db_sys_ok (with_config cfg, {#})"
  using with_config_ok [of cfg] csn_inv_init by (simp add: with_config_def csn_new_def gc_horizon_def FIRST_CSN_def current_def)

section \<open>Properties\<close>


text \<open>A catalog with one table and one pin, for the worked instance.\<close>

definition sample_db :: database where
  "sample_db = snd (db_pin (snd (create_table_schema ''t'' sample_schema database_new)))"


end
