(* ===== verification/Ck_Storage.thy ===== *)
theory Ck_Storage
  imports Ck_Database Ck_WalRace Ck_Manifest Ck_Pager Ck_Backpressure "HOL-Library.AList"
begin

text \<open>
  \<open>src/src/storage.rs\<close> and \<open>src/src/storage_config.rs\<close>: the durable store, that is a catalog, the
  write-ahead log, the manifest and the part files, with the operations that keep them together.  The file system is
  part of the state.  A hash map whose entries are visited is an association list; the order of
  visits does not matter, since it is used only to remove files.

  \<open>None\<close> is a panic, or a wait for a sync that never ends; it cannot happen between the sequential
  operations of one store.  The reports and statistics are kept only as far as they steer
  recovery.
\<close>

section \<open>State\<close>

record storage_config =
  so_durability :: durability
  so_table :: table_config
  so_backpressure :: backpressure_config
  so_checkpoint_wal_bytes :: nat

definition storage_config_default :: storage_config where
  "storage_config_default = \<lparr>so_durability = Group, so_table = default_config, so_backpressure = bc_default,
     so_checkpoint_wal_bytes = 4 * 1024 * 1024\<rparr>"

record recovery_report =
  re_tables_loaded :: nat
  re_parts_loaded :: nat
  re_rows_from_parts :: nat
  re_wal_records_replayed :: nat
  re_wal_bytes_scanned :: nat
  re_truncated_tail :: bool
  re_recovered_csn :: csn
  re_parts_registered_lazily :: nat

type_synonym pending = "(string \<times> u64 \<times> paged_part list) list"

record storage =
  st_io :: mem_io
  st_db :: database
  st_wal :: wal
  st_manifest :: manifest
  st_state :: manifest_state
  st_table_ids :: "string \<rightharpoonup> u32"
  st_config :: storage_config
  st_report :: recovery_report
  st_pager :: pager_metrics
  st_pending :: pending
  st_warmed :: bool
  st_persisted :: "((u32 \<times> u64) \<times> csn) list"

definition WAL_PATH :: string where "WAL_PATH = ''wal.log''"
definition MANIFEST_PATH :: string where "MANIFEST_PATH = ''MANIFEST''"

definition part_path :: "u32 \<Rightarrow> u64 \<Rightarrow> string" where
  "part_path table part = ''part-'' @ nat_digits (uint table) @ ''-'' @ nat_digits (uint part) @ ''.dat''"

section \<open>Faulting parts in\<close>

text \<open>A part that cannot be read any more is a panic.\<close>

fun load_parts :: "arrow \<Rightarrow> ipc \<Rightarrow> (part \<Rightarrow> u64) \<Rightarrow> paged_part list \<Rightarrow> pager_metrics \<Rightarrow> mem_io \<Rightarrow>
    (part list \<times> pager_metrics \<times> mem_io) option" where
  "load_parts A I mem [] m io = Some ([], m, io)"
| "load_parts A I mem (lp # lps) m io =
     (case pg_load A I mem lp m io of
        Some (Inr p, lp, m, io) \<Rightarrow> do { (ps, m, io) \<leftarrow> load_parts A I mem lps m io; Some (p # ps, m, io) }
      | _ \<Rightarrow> None)"

fun warm_tables :: "arrow \<Rightarrow> ipc \<Rightarrow> (part \<Rightarrow> u64) \<Rightarrow> pending \<Rightarrow> database \<Rightarrow> pager_metrics \<Rightarrow> mem_io \<Rightarrow>
    (database \<times> pager_metrics \<times> mem_io) option" where
  "warm_tables A I mem [] db m io = Some (db, m, io)"
| "warm_tables A I mem ((name, next_id, lazy) # pending) db m io =
     (case db_table name db of
        Inl _ \<Rightarrow> warm_tables A I mem pending db m io
      | Inr t \<Rightarrow> do {
          (parts, m, io) \<leftarrow> load_parts A I mem lazy m io;
          warm_tables A I mem pending (db_store name (install_parts parts next_id t) db) m io })"

definition warm :: "arrow \<Rightarrow> ipc \<Rightarrow> (part \<Rightarrow> u64) \<Rightarrow> storage \<Rightarrow> storage option" where
  "warm A I mem s =
     (if st_warmed s then Some s
      else do {
        (db, m, io) \<leftarrow> warm_tables A I mem (st_pending s) (st_db s) (st_pager s) (st_io s);
        Some (s\<lparr>st_db := db, st_pager := m, st_io := io, st_pending := [], st_warmed := True\<rparr>) })"

definition may_contain_key :: "string \<Rightarrow> value_t \<Rightarrow> storage \<Rightarrow> (bool \<times> storage) option" where
  "may_contain_key table key s =
     (if st_warmed s
      then (case db_table table (st_db s) of
              Inl _ \<Rightarrow> Some (False, s)
            | Inr t \<Rightarrow> do { (r, t) \<leftarrow> tb_get_latest key t; Some (r \<noteq> None, s\<lparr>st_db := db_store table t (st_db s)\<rparr>) })
      else Some (\<exists>(n, nx, parts) \<in> set (st_pending s). n = table \<and> (\<exists>p \<in> set parts. \<not> definitely_excludes key p), s))"

section \<open>Opening\<close>

fun register_parts :: "u32 \<Rightarrow> u64 list \<Rightarrow> pager_metrics \<Rightarrow> mem_io \<Rightarrow> (io_error + paged_part list) \<times> pager_metrics \<times> mem_io" where
  "register_parts tid [] m io = (Inr [], m, io)"
| "register_parts tid (pid # pids) m io =
     (let path = part_path tid pid
      in case read_part_summary path io of
           (Inl e, io) \<Rightarrow> (Inl e, m, io)
         | (Inr summary, io) \<Rightarrow>
             (let (pg, m) = pg_register summary path m
              in case register_parts tid pids m io of
                   (Inl e, m, io) \<Rightarrow> (Inl e, m, io)
                 | (Inr pgs, m, io) \<Rightarrow> (Inr (pg # pgs), m, io)))"

definition invalid_data :: "error \<Rightarrow> io_error" where
  "invalid_data e = InvalidData (Malformed (case e of TableExists n \<Rightarrow> ''table already exists: '' @ n | _ \<Rightarrow> ''''))"

fun load_tables :: "table_meta list \<Rightarrow> database \<Rightarrow> (string \<rightharpoonup> u32) \<Rightarrow> pager_metrics \<Rightarrow> mem_io \<Rightarrow>
    (io_error + pending \<times> database \<times> (string \<rightharpoonup> u32)) \<times> pager_metrics \<times> mem_io" where
  "load_tables [] db ids m io = (Inr ([], db, ids), m, io)"
| "load_tables (meta # metas) db ids m io =
     (case create_table_schema (tm_name meta) (tm_schema meta) db of
        (Inl e, db) \<Rightarrow> (Inl (invalid_data e), m, io)
      | (Inr _, db) \<Rightarrow>
          (case register_parts (tm_id meta) (tm_part_ids meta) m io of
             (Inl e, m, io) \<Rightarrow> (Inl e, m, io)
           | (Inr lazy, m, io) \<Rightarrow>
               (case load_tables metas db (ids(tm_name meta \<mapsto> tm_id meta)) m io of
                  (Inl e, m, io) \<Rightarrow> (Inl e, m, io)
                | (Inr (pending, db, ids), m, io) \<Rightarrow>
                    (Inr ((tm_name meta, tm_next_part_id meta, lazy) # pending, db, ids), m, io))))"

text \<open>Collecting pairs into a hash map: the last entry of a key wins.\<close>

definition names_by_id :: "manifest_state \<Rightarrow> u32 \<rightharpoonup> string" where
  "names_by_id st = map_of (rev (map (\<lambda>t. (tm_id t, tm_name t)) (ms_tables st)))"

fun replay_count :: "(u32 \<rightharpoonup> string) \<Rightarrow> wal_record \<Rightarrow> nat" where
  "replay_count ids (WInsert t _ _) = (if ids t = None then 0 else 1)"
| "replay_count ids (WDelete t _ _) = (if ids t = None then 0 else 1)"
| "replay_count ids (WTxn ops) = length ops"
| "replay_count ids _ = 0"

definition tail_records :: "csn \<Rightarrow> wal_record list \<Rightarrow> wal_record list" where
  "tail_records checkpoint rs = filter (\<lambda>r. checkpoint < rec_csn r) rs"

text \<open>Applying one logged write: an unknown table id or a dropped table is skipped.\<close>

definition replay_on :: "(u32 \<rightharpoonup> string) \<Rightarrow> u32 \<Rightarrow> (table \<Rightarrow> table option) \<Rightarrow> database \<Rightarrow> database option" where
  "replay_on ids tid f db =
     (case ids tid of
        None \<Rightarrow> Some db
      | Some n \<Rightarrow> (case db_table n db of Inl _ \<Rightarrow> Some db | Inr t \<Rightarrow> do { t \<leftarrow> f t; Some (db_store n t db) }))"

fun replay_ops :: "(u32 \<rightharpoonup> string) \<Rightarrow> txn_op list \<Rightarrow> database \<Rightarrow> database option" where
  "replay_ops ids [] db = Some db"
| "replay_ops ids (op # ops) db =
     do {
       db \<leftarrow> replay_on ids (op_table op)
               (case op_kind op of TPut row \<Rightarrow> replay_insert row (op_csn op) | TDelete key \<Rightarrow> replay_delete key (op_csn op)) db;
       replay_ops ids ops db }"

fun replay_record :: "(u32 \<rightharpoonup> string) \<Rightarrow> wal_record \<Rightarrow> database \<Rightarrow> database option" where
  "replay_record ids (WInsert t c row) db = replay_on ids t (replay_insert row c) db"
| "replay_record ids (WDelete t c key) db = replay_on ids t (replay_delete key c) db"
| "replay_record ids (WTxn ops) db = replay_ops ids ops db"
| "replay_record ids _ db = Some db"

fun replay_tail :: "(u32 \<rightharpoonup> string) \<Rightarrow> csn \<Rightarrow> wal_record list \<Rightarrow> database \<Rightarrow> database option" where
  "replay_tail ids checkpoint [] db = Some db"
| "replay_tail ids checkpoint (r # rs) db =
     (if rec_csn r \<le> checkpoint then replay_tail ids checkpoint rs db
      else do { db \<leftarrow> replay_record ids r db; replay_tail ids checkpoint rs db })"

definition storage_open :: "arrow \<Rightarrow> ipc \<Rightarrow> (part \<Rightarrow> u64) \<Rightarrow> storage_config \<Rightarrow> mem_io \<Rightarrow> storage io_result option" where
  "storage_open A I mem cfg io =
     (case manifest_open MANIFEST_PATH io of
        (Inl e, io) \<Rightarrow> Some (Inl e, io)
      | (Inr (manifest, state), io) \<Rightarrow>
          (case load_tables (ms_tables state) (with_config (so_table cfg)) Map.empty pm_default io of
             (Inl e, _, io) \<Rightarrow> Some (Inl e, io)
           | (Inr (pending, db, ids), pager, io) \<Rightarrow>
               (let (wal, io) = wal_open WAL_PATH (so_durability cfg) io
                in case wal_replay WAL_PATH io of
                     (Inl e, io) \<Rightarrow> Some (Inl e, io)
                   | (Inr replay, io) \<Rightarrow>
                       let tl = tail_records (ms_checkpoint_csn state) (rr_records replay);
                           max_csn = foldl max (ms_checkpoint_csn state) (map rec_csn tl);
                           replayed = sum_list (map (replay_count (names_by_id state)) tl);
                           nparts = sum_list (map (\<lambda>(n, nx, lazy). length lazy) pending);
                           report = \<lparr>re_tables_loaded = length (ms_tables state), re_parts_loaded = nparts,
                             re_rows_from_parts = sum_list (map (\<lambda>(n, nx, lazy). sum_list (map (\<lambda>p. ps_num_rows (pg_summary p)) lazy)) pending),
                             re_wal_records_replayed = replayed, re_wal_bytes_scanned = rr_valid_bytes replay,
                             re_truncated_tail = rr_truncated_tail replay, re_recovered_csn = max_csn,
                             re_parts_registered_lazily = nparts\<rparr>;
                           s = \<lparr>st_io = io, st_db = set_csn_floor max_csn db, st_wal = wal, st_manifest = manifest, st_state = state,
                                st_table_ids = ids, st_config = cfg, st_report = report, st_pager = pager, st_pending = pending,
                                st_warmed = False,
                                st_persisted = concat (map (\<lambda>t. map (\<lambda>pid. ((tm_id t, pid), ms_checkpoint_csn state)) (tm_part_ids t)) (ms_tables state))\<rparr>
                       in if 0 < replayed
                          then do {
                            s \<leftarrow> warm A I mem s;
                            db \<leftarrow> replay_tail (names_by_id state) (ms_checkpoint_csn state) (rr_records replay) (st_db s);
                            Some (Inr (s\<lparr>st_db := db\<rparr>), st_io s) }
                          else Some (Inr s, st_io s))))"

section \<open>Catalog operations\<close>

type_synonym 'a st_result = "((error + 'a) \<times> storage) option"

text \<open>A failed commit of the manifest is reported as a write conflict; what was done in memory stays.\<close>

definition commit_manifest :: "storage \<Rightarrow> (error + unit) \<times> storage" where
  "commit_manifest s =
     (case manifest_commit (st_state s) (st_manifest s) (st_io s) of
        (Inl _, m, io) \<Rightarrow> (Inl WriteConflict, s\<lparr>st_manifest := m, st_io := io\<rparr>)
      | (Inr _, m, io) \<Rightarrow> (Inr (), s\<lparr>st_manifest := m, st_io := io\<rparr>))"

definition st_create_table_schema :: "string \<Rightarrow> schema \<Rightarrow> storage \<Rightarrow> (error + unit) \<times> storage" where
  "st_create_table_schema name schema s =
     (case create_table_schema name schema (st_db s) of
        (Inl e, db) \<Rightarrow> (Inl e, s\<lparr>st_db := db\<rparr>)
      | (Inr _, db) \<Rightarrow>
          let st = st_state s; tid = ms_next_table_id st;
              meta = \<lparr>tm_id = tid, tm_name = name, tm_schema = schema, tm_part_ids = [], tm_next_part_id = 0\<rparr>
          in commit_manifest (s\<lparr>st_db := db,
               st_state := st\<lparr>ms_next_table_id := tid + 1, ms_tables := ms_tables st @ [meta]\<rparr>,
               st_table_ids := (st_table_ids s)(name \<mapsto> tid)\<rparr>))"

definition st_create_table :: "string \<Rightarrow> storage \<Rightarrow> unit st_result" where
  "st_create_table name s = map_option (\<lambda>sch. st_create_table_schema name sch s) default_schema"

definition table_id :: "string \<Rightarrow> storage \<Rightarrow> error + u32" where
  "table_id name s = (case st_table_ids s name of Some tid \<Rightarrow> Inr tid | None \<Rightarrow> Inl (TableNotFound name))"

definition remove_parts :: "u32 \<Rightarrow> u64 list \<Rightarrow> mem_io \<Rightarrow> mem_io" where
  "remove_parts tid pids io = fold (\<lambda>pid. io_remove (part_path tid pid)) pids io"

definition forget_table :: "u32 \<Rightarrow> storage \<Rightarrow> storage" where
  "forget_table tid s = s\<lparr>st_persisted := filter (\<lambda>((t, p), c). t \<noteq> tid) (st_persisted s)\<rparr>"

definition st_drop_table :: "arrow \<Rightarrow> ipc \<Rightarrow> (part \<Rightarrow> u64) \<Rightarrow> string \<Rightarrow> storage \<Rightarrow> unit st_result" where
  "st_drop_table A I mem name s =
     do {
       s \<leftarrow> warm A I mem s;
       (case db_drop_table name (st_db s) of
          (Inl e, db) \<Rightarrow> Some (Inl e, s\<lparr>st_db := db\<rparr>)
        | (Inr _, db) \<Rightarrow>
            let s = s\<lparr>st_db := db\<rparr>; st = st_state s
            in case position (\<lambda>t. tm_name t = name) (ms_tables st) of
                 None \<Rightarrow> Some (Inr (), s)
               | Some pos \<Rightarrow>
                   let meta = ms_tables st ! pos;
                       s = forget_table (tm_id meta) (s\<lparr>st_io := remove_parts (tm_id meta) (tm_part_ids meta) (st_io s)\<rparr>)
                   in Some (commit_manifest (s\<lparr>st_state := st\<lparr>ms_tables := take pos (ms_tables st) @ drop (Suc pos) (ms_tables st)\<rparr>,
                        st_table_ids := (st_table_ids s)(name := None)\<rparr>))) }"

definition st_truncate :: "arrow \<Rightarrow> ipc \<Rightarrow> (part \<Rightarrow> u64) \<Rightarrow> string \<Rightarrow> storage \<Rightarrow> unit st_result" where
  "st_truncate A I mem name s =
     do {
       s \<leftarrow> warm A I mem s;
       let st = st_state s;
       (case position (\<lambda>t. tm_name t = name) (ms_tables st) of
          None \<Rightarrow> Some (Inl (TableNotFound name), s)
        | Some pos \<Rightarrow>
            let old = ms_tables st ! pos; new_id = ms_next_table_id st;
                meta = \<lparr>tm_id = new_id, tm_name = name, tm_schema = tm_schema old, tm_part_ids = [], tm_next_part_id = 0\<rparr>;
                s = forget_table (tm_id old) (s\<lparr>st_io := remove_parts (tm_id old) (tm_part_ids old) (st_io s)\<rparr>)
            in (case commit_manifest (s\<lparr>st_state := st\<lparr>ms_next_table_id := new_id + 1, ms_tables := (ms_tables st)[pos := meta]\<rparr>,
                       st_table_ids := (st_table_ids s)(name \<mapsto> new_id)\<rparr>) of
                  (Inl e, s) \<Rightarrow> Some (Inl e, s)
                | (Inr _, s) \<Rightarrow> let (r, db) = db_truncate name (st_db s) in Some (r, s\<lparr>st_db := db\<rparr>))) }"

section \<open>Logged writes\<close>

text \<open>A failed append is reported as a write conflict; the write itself stays in memory.\<close>

definition st_log :: "wal_record \<Rightarrow> storage \<Rightarrow> unit st_result" where
  "st_log r s =
     map_option (\<lambda>(res, w, io). (case res of Inl _ \<Rightarrow> Inl WriteConflict | Inr _ \<Rightarrow> Inr (), s\<lparr>st_wal := w, st_io := io\<rparr>))
       (wal_append r (st_wal s) (st_io s))"

text \<open>The table behind a name, and its id in the log.\<close>

definition st_resolve :: "string \<Rightarrow> storage \<Rightarrow> error + u32 \<times> table" where
  "st_resolve name s =
     (case table_id name s of
        Inl e \<Rightarrow> Inl e
      | Inr tid \<Rightarrow> (case db_table name (st_db s) of Inl e \<Rightarrow> Inl e | Inr t \<Rightarrow> Inr (tid, t)))"

definition st_put_table :: "string \<Rightarrow> table \<Rightarrow> storage \<Rightarrow> storage" where
  "st_put_table name t s = s\<lparr>st_db := db_store name t (st_db s)\<rparr>"

definition throttle :: "storage \<Rightarrow> table \<Rightarrow> table" where
  "throttle s t = t\<lparr>tb_metrics := snd (bp_apply (so_backpressure (st_config s)) (length (ti_parts (tb_inner t))) (tb_metrics t))\<rparr>"

text \<open>A write of one row: the operation \<open>f\<close> on the table, then the record \<open>rec\<close> of what it stored.\<close>

definition st_write :: "arrow \<Rightarrow> ipc \<Rightarrow> (part \<Rightarrow> u64) \<Rightarrow> string \<Rightarrow> (storage \<Rightarrow> table \<Rightarrow> table) \<Rightarrow>
    (table \<Rightarrow> ((error + 'a) \<times> table) option) \<Rightarrow> ('a \<Rightarrow> csn) \<Rightarrow> (u32 \<Rightarrow> 'a \<Rightarrow> wal_record) \<Rightarrow> storage \<Rightarrow> csn st_result" where
  "st_write A I mem name slow f csn_of rec s =
     do {
       s \<leftarrow> warm A I mem s;
       (case st_resolve name s of
          Inl e \<Rightarrow> Some (Inl e, s)
        | Inr (tid, t) \<Rightarrow> do {
            (r, t) \<leftarrow> f (slow s t);
            let s = st_put_table name t s;
            (case r of
               Inl e \<Rightarrow> Some (Inl e, s)
             | Inr x \<Rightarrow> do {
                 (r, s) \<leftarrow> st_log (rec tid x) s;
                 Some (case r of Inl e \<Rightarrow> Inl e | Inr _ \<Rightarrow> Inr (csn_of x), s) }) }) }"

definition st_insert :: "arrow \<Rightarrow> ipc \<Rightarrow> (part \<Rightarrow> u64) \<Rightarrow> string \<Rightarrow> row \<Rightarrow> storage \<Rightarrow> csn st_result" where
  "st_insert A I mem name row =
     st_write A I mem name throttle (tb_insert_returning A row) fst (\<lambda>tid (c, stored). WInsert tid c stored)"

definition st_upsert :: "arrow \<Rightarrow> ipc \<Rightarrow> (part \<Rightarrow> u64) \<Rightarrow> string \<Rightarrow> row \<Rightarrow> storage \<Rightarrow> csn st_result" where
  "st_upsert A I mem name row =
     st_write A I mem name throttle (tb_upsert_returning A row) fst (\<lambda>tid (c, stored). WInsert tid c stored)"

definition st_update :: "arrow \<Rightarrow> ipc \<Rightarrow> (part \<Rightarrow> u64) \<Rightarrow> string \<Rightarrow> row \<Rightarrow> storage \<Rightarrow> csn st_result" where
  "st_update A I mem name row = st_write A I mem name throttle (tb_update A row) id (\<lambda>tid c. WInsert tid c row)"

definition st_delete :: "arrow \<Rightarrow> ipc \<Rightarrow> (part \<Rightarrow> u64) \<Rightarrow> string \<Rightarrow> value_t \<Rightarrow> storage \<Rightarrow> csn st_result" where
  "st_delete A I mem name key = st_write A I mem name (\<lambda>s t. t) (tb_delete key) id (\<lambda>tid c. WDelete tid c key)"

text \<open>Bulk loading: every record is appended without a sync, then one flush.\<close>

definition st_flush :: "storage \<Rightarrow> ((io_error + unit) \<times> storage) option" where
  "st_flush s = map_option (\<lambda>(r, w, io). (r, s\<lparr>st_wal := w, st_io := io\<rparr>)) (wal_flush (st_wal s) (st_io s))"

fun load_rows :: "arrow \<Rightarrow> string \<Rightarrow> u32 \<Rightarrow> row list \<Rightarrow> storage \<Rightarrow> unit st_result" where
  "load_rows A name tid [] s = Some (Inr (), s)"
| "load_rows A name tid (row # rows) s =
     (case db_table name (st_db s) of
        Inl e \<Rightarrow> Some (Inl e, s)
      | Inr t \<Rightarrow> do {
          (c, t) \<leftarrow> replay_insert_new A row t;
          let s = st_put_table name t s;
          (r, w, io) \<leftarrow> append_async (WInsert tid c row) (st_wal s) (st_io s);
          let s = s\<lparr>st_wal := w, st_io := io\<rparr>;
          (case r of Inl _ \<Rightarrow> Some (Inl WriteConflict, s) | Inr _ \<Rightarrow> load_rows A name tid rows s) })"

definition load_batch :: "arrow \<Rightarrow> ipc \<Rightarrow> (part \<Rightarrow> u64) \<Rightarrow> string \<Rightarrow> row list \<Rightarrow> storage \<Rightarrow> unit st_result" where
  "load_batch A I mem name rows s =
     do {
       s \<leftarrow> warm A I mem s;
       (case st_resolve name s of
          Inl e \<Rightarrow> Some (Inl e, s)
        | Inr (tid, t) \<Rightarrow> do {
            (r, s) \<leftarrow> load_rows A name tid rows s;
            (case r of
               Inl e \<Rightarrow> Some (Inl e, s)
             | Inr _ \<Rightarrow> do {
                 (r, s) \<leftarrow> st_flush s;
                 Some (case r of Inl _ \<Rightarrow> Inl WriteConflict | Inr _ \<Rightarrow> Inr (), s) }) }) }"

text \<open>A transaction's writes are applied one by one and logged as one record; a delete that fails is skipped.\<close>

datatype txn_write = TxnPut string row | TxnDelete string value_t

fun txn_write_one :: "arrow \<Rightarrow> txn_write \<Rightarrow> storage \<Rightarrow> ((error + txn_op option) \<times> storage) option" where
  "txn_write_one A (TxnPut name row) s =
     (case st_resolve name s of
        Inl e \<Rightarrow> Some (Inl e, s)
      | Inr (tid, t) \<Rightarrow> do {
          (r, t) \<leftarrow> tb_upsert_returning A row t;
          let s = st_put_table name t s;
          Some (case r of Inl e \<Rightarrow> Inl e
                | Inr (c, stored) \<Rightarrow> Inr (Some \<lparr>op_table = tid, op_csn = c, op_kind = TPut stored\<rparr>), s) })"
| "txn_write_one A (TxnDelete name key) s =
     (case st_resolve name s of
        Inl e \<Rightarrow> Some (Inl e, s)
      | Inr (tid, t) \<Rightarrow> do {
          (r, t) \<leftarrow> tb_delete key t;
          let s = st_put_table name t s;
          Some (case r of Inl _ \<Rightarrow> Inr None
                | Inr c \<Rightarrow> Inr (Some \<lparr>op_table = tid, op_csn = c, op_kind = TDelete key\<rparr>), s) })"

fun txn_apply :: "arrow \<Rightarrow> txn_write list \<Rightarrow> csn \<Rightarrow> txn_op list \<Rightarrow> storage \<Rightarrow> (csn \<times> txn_op list) st_result" where
  "txn_apply A [] lst ops s = Some (Inr (lst, ops), s)"
| "txn_apply A (w # ws) lst ops s =
     do {
       (r, s) \<leftarrow> txn_write_one A w s;
       (case r of
          Inl e \<Rightarrow> Some (Inl e, s)
        | Inr None \<Rightarrow> txn_apply A ws lst ops s
        | Inr (Some op) \<Rightarrow> txn_apply A ws (op_csn op) (ops @ [op]) s) }"

definition commit_transaction :: "arrow \<Rightarrow> ipc \<Rightarrow> (part \<Rightarrow> u64) \<Rightarrow> txn_write list \<Rightarrow> storage \<Rightarrow> csn st_result" where
  "commit_transaction A I mem ws s =
     do {
       s \<leftarrow> warm A I mem s;
       (r, s) \<leftarrow> txn_apply A ws 0 [] s;
       (case r of
          Inl e \<Rightarrow> Some (Inl e, s)
        | Inr (lst, ops) \<Rightarrow>
            if ops \<noteq> [] then do {
              (r, s) \<leftarrow> st_log (WTxn ops) s;
              Some (case r of Inl e \<Rightarrow> Inl e | Inr _ \<Rightarrow> Inr lst, s) }
            else Some (Inr lst, s)) }"

section \<open>Checkpoints\<close>

definition checkpoint_due :: "storage \<Rightarrow> bool" where
  "checkpoint_due s \<longleftrightarrow> so_checkpoint_wal_bytes (st_config s) \<le> w_written (st_wal s)"

type_synonym persisted = "((u32 \<times> u64) \<times> csn) list"

text \<open>A new part is written in full, to an old one only the newer tombstones are appended.\<close>

fun persist_parts :: "ipc \<Rightarrow> u32 \<Rightarrow> csn \<Rightarrow> part list \<Rightarrow> persisted \<Rightarrow> mem_io \<Rightarrow> ((io_error + unit) \<times> persisted \<times> mem_io) option" where
  "persist_parts I tid c [] pers io = Some (Inr (), pers, io)"
| "persist_parts I tid c (p # ps) pers io =
     do {
       let key = (tid, p_id p);
       let path = part_path tid (p_id p);
       (r, io) \<leftarrow> (case map_of pers key of
                     None \<Rightarrow> write_part I path p io
                   | Some since \<Rightarrow>
                       let dels = entries_after since (p_dv p)
                       in Some (if dels \<noteq> [] then append_tombstones path dels (io_open path io) else (Inr (), io)));
       (case r of
          Inl e \<Rightarrow> Some (Inl e, pers, io)
        | Inr _ \<Rightarrow> persist_parts I tid c ps (AList.update key c pers) io) }"

fun persist_tables :: "ipc \<Rightarrow> database \<Rightarrow> csn \<Rightarrow> table_meta list \<Rightarrow> persisted \<Rightarrow> mem_io \<Rightarrow>
    ((io_error + (u32 \<times> u64) list) \<times> table_meta list \<times> persisted \<times> mem_io) option" where
  "persist_tables I db c [] pers io = Some (Inr [], [], pers, io)"
| "persist_tables I db c (meta # metas) pers io =
     (case db_table (tm_name meta) db of
        Inl _ \<Rightarrow> do {
          (r, metas, pers, io) \<leftarrow> persist_tables I db c metas pers io;
          Some (r, meta # metas, pers, io) }
      | Inr t \<Rightarrow> do {
          let (parts, next_id) = parts_snapshot t;
          (r, pers, io) \<leftarrow> persist_parts I (tm_id meta) c parts pers io;
          (case r of
             Inl e \<Rightarrow> Some (Inl e, meta # metas, pers, io)
           | Inr _ \<Rightarrow> do {
               let meta = meta\<lparr>tm_part_ids := map p_id parts, tm_next_part_id := next_id\<rparr>;
               (r, metas, pers, io) \<leftarrow> persist_tables I db c metas pers io;
               Some (map_sum id (\<lambda>keep. map (Pair (tm_id meta)) (map p_id parts) @ keep) r, meta # metas, pers, io) }) })"

definition drop_dead :: "(u32 \<times> u64) list \<Rightarrow> persisted \<Rightarrow> mem_io \<Rightarrow> persisted \<times> mem_io" where
  "drop_dead keep pers io =
     (let dead = filter (\<lambda>k. k \<notin> set keep) (map fst pers)
      in (filter (\<lambda>e. fst e \<in> set keep) pers, fold (\<lambda>(tid, pid). io_remove (part_path tid pid)) dead io))"

text \<open>After the switch: the log gets a checkpoint record and is emptied.\<close>

definition cut_log :: "csn \<Rightarrow> wal \<Rightarrow> mem_io \<Rightarrow> csn wal_result" where
  "cut_log c w io =
     do {
       (r, w, io) \<leftarrow> wal_append (WCheckpoint c) w io;
       (case r of
          Inl e \<Rightarrow> Some (Inl e, w, io)
        | Inr _ \<Rightarrow> do {
            (r, w, io) \<leftarrow> wal_flush w io;
            (case r of
               Inl e \<Rightarrow> Some (Inl e, w, io)
             | Inr _ \<Rightarrow>
                 (case truncate_before (w_written w) w io of
                    (Inl e, w, io) \<Rightarrow> Some (Inl e, w, io)
                  | (Inr _, w, io) \<Rightarrow> Some (Inr c, w, io))) }) }"

definition checkpoint :: "arrow \<Rightarrow> ipc \<Rightarrow> storage \<Rightarrow> ((io_error + csn) \<times> storage) option" where
  "checkpoint A I s =
     do {
       db \<leftarrow> seal_all A (st_db s);
       let c = db_snapshot db;
       let st = st_state s;
       (r, metas, pers, io) \<leftarrow> persist_tables I db c (ms_tables st) (st_persisted s) (st_io s);
       let s = s\<lparr>st_db := db, st_state := st\<lparr>ms_tables := metas\<rparr>, st_persisted := pers, st_io := io\<rparr>;
       (case r of
          Inl e \<Rightarrow> Some (Inl e, s)
        | Inr keep \<Rightarrow>
            let st = (st_state s)\<lparr>ms_checkpoint_csn := c\<rparr>
            in (case manifest_compact st (st_manifest s) (st_io s) of
                  (Inl e, mn, io) \<Rightarrow> Some (Inl e, s\<lparr>st_state := st, st_manifest := mn, st_io := io\<rparr>)
                | (Inr _, mn, io) \<Rightarrow> do {
                    let (pers, io) = drop_dead keep (st_persisted s) io;
                    (r, w, io) \<leftarrow> cut_log c (st_wal s) io;
                    Some (r, s\<lparr>st_state := st, st_manifest := mn, st_persisted := pers, st_wal := w, st_io := io\<rparr>) })) }"

definition st_compact_all :: "arrow \<Rightarrow> storage \<Rightarrow> (nat \<times> storage) option" where
  "st_compact_all A s = map_option (\<lambda>(n, db). (n, s\<lparr>st_db := db\<rparr>)) (compact_all A (db_gc_horizon (st_db s)) (st_db s))"

section \<open>Backups\<close>

definition CHUNK :: nat where "CHUNK = 2 ^ 20"

text \<open>Both loops end only if the devices make progress, so they are partial functions.\<close>

partial_function (option) write_chunk :: "string \<Rightarrow> nat \<Rightarrow> bytes \<Rightarrow> nat \<Rightarrow> mem_io \<Rightarrow> unit io_result option" where
  "write_chunk name off buf done_n dst =
     (if done_n < length buf
      then (case pwrite name (off + done_n) (drop done_n buf) dst of
              (Inl e, dst) \<Rightarrow> Some (Inl e, dst)
            | (Inr n, dst) \<Rightarrow> write_chunk name off buf (done_n + n) dst)
      else Some (Inr (), dst))"

partial_function (option) copy_chunks :: "string \<Rightarrow> nat \<Rightarrow> bytes \<Rightarrow> nat \<Rightarrow> mem_io \<Rightarrow> mem_io \<Rightarrow> ((io_error + unit) \<times> mem_io \<times> mem_io) option" where
  "copy_chunks name len buf off src dst =
     (if off < len
      then let want = min (len - off) CHUNK
           in (case pread name off (take want buf) src of
                 (Inl e, src) \<Rightarrow> Some (Inl e, src, dst)
               | (Inr (n, got), src) \<Rightarrow>
                   if n = 0 then Some (Inr (), src, dst)
                   else do {
                     (r, dst) \<leftarrow> write_chunk name off (take n got) 0 dst;
                     (case r of
                        Inl e \<Rightarrow> Some (Inl e, src, dst)
                      | Inr _ \<Rightarrow> copy_chunks name len (got @ drop want buf) (off + n) src dst) })
      else Some (Inr (), src, dst))"

definition copy_file :: "string \<Rightarrow> mem_io \<Rightarrow> mem_io \<Rightarrow> ((io_error + unit) \<times> mem_io \<times> mem_io) option" where
  "copy_file name src dst =
     do {
       let src = io_open name src;
       let dst = file_truncate name 0 (io_open name dst);
       (r, src, dst) \<leftarrow> copy_chunks name (file_len name src) (replicate CHUNK 0) 0 src dst;
       (case r of
          Inl e \<Rightarrow> Some (Inl e, src, dst)
        | Inr _ \<Rightarrow> let (r, dst) = sync name dst in Some (r, src, dst)) }"

fun copy_files :: "string list \<Rightarrow> mem_io \<Rightarrow> mem_io \<Rightarrow> ((io_error + unit) \<times> mem_io \<times> mem_io) option" where
  "copy_files [] src dst = Some (Inr (), src, dst)"
| "copy_files (name # names) src dst =
     do {
       (r, src, dst) \<leftarrow> copy_file name src dst;
       (case r of Inl e \<Rightarrow> Some (Inl e, src, dst) | Inr _ \<Rightarrow> copy_files names src dst) }"

definition copy_store :: "mem_io \<Rightarrow> mem_io \<Rightarrow> ((io_error + unit) \<times> mem_io \<times> mem_io) option" where
  "copy_store src dst =
     (let names = io_list src
      in copy_files names src (fold io_remove (filter (\<lambda>n. n \<notin> set names) (io_list dst)) dst))"

definition backup_to :: "mem_io \<Rightarrow> storage \<Rightarrow> ((io_error + unit) \<times> storage \<times> mem_io) option" where
  "backup_to dst s =
     do {
       (r, s) \<leftarrow> st_flush s;
       (case r of
          Inl e \<Rightarrow> Some (Inl e, s, dst)
        | Inr _ \<Rightarrow> do { (r, io, dst) \<leftarrow> copy_store (st_io s) dst; Some (r, s\<lparr>st_io := io\<rparr>, dst) }) }"

definition restore :: "arrow \<Rightarrow> ipc \<Rightarrow> (part \<Rightarrow> u64) \<Rightarrow> storage_config \<Rightarrow> mem_io \<Rightarrow> mem_io \<Rightarrow> (storage io_result \<times> mem_io) option" where
  "restore A I mem cfg src dst =
     do {
       (r, src, dst) \<leftarrow> copy_store src dst;
       (case r of
          Inl e \<Rightarrow> Some ((Inl e, dst), src)
        | Inr _ \<Rightarrow> do { r \<leftarrow> storage_open A I mem cfg dst; Some (r, src) }) }"

end
