(* ===== verification/Ck_Backup.thy ===== *)
theory Ck_Backup
  imports Ck_Storage
begin

text \<open>
  Backups: \<open>copy_store\<close> of \<open>src/src/storage.rs\<close> returns on every pair of devices without faults, and
  leaves the target with the files of the source and no others, durably.
\<close>

section \<open>One file\<close>

lemma file_truncate_file: "io_ok io \<Longrightarrow> io_file p (file_truncate path n io) = (if p = path then Some (mf_truncate n (handle path io)) else io_file p io)"
  by (simp add: file_truncate_def io_file_put)

text \<open>The write counter of a file that is written \<open>n\<close> more times does not wrap around.\<close>

definition seq_room :: "nat \<Rightarrow> mem_file \<Rightarrow> bool" where
  "seq_room n f \<longleftrightarrow> mf_synced_seq f \<le> mf_write_seq f \<and> unat (mf_write_seq f) + n < 2 ^ 64"

lemma seq_room_step:
  assumes "seq_room (Suc n) f" "mf_synced_seq g = mf_synced_seq f" "mf_write_seq g = mf_write_seq f + 1"
  shows "seq_room n g" "mf_synced_seq g < mf_write_seq g"
proof -
  have "unat (mf_write_seq f + 1) = unat (mf_write_seq f) + 1"
    using assms(1) by (subst unat_add_lem [THEN iffD1]) (simp_all add: seq_room_def)
  then show "seq_room n g" "mf_synced_seq g < mf_write_seq g"
    using assms by (simp_all add: seq_room_def word_le_nat_alt word_less_nat_alt)
qed

lemma seq_room_mono: "seq_room n f \<Longrightarrow> m \<le> n \<Longrightarrow> seq_room m f"
  by (simp add: seq_room_def)

text \<open>A chunk is written by one call, since the device takes it whole.\<close>

lemma write_chunk_calm:
  assumes "io_calm dst"
  shows "write_chunk name off buf 0 dst =
    Some (Inr (), if buf = [] then dst else io_put name (mf_pwrite off buf (handle name dst)) dst)"
proof (cases "buf = []")
  case True
  then show ?thesis by (subst write_chunk.simps) simp
next
  case False
  have "write_chunk name off buf (length buf) io = Some (Inr (), io)" for io
    by (subst write_chunk.simps) simp
  then show ?thesis using False assms by (subst write_chunk.simps) (simp add: pwrite_calm)
qed

lemma take_chunk: "off + n \<le> length L \<Longrightarrow> overwrite off (take n (drop off L)) (take off L) = take (off + n) L"
  using overwrite_end [of "take off L" "take n (drop off L)"] by (simp add: take_add)

lemma copy_chunks_calm:
  assumes "io_calm src" "io_calm dst" "L = mf_live (handle name src)" "off \<le> length L" "length buf = CHUNK"
    "mf_live (handle name dst) = take off L" "seq_room (length L - off) (handle name dst)"
    "io_file name dst \<noteq> None"
  shows "\<exists>dst'. copy_chunks name (length L) buf off src dst = Some (Inr (), src, dst') \<and> io_calm dst' \<and>
    mf_live (handle name dst') = L \<and> seq_room 0 (handle name dst') \<and> io_file name dst' \<noteq> None \<and>
    (mf_synced_seq (handle name dst) < mf_write_seq (handle name dst) \<longrightarrow> mf_synced_seq (handle name dst') < mf_write_seq (handle name dst')) \<and>
    (\<forall>p. p \<noteq> name \<longrightarrow> io_file p dst' = io_file p dst)"
  using assms
proof (induction "length L - off" arbitrary: off buf dst rule: less_induct)
  case less
  show ?case
  proof (cases "off < length L")
    case False
    then show ?thesis using less.prems by (subst copy_chunks.simps) simp
  next
    case True
    define n where "n = min (length L - off) CHUNK"
    have n: "0 < n" "off + n \<le> length L" "n \<le> CHUNK" using True by (auto simp: n_def CHUNK_def)
    define chunk where "chunk = take n (drop off L)"
    let ?f = "handle name dst"
    define dst1 where "dst1 = io_put name (mf_pwrite off chunk ?f) dst"
    have chunk: "chunk \<noteq> []" "length chunk = n" using n by (auto simp: chunk_def)
    have io: "io_ok dst" "io_calm dst1" using less.prems(2) by (simp_all add: io_calm_ok dst1_def)
    have rd: "pread name off (take n buf) src = (Inr (n, chunk), src)"
      using less.prems(1,3,5) n True by (simp add: pread_calm mf_pread_def chunk_def)
    have f1: "handle name dst1 = mf_pwrite off chunk ?f" using io(1) by (simp add: dst1_def)
    have wr: "write_chunk name off (take n chunk) 0 dst = Some (Inr (), dst1)"
      using write_chunk_calm [OF less.prems(2), of name off chunk] chunk by (simp add: dst1_def)
    have step: "copy_chunks name (length L) buf off src dst = copy_chunks name (length L) (chunk @ drop n buf) (off + n) src dst1"
      using True n(1) by (subst copy_chunks.simps) (simp only: n_def [symmetric] Let_def rd if_True sum.case prod.case, simp add: wr)
    have live1: "mf_live (handle name dst1) = take (off + n) L"
      using take_chunk [OF n(2)] less.prems(6) by (simp add: f1 mf_pwrite_def chunk_def)
    have "seq_room (Suc (length L - off - 1)) ?f" using less.prems(7) True by (simp add: Suc_diff_Suc)
    then have room: "seq_room (length L - off - 1) (handle name dst1)" "mf_synced_seq (handle name dst1) < mf_write_seq (handle name dst1)"
      using seq_room_step [of _ ?f "handle name dst1"] by (simp_all add: f1 mf_pwrite_def)
    have "length L - (off + n) \<le> length L - off - 1" using n(1) by simp
    note room1 = seq_room_mono [OF room(1) this]
    have buf: "length (chunk @ drop n buf) = CHUNK" using chunk(2) less.prems(5) n(3) by simp
    have fl: "io_file name dst1 \<noteq> None" "\<And>p. p \<noteq> name \<Longrightarrow> io_file p dst1 = io_file p dst"
      using io(1) by (simp_all add: dst1_def io_file_put)
    have less1: "length L - (off + n) < length L - off" using n True by simp
    from less.hyps [OF less1 less.prems(1) io(2) less.prems(3) n(2) buf live1 room1 fl(1)] room(2) fl(2)
    show ?thesis unfolding step by auto
  qed
qed

lemma handle_of_file: "io_file name io = Some f \<Longrightarrow> handle name io = f"
  by (simp add: handle_def)

lemma copy_file_calm:
  assumes src: "io_calm src" "io_file name src = Some f" and dst: "io_calm dst" "seq_room (length (mf_live f) + 1) (handle name dst)"
  obtains dst' g where "copy_file name src dst = Some (Inr (), src, dst')" "io_calm dst'" "io_file name dst' = Some g"
    "mf_live g = mf_live f" "mf_durable g = mf_live f" "\<And>p. p \<noteq> name \<Longrightarrow> io_file p dst' = io_file p dst"
proof -
  let ?L = "mf_live f"
  define dst1 where "dst1 = file_truncate name 0 (io_open name dst)"
  have h: "handle name src = f" using src(2) by (rule handle_of_file)
  have op: "io_open name src = src" using src(2) by (simp add: io_open_def)
  have ok: "io_ok dst" "io_ok (io_open name dst)" using dst(1) by (simp_all add: io_calm_ok)
  have c1: "io_calm dst1" using dst(1) by (simp add: dst1_def)
  have f1: "io_file name dst1 = Some (mf_truncate 0 (handle name dst))"
    using ok by (simp add: dst1_def file_truncate_file)
  have h1: "handle name dst1 = mf_truncate 0 (handle name dst)" using f1 by (rule handle_of_file)
  have "seq_room (Suc (length ?L)) (handle name dst)" using dst(2) by simp
  then have room: "seq_room (length ?L) (handle name dst1)" "mf_synced_seq (handle name dst1) < mf_write_seq (handle name dst1)"
    using seq_room_step [of _ "handle name dst" "handle name dst1"] by (simp_all add: h1 mf_truncate_def)
  have other: "io_file p dst1 = io_file p dst" if "p \<noteq> name" for p
    using ok that by (auto simp: dst1_def file_truncate_file io_open_def io_file_put split: option.split)
  have "\<exists>dst'. copy_chunks name (length ?L) (replicate CHUNK 0) 0 src dst1 = Some (Inr (), src, dst') \<and> io_calm dst' \<and>
    mf_live (handle name dst') = ?L \<and> seq_room 0 (handle name dst') \<and> io_file name dst' \<noteq> None \<and>
    (mf_synced_seq (handle name dst1) < mf_write_seq (handle name dst1) \<longrightarrow> mf_synced_seq (handle name dst') < mf_write_seq (handle name dst')) \<and>
    (\<forall>p. p \<noteq> name \<longrightarrow> io_file p dst' = io_file p dst1)"
    by (rule copy_chunks_calm) (use src(1) c1 h room(1) f1 in \<open>simp_all add: h1 mf_truncate_def\<close>)
  then obtain dst2 where d2: "copy_chunks name (length ?L) (replicate CHUNK 0) 0 src dst1 = Some (Inr (), src, dst2)" "io_calm dst2"
    "mf_live (handle name dst2) = ?L" "io_file name dst2 \<noteq> None" "mf_synced_seq (handle name dst2) < mf_write_seq (handle name dst2)"
    "\<And>p. p \<noteq> name \<Longrightarrow> io_file p dst2 = io_file p dst1"
    using room(2) by auto
  let ?g = "mf_sync (handle name dst2)"
  have run: "copy_file name src dst = Some (Inr (), src, io_put name ?g dst2)"
    using d2(1,2) by (simp add: copy_file_def op dst1_def [symmetric] file_len_def h sync_calm)
  have ok2: "io_ok dst2" using d2(2) by (rule io_calm_ok)
  show thesis
  proof (rule that [OF run])
    show "io_calm (io_put name ?g dst2)" using d2(2) by simp
    show "io_file name (io_put name ?g dst2) = Some ?g" using ok2 by (simp add: io_file_put)
    show "mf_live ?g = ?L" "mf_durable ?g = ?L" using d2(3,5) by (auto simp: mf_sync_def)
    show "io_file p (io_put name ?g dst2) = io_file p dst" if "p \<noteq> name" for p
      using ok2 that d2(6) other by (simp add: io_file_put)
  qed
qed

section \<open>The whole store\<close>

lemma copy_files_calm:
  assumes "io_calm src" "io_calm dst" "distinct names"
    "\<forall>n \<in> set names. \<exists>f. io_file n src = Some f \<and> seq_room (length (mf_live f) + 1) (handle n dst)"
  shows "\<exists>dst'. copy_files names src dst = Some (Inr (), src, dst') \<and> io_calm dst' \<and>
    (\<forall>n \<in> set names. \<exists>f g. io_file n src = Some f \<and> io_file n dst' = Some g \<and> mf_live g = mf_live f \<and> mf_durable g = mf_live f) \<and>
    (\<forall>n. n \<notin> set names \<longrightarrow> io_file n dst' = io_file n dst)"
  using assms
proof (induction names arbitrary: dst)
  case (Cons n ns)
  obtain f where f: "io_file n src = Some f" "seq_room (length (mf_live f) + 1) (handle n dst)" using Cons.prems(4) by auto
  obtain dst1 g where d1: "copy_file n src dst = Some (Inr (), src, dst1)" "io_calm dst1" "io_file n dst1 = Some g"
      "mf_live g = mf_live f" "mf_durable g = mf_live f" "\<And>p. p \<noteq> n \<Longrightarrow> io_file p dst1 = io_file p dst"
    using copy_file_calm [OF Cons.prems(1) f(1) Cons.prems(2) f(2)] by blast
  have "handle p dst1 = handle p dst" if "p \<in> set ns" for p
    using d1(6) [of p] that Cons.prems(3) by (cases "p = n") (simp_all add: handle_def)
  then have "\<forall>p \<in> set ns. \<exists>f. io_file p src = Some f \<and> seq_room (length (mf_live f) + 1) (handle p dst1)"
    using Cons.prems(4) by auto
  with Cons.IH [OF Cons.prems(1) d1(2)] Cons.prems(3) obtain dst' where d': "copy_files ns src dst1 = Some (Inr (), src, dst')" "io_calm dst'"
      "\<forall>n \<in> set ns. \<exists>f g. io_file n src = Some f \<and> io_file n dst' = Some g \<and> mf_live g = mf_live f \<and> mf_durable g = mf_live f"
      "\<forall>n. n \<notin> set ns \<longrightarrow> io_file n dst' = io_file n dst1"
    by auto
  have "n \<notin> set ns" using Cons.prems(3) by simp
  then show ?case using d' d1 f by (intro exI [of _ dst']) auto
qed simp

lemma fold_remove:
  "io_calm io \<Longrightarrow> io_calm (fold io_remove ns io) \<and> (\<forall>p. io_file p (fold io_remove ns io) = (if p \<in> set ns then None else io_file p io))"
proof (induction ns arbitrary: io)
  case (Cons n ns)
  have "io_calm (io_remove n io)" using Cons.prems by simp
  from Cons.IH [OF this] show ?case using Cons.prems by (simp add: io_file_remove io_calm_ok)
qed simp

lemma mem_io_list: "io_ok io \<Longrightarrow> n \<in> set (io_list io) \<longleftrightarrow> io_file n io \<noteq> None"
  using mem_names [of "io_files io" n] by (auto simp: io_ok_def io_list_def io_file_def)

definition backup_room :: "mem_io \<Rightarrow> mem_io \<Rightarrow> bool" where
  "backup_room src dst \<longleftrightarrow>
     (\<forall>n \<in> set (io_list src). seq_room (length (mf_live (handle n src)) + 1) (handle n dst))"

lemma copy_store_calm:
  assumes "io_calm src" "io_calm dst" "backup_room src dst"
  obtains dst' where "copy_store src dst = Some (Inr (), src, dst')" "io_calm dst'"
    "\<And>p. map_option mf_live (io_file p dst') = map_option mf_live (io_file p src)"
    "\<And>p. map_option mf_durable (io_file p dst') = map_option mf_live (io_file p src)"
proof -
  have ok: "io_ok src" "io_ok dst" using assms(1,2) by (simp_all add: io_calm_ok)
  let ?names = "io_list src"
  define dst1 where "dst1 = fold io_remove (filter (\<lambda>n. n \<notin> set ?names) (io_list dst)) dst"
  have d1: "io_calm dst1" "\<And>p. io_file p dst1 = (if p \<in> set ?names then io_file p dst else None)"
  proof -
    show "io_calm dst1" using fold_remove [OF assms(2)] by (simp add: dst1_def)
    fix p
    have "p \<notin> set (io_list dst) \<Longrightarrow> io_file p dst = None" using mem_io_list [OF ok(2), of p] by simp
    then show "io_file p dst1 = (if p \<in> set ?names then io_file p dst else None)"
      using fold_remove [OF assms(2)] by (auto simp: dst1_def)
  qed
  have dist: "distinct ?names" using ok(1) by (simp add: io_ok_def io_list_def names_distinct)
  have "\<forall>n \<in> set ?names. \<exists>f. io_file n src = Some f \<and> seq_room (length (mf_live f) + 1) (handle n dst1)"
  proof
    fix n assume n: "n \<in> set ?names"
    then obtain f where f: "io_file n src = Some f" using mem_io_list [OF ok(1)] by auto
    have "handle n dst1 = handle n dst" using d1(2) n by (simp add: handle_def)
    then show "\<exists>f. io_file n src = Some f \<and> seq_room (length (mf_live f) + 1) (handle n dst1)"
      using f assms(3) n by (auto simp: backup_room_def handle_of_file)
  qed
  from copy_files_calm [OF assms(1) d1(1) dist this] obtain dst' where d': "copy_files ?names src dst1 = Some (Inr (), src, dst')" "io_calm dst'"
      "\<forall>n \<in> set ?names. \<exists>f g. io_file n src = Some f \<and> io_file n dst' = Some g \<and> mf_live g = mf_live f \<and> mf_durable g = mf_live f"
      "\<forall>n. n \<notin> set ?names \<longrightarrow> io_file n dst' = io_file n dst1"
    by auto
  have run: "copy_store src dst = Some (Inr (), src, dst')" using d'(1) by (simp add: copy_store_def Let_def dst1_def)
  have "map_option mf_live (io_file p dst') = map_option mf_live (io_file p src) \<and>
      map_option mf_durable (io_file p dst') = map_option mf_live (io_file p src)" for p
  proof (cases "p \<in> set ?names")
    case True
    then show ?thesis using d'(3) by force
  next
    case False
    then show ?thesis using d'(4) d1(2) mem_io_list [OF ok(1), of p] by simp
  qed
  then show thesis using that [OF run d'(2)] by blast
qed

text \<open>
  C5. A backup ends and is exact: on devices without faults the copy loops terminate, the source is left as it was, and the target
  holds the files of the source and no others, with the same bytes, now and after a power loss.
\<close>

theorem backup_exact:
  assumes "io_calm src" "io_calm dst" "backup_room src dst"
  shows "\<exists>dst'. copy_store src dst = Some (Inr (), src, dst') \<and>
    (\<forall>p. map_option mf_live (io_file p dst') = map_option mf_live (io_file p src)) \<and>
    (\<forall>p. map_option mf_live (io_file p (io_crash dst')) = map_option mf_live (io_file p src))"
proof -
  obtain dst' where d: "copy_store src dst = Some (Inr (), src, dst')"
    "\<And>p. map_option mf_live (io_file p dst') = map_option mf_live (io_file p src)"
    "\<And>p. map_option mf_durable (io_file p dst') = map_option mf_live (io_file p src)"
    using copy_store_calm [OF assms] by blast
  have "map_option mf_live (io_file p (io_crash dst')) = map_option mf_durable (io_file p dst')" for p
    by (cases "io_file p dst'") (simp_all add: io_file_def io_crash_def bt_get_map mf_crash_def)
  then show ?thesis using d by auto
qed

definition sample_source :: mem_io where
  "sample_source = io_put ''MANIFEST'' \<lparr>mf_live = [1, 2, 3], mf_durable = [1, 2, 3], mf_write_seq = 1, mf_synced_seq = 1\<rparr> io_new"

definition sample_target :: mem_io where
  "sample_target = io_put ''stale'' \<lparr>mf_live = [9], mf_durable = [], mf_write_seq = 1, mf_synced_seq = 0\<rparr> io_new"

theorem backup_exact_witness:
  "\<exists>dst'. copy_store sample_source sample_target = Some (Inr (), sample_source, dst') \<and>
    map_option mf_live (io_file ''MANIFEST'' (io_crash dst')) = Some [1, 2, 3] \<and> io_file ''stale'' dst' = None"
proof -
  have ok: "io_calm io_new" by (simp add: io_calm_def io_ok_def io_new_def)
  then have c: "io_calm sample_source" "io_calm sample_target" by (simp_all add: sample_source_def sample_target_def)
  have f: "io_file p sample_source = (if p = ''MANIFEST'' then Some \<lparr>mf_live = [1, 2, 3], mf_durable = [1, 2, 3], mf_write_seq = 1, mf_synced_seq = 1\<rparr> else None)" for p
    using ok by (simp add: sample_source_def io_file_put io_calm_ok) (simp add: io_file_def io_new_def)
  have g: "io_file p sample_target = (if p = ''stale'' then Some \<lparr>mf_live = [9], mf_durable = [], mf_write_seq = 1, mf_synced_seq = 0\<rparr> else None)" for p
    using ok by (simp add: sample_target_def io_file_put io_calm_ok) (simp add: io_file_def io_new_def)
  have "set (io_list sample_source) = {''MANIFEST''}"
    using mem_io_list [OF io_calm_ok [OF c(1)]] by (auto simp: f split: if_splits)
  then have "backup_room sample_source sample_target"
    by (simp add: backup_room_def handle_def f g seq_room_def mf_new_def)
  from backup_exact [OF c this] obtain dst' where d: "copy_store sample_source sample_target = Some (Inr (), sample_source, dst')"
    "\<And>p. map_option mf_live (io_file p dst') = map_option mf_live (io_file p sample_source)"
    "\<And>p. map_option mf_live (io_file p (io_crash dst')) = map_option mf_live (io_file p sample_source)"
    by blast
  show ?thesis using d(1) d(2) [of "''stale''"] d(3) [of "''MANIFEST''"] by (simp add: f)
qed

end
