(* ===== verification/Ck_Recovery.thy ===== *)
theory Ck_Recovery
  imports Ck_Backup
begin

text \<open>
  Crash recovery of the durable store: what the manifest, the part files and the log have to hold for \<open>Storage::open\<close>
  to rebuild the catalog, and that every operation of \<open>src/src/storage.rs\<close> keeps it so.
\<close>

section \<open>The log as a list of writes\<close>

fun rec_ops :: "wal_record \<Rightarrow> txn_op list" where
  "rec_ops (WInsert t c row) = [\<lparr>op_table = t, op_csn = c, op_kind = TPut row\<rparr>]"
| "rec_ops (WDelete t c key) = [\<lparr>op_table = t, op_csn = c, op_kind = TDelete key\<rparr>]"
| "rec_ops (WTxn ops) = ops"
| "rec_ops _ = []"

definition log_ops :: "wal_record list \<Rightarrow> txn_op list" where
  "log_ops rs = concat (map rec_ops rs)"

lemma log_ops_simps [simp]: "log_ops [] = []" "log_ops (r # rs) = rec_ops r @ log_ops rs" "log_ops (rs @ ss) = log_ops rs @ log_ops ss"
  by (simp_all add: log_ops_def)

lemma replay_ops_Nil [simp]: "x \<bind> replay_ops ids [] = x"
  by (cases x) simp_all

lemma replay_record_ops: "replay_record ids r db = replay_ops ids (rec_ops r) db"
  by (cases r) simp_all

lemma replay_ops_append: "replay_ops ids (ops @ ops') db = replay_ops ids ops db \<bind> replay_ops ids ops'"
proof (induction ops arbitrary: db)
  case (Cons op ops)
  then have "replay_ops ids (ops @ ops') = (\<lambda>db. replay_ops ids ops db \<bind> replay_ops ids ops')" by blast
  then show ?case by simp
qed simp

lemma replay_tail_ops: "\<forall>r \<in> set rs. c < rec_csn r \<Longrightarrow> replay_tail ids c rs db = replay_ops ids (log_ops rs) db"
proof (induction rs arbitrary: db)
  case (Cons r rs)
  then have "replay_tail ids c rs = replay_ops ids (log_ops rs)" by auto
  moreover have "\<not> rec_csn r \<le> c" using Cons.prems by (simp add: not_le)
  ultimately show ?case by (simp add: replay_record_ops replay_ops_append)
qed simp

text \<open>What a write does to the versions of its table, and when it fits a schema.\<close>

definition apply_op :: "nat \<Rightarrow> txn_op \<Rightarrow> version multiset \<Rightarrow> version multiset" where
  "apply_op ki op M = (case op_kind op of TPut row \<Rightarrow> abs_put ki row (op_csn op) M | TDelete key \<Rightarrow> abs_kill ki key (op_csn op) M)"

definition op_valid :: "schema \<Rightarrow> txn_op \<Rightarrow> bool" where
  "op_valid s op \<longleftrightarrow> (case op_kind op of TPut row \<Rightarrow> row_ok s row | TDelete key \<Rightarrow> key \<in> col_values (key_ty s))"

section \<open>The catalog of the manifest\<close>

definition cat :: "manifest_state \<Rightarrow> string \<rightharpoonup> table_meta" where
  "cat st = map_of (map (\<lambda>m. (tm_name m, m)) (ms_tables st))"

definition catalog_ok :: "manifest_state \<Rightarrow> bool" where
  "catalog_ok st \<longleftrightarrow>
     distinct (map tm_name (ms_tables st)) \<and> distinct (map tm_id (ms_tables st)) \<and>
     (\<forall>m \<in> set (ms_tables st). good_schema (tm_schema m) \<and> tm_id m < ms_next_table_id st)"

lemma cat_iff: "catalog_ok st \<Longrightarrow> cat st n = Some m \<longleftrightarrow> m \<in> set (ms_tables st) \<and> tm_name m = n"
  by (auto simp: cat_def catalog_ok_def map_of_eq_Some_iff comp_def image_iff)

lemma names_by_id_iff: "catalog_ok st \<Longrightarrow> names_by_id st tid = Some n \<longleftrightarrow> (\<exists>m. cat st n = Some m \<and> tm_id m = tid)"
proof -
  assume ok: "catalog_ok st"
  have "distinct (map fst (rev (map (\<lambda>t. (tm_id t, tm_name t)) (ms_tables st))))"
    using ok by (simp add: catalog_ok_def comp_def rev_map [symmetric])
  then show ?thesis using cat_iff [OF ok] by (auto simp: names_by_id_def map_of_eq_Some_iff)
qed

lemma names_by_id_unique: "catalog_ok st \<Longrightarrow> cat st n = Some m \<Longrightarrow> names_by_id st (tm_id m) = Some k \<longleftrightarrow> k = n"
  using names_by_id_iff [of st "tm_id m"] by (metis option.inject)

abbreviation cat_ki :: "manifest_state \<Rightarrow> string \<Rightarrow> nat" where
  "cat_ki st n \<equiv> sc_key_index (tm_schema (the (cat st n)))"

text \<open>The versions of the table \<open>n\<close> after the writes of a log, from the versions \<open>M\<close>.\<close>

definition after_ops :: "manifest_state \<Rightarrow> string \<Rightarrow> txn_op list \<Rightarrow> version multiset \<Rightarrow> version multiset" where
  "after_ops st n ops M = fold (apply_op (cat_ki st n)) (filter (\<lambda>op. names_by_id st (op_table op) = Some n) ops) M"

lemma after_ops_simps [simp]:
  "after_ops st n [] M = M"
  "after_ops st n (op # ops) M = after_ops st n ops (if names_by_id st (op_table op) = Some n then apply_op (cat_ki st n) op M else M)"
  "after_ops st n (ops @ ops') M = after_ops st n ops' (after_ops st n ops M)"
  by (simp_all add: after_ops_def)

definition ops_ok :: "manifest_state \<Rightarrow> csn \<Rightarrow> txn_op list \<Rightarrow> bool" where
  "ops_ok st lo ops \<longleftrightarrow>
     sorted_wrt (<) (lo # map op_csn ops) \<and> (\<forall>op \<in> set ops. op_csn op \<noteq> NEVER_DELETED) \<and>
     (\<forall>op \<in> set ops. \<forall>n m. cat st n = Some m \<longrightarrow> tm_id m = op_table op \<longrightarrow> op_valid (tm_schema m) op)"

lemma ops_ok_Cons: "ops_ok st lo (op # ops) \<longleftrightarrow>
    lo < op_csn op \<and> op_csn op \<noteq> NEVER_DELETED \<and> (\<forall>n m. cat st n = Some m \<longrightarrow> tm_id m = op_table op \<longrightarrow> op_valid (tm_schema m) op) \<and>
    ops_ok st (op_csn op) ops"
  by (auto simp: ops_ok_def intro: order.strict_trans)

definition last_csn :: "csn \<Rightarrow> txn_op list \<Rightarrow> csn" where
  "last_csn lo ops = last (lo # map op_csn ops)"

lemma last_csn_simps [simp]: "last_csn lo [] = lo" "last_csn lo (op # ops) = last_csn (op_csn op) ops"
    "last_csn lo (ops @ [op]) = op_csn op"
  by (simp_all add: last_csn_def)

section \<open>Replaying\<close>

text \<open>
  A catalog in the middle of recovery: every table of the manifest is there with its schema, its stamps are at most \<open>n\<close>, its versions are those
  of \<open>M\<close>, and its buffer holds at most \<open>k\<close> rows.
\<close>

definition rebuilt :: "manifest_state \<Rightarrow> csn \<Rightarrow> csn \<Rightarrow> nat \<Rightarrow> (string \<Rightarrow> version multiset) \<Rightarrow> database \<Rightarrow> bool" where
  "rebuilt st f n k M db \<longleftrightarrow>
     sk.bt_ok (db_tables db) \<and>
     (\<forall>name t. bt_get str_cmp name (db_tables db) = Some t \<longrightarrow> cat st name \<noteq> None \<and> tb_name t = name \<and>
        tc_seal_threshold (tb_config t) < 2 ^ 32) \<and>
     (\<forall>name m. cat st name = Some m \<longrightarrow> (\<exists>t. bt_get str_cmp name (db_tables db) = Some t \<and> tb_schema t = tm_schema m \<and>
        recovering f n t \<and> tb_versions t = M name \<and> length (l0_entries (ti_l0 (tb_inner t))) \<le> k))"

lemma recovering_attach [simp]: "recovering f n (attach db t) = recovering f n t"
  by (simp add: recovering_def)

lemma recovering_mono: "recovering f n t \<Longrightarrow> n \<le> n' \<Longrightarrow> n' \<noteq> NEVER_DELETED \<Longrightarrow> recovering f n' t"
  unfolding recovering_def using store_ok_mono by blast

lemma rebuilt_mono: "rebuilt st f n k M db \<Longrightarrow> n \<le> n' \<Longrightarrow> n' \<noteq> NEVER_DELETED \<Longrightarrow> k \<le> k' \<Longrightarrow> rebuilt st f n' k' M db"
  unfolding rebuilt_def by (meson order.trans recovering_mono)

definition db_evolved :: "csn \<Rightarrow> database \<Rightarrow> database \<Rightarrow> bool" where
  "db_evolved c db db' \<longleftrightarrow>
     (\<forall>name t. bt_get str_cmp name (db_tables db) = Some t \<longrightarrow>
        (\<exists>t'. bt_get str_cmp name (db_tables db') = Some t' \<and> inner_evolved c (tb_inner t) (tb_inner t')))"

lemma inner_evolved_mono: "inner_evolved c a b \<Longrightarrow> c' \<le> c \<Longrightarrow> inner_evolved c' a b"
  unfolding inner_evolved_def evolved_def by (meson order.strict_trans1)

lemma db_evolved_refl [simp]: "db_evolved c db db"
  by (simp add: db_evolved_def)

lemma db_evolved_trans: "db_evolved c a b \<Longrightarrow> db_evolved c' b d \<Longrightarrow> c \<le> c' \<Longrightarrow> db_evolved c a d"
  unfolding db_evolved_def by (meson inner_evolved_mono inner_evolved_trans)

lemma replay_op_ok:
  assumes cat: "catalog_ok st" and db: "rebuilt st f n k M db" and op: "ops_ok st n [op]"
  obtains db' where "replay_ops (names_by_id st) [op] db = Some db'" "db_csn db' = db_csn db" "db_config db' = db_config db"
    "rebuilt st f (op_csn op) (Suc k) (\<lambda>name. after_ops st name [op] (M name)) db'" "db_evolved n db db'"
proof -
  let ?c = "op_csn op"
  have c: "n < ?c" "?c \<noteq> NEVER_DELETED" using op by (simp_all add: ops_ok_Cons)
  show thesis
  proof (cases "names_by_id st (op_table op)")
    case None
    have "rebuilt st f ?c (Suc k) M db" by (rule rebuilt_mono [OF db]) (use c in auto)
    then show thesis using that [of db] None by (simp add: replay_on_def)
  next
    case (Some name)
    obtain m where m: "cat st name = Some m" "tm_id m = op_table op" using Some names_by_id_iff [OF cat] by auto
    have valid: "op_valid (tm_schema m) op" using op m by (auto simp: ops_ok_Cons)
    obtain t where t: "bt_get str_cmp name (db_tables db) = Some t" "tb_schema t = tm_schema m" "recovering f n t" "tb_versions t = M name"
        "length (l0_entries (ti_l0 (tb_inner t))) \<le> k" "tb_name t = name" "tc_seal_threshold (tb_config t) < 2 ^ 32"
      using db m(1) unfolding rebuilt_def by blast
    have bt: "sk.bt_ok (db_tables db)" using db by (simp add: rebuilt_def)
    have rec: "recovering f n (attach db t)" using t(3) by simp
    obtain t' where t': "(case op_kind op of TPut row \<Rightarrow> replay_insert row ?c | TDelete key \<Rightarrow> replay_delete key ?c) (attach db t) = Some t'"
        "recovering f ?c t'" "tb_versions t' = apply_op (sc_key_index (tm_schema m)) op (M name)" "tb_frame (attach db t) t'"
        "tb_csn t' = db_csn db" "length (l0_entries (ti_l0 (tb_inner t'))) \<le> Suc k"
        "inner_evolved n (tb_inner t) (tb_inner t')"
    proof (cases "op_kind op")
      case (TPut row)
      then have ro: "row_ok (tb_schema (attach db t)) row" using valid t(2) by (simp add: op_valid_def)
      show thesis
        by (rule replay_insert_ok [OF rec ro c]) (rule that, use TPut t in \<open>auto simp: apply_op_def\<close>)
    next
      case (TDelete key)
      then have ro: "key \<in> tb_keys (attach db t)" using valid t(2) by (simp add: op_valid_def)
      show thesis
        by (rule replay_delete_ok [OF rec ro c]) (rule that, use TDelete t in \<open>auto simp: apply_op_def\<close>)
    qed
    let ?db = "db_store name t' db"
    have run: "replay_ops (names_by_id st) [op] db = Some ?db" using Some t(1) t'(1)
      by (simp add: replay_on_def db_table_def split: txn_kind.split)
    have get: "bt_get str_cmp k (db_tables ?db) = (if k = name then Some t' else bt_get str_cmp k (db_tables db))" for k
      using bt by (simp add: db_store_def bt_get_str)
    have fr: "tb_schema t' = tb_schema t" "tb_name t' = name" "tb_config t' = tb_config t" using t'(4) t(6) by (simp_all add: tb_frame_def)
    have "\<exists>u. bt_get str_cmp x (db_tables ?db) = Some u \<and> tb_schema u = tm_schema mx \<and> recovering f ?c u \<and>
        tb_versions u = after_ops st x [op] (M x) \<and> length (l0_entries (ti_l0 (tb_inner u))) \<le> Suc k" if x: "cat st x = Some mx" for x mx
    proof (cases "x = name")
      case True
      then show ?thesis using t' t(2) fr m x Some by (auto simp: get)
    next
      case False
      obtain u where "bt_get str_cmp x (db_tables db) = Some u" "tb_schema u = tm_schema mx" "recovering f n u" "tb_versions u = M x"
          "length (l0_entries (ti_l0 (tb_inner u))) \<le> k"
        using db x unfolding rebuilt_def by blast
      then show ?thesis using False Some c recovering_mono [of f n u ?c] by (auto simp: get)
    qed
    moreover have "sk.bt_ok (db_tables ?db)" using bt by (simp add: db_store_def sk.bt_ok_insert)
    moreover have "cat st x \<noteq> None \<and> tb_name u = x \<and> tc_seal_threshold (tb_config u) < 2 ^ 32"
      if "bt_get str_cmp x (db_tables ?db) = Some u" for x u
      using that db m(1) fr t(7) unfolding rebuilt_def by (cases "x = name") (auto simp: get)
    ultimately have "rebuilt st f ?c (Suc k) (\<lambda>x. after_ops st x [op] (M x)) ?db" unfolding rebuilt_def by blast
    moreover have "db_evolved n db ?db" using t(1) t'(7) by (auto simp: db_evolved_def get)
    ultimately show thesis using that [OF run] t'(5) by (simp add: db_store_def)
  qed
qed

lemma replay_ops_ok:
  "catalog_ok st \<Longrightarrow> rebuilt st f n k M db \<Longrightarrow> ops_ok st n ops \<Longrightarrow>
   \<exists>db'. replay_ops (names_by_id st) ops db = Some db' \<and> db_csn db' = db_csn db \<and> db_config db' = db_config db \<and>
     rebuilt st f (last_csn n ops) (k + length ops) (\<lambda>name. after_ops st name ops (M name)) db' \<and> db_evolved n db db'"
proof (induction ops arbitrary: n k M db)
  case (Cons op ops)
  have "ops_ok st n [op]" "ops_ok st (op_csn op) ops" using Cons.prems(3) by (simp_all add: ops_ok_Cons) (simp add: ops_ok_def)
  then obtain db1 where d1: "replay_ops (names_by_id st) [op] db = Some db1" "db_csn db1 = db_csn db" "db_config db1 = db_config db"
      "rebuilt st f (op_csn op) (Suc k) (\<lambda>name. after_ops st name [op] (M name)) db1" "db_evolved n db db1"
    using replay_op_ok [OF Cons.prems(1,2)] by blast
  have "n \<le> op_csn op" using Cons.prems(3) by (simp add: ops_ok_Cons less_imp_le)
  with Cons.IH [OF Cons.prems(1) d1(4) \<open>ops_ok st (op_csn op) ops\<close>] show ?case
    using replay_ops_append [of "names_by_id st" "[op]" ops db] d1(1,2,3) db_evolved_trans [OF d1(5)] by auto
qed simp


section \<open>Reading the parts back\<close>

text \<open>Bytes from which the part \<open>p\<close> is read back: the image of a part with the same rows, and its tombstones.\<close>

definition part_bytes :: "ipc \<Rightarrow> part \<Rightarrow> bytes \<Rightarrow> bool" where
  "part_bytes I p bs \<longleftrightarrow>
     (\<exists>base ts. part_ok base \<and> storable I base \<and> list_all tombs_fit ts \<and>
        (\<forall>t \<in> set ts. \<forall>e \<in> set t. unat (fst e) < b_len (p_batch base)) \<and>
        bs = part_image I base ts \<and> same_part base (map_of (concat ts)) p)"

abbreviation same_as :: "part \<Rightarrow> part \<Rightarrow> bool" where
  "same_as p q \<equiv> same_part p (dv_map (p_dv p)) q"

lemma read_part_bytes:
  assumes "arrow_ok A" "ipc_ok I" "io_calm io" "part_bytes I p (mf_live (handle path io))"
  shows "\<exists>q. read_part A I path io = Some (Inr q, io_open path io) \<and> same_as p q"
    "\<exists>su. read_part_summary path io = (Inr su, io_open path io)"
proof -
  obtain base ts where b: "part_ok base" "storable I base" "list_all tombs_fit ts"
      "\<forall>t \<in> set ts. \<forall>e \<in> set t. unat (fst e) < b_len (p_batch base)"
      "mf_live (handle path io) = part_image I base ts" "same_part base (map_of (concat ts)) p"
    using assms(4) by (auto simp: part_bytes_def)
  have t: "tombs_fit []" "0 < length (encode_tombstones [])"
    by (simp_all add: tombs_fit_def tombstone_payload_def enc_u32_def encode_tombstones_def)
  have live: "mf_live (handle path io) = part_image I base ts @ take 0 (encode_tombstones [])" using b(5) by simp
  obtain q where q: "read_part A I path io = Some (Inr q, io_open path io)" "same_part base (map_of (concat ts)) q"
    by (rule read_part_ok [OF assms(1,2) b(1-4) t assms(3) live])
  have "same_as p q" using q(2) b(6) by (simp add: same_part_def)
  with q(1) show "\<exists>q. read_part A I path io = Some (Inr q, io_open path io) \<and> same_as p q" by blast
  show "\<exists>su. read_part_summary path io = (Inr su, io_open path io)"
    using read_summary_ok [OF b(1,2) assms(3)] b(5) unfolding part_image_def by blast
qed

text \<open>The same files, seen through their handles.\<close>

definition same_files :: "mem_io \<Rightarrow> mem_io \<Rightarrow> bool" where
  "same_files io io' \<longleftrightarrow> io_calm io' \<and> (\<forall>p. handle p io' = handle p io)"

lemma same_files_refl: "io_calm io \<Longrightarrow> same_files io io"
  by (simp add: same_files_def)

lemma same_files_trans: "same_files a b \<Longrightarrow> same_files b c \<Longrightarrow> same_files a c"
  by (simp add: same_files_def)

lemma same_files_open: "io_calm io \<Longrightarrow> same_files io (io_open path io)"
  by (simp add: same_files_def io_calm_ok)

definition lazy_part :: "u32 \<Rightarrow> part \<Rightarrow> paged_part \<Rightarrow> bool" where
  "lazy_part tid p pg \<longleftrightarrow> pg_path pg = part_path tid (p_id p) \<and> pg_loaded pg = None"

lemma register_parts_ok:
  assumes "arrow_ok A" "ipc_ok I"
  shows "io_calm io \<Longrightarrow> \<forall>p \<in> set ps. part_bytes I p (mf_live (handle (part_path tid (p_id p)) io)) \<Longrightarrow>
    \<exists>pgs m' io'. register_parts tid (map p_id ps) m io = (Inr pgs, m', io') \<and> same_files io io' \<and> list_all2 (lazy_part tid) ps pgs"
proof (induction ps arbitrary: m io)
  case Nil
  then show ?case by (simp add: same_files_refl)
next
  case (Cons p ps)
  let ?path = "part_path tid (p_id p)"
  obtain su where su: "read_part_summary ?path io = (Inr su, io_open ?path io)"
    using read_part_bytes(2) [OF assms Cons.prems(1), of p ?path] Cons.prems(2) by auto
  have io: "same_files io (io_open ?path io)" "io_calm (io_open ?path io)" "io_ok io"
    using Cons.prems(1) by (simp_all add: same_files_open io_calm_ok)
  obtain pg m1 where pg: "pg_register su ?path m = (pg, m1)" "lazy_part tid p pg"
    by (simp add: pg_register_def lazy_part_def)
  have "\<forall>p \<in> set ps. part_bytes I p (mf_live (handle (part_path tid (p_id p)) (io_open ?path io)))"
    using Cons.prems(2) io(3) by simp
  from Cons.IH [OF io(2) this, of m1] obtain pgs m' io' where
    "register_parts tid (map p_id ps) m1 (io_open ?path io) = (Inr pgs, m', io')" "same_files (io_open ?path io) io'" "list_all2 (lazy_part tid) ps pgs"
    by auto
  then show ?case using su pg same_files_trans [OF io(1)] by (intro exI [of _ "pg # pgs"]) (simp add: Let_def)
qed

lemma load_parts_ok:
  assumes "arrow_ok A" "ipc_ok I"
  shows "io_calm io \<Longrightarrow> \<forall>p \<in> set ps. part_bytes I p (mf_live (handle (part_path tid (p_id p)) io)) \<Longrightarrow> list_all2 (lazy_part tid) ps pgs \<Longrightarrow>
    \<exists>qs m' io'. load_parts A I mem pgs m io = Some (qs, m', io') \<and> same_files io io' \<and> list_all2 same_as ps qs"
proof (induction ps arbitrary: pgs m io)
  case Nil
  then show ?case by (simp add: same_files_refl)
next
  case (Cons p ps)
  let ?path = "part_path tid (p_id p)"
  obtain pg pgs' where pgs: "pgs = pg # pgs'" "lazy_part tid p pg" "list_all2 (lazy_part tid) ps pgs'"
    using Cons.prems(3) by (auto simp: list_all2_Cons1)
  obtain q where q: "read_part A I ?path io = Some (Inr q, io_open ?path io)" "same_as p q"
    using read_part_bytes(1) [OF assms Cons.prems(1), of p ?path] Cons.prems(2) by auto
  have io: "same_files io (io_open ?path io)" "io_calm (io_open ?path io)" "io_ok io"
    using Cons.prems(1) by (simp_all add: same_files_open io_calm_ok)
  obtain pg' m1 where pg: "pg_load A I mem pg m io = Some (Inr q, pg', m1, io_open ?path io)"
    using pgs(2) q(1) by (simp add: pg_load_def lazy_part_def)
  have "\<forall>p \<in> set ps. part_bytes I p (mf_live (handle (part_path tid (p_id p)) (io_open ?path io)))"
    using Cons.prems(2) io(3) by simp
  from Cons.IH [OF io(2) this pgs(3), of m1] obtain qs m' io' where
    "load_parts A I mem pgs' m1 (io_open ?path io) = Some (qs, m', io')" "same_files (io_open ?path io) io'" "list_all2 same_as ps qs"
    by auto
  then show ?case using pg q(2) pgs(1) same_files_trans [OF io(1)] by (intro exI [of _ "q # qs"]) simp
qed

section \<open>Loading the catalog\<close>

text \<open>
  The manifest names, for every table, the parts of its image \<open>J\<close> at the last checkpoint, and \<open>bytes_of\<close> gives the content of their files.
\<close>

definition parts_on_disk :: "ipc \<Rightarrow> (string \<Rightarrow> table_inner) \<Rightarrow> (string \<Rightarrow> bytes) \<Rightarrow> table_meta \<Rightarrow> bool" where
  "parts_on_disk I J bytes_of m \<longleftrightarrow>
     tm_part_ids m = map p_id (ti_parts (J (tm_name m))) \<and> tm_next_part_id m = ti_next_part_id (J (tm_name m)) \<and>
     (\<forall>p \<in> set (ti_parts (J (tm_name m))). part_bytes I p (bytes_of (part_path (tm_id m) (p_id p))))"

abbreviation live_of :: "mem_io \<Rightarrow> string \<Rightarrow> bytes" where
  "live_of io \<equiv> \<lambda>path. mf_live (handle path io)"

lemma parts_on_disk_same: "same_files io io' \<Longrightarrow> parts_on_disk I J (live_of io') m = parts_on_disk I J (live_of io) m"
  by (simp add: parts_on_disk_def same_files_def)

definition pending_for :: "(string \<Rightarrow> table_inner) \<Rightarrow> table_meta \<Rightarrow> string \<times> u64 \<times> paged_part list \<Rightarrow> bool" where
  "pending_for J m e \<longleftrightarrow> fst e = tm_name m \<and> fst (snd e) = tm_next_part_id m \<and>
     list_all2 (lazy_part (tm_id m)) (ti_parts (J (tm_name m))) (snd (snd e))"

lemma load_tables_ok:
  assumes "arrow_ok A" "ipc_ok I"
  shows "io_calm io \<Longrightarrow> \<forall>m \<in> set metas. parts_on_disk I J (live_of io) m \<Longrightarrow> distinct (map tm_name metas) \<Longrightarrow>
    sk.bt_ok (db_tables db) \<Longrightarrow> \<forall>m \<in> set metas. bt_get str_cmp (tm_name m) (db_tables db) = None \<Longrightarrow>
    \<exists>pending db' ids' pm' io'. load_tables metas db ids pm io = (Inr (pending, db', ids'), pm', io') \<and> same_files io io' \<and>
      sk.bt_ok (db_tables db') \<and> db_csn db' = db_csn db \<and> db_config db' = db_config db \<and> list_all2 (pending_for J) metas pending \<and>
      ids' = ids ++ map_of (map (\<lambda>m. (tm_name m, tm_id m)) metas) \<and>
      (\<forall>n. bt_get str_cmp n (db_tables db') = (case map_of (map (\<lambda>m. (tm_name m, m)) metas) n of
         Some m \<Rightarrow> Some (table_new n (tm_schema m) (db_csn db) (db_metrics db) (db_config db)) | None \<Rightarrow> bt_get str_cmp n (db_tables db)))"
proof (induction metas arbitrary: db ids pm io)
  case Nil
  then show ?case by (simp add: same_files_refl)
next
  case (Cons m metas)
  let ?n = "tm_name m" let ?db = "fresh_table ?n (tm_schema m) db"
  have c: "create_table_schema ?n (tm_schema m) db = (Inr (table_new ?n (tm_schema m) (db_csn db) (db_metrics db) (db_config db)), ?db)"
    using Cons.prems(5) by (simp add: create_schema_cases)
  have get: "bt_get str_cmp n (db_tables ?db) = (if n = ?n then Some (table_new ?n (tm_schema m) (db_csn db) (db_metrics db) (db_config db))
      else bt_get str_cmp n (db_tables db))" for n
    using Cons.prems(4) by (simp add: fresh_table_def bt_get_str)
  have db: "sk.bt_ok (db_tables ?db)" "db_csn ?db = db_csn db" "db_metrics ?db = db_metrics db" "db_config ?db = db_config db"
    using Cons.prems(4) by (simp_all add: fresh_table_def sk.bt_ok_insert)
  have on: "parts_on_disk I J (live_of io) m" using Cons.prems(2) by simp
  then obtain lazy pm1 io1 where r: "register_parts (tm_id m) (tm_part_ids m) pm io = (Inr lazy, pm1, io1)" "same_files io io1"
      "list_all2 (lazy_part (tm_id m)) (ti_parts (J ?n)) lazy"
    using register_parts_ok [OF assms Cons.prems(1), of "ti_parts (J ?n)" "tm_id m" pm] by (auto simp: parts_on_disk_def)
  have io1: "io_calm io1" using r(2) by (simp add: same_files_def)
  have "\<forall>m \<in> set metas. parts_on_disk I J (live_of io1) m" using Cons.prems(2) parts_on_disk_same [OF r(2)] by simp
  note on1 = this
  have dist: "distinct (map tm_name metas)" using Cons.prems(3) by simp
  have free: "\<forall>x \<in> set metas. bt_get str_cmp (tm_name x) (db_tables ?db) = None" using Cons.prems(3,5) by (auto simp: get image_iff)
  obtain pending db' ids' pm' io' where l: "load_tables metas ?db (ids(?n \<mapsto> tm_id m)) pm1 io1 = (Inr (pending, db', ids'), pm', io')"
      "same_files io1 io'" "sk.bt_ok (db_tables db')" "db_csn db' = db_csn db" "db_config db' = db_config db"
      "list_all2 (pending_for J) metas pending" "ids' = (ids(?n \<mapsto> tm_id m)) ++ map_of (map (\<lambda>m. (tm_name m, tm_id m)) metas)"
      "\<forall>n. bt_get str_cmp n (db_tables db') = (case map_of (map (\<lambda>m. (tm_name m, m)) metas) n of
         Some m \<Rightarrow> Some (table_new n (tm_schema m) (db_csn db) (db_metrics db) (db_config db)) | None \<Rightarrow> bt_get str_cmp n (db_tables ?db))"
    using Cons.IH [OF io1 on1 dist db(1) free, of "ids(?n \<mapsto> tm_id m)" pm1, unfolded db(2-4)]
    by (elim exE conjE) (rule that, assumption+)
  have nn: "?n \<notin> set (map tm_name metas)" using Cons.prems(3) by simp
  then have none: "map_of (map (\<lambda>m. (tm_name m, m)) metas) ?n = None" "map_of (map (\<lambda>m. (tm_name m, tm_id m)) metas) ?n = None"
    by (auto simp: map_of_eq_None_iff comp_def)
  have ids: "ids' = ids ++ map_of (map (\<lambda>m. (tm_name m, tm_id m)) (m # metas))"
  proof (rule ext)
    fix x show "ids' x = (ids ++ map_of (map (\<lambda>m. (tm_name m, tm_id m)) (m # metas))) x"
      using none(2) unfolding l(7) by (cases "x = ?n") (simp_all add: map_add_def split: option.split)
  qed
  have tabs: "bt_get str_cmp n (db_tables db') = (case map_of (map (\<lambda>m. (tm_name m, m)) (m # metas)) n of
         Some m \<Rightarrow> Some (table_new n (tm_schema m) (db_csn db) (db_metrics db) (db_config db)) | None \<Rightarrow> bt_get str_cmp n (db_tables db))" for n
    using l(8) none(1) get [of n] by (cases "n = ?n") (simp_all split: option.split)
  have pm: "list_all2 (pending_for J) (m # metas) ((?n, tm_next_part_id m, lazy) # pending)"
    using r(3) l(6) by (simp add: pending_for_def)
  have "load_tables (m # metas) db ids pm io = (Inr ((?n, tm_next_part_id m, lazy) # pending, db', ids'), pm', io')"
    using c r(1) l(1) by simp
  then show ?case using same_files_trans [OF r(2) l(2)] l(3-5) ids tabs pm by blast
qed

lemma warm_tables_ok:
  assumes "arrow_ok A" "ipc_ok I"
  shows "io_calm io \<Longrightarrow> \<forall>m \<in> set metas. parts_on_disk I J (live_of io) m \<Longrightarrow> distinct (map tm_name metas) \<Longrightarrow>
    sk.bt_ok (db_tables db) \<Longrightarrow> \<forall>m \<in> set metas. \<exists>t. bt_get str_cmp (tm_name m) (db_tables db) = Some t \<Longrightarrow> list_all2 (pending_for J) metas pending \<Longrightarrow>
    \<exists>db' pm' io'. warm_tables A I mem pending db pm io = Some (db', pm', io') \<and> same_files io io' \<and>
      sk.bt_ok (db_tables db') \<and> db_csn db' = db_csn db \<and> db_config db' = db_config db \<and>
      (\<forall>n. n \<notin> tm_name ` set metas \<longrightarrow> bt_get str_cmp n (db_tables db') = bt_get str_cmp n (db_tables db)) \<and>
      (\<forall>m \<in> set metas. \<forall>t. bt_get str_cmp (tm_name m) (db_tables db) = Some t \<longrightarrow> (\<exists>t' qs. bt_get str_cmp (tm_name m) (db_tables db') = Some t' \<and>
         tb_inner t' = (tb_inner t)\<lparr>ti_parts := qs, ti_next_part_id := tm_next_part_id m\<rparr> \<and> list_all2 same_as (ti_parts (J (tm_name m))) qs \<and>
         tb_schema t' = tb_schema t \<and> tb_name t' = tb_name t \<and> tb_config t' = tb_config t))"
proof (induction metas arbitrary: db pm io pending)
  case Nil
  then show ?case by (simp add: same_files_refl)
next
  case (Cons m metas)
  let ?n = "tm_name m"
  obtain e pending' where e: "pending = e # pending'" "pending_for J m e" "list_all2 (pending_for J) metas pending'"
    using Cons.prems(6) by (auto simp: list_all2_Cons1)
  then obtain lazy where pend: "pending = (?n, tm_next_part_id m, lazy) # pending'" "list_all2 (lazy_part (tm_id m)) (ti_parts (J ?n)) lazy"
      "list_all2 (pending_for J) metas pending'"
    by (cases e) (auto simp: pending_for_def)
  obtain t where t: "bt_get str_cmp ?n (db_tables db) = Some t" using Cons.prems(5) by auto
  have on: "\<forall>p \<in> set (ti_parts (J ?n)). part_bytes I p (mf_live (handle (part_path (tm_id m) (p_id p)) io))"
    using Cons.prems(2) by (simp add: parts_on_disk_def)
  obtain qs pm1 io1 where r: "load_parts A I mem lazy pm io = Some (qs, pm1, io1)" "same_files io io1" "list_all2 same_as (ti_parts (J ?n)) qs"
    using load_parts_ok [OF assms Cons.prems(1) on pend(2), of mem pm] by blast
  let ?t = "install_parts qs (tm_next_part_id m) (attach db t)"
  let ?db = "db_store ?n ?t db"
  have get: "bt_get str_cmp n (db_tables ?db) = (if n = ?n then Some ?t else bt_get str_cmp n (db_tables db))" for n
    using Cons.prems(4) by (simp add: db_store_def bt_get_str)
  have db: "sk.bt_ok (db_tables ?db)" "db_csn ?db = db_csn db" "db_config ?db = db_config db"
    using Cons.prems(4) by (simp_all add: db_store_def sk.bt_ok_insert install_parts_def)
  have io1: "io_calm io1" using r(2) by (simp add: same_files_def)
  have on1: "\<forall>m \<in> set metas. parts_on_disk I J (live_of io1) m" using Cons.prems(2) parts_on_disk_same [OF r(2)] by simp
  have dist: "distinct (map tm_name metas)" using Cons.prems(3) by simp
  have there: "\<forall>x \<in> set metas. \<exists>t. bt_get str_cmp (tm_name x) (db_tables ?db) = Some t" using Cons.prems(5) by (simp add: get)
  obtain db' pm' io' where l: "warm_tables A I mem pending' ?db pm1 io1 = Some (db', pm', io')"
      "same_files io1 io'" "sk.bt_ok (db_tables db')" "db_csn db' = db_csn db" "db_config db' = db_config db"
      "\<forall>n. n \<notin> tm_name ` set metas \<longrightarrow> bt_get str_cmp n (db_tables db') = bt_get str_cmp n (db_tables ?db)"
      "\<forall>m \<in> set metas. \<forall>t. bt_get str_cmp (tm_name m) (db_tables ?db) = Some t \<longrightarrow> (\<exists>t' qs. bt_get str_cmp (tm_name m) (db_tables db') = Some t' \<and>
         tb_inner t' = (tb_inner t)\<lparr>ti_parts := qs, ti_next_part_id := tm_next_part_id m\<rparr> \<and> list_all2 same_as (ti_parts (J (tm_name m))) qs \<and>
         tb_schema t' = tb_schema t \<and> tb_name t' = tb_name t \<and> tb_config t' = tb_config t)"
    using Cons.IH [OF io1 on1 dist db(1) there pend(3), of pm1, unfolded db(2,3)]
    by (elim exE conjE) (rule that, assumption+)
  have nn: "?n \<notin> tm_name ` set metas" using Cons.prems(3) by simp
  have run: "warm_tables A I mem pending db pm io = Some (db', pm', io')"
    using pend(1) t r(1) l(1) by (simp add: db_table_def)
  have other: "bt_get str_cmp n (db_tables db') = bt_get str_cmp n (db_tables db)" if "n \<notin> tm_name ` set (m # metas)" for n
    using that l(6) by (simp add: get)
  have "\<exists>t' qs. bt_get str_cmp (tm_name x) (db_tables db') = Some t' \<and>
         tb_inner t' = (tb_inner u)\<lparr>ti_parts := qs, ti_next_part_id := tm_next_part_id x\<rparr> \<and> list_all2 same_as (ti_parts (J (tm_name x))) qs \<and>
         tb_schema t' = tb_schema u \<and> tb_name t' = tb_name u \<and> tb_config t' = tb_config u"
    if x: "x \<in> set (m # metas)" and u: "bt_get str_cmp (tm_name x) (db_tables db) = Some u" for x u
  proof (cases "x = m")
    case True
    have "bt_get str_cmp ?n (db_tables db') = Some ?t" using l(6) nn by (simp add: get)
    moreover have "tb_inner ?t = (tb_inner t)\<lparr>ti_parts := qs, ti_next_part_id := tm_next_part_id m\<rparr>" "tb_schema ?t = tb_schema t"
      "tb_name ?t = tb_name t" "tb_config ?t = tb_config t"
      by (simp_all add: install_parts_def)
    moreover have "u = t" using t u True by simp
    ultimately show ?thesis using True r(3) by blast
  next
    case False
    then have "x \<in> set metas" using x by simp
    moreover from this have "tm_name x \<noteq> ?n" using nn by (metis imageI)
    ultimately have "x \<in> set metas" "tm_name x \<noteq> ?n" .
    then show ?thesis using l(7) [rule_format, of x u] u by (simp add: get)
  qed
  then show ?case using run same_files_trans [OF r(2) l(2)] l(3-5) other by blast
qed


section \<open>What recovery needs\<close>

definition images_ok :: "csn \<Rightarrow> (string \<Rightarrow> table_inner) \<Rightarrow> manifest_state \<Rightarrow> bool" where
  "images_ok f J st \<longleftrightarrow>
     f \<le> ms_checkpoint_csn st \<and> ms_checkpoint_csn st \<noteq> NEVER_DELETED \<and>
     (\<forall>n m. cat st n = Some m \<longrightarrow> inner_ok (tm_schema m) (J n) \<and> l0_entries (ti_l0 (J n)) = [] \<and>
        store_ok (sc_key_index (tm_schema m)) f (ms_checkpoint_csn st) (ti_versions (J n)) \<and> (\<forall>v \<in># ti_versions (J n). snd (snd v) \<noteq> 0))"

definition ops_fit :: "manifest_state \<Rightarrow> txn_op list \<Rightarrow> bool" where
  "ops_fit st ops \<longleftrightarrow>
     ops_ok st (ms_checkpoint_csn st) ops \<and> length ops < 2 ^ 32 - 1 \<and> (\<forall>op \<in> set ops. op_table op < ms_next_table_id st)"

definition log_fits :: "manifest_state \<Rightarrow> wal_record list \<Rightarrow> bool" where
  "log_fits st rs \<longleftrightarrow> (\<forall>r \<in> set rs. rec_ops r \<noteq> []) \<and> ops_fit st (log_ops rs)"

text \<open>The versions that the image \<open>J\<close> and the log give the table \<open>n\<close>.\<close>

definition logged_versions :: "manifest_state \<Rightarrow> (string \<Rightarrow> table_inner) \<Rightarrow> txn_op list \<Rightarrow> string \<Rightarrow> version multiset" where
  "logged_versions st J ops n = after_ops st n ops (ti_versions (J n))"

abbreviation logged_csn :: "manifest_state \<Rightarrow> txn_op list \<Rightarrow> csn" where
  "logged_csn st ops \<equiv> last_csn (ms_checkpoint_csn st) ops"

lemma ops_ok_append: "ops_ok st lo (xs @ ys) \<longleftrightarrow> ops_ok st lo xs \<and> ops_ok st (last_csn lo xs) ys"
  by (induction xs arbitrary: lo) (simp_all add: ops_ok_Cons, simp add: ops_ok_def)

lemma ops_ok_last: "ops_ok st lo ops \<Longrightarrow> lo \<le> last_csn lo ops \<and> (lo \<noteq> NEVER_DELETED \<longrightarrow> last_csn lo ops \<noteq> NEVER_DELETED)"
  by (induction ops arbitrary: lo) (auto simp: ops_ok_Cons intro: order.trans less_imp_le)

lemma foldl_max_ops: "ops_ok st lo ops \<Longrightarrow> foldl max lo (map op_csn ops) = last_csn lo ops"
proof (induction ops arbitrary: lo)
  case (Cons op ops)
  then have "max lo (op_csn op) = op_csn op" by (simp add: ops_ok_Cons less_imp_le max_absorb2)
  then show ?case using Cons by (simp add: ops_ok_Cons)
qed simp

lemma rec_csn_last:
  assumes "ops_ok st lo (rec_ops r)" "rec_ops r \<noteq> []"
  shows "rec_csn r = last_csn lo (rec_ops r)" "lo < rec_csn r"
proof -
  show eq: "rec_csn r = last_csn lo (rec_ops r)"
  proof (cases r)
    case (WTxn ops)
    obtain op ops' where o: "ops = op # ops'" using assms(2) WTxn by (cases ops) auto
    have "ops_ok st (op_csn op) ops'" using assms(1) by (simp add: WTxn o ops_ok_Cons)
    then show ?thesis using foldl_max_ops by (simp add: WTxn o max_or_0_def)
  qed (use assms in auto)
  obtain op ops' where o: "rec_ops r = op # ops'" using assms(2) by (cases "rec_ops r") auto
  then show "lo < rec_csn r" using assms(1) ops_ok_last [of st "op_csn op" ops'] unfolding eq by (auto simp: ops_ok_Cons)
qed

lemma log_csns:
  "\<forall>r \<in> set rs. rec_ops r \<noteq> [] \<Longrightarrow> ops_ok st lo (log_ops rs) \<Longrightarrow>
   (\<forall>r \<in> set rs. lo < rec_csn r) \<and> foldl max lo (map rec_csn rs) = last_csn lo (log_ops rs)"
proof (induction rs arbitrary: lo)
  case (Cons r rs)
  have r: "ops_ok st lo (rec_ops r)" "ops_ok st (last_csn lo (rec_ops r)) (log_ops rs)" "rec_ops r \<noteq> []"
    using Cons.prems by (simp_all add: ops_ok_append)
  note R = rec_csn_last [OF r(1,3)]
  have IH: "\<forall>x \<in> set rs. rec_csn r < rec_csn x" "foldl max (rec_csn r) (map rec_csn rs) = last_csn (rec_csn r) (log_ops rs)"
    using Cons.IH [OF _ r(2)] Cons.prems(1) R(1) by simp_all
  have "last_csn lo (rec_ops r @ log_ops rs) = last_csn (last_csn lo (rec_ops r)) (log_ops rs)"
    by (simp add: last_csn_def last_append)
  moreover have "max lo (rec_csn r) = rec_csn r" using R(2) by (simp add: less_imp_le max_absorb2)
  ultimately show ?case using IH R by auto
qed simp

lemma no_replay: "replay_count ids r = 0 \<Longrightarrow> replay_ops ids (rec_ops r) db = Some db"
  by (cases r) (auto simp: replay_on_def split: if_splits)

lemma no_replay_log: "\<forall>r \<in> set rs. replay_count ids r = 0 \<Longrightarrow> replay_ops ids (log_ops rs) db = Some db"
  by (induction rs arbitrary: db) (simp_all add: replay_ops_append no_replay)

text \<open>The tables after loading: the images with their buffers empty.\<close>

lemma same_versions_of: "list_all2 same_as ps qs \<Longrightarrow> \<forall>p \<in> set ps. part_ok p \<Longrightarrow> versions_of qs = versions_of ps"
  by (induction rule: list_all2_induct) (simp_all add: same_part_versions)

lemma same_ids: "list_all2 same_as ps qs \<Longrightarrow> map p_id qs = map p_id ps"
  by (induction rule: list_all2_induct) (simp_all add: same_part_def)

lemma loaded_ok:
  assumes J: "inner_ok s j" "l0_entries (ti_l0 j) = []" "store_ok (sc_key_index s) f n (ti_versions j)"
    and qs: "list_all2 same_as (ti_parts j) qs" and inner: "tb_inner t = \<lparr>ti_l0 = l0_new s, ti_parts = qs, ti_next_part_id = ti_next_part_id j, ti_next_rowid = i\<rparr>"
    and s: "tb_schema t = s"
  shows "recovering f n t" "tb_versions t = ti_versions j" "l0_entries (ti_l0 (tb_inner t)) = []"
proof -
  have q: "part_ok q \<and> p_schema q = s \<and> dv_clean q \<and> p_id q < ti_next_part_id j" if q_in: "q \<in> set qs" for q
  proof -
    obtain i where i: "i < length qs" "q = qs ! i" using q_in unfolding in_set_conv_nth by blast
    then have "same_as (ti_parts j ! i) q" "ti_parts j ! i \<in> set (ti_parts j)" using qs by (auto simp: list_all2_conv_all_nth)
    then show ?thesis using J(1) by (auto simp: same_part_def inner_ok_def dv_clean_def)
  qed
  have sch: "schema_ok s" using J(1) by (simp add: inner_ok_def)
  show v: "tb_versions t = ti_versions j"
    using J(1,2) same_versions_of [OF qs] by (simp add: inner tb_versions_def ti_versions_def l0_new_def inner_ok_def)
  show "l0_entries (ti_l0 (tb_inner t)) = []" by (simp add: inner l0_new_def)
  have "l0_schema (l0_new s) = s" by (simp add: l0_new_def)
  then have "inner_ok s (tb_inner t)" using J(1) q l0_ok_new [OF sch] same_ids [OF qs] by (simp add: inner inner_ok_def)
  then show "recovering f n t" using J(3) v s by (simp add: recovering_def)
qed


section \<open>Opening a store\<close>

lemma wal_replay_calm: "io_calm io \<Longrightarrow> wal_replay path io = (Inr (replay_bytes (live_of io path)), io_open path io)"
  by (simp add: wal_replay_def read_whole_calm io_bind_def io_calm_ok)

definition fresh_wal :: "durability \<Rightarrow> nat \<Rightarrow> wal" where
  "fresh_wal mode n = \<lparr>w_file = WAL_PATH, w_written = n, w_group = gc_complete n gc_new, w_mode = mode, w_syncs = 0, w_appends = 0\<rparr>"

definition persisted_at :: "manifest_state \<Rightarrow> persisted" where
  "persisted_at st = concat (map (\<lambda>t. map (\<lambda>pid. ((tm_id t, pid), ms_checkpoint_csn st)) (tm_part_ids t)) (ms_tables st))"

lemma storage_open_calm:
  assumes calm: "io_calm io" and mn: "manifest_scan (live_of io MANIFEST_PATH) = (st, len)"
    and load: "load_tables (ms_tables st) (with_config (so_table cfg)) Map.empty pm_default (io_open MANIFEST_PATH io) = (Inr (pending, db, ids), pm, io1)"
    and same: "same_files io io1" and rs: "rr_records (replay_bytes (live_of io WAL_PATH)) = rs" "\<forall>r \<in> set rs. ms_checkpoint_csn st < rec_csn r"
  obtains rep where "\<And>s0. s0 = \<lparr>st_io = io_open WAL_PATH io1, st_db = set_csn_floor (foldl max (ms_checkpoint_csn st) (map rec_csn rs)) db,
      st_wal = fresh_wal (so_durability cfg) (length (live_of io WAL_PATH)), st_manifest = \<lparr>mn_file = MANIFEST_PATH, mn_len = len, mn_commits = 0\<rparr>,
      st_state = st, st_table_ids = ids, st_config = cfg, st_report = rep, st_pager = pm, st_pending = pending, st_warmed = False,
      st_persisted = persisted_at st\<rparr> \<Longrightarrow>
    storage_open A I mem cfg io =
     (if 0 < sum_list (map (replay_count (names_by_id st)) rs)
      then do { s \<leftarrow> warm A I mem s0; db \<leftarrow> replay_tail (names_by_id st) (ms_checkpoint_csn st) rs (st_db s); Some (Inr (s\<lparr>st_db := db\<rparr>), st_io s) }
      else Some (Inr s0, st_io s0))"
proof -
  have h: "io_calm io1" "handle p io1 = handle p io" "io_ok io1" for p using same by (simp_all add: same_files_def io_calm_ok)
  have open_: "manifest_open MANIFEST_PATH io = (Inr (\<lparr>mn_file = MANIFEST_PATH, mn_len = len, mn_commits = 0\<rparr>, st), io_open MANIFEST_PATH io)"
    by (rule manifest_open_calm [OF calm mn])
  have wal: "wal_open WAL_PATH (so_durability cfg) io1 = (fresh_wal (so_durability cfg) (length (live_of io WAL_PATH)), io_open WAL_PATH io1)"
    using h by (simp add: wal_open_def fresh_wal_def file_len_def Let_def)
  have "io_open WAL_PATH (io_open WAL_PATH io1) = io_open WAL_PATH io1"
    using h(3) by (auto simp: io_open_def io_file_put split: option.split)
  then have rep: "wal_replay WAL_PATH (io_open WAL_PATH io1) = (Inr (replay_bytes (live_of io WAL_PATH)), io_open WAL_PATH io1)"
    using wal_replay_calm [of "io_open WAL_PATH io1" WAL_PATH] h by simp
  have tl: "tail_records (ms_checkpoint_csn st) rs = rs" using rs(2) by (simp add: tail_records_def)
  define replayed where "replayed = sum_list (map (replay_count (names_by_id st)) rs)"
  define nparts where "nparts = sum_list (map (\<lambda>(n, nx, lazy). length lazy) pending)"
  define report where "report = \<lparr>re_tables_loaded = length (ms_tables st), re_parts_loaded = nparts,
    re_rows_from_parts = sum_list (map (\<lambda>(n, nx, lazy). sum_list (map (\<lambda>p. ps_num_rows (pg_summary p)) lazy)) pending),
    re_wal_records_replayed = replayed, re_wal_bytes_scanned = rr_valid_bytes (replay_bytes (live_of io WAL_PATH)),
    re_truncated_tail = rr_truncated_tail (replay_bytes (live_of io WAL_PATH)),
    re_recovered_csn = foldl max (ms_checkpoint_csn st) (map rec_csn rs), re_parts_registered_lazily = nparts\<rparr>"
  show thesis
    by (rule that [of report]) (simp add: storage_open_def open_ load wal rep rs(1) tl Let_def persisted_at_def report_def nparts_def
        replayed_def [symmetric])
qed

lemma current_set_floor:
  assumes "c \<noteq> NEVER_DELETED"
  shows "current (set_floor c csn_new) = c" "0 < cg_next (set_floor c csn_new)" "cg_active (set_floor c csn_new) = []"
proof -
  have "c < c + 1" using assms by (intro less_plus_one_word) (simp add: NEVER_DELETED_def)
  then have "c + 1 \<noteq> 0" "1 \<le> c + 1" by (auto simp: word_le_nat_alt unat_gt_0 Suc_le_eq)
  then show "current (set_floor c csn_new) = c" "0 < cg_next (set_floor c csn_new)" "cg_active (set_floor c csn_new) = []"
    by (simp_all add: current_def set_floor_def csn_new_def FIRST_CSN_def max_absorb2 word_gt_0 less_le_trans)
qed

lemma part_bytes_same:
  assumes "part_bytes I p bs" "same_as p q"
  shows "part_bytes I q bs"
proof -
  obtain base ts where b: "part_ok base" "storable I base" "list_all tombs_fit ts"
      "\<forall>t \<in> set ts. \<forall>e \<in> set t. unat (fst e) < b_len (p_batch base)" "bs = part_image I base ts" "same_part base (map_of (concat ts)) p"
    using assms(1) unfolding part_bytes_def by blast
  have "same_part base (map_of (concat ts)) q" using b(6) assms(2) by (simp add: same_part_def)
  then show ?thesis using b(1-5) unfolding part_bytes_def by blast
qed

lemma parts_on_disk_same_parts:
  assumes "parts_on_disk I J bs m" "list_all2 same_as (ti_parts (J (tm_name m))) (ti_parts (J' (tm_name m)))"
    "ti_next_part_id (J' (tm_name m)) = ti_next_part_id (J (tm_name m))"
  shows "parts_on_disk I J' bs m"
proof -
  let ?ps = "ti_parts (J (tm_name m))" and ?qs = "ti_parts (J' (tm_name m))"
  have "part_bytes I q (bs (part_path (tm_id m) (p_id q)))" if q_in: "q \<in> set ?qs" for q
  proof -
    obtain i where i: "i < length ?qs" "q = ?qs ! i" using q_in unfolding in_set_conv_nth by blast
    then have s: "same_as (?ps ! i) q" "?ps ! i \<in> set ?ps" using assms(2) by (auto simp: list_all2_conv_all_nth)
    have "part_bytes I (?ps ! i) (bs (part_path (tm_id m) (p_id (?ps ! i))))" using assms(1) s(2) by (simp add: parts_on_disk_def)
    then show ?thesis using part_bytes_same [OF _ s(1)] s(1) by (simp add: same_part_def)
  qed
  then show ?thesis using assms same_ids [OF assms(2)] by (simp add: parts_on_disk_def)
qed

lemma rebuilt_db_ok:
  assumes "rebuilt st f n k M db" "k < 2 ^ 32 - 1" "current (db_csn db) = n" "0 < cg_next (db_csn db)" "n \<noteq> NEVER_DELETED" "f \<le> n"
    "tc_seal_threshold (db_config db) < 2 ^ 32"
  shows "db_ok f db"
proof -
  have "table_ok f (attach db t) \<and> tb_name t = name" if g: "bt_get str_cmp name (db_tables db) = Some t" for name t
  proof -
    have c: "cat st name \<noteq> None" "tb_name t = name" "tc_seal_threshold (tb_config t) < 2 ^ 32" using g assms(1) unfolding rebuilt_def by blast+
    then obtain m where "cat st name = Some m" by auto
    then obtain u where "bt_get str_cmp name (db_tables db) = Some u" "recovering f n u" "length (l0_entries (ti_l0 (tb_inner u))) \<le> k"
      using assms(1) unfolding rebuilt_def by blast
    then have "recovering f n t" "length (l0_entries (ti_l0 (tb_inner t))) \<le> k" using g by simp_all
    then show ?thesis using c assms(2-4) by (simp add: table_ok_def recovering_def l0_room_def)
  qed
  then show ?thesis using assms by (simp add: db_ok_def rebuilt_def)
qed


text \<open>
  What the tables hold, for the image \<open>J\<close> of the last checkpoint and the writes \<open>ops\<close> of the log: every table of the manifest is there and has the
  versions that image and log give it, its parts are those of the image with later tombstones, or new, and the clock is past the log.
\<close>

definition tables_match :: "csn \<Rightarrow> (string \<Rightarrow> table_inner) \<Rightarrow> txn_op list \<Rightarrow> manifest_state \<Rightarrow> database \<Rightarrow> bool" where
  "tables_match f J ops st db \<longleftrightarrow>
     db_ok f db \<and> logged_csn st ops \<le> current (db_csn db) \<and>
     (\<forall>n. bt_get str_cmp n (db_tables db) = None \<longleftrightarrow> cat st n = None) \<and>
     (\<forall>n m t. cat st n = Some m \<longrightarrow> bt_get str_cmp n (db_tables db) = Some t \<longrightarrow>
        tb_schema t = tm_schema m \<and> inner_evolved (ms_checkpoint_csn st) (J n) (tb_inner t) \<and> tb_versions t = logged_versions st J ops n)"

definition image_on_disk :: "ipc \<Rightarrow> csn \<Rightarrow> (string \<Rightarrow> table_inner) \<Rightarrow> manifest_state \<Rightarrow> mem_io \<Rightarrow> bool" where
  "image_on_disk I f J st io \<longleftrightarrow> catalog_ok st \<and> images_ok f J st \<and> (\<forall>m \<in> set (ms_tables st). parts_on_disk I J (live_of io) m)"

lemma image_loaded:
  assumes img: "images_ok f J st" and cat: "catalog_ok st"
    and bt: "sk.bt_ok (db_tables db)" and cfg: "tc_seal_threshold cfg < 2 ^ 32"
    and tabs: "\<And>n. bt_get str_cmp n (db_tables db0) = (case cat st n of Some m \<Rightarrow> Some (table_new n (tm_schema m) g mt cfg) | None \<Rightarrow> None)"
    and other: "\<And>n. n \<notin> tm_name ` set (ms_tables st) \<Longrightarrow> bt_get str_cmp n (db_tables db) = bt_get str_cmp n (db_tables db0)"
    and there: "\<forall>m \<in> set (ms_tables st). \<forall>t. bt_get str_cmp (tm_name m) (db_tables db0) = Some t \<longrightarrow> (\<exists>t' qs. bt_get str_cmp (tm_name m) (db_tables db) = Some t' \<and>
         tb_inner t' = (tb_inner t)\<lparr>ti_parts := qs, ti_next_part_id := tm_next_part_id m\<rparr> \<and> list_all2 same_as (ti_parts (J (tm_name m))) qs \<and>
         tb_schema t' = tb_schema t \<and> tb_name t' = tb_name t \<and> tb_config t' = tb_config t)"
    and disk: "\<forall>m \<in> set (ms_tables st). parts_on_disk I J bs m"
  obtains J' where "rebuilt st f (ms_checkpoint_csn st) 0 (\<lambda>n. ti_versions (J n)) db" "images_ok f J' st" "\<forall>m \<in> set (ms_tables st). parts_on_disk I J' bs m"
    "\<And>n. ti_versions (J' n) = ti_versions (J n)" "\<And>n t. bt_get str_cmp n (db_tables db) = Some t \<Longrightarrow> tb_inner t = J' n"
proof -
  let ?lo = "ms_checkpoint_csn st"
  define J' where "J' n = (case bt_get str_cmp n (db_tables db) of Some t \<Rightarrow> tb_inner t | None \<Rightarrow> J n)" for n
  have table: "\<exists>t. bt_get str_cmp n (db_tables db) = Some t \<and> tb_schema t = tm_schema m \<and> tb_name t = n \<and> tb_config t = cfg \<and>
      recovering f ?lo t \<and> tb_versions t = ti_versions (J n) \<and> l0_entries (ti_l0 (tb_inner t)) = [] \<and>
      list_all2 same_as (ti_parts (J n)) (ti_parts (tb_inner t)) \<and> ti_next_part_id (tb_inner t) = ti_next_part_id (J n)"
    if c: "cat st n = Some m" for n m
  proof -
    have m: "m \<in> set (ms_tables st)" "tm_name m = n" using c cat_iff [OF cat] by auto
    have new: "bt_get str_cmp n (db_tables db0) = Some (table_new n (tm_schema m) g mt cfg)" using tabs [of n] c by simp
    have nx: "tm_next_part_id m = ti_next_part_id (J n)" using disk m by (auto simp: parts_on_disk_def)
    obtain t' qs where t': "bt_get str_cmp n (db_tables db) = Some t'"
        "tb_inner t' = (tb_inner (table_new n (tm_schema m) g mt cfg))\<lparr>ti_parts := qs, ti_next_part_id := tm_next_part_id m\<rparr>"
        "list_all2 same_as (ti_parts (J n)) qs" "tb_schema t' = tm_schema m" "tb_name t' = n" "tb_config t' = cfg"
      using there [rule_format, of m] m new by (auto simp: table_new_def)
    have inner: "tb_inner t' = \<lparr>ti_l0 = l0_new (tm_schema m), ti_parts = qs, ti_next_part_id = ti_next_part_id (J n), ti_next_rowid = 0\<rparr>"
      using t'(2) nx by (simp add: table_new_def)
    have j: "inner_ok (tm_schema m) (J n)" "l0_entries (ti_l0 (J n)) = []" "store_ok (sc_key_index (tm_schema m)) f ?lo (ti_versions (J n))"
      using img c by (auto simp: images_ok_def)
    have "ti_parts (tb_inner t') = qs" "ti_next_part_id (tb_inner t') = ti_next_part_id (J n)" using inner by simp_all
    then show ?thesis using t'(1,3-6) loaded_ok [OF j t'(3) inner t'(4)] by blast
  qed
  have none: "bt_get str_cmp n (db_tables db) = None" if "cat st n = None" for n
    using that other [of n] tabs [of n] cat_iff [OF cat] by (metis (no_types, lifting) image_iff option.simps(3,4))
  have J': "J' n = tb_inner t" if "bt_get str_cmp n (db_tables db) = Some t" for n t using that by (simp add: J'_def)
  have v: "ti_versions (J' n) = ti_versions (J n)" for n
  proof (cases "cat st n")
    case (Some m)
    then show ?thesis using table [OF Some] by (auto simp: J'_def tb_versions_def)
  qed (simp add: J'_def none)
  show thesis
  proof (rule that [of J'])
    have "cat st n \<noteq> None \<and> tb_name t = n \<and> tc_seal_threshold (tb_config t) < 2 ^ 32" if "bt_get str_cmp n (db_tables db) = Some t" for n t
      using that none [of n] table [of n] cfg by (cases "cat st n") auto
    then show "rebuilt st f ?lo 0 (\<lambda>n. ti_versions (J n)) db" using bt table unfolding rebuilt_def by fastforce
    have "inner_ok (tm_schema m) (J' n) \<and> l0_entries (ti_l0 (J' n)) = [] \<and> store_ok (sc_key_index (tm_schema m)) f ?lo (ti_versions (J' n)) \<and>
        (\<forall>v \<in># ti_versions (J' n). snd (snd v) \<noteq> 0)"
      if c: "cat st n = Some m" for n m
      using table [OF c] img c v [of n] by (auto simp: J'_def images_ok_def recovering_def)
    then show "images_ok f J' st" using img by (simp add: images_ok_def)
    have "parts_on_disk I J' bs m" if m: "m \<in> set (ms_tables st)" for m
    proof -
      have "cat st (tm_name m) = Some m" using m cat_iff [OF cat] by auto
      from table [OF this] obtain t where t: "bt_get str_cmp (tm_name m) (db_tables db) = Some t"
        "list_all2 same_as (ti_parts (J (tm_name m))) (ti_parts (tb_inner t))" "ti_next_part_id (tb_inner t) = ti_next_part_id (J (tm_name m))" by auto
      show ?thesis by (rule parts_on_disk_same_parts [of I J]) (use disk m t J' [OF t(1)] in auto)
    qed
    then show "\<forall>m \<in> set (ms_tables st). parts_on_disk I J' bs m" by blast
    show "\<And>n. ti_versions (J' n) = ti_versions (J n)" by (rule v)
    show "\<And>n t. bt_get str_cmp n (db_tables db) = Some t \<Longrightarrow> tb_inner t = J' n" using J' by simp
  qed
qed

lemma map_of_pairs: "map_of (map (\<lambda>m. (k m, f m)) ms) = (\<lambda>n. map_option f (map_of (map (\<lambda>m. (k m, m)) ms) n))"
  by (induction ms) auto

lemma open_ok:
  assumes A: "arrow_ok A" "ipc_ok I" and calm: "io_calm io" and mn: "manifest_scan (live_of io MANIFEST_PATH) = (st, len)"
    and img: "image_on_disk I f J st io" and rs: "rr_records (replay_bytes (live_of io WAL_PATH)) = rs" "log_fits st rs"
    and cfg: "tc_seal_threshold (so_table cfg) < 2 ^ 32"
  obtains s1 io1 s2 J' where "storage_open A I mem cfg io = Some (Inr s1, io1)" "warm A I mem s1 = Some s2"
    "same_files io (st_io s2)" "st_state s2 = st" "st_warmed s2" "st_table_ids s2 = (\<lambda>n. map_option tm_id (cat st n))"
    "st_manifest s2 = \<lparr>mn_file = MANIFEST_PATH, mn_len = len, mn_commits = 0\<rparr>"
    "st_wal s2 = fresh_wal (so_durability cfg) (length (live_of io WAL_PATH))" "st_persisted s2 = persisted_at st" "st_config s2 = cfg"
    "current (db_csn (st_db s2)) = logged_csn st (log_ops rs)" "tables_match f J' (log_ops rs) st (st_db s2)" "image_on_disk I f J' st io"
    "\<And>n. ti_versions (J' n) = ti_versions (J n)"
proof -
  let ?lo = "ms_checkpoint_csn st" and ?n = "logged_csn st (log_ops rs)"
  have cat: "catalog_ok st" and imgs: "images_ok f J st" and disk: "\<forall>m \<in> set (ms_tables st). parts_on_disk I J (live_of io) m"
    using img by (auto simp: image_on_disk_def)
  have fits: "\<forall>r \<in> set rs. rec_ops r \<noteq> []" "ops_ok st ?lo (log_ops rs)" "length (log_ops rs) < 2 ^ 32 - 1" using rs(2) by (auto simp: log_fits_def ops_fit_def)
  have csns: "\<forall>r \<in> set rs. ?lo < rec_csn r" "foldl max ?lo (map rec_csn rs) = ?n" using log_csns [OF fits(1,2)] by auto
  have n: "?n \<noteq> NEVER_DELETED" "?lo \<le> ?n" "f \<le> ?n" using ops_ok_last [OF fits(2)] imgs by (auto simp: images_ok_def)
  let ?io0 = "io_open MANIFEST_PATH io" and ?db0 = "with_config (so_table cfg)"
  have io0: "same_files io ?io0" "io_calm ?io0" using calm by (simp_all add: same_files_open)
  have disk0: "\<forall>m \<in> set (ms_tables st). parts_on_disk I J (live_of ?io0) m" using disk parts_on_disk_same [OF io0(1)] by simp
  have dist: "distinct (map tm_name (ms_tables st))" using cat by (simp add: catalog_ok_def)
  have e: "sk.bt_ok (db_tables ?db0)" "\<forall>m \<in> set (ms_tables st). bt_get str_cmp (tm_name m) (db_tables ?db0) = None" by (simp_all add: with_config_def)
  obtain pending db ids pm io1 where L: "load_tables (ms_tables st) ?db0 Map.empty pm_default ?io0 = (Inr (pending, db, ids), pm, io1)" "same_files ?io0 io1"
      "sk.bt_ok (db_tables db)" "db_csn db = db_csn ?db0" "db_config db = db_config ?db0" "list_all2 (pending_for J) (ms_tables st) pending"
      "ids = Map.empty ++ map_of (map (\<lambda>m. (tm_name m, tm_id m)) (ms_tables st))"
      "\<forall>n. bt_get str_cmp n (db_tables db) = (case map_of (map (\<lambda>m. (tm_name m, m)) (ms_tables st)) n of
         Some m \<Rightarrow> Some (table_new n (tm_schema m) (db_csn ?db0) (db_metrics ?db0) (db_config ?db0)) | None \<Rightarrow> bt_get str_cmp n (db_tables ?db0))"
    using load_tables_ok [OF A io0(2) disk0 dist e, of Map.empty pm_default] by (elim exE conjE) (rule that, assumption+)
  have same1: "same_files io io1" by (rule same_files_trans [OF io0(1) L(2)])
  obtain rep where op: "\<And>s0. s0 = \<lparr>st_io = io_open WAL_PATH io1, st_db = set_csn_floor (foldl max ?lo (map rec_csn rs)) db,
      st_wal = fresh_wal (so_durability cfg) (length (live_of io WAL_PATH)), st_manifest = \<lparr>mn_file = MANIFEST_PATH, mn_len = len, mn_commits = 0\<rparr>,
      st_state = st, st_table_ids = ids, st_config = cfg, st_report = rep, st_pager = pm, st_pending = pending, st_warmed = False,
      st_persisted = persisted_at st\<rparr> \<Longrightarrow>
    storage_open A I mem cfg io =
     (if 0 < sum_list (map (replay_count (names_by_id st)) rs)
      then do { s \<leftarrow> warm A I mem s0; db \<leftarrow> replay_tail (names_by_id st) ?lo rs (st_db s); Some (Inr (s\<lparr>st_db := db\<rparr>), st_io s) }
      else Some (Inr s0, st_io s0))"
    by (rule storage_open_calm [OF calm mn L(1) same1 rs(1) csns(1)]) (rule that)
  define s0 where "s0 = \<lparr>st_io = io_open WAL_PATH io1, st_db = set_csn_floor (foldl max ?lo (map rec_csn rs)) db,
      st_wal = fresh_wal (so_durability cfg) (length (live_of io WAL_PATH)), st_manifest = \<lparr>mn_file = MANIFEST_PATH, mn_len = len, mn_commits = 0\<rparr>,
      st_state = st, st_table_ids = ids, st_config = cfg, st_report = rep, st_pager = pm, st_pending = pending, st_warmed = False,
      st_persisted = persisted_at st\<rparr>"
  let ?db1 = "set_csn_floor ?n db" and ?io2 = "io_open WAL_PATH io1"
  have io2: "same_files io ?io2" "io_calm ?io2" using same1 same_files_trans same_files_open by (auto simp: same_files_def io_calm_ok)
  have disk2: "\<forall>m \<in> set (ms_tables st). parts_on_disk I J (live_of ?io2) m" using disk parts_on_disk_same [OF io2(1)] by simp
  have db1: "sk.bt_ok (db_tables ?db1)" "db_tables ?db1 = db_tables db" "db_config ?db1 = so_table cfg" "db_csn ?db1 = set_floor ?n csn_new"
    using L(3-5) by (simp_all add: set_csn_floor_def with_config_def)
  have tabs: "bt_get str_cmp k (db_tables ?db1) = (case cat st k of
      Some m \<Rightarrow> Some (table_new k (tm_schema m) (db_csn ?db0) (db_metrics ?db0) (so_table cfg)) | None \<Rightarrow> None)" for k
    using L(8) by (simp add: db1(2) cat_def) (simp add: with_config_def split: option.split)
  have ex: "\<forall>m \<in> set (ms_tables st). \<exists>t. bt_get str_cmp (tm_name m) (db_tables ?db1) = Some t"
  proof
    fix m assume "m \<in> set (ms_tables st)"
    then have "cat st (tm_name m) = Some m" by (simp add: cat_iff [OF cat])
    then show "\<exists>t. bt_get str_cmp (tm_name m) (db_tables ?db1) = Some t" by (simp add: tabs)
  qed
  obtain db3 pm3 io3 where W: "warm_tables A I mem pending ?db1 pm ?io2 = Some (db3, pm3, io3)" "same_files ?io2 io3"
      "sk.bt_ok (db_tables db3)" "db_csn db3 = db_csn ?db1" "db_config db3 = db_config ?db1"
      "\<forall>n. n \<notin> tm_name ` set (ms_tables st) \<longrightarrow> bt_get str_cmp n (db_tables db3) = bt_get str_cmp n (db_tables ?db1)"
      "\<forall>m \<in> set (ms_tables st). \<forall>t. bt_get str_cmp (tm_name m) (db_tables ?db1) = Some t \<longrightarrow> (\<exists>t' qs. bt_get str_cmp (tm_name m) (db_tables db3) = Some t' \<and>
         tb_inner t' = (tb_inner t)\<lparr>ti_parts := qs, ti_next_part_id := tm_next_part_id m\<rparr> \<and> list_all2 same_as (ti_parts (J (tm_name m))) qs \<and>
         tb_schema t' = tb_schema t \<and> tb_name t' = tb_name t \<and> tb_config t' = tb_config t)"
    using warm_tables_ok [OF A io2(2) disk2 dist db1(1) ex L(6), of mem pm] by (elim exE conjE) (rule that, assumption+)
  obtain J' where J': "rebuilt st f ?lo 0 (\<lambda>n. ti_versions (J n)) db3" "images_ok f J' st" "\<forall>m \<in> set (ms_tables st). parts_on_disk I J' (live_of io) m"
      "\<And>n. ti_versions (J' n) = ti_versions (J n)" "\<And>n t. bt_get str_cmp n (db_tables db3) = Some t \<Longrightarrow> tb_inner t = J' n"
    by (rule image_loaded [OF imgs cat W(3) cfg tabs _ W(7) disk]) (use W(6) in \<open>auto intro: that\<close>)
  obtain db4 where R: "replay_ops (names_by_id st) (log_ops rs) db3 = Some db4" "db_csn db4 = db_csn db3" "db_config db4 = db_config db3"
      "rebuilt st f ?n (0 + length (log_ops rs)) (\<lambda>name. after_ops st name (log_ops rs) (ti_versions (J name))) db4" "db_evolved ?lo db3 db4"
    using replay_ops_ok [OF cat J'(1) fits(2)] by (elim exE conjE) (rule that, assumption+)
  have warm0: "warm A I mem s0 = Some (s0\<lparr>st_db := db3, st_pager := pm3, st_io := io3, st_pending := [], st_warmed := True\<rparr>)"
    using W(1) csns(2) by (simp add: warm_def s0_def)
  define s2 where "s2 = s0\<lparr>st_db := db4, st_pager := pm3, st_io := io3, st_pending := [], st_warmed := True\<rparr>"
  have opened: "\<exists>s1 io1. storage_open A I mem cfg io = Some (Inr s1, io1) \<and> warm A I mem s1 = Some s2"
  proof (cases "0 < sum_list (map (replay_count (names_by_id st)) rs)")
    case True
    have "replay_tail (names_by_id st) ?lo rs db3 = Some db4" using replay_tail_ops [OF csns(1)] R(1) by simp
    then have "storage_open A I mem cfg io = Some (Inr s2, io3)" using op [OF s0_def] True warm0 by (simp add: s2_def)
    then show ?thesis by (simp add: warm_def s2_def)
  next
    case False
    then have "\<forall>r \<in> set rs. replay_count (names_by_id st) r = 0" by simp
    then have "db4 = db3" using no_replay_log R(1) by fastforce
    then have "warm A I mem s0 = Some s2" using warm0 by (simp add: s2_def)
    moreover have "storage_open A I mem cfg io = Some (Inr s0, st_io s0)" using op [OF s0_def] False by simp
    ultimately show ?thesis by blast
  qed
  have ids: "ids = (\<lambda>n. map_option tm_id (cat st n))"
    using L(7) map_of_pairs [of tm_name tm_id "ms_tables st"] by (simp add: cat_def)
  note cur = current_set_floor [OF n(1)]
  have "length (log_ops rs) < 2 ^ 32 - 1" by (rule fits(3))
  then have ok4: "db_ok f db4"
    by (intro rebuilt_db_ok [OF R(4)]) (use cur n cfg W(4,5) R(2,3) db1 in simp_all)
  have match: "tables_match f J' (log_ops rs) st db4"
    unfolding tables_match_def
  proof (intro conjI allI impI)
    show "db_ok f db4" by (rule ok4)
    show "?n \<le> current (db_csn db4)" using cur W(4) R(2) db1 by simp
    show "bt_get str_cmp k (db_tables db4) = None \<longleftrightarrow> cat st k = None" for k
      using R(4) unfolding rebuilt_def by (metis not_None_eq option.simps(3))
    fix k m t assume m: "cat st k = Some m" and t: "bt_get str_cmp k (db_tables db4) = Some t"
    from R(4) m t show "tb_schema t = tm_schema m" "tb_versions t = logged_versions st J' (log_ops rs) k"
      unfolding rebuilt_def logged_versions_def J'(4) by fastforce+
    obtain t3 where t3: "bt_get str_cmp k (db_tables db3) = Some t3" using J'(1) m unfolding rebuilt_def by blast
    then have "inner_evolved ?lo (tb_inner t3) (tb_inner t)" using R(5) t unfolding db_evolved_def by fastforce
    then show "inner_evolved ?lo (J' k) (tb_inner t)" using J'(5) [OF t3] by simp
  qed
  obtain s1 io4 where s1: "storage_open A I mem cfg io = Some (Inr s1, io4)" "warm A I mem s1 = Some s2" using opened by blast
  show thesis
    by (rule that [OF s1, of J'])
      (use same_files_trans [OF io2(1) W(2)] match ids cur W(4) R(2) db1 J'(2-4) cat in \<open>simp_all add: s2_def s0_def image_on_disk_def\<close>)
qed


section \<open>Stores that can be recovered\<close>

text \<open>Nothing is buffered by the device.\<close>

definition settled :: "mem_io \<Rightarrow> bool" where
  "settled io \<longleftrightarrow> io_calm io \<and> (\<forall>p. mf_ok (handle p io) \<and> mf_durable (handle p io) = mf_live (handle p io))"

definition manifest_holds :: "manifest \<Rightarrow> manifest_state \<Rightarrow> mem_io \<Rightarrow> bool" where
  "manifest_holds mn st io \<longleftrightarrow>
     mn_file mn = MANIFEST_PATH \<and>
     (\<exists>ss. list_all ms_fits ss \<and> last (ms_default # ss) = st \<and> live_of io MANIFEST_PATH = ms_image ss \<and> mn_len mn = length (ms_image ss))"

definition part_keys :: "manifest_state \<Rightarrow> (u32 \<times> u64) set" where
  "part_keys st = (\<Union>m \<in> set (ms_tables st). Pair (tm_id m) ` set (tm_part_ids m))"

definition persisted_ok :: "manifest_state \<Rightarrow> persisted \<Rightarrow> bool" where
  "persisted_ok st pers \<longleftrightarrow> (\<forall>k. map_of pers k = (if k \<in> part_keys st then Some (ms_checkpoint_csn st) else None))"

text \<open>The writes \<open>ops\<close> have been applied to the tables, and are not in the log yet.\<close>

definition in_flight :: "ipc \<Rightarrow> csn \<Rightarrow> (string \<Rightarrow> table_inner) \<Rightarrow> wal_record list \<Rightarrow> txn_op list \<Rightarrow> storage \<Rightarrow> bool" where
  "in_flight I f J rs ops s \<longleftrightarrow>
     st_warmed s \<and> settled (st_io s) \<and> image_on_disk I f J (st_state s) (st_io s) \<and>
     (\<forall>r \<in> set rs. rec_ops r \<noteq> []) \<and> ops_fit (st_state s) (log_ops rs @ ops) \<and>
     tables_match f J (log_ops rs @ ops) (st_state s) (st_db s) \<and> manifest_holds (st_manifest s) (st_state s) (st_io s) \<and>
     w_file (st_wal s) = WAL_PATH \<and> waits_for_disk (w_mode (st_wal s)) \<and> log_ok rs (st_wal s) (st_io s) \<and>
     st_table_ids s = (\<lambda>n. map_option tm_id (cat (st_state s) n)) \<and> persisted_ok (st_state s) (st_persisted s)"

abbreviation recoverable :: "ipc \<Rightarrow> csn \<Rightarrow> (string \<Rightarrow> table_inner) \<Rightarrow> wal_record list \<Rightarrow> storage \<Rightarrow> bool" where
  "recoverable I f J rs s \<equiv> in_flight I f J rs [] s"

lemma settled_crash:
  assumes "settled io"
  shows "settled (io_crash io)" "live_of (io_crash io) = live_of io" "io_calm (io_crash io)"
  using assms by (simp_all add: settled_def handle_crash mf_ok_crash io_calm_crash) (simp_all add: mf_crash_def)

lemma settled_same: "settled io \<Longrightarrow> same_files io io' \<Longrightarrow> settled io' \<and> live_of io' = live_of io"
  by (simp add: settled_def same_files_def)

lemma map_of_part_keys: "map_of (map (\<lambda>pid. ((i, pid), c)) ps) k = (if k \<in> Pair i ` set ps then Some c else None)"
  by (induction ps) auto

lemma map_of_table_keys:
  "map_of (concat (map (\<lambda>t. map (\<lambda>pid. ((tm_id t, pid), c)) (tm_part_ids t)) ms)) k =
    (if k \<in> (\<Union>m \<in> set ms. Pair (tm_id m) ` set (tm_part_ids m)) then Some c else None)"
  by (induction ms) (auto simp: map_add_def map_of_part_keys split: option.split)

lemma persisted_at_ok: "persisted_ok st (persisted_at st)"
  unfolding persisted_ok_def persisted_at_def part_keys_def map_of_table_keys by simp

text \<open>Opening the store after a power loss gives back the tables, and the store can be recovered again.\<close>

lemma recover_ok:
  assumes A: "arrow_ok A" "ipc_ok I" and s: "recoverable I f J rs s"
    and cfg: "tc_seal_threshold (so_table cfg) < 2 ^ 32" "waits_for_disk (so_durability cfg)"
  obtains s1 io1 s2 J' where "storage_open A I mem cfg (io_crash (st_io s)) = Some (Inr s1, io1)" "warm A I mem s1 = Some s2"
    "recoverable I f J' rs s2" "\<And>n. db_versions n (st_db s2) = db_versions n (st_db s)"
    "current (db_csn (st_db s2)) = logged_csn (st_state s) (log_ops rs)" "st_state s2 = st_state s"
proof -
  let ?st = "st_state s" and ?io = "io_crash (st_io s)"
  have set: "settled (st_io s)" and img: "image_on_disk I f J ?st (st_io s)" and fits: "log_fits ?st rs"
    and match: "tables_match f J (log_ops rs) ?st (st_db s)" and wal: "w_file (st_wal s) = WAL_PATH" "log_ok rs (st_wal s) (st_io s)"
    using s by (auto simp: in_flight_def log_fits_def)
  note C = settled_crash [OF set]
  obtain ss where ss: "list_all ms_fits ss" "last (ms_default # ss) = ?st" "live_of (st_io s) MANIFEST_PATH = ms_image ss"
    using s by (auto simp: in_flight_def manifest_holds_def)
  have mn: "manifest_scan (live_of ?io MANIFEST_PATH) = (?st, length (ms_image ss))" using scan_intact [OF ss(1)] ss(2,3) C(2) by (simp add: fun_eq_iff)
  have log: "live_of (st_io s) WAL_PATH = log_image rs" "list_all rec_fits rs" using wal by (simp_all add: log_ok_defs)
  then have rs: "rr_records (replay_bytes (live_of ?io WAL_PATH)) = rs"
    using replay_intact [of rs] C(2) by (simp add: fun_eq_iff)
  have img': "image_on_disk I f J ?st ?io" using img C(2) by (simp add: image_on_disk_def)
  obtain s1 io1 s2 J' where o: "storage_open A I mem cfg ?io = Some (Inr s1, io1)" "warm A I mem s1 = Some s2"
    "same_files ?io (st_io s2)" "st_state s2 = ?st" "st_warmed s2" "st_table_ids s2 = (\<lambda>n. map_option tm_id (cat ?st n))"
    "st_manifest s2 = \<lparr>mn_file = MANIFEST_PATH, mn_len = length (ms_image ss), mn_commits = 0\<rparr>"
    "st_wal s2 = fresh_wal (so_durability cfg) (length (live_of ?io WAL_PATH))" "st_persisted s2 = persisted_at ?st"
    "current (db_csn (st_db s2)) = logged_csn ?st (log_ops rs)" "tables_match f J' (log_ops rs) ?st (st_db s2)" "image_on_disk I f J' ?st ?io"
    "\<And>n. ti_versions (J' n) = ti_versions (J n)"
    by (rule open_ok [OF A C(3) mn img' rs fits cfg(1)]) (rule that)
  have S: "settled (st_io s2)" "live_of (st_io s2) = live_of (st_io s)" using settled_same [OF C(1) o(3)] C(2) by simp_all
  have "log_ok rs (st_wal s2) (st_io s2)"
    using S log o(8) C(2) by (auto simp: log_ok_defs fresh_wal_def settled_def io_calm_def gc_new_def fun_eq_iff intro!: exI [of _ "length (log_image rs)"])
  moreover have "image_on_disk I f J' ?st (st_io s2)" using o(12) S(2) C(2) by (simp add: image_on_disk_def)
  moreover have "manifest_holds (st_manifest s2) ?st (st_io s2)" 

    using ss fun_cong [OF S(2), of MANIFEST_PATH] unfolding manifest_holds_def o(7) by (intro conjI exI [of _ ss]) simp_all
  ultimately have rec: "recoverable I f J' rs s2"
    using o S fits cfg(2) persisted_at_ok by (simp add: in_flight_def fresh_wal_def log_fits_def)
  have v: "db_versions n (st_db s2) = db_versions n (st_db s)" for n
  proof (cases "cat ?st n")
    case None
    then have "bt_get str_cmp n (db_tables (st_db s)) = None" "bt_get str_cmp n (db_tables (st_db s2)) = None"
      using match o(11) unfolding tables_match_def by blast+
    then show ?thesis by (simp add: db_versions_def)
  next
    case (Some m)
    then obtain t t2 where "bt_get str_cmp n (db_tables (st_db s)) = Some t" "bt_get str_cmp n (db_tables (st_db s2)) = Some t2"
      using match o(11) unfolding tables_match_def by (metis not_None_eq)
    then show ?thesis using match o(11) Some by (auto simp: tables_match_def db_versions_def logged_versions_def o(13))
  qed
  show thesis by (rule that [OF o(1,2) rec v o(10,4)])
qed


section \<open>Writes keep a store recoverable\<close>

lemma ops_fit_snoc:
  assumes "ops_fit st ops" "logged_csn st ops < op_csn op" "op_csn op \<noteq> NEVER_DELETED" "length ops < 2 ^ 32 - 2"
    "catalog_ok st" "cat st n = Some m" "op_table op = tm_id m" "op_valid (tm_schema m) op"
  shows "ops_fit st (ops @ [op])"
proof -
  have "m \<in> set (ms_tables st)" using assms(5,6) cat_iff by blast
  then have id: "tm_id m < ms_next_table_id st" using assms(5) by (simp add: catalog_ok_def)
  have "op_valid (tm_schema m') op" if "cat st n' = Some m'" "tm_id m' = op_table op" for n' m'
  proof -
    have "n' = n" using names_by_id_unique [OF assms(5) that(1)] names_by_id_unique [OF assms(5,6)] that(2) assms(7) by (metis option.inject)
    then show ?thesis using that(1) assms(6,8) by simp
  qed
  then have "ops_ok st (logged_csn st ops) [op]" using assms(2,3) unfolding ops_ok_Cons by (simp add: ops_ok_def)
  then show ?thesis using assms(1,4,7) id by (simp add: ops_fit_def ops_ok_append)
qed

lemma table_ok_metrics: "table_ok f (t\<lparr>tb_metrics := m\<rparr>) = table_ok f t"
  by (simp add: table_ok_def tb_versions_def)

text \<open>What a write did to one table, seen from the catalog.\<close>

lemma match_table:
  assumes match: "tables_match f J ops st db" and c: "cat st name = Some m" and t: "db_table name db = Inr t"
  shows "tb_schema t = tm_schema m" "table_ok f t" "tb_csn t = db_csn db" "tb_versions t = logged_versions st J ops name"
    "inner_evolved (ms_checkpoint_csn st) (J name) (tb_inner t)" "db_versions name db = tb_versions t"
proof -
  obtain u where u: "bt_get str_cmp name (db_tables db) = Some u" "t = attach db u" using t by (auto simp: db_table_iff)
  have "db_ok f db" using match by (simp add: tables_match_def)
  from db_table_ok [OF this t] show "table_ok f t" "tb_csn t = db_csn db" by auto
  show "tb_schema t = tm_schema m" "tb_versions t = logged_versions st J ops name"
    "inner_evolved (ms_checkpoint_csn st) (J name) (tb_inner t)"
    using match c u by (auto simp: tables_match_def)
  show "db_versions name db = tb_versions t" using db_versions_table [OF t] .
qed

lemma match_store:
  assumes match: "tables_match f J ops st db" and c: "cat st name = Some m" and t: "db_table name db = Inr t"
    and t1: "table_ok f t1" "tb_frame t t1" "tb_now t \<le> tb_now t1" "inner_evolved (ms_checkpoint_csn st) (tb_inner t) (tb_inner t1)"
    and v: "tb_versions t1 = logged_versions st J ops' name"
    and other: "\<And>n. n \<noteq> name \<Longrightarrow> logged_versions st J ops' n = logged_versions st J ops n" and csn: "logged_csn st ops' \<le> tb_now t1"
  shows "tables_match f J ops' st (db_store name t1 db)"
proof -
  have db: "db_ok f db" using match by (simp add: tables_match_def)
  then have bt: "sk.bt_ok (db_tables db)" by (simp add: db_ok_def)
  obtain u where u: "bt_get str_cmp name (db_tables db) = Some u" using t by (auto simp: db_table_iff)
  note M = match_table [OF match c t] and S = db_store_ok [OF db t t1(1-3)]
  have get: "bt_get str_cmp k (db_tables (db_store name t1 db)) = (if k = name then Some t1 else bt_get str_cmp k (db_tables db))" for k
    using bt by (simp add: db_store_def bt_get_str)
  have fr: "tb_schema t1 = tm_schema m" using t1(2) M(1) by (simp add: tb_frame_def)
  have ev: "inner_evolved (ms_checkpoint_csn st) (J name) (tb_inner t1)" by (rule inner_evolved_trans [OF M(5) t1(4)])
  show ?thesis unfolding tables_match_def
  proof (intro conjI allI impI)
    show "db_ok f (db_store name t1 db)" by (rule S(1))
    show "logged_csn st ops' \<le> current (db_csn (db_store name t1 db))" using csn by (simp add: db_store_def)
    show "bt_get str_cmp n (db_tables (db_store name t1 db)) = None \<longleftrightarrow> cat st n = None" for n
      using match c by (auto simp: get tables_match_def)
    fix n k x assume "cat st n = Some k" "bt_get str_cmp n (db_tables (db_store name t1 db)) = Some x"
    then show "tb_schema x = tm_schema k" "inner_evolved (ms_checkpoint_csn st) (J n) (tb_inner x)" "tb_versions x = logged_versions st J ops' n"
      using match c fr ev v other by (auto simp: get tables_match_def split: if_splits)
  qed
qed

definition metrics_only :: "table \<Rightarrow> table \<Rightarrow> bool" where
  "metrics_only t t0 \<longleftrightarrow> (\<exists>m. t0 = t\<lparr>tb_metrics := m\<rparr>)"

lemma metrics_only_simps:
  assumes "metrics_only t t0"
  shows "tb_inner t0 = tb_inner t" "tb_schema t0 = tb_schema t" "tb_csn t0 = tb_csn t" "tb_name t0 = tb_name t" "tb_config t0 = tb_config t"
    "table_ok f t0 = table_ok f t" "tb_versions t0 = tb_versions t" "can_write t0 = can_write t"
  using assms by (auto simp: metrics_only_def table_ok_metrics tb_versions_def can_write_def)

lemma throttle_metrics: "metrics_only t (throttle s t)" "metrics_only t t"
  by (auto simp: metrics_only_def throttle_def intro: exI [of _ "tb_metrics t"])

lemma ckpt_le_now:
  assumes "tables_match f J ops st db" "ops_fit st ops"
  shows "ms_checkpoint_csn st \<le> current (db_csn db)"
  using assms ops_ok_last [of st "ms_checkpoint_csn st" ops] by (auto simp: tables_match_def ops_fit_def intro: order.trans)

lemma match_untouched:
  assumes "tables_match f J ops st db" "ops_fit st ops" "cat st name = Some m" "db_table name db = Inr t" "metrics_only t t0" "untouched f t0 t1"
  shows "tables_match f J ops st (db_store name t1 db)"
proof (rule match_store [OF assms(1,3,4)])
  note M = match_table [OF assms(1,3,4)] and S = metrics_only_simps [OF assms(5)]
  show "table_ok f t1" "tb_frame t t1" "tb_now t \<le> tb_now t1" "inner_evolved (ms_checkpoint_csn st) (tb_inner t) (tb_inner t1)"
    "tb_versions t1 = logged_versions st J ops name"
    using assms(6) M(4) by (simp_all add: untouched_def tb_frame_def S inner_evolved_same)
  show "logged_csn st ops \<le> tb_now t1" using assms(1,6) M(3) by (simp add: untouched_def S tables_match_def)
qed simp

lemma match_written:
  assumes "tables_match f J ops st db" "ops_fit st ops" "catalog_ok st" "cat st name = Some m" "db_table name db = Inr t" "metrics_only t t0"
    "written f t0 (apply_op (tb_ki t) op (tb_versions t)) t1" "can_write t" "op_table op = tm_id m" "op_csn op = cg_next (db_csn db)"
  shows "tables_match f J (ops @ [op]) st (db_store name t1 db)" "logged_csn st ops < op_csn op" "op_csn op \<noteq> NEVER_DELETED"
proof -
  note M = match_table [OF assms(1,4,5)] and S = metrics_only_simps [OF assms(6)]
  note C = clock_facts [OF M(2) assms(8)]
  have now: "tb_now t = current (db_csn db)" "tb_now t1 = op_csn op" using M(3) assms(7,10) by (simp_all add: written_def S)
  have lo: "ms_checkpoint_csn st \<le> tb_now t0" using ckpt_le_now [OF assms(1,2)] now S(3) by simp
  have by_name: "names_by_id st (op_table op) = Some n \<longleftrightarrow> n = name" for n using names_by_id_unique [OF assms(3,4)] assms(9) by simp
  show lt: "logged_csn st ops < op_csn op" using assms(1) C(1) M(3) assms(10) now(1) by (auto simp: tables_match_def intro: order.strict_trans1)
  show "op_csn op \<noteq> NEVER_DELETED" using C(2) M(3) assms(10) by simp
  show "tables_match f J (ops @ [op]) st (db_store name t1 db)"
  proof (rule match_store [OF assms(1,4,5)])
    show "table_ok f t1" using assms(7) by (simp add: written_def)
    show "tb_frame t t1" using assms(7) by (simp add: written_def tb_frame_def S)
    show "tb_now t \<le> tb_now t1" using C(1) M(3) assms(10) now(2) by simp
    have "inner_evolved (ms_checkpoint_csn st) (tb_inner t0) (tb_inner t1)" using assms(7) lo by (simp add: written_def)
    then show "inner_evolved (ms_checkpoint_csn st) (tb_inner t) (tb_inner t1)" by (simp add: S)
    show "tb_versions t1 = logged_versions st J (ops @ [op]) name"
      using assms(4,7) M(1,4) by_name by (simp add: written_def logged_versions_def)
    show "logged_versions st J (ops @ [op]) n = logged_versions st J ops n" if "n \<noteq> name" for n
      using that by_name by (simp add: logged_versions_def)
    show "logged_csn st (ops @ [op]) \<le> tb_now t1" by (simp add: now(2))
  qed
qed


text \<open>Appending a record on a device without faults, in a mode that waits for it.\<close>

definition io_room :: "mem_io \<Rightarrow> bool" where
  "io_room io \<longleftrightarrow> (\<forall>p. mf_room 6 (handle p io))"

lemma io_room_fresh: "io_room io \<Longrightarrow> mf_fresh (handle p io)"
  unfolding io_room_def by (metis mf_room_fresh numeral_eq_Suc)

lemma wal_append_calm:
  assumes io: "settled io" and log: "log_ok rs w io" and mode: "waits_for_disk (w_mode w)" and fits: "rec_fits r" and room: "mf_fresh (handle (w_file w) io)"
  obtains n w' io' where "wal_append r w io = Some (Inr n, w', io')" "log_ok (rs @ [r]) w' io'" "settled io'"
    "w_file w' = w_file w" "w_mode w' = w_mode w" "\<And>p. p \<noteq> w_file w \<Longrightarrow> handle p io' = handle p io" "w_written w' \<le> gc_durable (w_group w')"
    "\<And>n. mf_room (Suc n) (handle (w_file w) io) \<Longrightarrow> mf_room n (handle (w_file w) io')"
proof -
  let ?p = "w_file w" and ?img = "log_image (rs @ [r])"
  define f where "f = mf_pwrite (w_written w) (rec_encode r) (handle ?p io)"
  define io1 where "io1 = io_put ?p f io"
  define w1 where "w1 = w\<lparr>w_written := length ?img, w_appends := w_appends w + 1\<rparr>"
  have calm: "io_calm io" "io_ok io" using io by (simp_all add: settled_def io_calm_ok)
  have L: "mf_live (handle ?p io) = log_image rs" "w_written w = length (log_image rs)" "list_all rec_fits rs" "\<not> gc_syncing (w_group w)"
    "gc_durable (w_group w) \<le> length (log_image rs)" "mf_ok (handle ?p io)"
    using log io by (auto simp: log_ok_defs settled_def)
  have f: "mf_live f = ?img" "mf_ok f" using mf_ok_pwrite [OF L(6) room] L(1,2) by (simp_all add: f_def) (simp add: mf_pwrite_def)
  have app: "append_locked r w io = (Inr (length ?img), w1, io1)"
    using calm L(2) by (simp add: append_locked_def pwrite_calm io1_def f_def w1_def Let_def)
  have io1: "io_calm io1" "handle ?p io1 = f" using calm by (simp_all add: io1_def)
  obtain b bs where "rec_encode r = b # bs" using rec_encode_nonempty [of r] by (cases "rec_encode r") blast+
  then have more: "\<not> length ?img \<le> gc_durable (w_group w1)" using L(5) by (simp add: w1_def)
  define io2 where "io2 = io_put ?p (mf_sync f) io1"
  define w2 where "w2 = w1\<lparr>w_group := gc_complete (length ?img) ((w_group w1)\<lparr>gc_syncing := True\<rparr>), w_syncs := w_syncs w1 + 1\<rparr>"
  have g: "gc_begin (length ?img) (w_group w1) = Some (DoSync, (w_group w1)\<lparr>gc_syncing := True\<rparr>)"
    using more L(4) unfolding gc_begin_def by (simp add: w1_def)
  have "sync (w_file w1) io1 = (Inr (), io2)" using io1 by (simp add: sync_calm io2_def w1_def)
  then have com: "commit_to (length ?img) w1 io1 = Some (Inr (), w2, io2)"
    unfolding commit_to_def g by (simp add: w2_def) (simp add: w1_def)
  have "w_mode w1 \<noteq> Async" using mode by (auto simp: w1_def waits_for_disk_def)
  then have run: "wal_append r w io = Some (Inr (length ?img), w2, io2)"
    using com unfolding wal_append_def app by (cases "w_mode w1") (simp_all del: log_image_simps)
  have h: "handle p io2 = (if p = ?p then mf_sync f else handle p io)" for p
    using io1(1) calm by (simp add: io2_def io1_def io_calm_ok)
  have calm2: "io_calm io2" using io1(1) by (simp add: io2_def)
  note sy = mf_sync_ok [OF f(2)]
  have set: "settled io2" using io sy calm2 by (simp add: settled_def h)
  have "log_ok (rs @ [r]) w2 io2"
    using more sy f(1) L(3,5) fits calm2 by (auto simp: log_ok_defs w2_def w1_def h io_calm_def max_def simp del: log_image_simps
        intro!: exI [of _ "length ?img"])
  moreover have "mf_room n (handle ?p io2)" if "mf_room (Suc n) (handle ?p io)" for n
    using mf_room_step(1) [OF that] by (simp add: h f_def)
  ultimately show thesis using that [OF run _ set] h by (simp add: w2_def w1_def)
qed

section \<open>The operations of the store\<close>

lemma part_path_not_log: "part_path tid pid \<noteq> WAL_PATH" "part_path tid pid \<noteq> MANIFEST_PATH" "MANIFEST_PATH \<noteq> WAL_PATH"
  by (simp_all add: part_path_def WAL_PATH_def MANIFEST_PATH_def)

text \<open>Files other than the log decide what is loaded.\<close>

lemma image_on_disk_frame:
  assumes "image_on_disk I f J st io" "\<And>p. p \<noteq> WAL_PATH \<Longrightarrow> handle p io' = handle p io"
  shows "image_on_disk I f J st io'"
  using assms part_path_not_log(1) by (auto simp: image_on_disk_def parts_on_disk_def)

lemma log_flight:
  assumes s: "in_flight I f J rs (rec_ops r) s" and r: "rec_ops r \<noteq> []" "rec_fits r" and room: "io_room (st_io s)"
  obtains s' where "st_log r s = Some (Inr (), s')" "recoverable I f J (rs @ [r]) s'" "st_db s' = st_db s" "st_state s' = st_state s"
proof -
  have D: "settled (st_io s)" "w_file (st_wal s) = WAL_PATH" "waits_for_disk (w_mode (st_wal s))" "log_ok rs (st_wal s) (st_io s)"
    "image_on_disk I f J (st_state s) (st_io s)" "manifest_holds (st_manifest s) (st_state s) (st_io s)"
    using s by (auto simp: in_flight_def)
  obtain n w' io' where w: "wal_append r (st_wal s) (st_io s) = Some (Inr n, w', io')" "log_ok (rs @ [r]) w' io'" "settled io'"
    "w_file w' = WAL_PATH" "w_mode w' = w_mode (st_wal s)" "\<And>p. p \<noteq> WAL_PATH \<Longrightarrow> handle p io' = handle p (st_io s)"
    using wal_append_calm [OF D(1,4,3) r(2) io_room_fresh [OF room]] D(2) by metis
  let ?s = "s\<lparr>st_wal := w', st_io := io'\<rparr>"
  have "manifest_holds (st_manifest s) (st_state s) io'" using D(6) w(6) [of MANIFEST_PATH] part_path_not_log(3) by (simp add: manifest_holds_def)
  then have "recoverable I f J (rs @ [r]) ?s" using s w r(1) image_on_disk_frame [OF D(5) w(6)] by (auto simp: in_flight_def)
  moreover have "st_log r s = Some (Inr (), ?s)" by (simp add: st_log_def w(1))
  ultimately show thesis using that by simp
qed

lemma resolve_ok:
  assumes s: "in_flight I f J rs ops s" and c: "cat (st_state s) name = Some m"
  obtains t where "st_resolve name s = Inr (tm_id m, t)" "db_table name (st_db s) = Inr t"
proof -
  have "bt_get str_cmp name (db_tables (st_db s)) \<noteq> None" using s c by (auto simp: in_flight_def tables_match_def)
  then obtain t where t: "db_table name (st_db s) = Inr t" by (auto simp: db_table_def split: option.split)
  have "table_id name s = Inr (tm_id m)" using s c by (simp add: table_id_def in_flight_def)
  then show thesis using that t by (simp add: st_resolve_def)
qed

lemma resolve_missing:
  assumes s: "in_flight I f J rs ops s" and c: "cat (st_state s) name = None"
  shows "st_resolve name s = Inl (TableNotFound name)"
  using s c by (simp add: st_resolve_def table_id_def in_flight_def)

lemma warm_flight: "in_flight I f J rs ops s \<Longrightarrow> warm A I mem s = Some s"
  by (simp add: warm_def in_flight_def)

lemma put_flight:
  assumes s: "in_flight I f J rs ops s" and m: "tables_match f J (log_ops rs @ ops') (st_state s) (db_store name t (st_db s))"
    and fit: "ops_fit (st_state s) (log_ops rs @ ops')"
  shows "in_flight I f J rs ops' (st_put_table name t s)"
  using assms by (simp add: in_flight_def st_put_table_def)

text \<open>
  A write on one table: what it does to the table, when it succeeds with \<open>x\<close> it is the operation \<open>op_of x\<close>, and
  when it is refused nothing changes.
\<close>

definition table_write :: "csn \<Rightarrow> table_meta \<Rightarrow> table \<Rightarrow> (table \<Rightarrow> ((error + 'a) \<times> table) option) \<Rightarrow> ('a \<Rightarrow> txn_op) \<Rightarrow> bool" where
  "table_write f m t g op_of \<longleftrightarrow>
     (\<forall>t0. metrics_only t t0 \<longrightarrow>
        (\<exists>e t1. g t0 = Some (Inl e, t1) \<and> untouched f t0 t1) \<or>
        (\<exists>x t1. g t0 = Some (Inr x, t1) \<and> written f t0 (apply_op (tb_ki t) (op_of x) (tb_versions t)) t1 \<and>
           op_table (op_of x) = tm_id m \<and> op_csn (op_of x) = cg_next (tb_csn t) \<and> op_valid (tm_schema m) (op_of x)))"

lemma write_flight:
  assumes s: "in_flight I f J rs ops s" and len: "length (log_ops rs @ ops) < 2 ^ 32 - 2"
    and c: "cat (st_state s) name = Some m" and t: "db_table name (st_db s) = Inr t" "can_write t"
    and w: "table_write f m t g op_of" and t0: "metrics_only t t0"
  obtains e t1 where "g t0 = Some (Inl e, t1)" "in_flight I f J rs ops (st_put_table name t1 s)"
      "db_versions n (db_store name t1 (st_db s)) = db_versions n (st_db s)"
  | x t1 where "g t0 = Some (Inr x, t1)" "in_flight I f J rs (ops @ [op_of x]) (st_put_table name t1 s)"
      "db_versions n (db_store name t1 (st_db s)) = (if n = name then apply_op (tb_ki t) (op_of x) (tb_versions t) else db_versions n (st_db s))"
proof -
  have M: "tables_match f J (log_ops rs @ ops) (st_state s) (st_db s)" and F: "ops_fit (st_state s) (log_ops rs @ ops)" and K: "catalog_ok (st_state s)"
    using s by (auto simp: in_flight_def image_on_disk_def)
  have db: "db_ok f (st_db s)" using M by (simp add: tables_match_def)
  note S = metrics_only_simps [OF t0] and T = match_table [OF M c t(1)]
  consider (err) e t1 where "g t0 = Some (Inl e, t1)" "untouched f t0 t1"
    | (ok) x t1 where "g t0 = Some (Inr x, t1)" "written f t0 (apply_op (tb_ki t) (op_of x) (tb_versions t)) t1"
        "op_table (op_of x) = tm_id m" "op_csn (op_of x) = cg_next (tb_csn t)" "op_valid (tm_schema m) (op_of x)"
    using w t0 unfolding table_write_def by blast
  then show thesis
  proof cases
    case err
    have u: "table_ok f t1" "tb_frame t t1" "tb_now t \<le> tb_now t1" "tb_versions t1 = tb_versions t"
      using err(2) by (auto simp: untouched_def tb_frame_def S)
    show ?thesis
      by (rule that(1) [OF err(1)])
        (use put_flight [OF s match_untouched [OF M F c t(1) t0 err(2)] F] db_store_ok(2) [OF db t(1) u(1-3)] T(6) u(4) in auto)
  next
    case ok
    have csn: "op_csn (op_of x) = cg_next (db_csn (st_db s))" using ok(4) T(3) by simp
    note W = match_written [OF M F K c t(1) t0 ok(2) t(2) ok(3) csn]
    have fit: "ops_fit (st_state s) (log_ops rs @ (ops @ [op_of x]))"
      using ops_fit_snoc [OF F W(2,3) len K c ok(3,5)] by simp
    have u: "table_ok f t1" "tb_frame t t1" "tb_now t \<le> tb_now t1"
      using ok(2) clock_facts(1) [OF T(2) t(2)] by (auto simp: written_def tb_frame_def S)
    have v: "tb_versions t1 = apply_op (tb_ki t) (op_of x) (tb_versions t)" using ok(2) by (simp add: written_def)
    show ?thesis
      by (rule that(2) [OF ok(1)]) (use put_flight [OF s _ fit] W(1) db_store_ok(2) [OF db t(1) u] v in simp_all)
  qed
qed

text \<open>One logged write.\<close>

lemma st_write_ok:
  assumes s: "recoverable I f J rs s" and c: "cat (st_state s) name = Some m" and t: "db_table name (st_db s) = Inr t" "can_write t"
    and room: "io_room (st_io s)" "length (log_ops rs) < 2 ^ 32 - 2"
    and w: "table_write f m t g op_of" and slow: "\<And>s t. metrics_only t (slow s t)"
    and rec: "\<And>x. rec_ops (rec (tm_id m) x) = [op_of x]" and fits: "\<And>x t1. g (slow s t) = Some (Inr x, t1) \<Longrightarrow> rec_fits (rec (tm_id m) x)"
  shows "(\<exists>e s'. st_write A I mem name slow g csn_of rec s = Some (Inl e, s') \<and> recoverable I f J rs s' \<and>
      (\<forall>n. db_versions n (st_db s') = db_versions n (st_db s)) \<and> (\<exists>t1. g (slow s t) = Some (Inl e, t1))) \<or>
    (\<exists>x s'. st_write A I mem name slow g csn_of rec s = Some (Inr (csn_of x), s') \<and> recoverable I f J (rs @ [rec (tm_id m) x]) s' \<and>
      (\<forall>n. db_versions n (st_db s') = (if n = name then apply_op (tb_ki t) (op_of x) (tb_versions t) else db_versions n (st_db s))) \<and>
      (\<exists>t1. g (slow s t) = Some (Inr x, t1)))"
proof -
  have len: "length (log_ops rs @ []) < 2 ^ 32 - 2" using room(2) by simp
  obtain t' where res: "st_resolve name s = Inr (tm_id m, t')" "db_table name (st_db s) = Inr t'" by (rule resolve_ok [OF s c])
  then have res: "st_resolve name s = Inr (tm_id m, t)" using t(1) by simp
  have start: "st_write A I mem name slow g csn_of rec s = (do {
      (r, t) \<leftarrow> g (slow s t);
      let s = st_put_table name t s;
      (case r of Inl e \<Rightarrow> Some (Inl e, s)
       | Inr x \<Rightarrow> do { (r, s) \<leftarrow> st_log (rec (tm_id m) x) s; Some (case r of Inl e \<Rightarrow> Inl e | Inr _ \<Rightarrow> Inr (csn_of x), s) }) })"
    by (simp add: st_write_def warm_flight [OF s] res)
  have vs: "\<And>n. (\<exists>e t1. g (slow s t) = Some (Inl e, t1) \<and> in_flight I f J rs [] (st_put_table name t1 s) \<and>
      db_versions n (db_store name t1 (st_db s)) = db_versions n (st_db s)) \<or>
    (\<exists>x t1. g (slow s t) = Some (Inr x, t1) \<and> in_flight I f J rs [op_of x] (st_put_table name t1 s) \<and>
      db_versions n (db_store name t1 (st_db s)) = (if n = name then apply_op (tb_ki t) (op_of x) (tb_versions t) else db_versions n (st_db s)))"
    by (rule write_flight [OF s len c t w slow]) auto
  show ?thesis
  proof (cases "g (slow s t)")
    case None
    then show ?thesis using vs [of name] by simp
  next
    case (Some rt)
    obtain r t1 where rt: "rt = (r, t1)" by force
    show ?thesis
    proof (cases r)
      case (Inl e)
      then have "in_flight I f J rs [] (st_put_table name t1 s)" "\<And>n. db_versions n (db_store name t1 (st_db s)) = db_versions n (st_db s)"
        using vs Some rt by auto
      then show ?thesis using start Some rt Inl by (auto simp: st_put_table_def)
    next
      case (Inr x)
      then have F: "in_flight I f J rs [op_of x] (st_put_table name t1 s)" and
        V: "\<And>n. db_versions n (db_store name t1 (st_db s)) = (if n = name then apply_op (tb_ki t) (op_of x) (tb_versions t) else db_versions n (st_db s))"
        using vs Some rt by auto
      have rf: "rec_fits (rec (tm_id m) x)" using fits Some rt Inr by simp
      have io: "io_room (st_io (st_put_table name t1 s))" using room(1) by (simp add: st_put_table_def)
      have F': "in_flight I f J rs (rec_ops (rec (tm_id m) x)) (st_put_table name t1 s)" using F by (simp add: rec)
      obtain s' where "st_log (rec (tm_id m) x) (st_put_table name t1 s) = Some (Inr (), s')" "recoverable I f J (rs @ [rec (tm_id m) x]) s'"
          "st_db s' = st_db (st_put_table name t1 s)"
        by (rule log_flight [OF F' _ rf io]) (use rec in \<open>auto intro: that\<close>)
      then show ?thesis using start Some rt Inr V by (intro disjI2 exI [of _ x] exI [of _ s']) (simp add: st_put_table_def)
    qed
  qed
qed


subsection \<open>The writes of the API\<close>

lemma stored_row_ok:
  assumes "table_ok f t" "row_ok (tb_schema t) r"
  shows "row_ok (tb_schema t) (stored_row t r)"
proof -
  obtain n where "row_ok (tb_schema t) (stored_row t r)"
    unfolding stored_row_def by (rule assign_rowid_ok [OF table_okD(1) [OF assms(1)] assms(2)])
  then show ?thesis .
qed

definition put_op :: "table_meta \<Rightarrow> csn \<times> row \<Rightarrow> txn_op" where
  "put_op m x = \<lparr>op_table = tm_id m, op_csn = fst x, op_kind = TPut (snd x)\<rparr>"

definition kill_op :: "table_meta \<Rightarrow> value_t \<Rightarrow> csn \<Rightarrow> txn_op" where
  "kill_op m key c = \<lparr>op_table = tm_id m, op_csn = c, op_kind = TDelete key\<rparr>"

lemma op_simps [simp]:
  "op_table (put_op m x) = tm_id m" "op_csn (put_op m x) = fst x" "op_table (kill_op m key c) = tm_id m" "op_csn (kill_op m key c) = c"
  "apply_op ki (put_op m x) M = abs_put ki (snd x) (fst x) M" "apply_op ki (kill_op m key c) M = abs_kill ki key c M"
  "op_valid sch (put_op m x) = row_ok sch (snd x)" "op_valid sch (kill_op m key c) \<longleftrightarrow> key \<in> col_values (key_ty sch)"
  by (simp_all add: put_op_def kill_op_def apply_op_def op_valid_def)

lemma api_writes:
  assumes A: "arrow_ok A" and t: "table_ok f t" "can_write t" "tb_schema t = tm_schema m"
  shows "row_ok (tm_schema m) r \<Longrightarrow> table_write f m t (tb_insert_returning A r) (put_op m)"
    "row_ok (tm_schema m) r \<Longrightarrow> table_write f m t (tb_upsert_returning A r) (put_op m)"
    "row_ok (tm_schema m) r \<Longrightarrow> table_write f m t (tb_update A r) (\<lambda>c. put_op m (c, r))"
    "key \<in> col_values (key_ty (tm_schema m)) \<Longrightarrow> table_write f m t (tb_delete key) (kill_op m key)"
proof -
  have T: "table_ok f t0" "can_write t0" "tb_schema t0 = tm_schema m" "tb_csn t0 = tb_csn t" "tb_versions t0 = tb_versions t"
    if "metrics_only t t0" for t0
    using metrics_only_simps [OF that] t by simp_all
  show "table_write f m t (tb_insert_returning A r) (put_op m)" if r: "row_ok (tm_schema m) r"
    unfolding table_write_def
  proof (intro allI impI)
    fix t0 assume "metrics_only t t0"
    note T = T [OF this]
    have r0: "row_ok (tb_schema t0) r" using r T(3) by simp
    show "(\<exists>e t1. tb_insert_returning A r t0 = Some (Inl e, t1) \<and> untouched f t0 t1) \<or>
      (\<exists>x t1. tb_insert_returning A r t0 = Some (Inr x, t1) \<and> written f t0 (apply_op (tb_ki t) (put_op m x) (tb_versions t)) t1 \<and>
         op_table (put_op m x) = tm_id m \<and> op_csn (put_op m x) = cg_next (tb_csn t) \<and> op_valid (tm_schema m) (put_op m x))"
      using insert_returning_ok [OF A T(1,2) r0] stored_row_ok [OF T(1) r0] T(3-5) t(3) by (auto split: if_splits)
  qed
  show "table_write f m t (tb_upsert_returning A r) (put_op m)" if r: "row_ok (tm_schema m) r"
    unfolding table_write_def
  proof (intro allI impI)
    fix t0 assume "metrics_only t t0"
    note T = T [OF this]
    have r0: "row_ok (tb_schema t0) r" using r T(3) by simp
    show "(\<exists>e t1. tb_upsert_returning A r t0 = Some (Inl e, t1) \<and> untouched f t0 t1) \<or>
      (\<exists>x t1. tb_upsert_returning A r t0 = Some (Inr x, t1) \<and> written f t0 (apply_op (tb_ki t) (put_op m x) (tb_versions t)) t1 \<and>
         op_table (put_op m x) = tm_id m \<and> op_csn (put_op m x) = cg_next (tb_csn t) \<and> op_valid (tm_schema m) (put_op m x))"
      using upsert_returning_ok [OF A T(1,2) r0] stored_row_ok [OF T(1) r0] T(3-5) t(3) by auto
  qed
  show "table_write f m t (tb_update A r) (\<lambda>c. put_op m (c, r))" if r: "row_ok (tm_schema m) r"
    unfolding table_write_def
  proof (intro allI impI)
    fix t0 assume "metrics_only t t0"
    note T = T [OF this]
    have r0: "row_ok (tb_schema t0) r" using r T(3) by simp
    show "(\<exists>e t1. tb_update A r t0 = Some (Inl e, t1) \<and> untouched f t0 t1) \<or>
      (\<exists>x t1. tb_update A r t0 = Some (Inr x, t1) \<and> written f t0 (apply_op (tb_ki t) (put_op m (x, r)) (tb_versions t)) t1 \<and>
         op_table (put_op m (x, r)) = tm_id m \<and> op_csn (put_op m (x, r)) = cg_next (tb_csn t) \<and> op_valid (tm_schema m) (put_op m (x, r)))"
      using update_ok [OF A T(1,2) r0] r T(3-5) t(3) by (auto split: if_splits)
  qed
  show "table_write f m t (tb_delete key) (kill_op m key)" if k: "key \<in> col_values (key_ty (tm_schema m))"
    unfolding table_write_def
  proof (intro allI impI)
    fix t0 assume "metrics_only t t0"
    note T = T [OF this]
    have k0: "key \<in> tb_keys t0" using k T(3) by simp
    show "(\<exists>e t1. tb_delete key t0 = Some (Inl e, t1) \<and> untouched f t0 t1) \<or>
      (\<exists>x t1. tb_delete key t0 = Some (Inr x, t1) \<and> written f t0 (apply_op (tb_ki t) (kill_op m key x) (tb_versions t)) t1 \<and>
         op_table (kill_op m key x) = tm_id m \<and> op_csn (kill_op m key x) = cg_next (tb_csn t) \<and> op_valid (tm_schema m) (kill_op m key x))"
      using delete_ok [OF T(1,2) k0] k T(3-5) t(3) by (auto split: if_splits)
  qed
qed

text \<open>The log holds fewer operations than bytes.\<close>

lemma rec_ops_bytes: "length (rec_ops r) \<le> length (rec_encode r)"
proof (cases r)
  case (WTxn ops)
  have "length ops \<le> length (concat (map enc_op ops))"
  proof (induction ops)
    case (Cons op ops)
    have "1 \<le> length (enc_op op)" by (simp add: enc_op_def enc_u32_def)
    then show ?case using Cons by simp
  qed simp
  then show ?thesis using WTxn length_frame [of "rec_payload r"] by (simp add: rec_encode_def)
next
  case (WInsert t c row)
  then show ?thesis using rec_encode_nonempty [of r] by (cases "rec_encode r") auto
next
  case (WDelete t c key)
  then show ?thesis using rec_encode_nonempty [of r] by (cases "rec_encode r") auto
qed simp_all

lemma log_ops_bytes: "length (log_ops rs) \<le> length (log_image rs)"
  by (induction rs) (use rec_ops_bytes in \<open>auto intro: add_mono\<close>)

lemma log_ops_written: "log_ok rs w io \<Longrightarrow> length (log_ops rs) \<le> w_written w"
  using log_ops_bytes [of rs] by (simp add: log_ok_defs)

text \<open>What a write needs: the table, a commit number, and room in the log.\<close>

definition writable :: "string \<Rightarrow> storage \<Rightarrow> table_meta \<Rightarrow> table \<Rightarrow> bool" where
  "writable name s m t \<longleftrightarrow>
     cat (st_state s) name = Some m \<and> db_table name (st_db s) = Inr t \<and> can_write t \<and> io_room (st_io s) \<and> w_written (st_wal s) < 2 ^ 32 - 2"

abbreviation next_csn :: "storage \<Rightarrow> csn" where
  "next_csn s \<equiv> cg_next (db_csn (st_db s))"

lemma api_write_ok:
  assumes s: "recoverable I f J rs s" and w: "writable name s m t" and tw: "table_ok f t \<Longrightarrow> tb_schema t = tm_schema m \<Longrightarrow> table_write f m t g op_of"
    and slow: "\<And>s t. metrics_only t (slow s t)" and rec: "\<And>x. rec_ops (rec (tm_id m) x) = [op_of x]"
    and fits: "\<And>x t1. g (slow s t) = Some (Inr x, t1) \<Longrightarrow> rec_fits (rec (tm_id m) x)"
  shows "\<exists>r s' rs'. st_write A I mem name slow g csn_of rec s = Some (r, s') \<and> recoverable I f J rs' s' \<and>
    (case r of Inl e \<Rightarrow> rs' = rs \<and> (\<forall>n. db_versions n (st_db s') = db_versions n (st_db s))
     | Inr _ \<Rightarrow> \<exists>x t1. r = Inr (csn_of x) \<and> g (slow s t) = Some (Inr x, t1) \<and> rs' = rs @ [rec (tm_id m) x] \<and>
        (\<forall>n. db_versions n (st_db s') = (if n = name then apply_op (tb_ki t) (op_of x) (db_versions n (st_db s)) else db_versions n (st_db s))))"
proof -
  have W: "cat (st_state s) name = Some m" "db_table name (st_db s) = Inr t" "can_write t" "io_room (st_io s)" "w_written (st_wal s) < 2 ^ 32 - 2"
    using w by (auto simp: writable_def)
  have M: "tables_match f J (log_ops rs @ []) (st_state s) (st_db s)" and L: "log_ok rs (st_wal s) (st_io s)" using s by (auto simp: in_flight_def)
  note T = match_table [OF M W(1,2)]
  have len: "length (log_ops rs) < 2 ^ 32 - 2" using log_ops_written [OF L] W(5) by simp
  show ?thesis
    using st_write_ok [where slow = slow and rec = rec and g = g and op_of = op_of and csn_of = csn_of and A = A and mem = mem,
        OF s W(1-4) len tw [OF T(2,1)] slow rec fits] T(6) by fastforce
qed

end
