(* ===== verification/Ck_Checkpoint.thy ===== *)
theory Ck_Checkpoint
  imports Ck_Recovery
begin

text \<open>
  \<open>Storage::checkpoint\<close> of \<open>src/src/storage.rs\<close>: it seals every buffer, brings the part files up to date, switches the manifest and
  empties the log, and leaves a store that can be recovered from its part files alone.
\<close>

section \<open>File names\<close>

lemma nat_digits_inj: "0 \<le> a \<Longrightarrow> 0 \<le> b \<Longrightarrow> nat_digits a = nat_digits b \<Longrightarrow> a = b"
  using digits_val_nat_digits by (metis option.inject)

lemma takeWhile_digits: "0 \<le> n \<Longrightarrow> c \<notin> set ''0123456789'' \<Longrightarrow> takeWhile (\<lambda>x. x \<noteq> c) (nat_digits n @ c # r) = nat_digits n"
  using set_nat_digits [of n] by (subst takeWhile_tail) (auto simp: takeWhile_eq_all_conv)

lemma digits_before:
  assumes "0 \<le> a" "0 \<le> b" "c \<notin> set ''0123456789''" "nat_digits a @ c # r = nat_digits b @ c # r'"
  shows "a = b" "r = r'"
proof -
  have "nat_digits a = nat_digits b"
    using takeWhile_digits [OF assms(1,3), of r] takeWhile_digits [OF assms(2,3), of r'] assms(4) by simp
  then show "a = b" "r = r'" using assms nat_digits_inj by simp_all
qed

lemma part_path_inj: "part_path t p = part_path t' p' \<longleftrightarrow> t = t' \<and> p = p'"
proof
  assume "part_path t p = part_path t' p'"
  then have e: "nat_digits (uint t) @ CHR ''-'' # nat_digits (uint p) @ CHR ''.'' # ''dat'' =
      nat_digits (uint t') @ CHR ''-'' # nat_digits (uint p') @ CHR ''.'' # ''dat''"
    by (simp add: part_path_def)
  have c: "CHR ''-'' \<notin> set ''0123456789''" "CHR ''.'' \<notin> set ''0123456789''" by simp_all
  note D = digits_before [OF _ _ c(1) e]
  have "uint p = uint p'" using digits_before(1) [OF _ _ c(2), of "uint p" "uint p'" "''dat''" "''dat''"] D(2) by simp
  then show "t = t' \<and> p = p'" using D(1) by (simp add: word_uint_eq_iff)
qed simp

section \<open>Sealing every table\<close>

text \<open>What a table is apart from the shared clock and counters.\<close>

definition shape :: "table \<Rightarrow> schema \<times> table_inner" where
  "shape t = (tb_schema t, tb_inner t)"

lemma shape_attach [simp]: "shape (attach db t) = shape t"
  by (simp add: shape_def)

lemma each_table_each:
  assumes g: "\<And>t x t'. g t = Some (x, t') \<Longrightarrow> Q (tb_inner t) \<Longrightarrow> E (shape t) (shape t')"
  shows "each_table g ns db = Some (xs, db') \<Longrightarrow> sk.bt_ok (db_tables db) \<Longrightarrow> distinct ns \<Longrightarrow>
    \<forall>n \<in> set ns. \<exists>t. bt_get str_cmp n (db_tables db) = Some t \<and> Q (tb_inner t) \<Longrightarrow>
    (\<forall>n. n \<notin> set ns \<longrightarrow> bt_get str_cmp n (db_tables db') = bt_get str_cmp n (db_tables db)) \<and>
    (\<forall>n \<in> set ns. \<exists>t t'. bt_get str_cmp n (db_tables db) = Some t \<and> bt_get str_cmp n (db_tables db') = Some t' \<and> E (shape t) (shape t'))"
proof (induction ns arbitrary: db xs)
  case (Cons n ns)
  obtain u where u: "bt_get str_cmp n (db_tables db) = Some u" "Q (tb_inner u)" using Cons.prems(4) by auto
  then have t: "db_table n db = Inr (attach db u)" by (simp add: db_table_def)
  obtain x t' ys where r: "g (attach db u) = Some (x, t')" "each_table g ns (db_store n t' db) = Some (ys, db')"
    using Cons.prems(1) t by (auto split: bind_splits)
  let ?db = "db_store n t' db"
  have get: "bt_get str_cmp k (db_tables ?db) = (if k = n then Some t' else bt_get str_cmp k (db_tables db))" for k
    using Cons.prems(2) by (simp add: db_store_def bt_get_str)
  have e: "E (shape u) (shape t')" using g [OF r(1)] u(2) by simp
  have pre: "sk.bt_ok (db_tables ?db)" "distinct ns" "n \<notin> set ns" using Cons.prems(2,3) by (simp_all add: db_store_def sk.bt_ok_insert)
  have "\<forall>k \<in> set ns. \<exists>t. bt_get str_cmp k (db_tables ?db) = Some t \<and> Q (tb_inner t)" using Cons.prems(4) pre(3) by (auto simp: get)
  from Cons.IH [OF r(2) pre(1,2) this] have IH:
    "\<And>k. k \<notin> set ns \<Longrightarrow> bt_get str_cmp k (db_tables db') = bt_get str_cmp k (db_tables ?db)"
    "\<And>k. k \<in> set ns \<Longrightarrow> \<exists>t t''. bt_get str_cmp k (db_tables ?db) = Some t \<and> bt_get str_cmp k (db_tables db') = Some t'' \<and> E (shape t) (shape t'')"
    by blast+
  have "\<exists>t t''. bt_get str_cmp k (db_tables db) = Some t \<and> bt_get str_cmp k (db_tables db') = Some t'' \<and> E (shape t) (shape t'')"
    if "k \<in> set (n # ns)" for k
  proof (cases "k = n")
    case True
    then show ?thesis using IH(1) [of k] pre(3) u(1) e by (simp add: get)
  next
    case False
    then show ?thesis using IH(2) [of k] that by (simp add: get)
  qed
  moreover have "bt_get str_cmp k (db_tables db') = bt_get str_cmp k (db_tables db)" if "k \<notin> set (n # ns)" for k
    using IH(1) [of k] that by (simp add: get)
  ultimately show ?case by blast
qed simp

lemma with_deletions_id: "with_deletions A pid b c ds = Some p \<Longrightarrow> p_id p = pid"
  by (auto simp: with_deletions_def part_new_def Let_def split: bind_splits option.splits if_splits prod.splits)

lemma tb_seal_cases:
  assumes "tb_seal A t = Some t'"
  shows "tb_inner t' = tb_inner t \<or> (\<exists>p b. p_id p = ti_next_part_id (tb_inner t) \<and> tb_inner t' = (tb_inner t)
    \<lparr>ti_l0 := b, ti_next_part_id := ti_next_part_id (tb_inner t) + 1, ti_parts := p # ti_parts (tb_inner t)\<rparr>)"
  using assms with_deletions_id
  by (fastforce simp: tb_seal_def seal_locked_def Let_def split: bind_splits if_splits prod.splits)

lemma seal_evolves:
  assumes "tb_seal A t = Some t'" "ti_next_part_id (tb_inner t) \<noteq> - 1"
  shows "inner_evolved c (tb_inner t) (tb_inner t')"
proof -
  have lt: "ti_next_part_id (tb_inner t) < ti_next_part_id (tb_inner t) + 1" using less_plus_one_word [OF assms(2)] .
  consider "tb_inner t' = tb_inner t" | p b where "p_id p = ti_next_part_id (tb_inner t)" "tb_inner t' = (tb_inner t)
    \<lparr>ti_l0 := b, ti_next_part_id := ti_next_part_id (tb_inner t) + 1, ti_parts := p # ti_parts (tb_inner t)\<rparr>"
    using tb_seal_cases [OF assms(1)] by blast
  then show ?thesis
  proof cases
    case 2
    have "\<exists>q \<in> set (ti_parts (tb_inner t')). evolved c r q" if "r \<in> set (ti_parts (tb_inner t))" for r
      using that evolved_refl [of c r] by (intro bexI [of _ r]) (simp_all add: 2)
    then show ?thesis using 2 lt by (simp add: inner_evolved_def)
  qed simp
qed

lemma seal_all_evolves:
  assumes "seal_all A db = Some db'" "sk.bt_ok (db_tables db)" "db_all part_room db"
    "bt_get str_cmp n (db_tables db) = Some t"
  shows "\<exists>t'. bt_get str_cmp n (db_tables db') = Some t' \<and> inner_evolved c (tb_inner t) (tb_inner t') \<and> tb_schema t' = tb_schema t"
proof -
  let ?E = "\<lambda>(x :: schema, i) (y, j). inner_evolved c i j \<and> y = x"
  let ?g = "\<lambda>t. map_option (Pair ()) (tb_seal A t)"
  obtain xs where e: "each_table ?g (table_names db) db = Some (xs, db')" using assms(1) by (auto simp: seal_all_def)
  have g: "?E (shape t) (shape t')" if "?g t = Some (x, t')" "part_room (tb_inner t)" for t x t'
  proof -
    have "tb_seal A t = Some t'" using that(1) by auto
    moreover from this have "tb_schema t' = tb_schema t" by (auto simp: tb_seal_def split: bind_splits prod.splits)
    ultimately show ?thesis using seal_evolves that(2) by (simp add: shape_def part_room_def)
  qed
  have dist: "distinct (table_names db)" using names_distinct [OF assms(2)] by (simp add: table_names_def)
  have Q: "\<forall>n \<in> set (table_names db). \<exists>t. bt_get str_cmp n (db_tables db) = Some t \<and> part_room (tb_inner t)"
  proof
    fix n assume "n \<in> set (table_names db)"
    then obtain t where t: "bt_get str_cmp n (db_tables db) = Some t" using mem_names [OF assms(2)] by (auto simp: table_names_def)
    then show "\<exists>t. bt_get str_cmp n (db_tables db) = Some t \<and> part_room (tb_inner t)"
      using bt_get_mem [OF assms(2) t] assms(3) by (force simp: db_all_def)
  qed
  have "n \<in> set (table_names db)" using assms(4) mem_names [OF assms(2)] by (auto simp: table_names_def)
  then show ?thesis
    using each_table_each [where g = ?g and Q = part_room and E = ?E, OF g e assms(2) dist Q] assms(4) by (auto simp: shape_def)
qed

section \<open>Bringing a part file up to date\<close>

lemma no_zero_entries:
  assumes p: "part_ok p" and v: "\<forall>v \<in> set (part_versions p). snd (snd v) \<noteq> 0"
  shows "no_zero_stamp (p_dv p)"
  unfolding no_zero_stamp_def
proof
  fix e assume e: "e \<in> set (dv_entries (p_dv p))"
  obtain ord c where oc: "e = (ord, c)" by force
  have r: "unat ord < b_len (p_batch p)" using p e oc by (auto simp: part_ok_def)
  have "distinct (map fst (dv_entries (p_dv p)))" using part_okD(3) [OF p] by (auto simp: dv_ok_def strict_sorted_iff)
  then have "dv_map (p_dv p) ord = Some c" using e oc by (simp add: dv_map_def)
  then have "p_deleted_val p (unat ord) = c" using part_okD(3) [OF p] by (simp add: p_deleted_val_def deleted_at_map)
  moreover have "(batch_rows (p_batch p) ! unat ord, p_created_val p (unat ord), p_deleted_val p (unat ord)) \<in> set (part_versions p)"
    using r by (auto simp: part_versions_def)
  ultimately show "snd e \<noteq> 0" using v oc by fastforce
qed

lemma storable_encodes:
  assumes "part_ok p" "storable I p"
  obtains img where "encode_part I p = Some img"
proof -
  obtain st where "enc_stamps p = Some st" by (rule stamps_ok [OF assms])
  then show thesis using that by (simp add: encode_part_def image_payload_def)
qed

lemma payload_length: "length (tombstone_payload es) = 4 + 12 * length es"
  by (induction es) (auto simp: tombstone_payload_def enc_u32_def enc_u64_def split: prod.split)

lemma tombs_fit_filter: "tombs_fit es \<Longrightarrow> tombs_fit (filter P es)"
  using length_filter_le [of P es] unfolding tombs_fit_def payload_length by linarith

lemma storable_tombs: "storable I p \<Longrightarrow> tombs_fit (dv_entries (p_dv p))"
  by (simp add: storable_def tombs_fit_def)

lemma map_le_Some: "m \<subseteq>\<^sub>m m' \<Longrightarrow> m x = Some y \<Longrightarrow> m' x = Some y"
  unfolding map_le_def by (drule bspec [of _ _ x]) (auto simp: dom_def)

lemma map_le_None: "m \<subseteq>\<^sub>m m' \<Longrightarrow> m' x = None \<Longrightarrow> m x = None"
  by (cases "m x") (simp_all add: map_le_Some)

lemma evolved_None: "evolved c p0 p \<Longrightarrow> dv_map (p_dv p) ord = None \<Longrightarrow> dv_map (p_dv p0) ord = None"
  by (rule map_le_None [of _ "dv_map (p_dv p)"]) (simp_all add: evolved_def)

text \<open>The file of a part that has only received tombstones since.\<close>

lemma evolved_same:
  assumes "evolved c p0 p" "part_ok p" "entries_after c (p_dv p) = []"
  shows "same_as p0 p"
proof -
  have dist: "distinct (map fst (dv_entries (p_dv p)))" using part_okD(3) [OF assms(2)] by (auto simp: dv_ok_def strict_sorted_iff)
  have "dv_map (p_dv p) ord = dv_map (p_dv p0) ord" for ord
  proof (cases "dv_map (p_dv p) ord")
    case None
    then show ?thesis using evolved_None [OF assms(1)] by simp
  next
    case (Some d)
    then have "(ord, d) \<in> set (dv_entries (p_dv p))" by (simp add: dv_map_def map_of_SomeD)
    then have "\<not> c < d" using assms(3) by (force simp: entries_after_def filter_empty_conv)
    moreover have "dv_map (p_dv p0) ord = Some d \<or> c < d" using assms(1) Some unfolding evolved_def by blast
    ultimately show ?thesis using Some by simp
  qed
  then show ?thesis using assms(1,2) by (auto simp: same_part_def evolved_def)
qed

lemma part_bytes_append:
  assumes b: "part_bytes I p0 bs" and ev: "evolved c p0 p" and p: "part_ok p" "storable I p"
  shows "part_bytes I p (bs @ encode_tombstones (entries_after c (p_dv p)))"
proof -
  let ?ds = "entries_after c (p_dv p)"
  obtain base ts where base: "part_ok base" "storable I base" "list_all tombs_fit ts"
      "\<forall>t \<in> set ts. \<forall>e \<in> set t. unat (fst e) < b_len (p_batch base)" "bs = part_image I base ts" "same_part base (map_of (concat ts)) p0"
    using b unfolding part_bytes_def by blast
  have len: "b_len (p_batch p) = b_len (p_batch base)" using base(6) ev by (metis evolved_def length_batch_rows same_part_def)
  have sub: "set ?ds \<subseteq> set (dv_entries (p_dv p))" by (auto simp: entries_after_def)
  have dist: "distinct (map fst (dv_entries (p_dv p)))" using part_okD(3) [OF p(1)] by (auto simp: dv_ok_def strict_sorted_iff)
  then have dist': "distinct (map fst ?ds)" by (simp add: entries_after_def distinct_map_filter)
  have fit: "list_all tombs_fit (ts @ [?ds])" using base(3) tombs_fit_filter [OF storable_tombs [OF p(2)]] by (simp add: entries_after_def)
  have range: "\<forall>t \<in> set (ts @ [?ds]). \<forall>e \<in> set t. unat (fst e) < b_len (p_batch base)"
    using base(4) p(1) sub len by (auto simp: part_ok_def)
  have m0: "map_of (concat ts) = dv_map (p_dv p0)" using base(6) by (simp add: same_part_def)
  have "map_of (concat (ts @ [?ds])) ord = dv_map (p_dv p) ord" for ord
  proof (cases "dv_map (p_dv p) ord")
    case None
    then have "ord \<notin> fst ` set ?ds" using sub by (auto simp: dv_map_def map_of_eq_None_iff)
    then have "map_of ?ds ord = None" by (simp add: map_of_eq_None_iff)
    moreover have "dv_map (p_dv p0) ord = None" by (rule evolved_None [OF ev None])
    ultimately show ?thesis using None m0 by (simp add: map_add_def)
  next
    case (Some d)
    show ?thesis
    proof (cases "dv_map (p_dv p0) ord")
      case None
      then have "c < d" using ev Some unfolding evolved_def by fastforce
      then have "(ord, d) \<in> set ?ds" using Some by (simp add: entries_after_def dv_map_def map_of_SomeD)
      then have "map_of ?ds ord = Some d" using dist' by simp
      then show ?thesis using Some None m0 by (simp add: map_add_def)
    next
      case (Some e)
      have "dv_map (p_dv p0) \<subseteq>\<^sub>m dv_map (p_dv p)" using ev by (simp add: evolved_def)
      from map_le_Some [OF this Some] show ?thesis using Some m0 by (simp add: map_add_def)
    qed
  qed
  then have "same_part base (map_of (concat (ts @ [?ds]))) p" using base(6) ev p(1) by (auto simp: same_part_def evolved_def)
  moreover have "bs @ encode_tombstones ?ds = part_image I base (ts @ [?ds])" by (simp add: base(5) part_image_def)
  ultimately show ?thesis using base(1,2) fit range unfolding part_bytes_def by blast
qed

lemma part_bytes_new:
  assumes "part_ok p" "storable I p"
  shows "part_bytes I p (part_image I p (tombs_of (p_dv p)))"
proof -
  have "map_of (concat (tombs_of (p_dv p))) = dv_map (p_dv p)" by (simp add: tombs_of_def dv_map_def)
  then have "same_part p (map_of (concat (tombs_of (p_dv p)))) p" using assms(1) by (simp add: same_part_def)
  moreover have "\<forall>t \<in> set (tombs_of (p_dv p)). \<forall>e \<in> set t. unat (fst e) < b_len (p_batch p)"
    using assms(1) by (auto simp: tombs_of_def part_ok_def)
  moreover have "list_all tombs_fit (tombs_of (p_dv p))" using storable_tombs [OF assms(2)] by (simp add: tombs_of_def)
  ultimately show ?thesis using assms unfolding part_bytes_def by blast
qed


text \<open>What a part needs to be persisted: its file is new, or holds an earlier state of it.\<close>

definition part_ready :: "ipc \<Rightarrow> persisted \<Rightarrow> mem_io \<Rightarrow> u32 \<Rightarrow> part \<Rightarrow> bool" where
  "part_ready I pers io tid p \<longleftrightarrow>
     part_ok p \<and> storable I p \<and> mf_room 6 (handle (part_path tid (p_id p)) io) \<and>
     (case map_of pers (tid, p_id p) of
        None \<Rightarrow> no_zero_stamp (p_dv p)
      | Some since \<Rightarrow> \<exists>p0. part_bytes I p0 (live_of io (part_path tid (p_id p))) \<and> evolved since p0 p)"

lemma settled_step:
  assumes "settled io" "io_calm io'" "mf_ok (handle path io')" "mf_durable (handle path io') = mf_live (handle path io')"
    "\<And>q. q \<noteq> path \<Longrightarrow> handle q io' = handle q io"
  shows "settled io'"
  unfolding settled_def using assms by (metis settled_def)

lemma persist_part_ok:
  assumes io: "settled io" and r: "part_ready I pers io tid p"
  defines "path \<equiv> part_path tid (p_id p)"
  obtains io' where
    "(case map_of pers (tid, p_id p) of
        None \<Rightarrow> write_part I path p io
      | Some since \<Rightarrow>
          let dels = entries_after since (p_dv p)
          in Some (if dels \<noteq> [] then append_tombstones path dels (io_open path io) else (Inr (), io))) = Some (Inr (), io')"
    "settled io'" "part_bytes I p (live_of io' path)" "\<And>q. q \<noteq> path \<Longrightarrow> handle q io' = handle q io"
proof -
  have p: "part_ok p" "storable I p" and room: "mf_room 6 (handle path io)" using r by (simp_all add: part_ready_def path_def)
  have calm: "io_calm io" "mf_ok (handle path io)" using io by (simp_all add: settled_def)
  show thesis
  proof (cases "map_of pers (tid, p_id p)")
    case None
    have zero: "no_zero_stamp (p_dv p)" using r None by (simp add: part_ready_def)
    obtain img where img: "encode_part I p = Some img" by (rule storable_encodes [OF p])
    have room3: "mf_room 3 (handle path io)" by (rule mf_room_le [OF room]) simp
    obtain io' where w: "write_part I path p io = Some (Inr (), io')" "io_calm io'"
      "mf_live (handle path io') = part_image I p (tombs_of (p_dv p))" "mf_durable (handle path io') = part_image I p (tombs_of (p_dv p))"
      "mf_ok (handle path io')" "\<And>q. q \<noteq> path \<Longrightarrow> handle q io' = handle q io"
      by (rule write_part_ok [OF img zero calm room3]) (rule that, assumption+)
    have "settled io'" by (rule settled_step [OF io w(2,5) _ w(6)]) (simp add: w(3,4))
    then show thesis using that [of io'] w part_bytes_new [OF p] None by simp
  next
    case (Some since)
    obtain p0 where p0: "part_bytes I p0 (live_of io path)" "evolved since p0 p" using r Some by (auto simp: part_ready_def path_def)
    let ?ds = "entries_after since (p_dv p)" and ?io = "io_open path io"
    have oio: "io_calm ?io" "handle q ?io = handle q io" for q using calm by (simp_all add: io_calm_ok)
    show thesis
    proof (cases "?ds = []")
      case True
      have "part_bytes I p (live_of io path)" by (rule part_bytes_same [OF p0(1) evolved_same [OF p0(2) p(1) True]])
      then show thesis using that [of io] io Some True by simp
    next
      case False
      have "mf_room (Suc 5) (handle path ?io)" using room oio(2) by simp
      then have fresh: "mf_fresh (handle path ?io)" by (rule mf_room_fresh)
      have ok: "mf_ok (handle path ?io)" using calm oio(2) by simp
      obtain io' where w: "append_tombstones path ?ds ?io = (Inr (), io')" "io_calm io'"
        "mf_live (handle path io') = mf_live (handle path ?io) @ encode_tombstones ?ds"
        "mf_durable (handle path io') = mf_live (handle path ?io) @ encode_tombstones ?ds" "mf_ok (handle path io')"
        "\<And>q. q \<noteq> path \<Longrightarrow> handle q io' = handle q ?io"
        by (rule append_tombstones_ok [OF False oio(1) ok fresh]) (rule that, assumption+)
      have "settled io'" by (rule settled_step [OF io w(2,5)]) (use w oio(2) in simp_all)
      moreover have "part_bytes I p (live_of io' path)" using part_bytes_append [OF p0 p] w(3) oio(2) by simp
      ultimately show thesis using that [of io'] w oio(2) Some False by simp
    qed
  qed
qed

lemma part_ready_frame:
  assumes "part_ready I pers io tid p" "handle (part_path tid (p_id p)) io' = handle (part_path tid (p_id p)) io"
    "map_of pers' (tid, p_id p) = map_of pers (tid, p_id p)"
  shows "part_ready I pers' io' tid p"
  using assms by (auto simp: part_ready_def split: option.splits)

lemma persist_parts_ok:
  "settled io \<Longrightarrow> distinct (map p_id ps) \<Longrightarrow> \<forall>p \<in> set ps. part_ready I pers io tid p \<Longrightarrow>
   \<exists>pers' io'. persist_parts I tid c ps pers io = Some (Inr (), pers', io') \<and> settled io' \<and>
     (\<forall>p \<in> set ps. part_bytes I p (live_of io' (part_path tid (p_id p)))) \<and>
     (\<forall>q. q \<notin> part_path tid ` p_id ` set ps \<longrightarrow> handle q io' = handle q io) \<and>
     (\<forall>k. map_of pers' k = (if k \<in> Pair tid ` p_id ` set ps then Some c else map_of pers k))"
proof (induction ps arbitrary: pers io)
  case (Cons p ps)
  let ?path = "part_path tid (p_id p)" and ?key = "(tid, p_id p)"
  have r: "part_ready I pers io tid p" using Cons.prems(3) by simp
  obtain io1 where one:
    "(case map_of pers ?key of None \<Rightarrow> write_part I ?path p io
      | Some since \<Rightarrow> let dels = entries_after since (p_dv p)
          in Some (if dels \<noteq> [] then append_tombstones ?path dels (io_open ?path io) else (Inr (), io))) = Some (Inr (), io1)"
    "settled io1" "part_bytes I p (live_of io1 ?path)" "\<And>q. q \<noteq> ?path \<Longrightarrow> handle q io1 = handle q io"
    by (rule persist_part_ok [OF Cons.prems(1) r]) (rule that, assumption+)
  let ?pers = "AList.update ?key c pers"
  have upd: "map_of ?pers k = (if k = ?key then Some c else map_of pers k)" for k by (simp add: update_conv)
  have ready: "\<forall>q \<in> set ps. part_ready I ?pers io1 tid q"
  proof
    fix q assume q: "q \<in> set ps"
    then have "p_id q \<noteq> p_id p" using Cons.prems(2) by (auto simp: image_iff)
    moreover from this have "part_path tid (p_id q) \<noteq> ?path" by (simp add: part_path_inj)
    moreover have "part_ready I pers io tid q" using q Cons.prems(3) by simp
    ultimately show "part_ready I ?pers io1 tid q" using part_ready_frame [of I pers io tid q io1 ?pers] one(4) upd by simp
  qed
  have dist: "distinct (map p_id ps)" "p_id p \<notin> p_id ` set ps" using Cons.prems(2) by auto
  obtain pers' io' where IH: "persist_parts I tid c ps ?pers io1 = Some (Inr (), pers', io')" "settled io'"
     "\<forall>p \<in> set ps. part_bytes I p (live_of io' (part_path tid (p_id p)))"
     "\<forall>q. q \<notin> part_path tid ` p_id ` set ps \<longrightarrow> handle q io' = handle q io1"
     "\<forall>k. map_of pers' k = (if k \<in> Pair tid ` p_id ` set ps then Some c else map_of ?pers k)"
    using Cons.IH [OF one(2) dist(1) ready] by (elim exE conjE) (rule that, assumption+)
  have "persist_parts I tid c (p # ps) pers io = Some (Inr (), pers', io')" using one(1) IH(1) by (simp add: Let_def)
  moreover have "?path \<notin> part_path tid ` p_id ` set ps" using dist(2) by (auto simp: part_path_inj)
  then have "handle ?path io' = handle ?path io1" using IH(4) by blast
  then have "part_bytes I p (live_of io' ?path)" using one(3) by simp
  moreover have "handle q io' = handle q io" if "q \<notin> part_path tid ` p_id ` set (p # ps)" for q
    using that IH(4) one(4) [of q] by auto
  moreover have "map_of pers' k = (if k \<in> Pair tid ` p_id ` set (p # ps) then Some c else map_of pers k)" for k
    using IH(5) [rule_format, of k] upd [of k] by auto
  ultimately show ?case using IH(2,3) by (intro exI [of _ pers'] exI [of _ io']) simp
qed simp

definition meta_now :: "(string \<Rightarrow> table_inner) \<Rightarrow> table_meta \<Rightarrow> table_meta" where
  "meta_now K m = m\<lparr>tm_part_ids := map p_id (ti_parts (K (tm_name m))), tm_next_part_id := ti_next_part_id (K (tm_name m))\<rparr>"

definition table_keys :: "(string \<Rightarrow> table_inner) \<Rightarrow> table_meta \<Rightarrow> (u32 \<times> u64) list" where
  "table_keys K m = map (Pair (tm_id m)) (map p_id (ti_parts (K (tm_name m))))"

lemma persist_tables_ok:
  "settled io \<Longrightarrow> distinct (map tm_id metas) \<Longrightarrow>
   \<forall>m \<in> set metas. \<exists>t. db_table (tm_name m) db = Inr t \<and> tb_inner t = K (tm_name m) \<and> distinct (map p_id (ti_parts (K (tm_name m)))) \<Longrightarrow>
   \<forall>m \<in> set metas. \<forall>p \<in> set (ti_parts (K (tm_name m))). part_ready I pers io (tm_id m) p \<Longrightarrow>
   \<exists>pers' io'. persist_tables I db c metas pers io = Some (Inr (concat (map (table_keys K) metas)), map (meta_now K) metas, pers', io') \<and> settled io' \<and>
     (\<forall>m \<in> set metas. \<forall>p \<in> set (ti_parts (K (tm_name m))). part_bytes I p (live_of io' (part_path (tm_id m) (p_id p)))) \<and>
     (\<forall>q. (\<forall>tid pid. q \<noteq> part_path tid pid) \<longrightarrow> handle q io' = handle q io) \<and>
     (\<forall>tid pid. tid \<notin> tm_id ` set metas \<longrightarrow> handle (part_path tid pid) io' = handle (part_path tid pid) io) \<and>
     (\<forall>k. map_of pers' k = (if k \<in> set (concat (map (table_keys K) metas)) then Some c else map_of pers k))"
proof (induction metas arbitrary: pers io)
  case (Cons m metas)
  let ?ps = "ti_parts (K (tm_name m))" and ?tid = "tm_id m"
  obtain t where t: "db_table (tm_name m) db = Inr t" "tb_inner t = K (tm_name m)" "distinct (map p_id ?ps)" using Cons.prems(3) by auto
  have ready: "\<forall>p \<in> set ?ps. part_ready I pers io ?tid p" using Cons.prems(4) by simp
  obtain pers1 io1 where one: "persist_parts I ?tid c ?ps pers io = Some (Inr (), pers1, io1)" "settled io1"
     "\<forall>p \<in> set ?ps. part_bytes I p (live_of io1 (part_path ?tid (p_id p)))"
     "\<forall>q. q \<notin> part_path ?tid ` p_id ` set ?ps \<longrightarrow> handle q io1 = handle q io"
     "\<forall>k. map_of pers1 k = (if k \<in> Pair ?tid ` p_id ` set ?ps then Some c else map_of pers k)"
    using persist_parts_ok [where c = c, OF Cons.prems(1) t(3) ready] by (elim exE conjE) (rule that, assumption+)
  have ids: "distinct (map tm_id metas)" "?tid \<notin> tm_id ` set metas" using Cons.prems(2) by auto
  have h1: "handle (part_path tid pid) io1 = handle (part_path tid pid) io" if "tid \<noteq> ?tid" for tid pid
  proof -
    have "part_path tid pid \<notin> part_path ?tid ` p_id ` set ?ps" using that by (auto simp: part_path_inj)
    then show ?thesis using one(4) by blast
  qed
  have ready1: "\<forall>x \<in> set metas. \<forall>p \<in> set (ti_parts (K (tm_name x))). part_ready I pers1 io1 (tm_id x) p"
  proof (intro ballI)
    fix x p assume x: "x \<in> set metas" "p \<in> set (ti_parts (K (tm_name x)))"
    then have ne: "tm_id x \<noteq> ?tid" using ids(2) by (metis imageI)
    have "part_ready I pers io (tm_id x) p" using Cons.prems(4) x by simp
    then show "part_ready I pers1 io1 (tm_id x) p" by (rule part_ready_frame) (use h1 [OF ne] one(5) ne in auto)
  qed
  have tabs: "\<forall>m \<in> set metas. \<exists>t. db_table (tm_name m) db = Inr t \<and> tb_inner t = K (tm_name m) \<and> distinct (map p_id (ti_parts (K (tm_name m))))"
    using Cons.prems(3) by simp
  obtain pers' io' where IH: "persist_tables I db c metas pers1 io1 = Some (Inr (concat (map (table_keys K) metas)), map (meta_now K) metas, pers', io')"
     "settled io'" "\<forall>m \<in> set metas. \<forall>p \<in> set (ti_parts (K (tm_name m))). part_bytes I p (live_of io' (part_path (tm_id m) (p_id p)))"
     "\<forall>q. (\<forall>tid pid. q \<noteq> part_path tid pid) \<longrightarrow> handle q io' = handle q io1"
     "\<forall>tid pid. tid \<notin> tm_id ` set metas \<longrightarrow> handle (part_path tid pid) io' = handle (part_path tid pid) io1"
     "\<forall>k. map_of pers' k = (if k \<in> set (concat (map (table_keys K) metas)) then Some c else map_of pers1 k)"
    using Cons.IH [OF one(2) ids(1) tabs ready1] by (elim exE conjE) (rule that, assumption+)
  have run: "persist_tables I db c (m # metas) pers io =
      Some (Inr (concat (map (table_keys K) (m # metas))), map (meta_now K) (m # metas), pers', io')"
    using t(1,2) one(1) IH(1) by (simp add: parts_snapshot_def meta_now_def table_keys_def)
  have mine: "\<forall>p \<in> set ?ps. part_bytes I p (live_of io' (part_path ?tid (p_id p)))" using one(3) IH(5) ids(2) by simp
  have "handle q io' = handle q io" if "\<forall>tid pid. q \<noteq> part_path tid pid" for q
  proof -
    have "q \<notin> part_path ?tid ` p_id ` set ?ps" using that by blast
    then show ?thesis using that IH(4) one(4) by simp
  qed
  moreover have "handle (part_path tid pid) io' = handle (part_path tid pid) io" if "tid \<notin> tm_id ` set (m # metas)" for tid pid
    using that IH(5) h1 by simp
  moreover have "map_of pers' k = (if k \<in> set (concat (map (table_keys K) (m # metas))) then Some c else map_of pers k)" for k
    using IH(6) [rule_format, of k] one(5) [rule_format, of k] by (auto simp: table_keys_def)
  ultimately show ?case using run IH(2,3) mine by (intro exI [of _ pers'] exI [of _ io']) simp
qed simp


section \<open>After the switch\<close>

lemma handle_remove: "io_ok io \<Longrightarrow> handle p (io_remove path io) = (if p = path then mf_new else handle p io)"
  by (simp add: handle_def io_file_remove)

lemma settled_remove: "settled io \<Longrightarrow> settled (io_remove path io)"
  by (simp add: settled_def io_calm_ok handle_remove) (simp add: mf_new_def)

lemma fold_remove_parts:
  "settled io \<Longrightarrow> settled (fold (\<lambda>(tid, pid). io_remove (part_path tid pid)) ks io) \<and>
   (\<forall>p. p \<notin> (\<lambda>(tid, pid). part_path tid pid) ` set ks \<longrightarrow> handle p (fold (\<lambda>(tid, pid). io_remove (part_path tid pid)) ks io) = handle p io)"
proof (induction ks arbitrary: io)
  case (Cons k ks)
  obtain tid pid where k: "k = (tid, pid)" by force
  have "settled (io_remove (part_path tid pid) io)" using Cons.prems by (rule settled_remove)
  moreover have "io_ok io" using Cons.prems by (simp add: settled_def io_calm_ok)
  ultimately show ?case using Cons.IH [of "io_remove (part_path tid pid) io"] by (simp add: k handle_remove)
qed simp

lemma map_of_filter_keys: "map_of (filter (\<lambda>e. fst e \<in> S) xs) k = (if k \<in> S then map_of xs k else None)"
  by (induction xs) auto

lemma drop_dead_ok:
  assumes "settled io" "drop_dead keep pers io = (pers', io')"
  shows "settled io'" "map_of pers' k = (if k \<in> set keep then map_of pers k else None)"
    "(\<forall>tid pid. p \<noteq> part_path tid pid) \<or> (\<exists>tid pid. p = part_path tid pid \<and> (tid, pid) \<in> set keep) \<Longrightarrow> handle p io' = handle p io"
proof -
  let ?dead = "filter (\<lambda>k. k \<notin> set keep) (map fst pers)"
  have e: "pers' = filter (\<lambda>e. fst e \<in> set keep) pers" "io' = fold (\<lambda>(tid, pid). io_remove (part_path tid pid)) ?dead io"
    using assms(2) by (simp_all add: drop_dead_def Let_def)
  note F = fold_remove_parts [OF assms(1), of ?dead]
  show "settled io'" using F by (simp add: e)
  show "map_of pers' k = (if k \<in> set keep then map_of pers k else None)" unfolding e(1) by (rule map_of_filter_keys)
  assume a: "(\<forall>tid pid. p \<noteq> part_path tid pid) \<or> (\<exists>tid pid. p = part_path tid pid \<and> (tid, pid) \<in> set keep)"
  have "p \<notin> (\<lambda>(tid, pid). part_path tid pid) ` set ?dead"
  proof
    assume "p \<in> (\<lambda>(tid, pid). part_path tid pid) ` set ?dead"
    then obtain tid pid where "p = part_path tid pid" "(tid, pid) \<notin> set keep" by auto
    then show False using a by (auto simp: part_path_inj)
  qed
  then show "handle p io' = handle p io" using F by (simp add: e(2))
qed

lemma cut_log_ok:
  assumes io: "settled io" and log: "log_ok rs w io" and mode: "waits_for_disk (w_mode w)" and room: "mf_room 3 (handle (w_file w) io)"
  obtains w' io' where "cut_log c w io = Some (Inr c, w', io')" "log_ok [] w' io'" "settled io'" "w_file w' = w_file w" "w_mode w' = w_mode w"
    "\<And>p. p \<noteq> w_file w \<Longrightarrow> handle p io' = handle p io"
proof -
  have fits: "rec_fits (WCheckpoint c)" by (simp add: rec_fits_def enc_u8_def enc_u64_def)
  have fresh: "mf_fresh (handle (w_file w) io)" using room mf_room_fresh [of 2] by (simp add: numeral_3_eq_3 numeral_2_eq_2)
  obtain n w1 io1 where a: "wal_append (WCheckpoint c) w io = Some (Inr n, w1, io1)" "log_ok (rs @ [WCheckpoint c]) w1 io1" "settled io1"
    "w_file w1 = w_file w" "w_mode w1 = w_mode w" "\<And>p. p \<noteq> w_file w \<Longrightarrow> handle p io1 = handle p io"
    "w_written w1 \<le> gc_durable (w_group w1)" "\<And>n. mf_room (Suc n) (handle (w_file w) io) \<Longrightarrow> mf_room n (handle (w_file w) io1)"
    by (rule wal_append_calm [OF io log mode fits fresh]) (rule that, assumption+)
  let ?p = "w_file w"
  have written: "w_written w1 = length (log_image (rs @ [WCheckpoint c]))" using a(2) by (simp add: log_ok_defs)
  have pos: "w_written w1 \<noteq> 0" using written by simp
  have flush: "wal_flush w1 io1 = Some (Inr (), w1, io1)" using a(7) by (simp add: wal_flush_def commit_to_def gc_begin_def)
  have calm: "io_calm io1" "io_ok io1" using a(3) by (simp_all add: settled_def io_calm_ok)
  let ?io3 = "file_truncate ?p 0 io1" let ?g = "mf_sync (handle ?p ?io3)" let ?io4 = "io_put ?p ?g ?io3"
  define w4 where "w4 = w1\<lparr>w_written := 0, w_group := gc_reset_to 0 (w_group w1)\<rparr>"
  have calm3: "io_calm ?io3" "io_ok ?io3" "io_calm ?io4" using calm by (simp_all add: io_calm_ok)
  have tr: "truncate_before (w_written w1) w1 io1 = (Inr (), w4, ?io4)"
    using pos a(4) calm3(1) by (simp add: truncate_before_def Let_def sync_calm w4_def)
  have run: "cut_log c w io = Some (Inr c, w4, ?io4)" by (simp add: cut_log_def a(1) flush tr)
  have h3: "handle ?p ?io3 = mf_truncate 0 (handle ?p io1)" using calm by (simp add: file_truncate_def)
  have h4: "handle p ?io4 = (if p = ?p then ?g else handle p io1)" for p using calm calm3 by (simp add: file_truncate_def)
  have "mf_room (Suc (Suc (Suc 0))) (handle ?p io)" using room by (simp add: numeral_3_eq_3)
  then have fresh2: "mf_fresh (handle ?p io1)" using a(8) mf_room_fresh by blast
  have ok3: "mf_ok (handle ?p ?io3)" using mf_ok_truncate [OF _ fresh2] a(3) by (simp add: h3 settled_def)
  note sy = mf_sync_ok [OF ok3]
  have live: "mf_live ?g = []" "mf_durable ?g = []" using sy by (simp_all add: h3)
  have set: "settled ?io4" by (rule settled_step [OF a(3) calm3(3), of ?p]) (use h4 sy live in simp_all)
  have "log_ok [] w4 ?io4" using live sy calm3 a(4) h4 [of ?p] by (simp add: log_ok_defs w4_def io_calm_def)
  then show thesis using that [OF run _ set] h4 a(4-6) by (simp add: w4_def)
qed


section \<open>The whole checkpoint\<close>

lemma after_ops_nonzero:
  "ops_ok st lo ops \<Longrightarrow> \<forall>v \<in># M. snd (snd v) \<noteq> 0 \<Longrightarrow> \<forall>v \<in># after_ops st n ops M. snd (snd v) \<noteq> 0"
proof (induction ops arbitrary: lo M)
  case (Cons op ops)
  have op: "lo < op_csn op" "ops_ok st (op_csn op) ops" using Cons.prems(1) by (auto simp: ops_ok_Cons)
  then have nz: "op_csn op \<noteq> 0" by auto
  have "\<forall>v \<in># abs_kill ki key (op_csn op) M. snd (snd v) \<noteq> 0" for ki key
    using Cons.prems(2) nz by (auto simp: abs_kill_def split: if_splits)
  then have "\<forall>v \<in># apply_op ki op M. snd (snd v) \<noteq> 0" for ki
    by (auto simp: apply_op_def abs_put_def NEVER_DELETED_def split: txn_kind.split)
  then have "\<forall>v \<in># (if names_by_id st (op_table op) = Some n then apply_op (cat_ki st n) op M else M). snd (snd v) \<noteq> 0"
    using Cons.prems(2) by simp
  from Cons.IH [OF op(2) this] show ?case by simp
qed simp

lemma log_ok_frame: "log_ok rs w io \<Longrightarrow> settled io' \<Longrightarrow> handle (w_file w) io' = handle (w_file w) io \<Longrightarrow> log_ok rs w io'"
  by (simp add: log_ok_defs settled_def io_calm_def)

definition inner_at :: "database \<Rightarrow> string \<Rightarrow> table_inner" where
  "inner_at db n = tb_inner (the (bt_get str_cmp n (db_tables db)))"

definition manifest_now :: "csn \<Rightarrow> database \<Rightarrow> manifest_state \<Rightarrow> manifest_state" where
  "manifest_now c db st = st\<lparr>ms_tables := map (meta_now (inner_at db)) (ms_tables st), ms_checkpoint_csn := c\<rparr>"

text \<open>What a checkpoint needs: numbers left in the counters, and images within the limits of their formats.\<close>

definition checkpoint_room :: "arrow \<Rightarrow> ipc \<Rightarrow> storage \<Rightarrow> bool" where
  "checkpoint_room A I s \<longleftrightarrow>
     io_room (st_io s) \<and> db_all part_room (st_db s) \<and>
     (\<forall>db. seal_all A (st_db s) = Some db \<longrightarrow>
        ms_fits (manifest_now (db_snapshot db) db (st_state s)) \<and>
        (\<forall>n t. bt_get str_cmp n (db_tables db) = Some t \<longrightarrow> (\<forall>p \<in> set (ti_parts (tb_inner t)). storable I p)))"

lemma meta_now_simps [simp]:
  "tm_name (meta_now K m) = tm_name m" "tm_id (meta_now K m) = tm_id m" "tm_schema (meta_now K m) = tm_schema m"
  by (simp_all add: meta_now_def)

lemma manifest_now_facts:
  assumes "catalog_ok st"
  shows "catalog_ok (manifest_now c db st)" "cat (manifest_now c db st) n = map_option (meta_now (inner_at db)) (cat st n)"
proof -
  show "catalog_ok (manifest_now c db st)" using assms by (simp add: catalog_ok_def manifest_now_def comp_def)
  show "cat (manifest_now c db st) n = map_option (meta_now (inner_at db)) (cat st n)"
    using map_of_pairs [of tm_name "meta_now (inner_at db)" "ms_tables st"] by (simp add: cat_def manifest_now_def comp_def)
qed

lemma live_keys: "set (concat (map (table_keys K) ms)) = (\<Union>m \<in> set ms. Pair (tm_id m) ` set (tm_part_ids (meta_now K m)))"
  by (auto simp: table_keys_def meta_now_def)

lemma persisted_part:
  assumes s: "recoverable I f J rs s" and c: "cat (st_state s) n = Some m"
    and ev: "inner_evolved (ms_checkpoint_csn (st_state s)) (J n) inner" and ids: "distinct (map p_id (ti_parts inner))"
    and p: "p \<in> set (ti_parts inner)" and per: "map_of (st_persisted s) (tm_id m, p_id p) = Some since"
  shows "\<exists>p0. part_bytes I p0 (live_of (st_io s) (part_path (tm_id m) (p_id p))) \<and> evolved since p0 p"
proof -
  let ?st = "st_state s"
  have K: "catalog_ok ?st" and disk: "\<forall>m \<in> set (ms_tables ?st). parts_on_disk I J (live_of (st_io s)) m" and pok: "persisted_ok ?st (st_persisted s)"
    using s by (auto simp: in_flight_def image_on_disk_def)
  have m: "m \<in> set (ms_tables ?st)" "tm_name m = n" using c cat_iff [OF K] by auto
  have since: "since = ms_checkpoint_csn ?st" "(tm_id m, p_id p) \<in> part_keys ?st" using pok per by (auto simp: persisted_ok_def split: if_splits)
  then obtain m' where m': "m' \<in> set (ms_tables ?st)" "tm_id m' = tm_id m" "p_id p \<in> set (tm_part_ids m')" by (auto simp: part_keys_def)
  have "m' = m" using K m' m(1) by (auto simp: catalog_ok_def distinct_map inj_on_def)
  then obtain p0 where p0: "p0 \<in> set (ti_parts (J n))" "p_id p0 = p_id p" using disk m m'(3) by (auto simp: parts_on_disk_def)
  obtain q where q: "q \<in> set (ti_parts inner)" "evolved since p0 q" using ev p0(1) since(1) by (auto simp: inner_evolved_def)
  have "p_id q = p_id p" using q(2) p0(2) by (simp add: evolved_def)
  then have "q = p" using ids q(1) p by (auto simp: distinct_map inj_on_def)
  moreover have "part_bytes I p0 (live_of (st_io s) (part_path (tm_id m) (p_id p0)))" using disk m p0(1) by (auto simp: parts_on_disk_def)
  ultimately show ?thesis using q(2) p0(2) by auto
qed

lemma checkpoint_ok:
  assumes A: "arrow_ok A" and s: "recoverable I f J rs s" and room: "checkpoint_room A I s"
  obtains s' J' where "checkpoint A I s = Some (Inr (current (db_csn (st_db s))), s')" "recoverable I f J' [] s'"
    "\<And>n. db_versions n (st_db s') = db_versions n (st_db s)" "db_csn (st_db s') = db_csn (st_db s)"
    "ms_checkpoint_csn (st_state s') = current (db_csn (st_db s))"
proof -
  let ?st = "st_state s" and ?io = "st_io s" and ?c = "current (db_csn (st_db s))"
  have D: "settled ?io" "image_on_disk I f J ?st ?io" "tables_match f J (log_ops rs) ?st (st_db s)" "manifest_holds (st_manifest s) ?st ?io"
    "w_file (st_wal s) = WAL_PATH" "waits_for_disk (w_mode (st_wal s))" "log_ok rs (st_wal s) ?io" "ops_fit ?st (log_ops rs)"
    "st_table_ids s = (\<lambda>n. map_option tm_id (cat ?st n))" "persisted_ok ?st (st_persisted s)" "st_warmed s"
    using s by (auto simp: in_flight_def)
  have K: "catalog_ok ?st" and img: "images_ok f J ?st" using D(2) by (auto simp: image_on_disk_def)
  have db: "db_ok f (st_db s)" using D(3) by (simp add: tables_match_def)
  have R: "io_room ?io" "db_all part_room (st_db s)" using room by (auto simp: checkpoint_room_def)
  have bt: "sk.bt_ok (db_tables (st_db s))" using db by (simp add: db_ok_def)
  obtain db' where seal: "seal_all A (st_db s) = Some db'" "db_kept f (=) (st_db s) db'"
      "\<And>n t. bt_get str_cmp n (db_tables db') = Some t \<Longrightarrow> l0_entries (ti_l0 (tb_inner t)) = []"
    by (rule seal_all_ok [OF A db R(2)]) (rule that, assumption+)
  have kept: "db_ok f db'" "db_csn db' = db_csn (st_db s)" "\<And>n. db_versions n db' = db_versions n (st_db s)"
    using seal(2) by (auto simp: db_kept_def)
  have c: "db_snapshot db' = ?c" by (simp add: db_snapshot_def snapshot_def kept(2))
  let ?st' = "manifest_now ?c db' ?st" and ?K = "inner_at db'"
  have fits: "ms_fits ?st'" using room seal(1) c by (auto simp: checkpoint_room_def)
  have stor: "storable I p" if "bt_get str_cmp n (db_tables db') = Some t" "p \<in> set (ti_parts (tb_inner t))" for n t p
    using room seal(1) that by (auto simp: checkpoint_room_def)
  note N = manifest_now_facts [OF K, of ?c db']
  have tab: "\<exists>t. bt_get str_cmp n (db_tables db') = Some t \<and> tb_inner t = ?K n \<and> inner_evolved (ms_checkpoint_csn ?st) (J n) (?K n) \<and>
      tb_schema t = tm_schema m \<and> table_ok f (attach db' t) \<and> ti_versions (?K n) = logged_versions ?st J (log_ops rs) n \<and> l0_entries (ti_l0 (?K n)) = []"
    if cm: "cat ?st n = Some m" for n m
  proof -
    have "bt_get str_cmp n (db_tables (st_db s)) \<noteq> None" using D(3) cm unfolding tables_match_def by (metis option.simps(3))
    then obtain t0 where t0: "bt_get str_cmp n (db_tables (st_db s)) = Some t0" by blast
    obtain t where t: "bt_get str_cmp n (db_tables db') = Some t" "inner_evolved (ms_checkpoint_csn ?st) (tb_inner t0) (tb_inner t)" "tb_schema t = tb_schema t0"
      using seal_all_evolves [OF seal(1) bt R(2) t0] by blast
    have m0: "tb_schema t0 = tm_schema m" "inner_evolved (ms_checkpoint_csn ?st) (J n) (tb_inner t0)" "tb_versions t0 = logged_versions ?st J (log_ops rs) n"
      using D(3) cm t0 by (auto simp: tables_match_def)
    have ok: "table_ok f (attach db' t)" using kept(1) t(1) by (simp add: db_ok_def)
    have v: "tb_versions t = tb_versions t0" using kept(3) [of n] t(1) t0 by (simp add: db_versions_def)
    have "tb_schema t = tm_schema m" using t(3) m0(1) by simp
    then show ?thesis using t(1) ok v m0(3) inner_evolved_trans [OF m0(2) t(2)] seal(3) [OF t(1)] by (simp add: inner_at_def tb_versions_def)
  qed
  have inner: "inner_ok (tm_schema m) (?K n)" if "cat ?st n = Some m" for n m
    using tab [OF that] table_okD(1) by fastforce
  have nz: "\<forall>v \<in># ti_versions (?K n). snd (snd v) \<noteq> 0" if cm: "cat ?st n = Some m" for n m
    using tab [OF cm] img cm D(8) after_ops_nonzero unfolding images_ok_def ops_fit_def logged_versions_def by metis
  have named: "cat ?st (tm_name m) = Some m" if "m \<in> set (ms_tables ?st)" for m using that cat_iff [OF K] by simp
  have ready: "\<forall>m \<in> set (ms_tables ?st). \<forall>p \<in> set (ti_parts (?K (tm_name m))). part_ready I (st_persisted s) ?io (tm_id m) p"
  proof (intro ballI)
    fix m p assume m: "m \<in> set (ms_tables ?st)" and p: "p \<in> set (ti_parts (?K (tm_name m)))"
    note cm = named [OF m]
    obtain t where t: "bt_get str_cmp (tm_name m) (db_tables db') = Some t" "tb_inner t = ?K (tm_name m)"
        "inner_evolved (ms_checkpoint_csn ?st) (J (tm_name m)) (?K (tm_name m))" using tab [OF cm] by blast
    have ok: "part_ok p" "distinct (map p_id (ti_parts (?K (tm_name m))))" using inner [OF cm] p by (auto simp: inner_ok_def)
    have "set (part_versions p) \<subseteq> set_mset (ti_versions (?K (tm_name m)))"
      using p by (auto simp: ti_versions_def versions_of_def sum_list_map_remove1 [OF p])
    then have zero: "no_zero_stamp (p_dv p)" using no_zero_entries [OF ok(1)] nz [OF cm] by blast
    show "part_ready I (st_persisted s) ?io (tm_id m) p"
      using ok(1) stor [OF t(1)] t(2) p R(1) zero persisted_part [OF s cm t(3) ok(2) p]
      by (auto simp: part_ready_def io_room_def split: option.split)
  qed
  have tabs: "\<forall>m \<in> set (ms_tables ?st). \<exists>t. db_table (tm_name m) db' = Inr t \<and> tb_inner t = ?K (tm_name m) \<and> distinct (map p_id (ti_parts (?K (tm_name m))))"
  proof
    fix m assume m: "m \<in> set (ms_tables ?st)"
    obtain t where t: "bt_get str_cmp (tm_name m) (db_tables db') = Some t" "tb_inner t = ?K (tm_name m)" using tab [OF named [OF m]] by blast
    have "distinct (map p_id (ti_parts (?K (tm_name m))))" using inner [OF named [OF m]] by (simp add: inner_ok_def)
    then show "\<exists>t. db_table (tm_name m) db' = Inr t \<and> tb_inner t = ?K (tm_name m) \<and> distinct (map p_id (ti_parts (?K (tm_name m))))"
      using t by (simp add: db_table_def)
  qed
  have ids: "distinct (map tm_id (ms_tables ?st))" using K by (simp add: catalog_ok_def)
  let ?keep = "concat (map (table_keys ?K) (ms_tables ?st))"
  obtain pers1 io1 where P: "persist_tables I db' ?c (ms_tables ?st) (st_persisted s) ?io =
        Some (Inr ?keep, map (meta_now ?K) (ms_tables ?st), pers1, io1)" "settled io1"
     "\<forall>m \<in> set (ms_tables ?st). \<forall>p \<in> set (ti_parts (?K (tm_name m))). part_bytes I p (live_of io1 (part_path (tm_id m) (p_id p)))"
     "\<forall>q. (\<forall>tid pid. q \<noteq> part_path tid pid) \<longrightarrow> handle q io1 = handle q ?io"
     "\<forall>tid pid. tid \<notin> tm_id ` set (ms_tables ?st) \<longrightarrow> handle (part_path tid pid) io1 = handle (part_path tid pid) ?io"
     "\<forall>k. map_of pers1 k = (if k \<in> set ?keep then Some ?c else map_of (st_persisted s) k)"
    using persist_tables_ok [where c = ?c, OF D(1) ids tabs ready] by (elim exE conjE) (rule that, assumption+)
  have hM: "handle MANIFEST_PATH io1 = handle MANIFEST_PATH ?io" "handle WAL_PATH io1 = handle WAL_PATH ?io"
    using P(4) part_path_not_log by metis+
  let ?mn = "st_manifest s"
  have mf: "mn_file ?mn = MANIFEST_PATH" using D(4) by (simp add: manifest_holds_def)
  have rM: "mf_room (Suc (Suc 4)) (handle MANIFEST_PATH io1)" using R(1) hM(1) by (simp add: io_room_def)
  have M3: "io_calm io1" "mf_ok (handle (mn_file ?mn) io1)" "mf_fresh (handle (mn_file ?mn) io1)" "mf_fresh (mf_truncate 0 (handle (mn_file ?mn) io1))"
    using P(2) mf_room_fresh [OF rM] mf_room_fresh [OF mf_room_step(2) [OF rM]] by (simp_all add: settled_def mf)
  obtain io2 where C: "manifest_compact ?st' ?mn io1 = (Inr (), ?mn\<lparr>mn_len := length (ms_encode ?st')\<rparr>, io2)"
    "io_calm io2" "live_of io2 MANIFEST_PATH = ms_encode ?st'" "mf_durable (handle MANIFEST_PATH io2) = ms_encode ?st'"
    "mf_ok (handle MANIFEST_PATH io2)" "\<And>p. p \<noteq> MANIFEST_PATH \<Longrightarrow> handle p io2 = handle p io1"
    using manifest_compact_calm [OF M3, of ?st'] mf by metis
  have set2: "settled io2" by (rule settled_step [OF P(2) C(2,5) _ C(6)]) (simp add: C(3,4))
  obtain pers3 io3 where dd: "drop_dead ?keep pers1 io2 = (pers3, io3)" by force
  note DD = drop_dead_ok [OF set2 dd]
  have h3: "handle WAL_PATH io3 = handle WAL_PATH ?io" "handle MANIFEST_PATH io3 = handle MANIFEST_PATH io2"
    using DD(3) [of WAL_PATH] DD(3) [of MANIFEST_PATH] part_path_not_log C(6) [of WAL_PATH] hM(2) by metis+
  have log3: "log_ok rs (st_wal s) io3" using log_ok_frame [OF D(7) DD(1)] h3(1) D(5) by simp
  have room3: "mf_room 3 (handle (w_file (st_wal s)) io3)" using R(1) h3(1) D(5) mf_room_le [of 6 _ 3] by (simp add: io_room_def)
  obtain w4 io4 where W: "cut_log ?c (st_wal s) io3 = Some (Inr ?c, w4, io4)" "log_ok [] w4 io4" "settled io4" "w_file w4 = WAL_PATH"
    "w_mode w4 = w_mode (st_wal s)" "\<And>p. p \<noteq> WAL_PATH \<Longrightarrow> handle p io4 = handle p io3"
    using cut_log_ok [OF DD(1) log3 D(6) room3, of ?c] D(5) by metis
  let ?s = "s\<lparr>st_db := db', st_state := ?st', st_manifest := ?mn\<lparr>mn_len := length (ms_encode ?st')\<rparr>, st_persisted := pers3, st_wal := w4, st_io := io4\<rparr>"
  have st'_eq: "?st\<lparr>ms_tables := map (meta_now ?K) (ms_tables ?st), ms_checkpoint_csn := ?c\<rparr> = ?st'" by (simp add: manifest_now_def)
  have run: "checkpoint A I s = Some (Inr ?c, ?s)"
    by (simp add: checkpoint_def seal(1) c P(1) st'_eq C(1) dd W(1) Let_def)
  have now: "?c \<noteq> NEVER_DELETED" "f \<le> ?c" using db by (simp_all add: db_ok_def)
  have images: "images_ok f ?K ?st'"
    unfolding images_ok_def
  proof (intro conjI allI impI)
    show "f \<le> ms_checkpoint_csn ?st'" "ms_checkpoint_csn ?st' \<noteq> NEVER_DELETED" using now by (simp_all add: manifest_now_def)
    fix n m' assume "cat ?st' n = Some m'"
    then obtain m where m: "cat ?st n = Some m" "m' = meta_now ?K m" using N(2) by auto
    obtain t where t: "bt_get str_cmp n (db_tables db') = Some t" "tb_inner t = ?K n" "tb_schema t = tm_schema m" "table_ok f (attach db' t)"
      "l0_entries (ti_l0 (?K n)) = []" using tab [OF m(1)] by blast
    show "inner_ok (tm_schema m') (?K n)" "l0_entries (ti_l0 (?K n)) = []" "\<forall>v \<in># ti_versions (?K n). snd (snd v) \<noteq> 0"
      using inner [OF m(1)] t(5) nz [OF m(1)] m(2) by auto
    show "store_ok (sc_key_index (tm_schema m')) f (ms_checkpoint_csn ?st') (ti_versions (?K n))"
      using table_okD(3) [OF t(4)] t(2,3) m(2) kept(2) by (simp add: manifest_now_def)
  qed
  have disk: "parts_on_disk I ?K (live_of io4) m'" if m'_in: "m' \<in> set (ms_tables ?st')" for m'
  proof -
    obtain m where m: "m \<in> set (ms_tables ?st)" "m' = meta_now ?K m" using m'_in by (auto simp: manifest_now_def)
    have "part_bytes I p (live_of io4 (part_path (tm_id m) (p_id p)))" if p: "p \<in> set (ti_parts (?K (tm_name m)))" for p
    proof -
      have "(tm_id m, p_id p) \<in> set ?keep" using m(1) p by (auto simp: table_keys_def)
      then have "handle (part_path (tm_id m) (p_id p)) io3 = handle (part_path (tm_id m) (p_id p)) io2" using DD(3) by blast
      then show ?thesis using P(3) m(1) p C(6) W(6) part_path_not_log by simp
    qed
    then show ?thesis by (simp add: parts_on_disk_def m(2)) (simp add: meta_now_def)
  qed
  have match: "tables_match f ?K (log_ops []) ?st' db'"
    unfolding tables_match_def
  proof (intro conjI allI impI)
    show "db_ok f db'" by (rule kept(1))
    show "logged_csn ?st' (log_ops []) \<le> current (db_csn db')" by (simp add: manifest_now_def kept(2))
    show "bt_get str_cmp n (db_tables db') = None \<longleftrightarrow> cat ?st' n = None" for n
    proof -
      have "bt_get str_cmp n (db_tables db') = None \<longleftrightarrow> bt_get str_cmp n (db_tables (st_db s)) = None"
        using seal(2) kept(1) bt mem_names [of "db_tables db'" n] mem_names [of "db_tables (st_db s)" n]
        by (auto simp: db_kept_def db_ok_def)
      then show ?thesis using D(3) N(2) by (simp add: tables_match_def)
    qed
    fix n m' t assume cm: "cat ?st' n = Some m'" and t: "bt_get str_cmp n (db_tables db') = Some t"
    then obtain m where m: "cat ?st n = Some m" "m' = meta_now ?K m" using N(2) by auto
    show "tb_schema t = tm_schema m'" using tab [OF m(1)] t m(2) by auto
    show "inner_evolved (ms_checkpoint_csn ?st') (?K n) (tb_inner t)" "tb_versions t = logged_versions ?st' ?K (log_ops []) n"
      using t by (simp_all add: inner_at_def logged_versions_def tb_versions_def)
  qed
  have pers: "persisted_ok ?st' pers3"
  proof -
    have keys: "part_keys ?st' = set ?keep" unfolding live_keys by (simp add: part_keys_def manifest_now_def)
    have lo: "ms_checkpoint_csn ?st' = ?c" by (simp add: manifest_now_def)
    show ?thesis unfolding persisted_ok_def keys lo using DD(2) P(6) by (simp del: set_concat)
  qed
  have mh: "manifest_holds (?mn\<lparr>mn_len := length (ms_encode ?st')\<rparr>) ?st' io4"
    using fits mf C(3) h3(2) W(6) [of MANIFEST_PATH] part_path_not_log(3) by (auto simp: manifest_holds_def intro!: exI [of _ "[?st']"])
  have ids': "st_table_ids s = (\<lambda>n. map_option tm_id (cat ?st' n))" using D(9) N(2) by (auto simp: option.map_comp comp_def)
  have "recoverable I f ?K [] ?s"
    using D(6,11) W(2-5) N(1) images disk match pers mh ids' by (auto simp: in_flight_def image_on_disk_def ops_fit_def ops_ok_def)
  then show thesis using that [OF run] kept by (simp add: manifest_now_def)
qed

end
