(* ===== verification/Ck_Session.thy ===== *)
theory Ck_Session
  imports Ck_Checkpoint
begin

text \<open>
  The durable store as a whole: transactions and new tables keep it recoverable, and a step relation interleaves the writes,
  the transactions, the checkpoints and power losses with restarts.
\<close>

section \<open>Transactions\<close>

fun write_fits :: "txn_write \<Rightarrow> storage \<Rightarrow> bool" where
  "write_fits (TxnPut name row) s \<longleftrightarrow> (\<exists>m t. cat (st_state s) name = Some m \<and> db_table name (st_db s) = Inr t \<and> can_write t \<and> row_ok (tm_schema m) row)"
| "write_fits (TxnDelete name key) s \<longleftrightarrow>
     (\<exists>m t. cat (st_state s) name = Some m \<and> db_table name (st_db s) = Inr t \<and> can_write t \<and> key \<in> col_values (key_ty (tm_schema m)))"

text \<open>Every write of the transaction fits the state it is applied in.\<close>

fun txn_fits :: "arrow \<Rightarrow> txn_write list \<Rightarrow> storage \<Rightarrow> bool" where
  "txn_fits A [] s \<longleftrightarrow> True"
| "txn_fits A (w # ws) s \<longleftrightarrow> write_fits w s \<and> (\<forall>r s'. txn_write_one A w s = Some (r, s') \<longrightarrow> txn_fits A ws s')"

definition same_store :: "storage \<Rightarrow> storage \<Rightarrow> bool" where
  "same_store s s' \<longleftrightarrow> st_io s' = st_io s \<and> st_wal s' = st_wal s \<and> st_state s' = st_state s \<and> st_manifest s' = st_manifest s"

lemma same_store_put [simp]: "same_store s (st_put_table name t s)"
  by (simp add: same_store_def st_put_table_def)

lemma txn_write_one_ok:
  assumes A: "arrow_ok A" and s: "in_flight I f J rs ops s" and len: "length (log_ops rs @ ops) < 2 ^ 32 - 2" and fit: "write_fits w s"
  shows "\<exists>r s'. txn_write_one A w s = Some (Inr r, s') \<and> same_store s s' \<and>
    in_flight I f J rs (case r of None \<Rightarrow> ops | Some op \<Rightarrow> ops @ [op]) s'"
proof -
  have M: "tables_match f J (log_ops rs @ ops) (st_state s) (st_db s)" using s by (simp add: in_flight_def)
  show ?thesis
  proof (cases w)
    case (TxnPut name row)
    obtain m t where m: "cat (st_state s) name = Some m" "db_table name (st_db s) = Inr t" "can_write t" "row_ok (tm_schema m) row"
      using fit TxnPut by auto
    note T = match_table [OF M m(1,2)]
    have res: "st_resolve name s = Inr (tm_id m, t)" using resolve_ok [OF s m(1)] m(2) by (metis sum.inject(2))
    have row: "row_ok (tb_schema t) row" using m(4) T(1) by simp
    have never: "tb_upsert_returning A row t \<noteq> Some (Inl e, t1)" for e t1 using upsert_returning_ok [OF A T(2) m(3) row] by auto
    have tw: "table_write f m t (tb_upsert_returning A row) (put_op m)" by (rule api_writes(2) [OF A T(2) m(3) T(1) m(4)])
    obtain x t1 where x: "tb_upsert_returning A row t = Some (Inr x, t1)" "in_flight I f J rs (ops @ [put_op m x]) (st_put_table name t1 s)"
      by (rule write_flight [OF s len m(1-3) tw throttle_metrics(2)]) (use never in blast)+
    obtain c stored where "x = (c, stored)" by force
    then have "txn_write_one A w s = Some (Inr (Some (put_op m x)), st_put_table name t1 s)"
      using TxnPut res x(1) by (simp add: put_op_def)
    then show ?thesis using x(2) by fastforce
  next
    case (TxnDelete name key)
    obtain m t where m: "cat (st_state s) name = Some m" "db_table name (st_db s) = Inr t" "can_write t" "key \<in> col_values (key_ty (tm_schema m))"
      using fit TxnDelete by auto
    note T = match_table [OF M m(1,2)]
    have res: "st_resolve name s = Inr (tm_id m, t)" using resolve_ok [OF s m(1)] m(2) by (metis sum.inject(2))
    have tw: "table_write f m t (tb_delete key) (kill_op m key)" by (rule api_writes(4) [OF A T(2) m(3) T(1) m(4)])
    show ?thesis
    proof (rule write_flight [OF s len m(1-3) tw throttle_metrics(2)])
      fix e t1 assume "tb_delete key t = Some (Inl e, t1)" "in_flight I f J rs ops (st_put_table name t1 s)"
      then show ?thesis using TxnDelete res by fastforce
    next
      fix x t1 assume "tb_delete key t = Some (Inr x, t1)" "in_flight I f J rs (ops @ [kill_op m key x]) (st_put_table name t1 s)"
      then show ?thesis using TxnDelete res by (fastforce simp: kill_op_def)
    qed
  qed
qed

lemma same_store_trans: "same_store a b \<Longrightarrow> same_store b c \<Longrightarrow> same_store a c"
  by (simp add: same_store_def)

lemma txn_apply_ok:
  assumes A: "arrow_ok A"
  shows "in_flight I f J rs ops s \<Longrightarrow> length (log_ops rs) + length ops + length ws < 2 ^ 32 - 1 \<Longrightarrow> txn_fits A ws s \<Longrightarrow>
    \<exists>l ops' s'. txn_apply A ws l0 ops s = Some (Inr (l, ops'), s') \<and> same_store s s' \<and> in_flight I f J rs ops' s'"
proof (induction ws arbitrary: ops s l0)
  case Nil
  then show ?case by (simp add: same_store_def)
next
  case (Cons w ws)
  have len: "length (log_ops rs @ ops) < 2 ^ 32 - 2" using Cons.prems(2) by simp
  have fit: "write_fits w s" using Cons.prems(3) by simp
  obtain r s1 where one: "txn_write_one A w s = Some (Inr r, s1)" "same_store s s1"
      "in_flight I f J rs (case r of None \<Rightarrow> ops | Some op \<Rightarrow> ops @ [op]) s1"
    using txn_write_one_ok [OF A Cons.prems(1) len fit] by blast
  have rest: "txn_fits A ws s1" using Cons.prems(3) one(1) by simp
  show ?case
  proof (cases r)
    case None
    have f: "in_flight I f J rs ops s1" using one(3) None by simp
    have l: "length (log_ops rs) + length ops + length ws < 2 ^ 32 - 1" using Cons.prems(2) by simp
    from Cons.IH [OF f l rest, of l0] obtain l ops' s' where
      "txn_apply A ws l0 ops s1 = Some (Inr (l, ops'), s')" "same_store s1 s'" "in_flight I f J rs ops' s'" by blast
    then show ?thesis using one None same_store_trans [OF one(2)] by auto
  next
    case (Some op)
    have f: "in_flight I f J rs (ops @ [op]) s1" using one(3) Some by simp
    have l: "length (log_ops rs) + length (ops @ [op]) + length ws < 2 ^ 32 - 1" using Cons.prems(2) by simp
    from Cons.IH [OF f l rest, of "op_csn op"] obtain l ops' s' where
      "txn_apply A ws (op_csn op) (ops @ [op]) s1 = Some (Inr (l, ops'), s')" "same_store s1 s'" "in_flight I f J rs ops' s'" by blast
    then show ?thesis using one Some same_store_trans [OF one(2)] by auto
  qed
qed

definition txn_room :: "arrow \<Rightarrow> txn_write list \<Rightarrow> storage \<Rightarrow> bool" where
  "txn_room A ws s \<longleftrightarrow>
     txn_fits A ws s \<and> io_room (st_io s) \<and> w_written (st_wal s) + length ws < 2 ^ 32 - 1 \<and>
     (\<forall>l ops s'. txn_apply A ws 0 [] s = Some (Inr (l, ops), s') \<longrightarrow> rec_fits (WTxn ops))"

text \<open>The writes become one record of the log, after all of them have been applied.\<close>

lemma commit_ok:
  assumes A: "arrow_ok A" and s: "recoverable I f J rs s" and room: "txn_room A ws s"
  obtains l ops s1 s' where "txn_apply A ws 0 [] s = Some (Inr (l, ops), s1)" "commit_transaction A I mem ws s = Some (Inr l, s')"
    "recoverable I f J (if ops = [] then rs else rs @ [WTxn ops]) s'" "st_db s' = st_db s1" "st_state s' = st_state s" "st_io s1 = st_io s"
proof -
  have "log_ok rs (st_wal s) (st_io s)" using s by (simp add: in_flight_def)
  then have len: "length (log_ops rs) + length ([] :: txn_op list) + length ws < 2 ^ 32 - 1"
    using log_ops_written room by (fastforce simp: txn_room_def)
  have fits: "txn_fits A ws s" using room by (simp add: txn_room_def)
  obtain l ops s1 where a: "txn_apply A ws 0 [] s = Some (Inr (l, ops), s1)" "same_store s s1" "in_flight I f J rs ops s1"
    using txn_apply_ok [OF A s len fits, of 0] by blast
  show thesis
  proof (cases "ops = []")
    case True
    then have "commit_transaction A I mem ws s = Some (Inr l, s1)" using a(1) by (simp add: commit_transaction_def warm_flight [OF s])
    then show thesis using that [OF a(1)] a(2,3) True by (simp add: same_store_def)
  next
    case False
    have F: "in_flight I f J rs (rec_ops (WTxn ops)) s1" "rec_ops (WTxn ops) \<noteq> []" using a(3) False by simp_all
    have R: "rec_fits (WTxn ops)" "io_room (st_io s1)" using room a(1,2) by (auto simp: txn_room_def same_store_def)
    obtain s' where "st_log (WTxn ops) s1 = Some (Inr (), s')" "recoverable I f J (rs @ [WTxn ops]) s'" "st_db s' = st_db s1" "st_state s' = st_state s1"
      by (rule log_flight [OF F R]) (rule that, assumption+)
    moreover from this have "commit_transaction A I mem ws s = Some (Inr l, s')" using a(1) False by (simp add: commit_transaction_def warm_flight [OF s])
    ultimately show thesis using that [OF a(1)] a(2) False by (simp add: same_store_def)
  qed
qed

section \<open>New tables\<close>

definition new_meta :: "string \<Rightarrow> schema \<Rightarrow> manifest_state \<Rightarrow> table_meta" where
  "new_meta name sch st = \<lparr>tm_id = ms_next_table_id st, tm_name = name, tm_schema = sch, tm_part_ids = [], tm_next_part_id = 0\<rparr>"

definition with_new :: "string \<Rightarrow> schema \<Rightarrow> manifest_state \<Rightarrow> manifest_state" where
  "with_new name sch st = st\<lparr>ms_next_table_id := ms_next_table_id st + 1, ms_tables := ms_tables st @ [new_meta name sch st]\<rparr>"

definition new_inner :: "schema \<Rightarrow> table_inner" where
  "new_inner sch = \<lparr>ti_l0 = l0_new sch, ti_parts = [], ti_next_part_id = 0, ti_next_rowid = 0\<rparr>"

lemma with_new_facts:
  assumes cat: "catalog_ok st" and new: "cat st name = None" "ms_next_table_id st \<noteq> - 1" "good_schema sch"
  shows "catalog_ok (with_new name sch st)" "cat (with_new name sch st) n = (if n = name then Some (new_meta name sch st) else cat st n)"
    "tid < ms_next_table_id st \<Longrightarrow> names_by_id (with_new name sch st) tid = names_by_id st tid"
proof -
  have lt: "x < ms_next_table_id st + 1" if "x < ms_next_table_id st" for x
    using that less_plus_one_word [OF new(2)] by (rule order.strict_trans)
  have free: "\<forall>m \<in> set (ms_tables st). tm_name m \<noteq> name" using new(1) cat_iff [OF cat] by (metis option.simps(3))
  have ids: "\<forall>m \<in> set (ms_tables st). tm_id m < ms_next_table_id st" using cat by (simp add: catalog_ok_def)
  then have "\<forall>m \<in> set (ms_tables st). tm_id m \<noteq> ms_next_table_id st" by auto
  then show ok: "catalog_ok (with_new name sch st)"
    using cat free lt new(3) less_plus_one_word [OF new(2)]
    by (auto simp: catalog_ok_def with_new_def new_meta_def)
  show c: "cat (with_new name sch st) n = (if n = name then Some (new_meta name sch st) else cat st n)" for n
    using new(1) by (auto simp: cat_def with_new_def new_meta_def map_add_def split: option.split)
  show "names_by_id (with_new name sch st) tid = names_by_id st tid" if "tid < ms_next_table_id st" for tid
  proof -
    have "names_by_id (with_new name sch st) tid = Some k \<longleftrightarrow> names_by_id st tid = Some k" for k
      using that new(1) by (auto simp: names_by_id_iff [OF ok] names_by_id_iff [OF cat] c new_meta_def)
    then show ?thesis by (metis not_None_eq option.exhaust)
  qed
qed

lemma manifest_commit_room:
  assumes "io_calm io" "manifest_commit st m io = (Inr (), m', io')" "mf_room (Suc n) (handle p io)"
  shows "mf_room n (handle p io')"
  using assms mf_room_step(1) [OF assms(3)] mf_room_le [OF assms(3), of n]
  by (auto simp: manifest_commit_def Let_def pwrite_calm sync_calm io_calm_ok split: if_splits)

lemma create_ok:
  assumes s: "recoverable I f J rs s" and room: "io_room (st_io s)" and new: "cat (st_state s) name = None" "ms_next_table_id (st_state s) \<noteq> - 1" "good_schema sch"
    and fits: "ms_fits (with_new name sch (st_state s))"
  obtains s' where "st_create_table_schema name sch s = (Inr (), s')" "recoverable I f (J(name := new_inner sch)) rs s'"
    "\<And>n. db_versions n (st_db s') = db_versions n (st_db s)" "st_state s' = with_new name sch (st_state s)"
    "st_db s' = fresh_table name sch (st_db s)" "st_wal s' = st_wal s" "\<And>p n. mf_room (Suc n) (handle p (st_io s)) \<Longrightarrow> mf_room n (handle p (st_io s'))"
proof -
  let ?st = "st_state s" and ?io = "st_io s" and ?st' = "with_new name sch (st_state s)" and ?J = "J(name := new_inner sch)"
  have D: "settled ?io" "image_on_disk I f J ?st ?io" "tables_match f J (log_ops rs) ?st (st_db s)" "manifest_holds (st_manifest s) ?st ?io"
    "w_file (st_wal s) = WAL_PATH" "waits_for_disk (w_mode (st_wal s))" "log_ok rs (st_wal s) ?io" "ops_fit ?st (log_ops rs)"
    "st_table_ids s = (\<lambda>n. map_option tm_id (cat ?st n))" "persisted_ok ?st (st_persisted s)" "st_warmed s" "\<forall>r \<in> set rs. rec_ops r \<noteq> []"
    using s by (auto simp: in_flight_def)
  have K: "catalog_ok ?st" and img: "images_ok f J ?st" using D(2) by (auto simp: image_on_disk_def)
  note N = with_new_facts [OF K new]
  have db: "db_ok f (st_db s)" using D(3) by (simp add: tables_match_def)
  have free: "bt_get str_cmp name (db_tables (st_db s)) = None" using D(3) new(1) by (simp add: tables_match_def)
  let ?db = "fresh_table name sch (st_db s)"
  note F = fresh_table_ok [OF db new(3), of name]
  have bt: "sk.bt_ok (db_tables (st_db s))" using db by (simp add: db_ok_def)
  have get: "bt_get str_cmp n (db_tables ?db) = (if n = name then Some (table_new name sch (db_csn (st_db s)) (db_metrics (st_db s)) (db_config (st_db s)))
      else bt_get str_cmp n (db_tables (st_db s)))" for n
    using bt by (simp add: fresh_table_def bt_get_str)
  have tids: "op_table op < ms_next_table_id ?st" if "op \<in> set (log_ops rs)" for op using D(8) that by (simp add: ops_fit_def)
  have lo: "ms_checkpoint_csn ?st' = ms_checkpoint_csn ?st" by (simp add: with_new_def)
  let ?mn = "st_manifest s"
  obtain ss where ss: "list_all ms_fits ss" "last (ms_default # ss) = ?st" "live_of ?io MANIFEST_PATH = ms_image ss" "mn_len ?mn = length (ms_image ss)"
      "mn_file ?mn = MANIFEST_PATH"
    using D(4) by (auto simp: manifest_holds_def)
  have ok: "mf_ok (handle (mn_file ?mn) ?io)" "mf_fresh (handle (mn_file ?mn) ?io)" "io_calm ?io" using D(1) io_room_fresh [OF room] by (simp_all add: settled_def)
  obtain io' where C: "manifest_commit ?st' ?mn ?io = (Inr (), ?mn\<lparr>mn_len := mn_len ?mn + length (ms_encode ?st'), mn_commits := mn_commits ?mn + 1\<rparr>, io')"
    "io_calm io'" "live_of io' MANIFEST_PATH = ms_image ss @ ms_encode ?st'" "mf_durable (handle MANIFEST_PATH io') = ms_image ss @ ms_encode ?st'"
    "mf_ok (handle MANIFEST_PATH io')" "\<And>p. p \<noteq> MANIFEST_PATH \<Longrightarrow> handle p io' = handle p ?io"
    using manifest_commit_calm [OF ok(3), of ?mn "ms_image ss" "[]" ?st'] ok ss(3-5) by (metis append_Nil2 le0 list.size(3))
  have set': "settled io'" by (rule settled_step [OF D(1) C(2,5) _ C(6)]) (simp add: C(3,4))
  let ?s = "s\<lparr>st_db := ?db, st_state := ?st', st_table_ids := (st_table_ids s)(name \<mapsto> ms_next_table_id ?st),
      st_manifest := ?mn\<lparr>mn_len := mn_len ?mn + length (ms_encode ?st'), mn_commits := mn_commits ?mn + 1\<rparr>, st_io := io'\<rparr>"
  have run: "st_create_table_schema name sch s = (Inr (), ?s)"
    using free C(1) by (simp add: st_create_table_schema_def create_schema_cases commit_manifest_def Let_def with_new_def new_meta_def)
  have after: "logged_versions ?st' ?J (log_ops rs) n = (if n = name then {#} else logged_versions ?st J (log_ops rs) n)" for n
  proof -
    have same: "filter (\<lambda>op. names_by_id ?st' (op_table op) = Some n) (log_ops rs) = filter (\<lambda>op. names_by_id ?st (op_table op) = Some n) (log_ops rs)"
      using N(3) tids by (intro filter_cong) auto
    show ?thesis
    proof (cases "n = name")
      case True
      have "names_by_id ?st tid \<noteq> Some name" for tid using names_by_id_iff [OF K] new(1) by simp
      then show ?thesis using True same
        by (simp add: logged_versions_def after_ops_def new_inner_def ti_versions_def l0_new_def)
    next
      case False
      then show ?thesis using same by (simp add: logged_versions_def after_ops_def N(2))
    qed
  qed
  have sch: "schema_ok sch" "decimals_ok sch" "sc_synthetic_key sch \<longrightarrow> key_ty sch = TInt" using new(3) by (auto simp: good_schema_def)
  have inner: "inner_ok sch (new_inner sch)" using sch l0_ok_new [OF sch(1)] by (simp add: inner_ok_def new_inner_def) (simp add: l0_new_def)
  have images: "images_ok f ?J ?st'"
    unfolding images_ok_def lo
  proof (intro conjI allI impI)
    show "f \<le> ms_checkpoint_csn ?st" "ms_checkpoint_csn ?st \<noteq> NEVER_DELETED" using img by (simp_all add: images_ok_def)
    fix n m assume m: "cat ?st' n = Some m"
    have e: "ti_versions (new_inner sch) = {#}" by (simp add: new_inner_def ti_versions_def l0_new_def)
    show "inner_ok (tm_schema m) (?J n)" "l0_entries (ti_l0 (?J n)) = []" "\<forall>v \<in># ti_versions (?J n). snd (snd v) \<noteq> 0"
      "store_ok (sc_key_index (tm_schema m)) f (ms_checkpoint_csn ?st) (ti_versions (?J n))"
      using m img inner e store_ok_empty [of f "ms_checkpoint_csn ?st"] by (auto simp: N(2) images_ok_def new_meta_def split: if_splits)
        (auto simp: new_inner_def l0_new_def)
  qed
  have disk: "parts_on_disk I ?J (live_of io') m" if "m \<in> set (ms_tables ?st')" for m
  proof (cases "m = new_meta name sch ?st")
    case True
    then show ?thesis by (simp add: parts_on_disk_def new_meta_def new_inner_def)
  next
    case False
    then have m: "m \<in> set (ms_tables ?st)" using that by (simp add: with_new_def)
    then have "tm_name m \<noteq> name" using new(1) cat_iff [OF K] by (metis option.simps(3))
    then show ?thesis using D(2) m C(6) part_path_not_log by (simp add: image_on_disk_def parts_on_disk_def)
  qed
  have match: "tables_match f ?J (log_ops rs) ?st' ?db"
    unfolding tables_match_def
  proof (intro conjI allI impI)
    show "db_ok f ?db" by (rule F(1))
    show "logged_csn ?st' (log_ops rs) \<le> current (db_csn ?db)" using D(3) by (simp add: F(2) lo tables_match_def)
    show "bt_get str_cmp n (db_tables ?db) = None \<longleftrightarrow> cat ?st' n = None" for n using D(3) by (simp add: get N(2) tables_match_def)
    fix n m t assume m: "cat ?st' n = Some m" and t: "bt_get str_cmp n (db_tables ?db) = Some t"
    show "tb_schema t = tm_schema m" "inner_evolved (ms_checkpoint_csn ?st') (?J n) (tb_inner t)" "tb_versions t = logged_versions ?st' ?J (log_ops rs) n"
      using m t D(3) unfolding after
      by (auto simp: get N(2) lo tables_match_def table_new_def new_meta_def new_inner_def tb_versions_def ti_versions_def l0_new_def split: if_splits)
  qed
  have "cat ?st' n = Some m \<Longrightarrow> tm_id m = op_table op \<Longrightarrow> op_valid (tm_schema m) op" if "op \<in> set (log_ops rs)" for n m op
    using that tids [OF that] D(8) by (auto simp: N(2) new_meta_def ops_fit_def ops_ok_def split: if_splits)
  moreover have "op_table op < ms_next_table_id ?st + 1" if "op \<in> set (log_ops rs)" for op
    using tids [OF that] less_plus_one_word [OF new(2)] by (rule order.strict_trans)
  ultimately have fit: "ops_fit ?st' (log_ops rs)" using D(8) by (auto simp: ops_fit_def ops_ok_def lo) (simp add: with_new_def)
  have "part_keys ?st' = part_keys ?st" by (simp add: part_keys_def with_new_def new_meta_def)
  then have pers: "persisted_ok ?st' (st_persisted s)" using D(10) by (simp add: persisted_ok_def lo)
  have mh: "manifest_holds (?mn\<lparr>mn_len := mn_len ?mn + length (ms_encode ?st'), mn_commits := mn_commits ?mn + 1\<rparr>) ?st' io'"
    using ss fits C(3) by (auto simp: manifest_holds_def intro!: exI [of _ "ss @ [?st']"])
  have log: "log_ok rs (st_wal s) io'" using log_ok_frame [OF D(7) set'] C(6) [of WAL_PATH] part_path_not_log(3) D(5) by simp
  have ids: "(st_table_ids s)(name \<mapsto> ms_next_table_id ?st) = (\<lambda>n. map_option tm_id (cat ?st' n))"
    using D(9) by (auto simp: N(2) new_meta_def)
  have "recoverable I f ?J rs ?s"
    using D(5,6,11,12) set' images disk match fit pers mh log ids N(1) by (simp add: in_flight_def image_on_disk_def)
  moreover have "db_versions n ?db = db_versions n (st_db s)" for n
    using fresh_table_ok(3) [OF db new(3), of n name] free by (simp add: db_versions_def)
  moreover have "mf_room n (handle p io')" if "mf_room (Suc n) (handle p ?io)" for p n
    by (rule manifest_commit_room [OF ok(3) C(1) that])
  ultimately show thesis using that [OF run] by simp
qed

section \<open>A store on an empty device\<close>

definition restart :: "arrow \<Rightarrow> ipc \<Rightarrow> (part \<Rightarrow> u64) \<Rightarrow> storage_config \<Rightarrow> mem_io \<Rightarrow> storage option" where
  "restart A I mem cfg io = (case storage_open A I mem cfg io of Some (Inr s, io) \<Rightarrow> warm A I mem s | _ \<Rightarrow> None)"

definition blank_io :: mem_io where
  "blank_io = io_open WAL_PATH (io_open MANIFEST_PATH io_new)"

definition blank_store :: "storage_config \<Rightarrow> storage" where
  "blank_store cfg =
     \<lparr>st_io = blank_io, st_db = set_csn_floor 0 (with_config (so_table cfg)), st_wal = fst (wal_open WAL_PATH (so_durability cfg) (io_open MANIFEST_PATH io_new)),
      st_manifest = \<lparr>mn_file = MANIFEST_PATH, mn_len = 0, mn_commits = 0\<rparr>, st_state = ms_default, st_table_ids = Map.empty, st_config = cfg,
      st_report = \<lparr>re_tables_loaded = 0, re_parts_loaded = 0, re_rows_from_parts = 0, re_wal_records_replayed = 0, re_wal_bytes_scanned = 0,
        re_truncated_tail = False, re_recovered_csn = 0, re_parts_registered_lazily = 0\<rparr>,
      st_pager = pm_default, st_pending = [], st_warmed = True, st_persisted = []\<rparr>"

lemma blank_files: "io_calm blank_io" "handle p blank_io = mf_new"
proof -
  have ok: "io_calm io_new" by (simp add: io_calm_def io_ok_def io_new_def)
  have h: "handle p io_new = mf_new" for p by (simp add: handle_def io_file_def io_new_def)
  show "io_calm blank_io" "handle p blank_io = mf_new" using ok h by (simp_all add: blank_io_def io_calm_ok)
qed

lemma io_open_twice: "io_ok io \<Longrightarrow> io_open path (io_open path io) = io_open path io"
  by (simp add: io_open_def io_file_put split: option.split)

lemma scan_nothing: "manifest_scan [] = (ms_default, 0)" "replay_bytes [] = \<lparr>rr_records = [], rr_valid_bytes = 0, rr_truncated_tail = False\<rparr>"
  using scan_intact [of "[]"] replay_intact [of "[]"] by (simp_all add: fun_eq_iff)

lemma restart_blank: "restart A I mem cfg io_new = Some (blank_store cfg)"
proof -
  have ok: "io_calm io_new" by (simp add: io_calm_def io_ok_def io_new_def)
  have h: "mf_live (handle p io_new) = []" for p by (simp add: handle_def io_file_def io_new_def mf_new_def)
  let ?io = "io_open MANIFEST_PATH io_new"
  have calm: "io_calm ?io" "io_calm blank_io" using ok blank_files by simp_all
  have m: "manifest_open MANIFEST_PATH io_new = (Inr (\<lparr>mn_file = MANIFEST_PATH, mn_len = 0, mn_commits = 0\<rparr>, ms_default), ?io)"
    using ok h by (simp add: manifest_open_def io_bind_def read_whole_calm scan_nothing io_calm_ok)
  have w: "snd (wal_open WAL_PATH d ?io) = blank_io" for d by (simp add: wal_open_def Let_def blank_io_def)
  have "io_open WAL_PATH blank_io = blank_io" unfolding blank_io_def by (rule io_open_twice) (simp add: io_calm_ok [OF calm(1)])
  then have r: "wal_replay WAL_PATH blank_io = (Inr \<lparr>rr_records = [], rr_valid_bytes = 0, rr_truncated_tail = False\<rparr>, blank_io)"
    by (simp add: wal_replay_def io_bind_def read_whole_calm [OF calm(2)] blank_files(2)) (simp add: mf_new_def scan_nothing)
  obtain x where x: "wal_open WAL_PATH (so_durability cfg) ?io = (x, blank_io)" using w [of "so_durability cfg"] by (cases "wal_open WAL_PATH (so_durability cfg) ?io") simp
  have d: "ms_tables ms_default = []" "ms_checkpoint_csn ms_default = 0" by (simp_all add: ms_default_def)
  show ?thesis by (simp add: restart_def storage_open_def m r x d tail_records_def warm_def blank_store_def)
qed

lemma blank_log: "log_ok [] (fst (wal_open WAL_PATH d (io_open MANIFEST_PATH io_new))) blank_io"
  "w_file (fst (wal_open WAL_PATH d (io_open MANIFEST_PATH io_new))) = WAL_PATH" "w_mode (fst (wal_open WAL_PATH d (io_open MANIFEST_PATH io_new))) = d"
proof -
  have new: "io_calm io_new" by (simp add: io_calm_def io_ok_def io_new_def)
  then have calm: "io_calm (io_open MANIFEST_PATH io_new)" by simp
  then have "io_ok (io_open MANIFEST_PATH io_new)" "\<not> io_drop_writes (io_open MANIFEST_PATH io_new)" by (simp_all add: io_calm_def)
  moreover have "handle p io_new = mf_new" for p by (simp add: handle_def io_file_def io_new_def)
  then have "handle p (io_open MANIFEST_PATH io_new) = mf_new" for p using new by (simp add: io_calm_ok)
  moreover have "wal_open WAL_PATH d (io_open MANIFEST_PATH io_new) = (fst (wal_open WAL_PATH d (io_open MANIFEST_PATH io_new)), blank_io)"
    by (simp add: wal_open_def Let_def blank_io_def)
  ultimately have "log_ok [] (fst (wal_open WAL_PATH d (io_open MANIFEST_PATH io_new))) blank_io \<and>
      w_file (fst (wal_open WAL_PATH d (io_open MANIFEST_PATH io_new))) = WAL_PATH \<and> w_mode (fst (wal_open WAL_PATH d (io_open MANIFEST_PATH io_new))) = d"
    by (intro wal_open_ok [of "io_open MANIFEST_PATH io_new"]) (simp_all add: mf_new_def mf_ok_def)
  then show "log_ok [] (fst (wal_open WAL_PATH d (io_open MANIFEST_PATH io_new))) blank_io"
    "w_file (fst (wal_open WAL_PATH d (io_open MANIFEST_PATH io_new))) = WAL_PATH" "w_mode (fst (wal_open WAL_PATH d (io_open MANIFEST_PATH io_new))) = d"
    by simp_all
qed

lemma blank_ok:
  assumes "tc_seal_threshold (so_table cfg) < 2 ^ 32" "waits_for_disk (so_durability cfg)"
  shows "recoverable I 0 J [] (blank_store cfg)"
proof -
  have set: "settled blank_io" using blank_files by (simp add: settled_def mf_ok_def mf_new_def)
  have c: "cat ms_default n = None" for n by (simp add: cat_def ms_default_def)
  have k: "catalog_ok ms_default" by (simp add: catalog_ok_def ms_default_def)
  have i: "images_ok 0 J ms_default" by (simp add: images_ok_def c) (simp add: ms_default_def NEVER_DELETED_def)
  have f: "ops_fit ms_default []" by (simp add: ops_fit_def ops_ok_def)
  have m: "tables_match 0 J [] ms_default (set_csn_floor 0 (with_config (so_table cfg)))"
    using assms(1) by (simp add: tables_match_def c db_ok_def set_csn_floor_def with_config_def set_floor_def csn_new_def FIRST_CSN_def current_def
        NEVER_DELETED_def last_csn_def) (simp add: ms_default_def)
  have h: "manifest_holds \<lparr>mn_file = MANIFEST_PATH, mn_len = 0, mn_commits = 0\<rparr> ms_default blank_io"
    using blank_files by (auto simp: manifest_holds_def mf_new_def intro!: exI [of _ "[]"])
  have p: "persisted_ok ms_default []" by (simp add: persisted_ok_def part_keys_def ms_default_def)
  show ?thesis
    using assms(2) set k i f m h p blank_log by (simp add: in_flight_def blank_store_def image_on_disk_def c) (simp add: ms_default_def)
qed

section \<open>Runs\<close>

definition put_fits :: "storage \<Rightarrow> table_meta \<Rightarrow> table \<Rightarrow> (table \<Rightarrow> ((error + csn \<times> row) \<times> table) option) \<Rightarrow> bool" where
  "put_fits s m t g \<longleftrightarrow> (\<forall>c r t'. g (throttle s t) = Some (Inr (c, r), t') \<longrightarrow> rec_fits (WInsert (tm_id m) c r))"

text \<open>
  What a client and the environment do: writes, transactions, checkpoints and new tables within the limits of the
  formats, with whatever result they report, and power losses followed by a restart.
\<close>

inductive st_step :: "arrow \<Rightarrow> ipc \<Rightarrow> (part \<Rightarrow> u64) \<Rightarrow> storage \<Rightarrow> storage \<Rightarrow> bool" for A I mem where
  insert: "writable name s m t \<Longrightarrow> row_ok (tm_schema m) row \<Longrightarrow> put_fits s m t (tb_insert_returning A row) \<Longrightarrow>
    st_insert A I mem name row s = Some (r, s') \<Longrightarrow> st_step A I mem s s'"
| upsert: "writable name s m t \<Longrightarrow> row_ok (tm_schema m) row \<Longrightarrow> put_fits s m t (tb_upsert_returning A row) \<Longrightarrow>
    st_upsert A I mem name row s = Some (r, s') \<Longrightarrow> st_step A I mem s s'"
| update: "writable name s m t \<Longrightarrow> row_ok (tm_schema m) row \<Longrightarrow> (\<And>c. rec_fits (WInsert (tm_id m) c row)) \<Longrightarrow>
    st_update A I mem name row s = Some (r, s') \<Longrightarrow> st_step A I mem s s'"
| delete: "writable name s m t \<Longrightarrow> key \<in> col_values (key_ty (tm_schema m)) \<Longrightarrow> (\<And>c. rec_fits (WDelete (tm_id m) c key)) \<Longrightarrow>
    st_delete A I mem name key s = Some (r, s') \<Longrightarrow> st_step A I mem s s'"
| commit: "txn_room A ws s \<Longrightarrow> commit_transaction A I mem ws s = Some (r, s') \<Longrightarrow> st_step A I mem s s'"
| checkpoint: "checkpoint_room A I s \<Longrightarrow> checkpoint A I s = Some (r, s') \<Longrightarrow> st_step A I mem s s'"
| create: "io_room (st_io s) \<Longrightarrow> cat (st_state s) name = None \<Longrightarrow> ms_next_table_id (st_state s) \<noteq> - 1 \<Longrightarrow> good_schema sch \<Longrightarrow>
    ms_fits (with_new name sch (st_state s)) \<Longrightarrow> st_create_table_schema name sch s = (r, s') \<Longrightarrow> st_step A I mem s s'"
| power_loss: "tc_seal_threshold (so_table cfg) < 2 ^ 32 \<Longrightarrow> waits_for_disk (so_durability cfg) \<Longrightarrow>
    restart A I mem cfg (io_crash (st_io s)) = Some s' \<Longrightarrow> st_step A I mem s s'"

lemma restart_ok:
  assumes A: "arrow_ok A" "ipc_ok I" and s: "recoverable I f J rs s"
    and cfg: "tc_seal_threshold (so_table cfg) < 2 ^ 32" "waits_for_disk (so_durability cfg)"
  obtains s' J' where "restart A I mem cfg (io_crash (st_io s)) = Some s'" "recoverable I f J' rs s'"
    "\<And>n. db_versions n (st_db s') = db_versions n (st_db s)" "st_state s' = st_state s"
proof -
  obtain s1 io1 s2 J' where r: "storage_open A I mem cfg (io_crash (st_io s)) = Some (Inr s1, io1)" "warm A I mem s1 = Some s2"
    "recoverable I f J' rs s2" "\<And>n. db_versions n (st_db s2) = db_versions n (st_db s)" "st_state s2 = st_state s"
    by (rule recover_ok [OF A s cfg, of mem]) (rule that, assumption+)
  show thesis using that [of s2 J'] r by (simp add: restart_def)
qed

lemma api_put_ok:
  assumes A: "arrow_ok A" and s: "recoverable I f J rs s" and w: "writable name s m t" and row: "row_ok (tm_schema m) row"
  shows "put_fits s m t (tb_insert_returning A row) \<Longrightarrow> (\<exists>r s' rs'. st_insert A I mem name row s = Some (r, s') \<and> recoverable I f J rs' s' \<and>
      (case r of Inl e \<Rightarrow> \<forall>n. db_versions n (st_db s') = db_versions n (st_db s)
       | Inr c \<Rightarrow> \<exists>stored t1. tb_insert_returning A row (throttle s t) = Some (Inr (c, stored), t1) \<and>
           (\<forall>n. db_versions n (st_db s') = (if n = name then abs_put (tb_ki t) stored c (db_versions n (st_db s)) else db_versions n (st_db s)))))"
      (is "_ \<Longrightarrow> ?insert")
    and "put_fits s m t (tb_upsert_returning A row) \<Longrightarrow> (\<exists>r s' rs'. st_upsert A I mem name row s = Some (r, s') \<and> recoverable I f J rs' s' \<and>
      (case r of Inl e \<Rightarrow> \<forall>n. db_versions n (st_db s') = db_versions n (st_db s)
       | Inr c \<Rightarrow> \<exists>stored t1. tb_upsert_returning A row (throttle s t) = Some (Inr (c, stored), t1) \<and>
           (\<forall>n. db_versions n (st_db s') = (if n = name then abs_put (tb_ki t) stored c (db_versions n (st_db s)) else db_versions n (st_db s)))))"
      (is "_ \<Longrightarrow> ?upsert")
    and "(\<And>c. rec_fits (WInsert (tm_id m) c row)) \<Longrightarrow> (\<exists>r s' rs'. st_update A I mem name row s = Some (r, s') \<and> recoverable I f J rs' s' \<and>
      (case r of Inl e \<Rightarrow> \<forall>n. db_versions n (st_db s') = db_versions n (st_db s)
       | Inr c \<Rightarrow> \<forall>n. db_versions n (st_db s') = (if n = name then abs_put (tb_ki t) row c (db_versions n (st_db s)) else db_versions n (st_db s))))"
      (is "PROP _ \<Longrightarrow> ?update")
proof -
  have can: "can_write t" using w by (simp add: writable_def)
  have put: "\<exists>r s' rs'. st_write A I mem name throttle g fst (\<lambda>tid (c, stored). WInsert tid c stored) s = Some (r, s') \<and> recoverable I f J rs' s' \<and>
      (case r of Inl e \<Rightarrow> \<forall>n. db_versions n (st_db s') = db_versions n (st_db s)
       | Inr c \<Rightarrow> \<exists>stored t1. g (throttle s t) = Some (Inr (c, stored), t1) \<and>
           (\<forall>n. db_versions n (st_db s') = (if n = name then abs_put (tb_ki t) stored c (db_versions n (st_db s)) else db_versions n (st_db s))))"
    if g: "\<And>t. table_ok f t \<Longrightarrow> can_write t \<Longrightarrow> tb_schema t = tm_schema m \<Longrightarrow> row_ok (tm_schema m) row \<Longrightarrow> table_write f m t g (put_op m)" and fit: "put_fits s m t g" for g
  proof -
    have "\<exists>r s' rs'. st_write A I mem name throttle g fst (\<lambda>tid (c, stored). WInsert tid c stored) s = Some (r, s') \<and> recoverable I f J rs' s' \<and>
      (case r of Inl e \<Rightarrow> rs' = rs \<and> (\<forall>n. db_versions n (st_db s') = db_versions n (st_db s))
     | Inr _ \<Rightarrow> \<exists>x t1. r = Inr (fst x) \<and> g (throttle s t) = Some (Inr x, t1) \<and> rs' = rs @ [(case x of (c, stored) \<Rightarrow> WInsert (tm_id m) c stored)] \<and>
        (\<forall>n. db_versions n (st_db s') = (if n = name then apply_op (tb_ki t) (put_op m x) (db_versions n (st_db s)) else db_versions n (st_db s))))"
      by (rule api_write_ok [where rec = "\<lambda>tid (c, stored). WInsert tid c stored", OF s w g [OF _ can _ row] throttle_metrics(1)]) (use fit in \<open>auto simp: put_op_def put_fits_def\<close>)
    then obtain r s' rs' where r: "st_write A I mem name throttle g fst (\<lambda>tid (c, stored). WInsert tid c stored) s = Some (r, s')" "recoverable I f J rs' s'"
      "case r of Inl e \<Rightarrow> rs' = rs \<and> (\<forall>n. db_versions n (st_db s') = db_versions n (st_db s))
       | Inr _ \<Rightarrow> \<exists>x t1. r = Inr (fst x) \<and> g (throttle s t) = Some (Inr x, t1) \<and> rs' = rs @ [(case x of (c, stored) \<Rightarrow> WInsert (tm_id m) c stored)] \<and>
          (\<forall>n. db_versions n (st_db s') = (if n = name then apply_op (tb_ki t) (put_op m x) (db_versions n (st_db s)) else db_versions n (st_db s)))"
      by blast
    show ?thesis by (intro exI conjI, rule r(1), rule r(2)) (use r(3) in \<open>cases r; auto\<close>)
  qed
  show "put_fits s m t (tb_insert_returning A row) \<Longrightarrow> ?insert"
    unfolding st_insert_def by (rule put [OF api_writes(1) [OF A]])
  show "put_fits s m t (tb_upsert_returning A row) \<Longrightarrow> ?upsert"
    unfolding st_upsert_def by (rule put [OF api_writes(2) [OF A]])
  show ?update if fit: "\<And>c. rec_fits (WInsert (tm_id m) c row)"
  proof -
    have "\<exists>r s' rs'. st_write A I mem name throttle (tb_update A row) id (\<lambda>tid c. WInsert tid c row) s = Some (r, s') \<and> recoverable I f J rs' s' \<and>
      (case r of Inl e \<Rightarrow> rs' = rs \<and> (\<forall>n. db_versions n (st_db s') = db_versions n (st_db s))
     | Inr _ \<Rightarrow> \<exists>x t1. r = Inr (id x) \<and> tb_update A row (throttle s t) = Some (Inr x, t1) \<and> rs' = rs @ [WInsert (tm_id m) x row] \<and>
        (\<forall>n. db_versions n (st_db s') = (if n = name then apply_op (tb_ki t) (put_op m (x, row)) (db_versions n (st_db s)) else db_versions n (st_db s))))"
      by (rule api_write_ok [where rec = "\<lambda>tid c. WInsert tid c row", OF s w api_writes(3) [OF A _ can _ row] throttle_metrics(1)]) (use fit in \<open>simp_all add: put_op_def\<close>)
    then show ?thesis unfolding st_update_def by (fastforce split: sum.splits)
  qed
qed

lemma api_delete_ok:
  assumes A: "arrow_ok A" and s: "recoverable I f J rs s" and w: "writable name s m t"
    and key: "key \<in> col_values (key_ty (tm_schema m))" and fit: "\<And>c. rec_fits (WDelete (tm_id m) c key)"
  shows "\<exists>r s' rs'. st_delete A I mem name key s = Some (r, s') \<and> recoverable I f J rs' s' \<and>
    (case r of Inl e \<Rightarrow> \<forall>n. db_versions n (st_db s') = db_versions n (st_db s)
     | Inr c \<Rightarrow> \<forall>n. db_versions n (st_db s') = (if n = name then abs_kill (tb_ki t) key c (db_versions n (st_db s)) else db_versions n (st_db s)))"
proof -
  have can: "can_write t" using w by (simp add: writable_def)
  have "\<exists>r s' rs'. st_write A I mem name (\<lambda>s t. t) (tb_delete key) id (\<lambda>tid c. WDelete tid c key) s = Some (r, s') \<and> recoverable I f J rs' s' \<and>
      (case r of Inl e \<Rightarrow> rs' = rs \<and> (\<forall>n. db_versions n (st_db s') = db_versions n (st_db s))
     | Inr _ \<Rightarrow> \<exists>x t1. r = Inr (id x) \<and> tb_delete key t = Some (Inr x, t1) \<and> rs' = rs @ [WDelete (tm_id m) x key] \<and>
        (\<forall>n. db_versions n (st_db s') = (if n = name then apply_op (tb_ki t) (kill_op m key x) (db_versions n (st_db s)) else db_versions n (st_db s))))"
    by (rule api_write_ok [where rec = "\<lambda>tid c. WDelete tid c key", OF s w api_writes(4) [OF A _ can _ key] throttle_metrics(2)]) (use fit in \<open>simp_all add: kill_op_def\<close>)
  then show ?thesis unfolding st_delete_def by (fastforce split: sum.splits)
qed

text \<open>Whatever a step reports, it leaves a store that can be recovered.\<close>

lemma st_step_ok:
  assumes A: "arrow_ok A" "ipc_ok I"
  shows "st_step A I mem s s' \<Longrightarrow> recoverable I f J rs s \<Longrightarrow> \<exists>J rs. recoverable I f J rs s'"
proof (induction rule: st_step.induct)
  case (insert name s m t row r s')
  then show ?case using api_put_ok(1) [OF A(1) insert.prems insert.hyps(1-3), of mem] by auto
next
  case (upsert name s m t row r s')
  then show ?case using api_put_ok(2) [OF A(1) upsert.prems upsert.hyps(1-3), of mem] by auto
next
  case (update name s m t row r s')
  then show ?case using api_put_ok(3) [OF A(1) update.prems update.hyps(1-3), of mem] by auto
next
  case (delete name s m t key r s')
  then show ?case using api_delete_ok [OF A(1) delete.prems delete.hyps(1-3), of mem] by auto
next
  case (commit ws s r s')
  show ?case by (rule commit_ok [OF A(1) commit.prems commit.hyps(1), of mem]) (use commit.hyps in auto)
next
  case (checkpoint s r s')
  show ?case by (rule checkpoint_ok [OF A(1) checkpoint.prems checkpoint.hyps(1)]) (use checkpoint.hyps in auto)
next
  case (create s name sch r s')
  show ?case by (rule create_ok [OF create.prems create.hyps(1-5)]) (use create.hyps in auto)
next
  case (power_loss cfg s s')
  show ?case by (rule restart_ok [OF A power_loss.prems power_loss.hyps(1,2), of mem]) (use power_loss.hyps in auto)
qed

lemma st_steps_ok:
  assumes A: "arrow_ok A" "ipc_ok I"
  shows "(st_step A I mem)\<^sup>*\<^sup>* s s' \<Longrightarrow> recoverable I f J rs s \<Longrightarrow> \<exists>J rs. recoverable I f J rs s'"
proof (induction rule: rtranclp_induct)
  case (step t u)
  then show ?case using st_step_ok [OF A] by blast
qed blast

end
