(* ===== verification/Ck_Durable.thy ===== *)
theory Ck_Durable
  imports Ck_Session
begin

text \<open>
  What the durable store promises its clients: nothing acknowledged is lost by a power loss, a transaction is in the
  store as a whole or not at all, and a checkpoint loses nothing.
\<close>

definition durable_config :: "storage_config \<Rightarrow> bool" where
  "durable_config cfg \<longleftrightarrow> tc_seal_threshold (so_table cfg) < 2 ^ 32 \<and> waits_for_disk (so_durability cfg)"

text \<open>The stores that runs reach from an empty device.\<close>

definition reachable :: "arrow \<Rightarrow> ipc \<Rightarrow> (part \<Rightarrow> u64) \<Rightarrow> storage_config \<Rightarrow> storage \<Rightarrow> bool" where
  "reachable A I mem cfg s \<longleftrightarrow> (\<exists>s0. restart A I mem cfg io_new = Some s0 \<and> (st_step A I mem)\<^sup>*\<^sup>* s0 s)"

lemma st_reachable_ok:
  assumes "arrow_ok A" "ipc_ok I" "durable_config cfg" "reachable A I mem cfg s"
  obtains J rs where "recoverable I 0 J rs s"
proof -
  have "recoverable I 0 (\<lambda>_. new_inner sample_schema) [] (blank_store cfg)" using assms(3) by (intro blank_ok) (simp_all add: durable_config_def)
  moreover have "(st_step A I mem)\<^sup>*\<^sup>* (blank_store cfg) s" using assms(4) by (simp add: reachable_def restart_blank)
  ultimately show thesis using st_steps_ok [OF assms(1,2)] that by blast
qed

lemma tables_here: "recoverable I f J rs s \<Longrightarrow> (\<exists>t. db_table n (st_db s) = Inr t) \<longleftrightarrow> cat (st_state s) n \<noteq> None"
proof -
  assume "recoverable I f J rs s"
  then have "bt_get str_cmp n (db_tables (st_db s)) = None \<longleftrightarrow> cat (st_state s) n = None" by (simp add: in_flight_def tables_match_def)
  then show ?thesis by (auto simp: db_table_def split: option.split)
qed

text \<open>Reading a key after a restart.\<close>

lemma read_back:
  assumes s: "recoverable I f J rs s" and c: "cat (st_state s) name = Some m" and t: "db_versions name (st_db s) = abs_put (sc_key_index (tm_schema m)) r c M"
    and key: "row_ok (tm_schema m) r"
  obtains t t' where "db_table name (st_db s) = Inr t" "tb_get (r ! tb_ki t) (db_snapshot (st_db s)) t = Some (Some r, t')" "tb_schema t = tm_schema m"
proof -
  have M: "tables_match f J (log_ops rs) (st_state s) (st_db s)" using s by (simp add: in_flight_def)
  obtain t where tab: "db_table name (st_db s) = Inr t" using resolve_ok [OF s c] by blast
  note T = match_table [OF M c tab]
  have now: "tb_now t = db_snapshot (st_db s)" by (simp add: T(3) db_snapshot_def snapshot_def)
  have v: "tb_versions t = abs_put (tb_ki t) r c M" using t T(1,6) by simp
  have st: "store_ok (tb_ki t) f (tb_now t) (tb_versions t)" using T(2) by (simp add: table_ok_def)
  have k: "r ! tb_ki t \<in> tb_keys t" using row_key_in [of "tb_schema t" "tb_inner t" r] T(1,2) key by (simp add: table_ok_def)
  obtain res t' where g: "tb_get (r ! tb_ki t) (tb_now t) t = Some (res, t')"
    "filter_mset (\<lambda>x. x ! tb_ki t = r ! tb_ki t) (view (tb_now t) (tb_versions t)) = (case res of None \<Rightarrow> {#} | Some x \<Rightarrow> {#x#})"
    using get_ok [OF T(2) k, of "tb_now t"] st by (auto simp: store_ok_def)
  have "(r, c, NEVER_DELETED) \<in># tb_versions t" by (simp add: v abs_put_def)
  then have "c \<le> tb_now t" using st by (auto simp: store_ok_def stamped_def)
  then have "r \<in># filter_mset (\<lambda>x. x ! tb_ki t = r ! tb_ki t) (view (tb_now t) (tb_versions t))"
    using st by (auto simp: view_def v abs_put_def sees_live store_ok_def)
  then have "res = Some r" using g(2) by (cases res) auto
  then show thesis using that [OF tab] g(1) now T(1) by simp
qed

lemma st_write_state: "warm A I mem s = Some s \<Longrightarrow> st_write A I mem name slow g csn_of rec s = Some (r, s') \<Longrightarrow> st_state s' = st_state s"
  by (auto simp: st_write_def st_log_def st_put_table_def Let_def split: bind_splits sum.splits prod.splits option.splits) (metis sum.exhaust)+

text \<open>An upsert is never refused.\<close>

lemma upsert_acknowledged:
  assumes A: "arrow_ok A" and s: "recoverable I f J rs s" and w: "writable name s m t" and row: "row_ok (tm_schema m) row"
    and fit: "put_fits s m t (tb_upsert_returning A row)"
  obtains c s' rs' where "st_upsert A I mem name row s = Some (Inr c, s')" "recoverable I f J rs' s'"
    "\<And>n. db_versions n (st_db s') = (if n = name then abs_put (tb_ki t) (stored_row t row) c (db_versions n (st_db s)) else db_versions n (st_db s))"
    "st_state s' = st_state s"
proof -
  have W: "cat (st_state s) name = Some m" "db_table name (st_db s) = Inr t" "can_write t" using w by (auto simp: writable_def)
  have "tables_match f J (log_ops rs @ []) (st_state s) (st_db s)" using s unfolding in_flight_def by blast
  note T = match_table [OF this W(1,2)]
  obtain met where met: "throttle s t = t\<lparr>tb_metrics := met\<rparr>" using throttle_metrics(1) [of t s] by (auto simp: metrics_only_def)
  have t': "table_ok f (throttle s t)" "can_write (throttle s t)" "row_ok (tb_schema (throttle s t)) row" "stored_row (throttle s t) row = stored_row t row"
    using T(1,2) W(3) row by (simp_all add: met table_ok_def can_write_def stored_row_def tb_versions_def)
  obtain t1 where u: "tb_upsert_returning A row (throttle s t) = Some (Inr (cg_next (tb_csn t), stored_row t row), t1)"
    using upsert_returning_ok [OF A t'(1-3)] t'(4) by (auto simp: met)
  have M: "log_ok rs (st_wal s) (st_io s)" using s by (simp add: in_flight_def)
  have len: "length (log_ops rs) < 2 ^ 32 - 2" using log_ops_written [OF M] w by (simp add: writable_def)
  have io: "io_room (st_io s)" using w by (simp add: writable_def)
  have tw: "table_write f m t (tb_upsert_returning A row) (put_op m)" by (rule api_writes(2) [OF A T(2) W(3) T(1) row])
  have never: "\<not> (\<exists>e s'. st_write A I mem name throttle (tb_upsert_returning A row) fst (\<lambda>tid (c, stored). WInsert tid c stored) s = Some (Inl e, s') \<and>
      recoverable I f J rs s' \<and> (\<forall>n. db_versions n (st_db s') = db_versions n (st_db s)) \<and> (\<exists>t1. tb_upsert_returning A row (throttle s t) = Some (Inl e, t1)))"
    using u by simp
  have rec: "rec_ops (case x of (c, stored) \<Rightarrow> WInsert (tm_id m) c stored) = [put_op m x]" for x by (cases x) (simp add: put_op_def)
  have fits: "rec_fits (case x of (c, stored) \<Rightarrow> WInsert (tm_id m) c stored)" if "tb_upsert_returning A row (throttle s t) = Some (Inr x, t1)" for x t1
    using fit that by (cases x) (simp add: put_fits_def)
  note W' = st_write_ok [where rec = "\<lambda>tid (c, stored). WInsert tid c stored" and csn_of = fst and slow = throttle and A = A and mem = mem,
      OF s W io len tw throttle_metrics(1) rec fits]
  have "\<exists>x s'. st_upsert A I mem name row s = Some (Inr (fst x), s') \<and> recoverable I f J (rs @ [case x of (c, stored) \<Rightarrow> WInsert (tm_id m) c stored]) s' \<and>
      (\<forall>n. db_versions n (st_db s') = (if n = name then apply_op (tb_ki t) (put_op m x) (tb_versions t) else db_versions n (st_db s))) \<and>
      (\<exists>t1. tb_upsert_returning A row (throttle s t) = Some (Inr x, t1))"
    unfolding st_upsert_def by (rule disjE [OF W'], assumption, erule notE [OF never], assumption)
  then obtain x s' where x: "st_upsert A I mem name row s = Some (Inr (fst x), s')"
    "recoverable I f J (rs @ [case x of (c, stored) \<Rightarrow> WInsert (tm_id m) c stored]) s'"
    "\<And>n. db_versions n (st_db s') = (if n = name then apply_op (tb_ki t) (put_op m x) (tb_versions t) else db_versions n (st_db s))"
    "\<exists>t1. tb_upsert_returning A row (throttle s t) = Some (Inr x, t1)"
    by (elim exE conjE) (rule that, assumption+, erule spec, rule exI)
  moreover have "st_state s' = st_state s" using x(1) unfolding st_upsert_def by (rule st_write_state [OF warm_flight [OF s]])
  ultimately show thesis using that u T(6) by auto
qed

section \<open>A sample run\<close>

text \<open>From an empty device: one table has been created.\<close>

abbreviation sample_row :: row where
  "sample_row \<equiv> [VInt 1, VText ''x'']"

abbreviation sample_meta :: table_meta where
  "sample_meta \<equiv> new_meta ''t'' sample_schema ms_default"

lemma durable_default: "durable_config storage_config_default"
  by (simp add: durable_config_def storage_config_default_def default_config_def waits_for_disk_def)

lemma sample_ms_fits: "ms_fits (with_new ''t'' sample_schema ms_default)" "ms_fits ((with_new ''t'' sample_schema ms_default)\<lparr>ms_checkpoint_csn := c\<rparr>)"
  by (simp_all add: ms_fits_def with_new_def new_meta_def ms_default_def meta_ok_def ms_payload_def enc_meta_def schema_fits_def sample_schema_def
      schema_ok_def arity_def column_ok_def column_new_def not_null_def text_ok_def as_bytes_def byte_of_def enc_u8_def enc_u32_def
      enc_u64_def enc_str_def enc_bytes_def enc_schema_def enc_column_def enc_type_def enc_bool_def enc_default_def)

lemma sample_run:
  obtains s t where "reachable ref_arrow ref_ipc mem storage_config_default s" "writable ''t'' s sample_meta t" "tb_schema t = sample_schema"
    "table_ok 0 t" "st_db s = fresh_table ''t'' sample_schema (st_db (blank_store storage_config_default))" "st_state s = with_new ''t'' sample_schema ms_default"
    "io_room (st_io s)" "w_written (st_wal s) = 0"
proof -
  let ?cfg = storage_config_default
  let ?b = "blank_store ?cfg"
  have b: "recoverable ref_ipc 0 (\<lambda>_. new_inner sample_schema) [] ?b" using durable_default by (intro blank_ok) (simp_all add: durable_config_def)
  have st: "st_state ?b = ms_default" "st_io ?b = blank_io" by (simp_all add: blank_store_def)
  have room: "mf_room 7 (handle p blank_io)" for p using blank_files(2) by (simp add: mf_room_def mf_new_def)
  then have io: "io_room (st_io ?b)" by (simp add: io_room_def st mf_room_le [OF room])
  have new: "cat (st_state ?b) ''t'' = None" "ms_next_table_id (st_state ?b) \<noteq> - 1" "good_schema sample_schema"
    using sample_schema_ok sample_not_synthetic by (simp_all add: st cat_def ms_default_def good_schema_def)
  obtain s where s: "st_create_table_schema ''t'' sample_schema ?b = (Inr (), s)"
    "recoverable ref_ipc 0 ((\<lambda>_. new_inner sample_schema)(''t'' := new_inner sample_schema)) [] s" "st_state s = with_new ''t'' sample_schema ms_default"
    "st_db s = fresh_table ''t'' sample_schema (st_db ?b)" "st_wal s = st_wal ?b"
    "\<And>p n. mf_room (Suc n) (handle p blank_io) \<Longrightarrow> mf_room n (handle p (st_io s))"
    by (rule create_ok [OF b io new]) (use sample_ms_fits st that in auto)
  have "st_step ref_arrow ref_ipc mem ?b s" using st_step.create [OF io new _ s(1)] sample_ms_fits(1) st by simp
  then have r: "reachable ref_arrow ref_ipc mem ?cfg s" unfolding reachable_def restart_blank by blast
  have io': "io_room (st_io s)" using s(6) [of 6] room by (simp add: io_room_def numeral_eq_Suc)
  have M: "tables_match 0 ((\<lambda>_. new_inner sample_schema)(''t'' := new_inner sample_schema)) (log_ops [] @ []) (st_state s) (st_db s)"
    using s(2) unfolding in_flight_def by blast
  have c: "cat (st_state s) ''t'' = Some sample_meta" by (simp add: s(3) cat_def with_new_def new_meta_def ms_default_def)
  obtain t where t: "db_table ''t'' (st_db s) = Inr t" using resolve_ok [OF s(2) c] by blast
  note T = match_table [OF M c t]
  have "t = attach (st_db s) (table_new ''t'' sample_schema (db_csn (st_db ?b)) (db_metrics (st_db ?b)) (db_config (st_db ?b)))"
    using t by (auto simp: s(4) db_table_iff fresh_table_def blank_store_def set_csn_floor_def with_config_def)
  then have "can_write t"
    by (simp add: can_write_def s(4) fresh_table_def table_new_def blank_store_def set_csn_floor_def with_config_def set_floor_def csn_new_def FIRST_CSN_def)
  moreover have w: "w_written (st_wal s) = 0"
    using blank_files(2) by (simp add: s(5) blank_store_def wal_open_def Let_def file_len_def mf_new_def blank_io_def)
  ultimately show thesis using that [OF r _ _ T(2) s(4,3) io' w] c t io' w T(1) by (simp add: writable_def new_meta_def)
qed

lemma sample_put_fits: "rec_fits (WInsert 0 c sample_row)" "rec_fits (WTxn [\<lparr>op_table = 0, op_csn = c, op_kind = TPut sample_row\<rparr>])"
  by (simp_all add: rec_fits_def row_fits_frame_def text_ok_def as_bytes_def byte_of_def enc_op_def
      enc_u8_def enc_u32_def enc_u64_def enc_i64_def enc_row_def enc_str_def enc_bytes_def)

section \<open>Properties\<close>





text \<open>
  C3. Transactions are atomic: after a power loss while the writes of a transaction are being applied the store has none of
  them, and after one right behind its commit it has all of them.
\<close>

theorem transaction_atomic:
  assumes "arrow_ok A" "ipc_ok I" "durable_config cfg" "durable_config cfg'" "reachable A I mem cfg s" "txn_room A ws s"
  shows "\<exists>l ops s1 s' a b. txn_apply A ws 0 [] s = Some (Inr (l, ops), s1) \<and> commit_transaction A I mem ws s = Some (Inr l, s') \<and>
    restart A I mem cfg' (io_crash (st_io s1)) = Some a \<and> restart A I mem cfg' (io_crash (st_io s')) = Some b \<and>
    (\<forall>n. db_versions n (st_db a) = db_versions n (st_db s)) \<and> (\<forall>n. db_versions n (st_db b) = db_versions n (st_db s1))"
proof -
  obtain J rs where s: "recoverable I 0 J rs s" by (rule st_reachable_ok [OF assms(1-3,5)])
  have cfg: "tc_seal_threshold (so_table cfg') < 2 ^ 32" "waits_for_disk (so_durability cfg')" using assms(4) by (simp_all add: durable_config_def)
  obtain l ops s1 s' where c: "txn_apply A ws 0 [] s = Some (Inr (l, ops), s1)" "commit_transaction A I mem ws s = Some (Inr l, s')"
    "recoverable I 0 J (if ops = [] then rs else rs @ [WTxn ops]) s'" "st_db s' = st_db s1" "st_io s1 = st_io s"
    by (rule commit_ok [OF assms(1) s assms(6), of mem]) (rule that, assumption+)
  obtain a J1 where a: "restart A I mem cfg' (io_crash (st_io s)) = Some a" "\<And>n. db_versions n (st_db a) = db_versions n (st_db s)"
    by (rule restart_ok [OF assms(1,2) s cfg, of mem]) (rule that, assumption+)
  obtain b J2 where b: "restart A I mem cfg' (io_crash (st_io s')) = Some b" "\<And>n. db_versions n (st_db b) = db_versions n (st_db s')"
    by (rule restart_ok [OF assms(1,2) c(3) cfg, of mem]) (rule that, assumption+)
  show ?thesis using c(1,2,4,5) a b by auto
qed

theorem transaction_atomic_witness:
  "\<exists>s l s' b. commit_transaction ref_arrow ref_ipc (\<lambda>_. 0) [TxnPut ''t'' sample_row] s = Some (Inr l, s') \<and>
    restart ref_arrow ref_ipc (\<lambda>_. 0) storage_config_default (io_crash (st_io s')) = Some b"
proof -
  obtain s t where s: "reachable ref_arrow ref_ipc (\<lambda>_. 0) storage_config_default s" "writable ''t'' s sample_meta t"
    "tb_schema t = sample_schema" "table_ok 0 t" "w_written (st_wal s) = 0" by (rule sample_run) blast
  obtain J rs where r: "recoverable ref_ipc 0 J rs s" by (rule st_reachable_ok [OF arrow_ok_ref ipc_ok_ref durable_default s(1)])
  have W: "cat (st_state s) ''t'' = Some sample_meta" "db_table ''t'' (st_db s) = Inr t" "can_write t" "io_room (st_io s)"
    using s(2) by (auto simp: writable_def)
  have res: "st_resolve ''t'' s = Inr (tm_id sample_meta, t)" using resolve_ok [OF r W(1)] W(2) by (metis sum.inject(2))
  have row: "row_ok (tb_schema t) sample_row" by (simp add: s(3) sample_schema_ok)
  have "stored_row t sample_row = sample_row" by (simp add: stored_row_def fill_rowid_def s(3) sample_not_synthetic)
  then obtain t' where u: "tb_upsert_returning ref_arrow sample_row t = Some (Inr (cg_next (tb_csn t), sample_row), t')"
    using upsert_returning_ok [OF arrow_ok_ref s(4) W(3) row] by auto
  have "txn_room ref_arrow [TxnPut ''t'' sample_row] s"
    using W sample_put_fits(2) by (auto simp: txn_room_def res u s(5) new_meta_def ms_default_def sample_schema_ok)
  from transaction_atomic [OF arrow_ok_ref ipc_ok_ref durable_default durable_default s(1) this] show ?thesis by blast
qed



end
