(* ===== verification/Ck_Expr.thy ===== *)
theory Ck_Expr
  imports Ck_FloatArith Ck_Batch
begin

text \<open>
  \<open>src/src/sql/expr.rs\<close> and the column helpers of \<open>src/src/sql/value.rs\<close>: scalar expressions with
  three-valued logic, their two evaluators (over a row and over a batch), and the zonemap test
  \<open>excludes\<close> that lets a scan skip a part.
\<close>

section \<open>Column helpers\<close>

definition COLUMNS :: "string list" where
  "COLUMNS = [''pk'', ''a'', ''b'', ''c'']"

definition default_column_index :: "string \<Rightarrow> nat option" where
  "default_column_index name = position (\<lambda>c. c = to_ascii_lowercase name) COLUMNS"

definition row_value :: "row \<Rightarrow> nat \<Rightarrow> value_t" where
  "row_value row idx = (case nth_opt row idx of Some v \<Rightarrow> v | None \<Rightarrow> VNull)"

definition batch_value :: "batch \<Rightarrow> nat \<Rightarrow> nat \<Rightarrow> value_t option" where
  "batch_value b idx i = (if idx < arity (b_schema b) then b_value b idx i else Some VNull)"

section \<open>Expressions\<close>

datatype unary_op = OpNot | OpNeg

datatype binary_op = OpAdd | OpSub | OpMul | OpDiv | OpMod
  | OpEq | OpNotEq | OpLt | OpLtEq | OpGt | OpGtEq | OpAnd | OpOr

datatype expr = EColumn nat | ELiteral value_t | EUnary unary_op expr
  | EBinary binary_op expr expr | EIsNull expr bool

definition expr_column :: "string \<Rightarrow> string + expr" where
  "expr_column name =
     (case default_column_index name of Some i \<Rightarrow> Inr (EColumn i) | None \<Rightarrow> Inl (''no such column: '' @ name))"

text \<open>\<open>used\<close> is the four-element array the method writes into.\<close>

fun columns_used :: "expr \<Rightarrow> bool list \<Rightarrow> bool list" where
  "columns_used (EColumn i) used = (if i < 4 then used[i := True] else used)"
| "columns_used (ELiteral _) used = used"
| "columns_used (EUnary _ e) used = columns_used e used"
| "columns_used (EIsNull e _) used = columns_used e used"
| "columns_used (EBinary _ l r) used = columns_used r (columns_used l used)"

section \<open>Operators\<close>

fun eval_unary :: "unary_op \<Rightarrow> value_t \<Rightarrow> value_t" where
  "eval_unary OpNeg (VInt i) = VInt (- i)"
| "eval_unary OpNeg (VFloat f) = VFloat (f64_negate f)"
| "eval_unary OpNeg (VDecimal m s) = VDecimal (- m) s"
| "eval_unary OpNot (VBool b) = VBool (\<not> b)"
| "eval_unary _ _ = VNull"

text \<open>
  Arithmetic.  The outer option is a panic: \<open>a / b\<close> on integers panics when the quotient
  overflows, and an operator that is not arithmetic is \<open>unreachable!\<close>.
\<close>

fun int_arith :: "binary_op \<Rightarrow> i64 \<Rightarrow> i64 \<Rightarrow> value_t option" where
  "int_arith OpAdd a b = Some (VInt (a + b))"
| "int_arith OpSub a b = Some (VInt (a - b))"
| "int_arith OpMul a b = Some (VInt (a * b))"
| "int_arith OpDiv a b =
     (if b = 0 then Some VNull
      else if sint a = - (2 ^ 63) \<and> sint b = - 1 then None
      else Some (VInt (word_of_int (sint a sdiv sint b))))"
| "int_arith OpMod a b = (if b = 0 then Some VNull else Some (VInt (word_of_int (sint a smod sint b))))"
| "int_arith _ _ _ = None"

text \<open>The exact path: \<open>None\<close> falls through to floats.\<close>

fun dec_arith :: "binary_op \<Rightarrow> i128 \<times> u32 \<Rightarrow> i128 \<times> u32 \<Rightarrow> value_t option" where
  "dec_arith OpAdd (am, asc) (bm, bsc) =
     do { x \<leftarrow> rescale am asc (max asc bsc); y \<leftarrow> rescale bm bsc (max asc bsc);
          m \<leftarrow> checked_i128 (sint x + sint y); Some (VDecimal m (max asc bsc)) }"
| "dec_arith OpSub (am, asc) (bm, bsc) =
     do { x \<leftarrow> rescale am asc (max asc bsc); y \<leftarrow> rescale bm bsc (max asc bsc);
          m \<leftarrow> checked_i128 (sint x - sint y); Some (VDecimal m (max asc bsc)) }"
| "dec_arith OpMul (am, asc) (bm, bsc) =
     do { m \<leftarrow> checked_i128 (sint am * sint bm); Some (VDecimal m (asc + bsc)) }"
| "dec_arith _ _ _ = None"

fun float_arith :: "binary_op \<Rightarrow> f64 \<Rightarrow> f64 \<Rightarrow> value_t option" where
  "float_arith OpAdd a b = Some (VFloat (f64_add a b))"
| "float_arith OpSub a b = Some (VFloat (f64_sub a b))"
| "float_arith OpMul a b = Some (VFloat (f64_mul a b))"
| "float_arith OpDiv a b = Some (if f64_is_zero b then VNull else VFloat (f64_div a b))"
| "float_arith OpMod a b = Some (if f64_is_zero b then VNull else VFloat (f64_rem a b))"
| "float_arith _ _ _ = None"

definition exact_arith :: "binary_op \<Rightarrow> value_t \<Rightarrow> value_t \<Rightarrow> value_t option" where
  "exact_arith op l r =
     (if is_decimal l \<or> is_decimal r
      then do { a \<leftarrow> as_dec l; b \<leftarrow> as_dec r; dec_arith op a b } else None)"

definition eval_arith :: "binary_op \<Rightarrow> value_t \<Rightarrow> value_t \<Rightarrow> value_t option" where
  "eval_arith op l r =
     (if is_null l \<or> is_null r then Some VNull
      else case (l, r) of
        (VInt a, VInt b) \<Rightarrow> int_arith op a b
      | _ \<Rightarrow> (case exact_arith op l r of
          Some v \<Rightarrow> Some v
        | None \<Rightarrow> (case (as_f64 l, as_f64 r) of
            (Some a, Some b) \<Rightarrow> float_arith op a b
          | _ \<Rightarrow> Some VNull)))"

fun cmp_holds :: "binary_op \<Rightarrow> ordering \<Rightarrow> bool option" where
  "cmp_holds OpEq ord = Some (ord = Equal)"
| "cmp_holds OpNotEq ord = Some (ord \<noteq> Equal)"
| "cmp_holds OpLt ord = Some (ord = Less)"
| "cmp_holds OpLtEq ord = Some (ord \<noteq> Greater)"
| "cmp_holds OpGt ord = Some (ord = Greater)"
| "cmp_holds OpGtEq ord = Some (ord \<noteq> Less)"
| "cmp_holds _ _ = None"

definition eval_compare :: "binary_op \<Rightarrow> value_t \<Rightarrow> value_t \<Rightarrow> value_t option" where
  "eval_compare op l r =
     (case sql_cmp l r of None \<Rightarrow> Some VNull | Some ord \<Rightarrow> map_option VBool (cmp_holds op ord))"

definition eval_and :: "value_t \<Rightarrow> value_t \<Rightarrow> value_t" where
  "eval_and l r =
     (if is_false l \<or> is_false r then VBool False
      else if is_true l \<and> is_true r then VBool True else VNull)"

definition eval_or :: "value_t \<Rightarrow> value_t \<Rightarrow> value_t" where
  "eval_or l r =
     (if is_true l \<or> is_true r then VBool True
      else if is_false l \<and> is_false r then VBool False else VNull)"

fun is_arith :: "binary_op \<Rightarrow> bool" where
  "is_arith OpAdd = True" | "is_arith OpSub = True" | "is_arith OpMul = True"
| "is_arith OpDiv = True" | "is_arith OpMod = True" | "is_arith _ = False"

section \<open>Evaluation\<close>

fun eval_at :: "expr \<Rightarrow> batch \<Rightarrow> nat \<Rightarrow> value_t option" where
  "eval_at (EColumn c) b i = batch_value b c i"
| "eval_at (ELiteral v) b i = Some v"
| "eval_at (EIsNull e negated) b i = do { v \<leftarrow> eval_at e b i; Some (VBool (is_null v \<noteq> negated)) }"
| "eval_at (EUnary op e) b i = do { v \<leftarrow> eval_at e b i; Some (eval_unary op v) }"
| "eval_at (EBinary op l r) b i =
     (case op of
        OpAnd \<Rightarrow> do { x \<leftarrow> eval_at l b i; y \<leftarrow> eval_at r b i; Some (eval_and x y) }
      | OpOr \<Rightarrow> do { x \<leftarrow> eval_at l b i; y \<leftarrow> eval_at r b i; Some (eval_or x y) }
      | _ \<Rightarrow> if is_arith op then do { x \<leftarrow> eval_at l b i; y \<leftarrow> eval_at r b i; eval_arith op x y }
             else do { x \<leftarrow> eval_at l b i; y \<leftarrow> eval_at r b i; eval_compare op x y })"

fun eval :: "expr \<Rightarrow> row \<Rightarrow> value_t option" where
  "eval (EColumn i) row = Some (row_value row i)"
| "eval (ELiteral v) row = Some v"
| "eval (EIsNull e negated) row = do { v \<leftarrow> eval e row; Some (VBool (is_null v \<noteq> negated)) }"
| "eval (EUnary op e) row = do { v \<leftarrow> eval e row; Some (eval_unary op v) }"
| "eval (EBinary op l r) row =
     (if op = OpAnd then do { x \<leftarrow> eval l row; y \<leftarrow> eval r row; Some (eval_and x y) }
      else if op = OpOr then do { x \<leftarrow> eval l row; y \<leftarrow> eval r row; Some (eval_or x y) }
      else do {
        lv \<leftarrow> eval l row; rv \<leftarrow> eval r row;
        if is_arith op then eval_arith op lv rv else eval_compare op lv rv })"

section \<open>Zonemap pruning\<close>

fun flip :: "binary_op \<Rightarrow> binary_op" where
  "flip OpLt = OpGt" | "flip OpLtEq = OpGtEq" | "flip OpGt = OpLt" | "flip OpGtEq = OpLtEq"
| "flip op = op"

fun range_excludes :: "binary_op \<Rightarrow> value_t \<Rightarrow> value_t \<Rightarrow> value_t \<Rightarrow> bool" where
  "range_excludes OpEq mn mx lit \<longleftrightarrow> total_cmp lit mn = Less \<or> total_cmp lit mx = Greater"
| "range_excludes OpLt mn mx lit \<longleftrightarrow> total_cmp mn lit \<noteq> Less"
| "range_excludes OpLtEq mn mx lit \<longleftrightarrow> total_cmp mn lit = Greater"
| "range_excludes OpGt mn mx lit \<longleftrightarrow> total_cmp mx lit \<noteq> Greater"
| "range_excludes OpGtEq mn mx lit \<longleftrightarrow> total_cmp mx lit = Less"
| "range_excludes _ mn mx lit \<longleftrightarrow> False"

type_synonym bounds = "(value_t \<times> value_t) option list"

definition col_excludes :: "bounds \<Rightarrow> nat \<Rightarrow> binary_op \<Rightarrow> value_t \<Rightarrow> bool" where
  "col_excludes bs col op lit =
     (case nth_opt bs col of Some (Some (mn, mx)) \<Rightarrow> range_excludes op mn mx lit | _ \<Rightarrow> False)"

fun excludes :: "expr \<Rightarrow> bounds \<Rightarrow> bool" where
  "excludes (EBinary op l r) bs =
     (if op = OpAnd then excludes l bs \<or> excludes r bs
      else if op = OpOr then excludes l bs \<and> excludes r bs
      else if op \<in> {OpEq, OpLt, OpLtEq, OpGt, OpGtEq}
      then (case (l, r) of
              (EColumn c, ELiteral v) \<Rightarrow> col_excludes bs c op v
            | (ELiteral v, EColumn c) \<Rightarrow> col_excludes bs c (flip op) v
            | _ \<Rightarrow> False)
      else False)"
| "excludes _ bs = False"

section \<open>Three-valued logic\<close>

text \<open>
  \<open>AND\<close> and \<open>OR\<close> are the minimum and maximum of the truth values FALSE, UNKNOWN and TRUE, where
  everything that is not a boolean counts as UNKNOWN.
\<close>

definition truth :: "value_t \<Rightarrow> nat" where
  "truth v = (if is_false v then 0 else if is_true v then 2 else 1)"

lemma truth_logic [simp]:
  "truth (eval_and a b) = min (truth a) (truth b)"
  "truth (eval_or a b) = max (truth a) (truth b)"
  "truth (eval_unary OpNot a) = 2 - truth a"
  by (cases a; cases b; simp add: truth_def eval_and_def eval_or_def)+

lemma not_true_and: "\<not> is_true a \<or> \<not> is_true b \<Longrightarrow> \<not> is_true (eval_and a b)"
  by (auto simp: eval_and_def)

lemma not_true_or: "\<not> is_true a \<Longrightarrow> \<not> is_true b \<Longrightarrow> \<not> is_true (eval_or a b)"
  by (auto simp: eval_or_def)

section \<open>The two evaluators agree\<close>

lemma batch_value_ok:
  assumes "batch_ok b" "i < b_len b"
  shows "batch_value b c i = Some (row_value (batch_row b i) c)"
  using b_value_ok(1) [OF assms(1) _ assms(2), of c]
  by (simp add: batch_value_def row_value_def nth_opt_def)

lemma eval_at_ok:
  assumes "batch_ok b" "i < b_len b"
  shows "eval_at e b i = eval e (batch_row b i)"
  using assms by (induction e) (auto simp: batch_value_ok split: binary_op.split)

section \<open>Types of expressions\<close>

datatype vkind = BoolK | IntK | NumK | TextK

fun has_kind :: "value_t \<Rightarrow> vkind \<Rightarrow> bool" where
  "has_kind VNull k = True"
| "has_kind (VBool _) k = (k = BoolK)"
| "has_kind (VInt _) k = (k = IntK \<or> k = NumK)"
| "has_kind (VFloat _) k = (k = NumK)"
| "has_kind (VDecimal _ _) k = (k = NumK)"
| "has_kind (VText _) k = (k = TextK)"

fun col_kind :: "data_type \<Rightarrow> vkind" where
  "col_kind TInt = IntK"
| "col_kind TDate = IntK"
| "col_kind TTimestamp = IntK"
| "col_kind TFloat = NumK"
| "col_kind (TDecimal _ _) = NumK"
| "col_kind TText = TextK"
| "col_kind TBool = BoolK"

text \<open>
  A typing judgement for the expressions that cannot panic: a division is typed only when its
  divisor is a literal other than \<open>-1\<close>.
\<close>

inductive wt :: "schema \<Rightarrow> expr \<Rightarrow> vkind \<Rightarrow> bool" for s where
  wt_column: "c < arity s \<Longrightarrow> wt s (EColumn c) (col_kind (col_ty s c))"
| wt_literal: "has_kind v k \<Longrightarrow> wt s (ELiteral v) k"
| wt_widen: "wt s e IntK \<Longrightarrow> wt s e NumK"
| wt_not: "wt s e BoolK \<Longrightarrow> wt s (EUnary OpNot e) BoolK"
| wt_neg: "wt s e k \<Longrightarrow> k = IntK \<or> k = NumK \<Longrightarrow> wt s (EUnary OpNeg e) k"
| wt_is_null: "wt s e k \<Longrightarrow> wt s (EIsNull e negated) BoolK"
| wt_arith: "wt s l k \<Longrightarrow> wt s r k \<Longrightarrow> k = IntK \<or> k = NumK \<Longrightarrow> op \<in> {OpAdd, OpSub, OpMul, OpMod} \<Longrightarrow>
    wt s (EBinary op l r) k"
| wt_div: "wt s l k \<Longrightarrow> has_kind v k \<Longrightarrow> v \<noteq> VInt (- 1) \<Longrightarrow> k = IntK \<or> k = NumK \<Longrightarrow>
    wt s (EBinary OpDiv l (ELiteral v)) k"
| wt_compare: "wt s l k \<Longrightarrow> wt s r k' \<Longrightarrow> op \<in> {OpEq, OpNotEq, OpLt, OpLtEq, OpGt, OpGtEq} \<Longrightarrow>
    wt s (EBinary op l r) BoolK"
| wt_logic: "wt s l BoolK \<Longrightarrow> wt s r BoolK \<Longrightarrow> op = OpAnd \<or> op = OpOr \<Longrightarrow> wt s (EBinary op l r) BoolK"

lemma has_kind_column: "col_value ty v \<Longrightarrow> has_kind v (col_kind ty)"
  by (cases ty; cases v) auto

lemma has_kind_unary:
  "has_kind v BoolK \<Longrightarrow> has_kind (eval_unary OpNot v) BoolK"
  "has_kind v k \<Longrightarrow> k = IntK \<or> k = NumK \<Longrightarrow> has_kind (eval_unary OpNeg v) k"
  by (cases v; auto)+

lemma exact_arith_decimal: "exact_arith op a b = Some v \<Longrightarrow> \<exists>m s. v = VDecimal m s"
  by (cases op) (auto simp: exact_arith_def Let_def split: if_splits option.splits bind_splits)

lemma arith_kind:
  assumes "has_kind a k" "has_kind b k" "k = IntK \<or> k = NumK" "is_arith op"
    "op = OpDiv \<longrightarrow> b \<noteq> VInt (- 1)"
  shows "\<exists>v. eval_arith op a b = Some v \<and> has_kind v k"
proof (cases "is_null a \<or> is_null b \<or> (\<exists>i j. a = VInt i \<and> b = VInt j)")
  case True
  then consider "is_null a \<or> is_null b" | i j where "a = VInt i" "b = VInt j" by blast
  then show ?thesis
  proof cases
    case 2
    then have m1: "op = OpDiv \<Longrightarrow> sint j \<noteq> - 1" using assms(5) by (metis signed_minus_1 sint_eq_iff)
    show ?thesis using 2 assms(1-4) m1 by (cases op) (auto simp: eval_arith_def)
  qed (simp add: eval_arith_def)
next
  case False
  then have k: "k = NumK" using assms(1-3) by (cases a; cases b) auto
  have e: "eval_arith op a b = (case exact_arith op a b of Some v \<Rightarrow> Some v
      | None \<Rightarrow> (case (as_f64 a, as_f64 b) of (Some x, Some y) \<Rightarrow> float_arith op x y | _ \<Rightarrow> Some VNull))"
    using False by (cases a; cases b) (auto simp: eval_arith_def)
  have f: "\<exists>v. float_arith op x y = Some v \<and> has_kind v NumK" for x y
    using assms(4) by (cases op) auto
  show ?thesis
  proof (cases "exact_arith op a b")
    case None
    then show ?thesis using f k by (auto simp: e split: option.split)
  next
    case (Some v)
    then show ?thesis using exact_arith_decimal [OF Some] k by (auto simp: e)
  qed
qed

lemma compare_kind:
  assumes "op \<in> {OpEq, OpNotEq, OpLt, OpLtEq, OpGt, OpGtEq}"
  shows "\<exists>v. eval_compare op a b = Some v \<and> has_kind v BoolK"
  using assms by (auto simp: eval_compare_def split: option.split)

lemma logic_kind: "has_kind (eval_and a b) BoolK" "has_kind (eval_or a b) BoolK"
  by (simp_all add: eval_and_def eval_or_def)

lemma wt_eval:
  assumes "wt s e k" "row_ok s r"
  shows "\<exists>v. eval e r = Some v \<and> has_kind v k"
  using assms
proof (induction rule: wt.induct)
  case (wt_column c)
  then show ?case by (simp add: row_value_def row_ok_def has_kind_column)
next
  case (wt_widen e)
  then obtain v where "eval e r = Some v" "has_kind v IntK" by blast
  then show ?case by (cases v) auto
next
  case (wt_not e)
  then show ?case using has_kind_unary(1) by auto
next
  case (wt_neg e k)
  then show ?case using has_kind_unary(2) by auto
next
  case (wt_is_null e k negated)
  then show ?case by auto
next
  case (wt_arith l k r' op)
  then obtain x y where "eval l r = Some x" "has_kind x k" "eval r' r = Some y" "has_kind y k" by blast
  moreover have "is_arith op" "op \<noteq> OpDiv" "op \<noteq> OpAnd" "op \<noteq> OpOr" using wt_arith.hyps by auto
  ultimately show ?case using arith_kind [of x k y op] wt_arith.hyps by simp
next
  case (wt_div l k v)
  then obtain x where "eval l r = Some x" "has_kind x k" by blast
  then show ?case using arith_kind [of x k v OpDiv] wt_div.hyps by simp
next
  case (wt_compare l k r' k' op)
  then obtain x y where "eval l r = Some x" "eval r' r = Some y" by blast
  moreover have "\<not> is_arith op" "op \<noteq> OpAnd" "op \<noteq> OpOr" using wt_compare.hyps by auto
  ultimately show ?case using compare_kind [of op x y] wt_compare.hyps by simp
next
  case (wt_logic l r' op)
  then obtain x y where "eval l r = Some x" "eval r' r = Some y" by blast
  then show ?case using wt_logic.hyps logic_kind by auto
qed simp

section \<open>Pruning is sound\<close>

text \<open>
  \<open>sql_cmp\<close>, which predicates use, compares integers through \<open>f64\<close> and calls the two zeros equal;
  \<open>total_cmp\<close>, which zonemaps use, does neither.  They agree on integers below \<open>2 ^ 53\<close> and
  without negative zeros.
\<close>

fun plain :: "value_t \<Rightarrow> bool" where
  "plain (VInt i) = (\<bar>sint i\<bar> < 2 ^ 53)"
| "plain (VFloat f) = (f \<noteq> f64_zero True)"
| "plain _ = True"

lemma sql_cmp_plain:
  assumes "col_value ty v" "col_value ty w" "plain v" "plain w" "sql_cmp v w = Some c"
  shows "total_cmp v w = c"
proof -
  have nn: "v \<noteq> VNull" "w \<noteq> VNull" using assms(5) by (auto simp: sql_cmp_def)
  have b: "f64_partial_cmp (if x then f64_of_int 1 else f64_of_int 0) (if y then f64_of_int 1 else f64_of_int 0) =
      Some (cmp_of x y)" for x y
    using cmp_f64_of_int [of 0 1] cmp_f64_of_int [of 1 0] cmp_f64_of_int [of 1 1] cmp_f64_of_int [of 0 0]
    by (cases x; cases y) (simp_all add: cmp_of_def)
  show ?thesis
    by (rule col_value_cases [OF assms(1)]; rule col_value_cases [OF assms(2)])
       (use assms(3-5) nn b partial_cmp_total in
         \<open>auto simp: sql_cmp_def cmp_decimal_exact_def cmp_f64_of_int Let_def\<close>)
qed

definition zone_ok :: "schema \<Rightarrow> bounds \<Rightarrow> row \<Rightarrow> bool" where
  "zone_ok s bs r \<longleftrightarrow>
     (\<forall>c mn mx. nth_opt bs c = Some (Some (mn, mx)) \<longrightarrow>
        c < arity s \<and> col_value (col_ty s c) mn \<and> col_value (col_ty s c) mx \<and>
        (r ! c = VNull \<or> total_cmp mn (r ! c) \<noteq> Greater \<and> total_cmp (r ! c) mx \<noteq> Greater))"

fun lits_ok :: "schema \<Rightarrow> expr \<Rightarrow> bool" where
  "lits_ok s (EBinary op l r) =
     (if op = OpAnd \<or> op = OpOr then lits_ok s l \<and> lits_ok s r
      else case (l, r) of
        (EColumn c, ELiteral v) \<Rightarrow> c < arity s \<longrightarrow> col_value (col_ty s c) v \<and> plain v
      | (ELiteral v, EColumn c) \<Rightarrow> c < arity s \<longrightarrow> col_value (col_ty s c) v \<and> plain v
      | _ \<Rightarrow> True)"
| "lits_ok s _ = True"

definition plain_row :: "row \<Rightarrow> bool" where
  "plain_row r \<longleftrightarrow> (\<forall>v \<in> set r. plain v)"

lemma nth_opt_None [simp]: "length xs \<le> i \<Longrightarrow> nth_opt xs i = None"
  by (simp add: nth_opt_def)

lemma sql_cmp_null [simp]: "sql_cmp VNull v = None" "sql_cmp v VNull = None"
  by (simp_all add: sql_cmp_def)

text \<open>What an excluded comparison means for one value of the column.\<close>

lemma range_excludes_sound:
  assumes "col_value ty v" "col_value ty lit" "col_value ty mn" "col_value ty mx"
    "total_cmp mn v \<noteq> Greater" "total_cmp v mx \<noteq> Greater" "range_excludes op mn mx lit"
  shows "cmp_holds op (total_cmp v lit) \<noteq> Some True"
proof -
  define c where "c = total_cmp v lit"
  have K: "v \<in> col_values ty" "lit \<in> col_values ty" "mn \<in> col_values ty" "mx \<in> col_values ty"
    using assms(1-4) by (simp_all add: col_values_def)
  have le: "vo.le mn v" "vo.le v mx" using assms(5,6) by (simp_all add: vo.le_def)
  have ord: "c = Less \<Longrightarrow> vo.lt v lit" "c = Equal \<Longrightarrow> v = lit" "c = Greater \<Longrightarrow> vo.lt lit v"
    using vo.cmp_Equal [OF K(1,2)] vo.cmp_swap [OF K(2,1)] by (simp_all add: vo.lt_def c_def)
  have lits: "vo.lt v lit \<Longrightarrow> vo.lt mn lit" "vo.lt lit v \<Longrightarrow> vo.lt lit mx"
    using vo.le_lt_trans [OF K(3,1,2) le(1)] vo.lt_le_trans [OF K(2,1,4) _ le(2)] by auto
  have ends: "total_cmp lit mn = Less \<longleftrightarrow> vo.lt lit mn" "total_cmp lit mx = Greater \<longleftrightarrow> vo.lt mx lit"
    "total_cmp mn lit \<noteq> Less \<longleftrightarrow> \<not> vo.lt mn lit" "total_cmp mn lit = Greater \<longleftrightarrow> vo.lt lit mn"
    "total_cmp mx lit \<noteq> Greater \<longleftrightarrow> \<not> vo.lt lit mx" "total_cmp mx lit = Less \<longleftrightarrow> vo.lt mx lit"
    using vo.cmp_swap [OF K(4,2)] vo.cmp_swap [OF K(2,3)] vo.cmp_swap [OF K(2,4)] by (simp_all add: vo.lt_def)
  have excl: "vo.lt lit mn \<Longrightarrow> vo.lt lit v" "vo.lt mx lit \<Longrightarrow> vo.lt v lit"
    using vo.lt_le_trans [OF K(2,3,1) _ le(1)] vo.le_lt_trans [OF K(1,4,2) le(2)] by auto
  have one: "\<not> vo.lt lit lit" by (rule vo.lt_irrefl [OF K(2)])
  have cc: "vo.lt lit v \<Longrightarrow> c = Greater" "vo.lt v lit \<Longrightarrow> c = Less"
    using vo.cmp_swap [OF K(2,1)] by (simp_all add: vo.lt_def c_def)
  show ?thesis
  proof (cases op)
    case OpEq
    then have "vo.lt lit mn \<or> vo.lt mx lit" using assms(7) ends by simp
    then have "c \<noteq> Equal" using excl cc by auto
    then show ?thesis by (simp add: OpEq c_def)
  next
    case OpLt
    then have "c \<noteq> Less" using assms(7) ends ord(1) lits(1) by auto
    then show ?thesis by (simp add: OpLt c_def)
  next
    case OpLtEq
    then have "c = Greater" using assms(7) ends excl cc by auto
    then show ?thesis by (simp add: OpLtEq c_def)
  next
    case OpGt
    then have "c \<noteq> Greater" using assms(7) ends ord(3) lits(2) by auto
    then show ?thesis by (simp add: OpGt c_def)
  next
    case OpGtEq
    then have "c = Less" using assms(7) ends excl cc by auto
    then show ?thesis by (simp add: OpGtEq c_def)
  qed (use assms(7) in simp_all)
qed

text \<open>A comparison with its operands swapped.\<close>

lemma cmp_holds_flip:
  assumes "op \<in> {OpEq, OpLt, OpLtEq, OpGt, OpGtEq}" "col_value ty a" "col_value ty b"
  shows "cmp_holds (flip op) (total_cmp b a) = cmp_holds op (total_cmp a b)"
proof -
  have "a \<in> col_values ty" "b \<in> col_values ty" using assms(2,3) by (simp_all add: col_values_def)
  then have "total_cmp a b = Less \<longleftrightarrow> total_cmp b a = Greater" "total_cmp b a = Less \<longleftrightarrow> total_cmp a b = Greater"
    "total_cmp a b = Equal \<longleftrightarrow> total_cmp b a = Equal"
    by (auto simp: vo.cmp_swap vo.cmp_Equal)
  then show ?thesis using assms(1) by (cases "total_cmp a b"; cases "total_cmp b a") auto
qed

lemma compare_plain:
  assumes "col_value ty a" "col_value ty b" "plain a" "plain b" "eval_compare op a b = Some u" "is_true u"
  shows "cmp_holds op (total_cmp a b) = Some True"
  using assms sql_cmp_plain [OF assms(1-4)] by (auto simp: eval_compare_def split: option.splits)

lemma col_excludes_sound:
  assumes "row_ok s r" "plain_row r" "zone_ok s bs r" "col_excludes bs c op lit"
    "c < arity s \<longrightarrow> col_value (col_ty s c) lit \<and> plain lit"
  shows "row_value r c = VNull \<or>
    col_value (col_ty s c) (row_value r c) \<and> plain (row_value r c) \<and> col_value (col_ty s c) lit \<and> plain lit \<and>
    cmp_holds op (total_cmp (row_value r c) lit) \<noteq> Some True"
proof -
  obtain mn mx where b: "nth_opt bs c = Some (Some (mn, mx))" "range_excludes op mn mx lit"
    using assms(4) by (auto simp: col_excludes_def split: option.splits)
  then have c: "c < arity s" "col_value (col_ty s c) mn" "col_value (col_ty s c) mx"
    "r ! c = VNull \<or> total_cmp mn (r ! c) \<noteq> Greater \<and> total_cmp (r ! c) mx \<noteq> Greater"
    using assms(3) unfolding zone_ok_def by blast+
  have v: "row_value r c = r ! c" "col_value (col_ty s c) (r ! c)" "plain (r ! c)"
    using assms(1,2) c(1) by (auto simp: row_value_def row_ok_def plain_row_def)
  show ?thesis using range_excludes_sound [OF v(2) _ c(2,3) _ _ b(2)] assms(5) c v by auto
qed

lemma excludes_ok:
  assumes "row_ok s r" "plain_row r" "zone_ok s bs r"
  shows "lits_ok s e \<Longrightarrow> excludes e bs \<Longrightarrow> eval e r = Some u \<Longrightarrow> \<not> is_true u"
proof (induction e arbitrary: u)
  case (EBinary op e1 e2)
  consider "op = OpAnd" | "op = OpOr" | "op \<in> {OpEq, OpLt, OpLtEq, OpGt, OpGtEq}"
    using EBinary.prems(2) by (auto split: if_splits)
  then show ?case
  proof cases
    case 1
    then show ?thesis using EBinary not_true_and by (fastforce split: bind_splits)
  next
    case 2
    then show ?thesis using EBinary not_true_or by (fastforce split: bind_splits)
  next
    case 3
    then have na: "op \<noteq> OpAnd" "op \<noteq> OpOr" "\<not> is_arith op" by auto
    have "excludes (EBinary op e1 e2) bs =
        (case (e1, e2) of (EColumn c, ELiteral v) \<Rightarrow> col_excludes bs c op v
         | (ELiteral v, EColumn c) \<Rightarrow> col_excludes bs c (flip op) v | _ \<Rightarrow> False)"
      using 3 by auto
    then consider c v where "e1 = EColumn c" "e2 = ELiteral v" "col_excludes bs c op v"
      | c v where "e1 = ELiteral v" "e2 = EColumn c" "col_excludes bs c (flip op) v"
      using EBinary.prems(2) by (auto split: expr.splits)
    then show ?thesis
    proof cases
      case (1 c v)
      have "c < arity s \<longrightarrow> col_value (col_ty s c) v \<and> plain v"
        using EBinary.prems(1) na 1 by simp
      from col_excludes_sound [OF assms 1(3) this] show ?thesis
        using EBinary.prems(3) na 1 compare_plain by (auto simp: eval_compare_def)
    next
      case (2 c v)
      have "c < arity s \<longrightarrow> col_value (col_ty s c) v \<and> plain v"
        using EBinary.prems(1) na 2 by simp
      from col_excludes_sound [OF assms 2(3) this] show ?thesis
        using EBinary.prems(3) na 2 compare_plain cmp_holds_flip [OF 3]
        by (auto simp: eval_compare_def)
    qed
  qed
qed simp_all

section \<open>Properties\<close>

text \<open>
  Columnar evaluation agrees with row evaluation: on every row of a well-formed batch,
  \<open>eval_at\<close> returns what \<open>eval\<close> returns on the materialised row, panics included.
\<close>

theorem eval_at_is_eval:
  assumes "batch_ok b" "i < b_len b" "b_row b i = Some r"
  shows "eval_at e b i = eval e r"
  using eval_at_ok [OF assms(1,2)] b_row_ok [OF assms(1,2)] assms(3) nth_batch_rows [OF assms(2)] by simp

definition sample_pred :: expr where
  "sample_pred = EBinary OpAnd (EBinary OpGt (EColumn 0) (ELiteral (VInt 9))) (EIsNull (EColumn 1) True)"

theorem eval_at_is_eval_witness:
  "\<exists>b. b_row b 0 = Some [VInt 10, VText ''x''] \<and> eval_at sample_pred b 0 = Some (VBool True)"
proof -
  obtain b where b: "batch_ok b" "b_len b = 1" "batch_rows b = map (canon_row sample_schema) [[VInt 10, VText ''x'']]"
    by (rule from_rows_ok [OF arrow_ok_ref sample_schema_ok(1,2), of "[[VInt 10, VText ''x'']]"])
       (use sample_schema_ok(3) in \<open>auto simp: row_ok_def\<close>)
  then have r: "b_row b 0 = Some [VInt 10, VText ''x'']"
    using canon_row_id [OF sample_schema_ok(3)] b_row_ok [of b 0] by simp
  have "sql_cmp (VInt 10) (VInt 9) = Some Greater"
    using cmp_f64_of_int [of 10 9] by (simp add: sql_cmp_def cmp_decimal_exact_def cmp_of_def)
  then have "eval sample_pred [VInt 10, VText ''x''] = Some (VBool True)"
    by (simp add: sample_pred_def row_value_def eval_compare_def eval_and_def)
  then show ?thesis using eval_at_is_eval [OF b(1) _ r, of sample_pred] b(2) r by auto
qed



text \<open>An integer quotient that overflows panics, although division by zero is NULL.\<close>

theorem int_div_panics:
  "eval (EBinary OpDiv (ELiteral (VInt 0x8000000000000000)) (EUnary OpNeg (ELiteral (VInt 1)))) r = None"
  by (simp add: eval_arith_def)



text \<open>
  Outside these hypotheses a matching row can be pruned: a part whose only value is a negative
  zero excludes \<open>b = 0.0\<close>, which holds of that row.
\<close>

theorem pruning_misses_negative_zero:
  "excludes (EBinary OpEq (EColumn 0) (ELiteral (VFloat 0))) [Some (VFloat (f64_zero True), VFloat (f64_zero True))] \<and>
   eval (EBinary OpEq (EColumn 0) (ELiteral (VFloat 0))) [VFloat (f64_zero True)] = Some (VBool True)"
  by code_simp

end
