(* ===== verification/Ck_Exec.thy ===== *)
theory Ck_Exec
  imports Ck_Expr Ck_TableOk
begin

text \<open>
  The query executor (\<open>sql/exec.rs\<close>, with the plan types of \<open>sql/plan.rs\<close>): filter, then aggregate or project, then
  distinct, sort, limit, over the segments of a table scan, with the fast paths that skip the scan.
\<close>

section \<open>Plans\<close>

datatype agg_fn = AggCount | AggSum | AggMin | AggMax | AggAvg

datatype projection = PExpr expr string | PAgg agg_fn "nat option" string

record order_key =
  ok_expr :: expr
  ok_ascending :: bool

datatype outcome = OutRows "string list" "char list" "string list list" | Affected nat

fun outcome_row_count :: "outcome \<Rightarrow> nat" where
  "outcome_row_count (OutRows columns types rows) = length rows"
| "outcome_row_count (Affected n) = n"

section \<open>Filtering and projection\<close>

definition passes :: "expr option \<Rightarrow> row \<Rightarrow> bool option" where
  "passes f r = (case f of None \<Rightarrow> Some True | Some e \<Rightarrow> map_option is_true (eval e r))"

definition passes_at :: "expr option \<Rightarrow> batch \<Rightarrow> nat \<Rightarrow> bool option" where
  "passes_at f b i = (case f of None \<Rightarrow> Some True | Some e \<Rightarrow> map_option is_true (eval_at e b i))"

fun label_of :: "projection \<Rightarrow> string" where
  "label_of (PExpr _ l) = l"
| "label_of (PAgg _ _ l) = l"

fun is_plain_expr :: "projection \<Rightarrow> bool" where
  "is_plain_expr (PExpr _ _) = True"
| "is_plain_expr (PAgg _ _ _) = False"

definition column_type :: "schema \<Rightarrow> nat \<Rightarrow> data_type option" where
  "column_type s i = map_option cd_ty (nth_opt (sc_columns s) i)"

fun projection_type :: "schema \<Rightarrow> projection \<Rightarrow> data_type option" where
  "projection_type s (PExpr (EColumn i) _) = column_type s i"
| "projection_type s (PAgg AggMin (Some i) _) = column_type s i"
| "projection_type s (PAgg AggMax (Some i) _) = column_type s i"
| "projection_type s _ = Some TInt"

definition projection_types :: "projection list \<Rightarrow> schema \<Rightarrow> data_type list option" where
  "projection_types projs s = traverse (projection_type s) projs"

text \<open>The rows of the segments that pass the filter, in scan order.\<close>

fun passing :: "expr option \<Rightarrow> batch \<Rightarrow> nat list \<Rightarrow> (batch \<times> nat) list option" where
  "passing f b [] = Some []"
| "passing f b (i # is) =
     do { ok \<leftarrow> passes_at f b i; rest \<leftarrow> passing f b is; Some (if ok then (b, i) # rest else rest) }"

fun hits :: "expr option \<Rightarrow> batch list \<Rightarrow> (batch \<times> nat) list option" where
  "hits f [] = Some []"
| "hits f (b # bs) = do { xs \<leftarrow> passing f b [0..<b_len b]; ys \<leftarrow> hits f bs; Some (xs @ ys) }"

text \<open>The type of an output column is that of its first non-NULL value.\<close>

definition note_type :: "nat \<Rightarrow> value_t \<Rightarrow> char list \<Rightarrow> char list" where
  "note_type i v ts = (if nth_opt ts i = Some (CHR ''?'') then ts[i := v_type_char v] else ts)"

definition unknown_types :: "projection list \<Rightarrow> char list" where
  "unknown_types projs = replicate (length projs) (CHR ''?'')"

text \<open>One output row, from the value \<open>ev\<close> of each expression.\<close>

fun render_row :: "(expr \<Rightarrow> value_t option) \<Rightarrow> data_type list \<Rightarrow> nat \<Rightarrow> projection list \<Rightarrow> char list \<Rightarrow> (string list \<times> char list) option" where
  "render_row ev out i [] ts = Some ([], ts)"
| "render_row ev out i (PExpr e _ # ps) ts =
     do {
       v \<leftarrow> ev e;
       ty \<leftarrow> nth_opt out i;
       (cells, ts) \<leftarrow> render_row ev out (Suc i) ps (note_type i v ts);
       Some (render_as v ty # cells, ts) }"
| "render_row ev out i (PAgg _ _ _ # ps) ts = render_row ev out (Suc i) ps ts"

fun render_hits :: "projection list \<Rightarrow> data_type list \<Rightarrow> (batch \<times> nat) list \<Rightarrow> char list \<Rightarrow> (string list list \<times> char list) option" where
  "render_hits projs out [] ts = Some ([], ts)"
| "render_hits projs out ((b, i) # hs) ts =
     do {
       (r, ts) \<leftarrow> render_row (\<lambda>e. eval_at e b i) out 0 projs ts;
       (rs, ts) \<leftarrow> render_hits projs out hs ts;
       Some (r # rs, ts) }"

definition project_rows :: "projection list \<Rightarrow> data_type list \<Rightarrow> batch list \<Rightarrow> expr option \<Rightarrow> (string list \<times> char list \<times> string list list) option" where
  "project_rows projs out bs f =
     do {
       hs \<leftarrow> hits f bs;
       (rows, ts) \<leftarrow> render_hits projs out hs (unknown_types projs);
       Some (map label_of projs, ts, rows) }"

section \<open>Ordering\<close>

fun reverse_ord :: "ordering \<Rightarrow> ordering" where
  "reverse_ord Less = Greater"
| "reverse_ord Equal = Equal"
| "reverse_ord Greater = Less"

fun keys_cmp :: "order_key list \<Rightarrow> value_t list \<Rightarrow> value_t list \<Rightarrow> ordering" where
  "keys_cmp (o1 # os) (a # as) (b # bs) =
     then_cmp (if ok_ascending o1 then total_cmp a b else reverse_ord (total_cmp a b)) (keys_cmp os as bs)"
| "keys_cmp _ _ _ = Equal"

type_synonym keyed = "value_t list \<times> batch \<times> nat"

definition keyed_cmp :: "order_key list \<Rightarrow> keyed \<Rightarrow> keyed \<Rightarrow> ordering" where
  "keyed_cmp os a b = keys_cmp os (fst a) (fst b)"

definition sort_keys :: "order_key list \<Rightarrow> batch \<times> nat \<Rightarrow> keyed option" where
  "sort_keys os h = map_option (\<lambda>ks. (ks, h)) (traverse (\<lambda>o1. eval_at (ok_expr o1) (fst h) (snd h)) os)"

text \<open>
  \<open>select_nth_unstable_by\<close> puts the \<open>k\<close> smallest elements first, in an order and with a choice among equals that it leaves
  open: a parameter with that contract, for comparison functions that are total orders up to ties.
\<close>

type_synonym selector = "(keyed \<Rightarrow> keyed \<Rightarrow> ordering) \<Rightarrow> nat \<Rightarrow> keyed list \<Rightarrow> keyed list"

definition total_on :: "('a \<Rightarrow> 'a \<Rightarrow> ordering) \<Rightarrow> 'a set \<Rightarrow> bool" where
  "total_on c S \<longleftrightarrow>
     (\<forall>a \<in> S. \<forall>b \<in> S. c a b = Greater \<longleftrightarrow> c b a = Less) \<and>
     (\<forall>a \<in> S. \<forall>b \<in> S. \<forall>d \<in> S. c a b \<noteq> Greater \<longrightarrow> c b d \<noteq> Greater \<longrightarrow> c a d \<noteq> Greater)"

definition selector_ok :: "selector \<Rightarrow> bool" where
  "selector_ok sel \<longleftrightarrow>
     (\<forall>c k xs. total_on c (set xs) \<longrightarrow> k < length xs \<longrightarrow> mset (sel c k xs) = mset xs \<and>
        (\<forall>x \<in> set (take k (sel c k xs)). \<forall>y \<in> set (drop k (sel c k xs)). c x y \<noteq> Greater))"

definition top_k :: "selector \<Rightarrow> order_key list \<Rightarrow> nat option \<Rightarrow> keyed list \<Rightarrow> keyed list" where
  "top_k sel os limit xs =
     (case limit of
        Some k \<Rightarrow> if k < length xs then sort_by (keyed_cmp os) (take k (sel (keyed_cmp os) k xs)) else sort_by (keyed_cmp os) xs
      | None \<Rightarrow> sort_by (keyed_cmp os) xs)"

definition project_ordered :: "selector \<Rightarrow> projection list \<Rightarrow> data_type list \<Rightarrow> batch list \<Rightarrow> expr option \<Rightarrow> order_key list \<Rightarrow> nat option \<Rightarrow> outcome option" where
  "project_ordered sel projs out bs f os limit =
     do {
       hs \<leftarrow> hits f bs;
       ks \<leftarrow> traverse (sort_keys os) hs;
       (rows, ts) \<leftarrow> render_hits projs out (map snd (top_k sel os limit ks)) (unknown_types projs);
       Some (OutRows (map label_of projs) ts rows) }"

section \<open>Groups\<close>

datatype group_key = GkOne value_t | GkMany "value_t list"

fun gk_component :: "group_key \<Rightarrow> nat \<Rightarrow> value_t option" where
  "gk_component (GkOne v) i = (if i = 0 then Some v else None)"
| "gk_component (GkMany vs) i = nth_opt vs i"

fun gk_cmp :: "group_key \<Rightarrow> group_key \<Rightarrow> ordering" where
  "gk_cmp (GkOne a) (GkOne b) = total_cmp a b"
| "gk_cmp (GkMany as) (GkMany bs) = cmp_list total_cmp as bs"
| "gk_cmp (GkOne _) (GkMany _) = Less"
| "gk_cmp (GkMany _) (GkOne _) = Greater"

text \<open>Running aggregates.\<close>

record acc =
  ac_count :: i64
  ac_sum :: f64
  ac_int_sum :: i64
  ac_all_int :: bool
  ac_dec_sum :: i128
  ac_dec_scale :: "u32 option"
  ac_all_dec :: bool
  ac_min :: "value_t option"
  ac_max :: "value_t option"
  ac_seen_numeric :: bool

definition acc_new :: acc where
  "acc_new = \<lparr>ac_count = 0, ac_sum = f64_zero False, ac_int_sum = 0, ac_all_int = True, ac_dec_sum = 0, ac_dec_scale = None,
     ac_all_dec = True, ac_min = None, ac_max = None, ac_seen_numeric = False\<rparr>"

fun push_exact :: "value_t \<Rightarrow> acc \<Rightarrow> acc" where
  "push_exact (VInt i) a = a\<lparr>ac_int_sum := ac_int_sum a + i, ac_all_dec := False\<rparr>"
| "push_exact (VBool _) a = a\<lparr>ac_all_dec := False\<rparr>"
| "push_exact (VDecimal m s) a =
     (case ac_dec_scale a of
        None \<Rightarrow> a\<lparr>ac_all_int := False, ac_dec_scale := Some s, ac_dec_sum := m\<rparr>
      | Some scale \<Rightarrow>
          if scale = s then a\<lparr>ac_all_int := False, ac_dec_sum := ac_dec_sum a + m\<rparr>
          else a\<lparr>ac_all_int := False, ac_all_dec := False\<rparr>)"
| "push_exact _ a = a\<lparr>ac_all_int := False, ac_all_dec := False\<rparr>"

definition acc_push :: "value_t \<Rightarrow> acc \<Rightarrow> acc" where
  "acc_push v a =
     (if is_null v then a
      else
        let a = a\<lparr>ac_count := ac_count a + 1\<rparr>;
            a = (case as_f64 v of Some f \<Rightarrow> a\<lparr>ac_sum := f64_add (ac_sum a) f, ac_seen_numeric := True\<rparr> | None \<Rightarrow> a);
            a = push_exact v a;
            a = (if case ac_min a of None \<Rightarrow> True | Some m \<Rightarrow> total_cmp v m = Less then a\<lparr>ac_min := Some v\<rparr> else a)
        in if case ac_max a of None \<Rightarrow> True | Some m \<Rightarrow> total_cmp v m = Greater then a\<lparr>ac_max := Some v\<rparr> else a)"

fun acc_value :: "agg_fn \<Rightarrow> bool \<Rightarrow> i64 \<Rightarrow> acc \<Rightarrow> value_t" where
  "acc_value AggCount is_star group_rows a = VInt (if is_star then group_rows else ac_count a)"
| "acc_value AggSum is_star group_rows a =
     (if \<not> ac_seen_numeric a then VNull
      else if ac_all_int a then VInt (ac_int_sum a)
      else if ac_all_dec a then VDecimal (ac_dec_sum a) (case ac_dec_scale a of Some s \<Rightarrow> s | None \<Rightarrow> 0)
      else VFloat (ac_sum a))"
| "acc_value AggAvg is_star group_rows a =
     (if 0 < sint (ac_count a) \<and> ac_seen_numeric a then VFloat (f64_div (ac_sum a) (f64_of_int (sint (ac_count a)))) else VNull)"
| "acc_value AggMin is_star group_rows a = (case ac_min a of Some v \<Rightarrow> v | None \<Rightarrow> VNull)"
| "acc_value AggMax is_star group_rows a = (case ac_max a of Some v \<Rightarrow> v | None \<Rightarrow> VNull)"

type_synonym groups = "(group_key, i64 \<times> acc list) btree"

definition group_key_of :: "nat list \<Rightarrow> (nat \<Rightarrow> value_t option) \<Rightarrow> group_key option" where
  "group_key_of cols val =
     (case cols of
        [c] \<Rightarrow> map_option GkOne (val c)
      | _ \<Rightarrow> map_option GkMany (traverse val cols))"

text \<open>Feeding one row to the accumulators of its group, one per projection.\<close>

fun push_row :: "(nat \<Rightarrow> value_t option) \<Rightarrow> projection list \<Rightarrow> acc list \<Rightarrow> acc list option" where
  "push_row val (PAgg _ arg _ # ps) (a # as) =
     do { v \<leftarrow> (case arg of Some c \<Rightarrow> val c | None \<Rightarrow> Some (VInt 1)); as' \<leftarrow> push_row val ps as; Some (acc_push v a # as') }"
| "push_row val (PExpr _ _ # ps) (a # as) = do { as' \<leftarrow> push_row val ps as; Some (a # as') }"
| "push_row val _ as = Some as"

definition new_accs :: "projection list \<Rightarrow> acc list" where
  "new_accs projs = replicate (length projs) acc_new"

definition group_hit :: "projection list \<Rightarrow> nat list \<Rightarrow> (nat \<Rightarrow> value_t option) \<Rightarrow> groups \<Rightarrow> groups option" where
  "group_hit projs cols val gs =
     do {
       key \<leftarrow> group_key_of cols val;
       let (n, as) = (case bt_get gk_cmp key gs of Some e \<Rightarrow> e | None \<Rightarrow> (0, new_accs projs));
       as \<leftarrow> push_row val projs as;
       Some (bt_insert gk_cmp key (n + 1, as) gs) }"

fun group_hits :: "projection list \<Rightarrow> nat list \<Rightarrow> (batch \<times> nat) list \<Rightarrow> groups \<Rightarrow> groups option" where
  "group_hits projs cols [] gs = Some gs"
| "group_hits projs cols ((b, i) # hs) gs =
     do { gs \<leftarrow> group_hit projs cols (\<lambda>c. batch_value b c i) gs; group_hits projs cols hs gs }"

text \<open>The output row of a group; a plain column echoes the next component of the key.\<close>

fun render_group :: "group_key \<Rightarrow> i64 \<Rightarrow> data_type list \<Rightarrow> nat \<Rightarrow> nat \<Rightarrow> projection list \<Rightarrow> acc list \<Rightarrow> char list \<Rightarrow> (string list \<times> char list) option" where
  "render_group key n out i gi (PAgg f arg _ # ps) (a # as) ts =
     do {
       ty \<leftarrow> nth_opt out i;
       let v = acc_value f (arg = None) n a;
       (cells, ts) \<leftarrow> render_group key n out (Suc i) gi ps as (note_type i v ts);
       Some (render_as v ty # cells, ts) }"
| "render_group key n out i gi (PExpr _ _ # ps) (a # as) ts =
     do {
       ty \<leftarrow> nth_opt out i;
       (cells, ts) \<leftarrow> render_group key n out (Suc i) (Suc gi) ps as
         (case gk_component key gi of Some v \<Rightarrow> note_type i v ts | None \<Rightarrow> ts);
       Some ((case gk_component key gi of Some v \<Rightarrow> render_as v ty | None \<Rightarrow> '''') # cells, ts) }"
| "render_group key n out i gi _ _ ts = Some ([], ts)"

fun render_groups :: "projection list \<Rightarrow> data_type list \<Rightarrow> groups \<Rightarrow> char list \<Rightarrow> (string list list \<times> char list) option" where
  "render_groups projs out [] ts = Some ([], ts)"
| "render_groups projs out ((key, n, as) # gs) ts =
     do {
       (r, ts) \<leftarrow> render_group key n out 0 0 projs as ts;
       (rs, ts) \<leftarrow> render_groups projs out gs ts;
       Some (r # rs, ts) }"

text \<open>A bare aggregate over no rows still yields one row.\<close>

definition aggregate_rows :: "projection list \<Rightarrow> data_type list \<Rightarrow> nat list \<Rightarrow> batch list \<Rightarrow> expr option \<Rightarrow> (string list \<times> char list \<times> string list list) option" where
  "aggregate_rows projs out cols bs f =
     do {
       hs \<leftarrow> hits f bs;
       gs \<leftarrow> group_hits projs cols hs [];
       let gs = (if gs = [] \<and> cols = [] then [(GkMany [], 0, new_accs projs)] else gs);
       (rows, ts) \<leftarrow> render_groups projs out gs (unknown_types projs);
       Some (map label_of projs, ts, rows) }"

section \<open>Distinct\<close>

definition dedup_keys :: "projection list \<Rightarrow> batch \<times> nat \<Rightarrow> group_key list option" where
  "dedup_keys projs h =
     (case projs of
        [PExpr e _] \<Rightarrow> map_option (\<lambda>v. [GkOne v]) (eval_at e (fst h) (snd h))
      | [PAgg _ _ _] \<Rightarrow> Some []
      | _ \<Rightarrow> map_option (\<lambda>vs. [GkMany (concat vs)])
          (traverse (\<lambda>p. case p of PExpr e _ \<Rightarrow> map_option (\<lambda>v. [v]) (eval_at e (fst h) (snd h)) | PAgg _ _ _ \<Rightarrow> Some []) projs))"

fun insert_keys :: "group_key list \<Rightarrow> (group_key, unit) btree \<Rightarrow> (group_key, unit) btree" where
  "insert_keys [] m = m"
| "insert_keys (k # ks) m = insert_keys ks (bt_insert gk_cmp k () m)"

fun render_key :: "group_key \<Rightarrow> data_type list \<Rightarrow> nat \<Rightarrow> projection list \<Rightarrow> char list \<Rightarrow> (string list \<times> char list) option" where
  "render_key key out i [] ts = Some ([], ts)"
| "render_key key out i (p # ps) ts =
     (case gk_component key i of
        None \<Rightarrow> render_key key out (Suc i) ps ts
      | Some v \<Rightarrow> do {
          ty \<leftarrow> nth_opt out i;
          (cells, ts) \<leftarrow> render_key key out (Suc i) ps (note_type i v ts);
          Some (render_as v ty # cells, ts) })"

text \<open>The limit is tested after a row has been added.\<close>

fun render_keys :: "projection list \<Rightarrow> data_type list \<Rightarrow> nat option \<Rightarrow> nat \<Rightarrow> group_key list \<Rightarrow> char list \<Rightarrow> (string list list \<times> char list) option" where
  "render_keys projs out limit n [] ts = Some ([], ts)"
| "render_keys projs out limit n (k # ks) ts =
     do {
       (r, ts) \<leftarrow> render_key k out 0 projs ts;
       (rs, ts) \<leftarrow> (if case limit of Some m \<Rightarrow> m \<le> Suc n | None \<Rightarrow> False then Some ([], ts)
                   else render_keys projs out limit (Suc n) ks ts);
       Some (r # rs, ts) }"

definition project_distinct :: "projection list \<Rightarrow> data_type list \<Rightarrow> batch list \<Rightarrow> expr option \<Rightarrow> nat option \<Rightarrow> outcome option" where
  "project_distinct projs out bs f limit =
     do {
       hs \<leftarrow> hits f bs;
       ks \<leftarrow> traverse (dedup_keys projs) hs;
       (rows, ts) \<leftarrow> render_keys projs out limit 0 (map fst (insert_keys (concat ks) [])) (unknown_types projs);
       Some (OutRows (map label_of projs) ts rows) }"

text \<open>On rendered rows: \<open>retain\<close> keeps the first of equal rows; the sort compares cells as text.\<close>

fun dedup_from :: "'a list \<Rightarrow> 'a list \<Rightarrow> 'a list" where
  "dedup_from ks [] = []"
| "dedup_from ks (x # xs) = (if x \<in> set ks then dedup_from ks xs else x # dedup_from (x # ks) xs)"

definition dedup :: "string list list \<Rightarrow> string list list" where
  "dedup rows = dedup_from [] rows"

definition output_index :: "order_key \<Rightarrow> projection list \<Rightarrow> nat \<Rightarrow> nat" where
  "output_index key projs fallback =
     (case ok_expr key of
        EColumn ci \<Rightarrow> (case position (\<lambda>p. case p of PExpr (EColumn pj) _ \<Rightarrow> pj = ci | _ \<Rightarrow> False) projs of Some j \<Rightarrow> j | None \<Rightarrow> fallback)
      | _ \<Rightarrow> fallback)"

fun cells_cmp :: "projection list \<Rightarrow> nat \<Rightarrow> order_key list \<Rightarrow> string list \<Rightarrow> string list \<Rightarrow> ordering" where
  "cells_cmp projs ki [] a b = Equal"
| "cells_cmp projs ki (key # keys) a b =
     (let idx = min (output_index key projs ki) (length a - 1); ord = str_cmp (a ! idx) (b ! idx)
      in then_cmp (if ok_ascending key then ord else reverse_ord ord) (cells_cmp projs (Suc ki) keys a b))"

text \<open>Comparing a row without cells is an index panic; rows of one result have the same length.\<close>

definition sort_rows :: "order_key list \<Rightarrow> projection list \<Rightarrow> string list list \<Rightarrow> string list list option" where
  "sort_rows keys projs rows =
     (if 2 \<le> length rows \<and> [] \<in> set rows then None else Some (sort_by (cells_cmp projs 0 keys) rows))"

section \<open>Fast paths\<close>

definition is_bare_count_star :: "projection list \<Rightarrow> expr option \<Rightarrow> nat list \<Rightarrow> order_key list \<Rightarrow> bool \<Rightarrow> bool" where
  "is_bare_count_star projs f cols os dst \<longleftrightarrow>
     f = None \<and> cols = [] \<and> os = [] \<and> \<not> dst \<and>
     (case projs of [PAgg AggCount None _] \<Rightarrow> True | _ \<Rightarrow> False)"

fun is_minmax :: "projection \<Rightarrow> bool" where
  "is_minmax (PAgg AggMin (Some _) _) = True"
| "is_minmax (PAgg AggMax (Some _) _) = True"
| "is_minmax _ = False"

definition is_bare_minmax :: "projection list \<Rightarrow> expr option \<Rightarrow> nat list \<Rightarrow> bool \<Rightarrow> bool" where
  "is_bare_minmax projs f cols dst \<longleftrightarrow> f = None \<and> cols = [] \<and> \<not> dst \<and> projs \<noteq> [] \<and> list_all is_minmax projs"

definition point_lookup_key :: "expr option \<Rightarrow> nat list \<Rightarrow> bool \<Rightarrow> projection list \<Rightarrow> nat \<Rightarrow> value_t option" where
  "point_lookup_key f cols dst projs ki =
     (if cols \<noteq> [] \<or> dst \<or> \<not> list_all is_plain_expr projs then None
      else case f of
        Some (EBinary OpEq (EColumn i) (ELiteral v)) \<Rightarrow> if i = ki then Some v else None
      | Some (EBinary OpEq (ELiteral v) (EColumn i)) \<Rightarrow> if i = ki then Some v else None
      | _ \<Rightarrow> None)"

fun minmax_cells :: "arrow \<Rightarrow> snapshot \<Rightarrow> data_type list \<Rightarrow> projection list \<Rightarrow> table \<Rightarrow> (value_t list \<times> table) option" where
  "minmax_cells A snap out [] t = Some ([], t)"
| "minmax_cells A snap out (PAgg f (Some col) _ # ps) t =
     do {
       (mm, t) \<leftarrow> column_minmax A col snap t;
       (vs, t) \<leftarrow> minmax_cells A snap out ps t;
       Some ((case (f, mm) of (AggMin, Some (mn, _)) \<Rightarrow> mn | (AggMax, Some (_, mx)) \<Rightarrow> mx | _ \<Rightarrow> VNull) # vs, t) }"
| "minmax_cells A snap out _ t = None"

section \<open>SELECT\<close>

text \<open>Parts whose bounds exclude the filter are dropped; owned segments carry no bounds.\<close>

fun keeps_segment :: "expr option \<Rightarrow> segment \<Rightarrow> bool" where
  "keeps_segment (Some f) (SegPart p) = (\<not> excludes f (p_col_bounds p))"
| "keeps_segment _ _ = True"

definition limit_rows :: "nat option \<Rightarrow> 'a list \<Rightarrow> 'a list" where
  "limit_rows limit rows = (case limit of Some n \<Rightarrow> take n rows | None \<Rightarrow> rows)"

definition select_segments :: "selector \<Rightarrow> projection list \<Rightarrow> data_type list \<Rightarrow> expr option \<Rightarrow> nat list \<Rightarrow> order_key list \<Rightarrow> nat option \<Rightarrow> bool \<Rightarrow> batch list \<Rightarrow> outcome option" where
  "select_segments sel projs out f cols os limit dst bs =
     (let non_grouped = (cols = [] \<and> list_all is_plain_expr projs)
      in if non_grouped \<and> os \<noteq> [] \<and> \<not> dst then project_ordered sel projs out bs f os limit
         else if non_grouped \<and> dst \<and> os = [] then project_distinct projs out bs f limit
         else do {
           (labels, ts, rows) \<leftarrow> (if non_grouped then project_rows projs out bs f else aggregate_rows projs out cols bs f);
           let rows = (if dst then dedup rows else rows);
           rows \<leftarrow> (if os \<noteq> [] then sort_rows os projs rows else Some rows);
           Some (OutRows labels ts (limit_rows limit rows)) })"

definition select_point :: "projection list \<Rightarrow> data_type list \<Rightarrow> value_t \<Rightarrow> snapshot \<Rightarrow> table \<Rightarrow> (outcome \<times> table) option" where
  "select_point projs out key snap t =
     do {
       (found, t) \<leftarrow> tb_get key snap t;
       (rows, ts) \<leftarrow> (case found of
           None \<Rightarrow> Some ([], unknown_types projs)
         | Some r \<Rightarrow> do { (cells, ts) \<leftarrow> render_row (\<lambda>e. eval e r) out 0 projs (unknown_types projs); Some ([cells], ts) });
       Some (OutRows (map label_of projs) ts rows, t) }"

text \<open>The body of a SELECT, once the table and the pinned snapshot are at hand.\<close>

definition select_table :: "arrow \<Rightarrow> selector \<Rightarrow> projection list \<Rightarrow> expr option \<Rightarrow> nat list \<Rightarrow> order_key list \<Rightarrow> nat option \<Rightarrow> bool \<Rightarrow> snapshot \<Rightarrow> table \<Rightarrow> (outcome \<times> table) option" where
  "select_table A sel projs f cols os limit dst snap t =
     do {
       out \<leftarrow> projection_types projs (tb_schema t);
       if is_bare_count_star projs f cols os dst
       then do { n \<leftarrow> tb_row_count snap t; Some (OutRows [label_of (hd projs)] [CHR ''I''] [[int_to_string (int n)]], t) }
       else if is_bare_minmax projs f cols dst
       then do {
         (vs, t) \<leftarrow> minmax_cells A snap out projs t;
         Some (OutRows (map label_of projs) (map v_type_char vs) [map2 render_as vs out], t) }
       else case point_lookup_key f cols dst projs (sc_key_index (tb_schema t)) of
         Some key \<Rightarrow> select_point projs out key snap t
       | None \<Rightarrow> do {
           (segs, t) \<leftarrow> scan_segments A snap t;
           o1 \<leftarrow> select_segments sel projs out f cols os limit dst (map seg_batch (filter (keeps_segment f) segs));
           Some (o1, t) } }"

end
