(* ===== verification/Ck_Backend.thy ===== *)
theory Ck_Backend
  imports Ck_Exec Ck_Storage
begin

text \<open>
  The catalog interface of the SQL layer (\<open>sql/backend.rs\<close>) as a record of operations on a state, with its two instances, and the
  execution of statements over it (\<open>sql/exec.rs\<close>).  A handle to a table is its name: reading through it fetches the table and puts it back with its counters.
\<close>

section \<open>The interface\<close>

record 's backend =
  be_create_table :: "string \<Rightarrow> schema \<Rightarrow> 's \<Rightarrow> ((error + unit) \<times> 's) option"
  be_drop_table :: "string \<Rightarrow> 's \<Rightarrow> ((error + unit) \<times> 's) option"
  be_truncate :: "string \<Rightarrow> 's \<Rightarrow> ((error + unit) \<times> 's) option"
  be_table :: "string \<Rightarrow> 's \<Rightarrow> ((error + table) \<times> 's) option"
  be_table_names :: "'s \<Rightarrow> (string list \<times> 's) option"
  be_put :: "string \<Rightarrow> table \<Rightarrow> 's \<Rightarrow> 's"
  be_snapshot :: "'s \<Rightarrow> snapshot"
  be_pin :: "'s \<Rightarrow> (csn \<times> 's) option"
  be_unpin :: "csn \<Rightarrow> 's \<Rightarrow> 's"
  be_insert :: "string \<Rightarrow> row \<Rightarrow> 's \<Rightarrow> ((error + csn) \<times> 's) option"
  be_upsert :: "string \<Rightarrow> row \<Rightarrow> 's \<Rightarrow> ((error + csn) \<times> 's) option"
  be_update :: "string \<Rightarrow> row \<Rightarrow> 's \<Rightarrow> ((error + csn) \<times> 's) option"
  be_delete :: "string \<Rightarrow> value_t \<Rightarrow> 's \<Rightarrow> ((error + csn) \<times> 's) option"
  be_bulk_insert :: "string \<Rightarrow> row list \<Rightarrow> 's \<Rightarrow> ((error + nat) \<times> 's) option"
  be_commit_batch :: "txn_write list \<Rightarrow> 's \<Rightarrow> ((error + unit) \<times> 's) option"

text \<open>The default methods of the trait: row by row, and write by write with failed deletes skipped.\<close>

fun insert_each :: "(string \<Rightarrow> row \<Rightarrow> 's \<Rightarrow> ((error + csn) \<times> 's) option) \<Rightarrow> string \<Rightarrow> row list \<Rightarrow> 's \<Rightarrow> ((error + unit) \<times> 's) option" where
  "insert_each ins table [] s = Some (Inr (), s)"
| "insert_each ins table (r # rs) s =
     do { (res, s) \<leftarrow> ins table r s; (case res of Inl e \<Rightarrow> Some (Inl e, s) | Inr _ \<Rightarrow> insert_each ins table rs s) }"

definition default_bulk_insert :: "(string \<Rightarrow> row \<Rightarrow> 's \<Rightarrow> ((error + csn) \<times> 's) option) \<Rightarrow> string \<Rightarrow> row list \<Rightarrow> 's \<Rightarrow> ((error + nat) \<times> 's) option" where
  "default_bulk_insert ins table rows s = map_option (map_prod (map_sum id (\<lambda>_. length rows)) id) (insert_each ins table rows s)"

fun default_commit_batch :: "(string \<Rightarrow> row \<Rightarrow> 's \<Rightarrow> ((error + csn) \<times> 's) option) \<Rightarrow>
    (string \<Rightarrow> value_t \<Rightarrow> 's \<Rightarrow> ((error + csn) \<times> 's) option) \<Rightarrow> txn_write list \<Rightarrow> 's \<Rightarrow> ((error + unit) \<times> 's) option" where
  "default_commit_batch ups del [] s = Some (Inr (), s)"
| "default_commit_batch ups del (TxnPut table row # ws) s =
     do { (res, s) \<leftarrow> ups table row s; (case res of Inl e \<Rightarrow> Some (Inl e, s) | Inr _ \<Rightarrow> default_commit_batch ups del ws s) }"
| "default_commit_batch ups del (TxnDelete table key # ws) s =
     do { (res, s) \<leftarrow> del table key s; default_commit_batch ups del ws s }"

section \<open>The in-memory catalog\<close>

definition on_table :: "string \<Rightarrow> (table \<Rightarrow> ((error + 'a) \<times> table) option) \<Rightarrow> database \<Rightarrow> ((error + 'a) \<times> database) option" where
  "on_table name f db =
     (case db_table name db of
        Inl e \<Rightarrow> Some (Inl e, db)
      | Inr t \<Rightarrow> do { (res, t) \<leftarrow> f t; Some (res, db_store name t db) })"

definition database_backend :: "arrow \<Rightarrow> database backend" where
  "database_backend A =
     \<lparr>be_create_table = (\<lambda>name s db. Some (map_prod (map_sum id (\<lambda>_. ())) id (create_table_schema name s db))),
      be_drop_table = (\<lambda>name db. Some (db_drop_table name db)),
      be_truncate = (\<lambda>name db. Some (db_truncate name db)),
      be_table = (\<lambda>name db. Some (db_table name db, db)),
      be_table_names = (\<lambda>db. Some (table_names db, db)),
      be_put = db_store,
      be_snapshot = db_snapshot,
      be_pin = (\<lambda>db. Some (db_pin db)),
      be_unpin = db_release,
      be_insert = (\<lambda>name row. on_table name (tb_insert A row)),
      be_upsert = (\<lambda>name row. on_table name (tb_upsert A row)),
      be_update = (\<lambda>name row. on_table name (tb_update A row)),
      be_delete = (\<lambda>name key. on_table name (tb_delete key)),
      be_bulk_insert = (\<lambda>name rows. on_table name (\<lambda>t. map_option (map_prod (\<lambda>_. Inr (length rows)) id) (bulk_load A rows t))),
      be_commit_batch = default_commit_batch (\<lambda>name row. on_table name (tb_upsert A row)) (\<lambda>name key. on_table name (tb_delete key))\<rparr>"

section \<open>The durable catalog\<close>

definition storage_table :: "arrow \<Rightarrow> ipc \<Rightarrow> (part \<Rightarrow> u64) \<Rightarrow> string \<Rightarrow> storage \<Rightarrow> ((error + table) \<times> storage) option" where
  "storage_table A I mem name s = do { s \<leftarrow> warm A I mem s; Some (db_table name (st_db s), s) }"

definition storage_pin :: "arrow \<Rightarrow> ipc \<Rightarrow> (part \<Rightarrow> u64) \<Rightarrow> storage \<Rightarrow> (csn \<times> storage) option" where
  "storage_pin A I mem s = do { s \<leftarrow> warm A I mem s; let (c, db) = db_pin (st_db s); Some (c, s\<lparr>st_db := db\<rparr>) }"

definition storage_backend :: "arrow \<Rightarrow> ipc \<Rightarrow> (part \<Rightarrow> u64) \<Rightarrow> storage backend" where
  "storage_backend A I mem =
     \<lparr>be_create_table = (\<lambda>name sch s. Some (st_create_table_schema name sch s)),
      be_drop_table = st_drop_table A I mem,
      be_truncate = st_truncate A I mem,
      be_table = storage_table A I mem,
      be_table_names = (\<lambda>s. map_option (\<lambda>s. (table_names (st_db s), s)) (warm A I mem s)),
      be_put = st_put_table,
      be_snapshot = (\<lambda>s. db_snapshot (st_db s)),
      be_pin = storage_pin A I mem,
      be_unpin = (\<lambda>c s. s\<lparr>st_db := db_release c (st_db s)\<rparr>),
      be_insert = st_insert A I mem,
      be_upsert = st_upsert A I mem,
      be_update = st_update A I mem,
      be_delete = st_delete A I mem,
      be_bulk_insert = (\<lambda>name rows s. map_option (map_prod (map_sum id (\<lambda>_. length rows)) id) (load_batch A I mem name rows s)),
      be_commit_batch = (\<lambda>ws s. map_option (map_prod (map_sum id (\<lambda>_. ())) id) (commit_transaction A I mem ws s))\<rparr>"

section \<open>Statements\<close>

datatype plan =
    CreateTable string schema
  | PInsert string "row list"
  | PDelete string "expr option"
  | PUpdate string "(nat \<times> expr) list" "expr option"
  | PSelect string "projection list" "expr option" "nat list" "order_key list" "nat option" bool
  | DropTable string
  | Truncate string

text \<open>Reading a table through its handle.\<close>

definition read_table :: "'s backend \<Rightarrow> string \<Rightarrow> (table \<Rightarrow> ('a \<times> table) option) \<Rightarrow> 's \<Rightarrow> ('a \<times> 's) option" where
  "read_table be name f s =
     do {
       (r, s) \<leftarrow> be_table be name s;
       (case r of Inl _ \<Rightarrow> None | Inr t \<Rightarrow> do { (x, t) \<leftarrow> f t; Some (x, be_put be name t s) }) }"

fun filter_rows :: "expr option \<Rightarrow> row list \<Rightarrow> row list option" where
  "filter_rows f [] = Some []"
| "filter_rows f (r # rs) = do { ok \<leftarrow> passes f r; rest \<leftarrow> filter_rows f rs; Some (if ok then r # rest else rest) }"

definition scan_rows :: "arrow \<Rightarrow> snapshot \<Rightarrow> table \<Rightarrow> (row list \<times> table) option" where
  "scan_rows A snap t = do { (b, t) \<leftarrow> tb_scan A snap t; rs \<leftarrow> b_iter b; Some (rs, t) }"

definition exec_insert :: "'s backend \<Rightarrow> string \<Rightarrow> row list \<Rightarrow> 's \<Rightarrow> ((error + outcome) \<times> 's) option" where
  "exec_insert be table rows s =
     map_option (map_prod (map_sum id (\<lambda>_. Affected (length rows))) id) (insert_each (be_insert be) table rows s)"

fun delete_each :: "'s backend \<Rightarrow> string \<Rightarrow> value_t list \<Rightarrow> 's \<Rightarrow> (nat \<times> 's) option" where
  "delete_each be table [] s = Some (0, s)"
| "delete_each be table (k # ks) s =
     do {
       (r, s) \<leftarrow> be_delete be table k s;
       (n, s) \<leftarrow> delete_each be table ks s;
       Some (case r of Inl _ \<Rightarrow> n | Inr _ \<Rightarrow> Suc n, s) }"

definition exec_delete :: "arrow \<Rightarrow> 's backend \<Rightarrow> string \<Rightarrow> expr option \<Rightarrow> 's \<Rightarrow> ((error + outcome) \<times> 's) option" where
  "exec_delete A be table f s =
     do {
       (r, s) \<leftarrow> be_table be table s;
       (case r of
          Inl e \<Rightarrow> Some (Inl e, s)
        | Inr t \<Rightarrow> do {
            (snap, s) \<leftarrow> be_pin be s;
            (rows, s) \<leftarrow> read_table be table (scan_rows A snap) s;
            hit \<leftarrow> filter_rows f rows;
            victims \<leftarrow> traverse (row_key (sc_key_index (tb_schema t))) hit;
            (n, s) \<leftarrow> delete_each be table victims s;
            Some (Inr (Affected n), be_unpin be snap s) }) }"

text \<open>A constraint check fails on a definite FALSE only.\<close>

fun enforce_checks :: "(string \<times> expr) list \<Rightarrow> row \<Rightarrow> (error + unit) option" where
  "enforce_checks [] r = Some (Inr ())"
| "enforce_checks ((txt, e) # cs) r =
     do { v \<leftarrow> eval e r; if is_false v then Some (Inl (ConstraintViolation (MText (''CHECK ('' @ txt @ '') failed'')))) else enforce_checks cs r }"

definition enforce_constraints :: "schema \<Rightarrow> (string \<times> expr) list \<Rightarrow> row \<Rightarrow> (error + unit) option" where
  "enforce_constraints s checks r =
     (case check_not_null s r of
        Inl e \<Rightarrow> Some (Inl e)
      | Inr _ \<Rightarrow> (case check_lengths s r of Inl e \<Rightarrow> Some (Inl e) | Inr _ \<Rightarrow> enforce_checks checks r))"

text \<open>The assignments see the columns that earlier ones have set.\<close>

fun apply_sets :: "schema \<Rightarrow> (nat \<times> expr) list \<Rightarrow> row \<Rightarrow> row option" where
  "apply_sets s [] r = Some r"
| "apply_sets s ((i, e) # sets) r =
     do {
       v \<leftarrow> eval e r;
       ty \<leftarrow> column_type s i;
       if i < length r then apply_sets s sets (r[i := (case coerce v ty of Some w \<Rightarrow> w | None \<Rightarrow> VNull)]) else None }"

fun compute_updates :: "schema \<Rightarrow> (string \<times> expr) list \<Rightarrow> (nat \<times> expr) list \<Rightarrow> row list \<Rightarrow> (error + row list) option" where
  "compute_updates s checks sets [] = Some (Inr [])"
| "compute_updates s checks sets (r # rs) =
     do {
       r' \<leftarrow> apply_sets s sets r;
       c \<leftarrow> enforce_constraints s checks r';
       (case c of
          Inl e \<Rightarrow> Some (Inl e)
        | Inr _ \<Rightarrow> do {
            rest \<leftarrow> compute_updates s checks sets rs;
            Some (case rest of Inl e \<Rightarrow> Inl e | Inr us \<Rightarrow> Inr (r' # us)) }) }"

fun update_each :: "'s backend \<Rightarrow> string \<Rightarrow> row list \<Rightarrow> 's \<Rightarrow> (nat \<times> 's) option" where
  "update_each be table [] s = Some (0, s)"
| "update_each be table (r # rs) s =
     do {
       (res, s) \<leftarrow> be_update be table r s;
       (n, s) \<leftarrow> update_each be table rs s;
       Some (case res of Inl _ \<Rightarrow> n | Inr _ \<Rightarrow> Suc n, s) }"

text \<open>
  \<open>planned_checks\<close> parses the CHECK clauses with the external SQL parser: the parameter \<open>pc\<close>.  All rows are computed and checked before the first is written.
\<close>

type_synonym check_planner = "schema \<Rightarrow> string + (string \<times> expr) list"

definition exec_update :: "arrow \<Rightarrow> check_planner \<Rightarrow> 's backend \<Rightarrow> string \<Rightarrow> (nat \<times> expr) list \<Rightarrow> expr option \<Rightarrow> 's \<Rightarrow> ((error + outcome) \<times> 's) option" where
  "exec_update A pc be table sets f s =
     do {
       (r, s) \<leftarrow> be_table be table s;
       (case r of
          Inl e \<Rightarrow> Some (Inl e, s)
        | Inr t \<Rightarrow> do {
            (snap, s) \<leftarrow> be_pin be s;
            (case pc (tb_schema t) of
               Inl m \<Rightarrow> Some (Inl (Sql (MText m)), be_unpin be snap s)
             | Inr checks \<Rightarrow> do {
                 (rows, s) \<leftarrow> read_table be table (scan_rows A snap) s;
                 targets \<leftarrow> filter_rows f rows;
                 us \<leftarrow> compute_updates (tb_schema t) checks sets targets;
                 (case us of
                    Inl e \<Rightarrow> Some (Inl e, be_unpin be snap s)
                  | Inr rs \<Rightarrow> do {
                      (n, s) \<leftarrow> update_each be table rs s;
                      Some (Inr (Affected n), be_unpin be snap s) }) }) }) }"

definition exec_select :: "arrow \<Rightarrow> selector \<Rightarrow> 's backend \<Rightarrow> string \<Rightarrow> projection list \<Rightarrow> expr option \<Rightarrow> nat list \<Rightarrow> order_key list \<Rightarrow> nat option \<Rightarrow> bool \<Rightarrow> 's \<Rightarrow>
    ((error + outcome) \<times> 's) option" where
  "exec_select A sel be table projs f cols os limit dst s =
     do {
       (r, s) \<leftarrow> be_table be table s;
       (case r of
          Inl e \<Rightarrow> Some (Inl e, s)
        | Inr _ \<Rightarrow> do {
            (snap, s) \<leftarrow> be_pin be s;
            (o1, s) \<leftarrow> read_table be table (select_table A sel projs f cols os limit dst snap) s;
            Some (Inr o1, be_unpin be snap s) }) }"

fun execute :: "arrow \<Rightarrow> selector \<Rightarrow> check_planner \<Rightarrow> 's backend \<Rightarrow> plan \<Rightarrow> 's \<Rightarrow> ((error + outcome) \<times> 's) option" where
  "execute A sel pc be (CreateTable name sch) s = map_option (map_prod (map_sum id (\<lambda>_. Affected 0)) id) (be_create_table be name sch s)"
| "execute A sel pc be (PInsert table rows) s = exec_insert be table rows s"
| "execute A sel pc be (PDelete table f) s = exec_delete A be table f s"
| "execute A sel pc be (PUpdate table sets f) s = exec_update A pc be table sets f s"
| "execute A sel pc be (PSelect table projs f cols os limit dst) s = exec_select A sel be table projs f cols os limit dst s"
| "execute A sel pc be (DropTable name) s = map_option (map_prod (map_sum id (\<lambda>_. Affected 0)) id) (be_drop_table be name s)"
| "execute A sel pc be (Truncate name) s = map_option (map_prod (map_sum id (\<lambda>_. Affected 0)) id) (be_truncate be name s)"

end
