(* ===== verification/Ck_Zones.thy ===== *)
theory Ck_Zones
  imports Ck_Database Ck_Expr
begin

text \<open>
  Zone maps: the bounds a part stores for each column (\<open>column_bounds\<close> in \<open>batch.rs\<close>, \<open>Part::new\<close> in \<open>part.rs\<close>) are exact, every
  operation of a table keeps them so, and \<open>column_minmax\<close> (\<open>table.rs\<close>), which combines them, is the minimum and maximum of the visible values.
\<close>

section \<open>The kernels\<close>

text \<open>
  Arrow's \<open>min\<close> and \<open>max\<close> return an extreme of the values that are not NULL, in the order of the type; for floats that is the total order.
\<close>

definition extreme_ok :: "('a option list \<Rightarrow> 'a option) \<Rightarrow> ('a \<Rightarrow> 'a \<Rightarrow> bool) \<Rightarrow> bool" where
  "extreme_ok f ahead \<longleftrightarrow>
     (\<forall>xs. case f xs of None \<Rightarrow> \<forall>x \<in> set xs. x = None | Some m \<Rightarrow> Some m \<in> set xs \<and> (\<forall>v. Some v \<in> set xs \<longrightarrow> ahead m v))"

definition arrow_minmax_ok :: "arrow \<Rightarrow> bool" where
  "arrow_minmax_ok A \<longleftrightarrow>
     extreme_ok (ar_min_i64 A) (\<lambda>a b. sint a \<le> sint b) \<and> extreme_ok (ar_max_i64 A) (\<lambda>a b. sint b \<le> sint a) \<and>
     extreme_ok (ar_min_i32 A) (\<lambda>a b. sint a \<le> sint b) \<and> extreme_ok (ar_max_i32 A) (\<lambda>a b. sint b \<le> sint a) \<and>
     extreme_ok (ar_min_f64 A) (\<lambda>a b. f64_total_cmp a b \<noteq> Greater) \<and> extreme_ok (ar_max_f64 A) (\<lambda>a b. f64_total_cmp b a \<noteq> Greater) \<and>
     extreme_ok (ar_min_str A) (\<lambda>a b. str_cmp a b \<noteq> Greater) \<and> extreme_ok (ar_max_str A) (\<lambda>a b. str_cmp b a \<noteq> Greater) \<and>
     extreme_ok (ar_min_bool A) (\<le>) \<and> extreme_ok (ar_max_bool A) (\<lambda>a b. b \<le> a)"

text \<open>A running extreme is an extreme.\<close>

definition running :: "('a \<Rightarrow> 'a \<Rightarrow> bool) \<Rightarrow> 'a option \<Rightarrow> 'a option \<Rightarrow> 'a option" where
  "running better acc x = (case x of None \<Rightarrow> acc
     | Some v \<Rightarrow> Some (case acc of None \<Rightarrow> v | Some m \<Rightarrow> if better v m then v else m))"

lemma running_simps [simp]:
  "running better acc None = acc" "running better None (Some v) = Some v"
  "running better (Some m) (Some v) = Some (if better v m then v else m)"
  by (simp_all add: running_def)

lemma running_extreme:
  assumes better: "\<And>a b. better a b \<Longrightarrow> ahead a b" "\<And>a b. \<not> better a b \<Longrightarrow> ahead b a"
    and refl: "\<And>a. ahead a a" and trans: "\<And>a b c. ahead a b \<Longrightarrow> ahead b c \<Longrightarrow> ahead a c"
    and f: "\<And>xs. f xs = foldl (running better) None xs"
  shows "extreme_ok f ahead"
proof -
  have "case foldl (running better) None xs of None \<Rightarrow> \<forall>x \<in> set xs. x = None
      | Some m \<Rightarrow> Some m \<in> set xs \<and> (\<forall>v. Some v \<in> set xs \<longrightarrow> ahead m v)" for xs
  proof (induction xs rule: rev_induct)
    case (snoc x xs)
    show ?case
    proof (cases x)
      case None
      then show ?thesis using snoc by (auto split: option.splits)
    next
      case (Some v)
      show ?thesis
      proof (cases "foldl (running better) None xs")
        case None
        then show ?thesis using snoc Some refl by auto
      next
        case m: (Some m)
        then have "Some m \<in> set xs" "\<And>w. Some w \<in> set xs \<Longrightarrow> ahead m w" using snoc by auto
        then show ?thesis using Some m better refl trans by auto (metis trans)+
      qed
    qed
  qed simp
  then show ?thesis by (simp add: extreme_ok_def f)
qed

lemma dec_min_extreme: "extreme_ok dec_min (\<lambda>a b. sint a \<le> sint b)"
  by (rule running_extreme [where better = "\<lambda>a b. sint a < sint b"])
    (auto simp: dec_min_def foldl_conv_fold running_def [abs_def] intro!: fold_cong fun_cong [of "fold _ _"] split: option.splits)

lemma dec_max_extreme: "extreme_ok dec_max (\<lambda>a b. sint b \<le> sint a)"
  by (rule running_extreme [where better = "\<lambda>a b. sint b \<le> sint a"])
    (auto simp: dec_max_def foldl_conv_fold running_def [abs_def] intro!: fold_cong fun_cong [of "fold _ _"] split: option.splits)

lemma opt_extreme_running: "opt_extreme better xs = foldl (running better) None xs"
  unfolding opt_extreme_def foldl_conv_fold
  by (intro fun_cong [of "fold _ _"] fold_cong) (auto simp: running_def split: option.splits)

lemma arrow_minmax_ref: "arrow_minmax_ok ref_arrow"
proof -
  note run = running_extreme [OF _ _ _ _ opt_extreme_running]
  have f: "f64_total_cmp a b \<noteq> Greater \<longleftrightarrow> f64_total_key a \<le> f64_total_key b" "f64_total_cmp a b = Less \<longleftrightarrow> f64_total_key a < f64_total_key b" for a b
    by (auto simp: f64_total_cmp_def cmp_of_def)
  have s: "str_cmp a b = Less \<Longrightarrow> str_cmp a b \<noteq> Greater" "str_cmp a b \<noteq> Less \<Longrightarrow> str_cmp b a \<noteq> Greater"
    "str_cmp a a \<noteq> Greater" "str_cmp a b \<noteq> Greater \<Longrightarrow> str_cmp b c \<noteq> Greater \<Longrightarrow> str_cmp a c \<noteq> Greater" for a b c
    using sk.cmp_swap [of a b] sk.le_refl [of a] sk.le_trans [of a b c] by (auto simp: sk.le_def simp del: str_cmp_simps)
  show ?thesis
    unfolding arrow_minmax_ok_def ref_arrow_def
    by (simp only: arrow.simps, intro conjI; rule run; (use f s in \<open>auto simp del: str_cmp_simps\<close>)?)
qed

section \<open>Exact bounds\<close>

text \<open>The bounds of the values that are not NULL; none when there is no such value.\<close>

definition bounds_exact :: "value_t set \<Rightarrow> (value_t \<times> value_t) option \<Rightarrow> bool" where
  "bounds_exact V bd \<longleftrightarrow>
     (case bd of None \<Rightarrow> V \<subseteq> {VNull}
      | Some (lo, hi) \<Rightarrow> lo \<in> V - {VNull} \<and> hi \<in> V - {VNull} \<and> (\<forall>v \<in> V - {VNull}. vo.le lo v \<and> vo.le v hi))"

lemma both_exact:
  assumes mn: "extreme_ok mn ahead" and mx: "extreme_ok mx (\<lambda>a b. ahead b a)"
    and le: "\<And>a b. ahead a b \<Longrightarrow> vo.le (con a) (con b)" and con: "\<And>a. con a \<noteq> VNull"
  shows "bounds_exact (case_option VNull con ` set xs) (both con (mn xs) (mx xs))"
proof -
  have a: "case mn xs of None \<Rightarrow> \<forall>x \<in> set xs. x = None | Some m \<Rightarrow> Some m \<in> set xs \<and> (\<forall>v. Some v \<in> set xs \<longrightarrow> ahead m v)"
    using mn by (simp add: extreme_ok_def)
  have z: "case mx xs of None \<Rightarrow> \<forall>x \<in> set xs. x = None | Some m \<Rightarrow> Some m \<in> set xs \<and> (\<forall>v. Some v \<in> set xs \<longrightarrow> ahead v m)"
    using mx by (simp add: extreme_ok_def)
  show ?thesis
  proof (cases "mn xs")
    case None
    then have "\<forall>x \<in> set xs. x = None" using a by simp
    then show ?thesis using None by (auto simp: both_def bounds_exact_def)
  next
    case (Some lo)
    then have lo: "Some lo \<in> set xs" "\<And>v. Some v \<in> set xs \<Longrightarrow> ahead lo v" using a by auto
    obtain hi where hi: "mx xs = Some hi" "Some hi \<in> set xs" "\<And>v. Some v \<in> set xs \<Longrightarrow> ahead v hi"
      using z lo(1) by (cases "mx xs") auto
    have m: "con w \<in> case_option VNull con ` set xs" if "Some w \<in> set xs" for w
      using that by (intro image_eqI [of _ _ "Some w"]) simp_all
    have "vo.le (con lo) v \<and> vo.le v (con hi)" if "v \<in> case_option VNull con ` set xs - {VNull}" for v
      using that lo(2) hi(3) le by (auto split: option.splits)
    then show ?thesis using Some hi(1) m [OF lo(1)] m [OF hi(2)] con by (simp add: both_def bounds_exact_def)
  qed
qed

lemma total_le_simps:
  "vo.le (VInt a) (VInt b) \<longleftrightarrow> sint a \<le> sint b" "vo.le (VBool x) (VBool y) \<longleftrightarrow> x \<le> y"
  "vo.le (VFloat u) (VFloat w) \<longleftrightarrow> f64_total_cmp u w \<noteq> Greater" "vo.le (VText p) (VText q) \<longleftrightarrow> str_cmp p q \<noteq> Greater"
  "vo.le (VDecimal m s) (VDecimal n s) \<longleftrightarrow> sint m \<le> sint n"
  by (auto simp: vo.le_def)

lemma array_bounds_exact:
  assumes A: "arrow_minmax_ok A" and ty: "arr_type arr = arrow_type ty"
  shows "bounds_exact ((\<lambda>i. the (array_value arr ty i)) ` {0..<arr_len arr}) (array_bounds A ty arr)"
proof -
  note K = A [unfolded arrow_minmax_ok_def]
  have im: "(\<lambda>i. the (map_option g (nth_opt xs i))) ` {0..<length xs} = g ` set xs" for g :: "'c option \<Rightarrow> value_t" and xs
  proof -
    have "(\<lambda>i. the (map_option g (nth_opt xs i))) ` {0..<length xs} = (\<lambda>i. g (xs ! i)) ` {0..<length xs}"
      by (rule image_cong) auto
    also have "\<dots> = g ` set xs" by (force simp: in_set_conv_nth)
    finally show ?thesis .
  qed
  show ?thesis
  proof (cases ty)
    case TInt
    then obtain xs where "arr = AInt64 xs" using ty by (cases arr) auto
    then show ?thesis using TInt K im [of "case_option VNull VInt" xs]
      by (simp, intro both_exact [where ahead = "\<lambda>a b. sint a \<le> sint b"]) (auto simp: total_le_simps)
  next
    case TFloat
    then obtain xs where "arr = AFloat64 xs" using ty by (cases arr) auto
    then show ?thesis using TFloat K im [of "case_option VNull VFloat" xs]
      by (simp, intro both_exact [where ahead = "\<lambda>a b. f64_total_cmp a b \<noteq> Greater"]) (auto simp: total_le_simps)
  next
    case TText
    then obtain xs where "arr = AUtf8 xs" using ty by (cases arr) auto
    then show ?thesis using TText K im [of "case_option VNull VText" xs]
      by (simp, intro both_exact [where ahead = "\<lambda>a b. str_cmp a b \<noteq> Greater"]) (auto simp: total_le_simps)
  next
    case TBool
    then obtain xs where "arr = ABoolean xs" using ty by (cases arr) auto
    then show ?thesis using TBool K im [of "case_option VNull VBool" xs]
      by (simp, intro both_exact [where ahead = "(\<le>)"]) (auto simp: total_le_simps)
  next
    case TDate
    then obtain xs where "arr = ADate32 xs" using ty by (cases arr) auto
    then show ?thesis using TDate K im [of "case_option VNull (\<lambda>d. VInt (scast d))" xs]
      by (simp, intro both_exact [where ahead = "\<lambda>a b. sint a \<le> sint b"]) (auto simp: total_le_simps sint_scast_i32)
  next
    case TTimestamp
    then obtain xs where "arr = ATimestamp xs" using ty by (cases arr) auto
    then show ?thesis using TTimestamp K im [of "case_option VNull VInt" xs]
      by (simp, intro both_exact [where ahead = "\<lambda>a b. sint a \<le> sint b"]) (auto simp: total_le_simps)
  next
    case (TDecimal p sc)
    then obtain p' s' xs where "arr = ADecimal p' s' xs" using ty by (cases arr) auto
    then show ?thesis using TDecimal dec_min_extreme dec_max_extreme im [of "case_option VNull (\<lambda>m. VDecimal m (ucast sc))" xs]
      by (simp, intro both_exact [where ahead = "\<lambda>a b. sint a \<le> sint b"]) (auto simp: total_le_simps)
  qed
qed

lemma column_bounds_ok:
  assumes A: "arrow_minmax_ok A" and b: "batch_ok b" and c: "c < arity (b_schema b)"
  obtains bd where "column_bounds A b c = Some bd" "bounds_exact ((\<lambda>r. r ! c) ` set (batch_rows b)) bd"
proof -
  let ?arr = "rb_columns (b_rb b) ! c" and ?ty = "col_ty (b_schema b) c"
  have len: "c < length (rb_columns (b_rb b))" "c < length (sc_columns (b_schema b))"
    using batch_ok_cols(1) [OF b] c by (simp_all add: arity_def)
  have cb: "column_bounds A b c = Some (array_bounds A ?ty ?arr)"
    using len by (simp add: column_bounds_def col_ty_def)
  have v: "the (array_value ?arr ?ty i) = batch_row b i ! c" if "i < b_len b" for i
    using b_value_ok(1) [OF b c that] len by (simp add: b_value_def col_ty_def)
  have "(\<lambda>i. the (array_value ?arr ?ty i)) ` {0..<arr_len ?arr} = (\<lambda>r. r ! c) ` set (batch_rows b)"
    unfolding batch_ok_cols(3) [OF b c] batch_rows_def using v by (auto simp: image_image)
  then show ?thesis using array_bounds_exact [OF A batch_ok_cols(2) [OF b c]] cb that by simp
qed

text \<open>The bounds of two collections combine to those of their union.\<close>

lemma combine_exact:
  assumes V: "V \<subseteq> col_values ty" "W \<subseteq> col_values ty" and x: "bounds_exact V x" and y: "bounds_exact W y"
  shows "bounds_exact (V \<union> W) (combine_bounds x y)"
proof (cases x)
  case None
  then show ?thesis using x y by (cases y) (auto simp: bounds_exact_def)
next
  case x': (Some a)
  obtain alo ahi where a: "a = (alo, ahi)" by force
  show ?thesis
  proof (cases y)
    case None
    then show ?thesis using x y x' by (auto simp: bounds_exact_def)
  next
    case y': (Some b)
    obtain blo bhi where b: "b = (blo, bhi)" by force
    have A: "alo \<in> V - {VNull}" "ahi \<in> V - {VNull}" "\<And>v. v \<in> V - {VNull} \<Longrightarrow> vo.le alo v \<and> vo.le v ahi"
      using x by (auto simp: x' a bounds_exact_def)
    have B: "blo \<in> W - {VNull}" "bhi \<in> W - {VNull}" "\<And>v. v \<in> W - {VNull} \<Longrightarrow> vo.le blo v \<and> vo.le v bhi"
      using y by (auto simp: y' b bounds_exact_def)
    have K: "alo \<in> col_values ty" "ahi \<in> col_values ty" "blo \<in> col_values ty" "bhi \<in> col_values ty" using A(1,2) B(1,2) V by auto
    define lo where "lo = (if total_cmp blo alo = Less then blo else alo)"
    define hi where "hi = (if total_cmp bhi ahi = Greater then bhi else ahi)"
    have g: "total_cmp bhi ahi = Greater \<longleftrightarrow> vo.lt ahi bhi" using vo.cmp_swap [OF K(2,4)] by (simp add: vo.lt_def)
    have lo: "lo \<in> col_values ty" "vo.le lo alo" "vo.le lo blo"
      using K vo.le_refl [OF K(1)] vo.le_refl [OF K(3)] vo.le_iff [OF K(3,1)] vo.not_le [OF K(1,3)]
      by (auto simp: lo_def vo.lt_def)
    have hi: "hi \<in> col_values ty" "vo.le ahi hi" "vo.le bhi hi"
      using K vo.le_refl [OF K(2)] vo.le_refl [OF K(4)] vo.le_iff [OF K(2,4)] vo.not_le [OF K(4,2)]
      by (auto simp: hi_def g)
    have "vo.le lo v \<and> vo.le v hi" if v: "v \<in> V \<union> W - {VNull}" for v
    proof -
      have vk: "v \<in> col_values ty" using v V by auto
      show ?thesis
        using v A(3) B(3) vo.le_trans [OF lo(1) K(1) vk lo(2)] vo.le_trans [OF lo(1) K(3) vk lo(3)]
          vo.le_trans [OF vk K(2) hi(1) _ hi(2)] vo.le_trans [OF vk K(4) hi(1) _ hi(3)] by blast
    qed
    moreover have "combine_bounds x y = Some (lo, hi)" by (simp add: x' y' a b lo_def hi_def)
    moreover have "lo \<in> V \<union> W - {VNull}" "hi \<in> V \<union> W - {VNull}" using A(1,2) B(1,2) by (auto simp: lo_def hi_def)
    ultimately show ?thesis by (simp add: bounds_exact_def)
  qed
qed

section \<open>The stored bounds\<close>

definition part_zoned :: "arrow \<Rightarrow> part \<Rightarrow> bool" where
  "part_zoned A p \<longleftrightarrow> traverse (column_bounds A (p_batch p)) [0..<arity (p_schema p)] = Some (p_col_bounds p)"

definition zones_of :: "arrow \<Rightarrow> part list \<Rightarrow> bool" where
  "zones_of A ps \<longleftrightarrow> (\<forall>p \<in> set ps. part_zoned A p)"

definition zones :: "arrow \<Rightarrow> table \<Rightarrow> bool" where
  "zones A t \<longleftrightarrow> zones_of A (ti_parts (tb_inner t))"

lemma part_zoned_bounds:
  assumes "arrow_minmax_ok A" "part_zoned A p" "batch_ok (p_batch p)" "c < arity (p_schema p)"
  shows "nth_opt (p_col_bounds p) c = Some (part_col_bounds p c)"
    "bounds_exact ((\<lambda>r. r ! c) ` set (batch_rows (p_batch p))) (part_col_bounds p c)"
proof -
  obtain bd where bd: "column_bounds A (p_batch p) c = Some bd" "bounds_exact ((\<lambda>r. r ! c) ` set (batch_rows (p_batch p))) bd"
    by (rule column_bounds_ok [OF assms(1,3,4)])
  have "length (p_col_bounds p) = arity (p_schema p)" "p_col_bounds p ! c = bd"
    using assms(2,4) bd(1) by (auto simp: part_zoned_def traverse_eq_Some)
  then have "nth_opt (p_col_bounds p) c = Some bd" "part_col_bounds p c = bd" using assms(4) by (simp_all add: part_col_bounds_def)
  then show "nth_opt (p_col_bounds p) c = Some (part_col_bounds p c)"
    "bounds_exact ((\<lambda>r. r ! c) ` set (batch_rows (p_batch p))) (part_col_bounds p c)" using bd(2) by simp_all
qed

lemma part_zoned_rows:
  assumes "arrow_minmax_ok A" "part_zoned A p" "batch_ok (p_batch p)" "r \<in> set (batch_rows (p_batch p))"
  shows "zone_ok (p_schema p) (p_col_bounds p) r"
  unfolding zone_ok_def
proof (intro allI impI)
  fix c mn mx assume b: "nth_opt (p_col_bounds p) c = Some (Some (mn, mx))"
  have len: "length (p_col_bounds p) = arity (p_schema p)" using assms(2) by (auto simp: part_zoned_def traverse_eq_Some)
  then have c: "c < arity (p_schema p)" using b by (auto simp: nth_opt_def split: if_splits)
  have e: "bounds_exact ((\<lambda>r. r ! c) ` set (batch_rows (p_batch p))) (Some (mn, mx))"
    using part_zoned_bounds [OF assms(1-3) c] b by simp
  have k: "col_value (col_ty (p_schema p) c) (q ! c)" if "q \<in> set (batch_rows (p_batch p))" for q
    using row_ok_batch_rows [OF assms(3) that] c by (simp add: row_ok_def)
  show "c < arity (p_schema p) \<and> col_value (col_ty (p_schema p) c) mn \<and> col_value (col_ty (p_schema p) c) mx \<and>
      (r ! c = VNull \<or> total_cmp mn (r ! c) \<noteq> Greater \<and> total_cmp (r ! c) mx \<noteq> Greater)"
    using c e k assms(4) by (auto simp: bounds_exact_def vo.le_def)
qed

section \<open>Every operation keeps the bounds exact\<close>

lemma part_zoned_cong: "p_batch q = p_batch p \<Longrightarrow> p_col_bounds q = p_col_bounds p \<Longrightarrow> part_zoned A q = part_zoned A p"
  by (simp add: part_zoned_def)

lemma part_zoned_new: "part_new A pid b created = Some p \<Longrightarrow> part_zoned A p"
  by (auto simp: part_new_def part_zoned_def split: bind_splits if_splits)

lemma part_zoned_deletions: "with_deletions A pid b created ds = Some p \<Longrightarrow> part_zoned A p"
  using part_zoned_new by (fastforce simp: with_deletions_def part_zoned_def split: bind_splits)

lemma part_zoned_mark: "part_zoned A (snd (part_mark_deleted ord c p)) = part_zoned A p"
  by (auto simp: part_mark_deleted_def part_zoned_def split: prod.splits)

lemma part_zoned_collapse: "part_zoned A (collapse_versions h p) = part_zoned A p"
  by (simp add: collapse_versions_def part_zoned_def)

lemma zones_of_simps [simp]: "zones_of A []" "zones_of A (p # ps) \<longleftrightarrow> part_zoned A p \<and> zones_of A ps"
  "zones_of A (ps @ qs) \<longleftrightarrow> zones_of A ps \<and> zones_of A qs"
  by (auto simp: zones_of_def)

lemma zones_of_update: "zones_of A ps \<Longrightarrow> part_zoned A p \<Longrightarrow> zones_of A (ps[i := p])"
  unfolding zones_of_def using set_update_subset_insert [of ps i p] by blast

lemma zones_tombstone:
  assumes "tombstone inner loc c = Some (res, inner')" "zones_of A (ti_parts inner)"
  shows "zones_of A (ti_parts inner')"
proof (cases loc)
  case (LocL0 i)
  then show ?thesis using assms by (auto split: bind_splits)
next
  case (LocPart i ord)
  then obtain p where p: "nth_opt (ti_parts inner) i = Some p" using assms(1) by (auto split: bind_splits)
  then have "part_zoned A p" using assms(2) by (auto simp: nth_opt_def zones_of_def split: if_splits)
  then have "part_zoned A (snd (part_mark_deleted ord c p))" by (simp add: part_zoned_mark)
  then show ?thesis using assms p LocPart zones_of_update [OF assms(2)] by (auto split: prod.splits)
qed

lemma zones_maybe_seal:
  assumes "maybe_seal_locked A cfg inner m = Some (inner', m')" "zones_of A (ti_parts inner)"
  shows "zones_of A (ti_parts inner')"
  using assms part_zoned_deletions
  by (fastforce simp: maybe_seal_locked_def seal_locked_def Let_def split: if_splits bind_splits prod.splits)

lemma zones_seal:
  assumes "seal_locked A inner m = Some (inner', m')" "zones_of A (ti_parts inner)"
  shows "zones_of A (ti_parts inner')"
  using assms part_zoned_deletions by (fastforce simp: seal_locked_def Let_def split: if_splits bind_splits prod.splits)

lemma assign_rowid_parts: "assign_rowid s inner r = Some (r', inner') \<Longrightarrow> ti_parts inner' = ti_parts inner"
  by (auto simp: assign_rowid_def split: if_splits bind_splits)

lemma zones_insert:
  assumes "tb_insert A r t = Some (res, t')" "zones A t" shows "zones A t'"
  using assms zones_maybe_seal assign_rowid_parts
  by (fastforce simp: tb_insert_def zones_def Let_def split: bind_splits option.splits prod.splits)

lemma zones_upsert:
  assumes "tb_upsert A r t = Some (res, t')" "zones A t" shows "zones A t'"
proof -
  obtain r1 inner k loc m g c where s: "assign_rowid (tb_schema t) (tb_inner t) r = Some (r1, inner)"
    "row_key (sc_key_index (tb_schema t)) r1 = Some k" "locate inner k (snapshot (tb_csn t)) (tb_metrics t) = Some (loc, m)"
    "allocate (tb_csn t) = (c, g)"
    using assms(1) by (auto simp: tb_upsert_def Let_def split: bind_splits prod.splits)
  obtain res1 inner1 where i: "(case loc of Some l \<Rightarrow> tombstone inner l c | None \<Rightarrow> Some (Inr (), inner)) = Some (res1, inner1)"
    using assms(1) s by (auto simp: tb_upsert_def Let_def split: bind_splits)
  have z: "zones_of A (ti_parts inner1)"
    using i assms(2) assign_rowid_parts [OF s(1)] zones_tombstone by (auto simp: zones_def split: option.splits)
  show ?thesis
  proof (cases res1)
    case (Inl e)
    then show ?thesis using assms(1) s i z by (auto simp: tb_upsert_def zones_def Let_def)
  next
    case (Inr u)
    then show ?thesis using assms(1) s i z zones_maybe_seal
      by (fastforce simp: tb_upsert_def zones_def Let_def split: bind_splits)
  qed
qed

lemma zones_update:
  assumes "tb_update A r t = Some (res, t')" "zones A t" shows "zones A t'"
proof -
  obtain k loc m where s: "row_key (sc_key_index (tb_schema t)) r = Some k"
    "locate (tb_inner t) k (snapshot (tb_csn t)) (tb_metrics t) = Some (loc, m)"
    using assms(1) by (auto simp: tb_update_def Let_def split: bind_splits)
  obtain c g where g: "allocate (tb_csn t) = (c, g)" by force
  show ?thesis
  proof (cases loc)
    case None
    then show ?thesis using assms s by (auto simp: tb_update_def zones_def Let_def)
  next
    case (Some l)
    obtain res1 inner1 where i: "tombstone (tb_inner t) l c = Some (res1, inner1)"
      using assms(1) s g Some by (auto simp: tb_update_def Let_def split: bind_splits)
    have z: "zones_of A (ti_parts inner1)" using zones_tombstone [OF i] assms(2) by (simp add: zones_def)
    show ?thesis using assms(1) s g Some i z zones_maybe_seal
      by (cases res1) (fastforce simp: tb_update_def zones_def Let_def split: bind_splits)+
  qed
qed

lemma zones_delete:
  assumes "tb_delete key t = Some (res, t')" "zones A t" shows "zones A t'"
  using assms zones_tombstone
  by (fastforce simp: tb_delete_def zones_def Let_def split: bind_splits option.splits prod.splits sum.splits)

lemma zones_tb_seal:
  assumes "tb_seal A t = Some t'" "zones A t" shows "zones A t'"
  using assms zones_seal by (fastforce simp: tb_seal_def zones_def split: bind_splits)

lemma zones_replay_entries: "part_zoned A (fst st) \<Longrightarrow> part_zoned A (fst (replay_entries plan src es st))"
proof (induction plan src es st rule: replay_entries.induct)
  case (2 plan src ord c rest m n)
  show ?case
  proof (cases "mp_mapping plan (src, ord)")
    case None
    then show ?thesis using 2 by simp
  next
    case (Some out)
    obtain ok m' where m: "part_mark_deleted out c m = (ok, m')" by force
    then have "part_zoned A m'" using 2(3) part_zoned_mark [of A out c m] by simp
    then show ?thesis using 2(2) [OF Some m [symmetric]] Some m by simp
  qed
qed simp

lemma zones_replay_sources:
  "replay_sources parts plan srcs st = Some st' \<Longrightarrow> part_zoned A (fst st) \<Longrightarrow> part_zoned A (fst st')"
  by (induction parts plan srcs st rule: replay_sources.induct) (auto split: bind_splits intro: zones_replay_entries)

lemma zones_run_merge:
  assumes "run_merge A cands h t = Some (n, t')" "zones A t" shows "zones A t'"
proof (cases "cands = []")
  case False
  let ?id = "ti_next_part_id (tb_inner t)"
  obtain pl where pl: "plan_merge A cands ?id h (current (tb_csn t)) = Some pl"
    using assms(1) False by (auto simp: run_merge_def Let_def split: bind_splits)
  show ?thesis
  proof (cases pl)
    case None
    then show ?thesis using assms False pl by (auto simp: run_merge_def zones_def Let_def)
  next
    case (Some plan)
    have m: "part_zoned A (mp_merged plan)"
      using pl Some part_zoned_deletions
      by (fastforce simp: plan_merge_def Let_def part_zoned_collapse split: list.splits bind_splits)
    obtain parts m1 k where a: "apply_plan (ti_parts (tb_inner t)) plan (tb_metrics t) = Some (parts, m1, k)"
      using assms(1) False pl Some by (auto simp: run_merge_def Let_def split: bind_splits)
    have "zones_of A parts"
    proof (cases "list_all (\<lambda>i. present (ti_parts (tb_inner t)) i \<noteq> None) (mp_source_ids plan)")
      case True
      then obtain merged k2 where r: "replay_sources (ti_parts (tb_inner t)) plan (mp_source_ids plan) (mp_merged plan, 0) = Some (merged, k2)"
        "parts = filter (\<lambda>p. p_id p \<notin> set (mp_source_ids plan)) (ti_parts (tb_inner t)) @ [merged]"
        using a by (auto simp: apply_plan_def Let_def split: bind_splits)
      then have "part_zoned A merged" using zones_replay_sources [OF r(1), of A] m by simp
      then show ?thesis using r(2) assms(2) by (auto simp: zones_def zones_of_def)
    qed (use a assms(2) in \<open>auto simp: apply_plan_def zones_def\<close>)
    then show ?thesis using assms(1) False pl Some a by (auto simp: run_merge_def zones_def Let_def)
  qed
qed (use assms in \<open>simp add: run_merge_def\<close>)

lemma zones_load_chunks:
  "load_chunks A s c cs inner = Some inner' \<Longrightarrow> zones_of A (ti_parts inner) \<Longrightarrow> zones_of A (ti_parts inner')"
proof (induction cs arbitrary: inner)
  case (Cons chunk cs)
  then obtain b p where "from_rows A s chunk = Some b" "part_new A (ti_next_part_id inner) b (Uniform c) = Some p"
    "load_chunks A s c cs (inner\<lparr>ti_next_part_id := ti_next_part_id inner + 1, ti_parts := p # ti_parts inner\<rparr>) = Some inner'"
    by (auto simp: Let_def split: bind_splits)
  then show ?case using Cons.IH Cons.prems(2) part_zoned_new by fastforce
qed simp

lemma zones_bulk_load:
  assumes "bulk_load A rows t = Some (c, t')" "zones A t" shows "zones A t'"
  using assms zones_load_chunks by (fastforce simp: bulk_load_def zones_def Let_def split: bind_splits prod.splits)

inductive zone_op :: "arrow \<Rightarrow> table \<Rightarrow> table \<Rightarrow> bool" for A where
  zo_write: "table_op A t t' \<Longrightarrow> zone_op A t t'"
| zo_compact: "maybe_compact A h t = Some (n, t') \<Longrightarrow> zone_op A t t'"
| zo_force: "force_compact A h t = Some (n, t') \<Longrightarrow> zone_op A t t'"
| zo_load: "bulk_load A rows t = Some (c, t') \<Longrightarrow> zone_op A t t'"

lemma zone_op_zones:
  assumes "zone_op A t t'" "zones A t" shows "zones A t'"
  using assms(1)
proof cases
  case zo_write
  then show ?thesis using assms(2) zones_insert zones_upsert zones_update zones_delete zones_tb_seal by cases blast+
next
  case (zo_compact h n)
  then show ?thesis using assms(2) zones_run_merge by (fastforce simp: maybe_compact_def Let_def split: if_splits)
next
  case (zo_force h n)
  then show ?thesis using assms(2) zones_run_merge by (simp add: force_compact_def)
next
  case (zo_load rows c)
  then show ?thesis using assms(2) zones_bulk_load by blast
qed

section \<open>The minimum and maximum of a column\<close>

lemma seg_values_dom:
  assumes "\<forall>r \<in> set rs. row_ok s r" "c < arity s" shows "(\<lambda>r. r ! c) ` set rs \<subseteq> col_values (col_ty s c)"
  using assms by (auto simp: row_ok_def col_values_def)

lemma minmax_parts_ok:
  assumes A: "arrow_ok A" "arrow_minmax_ok A" and snap: "snap \<noteq> NEVER_DELETED" and c: "c < arity s"
  shows "\<forall>p \<in> set ps. part_ok p \<and> p_schema p = s \<and> part_zoned A p \<Longrightarrow> bounds_exact V acc \<Longrightarrow> V \<subseteq> col_values (col_ty s c) \<Longrightarrow>
    \<exists>bd m'. minmax_parts A c snap ps acc m = Some (bd, m') \<and> bounds_exact (V \<union> (\<lambda>r. r ! c) ` set_mset (view snap (versions_of ps))) bd"
proof (induction ps arbitrary: V acc m)
  case (Cons p ps)
  have p: "part_ok p" "p_schema p = s" "part_zoned A p" using Cons.prems(1) by auto
  let ?W = "(\<lambda>r. r ! c) ` set_mset (view snap (mset (part_versions p)))"
  have U: "V \<union> (\<lambda>r. r ! c) ` set_mset (view snap (versions_of (p # ps))) =
      (V \<union> ?W) \<union> (\<lambda>r. r ! c) ` set_mset (view snap (versions_of ps))"
    by (auto simp: versions_of_def)
  obtain bt where bt: "part_scan A p snap = Some bt" "batch_ok bt" "b_schema bt = p_schema p"
    "batch_rows bt = map (\<lambda>i. batch_rows (p_batch p) ! i) (visible_list p snap)"
    by (rule part_scan_spec [OF A(1) p(1) snap])
  have W: "?W = (\<lambda>r. r ! c) ` set (batch_rows bt)" by (simp add: view_part bt(4) image_image)
  have dom: "?W \<subseteq> col_values (col_ty s c)"
    unfolding W by (rule seg_values_dom) (use row_ok_batch_rows [OF bt(2)] bt(3) p(2) c in auto)
  show ?case
  proof (cases "is_fully_visible_to snap p")
    case True
    have "batch_rows bt = batch_rows (p_batch p)"
      using bt(4) fully_visible_list [OF p(1) snap True] map_nth [of "batch_rows (p_batch p)"] by simp
    then have "bounds_exact ?W (part_col_bounds p c)"
      using part_zoned_bounds(2) [OF A(2) p(3) part_okD(1) [OF p(1)]] c p(2) W by simp
    then have "bounds_exact (V \<union> ?W) (combine_bounds acc (part_col_bounds p c))" using combine_exact Cons.prems dom by blast
    then show ?thesis using Cons.IH [of "V \<union> ?W"] Cons.prems dom True unfolding U by simp
  next
    case False
    obtain bd where bd: "column_bounds A bt c = Some bd" "bounds_exact ((\<lambda>r. r ! c) ` set (batch_rows bt)) bd"
      by (rule column_bounds_ok [OF A(2) bt(2)]) (use bt(3) p(2) c in simp_all)
    then have "bounds_exact (V \<union> ?W) (combine_bounds acc bd)" using combine_exact Cons.prems dom W by metis
    then show ?thesis using Cons.IH [of "V \<union> ?W"] Cons.prems dom False bt(1) bd(1) unfolding U by simp
  qed
qed (auto simp: versions_of_def)

lemma column_minmax_ok:
  assumes A: "arrow_ok A" "arrow_minmax_ok A" and t: "table_ok f t" "zones A t" and snap: "snap \<noteq> NEVER_DELETED"
    and c: "c < arity (tb_schema t)"
  shows "\<exists>bd t'. column_minmax A c snap t = Some (bd, t') \<and> untouched f t t' \<and>
    bounds_exact ((\<lambda>r. r ! c) ` set_mset (view snap (tb_versions t))) bd"
proof -
  let ?s = "tb_schema t"
  note D = table_okD [OF t(1)]
  have l0: "l0_ok (ti_l0 (tb_inner t))" "l0_schema (ti_l0 (tb_inner t)) = ?s" "decimals_ok ?s"
    and ps: "\<forall>p \<in> set (ti_parts (tb_inner t)). part_ok p \<and> p_schema p = ?s \<and> part_zoned A p"
    using D(1) t(2) by (auto simp: inner_ok_def zones_def zones_of_def)
  obtain b where b: "l0_scan A (ti_l0 (tb_inner t)) snap = Some b" "batch_ok b" "b_schema b = l0_schema (ti_l0 (tb_inner t))"
    "batch_rows b = map e_row (filter (visible_to snap) (l0_entries (ti_l0 (tb_inner t))))"
    by (rule l0_scan_ok [OF A(1) l0(1), of snap]) (use l0 in auto)
  have none: "bounds_exact {} None" by (simp add: bounds_exact_def)
  obtain acc m where p: "minmax_parts A c snap (ti_parts (tb_inner t)) None (bump mt_scans_update (tb_metrics t)) = Some (acc, m)"
    "bounds_exact ((\<lambda>r. r ! c) ` set_mset (view snap (versions_of (ti_parts (tb_inner t))))) acc"
    using minmax_parts_ok [OF A snap c ps none, of "bump mt_scans_update (tb_metrics t)"] by auto
  obtain bd where bd: "column_bounds A b c = Some bd" "bounds_exact ((\<lambda>r. r ! c) ` set (batch_rows b)) bd"
    by (rule column_bounds_ok [OF A(2) b(2)]) (use b(3) l0(2) c in simp_all)
  have v: "view snap (tb_versions t) = mset (batch_rows b) + view snap (versions_of (ti_parts (tb_inner t)))"
    by (simp add: tb_versions_def ti_versions_def b(4) view_l0 [symmetric] del: mset_map)
  have rows: "row_ok ?s r" if "r \<in># view snap (tb_versions t)" for r
  proof -
    obtain segs t' where sg: "\<forall>seg \<in> set segs. seg_ok ?s seg" "seg_rows segs = view snap (tb_versions t)"
      using scan_segments_ok [OF A(1) t(1) snap] by blast
    have "r \<in> set (concat (map batch_rows (map seg_batch segs)))"
      using sg(2) that sum_list_mset_rows [of segs] by (metis set_mset_mset)
    then show ?thesis using sg(1) row_ok_batch_rows by (fastforce simp: seg_ok_def)
  qed
  have "bounds_exact ((\<lambda>r. r ! c) ` set_mset (view snap (versions_of (ti_parts (tb_inner t)))) \<union> (\<lambda>r. r ! c) ` set (batch_rows b))
      (combine_bounds acc bd)"
    by (rule combine_exact [OF _ _ p(2) bd(2), of "col_ty ?s c"]) (use rows v c in \<open>auto simp: row_ok_def col_values_def\<close>)
  then have "bounds_exact ((\<lambda>r. r ! c) ` set_mset (view snap (tb_versions t))) (combine_bounds acc bd)"
    unfolding v by (simp add: Un_commute image_Un)
  then show ?thesis using b(1) p(1) bd(1) untouched_metrics [OF t(1), of m] by (auto simp: column_minmax_def)
qed

end
