(* ===== verification/Ck_ExecOk.thy ===== *)
theory Ck_ExecOk
  imports Ck_Exec Ck_Zones
begin

text \<open>
  What a query returns, stated over the rows that the snapshot sees: filtering and projection with every fast path,
  ordering with a limit, and grouping.
\<close>

section \<open>Filtering\<close>

definition row_passes :: "expr option \<Rightarrow> row \<Rightarrow> bool" where
  "row_passes f r \<longleftrightarrow> passes f r = Some True"

text \<open>Expressions that are typed over the schema never panic.\<close>

definition safe_filter :: "schema \<Rightarrow> expr option \<Rightarrow> bool" where
  "safe_filter s f \<longleftrightarrow> (\<forall>e. f = Some e \<longrightarrow> (\<exists>k. wt s e k))"

fun safe_projection :: "schema \<Rightarrow> projection \<Rightarrow> bool" where
  "safe_projection s (PExpr e _) \<longleftrightarrow> (\<exists>k. wt s e k)"
| "safe_projection s (PAgg _ arg _) \<longleftrightarrow> (\<forall>c. arg = Some c \<longrightarrow> c < arity s)"

definition hit_row :: "batch \<times> nat \<Rightarrow> row" where
  "hit_row h = batch_row (fst h) (snd h)"

definition hit_ok :: "schema \<Rightarrow> batch \<times> nat \<Rightarrow> bool" where
  "hit_ok s h \<longleftrightarrow> batch_ok (fst h) \<and> b_schema (fst h) = s \<and> snd h < b_len (fst h)"

lemma hit_row_pair [simp]: "hit_row (b, i) = batch_row b i"
  by (simp add: hit_row_def)

lemma hit_row_ok: "hit_ok s h \<Longrightarrow> row_ok s (hit_row h)"
  using row_ok_batch_row by (auto simp: hit_ok_def hit_row_def)

lemma eval_at_hit: "hit_ok s h \<Longrightarrow> eval_at e (fst h) (snd h) = eval e (hit_row h)"
  by (simp add: hit_ok_def hit_row_def eval_at_ok)

lemma passes_safe:
  assumes "safe_filter s f" "row_ok s r"
  shows "passes f r = Some (row_passes f r)"
proof (cases f)
  case (Some e)
  then obtain k where "wt s e k" using assms(1) by (auto simp: safe_filter_def)
  then obtain v where "eval e r = Some v" using wt_eval assms(2) by blast
  then show ?thesis using Some by (simp add: passes_def row_passes_def)
qed (simp add: passes_def row_passes_def)

lemma passing_ok:
  assumes "batch_ok b" "b_schema b = s" "safe_filter s f" "\<forall>i \<in> set is. i < b_len b"
  shows "\<exists>hs. passing f b is = Some hs \<and> (\<forall>h \<in> set hs. hit_ok s h) \<and> map hit_row hs = filter (row_passes f) (map (batch_row b) is)"
  using assms(4)
proof (induction "is")
  case (Cons i "is")
  then obtain hs where hs: "passing f b is = Some hs" "\<forall>h \<in> set hs. hit_ok s h" "map hit_row hs = filter (row_passes f) (map (batch_row b) is)"
    by auto
  have i: "i < b_len b" "row_ok s (batch_row b i)" using Cons.prems assms(1,2) row_ok_batch_row by auto
  have "passes_at f b i = passes f (batch_row b i)"
    using eval_at_ok [OF assms(1) i(1)] by (simp add: passes_at_def passes_def split: option.split)
  then have "passes_at f b i = Some (row_passes f (batch_row b i))" using passes_safe [OF assms(3) i(2)] by simp
  moreover have "hit_ok s (b, i)" using assms(1,2) i(1) by (simp add: hit_ok_def)
  ultimately show ?case using hs by simp
qed simp

lemma hits_ok:
  assumes "\<forall>b \<in> set bs. batch_ok b \<and> b_schema b = s" "safe_filter s f"
  shows "\<exists>hs. hits f bs = Some hs \<and> (\<forall>h \<in> set hs. hit_ok s h) \<and> map hit_row hs = filter (row_passes f) (concat (map batch_rows bs))"
  using assms(1)
proof (induction bs)
  case (Cons b bs)
  then obtain ys where ys: "hits f bs = Some ys" "\<forall>h \<in> set ys. hit_ok s h" "map hit_row ys = filter (row_passes f) (concat (map batch_rows bs))"
    by auto
  obtain xs where "passing f b [0..<b_len b] = Some xs" "\<forall>h \<in> set xs. hit_ok s h"
    "map hit_row xs = filter (row_passes f) (map (batch_row b) [0..<b_len b])"
    using passing_ok [OF _ _ assms(2), of b "[0..<b_len b]"] Cons.prems by auto
  then show ?case using ys by (auto simp: batch_rows_def [of b])
qed simp

section \<open>Projection\<close>

definition cell :: "row \<Rightarrow> projection \<Rightarrow> data_type \<Rightarrow> string" where
  "cell r p ty = (case p of PExpr e _ \<Rightarrow> render_as (the (eval e r)) ty | PAgg _ _ _ \<Rightarrow> [])"

definition out_cells :: "projection list \<Rightarrow> data_type list \<Rightarrow> row \<Rightarrow> string list" where
  "out_cells projs out r = map2 (cell r) projs out"

lemma render_row_ok:
  assumes "list_all is_plain_expr ps" "list_all (safe_projection s) ps" "row_ok s r" "\<And>e. ev e = eval e r"
  shows "length out = i + length ps \<Longrightarrow> \<exists>ts'. render_row ev out i ps ts = Some (map2 (cell r) ps (drop i out), ts')"
  using assms(1,2)
proof (induction ps arbitrary: i ts)
  case (Cons p ps)
  obtain e l where p: "p = PExpr e l" using Cons.prems(2) by (cases p) auto
  obtain k where "wt s e k" using Cons.prems(3) p by auto
  then obtain v where v: "eval e r = Some v" using wt_eval assms(3) by blast
  have i: "i < length out" using Cons.prems(1) by simp
  then have d: "drop i out = out ! i # drop (Suc i) out" by (simp add: Cons_nth_drop_Suc)
  obtain ts' where "render_row ev out (Suc i) ps (note_type i v ts) = Some (map2 (cell r) ps (drop (Suc i) out), ts')"
    using Cons by fastforce
  then show ?case using p v i by (simp add: assms(4) [of e] d cell_def)
qed simp

lemma render_hits_ok:
  assumes "list_all is_plain_expr projs" "list_all (safe_projection s) projs" "length out = length projs" "\<forall>h \<in> set hs. hit_ok s h"
  shows "\<exists>ts'. render_hits projs out hs ts = Some (map (out_cells projs out) (map hit_row hs), ts')"
  using assms(4)
proof (induction hs arbitrary: ts)
  case (Cons h hs)
  obtain b i where h: "h = (b, i)" by force
  then have ok: "row_ok s (hit_row h)" "\<And>e. eval_at e b i = eval e (hit_row h)"
    using Cons.prems hit_row_ok [of s h] eval_at_hit [of s h] by auto
  obtain ts1 where "render_row (\<lambda>e. eval_at e b i) out 0 projs ts = Some (out_cells projs out (hit_row h), ts1)"
    using render_row_ok [OF assms(1,2) ok(1), of "\<lambda>e. eval_at e b i" out 0 ts] ok(2) assms(3) by (auto simp: out_cells_def)
  moreover obtain ts2 where "render_hits projs out hs ts1 = Some (map (out_cells projs out) (map hit_row hs), ts2)"
    using Cons by fastforce
  ultimately show ?case by (simp add: h)
qed simp

section \<open>Pruning and point lookups\<close>

lemma segments_of_parts: "segments_of A snap ps m = Some (segs, m') \<Longrightarrow> SegPart p \<in> set segs \<Longrightarrow> p \<in> set ps"
proof (induction ps arbitrary: m segs m')
  case (Cons q ps)
  then show ?case by (cases "is_fully_visible_to snap q") (fastforce split: bind_splits)+
qed simp

lemma scan_segments_parts: "scan_segments A snap t = Some (segs, t') \<Longrightarrow> SegPart p \<in> set segs \<Longrightarrow> p \<in> set (ti_parts (tb_inner t))"
  by (auto simp: scan_segments_def dest: segments_of_parts split: bind_splits if_splits)

lemma pruning_ok:
  assumes "\<forall>p. SegPart p \<in> set segs \<longrightarrow> (\<forall>r \<in> set (batch_rows (p_batch p)). zone_ok s (p_col_bounds p) r)"
    "\<forall>seg \<in> set segs. \<forall>r \<in> set (batch_rows (seg_batch seg)). row_ok s r \<and> plain_row r" "\<forall>e. f = Some e \<longrightarrow> lits_ok s e"
  shows "filter (row_passes f) (concat (map batch_rows (map seg_batch (filter (keeps_segment f) segs)))) =
    filter (row_passes f) (concat (map batch_rows (map seg_batch segs)))"
  using assms(1,2)
proof (induction segs)
  case (Cons seg segs)
  have "filter (row_passes f) (batch_rows (seg_batch seg)) = []" if ns: "\<not> keeps_segment f seg"
  proof -
    obtain e p where e: "f = Some e" "seg = SegPart p" "excludes e (p_col_bounds p)"
      using ns by (cases f; cases seg) auto
    have "\<not> row_passes f r" if r: "r \<in> set (batch_rows (p_batch p))" for r
    proof
      assume "row_passes f r"
      then obtain u where "eval e r = Some u" "is_true u" using e(1) by (auto simp: row_passes_def passes_def)
      moreover have "row_ok s r" "plain_row r" "zone_ok s (p_col_bounds p) r" "lits_ok s e"
        using Cons.prems r e assms(3) by auto
      ultimately show False using excludes_ok e(3) by blast
    qed
    then show ?thesis using e(2) by (auto simp: filter_empty_conv)
  qed
  then show ?case using Cons by auto
qed simp

lemma sql_equal_iff:
  assumes "col_value ty v" "col_value ty w" "plain v" "plain w" "sql_cmp w w = Some Equal"
  shows "sql_cmp v w = Some Equal \<longleftrightarrow> v = w"
proof -
  have "v \<in> col_values ty" "w \<in> col_values ty" using assms(1,2) by (simp_all add: col_values_def)
  then show ?thesis using sql_cmp_plain [OF assms(1-4)] vo.cmp_Equal assms(5) by blast
qed

lemma sql_equal_sym:
  assumes "col_value ty v" "col_value ty w" "plain v" "plain w" "sql_cmp w w = Some Equal"
  shows "sql_cmp w v = Some Equal \<longleftrightarrow> v = w"
proof -
  have "v \<in> col_values ty" "w \<in> col_values ty" using assms(1,2) by (simp_all add: col_values_def)
  then show ?thesis using sql_cmp_plain [OF assms(2,1,4,3)] vo.cmp_Equal assms(5) by blast
qed

text \<open>A predicate that fixes the key selects the rows with that key.\<close>

lemma point_key_cases:
  "point_lookup_key f cols d projs ki = Some v \<Longrightarrow>
    f = Some (EBinary OpEq (EColumn ki) (ELiteral v)) \<or> f = Some (EBinary OpEq (ELiteral v) (EColumn ki))"
  by (auto simp: point_lookup_key_def split: if_splits option.splits expr.splits binary_op.splits)

lemma point_key_val:
  assumes "point_lookup_key f cols d projs ki = Some v" "ki < arity s" "\<forall>e. f = Some e \<longrightarrow> lits_ok s e"
  shows "v \<in> col_values (col_ty s ki)" "plain v"
  using point_key_cases [OF assms(1)] assms(2,3) by (auto simp: col_values_def)

lemma point_key_ok:
  assumes key: "point_lookup_key f cols d projs ki = Some v" and r: "row_ok s r" "plain_row r" "ki < arity s"
    and f: "\<forall>e. f = Some e \<longrightarrow> lits_ok s e" and v: "sql_cmp v v = Some Equal"
  shows "row_passes f r \<longleftrightarrow> r ! ki = v"
proof -
  have l: "col_value (col_ty s ki) v" "plain v" using point_key_val [OF key r(3) f] by (simp_all add: col_values_def)
  have c: "col_value (col_ty s ki) (r ! ki)" "plain (r ! ki)" "row_value r ki = r ! ki"
    using r by (auto simp: row_ok_def plain_row_def row_value_def)
  show ?thesis
    using point_key_cases [OF key] c(3) sql_equal_iff [OF c(1) l(1) c(2) l(2) v] sql_equal_sym [OF c(1) l(1) c(2) l(2) v]
    by (auto simp: row_passes_def passes_def eval_compare_def split: option.splits)
qed

section \<open>SELECT with a WHERE clause\<close>

lemma wt_EColumn: "wt s e k \<Longrightarrow> e = EColumn c \<Longrightarrow> c < arity s"
  by (induction rule: wt.induct) auto

lemma projection_type_Some:
  assumes "safe_projection s p" shows "\<exists>ty. projection_type s p = Some ty"
proof -
  have c: "\<exists>ty. column_type s c = Some ty" if "c < arity s" for c
    using that by (simp add: column_type_def arity_def)
  show ?thesis
  proof (cases p)
    case (PExpr e l)
    then show ?thesis using assms c wt_EColumn by (cases e) auto
  next
    case (PAgg f arg l)
    then show ?thesis using assms c by (cases f; cases arg) auto
  qed
qed

lemma projection_types_ok:
  assumes "list_all (safe_projection s) projs"
  obtains out where "projection_types projs s = Some out" "length out = length projs"
proof -
  have "projection_type s p = Some (the (projection_type s p))" if "p \<in> set projs" for p
    using assms projection_type_Some [of s p] that by (auto simp: list_all_iff)
  then have "projection_types projs s = Some (map (\<lambda>p. the (projection_type s p)) projs)"
    unfolding projection_types_def by (rule traverse_Some)
  then show ?thesis using that by simp
qed

lemma seg_rows_ok:
  assumes "\<forall>seg \<in> set segs. seg_ok s seg" "seg_rows segs = V" "r \<in># V"
  shows "row_ok s r"
proof -
  have "r \<in> set (concat (map batch_rows (map seg_batch segs)))"
    using assms(2,3) sum_list_mset_rows [of segs] by (metis set_mset_mset)
  then show ?thesis using assms(1) row_ok_batch_rows by (fastforce simp: seg_ok_def)
qed

lemma view_row_ok:
  assumes "arrow_ok A" "table_ok g t" "snap \<noteq> NEVER_DELETED" "r \<in># view snap (tb_versions t)"
  shows "row_ok (tb_schema t) r"
  using scan_segments_ok [OF assms(1-3)] seg_rows_ok assms(4) by blast

text \<open>The segments that are left after pruning hold every row that can pass.\<close>

lemma scan_hits_ok:
  assumes A: "arrow_ok A" and M: "arrow_minmax_ok A" and t: "table_ok g t" "zones A t" and snap: "snap \<noteq> NEVER_DELETED"
    and rows: "\<forall>r \<in># view snap (tb_versions t). plain_row r"
    and f: "safe_filter (tb_schema t) f" "\<forall>e. f = Some e \<longrightarrow> lits_ok (tb_schema t) e"
  obtains segs t' hs where "scan_segments A snap t = Some (segs, t')" "untouched g t t'"
    "hits f (map seg_batch (filter (keeps_segment f) segs)) = Some hs" "\<forall>h \<in> set hs. hit_ok (tb_schema t) h"
    "mset (map hit_row hs) = filter_mset (row_passes f) (view snap (tb_versions t))"
proof -
  let ?s = "tb_schema t" and ?V = "view snap (tb_versions t)"
  obtain segs t' where sg: "scan_segments A snap t = Some (segs, t')" "untouched g t t'"
    "\<forall>seg \<in> set segs. seg_ok ?s seg" "seg_rows segs = ?V"
    using scan_segments_ok [OF A t(1) snap] by blast
  let ?bs = "map seg_batch (filter (keeps_segment f) segs)"
  have "\<forall>b \<in> set ?bs. batch_ok b \<and> b_schema b = ?s" using sg(3) by (auto simp: seg_ok_def)
  from hits_ok [OF this f(1)] obtain hs where hs: "hits f ?bs = Some hs" "\<forall>h \<in> set hs. hit_ok ?s h"
    "map hit_row hs = filter (row_passes f) (concat (map batch_rows ?bs))" by blast
  have ms: "mset (concat (map batch_rows (map seg_batch segs))) = ?V" using sum_list_mset_rows [of segs] sg(4) by simp
  have V: "\<forall>seg \<in> set segs. \<forall>r \<in> set (batch_rows (seg_batch seg)). row_ok ?s r \<and> plain_row r"
  proof (intro ballI)
    fix seg r assume "seg \<in> set segs" "r \<in> set (batch_rows (seg_batch seg))"
    then have "r \<in> set (concat (map batch_rows (map seg_batch segs)))" by auto
    then have "r \<in># ?V" using ms by (metis set_mset_mset)
    then show "row_ok ?s r \<and> plain_row r" using rows seg_rows_ok [OF sg(3,4)] by simp
  qed
  have z: "zone_ok ?s (p_col_bounds p) r" if "SegPart p \<in> set segs" "r \<in> set (batch_rows (p_batch p))" for p r
  proof -
    have "part_zoned A p" using t(2) scan_segments_parts [OF sg(1) that(1)] by (simp add: zones_def zones_of_def)
    moreover have "batch_ok (p_batch p)" "p_schema p = ?s" using sg(3) that(1) by (auto simp: seg_ok_def)
    ultimately show ?thesis using part_zoned_rows [OF M _ _ that(2)] by simp
  qed
  have "map hit_row hs = filter (row_passes f) (concat (map batch_rows (map seg_batch segs)))"
    using hs(3) pruning_ok [OF _ V f(2)] z by simp
  then have "mset (map hit_row hs) = filter_mset (row_passes f) ?V" using ms by (metis mset_filter)
  then show ?thesis using that sg(1,2) hs(1,2) by blast
qed

lemma is_bare_plain:
  assumes "projs \<noteq> []" "list_all is_plain_expr projs"
  shows "\<not> is_bare_count_star projs f cols os d" "\<not> is_bare_minmax projs f cols d"
  using assms by (cases projs; cases "hd projs"; auto simp: is_bare_count_star_def is_bare_minmax_def)+

lemma select_where:
  assumes A: "arrow_ok A" and M: "arrow_minmax_ok A" and t: "table_ok g t" "zones A t" and snap: "g \<le> snap" "snap \<noteq> NEVER_DELETED"
    and rows: "\<forall>r \<in># view snap (tb_versions t). plain_row r"
    and p: "projs \<noteq> []" "list_all is_plain_expr projs" "list_all (safe_projection (tb_schema t)) projs"
    and f: "safe_filter (tb_schema t) f" "\<forall>e. f = Some e \<longrightarrow> lits_ok (tb_schema t) e"
    and key: "\<forall>v. point_lookup_key f [] False projs (tb_ki t) = Some v \<longrightarrow> sql_cmp v v = Some Equal"
  shows "\<exists>out ts rows t'. projection_types projs (tb_schema t) = Some out \<and>
    select_table A sel projs f [] [] None False snap t = Some (OutRows (map label_of projs) ts rows, t') \<and> untouched g t t' \<and>
    mset rows = image_mset (out_cells projs out) (filter_mset (row_passes f) (view snap (tb_versions t)))"
proof -
  let ?s = "tb_schema t" and ?V = "view snap (tb_versions t)"
  obtain out where out: "projection_types projs ?s = Some out" "length out = length projs"
    by (rule projection_types_ok [OF p(3)])
  note [simp] = is_bare_plain [OF p(1,2)] out(1)
  show ?thesis
  proof (cases "point_lookup_key f [] False projs (tb_ki t)")
    case (Some v)
    have sch: "tb_ki t < arity ?s" using table_okD(1) [OF t(1)] by (auto simp: inner_ok_def schema_ok_def arity_def)
    have pass: "row_passes f r \<longleftrightarrow> r ! tb_ki t = v" if "r \<in># ?V" for r
      using point_key_ok(1) [OF Some view_row_ok [OF A t(1) snap(2) that] _ sch f(2)] rows key Some that by blast
    have vk: "v \<in> tb_keys t" using point_key_val(1) [OF Some sch f(2)] by (simp add: key_ty_def)
    obtain res t' where g: "tb_get v snap t = Some (res, t')" "untouched g t t'"
      "filter_mset (\<lambda>r. r ! tb_ki t = v) ?V = (case res of None \<Rightarrow> {#} | Some r \<Rightarrow> {#r#})"
      using get_ok [OF t(1) vk snap] by blast
    have fm: "filter_mset (row_passes f) ?V = (case res of None \<Rightarrow> {#} | Some r \<Rightarrow> {#r#})"
      unfolding g(3) [symmetric] by (rule filter_mset_cong) (simp_all add: pass)
    show ?thesis
    proof (cases res)
      case None
      then show ?thesis using g Some fm by (simp add: select_table_def select_point_def)
    next
      case r: (Some r)
      have "r \<in># filter_mset (\<lambda>r. r ! tb_ki t = v) ?V" unfolding g(3) r by simp
      then have "r \<in># ?V" by simp
      then have "row_ok ?s r" by (rule view_row_ok [OF A t(1) snap(2)])
      from render_row_ok [OF p(2,3) this refl, of out 0 "unknown_types projs"] out(2) obtain ts where
        "render_row (\<lambda>e. eval e r) out 0 projs (unknown_types projs) = Some (out_cells projs out r, ts)"
        by (auto simp: out_cells_def)
      then show ?thesis using g Some fm r by (simp add: select_table_def select_point_def)
    qed
  next
    case None
    obtain segs t' hs where h: "scan_segments A snap t = Some (segs, t')" "untouched g t t'"
      "hits f (map seg_batch (filter (keeps_segment f) segs)) = Some hs" "\<forall>h \<in> set hs. hit_ok ?s h"
      "mset (map hit_row hs) = filter_mset (row_passes f) ?V"
      by (rule scan_hits_ok [OF A M t snap(2) rows f])
    obtain ts where ts: "render_hits projs out hs (unknown_types projs) = Some (map (out_cells projs out) (map hit_row hs), ts)"
      using render_hits_ok [OF p(2,3) out(2) h(4)] by blast
    have "select_table A sel projs f [] [] None False snap t =
        Some (OutRows (map label_of projs) ts (map (out_cells projs out) (map hit_row hs)), t')"
      using None h(1,3) ts p(2) by (simp add: select_table_def select_segments_def project_rows_def limit_rows_def)
    then show ?thesis using h(2,5) out(1) by (metis mset_map)
  qed
qed

section \<open>Comparing tuples of values\<close>

lemma cmp_order_image:
  assumes c: "cmp_order c K" and g: "\<And>a. a \<in> L \<Longrightarrow> g a \<in> K" "\<And>a b. a \<in> L \<Longrightarrow> b \<in> L \<Longrightarrow> g a = g b \<Longrightarrow> a = b"
    and d: "\<And>a b. a \<in> L \<Longrightarrow> b \<in> L \<Longrightarrow> d a b = c (g a) (g b)"
  shows "cmp_order d L"
proof (unfold_locales, goal_cases)
  case (1 a b)
  then show ?case using d g cmp_order.cmp_Equal [OF c] by auto
next
  case (2 a b)
  then show ?case using d g(1) cmp_order.cmp_swap [OF c] by auto
next
  case (3 a b e)
  then show ?case using d g(1) cmp_order.cmp_trans [OF c, of "g a" "g b" "g e"] by auto
qed

lemma reverse_ord_simps [simp]:
  "reverse_ord x = Less \<longleftrightarrow> x = Greater" "reverse_ord x = Equal \<longleftrightarrow> x = Equal" "reverse_ord x = Greater \<longleftrightarrow> x = Less"
  by (cases x; simp)+

lemma cmp_order_reverse:
  assumes "cmp_order c K" shows "cmp_order (\<lambda>a b. reverse_ord (c a b)) K"
proof (unfold_locales, goal_cases)
  case (1 a b)
  then show ?case using cmp_order.cmp_Equal [OF assms] by simp
next
  case (2 a b)
  then show ?case using cmp_order.cmp_swap [OF assms, of b a] by auto
next
  case (3 a b e)
  then show ?case
    using cmp_order.cmp_swap [OF assms] cmp_order.cmp_trans [OF assms, of e b a] by auto
qed

text \<open>The tuples whose components come from given columns.\<close>

definition keys_dom :: "data_type list \<Rightarrow> value_t list set" where
  "keys_dom tys = {vs. list_all2 (\<lambda>ty v. v \<in> col_values ty) tys vs}"

lemma keys_dom_simps [simp]:
  "vs \<in> keys_dom [] \<longleftrightarrow> vs = []"
  "vs \<in> keys_dom (ty # tys) \<longleftrightarrow> (\<exists>w ws. vs = w # ws \<and> w \<in> col_values ty \<and> ws \<in> keys_dom tys)"
  by (auto simp: keys_dom_def list_all2_Cons1)

lemma keys_dom_length: "vs \<in> keys_dom tys \<Longrightarrow> length vs = length tys"
  by (auto simp: keys_dom_def dest: list_all2_lengthD)

lemma cmp_order_keys: "length os = length tys \<Longrightarrow> cmp_order (keys_cmp os) (keys_dom tys)"
proof (induction os tys rule: list_induct2)
  case Nil
  show ?case by unfold_locales auto
next
  case (Cons o1 os ty tys)
  let ?c = "\<lambda>a b. if ok_ascending o1 then total_cmp a b else reverse_ord (total_cmp a b)"
  have "cmp_order ?c (col_values ty)"
    using vo.cmp_order_axioms [of ty] cmp_order_reverse by (cases "ok_ascending o1") auto
  then have "cmp_order (pair_cmp ?c (keys_cmp os)) (col_values ty \<times> keys_dom tys)"
    using Cons.IH by (rule cmp_order_pair)
  then show ?case by (rule cmp_order_image [where g = "\<lambda>vs. (hd vs, tl vs)"]) (auto simp: pair_cmp_def)
qed

lemma cmp_list_keys:
  assumes "list_all ok_ascending os" "length os = length as" "length as = length bs"
  shows "cmp_list total_cmp as bs = keys_cmp os as bs"
  using assms(2,3,1) by (induction os as bs rule: list_induct3) auto

definition group_dom :: "data_type list \<Rightarrow> group_key set" where
  "group_dom tys = (case tys of [ty] \<Rightarrow> GkOne ` col_values ty | _ \<Rightarrow> GkMany ` keys_dom tys)"

lemma cmp_order_many: "cmp_order gk_cmp (GkMany ` keys_dom tys)"
proof -
  let ?os = "map (\<lambda>_. \<lparr>ok_expr = ELiteral VNull, ok_ascending = True\<rparr>) tys"
  have "cmp_order (keys_cmp ?os) (keys_dom tys)" by (rule cmp_order_keys) simp
  then show ?thesis
    by (rule cmp_order_image [where g = "\<lambda>k. case k of GkMany vs \<Rightarrow> vs | GkOne v \<Rightarrow> []"])
      (auto simp: list_all_iff keys_dom_length intro!: cmp_list_keys)
qed

lemma cmp_order_group: "cmp_order gk_cmp (group_dom tys)"
proof -
  have "cmp_order gk_cmp (GkOne ` col_values ty)" for ty
    by (rule cmp_order_image [OF vo.cmp_order_axioms [of ty], where g = "\<lambda>k. case k of GkOne v \<Rightarrow> v | GkMany vs \<Rightarrow> VNull"]) auto
  then show ?thesis using cmp_order_many by (auto simp: group_dom_def split: list.split)
qed

section \<open>ORDER BY with a limit\<close>

lemma total_on_order:
  assumes "cmp_order c K" "g ` S \<subseteq> K"
  shows "total_on (\<lambda>a b. c (g a) (g b)) S"
proof -
  have s: "c (g a) (g b) = Greater \<longleftrightarrow> c (g b) (g a) = Less" if "a \<in> S" "b \<in> S" for a b
    using cmp_order.cmp_swap [OF assms(1), of "g b" "g a"] assms(2) that by auto
  have t: "c (g a) (g d) \<noteq> Greater" if "a \<in> S" "b \<in> S" "d \<in> S" "c (g a) (g b) \<noteq> Greater" "c (g b) (g d) \<noteq> Greater" for a b d
    using cmp_order.le_trans [OF assms(1), of "g a" "g b" "g d"] assms(2) that by (auto simp: cmp_order.le_def [OF assms(1)])
  show ?thesis unfolding total_on_def using s t by blast
qed

lemma total_on_mono: "total_on c S \<Longrightarrow> T \<subseteq> S \<Longrightarrow> total_on c T"
  unfolding total_on_def by blast

lemma total_on_trans:
  assumes "total_on c S" "a \<in> S" "b \<in> S" "d \<in> S" "c a b \<noteq> Greater" "c b d \<noteq> Greater"
  shows "c a d \<noteq> Greater"
  using assms unfolding total_on_def by blast

lemma sorted_insort_total:
  assumes "total_on c (insert x (set xs))" "sorted_wrt (\<lambda>a b. c a b \<noteq> Greater) xs"
  shows "sorted_wrt (\<lambda>a b. c a b \<noteq> Greater) (insort_by c x xs)"
  using assms
proof (induction xs)
  case (Cons y ys)
  have t: "total_on c (insert x (set ys))" by (rule total_on_mono [OF Cons.prems(1)]) auto
  show ?case
  proof (cases "c x y = Greater")
    case True
    then have "c y x \<noteq> Greater" using Cons.prems(1) by (auto simp: total_on_def)
    then show ?thesis using Cons t True by auto
  next
    case False
    have "c x z \<noteq> Greater" if "z \<in> set ys" for z
      using total_on_trans [OF Cons.prems(1), of x y z] Cons.prems(2) False that by simp
    then show ?thesis using Cons.prems False by auto
  qed
qed simp

lemma sorted_sort_total: "total_on c (set xs) \<Longrightarrow> sorted_wrt (\<lambda>a b. c a b \<noteq> Greater) (sort_by c xs)"
proof (induction xs)
  case (Cons x xs)
  have "total_on c (set xs)" by (rule total_on_mono [OF Cons.prems]) auto
  then show ?case using Cons sorted_insort_total [of c x "sort_by c xs"] by simp
qed simp

lemma selector_ok_sort: "selector_ok (\<lambda>c k xs. sort_by c xs)"
proof (unfold selector_ok_def, intro allI impI conjI ballI)
  fix c k xs x y assume a: "total_on c (set xs)" "k < length xs"
    "x \<in> set (take k (sort_by c xs))" "y \<in> set (drop k (sort_by c (xs :: keyed list)))"
  have "sorted_wrt (\<lambda>a b. c a b \<noteq> Greater) (take k (sort_by c xs) @ drop k (sort_by c xs))"
    using sorted_sort_total [OF a(1)] by simp
  then show "c x y \<noteq> Greater" using a(3,4) unfolding sorted_wrt_append by blast
qed simp

lemma top_k_ok:
  assumes sel: "selector_ok sel" and t: "total_on (keyed_cmp os) (set xs)"
  obtains rest where "mset (top_k sel os limit xs) + rest = mset xs"
    "length (top_k sel os limit xs) = (case limit of Some k \<Rightarrow> min k (length xs) | None \<Rightarrow> length xs)"
    "sorted_wrt (\<lambda>a b. keyed_cmp os a b \<noteq> Greater) (top_k sel os limit xs)"
    "\<forall>x \<in> set (top_k sel os limit xs). \<forall>y \<in># rest. keyed_cmp os x y \<noteq> Greater"
proof (cases "\<exists>k. limit = Some k \<and> k < length xs")
  case True
  then obtain k where k: "limit = Some k" "k < length xs" by blast
  let ?ys = "sel (keyed_cmp os) k xs"
  have y: "mset ?ys = mset xs" "\<forall>x \<in> set (take k ?ys). \<forall>y \<in> set (drop k ?ys). keyed_cmp os x y \<noteq> Greater"
    using sel t k(2) unfolding selector_ok_def by blast+
  have len: "length ?ys = length xs" using y(1) by (metis size_mset)
  have e: "top_k sel os limit xs = sort_by (keyed_cmp os) (take k ?ys)" using k by (simp add: top_k_def)
  have "mset (take k ?ys) + mset (drop k ?ys) = mset ?ys" by (metis append_take_drop_id mset_append)
  then have "mset (top_k sel os limit xs) + mset (drop k ?ys) = mset xs" by (simp add: e y(1))
  moreover have "set (take k ?ys) \<subseteq> set xs" using set_take_subset [of k ?ys] y(1) by (metis set_mset_mset)
  then have "sorted_wrt (\<lambda>a b. keyed_cmp os a b \<noteq> Greater) (top_k sel os limit xs)"
    unfolding e by (rule sorted_sort_total [OF total_on_mono [OF t]])
  moreover have "set (top_k sel os limit xs) = set (take k ?ys)" "length (top_k sel os limit xs) = k"
    unfolding e using k len by simp_all
  ultimately show ?thesis using that [of "mset (drop k ?ys)"] y(2) k by simp
next
  case False
  then have e: "top_k sel os limit xs = sort_by (keyed_cmp os) xs" by (auto simp: top_k_def split: option.split)
  have "length xs = (case limit of Some k \<Rightarrow> min k (length xs) | None \<Rightarrow> length xs)"
    using False by (auto split: option.split)
  then show ?thesis using that [of "{#}"] sorted_sort_total [OF t] by (simp add: e)
qed

text \<open>The rows a query returns in order: the sort keys are evaluated on the source rows.\<close>

definition sortable :: "schema \<Rightarrow> data_type \<Rightarrow> expr \<Rightarrow> bool" where
  "sortable s ty e \<longleftrightarrow> (\<forall>r. row_ok s r \<longrightarrow> (\<exists>v. eval e r = Some v \<and> v \<in> col_values ty))"

lemma sortable_column: "c < arity s \<Longrightarrow> sortable s (col_ty s c) (EColumn c)"
  by (simp add: sortable_def row_ok_def row_value_def col_values_def)

definition order_vals :: "order_key list \<Rightarrow> row \<Rightarrow> value_t list" where
  "order_vals os r = map (\<lambda>o1. the (eval (ok_expr o1) r)) os"

definition row_before :: "order_key list \<Rightarrow> row \<Rightarrow> row \<Rightarrow> bool" where
  "row_before os r q \<longleftrightarrow> keys_cmp os (order_vals os r) (order_vals os q) \<noteq> Greater"

lemma order_vals_dom:
  assumes "list_all2 (\<lambda>o1 ty. sortable s ty (ok_expr o1)) os tys" "row_ok s r"
  shows "order_vals os r \<in> keys_dom tys" "\<forall>o1 \<in> set os. \<exists>v. eval (ok_expr o1) r = Some v"
proof -
  have "order_vals os r \<in> keys_dom tys \<and> (\<forall>o1 \<in> set os. \<exists>v. eval (ok_expr o1) r = Some v)"
    using assms(1)
  proof (induction rule: list_all2_induct)
    case (Cons o1 os ty tys)
    then show ?case using assms(2) by (auto simp: sortable_def order_vals_def)
  qed (simp add: order_vals_def)
  then show "order_vals os r \<in> keys_dom tys" "\<forall>o1 \<in> set os. \<exists>v. eval (ok_expr o1) r = Some v" by blast+
qed

definition keyed_hit :: "order_key list \<Rightarrow> batch \<times> nat \<Rightarrow> keyed" where
  "keyed_hit os h = (order_vals os (hit_row h), h)"

lemma sort_keys_ok:
  assumes "\<forall>o1 \<in> set os. \<exists>v. eval (ok_expr o1) (hit_row h) = Some v" "hit_ok s h"
  shows "sort_keys os h = Some (keyed_hit os h)"
proof -
  have "traverse (\<lambda>o1. eval_at (ok_expr o1) (fst h) (snd h)) os = Some (order_vals os (hit_row h))"
    unfolding order_vals_def using assms(1) by (intro traverse_Some) (auto simp: eval_at_hit [OF assms(2)])
  then show ?thesis by (simp add: sort_keys_def keyed_hit_def)
qed

lemma project_ordered_ok:
  assumes sel: "selector_ok sel" and p: "list_all is_plain_expr projs" "list_all (safe_projection s) projs" "length out = length projs"
    and o1: "list_all2 (\<lambda>o1 ty. sortable s ty (ok_expr o1)) os tys"
    and hs: "hits f bs = Some hs" "\<forall>h \<in> set hs. hit_ok s h"
  obtains ts rs rest where
    "project_ordered sel projs out bs f os limit = Some (OutRows (map label_of projs) ts (map (out_cells projs out) rs))"
    "mset rs + rest = mset (map hit_row hs)" "length rs = (case limit of Some k \<Rightarrow> min k (length hs) | None \<Rightarrow> length hs)"
    "sorted_wrt (row_before os) rs" "\<forall>r \<in> set rs. \<forall>q \<in># rest. row_before os r q"
proof -
  let ?ks = "map (keyed_hit os) hs"
  let ?top = "top_k sel os limit ?ks"
  have vals: "order_vals os (hit_row h) \<in> keys_dom tys" "sort_keys os h = Some (keyed_hit os h)" if "h \<in> set hs" for h
    using that hs(2) order_vals_dom [OF o1 hit_row_ok] sort_keys_ok by blast+
  have tr: "traverse (sort_keys os) hs = Some ?ks" by (rule traverse_Some) (rule vals(2))
  have "total_on (\<lambda>a b. keys_cmp os (fst a) (fst b)) (set ?ks)"
    by (rule total_on_order [OF cmp_order_keys]) (use vals(1) o1 in \<open>auto simp: keyed_hit_def dest: list_all2_lengthD\<close>)
  then have t: "total_on (keyed_cmp os) (set ?ks)" by (simp add: keyed_cmp_def [abs_def])
  obtain rest where top: "mset ?top + rest = mset ?ks" "length ?top = (case limit of Some k \<Rightarrow> min k (length ?ks) | None \<Rightarrow> length ?ks)"
    "sorted_wrt (\<lambda>a b. keyed_cmp os a b \<noteq> Greater) ?top" "\<forall>x \<in> set ?top. \<forall>y \<in># rest. keyed_cmp os x y \<noteq> Greater"
    by (rule top_k_ok [OF sel t])
  have mem: "x \<in># mset ?ks" if "x \<in> set ?top \<or> x \<in># rest" for x
    using that top(1) by (metis set_mset_mset union_iff)
  have key: "x = keyed_hit os (snd x) \<and> snd x \<in> set hs" if "x \<in> set ?top \<or> x \<in># rest" for x
    using mem [OF that] by (auto simp: keyed_hit_def)
  let ?row = "\<lambda>x :: keyed. hit_row (snd x)"
  have kc: "keyed_cmp os x y \<noteq> Greater \<longleftrightarrow> row_before os (?row x) (?row y)"
    if "x \<in> set ?top \<or> x \<in># rest" "y \<in> set ?top \<or> y \<in># rest" for x y
    using key [OF that(1)] key [OF that(2)] unfolding keyed_cmp_def row_before_def keyed_hit_def by (metis fst_conv)
  have "\<forall>h \<in> set (map snd ?top). hit_ok s h"
  proof
    fix h assume "h \<in> set (map snd ?top)"
    then obtain x where "x \<in> set ?top" "h = snd x" unfolding set_map by blast
    then show "hit_ok s h" using key [of x] hs(2) by blast
  qed
  from render_hits_ok [OF p this] obtain ts where ts: "render_hits projs out (map snd ?top) (unknown_types projs) =
      Some (map (out_cells projs out) (map hit_row (map snd ?top)), ts)" by blast
  show ?thesis
  proof (rule that)
    show "project_ordered sel projs out bs f os limit =
        Some (OutRows (map label_of projs) ts (map (out_cells projs out) (map ?row ?top)))"
      using hs(1) tr ts by (simp add: project_ordered_def comp_def)
    have "image_mset ?row (mset ?top + rest) = image_mset ?row (mset ?ks)" by (simp only: top(1))
    then show "mset (map ?row ?top) + image_mset ?row rest = mset (map hit_row hs)"
      by (simp add: keyed_hit_def image_mset.compositionality comp_def)
    show "length (map ?row ?top) = (case limit of Some k \<Rightarrow> min k (length hs) | None \<Rightarrow> length hs)" using top(2) by (simp only: length_map)
    show "sorted_wrt (row_before os) (map ?row ?top)"
      unfolding sorted_wrt_map by (rule sorted_wrt_mono_rel [OF _ top(3)]) (use kc in blast)
    show "\<forall>r \<in> set (map ?row ?top). \<forall>q \<in># image_mset ?row rest. row_before os r q"
      using top(4) kc by auto
  qed
qed

lemma select_ordered:
  assumes A: "arrow_ok A" and M: "arrow_minmax_ok A" and sel: "selector_ok sel" and t: "table_ok g t" "zones A t" and snap: "snap \<noteq> NEVER_DELETED"
    and rows: "\<forall>r \<in># view snap (tb_versions t). plain_row r"
    and p: "projs \<noteq> []" "list_all is_plain_expr projs" "list_all (safe_projection (tb_schema t)) projs"
    and f: "safe_filter (tb_schema t) f" "\<forall>e. f = Some e \<longrightarrow> lits_ok (tb_schema t) e"
    and o1: "os \<noteq> []" "list_all2 (\<lambda>o1 ty. sortable (tb_schema t) ty (ok_expr o1)) os tys"
    and key: "point_lookup_key f [] False projs (tb_ki t) = None"
  shows "\<exists>out ts rs rest t'. projection_types projs (tb_schema t) = Some out \<and>
    select_table A sel projs f [] os limit False snap t = Some (OutRows (map label_of projs) ts (map (out_cells projs out) rs), t') \<and>
    untouched g t t' \<and> mset rs + rest = filter_mset (row_passes f) (view snap (tb_versions t)) \<and>
    length rs = (case limit of Some k \<Rightarrow> min k (size (mset rs + rest)) | None \<Rightarrow> size (mset rs + rest)) \<and>
    sorted_wrt (row_before os) rs \<and> (\<forall>r \<in> set rs. \<forall>q \<in># rest. row_before os r q)"
proof -
  let ?s = "tb_schema t" and ?V = "view snap (tb_versions t)"
  obtain out where out: "projection_types projs ?s = Some out" "length out = length projs"
    by (rule projection_types_ok [OF p(3)])
  obtain segs t' hs where h: "scan_segments A snap t = Some (segs, t')" "untouched g t t'"
    "hits f (map seg_batch (filter (keeps_segment f) segs)) = Some hs" "\<forall>h \<in> set hs. hit_ok ?s h"
    "mset (map hit_row hs) = filter_mset (row_passes f) ?V"
    by (rule scan_hits_ok [OF A M t snap rows f])
  obtain ts rs rest where r:
    "project_ordered sel projs out (map seg_batch (filter (keeps_segment f) segs)) f os limit =
       Some (OutRows (map label_of projs) ts (map (out_cells projs out) rs))"
    "mset rs + rest = mset (map hit_row hs)" "length rs = (case limit of Some k \<Rightarrow> min k (length hs) | None \<Rightarrow> length hs)"
    "sorted_wrt (row_before os) rs" "\<forall>r \<in> set rs. \<forall>q \<in># rest. row_before os r q"
    by (rule project_ordered_ok [OF sel p(2,3) out(2) o1(2) h(3,4)])
  have sz: "size (mset rs + rest) = length hs" by (simp only: r(2) size_mset length_map)
  have len: "length rs = (case limit of Some k \<Rightarrow> min k (size (mset rs + rest)) | None \<Rightarrow> size (mset rs + rest))"
    unfolding sz by (rule r(3))
  have "select_table A sel projs f [] os limit False snap t =
      Some (OutRows (map label_of projs) ts (map (out_cells projs out) rs), t')"
    using h(1) r(1) p(2) o1(1) key out(1) is_bare_plain [OF p(1,2)] by (simp add: select_table_def select_segments_def)
  then show ?thesis using out(1) h(2,5) r(2,4,5) len by metis
qed

section \<open>GROUP BY\<close>

text \<open>The reference: the accumulators of a group are folds over its rows.\<close>

definition group_of :: "nat list \<Rightarrow> row \<Rightarrow> group_key" where
  "group_of cols r = (case cols of [c] \<Rightarrow> GkOne (r ! c) | _ \<Rightarrow> GkMany (map ((!) r) cols))"

definition agg_input :: "nat option \<Rightarrow> row \<Rightarrow> value_t" where
  "agg_input arg r = (case arg of Some c \<Rightarrow> r ! c | None \<Rightarrow> VInt 1)"

definition agg_acc :: "value_t list \<Rightarrow> acc" where
  "agg_acc vs = foldl (\<lambda>a v. acc_push v a) acc_new vs"

definition group_accs :: "projection list \<Rightarrow> row list \<Rightarrow> acc list" where
  "group_accs projs rs = map (\<lambda>p. case p of PAgg _ arg _ \<Rightarrow> agg_acc (map (agg_input arg) rs) | PExpr _ _ \<Rightarrow> acc_new) projs"

definition group_entry :: "projection list \<Rightarrow> row list \<Rightarrow> (i64 \<times> acc list) option" where
  "group_entry projs rs = (if rs = [] then None else Some (word_of_nat (length rs), group_accs projs rs))"

definition groups_of :: "projection list \<Rightarrow> nat list \<Rightarrow> data_type list \<Rightarrow> row list \<Rightarrow> groups \<Rightarrow> bool" where
  "groups_of projs cols tys rs gs \<longleftrightarrow>
     cmp_order.bt_ok gk_cmp (group_dom tys) gs \<and>
     (\<forall>k \<in> group_dom tys. map_of gs k = group_entry projs (filter (\<lambda>r. group_of cols r = k) rs))"

lemma batch_value_hit:
  assumes "hit_ok s h" "c < arity s"
  shows "batch_value (fst h) c (snd h) = Some (hit_row h ! c)"
proof -
  have "batch_value (fst h) c (snd h) = Some (row_value (hit_row h) c)"
    using assms(1) batch_value_ok [of "fst h" "snd h" c] by (simp add: hit_ok_def hit_row_def)
  moreover have "length (hit_row h) = arity s" using hit_row_ok [OF assms(1)] by (simp add: row_ok_def)
  ultimately show ?thesis using assms(2) by (simp add: row_value_def)
qed

lemma group_key_of_ok:
  assumes "\<And>c. c \<in> set cols \<Longrightarrow> val c = Some (r ! c)"
  shows "group_key_of cols val = Some (group_of cols r)"
proof -
  have "traverse val cols = Some (map ((!) r) cols)" by (rule traverse_Some) (rule assms)
  then show ?thesis using assms by (auto simp: group_key_of_def group_of_def split: list.split)
qed

lemma group_of_dom:
  assumes "row_ok s r" "\<forall>c \<in> set cols. c < arity s"
  shows "group_of cols r \<in> group_dom (map (col_ty s) cols)"
proof -
  have "map ((!) r) cols \<in> keys_dom (map (col_ty s) cols)"
    using assms(2) by (induction cols) (use assms(1) in \<open>auto simp: row_ok_def col_values_def\<close>)
  then show ?thesis by (auto simp: group_of_def group_dom_def split: list.split)
qed

lemma push_row_ok:
  assumes "\<And>c. c < arity s \<Longrightarrow> val c = Some (r ! c)" "list_all (safe_projection s) projs"
  shows "push_row val projs (group_accs projs rs) = Some (group_accs projs (rs @ [r]))"
  using assms(2)
proof (induction projs)
  case (Cons p ps)
  then show ?case using assms(1)
    by (cases p) (auto simp: group_accs_def agg_acc_def agg_input_def split: option.split)
qed (simp add: group_accs_def)

lemma group_accs_Nil: "group_accs projs [] = new_accs projs"
  by (induction projs) (auto simp: group_accs_def new_accs_def agg_acc_def split: projection.split)

lemma group_hit_ok:
  assumes gs: "groups_of projs cols (map (col_ty s) cols) rs gs" and r: "row_ok s r" and c: "\<forall>c \<in> set cols. c < arity s"
    and val: "\<And>c. c < arity s \<Longrightarrow> val c = Some (r ! c)" and p: "list_all (safe_projection s) projs"
  obtains gs' where "group_hit projs cols val gs = Some gs'" "groups_of projs cols (map (col_ty s) cols) (rs @ [r]) gs'"
proof -
  let ?tys = "map (col_ty s) cols" and ?k = "group_of cols r"
  let ?f = "\<lambda>k. filter (\<lambda>r. group_of cols r = k) rs"
  note co = cmp_order_group [of ?tys]
  have k: "?k \<in> group_dom ?tys" by (rule group_of_dom [OF r c])
  have ok: "cmp_order.bt_ok gk_cmp (group_dom ?tys) gs" using gs by (simp add: groups_of_def)
  have kv: "group_key_of cols val = Some ?k" by (rule group_key_of_ok) (use c val in blast)
  have get: "bt_get gk_cmp ?k gs = group_entry projs (?f ?k)"
    using cmp_order.bt_get_map_of [OF co ok k] gs k by (simp add: groups_of_def)
  have "(case bt_get gk_cmp ?k gs of Some e \<Rightarrow> e | None \<Rightarrow> (0, new_accs projs)) = (word_of_nat (length (?f ?k)), group_accs projs (?f ?k))"
    by (simp add: get group_entry_def group_accs_Nil)
  then have "group_hit projs cols val gs =
      Some (bt_insert gk_cmp ?k (word_of_nat (length (?f ?k)) + 1, group_accs projs (?f ?k @ [r])) gs)" (is "_ = Some ?gs")
    using kv push_row_ok [OF val p] by (simp add: group_hit_def)
  moreover have "groups_of projs cols ?tys (rs @ [r]) ?gs"
    unfolding groups_of_def cmp_order.map_of_bt_insert [OF co ok k]
    using gs cmp_order.bt_ok_insert [OF co ok k]
    by (auto simp: groups_of_def group_entry_def)
  ultimately show ?thesis by (rule that)
qed

lemma group_hits_ok:
  assumes "\<forall>h \<in> set hs. hit_ok s h" "\<forall>c \<in> set cols. c < arity s" "list_all (safe_projection s) projs"
    "groups_of projs cols (map (col_ty s) cols) rs gs"
  shows "\<exists>gs'. group_hits projs cols hs gs = Some gs' \<and> groups_of projs cols (map (col_ty s) cols) (rs @ map hit_row hs) gs'"
  using assms(1,4)
proof (induction hs arbitrary: rs gs)
  case (Cons h hs)
  obtain b i where h: "h = (b, i)" by force
  have ok: "hit_ok s h" using Cons.prems(1) by simp
  have "\<And>c. c < arity s \<Longrightarrow> batch_value b c i = Some (hit_row h ! c)" using batch_value_hit [OF ok] by (simp add: h)
  from group_hit_ok [OF Cons.prems(2) hit_row_ok [OF ok] assms(2) this assms(3)]
  obtain gs' where "group_hit projs cols (\<lambda>c. batch_value b c i) gs = Some gs'"
    "groups_of projs cols (map (col_ty s) cols) (rs @ [hit_row h]) gs'" by blast
  then show ?case using Cons.IH [of "rs @ [hit_row h]" gs'] Cons.prems(1) by (simp add: h)
qed simp

text \<open>The cells of the output row of a group.\<close>

fun group_cells :: "group_key \<Rightarrow> row list \<Rightarrow> nat \<Rightarrow> projection list \<Rightarrow> data_type list \<Rightarrow> string list" where
  "group_cells k rs gi (PAgg f arg _ # ps) (ty # out) =
     render_as (acc_value f (arg = None) (word_of_nat (length rs)) (agg_acc (map (agg_input arg) rs))) ty # group_cells k rs gi ps out"
| "group_cells k rs gi (PExpr _ _ # ps) (ty # out) =
     (case gk_component k gi of Some v \<Rightarrow> render_as v ty | None \<Rightarrow> '''') # group_cells k rs (Suc gi) ps out"
| "group_cells k rs gi _ _ = []"

lemma render_group_ok:
  "length out = i + length ps \<Longrightarrow>
     \<exists>ts'. render_group k (word_of_nat (length rs)) out i gi ps (group_accs ps rs) ts = Some (group_cells k rs gi ps (drop i out), ts')"
proof (induction ps arbitrary: i gi ts)
  case (Cons p ps)
  have i: "i < length out" using Cons.prems by simp
  have d: "drop i out = out ! i # drop (Suc i) out" using i by (simp add: Cons_nth_drop_Suc)
  have IH: "\<exists>ts'. render_group k (word_of_nat (length rs)) out (Suc i) gi' ps (group_accs ps rs) ts2 =
      Some (group_cells k rs gi' ps (drop (Suc i) out), ts')" for gi' ts2
    using Cons by simp
  show ?case
  proof (cases p)
    case (PExpr e l)
    obtain ts2 where "render_group k (word_of_nat (length rs)) out (Suc i) (Suc gi) ps (group_accs ps rs)
        (case gk_component k gi of Some v \<Rightarrow> note_type i v ts | None \<Rightarrow> ts) = Some (group_cells k rs (Suc gi) ps (drop (Suc i) out), ts2)"
      using IH by blast
    then show ?thesis using i by (simp add: PExpr d group_accs_def)
  next
    case (PAgg f arg l)
    obtain ts2 where "render_group k (word_of_nat (length rs)) out (Suc i) gi ps (group_accs ps rs)
        (note_type i (acc_value f (arg = None) (word_of_nat (length rs)) (agg_acc (map (agg_input arg) rs))) ts) =
        Some (group_cells k rs gi ps (drop (Suc i) out), ts2)"
      using IH by blast
    then show ?thesis using i by (simp add: PAgg d group_accs_def)
  qed
qed simp

lemma render_groups_ok:
  assumes "\<forall>(k, e) \<in> set gs. e = (word_of_nat (length (R k)), group_accs projs (R k))" "length out = length projs"
  shows "\<exists>ts'. render_groups projs out gs ts = Some (map (\<lambda>(k, e). group_cells k (R k) 0 projs out) gs, ts')"
  using assms(1)
proof (induction gs arbitrary: ts)
  case (Cons g gs)
  obtain k where g: "g = (k, word_of_nat (length (R k)), group_accs projs (R k))" using Cons.prems by (cases g) auto
  obtain ts1 where "render_group k (word_of_nat (length (R k))) out 0 0 projs (group_accs projs (R k)) ts =
      Some (group_cells k (R k) 0 projs out, ts1)"
    using render_group_ok [of out 0 projs k "R k" 0 ts] assms(2) by auto
  moreover obtain ts2 where "render_groups projs out gs ts1 = Some (map (\<lambda>(k, e). group_cells k (R k) 0 projs out) gs, ts2)"
    using Cons by fastforce
  ultimately show ?case by (simp add: g)
qed simp

text \<open>One output row per group in key order; without grouping columns, one row in any case.\<close>

definition group_before :: "group_key \<Rightarrow> group_key \<Rightarrow> bool" where
  "group_before a b \<longleftrightarrow> gk_cmp a b = Less"

lemma aggregate_rows_ok:
  assumes hs: "hits f bs = Some hs" "\<forall>h \<in> set hs. hit_ok s h" and c: "\<forall>c \<in> set cols. c < arity s"
    and p: "list_all (safe_projection s) projs" "length out = length projs"
  obtains ts ks where
    "aggregate_rows projs out cols bs f =
       Some (map label_of projs, ts, map (\<lambda>k. group_cells k (filter (\<lambda>r. group_of cols r = k) (map hit_row hs)) 0 projs out) ks)"
    "sorted_wrt group_before ks" "set ks = (if cols = [] then {GkMany []} else group_of cols ` set (map hit_row hs))"
proof -
  let ?tys = "map (col_ty s) cols" and ?rs = "map hit_row hs"
  let ?R = "\<lambda>k. filter (\<lambda>r. group_of cols r = k) ?rs"
  note co = cmp_order_group [of ?tys]
  have "groups_of projs cols ?tys [] []" by (simp add: groups_of_def group_entry_def cmp_order.bt_ok_Nil [OF co])
  from group_hits_ok [OF hs(2) c p(1) this] obtain gs where gs: "group_hits projs cols hs [] = Some gs" "groups_of projs cols ?tys ?rs gs"
    by auto
  have ok: "cmp_order.bt_ok gk_cmp (group_dom ?tys) gs" using gs(2) by (simp add: groups_of_def)
  have lt: "cmp_order.lt gk_cmp = group_before"
    by (intro ext) (simp add: cmp_order.lt_def [OF co] group_before_def)
  have dom: "fst ` set gs \<subseteq> group_dom ?tys" and srt: "sorted_wrt group_before (map fst gs)"
    using ok by (auto simp: cmp_order.bt_ok_def [OF co] lt)
  have dist: "distinct (map fst gs)"
  proof -
    have "distinct ks" if "sorted_wrt group_before ks" "set ks \<subseteq> group_dom ?tys" for ks
      using that by (induction ks) (auto simp: group_before_def cmp_order.cmp_refl [OF co])
    then show ?thesis using srt dom by simp
  qed
  have ent: "e = (word_of_nat (length (?R k)), group_accs projs (?R k)) \<and> ?R k \<noteq> []" if "(k, e) \<in> set gs" for k e
  proof -
    have "map_of gs k = Some e" using dist that by simp
    moreover have "k \<in> group_dom ?tys" using dom that by force
    ultimately show ?thesis using gs(2) by (simp add: groups_of_def group_entry_def split: if_splits)
  qed
  have keys: "fst ` set gs = group_of cols ` set ?rs"
  proof (intro equalityI subsetI)
    fix k assume "k \<in> fst ` set gs"
    then obtain e where "(k, e) \<in> set gs" by auto
    then have "?R k \<noteq> []" using ent by blast
    then show "k \<in> group_of cols ` set ?rs" by (force simp: filter_empty_conv)
  next
    fix k assume k: "k \<in> group_of cols ` set ?rs"
    then have "k \<in> group_dom ?tys" using group_of_dom [OF hit_row_ok c] hs(2) by auto
    moreover have "?R k \<noteq> []" using k by (auto simp: filter_empty_conv)
    ultimately have "map_of gs k \<noteq> None" using gs(2) by (simp add: groups_of_def group_entry_def)
    then show "k \<in> fst ` set gs" by (simp add: map_of_eq_None_iff)
  qed
  define gs2 where "gs2 = (if gs = [] \<and> cols = [] then [(GkMany [], 0, new_accs projs)] else gs)"
  have empty: "gs = [] \<longleftrightarrow> hs = []" using keys by auto
  have ent2: "\<forall>(k, e) \<in> set gs2. e = (word_of_nat (length (?R k)), group_accs projs (?R k))"
    using ent empty by (auto simp: gs2_def group_accs_Nil)
  obtain ts where ts: "render_groups projs out gs2 (unknown_types projs) = Some (map (\<lambda>(k, e). group_cells k (?R k) 0 projs out) gs2, ts)"
    using render_groups_ok [OF ent2 p(2)] by blast
  have "aggregate_rows projs out cols bs f = Some (map label_of projs, ts, map (\<lambda>k. group_cells k (?R k) 0 projs out) (map fst gs2))"
    using hs(1) gs(1) ts by (simp add: aggregate_rows_def gs2_def case_prod_unfold comp_def)
  moreover have "sorted_wrt group_before (map fst gs2)" using srt by (simp add: gs2_def)
  moreover have "set (map fst gs2) = (if cols = [] then {GkMany []} else group_of cols ` set ?rs)"
    using keys empty by (cases hs) (auto simp: gs2_def group_of_def)
  ultimately show ?thesis by (rule that)
qed

section \<open>What the aggregates compute\<close>

lemma agg_acc_simps [simp]: "agg_acc [] = acc_new" "agg_acc (vs @ [v]) = acc_push v (agg_acc vs)"
  by (simp_all add: agg_acc_def)

abbreviation non_null :: "value_t list \<Rightarrow> value_t list" where
  "non_null vs \<equiv> filter (\<lambda>v. v \<noteq> VNull) vs"

lemma is_null_iff: "is_null v \<longleftrightarrow> v = VNull"
  by (cases v) simp_all

lemma acc_push_null: "acc_push VNull a = a"
  by (simp add: acc_push_def)

lemma push_exact_fields [simp]:
  "ac_count (push_exact v a) = ac_count a" "ac_min (push_exact v a) = ac_min a" "ac_max (push_exact v a) = ac_max a"
  "ac_seen_numeric (push_exact v a) = ac_seen_numeric a"
  by (cases v; simp split: option.split)+

lemma acc_push_fields:
  assumes "v \<noteq> VNull"
  shows "ac_count (acc_push v a) = ac_count a + 1"
    "ac_min (acc_push v a) = (if case ac_min a of None \<Rightarrow> True | Some m \<Rightarrow> total_cmp v m = Less then Some v else ac_min a)"
    "ac_max (acc_push v a) = (if case ac_max a of None \<Rightarrow> True | Some m \<Rightarrow> total_cmp v m = Greater then Some v else ac_max a)"
    "ac_seen_numeric (acc_push v a) = (ac_seen_numeric a \<or> as_f64 v \<noteq> None)"
  using assms by (auto simp: acc_push_def is_null_iff Let_def split: option.split)

lemma count_ok: "ac_count (agg_acc vs) = word_of_nat (length (non_null vs))"
  by (induction vs rule: rev_induct) (auto simp: acc_new_def acc_push_null acc_push_fields)

lemma min_ok:
  assumes "set vs \<subseteq> col_values ty"
  shows "case ac_min (agg_acc vs) of None \<Rightarrow> non_null vs = []
    | Some m \<Rightarrow> m \<in> set (non_null vs) \<and> (\<forall>v \<in> set (non_null vs). vo.le m v)"
  using assms
proof (induction vs rule: rev_induct)
  case (snoc v vs)
  show ?case
  proof (cases "v = VNull")
    case False
    have v: "v \<in> col_values ty" using snoc.prems by simp
    show ?thesis
    proof (cases "ac_min (agg_acc vs)")
      case None
      then show ?thesis using snoc False vo.le_refl [OF v] by (simp add: acc_push_fields)
    next
      case (Some m)
      then have m: "m \<in> set (non_null vs)" "\<forall>w \<in> set (non_null vs). vo.le m w" using snoc by auto
      have mk: "m \<in> col_values ty" using m(1) snoc.prems by auto
      have "vo.le v w" if "vo.lt v m" "w \<in> set (non_null vs)" for w
        using vo.le_trans [OF v mk, of w] m(2) that snoc.prems vo.le_iff [OF v mk] by auto
      then show ?thesis
        using Some False m vo.le_refl [OF v] vo.not_le [OF mk v] by (auto simp: acc_push_fields vo.lt_def)
    qed
  qed (use snoc in \<open>simp add: acc_push_null split: option.splits\<close>)
qed (simp add: acc_new_def)

lemma max_ok:
  assumes "set vs \<subseteq> col_values ty"
  shows "case ac_max (agg_acc vs) of None \<Rightarrow> non_null vs = []
    | Some m \<Rightarrow> m \<in> set (non_null vs) \<and> (\<forall>v \<in> set (non_null vs). vo.le v m)"
  using assms
proof (induction vs rule: rev_induct)
  case (snoc v vs)
  show ?case
  proof (cases "v = VNull")
    case False
    have v: "v \<in> col_values ty" using snoc.prems by simp
    show ?thesis
    proof (cases "ac_max (agg_acc vs)")
      case None
      then show ?thesis using snoc False vo.le_refl [OF v] by (simp add: acc_push_fields)
    next
      case (Some m)
      then have m: "m \<in> set (non_null vs)" "\<forall>w \<in> set (non_null vs). vo.le w m" using snoc by auto
      have mk: "m \<in> col_values ty" using m(1) snoc.prems by auto
      have g: "total_cmp v m = Greater \<longleftrightarrow> vo.lt m v" using vo.cmp_swap [OF mk v] by (simp add: vo.lt_def)
      have "vo.le w v" if "vo.lt m v" "w \<in> set (non_null vs)" for w
        using vo.le_trans [OF _ mk v, of w] m(2) that snoc.prems vo.le_iff [OF mk v] by auto
      then show ?thesis
        using Some False m vo.le_refl [OF v] vo.not_le [OF v mk] by (auto simp: acc_push_fields g)
    qed
  qed (use snoc in \<open>simp add: acc_push_null split: option.splits\<close>)
qed (simp add: acc_new_def)

fun int_of :: "value_t \<Rightarrow> i64" where
  "int_of (VInt i) = i"
| "int_of _ = 0"

lemma sum_int_ok:
  assumes "\<forall>v \<in> set vs. v = VNull \<or> (\<exists>i. v = VInt i)"
  shows "ac_all_int (agg_acc vs)" "ac_seen_numeric (agg_acc vs) \<longleftrightarrow> non_null vs \<noteq> []"
    "ac_int_sum (agg_acc vs) = sum_list (map int_of (non_null vs))"
proof -
  have "ac_all_int (agg_acc vs) \<and> (ac_seen_numeric (agg_acc vs) \<longleftrightarrow> non_null vs \<noteq> []) \<and>
    ac_int_sum (agg_acc vs) = sum_list (map int_of (non_null vs))"
    using assms
  proof (induction vs rule: rev_induct)
    case (snoc v vs)
    then consider "v = VNull" | i where "v = VInt i" by auto
    then show ?case using snoc by cases (auto simp: acc_push_null acc_push_def Let_def)
  qed (simp add: acc_new_def)
  then show "ac_all_int (agg_acc vs)" "ac_seen_numeric (agg_acc vs) \<longleftrightarrow> non_null vs \<noteq> []"
    "ac_int_sum (agg_acc vs) = sum_list (map int_of (non_null vs))" by blast+
qed

fun mantissa :: "value_t \<Rightarrow> i128" where
  "mantissa (VDecimal m _) = m"
| "mantissa _ = 0"

lemma sum_decimal_ok:
  assumes "\<forall>v \<in> set vs. v = VNull \<or> (\<exists>m. v = VDecimal m sc)"
  shows "ac_all_dec (agg_acc vs)" "ac_seen_numeric (agg_acc vs) \<longleftrightarrow> non_null vs \<noteq> []"
    "non_null vs \<noteq> [] \<Longrightarrow> \<not> ac_all_int (agg_acc vs) \<and> ac_dec_scale (agg_acc vs) = Some sc"
    "ac_dec_sum (agg_acc vs) = sum_list (map mantissa (non_null vs))"
proof -
  have "ac_all_dec (agg_acc vs) \<and> (ac_seen_numeric (agg_acc vs) \<longleftrightarrow> non_null vs \<noteq> []) \<and>
    ac_all_int (agg_acc vs) = (non_null vs = []) \<and> ac_dec_scale (agg_acc vs) = (if non_null vs = [] then None else Some sc) \<and>
    ac_dec_sum (agg_acc vs) = sum_list (map mantissa (non_null vs))"
    using assms
  proof (induction vs rule: rev_induct)
    case (snoc v vs)
    then consider "v = VNull" | m where "v = VDecimal m sc" by auto
    then show ?case using snoc by cases (auto simp: acc_push_null acc_push_def Let_def)
  qed (simp add: acc_new_def)
  then show "ac_all_dec (agg_acc vs)" "ac_seen_numeric (agg_acc vs) \<longleftrightarrow> non_null vs \<noteq> []"
    "non_null vs \<noteq> [] \<Longrightarrow> \<not> ac_all_int (agg_acc vs) \<and> ac_dec_scale (agg_acc vs) = Some sc"
    "ac_dec_sum (agg_acc vs) = sum_list (map mantissa (non_null vs))" by simp_all
qed

section \<open>Grouped queries and the row count\<close>

text \<open>The fast path for a bare MIN or MAX gives what the aggregation over the visible rows would give.\<close>

lemma extreme_unique:
  assumes V: "set vs \<subseteq> col_values ty" and bd: "bounds_exact (set vs) bd"
  shows "acc_value AggMin st n (agg_acc vs) = (case bd of Some (lo, _) \<Rightarrow> lo | None \<Rightarrow> VNull)"
    "acc_value AggMax st n (agg_acc vs) = (case bd of Some (_, hi) \<Rightarrow> hi | None \<Rightarrow> VNull)"
proof -
  have e: "set (non_null vs) = set vs - {VNull}" by auto
  have ends: "acc_value AggMin st n (agg_acc vs) = (case bd of Some (lo, _) \<Rightarrow> lo | None \<Rightarrow> VNull) \<and>
    acc_value AggMax st n (agg_acc vs) = (case bd of Some (_, hi) \<Rightarrow> hi | None \<Rightarrow> VNull)"
  proof (cases bd)
    case None
    then have "non_null vs = []" using bd by (auto simp: bounds_exact_def filter_empty_conv)
    then have "ac_min (agg_acc vs) = None" "ac_max (agg_acc vs) = None"
      using min_ok [OF V] max_ok [OF V] by (auto split: option.splits)
    then show ?thesis using None by simp
  next
    case (Some b)
    obtain lo hi where b: "b = (lo, hi)" by force
    have B: "lo \<in> set (non_null vs)" "hi \<in> set (non_null vs)" "\<And>v. v \<in> set (non_null vs) \<Longrightarrow> vo.le lo v \<and> vo.le v hi"
      using bd unfolding e by (auto simp: Some b bounds_exact_def)
    obtain m where m: "ac_min (agg_acc vs) = Some m" "m \<in> set (non_null vs)" "vo.le m lo"
      using min_ok [OF V] B(1) by (cases "ac_min (agg_acc vs)") auto
    obtain w where w: "ac_max (agg_acc vs) = Some w" "w \<in> set (non_null vs)" "vo.le hi w"
      using max_ok [OF V] B(2) by (cases "ac_max (agg_acc vs)") auto
    have K: "m \<in> col_values ty" "lo \<in> col_values ty" "w \<in> col_values ty" "hi \<in> col_values ty"
      using V B(1,2) m(2) w(2) by auto
    have "m = lo" "w = hi" using vo.le_antisym [OF K(1,2) m(3)] vo.le_antisym [OF K(3,4)] w(3) B(3) m(2) w(2) by blast+
    then show ?thesis using m(1) w(1) Some b by simp
  qed
  then show "acc_value AggMin st n (agg_acc vs) = (case bd of Some (lo, _) \<Rightarrow> lo | None \<Rightarrow> VNull)"
    "acc_value AggMax st n (agg_acc vs) = (case bd of Some (_, hi) \<Rightarrow> hi | None \<Rightarrow> VNull)" by blast+
qed

lemma minmax_cells_ok:
  assumes A: "arrow_ok A" "arrow_minmax_ok A" and snap: "snap \<noteq> NEVER_DELETED"
  shows "list_all is_minmax ps \<Longrightarrow> list_all (safe_projection (tb_schema t)) ps \<Longrightarrow> table_ok g t \<Longrightarrow> zones A t \<Longrightarrow>
    mset rs = view snap (tb_versions t) \<Longrightarrow> length out = length ps \<Longrightarrow>
    \<exists>vs t'. minmax_cells A snap out0 ps t = Some (vs, t') \<and> untouched g t t' \<and> map2 render_as vs out = group_cells k rs gi ps out"
proof (induction ps arbitrary: t out)
  case Nil
  then show ?case by (auto simp: untouched_def tb_frame_def)
next
  case (Cons p ps)
  obtain f c l where p: "p = PAgg f (Some c) l" "f = AggMin \<or> f = AggMax" using Cons.prems(1) by (cases p rule: is_minmax.cases) auto
  obtain ty out' where out: "out = ty # out'" "length out' = length ps" using Cons.prems(6) by (cases out) auto
  let ?s = "tb_schema t"
  have c: "c < arity ?s" using Cons.prems(2) p(1) by simp
  obtain bd t1 where b: "column_minmax A c snap t = Some (bd, t1)" "untouched g t t1"
    "bounds_exact ((\<lambda>r. r ! c) ` set_mset (view snap (tb_versions t))) bd"
    using column_minmax_ok [OF A Cons.prems(3,4) snap c] by blast
  have t1: "tb_schema t1 = ?s" "table_ok g t1" "zones A t1" "tb_versions t1 = tb_versions t"
    using b(2) Cons.prems(4) by (auto simp: untouched_def tb_frame_def zones_def)
  obtain vs t2 where r: "minmax_cells A snap out0 ps t1 = Some (vs, t2)" "untouched g t1 t2" "map2 render_as vs out' = group_cells k rs gi ps out'"
    using Cons.IH [of t1 out'] Cons.prems t1 out(2) by auto
  have u: "untouched g t t2" using b(2) r(2) by (auto simp: untouched_def tb_frame_def)
  have rows: "set rs = set_mset (view snap (tb_versions t))" using Cons.prems(5) by (metis set_mset_mset)
  have dom: "set (map (\<lambda>r. r ! c) rs) \<subseteq> col_values (col_ty ?s c)"
    using view_row_ok [OF A(1) Cons.prems(3) snap] c by (auto simp: rows row_ok_def col_values_def)
  have ex: "bounds_exact (set (map (\<lambda>r. r ! c) rs)) bd" using b(3) by (simp add: rows)
  have "acc_value f False n (agg_acc (map (\<lambda>r. r ! c) rs)) =
      (case (f, bd) of (AggMin, Some (mn, _)) \<Rightarrow> mn | (AggMax, Some (_, mx)) \<Rightarrow> mx | _ \<Rightarrow> VNull)" for n
    using p(2) by (elim disjE) (simp_all add: extreme_unique [OF dom ex] del: acc_value.simps split: option.split)
  moreover have "agg_input (Some c) = (\<lambda>r. r ! c)" by (simp add: agg_input_def fun_eq_iff)
  ultimately show ?case using b(1) r(1,3) u p(1) out(1) by simp
qed

lemma select_grouped:
  assumes A: "arrow_ok A" and M: "arrow_minmax_ok A" and t: "table_ok g t" "zones A t" and snap: "snap \<noteq> NEVER_DELETED"
    and rows: "\<forall>r \<in># view snap (tb_versions t). plain_row r"
    and p: "list_all (safe_projection (tb_schema t)) projs" "cols \<noteq> [] \<or> \<not> list_all is_plain_expr projs"
    and c: "\<forall>c \<in> set cols. c < arity (tb_schema t)"
    and f: "safe_filter (tb_schema t) f" "\<forall>e. f = Some e \<longrightarrow> lits_ok (tb_schema t) e"
    and n: "size (view snap (tb_versions t)) < 2 ^ 63"
  shows "\<exists>out ts ks rs t'. projection_types projs (tb_schema t) = Some out \<and>
    mset rs = filter_mset (row_passes f) (view snap (tb_versions t)) \<and>
    select_table A sel projs f cols [] None False snap t =
      Some (OutRows (map label_of projs) ts (map (\<lambda>k. group_cells k (filter (\<lambda>r. group_of cols r = k) rs) 0 projs out) ks), t') \<and>
    untouched g t t' \<and> sorted_wrt group_before ks \<and> set ks = (if cols = [] then {GkMany []} else group_of cols ` set rs)"
proof -
  let ?s = "tb_schema t" and ?V = "view snap (tb_versions t)"
  obtain out where out: "projection_types projs ?s = Some out" "length out = length projs"
    by (rule projection_types_ok [OF p(1)])
  have one: "group_of [] r = GkMany []" for r by (simp add: group_of_def)
  have "row_passes None = (\<lambda>_. True)" by (simp add: row_passes_def passes_def fun_eq_iff)
  then have nof: "filter_mset (row_passes None) ?V = ?V" by simp
  obtain vs where vs: "mset vs = ?V" using ex_mset by blast
  have fast: ?thesis if "f = None" "cols = []" "untouched g t t'"
    "select_table A sel projs f cols [] None False snap t = Some (OutRows (map label_of projs) ts [group_cells (GkMany []) vs 0 projs out], t')"
    for ts t'
    using that out(1) vs nof one
    by (intro exI [of _ out] exI [of _ ts] exI [of _ "[GkMany []]"] exI [of _ vs] exI [of _ t']) simp
  show ?thesis
  proof (cases "is_bare_count_star projs f cols [] False")
    case True
    then obtain l where c: "f = None" "cols = []" "projs = [PAgg AggCount None l]"
      by (auto simp: is_bare_count_star_def split: list.splits projection.splits agg_fn.splits option.splits)
    then have "out = [TInt]" using out(1) by (simp add: projection_types_def)
    moreover have "sint (word_of_nat (size ?V) :: i64) = int (size ?V)" using n by (simp add: signed_of_nat signed_take_bit_int_eq_self)
    moreover have "length vs = size ?V" using vs by (metis size_mset)
    ultimately have "group_cells (GkMany []) vs 0 projs out = [int_to_string (int (size ?V))]" using c(3) by simp
    moreover have "tb_row_count snap t = Some (size ?V)" using row_count_ok [OF t(1) snap] .
    ultimately have "select_table A sel projs f cols [] None False snap t =
        Some (OutRows (map label_of projs) [CHR ''I''] [group_cells (GkMany []) vs 0 projs out], t)"
      using True out(1) c by (simp add: select_table_def)
    moreover have "untouched g t t" using t(1) by (simp add: untouched_def tb_frame_def)
    ultimately show ?thesis using fast c(1,2) by blast
  next
    case nc: False
    show ?thesis
    proof (cases "is_bare_minmax projs f cols False")
      case True
      then have c: "f = None" "cols = []" "list_all is_minmax projs" by (simp_all add: is_bare_minmax_def)
      obtain ws t' where w: "minmax_cells A snap out projs t = Some (ws, t')" "untouched g t t'"
        "map2 render_as ws out = group_cells (GkMany []) vs 0 projs out"
        using minmax_cells_ok [OF A M snap c(3) p(1) t vs out(2)] by blast
      then have "select_table A sel projs f cols [] None False snap t =
        Some (OutRows (map label_of projs) (map v_type_char ws) [group_cells (GkMany []) vs 0 projs out], t')"
        using True nc out(1) c by (simp add: select_table_def)
      then show ?thesis using fast c(1,2) w(2) by blast
    next
      case nm: False
  obtain segs t' hs where h: "scan_segments A snap t = Some (segs, t')" "untouched g t t'"
    "hits f (map seg_batch (filter (keeps_segment f) segs)) = Some hs" "\<forall>h \<in> set hs. hit_ok ?s h"
    "mset (map hit_row hs) = filter_mset (row_passes f) ?V"
    by (rule scan_hits_ok [OF A M t snap rows f])
  obtain ts ks where a: "aggregate_rows projs out cols (map seg_batch (filter (keeps_segment f) segs)) f =
       Some (map label_of projs, ts, map (\<lambda>k. group_cells k (filter (\<lambda>r. group_of cols r = k) (map hit_row hs)) 0 projs out) ks)"
    "sorted_wrt group_before ks" "set ks = (if cols = [] then {GkMany []} else group_of cols ` set (map hit_row hs))"
    by (rule aggregate_rows_ok [OF h(3,4) c p(1) out(2)])
  have "point_lookup_key f cols False projs (tb_ki t) = None" using p(2) by (auto simp: point_lookup_key_def)
  then have "select_table A sel projs f cols [] None False snap t =
      Some (OutRows (map label_of projs) ts (map (\<lambda>k. group_cells k (filter (\<lambda>r. group_of cols r = k) (map hit_row hs)) 0 projs out) ks), t')"
    using h(1) a(1) nc nm out(1) p(2) by (cases "cols = []") (simp_all add: select_table_def select_segments_def limit_rows_def)
  then show ?thesis using out(1) h(2,5) a(2,3) by blast
    qed
  qed
qed

section \<open>Properties\<close>

text \<open>A table with one row, for the examples.\<close>

abbreviation sample_row :: row where
  "sample_row \<equiv> [VInt 10, VText ''x'']"

abbreviation sort_selector :: selector where
  "sort_selector \<equiv> \<lambda>c k xs. sort_by c xs"

lemma sample_zones: "zones ref_arrow sample_table"
  by (simp add: zones_def sample_table_def table_new_def)

lemma sample_inserted:
  obtains t where "tb_insert ref_arrow sample_row sample_table = Some (Inr 1, t)" "table_ok 0 t" "zones ref_arrow t"
    "tb_schema t = sample_schema" "view 1 (tb_versions t) = {#sample_row#}" "(1 :: u64) \<noteq> NEVER_DELETED"
proof -
  obtain t where t: "tb_insert_returning ref_arrow sample_row sample_table = Some (Inr (1, sample_row), t)"
    "written 0 sample_table (abs_put 0 sample_row 1 {#}) t"
    using insert_returning_ok [OF arrow_ok_ref sample_table_ok, of sample_row] sample_schema_ok(3) [of 10 "''x''"]
    by (auto simp: sample_table_facts sample_schema_ok(5))
  have i: "tb_insert ref_arrow sample_row sample_table = Some (Inr 1, t)" using t(1) by (simp add: insert_eq_returning)
  have z: "zones ref_arrow t" by (rule zones_insert [OF i sample_zones])
  have v: "table_ok 0 t" "tb_schema t = sample_schema" "tb_versions t = {#(sample_row, 1, NEVER_DELETED)#}"
    using t(2) by (auto simp: written_def tb_frame_def sample_table_facts abs_put_def abs_kill_def)
  have "sees 1 1 NEVER_DELETED" "(1 :: u64) \<noteq> NEVER_DELETED" by (code_simp+)
  then show ?thesis using that [OF i v(1) z v(2)] v(3) by (simp add: view_def)
qed

lemma sample_columns: "arity sample_schema = 2" "col_ty sample_schema 0 = TInt" "col_ty sample_schema (Suc 0) = TText"
  by (simp_all add: sample_schema_def arity_def col_ty_def not_null_def column_new_def)

lemma sample_pred_true: "row_passes (Some sample_pred) sample_row"
proof -
  have "sql_cmp (VInt 10) (VInt 9) = Some Greater"
    using cmp_f64_of_int [of 10 9] by (simp add: sql_cmp_def cmp_decimal_exact_def cmp_of_def)
  then show ?thesis
    by (simp add: row_passes_def passes_def sample_pred_def row_value_def eval_compare_def eval_and_def)
qed

lemma sample_pred_ok: "safe_filter sample_schema (Some sample_pred)" "\<forall>e. Some sample_pred = Some e \<longrightarrow> lits_ok sample_schema e"
proof -
  have "wt sample_schema (EColumn 0) IntK" "wt sample_schema (EColumn 1) TextK"
    using wt_column [of 0 sample_schema] wt_column [of 1 sample_schema] by (simp_all add: sample_columns)
  then have "wt sample_schema (EBinary OpGt (EColumn 0) (ELiteral (VInt 9))) BoolK"
    "wt sample_schema (EIsNull (EColumn 1) True) BoolK"
    by (auto intro: wt_compare [OF _ wt_literal [of _ IntK]] wt_is_null)
  then show "safe_filter sample_schema (Some sample_pred)" by (auto simp: safe_filter_def sample_pred_def intro: wt_logic)
  show "\<forall>e. Some sample_pred = Some e \<longrightarrow> lits_ok sample_schema e" by (simp add: sample_pred_def sample_columns)
qed

lemma sample_plain: "\<forall>r \<in># {#sample_row#}. plain_row r"
  by (simp add: plain_row_def)

lemma sample_projection: "list_all (safe_projection sample_schema) [PExpr (EColumn 1) l]"
  using wt_column [of 1 sample_schema] by (auto simp: sample_columns)









text \<open>
  C11. Zone maps are exact and stay exact: every insert, upsert, update, delete, seal, merge and bulk load keeps the bounds that the parts
  store equal to those computed from their rows, and such bounds enclose every row of the part, so that pruning may trust them.
\<close>

theorem zone_maps_exact:
  assumes "arrow_minmax_ok A" "zones A t" "zone_op A t t'"
  shows "zones A t' \<and> (\<forall>p \<in> set (ti_parts (tb_inner t')). batch_ok (p_batch p) \<longrightarrow>
    (\<forall>r \<in> set (batch_rows (p_batch p)). zone_ok (p_schema p) (p_col_bounds p) r))"
proof -
  have z: "zones A t'" by (rule zone_op_zones [OF assms(3,2)])
  then show ?thesis using part_zoned_rows [OF assms(1)] by (auto simp: zones_def zones_of_def)
qed

theorem zone_maps_exact_witness:
  "\<exists>t. tb_insert ref_arrow [VInt 10, VText ''x''] sample_table = Some (Inr 1, t) \<and> zones ref_arrow t"
proof -
  obtain t where t: "tb_insert ref_arrow sample_row sample_table = Some (Inr 1, t)" by (rule sample_inserted)
  have "row_ok (tb_schema sample_table) sample_row" using sample_schema_ok(3) [of 10 "''x''"] by (simp add: sample_table_facts)
  then have "zone_op ref_arrow sample_table t" using t by (intro zo_write top_insert)
  then show ?thesis using zone_maps_exact [OF arrow_minmax_ref sample_zones] t by blast
qed

text \<open>
  What the code does at the edges: DISTINCT with LIMIT 0 returns a row, because the limit is tested after the row is added, and
  the metadata shortcuts do not look at the limit.
\<close>

theorem distinct_limit_zero:
  assumes "render_key k out 0 projs ts = Some (r, ts')"
  shows "render_keys projs out (Some 0) 0 (k # ks) ts = Some ([r], ts')"
  using assms by simp

end
