(* ===== verification/Ck_Dml.thy ===== *)
theory Ck_Dml
  imports Ck_Backend Ck_ExecOk
begin

text \<open>
  What DELETE, UPDATE and INSERT do to the rows of a catalog (\<open>sql/exec.rs\<close>), proved from the laws that a backend promises (the locale \<open>dml_backend\<close>), which
  the in-memory catalog (\<open>sql/backend.rs\<close>, \<open>database.rs\<close>) satisfies.
\<close>

abbreviation key_of :: "schema \<Rightarrow> row \<Rightarrow> value_t" where
  "key_of S r \<equiv> r ! sc_key_index S"

section \<open>Assignments and constraints\<close>

text \<open>An assignment is safe when its expression is typed, its column is not the key and what it stores is a value of the column (a day number in the DATE range).\<close>

definition safe_set :: "schema \<Rightarrow> nat \<times> expr \<Rightarrow> bool" where
  "safe_set S ie \<longleftrightarrow> fst ie < arity S \<and> fst ie \<noteq> sc_key_index S \<and> (\<exists>k. wt S (snd ie) k) \<and>
     (\<forall>r v w. row_ok S r \<longrightarrow> eval (snd ie) r = Some v \<longrightarrow> coerce v (col_ty S (fst ie)) = Some w \<longrightarrow> col_value (col_ty S (fst ie)) w)"

definition safe_checks :: "(string \<times> expr) list \<Rightarrow> schema \<Rightarrow> bool" where
  "safe_checks checks S \<longleftrightarrow> (\<forall>c \<in> set checks. \<exists>k. wt S (snd c) k)"

definition set_row :: "schema \<Rightarrow> (nat \<times> expr) list \<Rightarrow> row \<Rightarrow> row" where
  "set_row S sets r = the (apply_sets S sets r)"

definition admissible :: "schema \<Rightarrow> (string \<times> expr) list \<Rightarrow> row \<Rightarrow> bool" where
  "admissible S checks r \<longleftrightarrow> enforce_constraints S checks r = Some (Inr ())"

lemma to_decimal_value: "to_decimal m p s = Some w \<Longrightarrow> col_value (TDecimal p s) w"
  by (auto simp: to_decimal_def split: bind_splits)

lemma coerce_value: "coerce v ty = Some w \<Longrightarrow> ty \<noteq> TDate \<Longrightarrow> col_value ty w"
  by (cases v; cases ty) (auto dest: to_decimal_value split: if_splits)

lemma safe_set_not_date: "i < arity S \<Longrightarrow> i \<noteq> sc_key_index S \<Longrightarrow> wt S e k \<Longrightarrow> col_ty S i \<noteq> TDate \<Longrightarrow> safe_set S (i, e)"
  using coerce_value by (auto simp: safe_set_def)

lemma column_type_ok: "i < arity S \<Longrightarrow> column_type S i = Some (col_ty S i)"
  by (simp add: column_type_def arity_def col_ty_def nth_opt_def)

lemma apply_sets_ok:
  assumes "list_all (safe_set S) sets" "row_ok S r"
  shows "\<exists>r'. apply_sets S sets r = Some r' \<and> row_ok S r' \<and> key_of S r' = key_of S r"
  using assms
proof (induction sets arbitrary: r)
  case (Cons ie sets)
  obtain i e where ie: "ie = (i, e)" by force
  have s: "i < arity S" "i \<noteq> sc_key_index S" "\<exists>k. wt S e k"
    "\<And>v w. eval e r = Some v \<Longrightarrow> coerce v (col_ty S i) = Some w \<Longrightarrow> col_value (col_ty S i) w"
    using Cons.prems ie by (auto simp: safe_set_def)
  obtain v where v: "eval e r = Some v" using s(3) wt_eval Cons.prems(2) by blast
  let ?w = "case coerce v (col_ty S i) of Some w \<Rightarrow> w | None \<Rightarrow> VNull"
  have "col_value (col_ty S i) ?w" using s(4) [OF v] by (auto split: option.split)
  then have "col_value (col_ty S j) (r[i := ?w] ! j)" if "j < arity S" for j
    using Cons.prems(2) that by (cases "j = i") (simp_all add: row_ok_def)
  then have "row_ok S (r[i := ?w])" using Cons.prems(2) by (simp add: row_ok_def)
  then obtain r' where "apply_sets S sets (r[i := ?w]) = Some r'" "row_ok S r'" "key_of S r' = key_of S (r[i := ?w])"
    using Cons.IH Cons.prems(1) by auto
  then show ?case using v s(1,2) Cons.prems(2) by (simp add: ie column_type_ok row_ok_def)
qed simp

lemma set_row_ok:
  assumes "list_all (safe_set S) sets" "row_ok S r"
  shows "apply_sets S sets r = Some (set_row S sets r)" "row_ok S (set_row S sets r)" "key_of S (set_row S sets r) = key_of S r"
  using apply_sets_ok [OF assms] by (auto simp: set_row_def)

lemma enforce_checks_total: "safe_checks checks S \<Longrightarrow> row_ok S r \<Longrightarrow> \<exists>c. enforce_checks checks r = Some c"
proof (induction checks)
  case (Cons c checks)
  obtain m e where c: "c = (m, e)" by force
  then obtain k where "wt S e k" using Cons.prems(1) by (auto simp: safe_checks_def)
  then obtain v where "eval e r = Some v" using wt_eval Cons.prems(2) by blast
  moreover have "\<exists>c. enforce_checks checks r = Some c" using Cons by (simp add: safe_checks_def)
  ultimately show ?case by (simp add: c)
qed simp

lemma enforce_total: "safe_checks checks S \<Longrightarrow> row_ok S r \<Longrightarrow> \<exists>c. enforce_constraints S checks r = Some c"
  using enforce_checks_total by (auto simp: enforce_constraints_def split: sum.split)

text \<open>All rows are computed, or the first violation is reported.\<close>

lemma compute_updates_ok:
  assumes "list_all (safe_set S) sets" "safe_checks checks S"
  shows "\<forall>r \<in> set rs. row_ok S r \<Longrightarrow>
    if \<forall>r \<in> set rs. admissible S checks (set_row S sets r) then compute_updates S checks sets rs = Some (Inr (map (set_row S sets) rs))
    else \<exists>e. compute_updates S checks sets rs = Some (Inl e)"
proof (induction rs)
  case (Cons r rs)
  have r: "row_ok S r" using Cons.prems by simp
  note s = set_row_ok [OF assms(1) r]
  obtain c where c: "enforce_constraints S checks (set_row S sets r) = Some c" using enforce_total [OF assms(2) s(2)] by blast
  show ?case using Cons s(1) c by (cases c) (auto simp: admissible_def split: if_splits)
qed simp

section \<open>The contract of a backend\<close>

text \<open>A read, or a refused write, leaves the schemas and the current rows of all tables; \<open>k\<close> writes are still possible.\<close>

definition same_rows :: "(string \<Rightarrow> 's \<Rightarrow> schema option) \<Rightarrow> (string \<Rightarrow> 's \<Rightarrow> row multiset) \<Rightarrow> (nat \<Rightarrow> 's \<Rightarrow> bool) \<Rightarrow> nat \<Rightarrow> 's \<Rightarrow> 's \<Rightarrow> bool" where
  "same_rows sch rows ok k s s' \<longleftrightarrow> ok k s' \<and> (\<forall>m. sch m s' = sch m s) \<and> (\<forall>m. rows m s' = rows m s)"

text \<open>A write changes the rows of one table.\<close>

definition rows_become :: "(string \<Rightarrow> 's \<Rightarrow> schema option) \<Rightarrow> (string \<Rightarrow> 's \<Rightarrow> row multiset) \<Rightarrow> (nat \<Rightarrow> 's \<Rightarrow> bool) \<Rightarrow> nat \<Rightarrow> string \<Rightarrow> row multiset \<Rightarrow> 's \<Rightarrow> 's \<Rightarrow> bool" where
  "rows_become sch rows ok k n M s s' \<longleftrightarrow> ok k s' \<and> (\<forall>m. sch m s' = sch m s) \<and> (\<forall>m. rows m s' = (if m = n then M else rows m s))"

locale dml_backend =
  fixes A :: arrow and be :: "'s backend"
    and sch :: "string \<Rightarrow> 's \<Rightarrow> schema option" and rows :: "string \<Rightarrow> 's \<Rightarrow> row multiset" and ok :: "nat \<Rightarrow> 's \<Rightarrow> bool"
  assumes ok_mono: "ok (j + k) s \<Longrightarrow> ok k s"
    and typed: "ok k s \<Longrightarrow> sch n s = Some S \<Longrightarrow> r \<in># rows n s \<Longrightarrow> row_ok S r"
    and keyed: "ok k s \<Longrightarrow> sch n s = Some S \<Longrightarrow> sc_key_index S < arity S \<and> size (filter_mset (\<lambda>r. key_of S r = key) (rows n s)) \<le> 1"
    and open_law: "ok k s \<Longrightarrow> sch n s = Some S \<Longrightarrow>
      \<exists>t s1 c s2 rs s3. be_table be n s = Some (Inr t, s1) \<and> tb_schema t = S \<and> be_pin be s1 = Some (c, s2) \<and>
        read_table be n (scan_rows A c) s2 = Some (rs, s3) \<and> mset rs = rows n s \<and>
        same_rows sch rows ok k s s1 \<and> same_rows sch rows ok k s s2 \<and> same_rows sch rows ok k s s3"
    and unpin_law: "ok k s \<Longrightarrow> same_rows sch rows ok k s (be_unpin be c s)"
    and delete_law: "ok (Suc k) s \<Longrightarrow> sch n s = Some S \<Longrightarrow> key \<in> col_values (key_ty S) \<Longrightarrow>
      \<exists>res s'. be_delete be n key s = Some (res, s') \<and> rows_become sch rows ok k n (filter_mset (\<lambda>r. key_of S r \<noteq> key) (rows n s)) s s' \<and>
        ((\<exists>c. res = Inr c) \<longleftrightarrow> (\<exists>r \<in># rows n s. key_of S r = key))"
    and update_law: "ok (Suc k) s \<Longrightarrow> sch n s = Some S \<Longrightarrow> row_ok S r \<Longrightarrow> \<exists>q \<in># rows n s. key_of S q = key_of S r \<Longrightarrow>
      \<exists>c s'. be_update be n r s = Some (Inr c, s') \<and>
        rows_become sch rows ok k n (add_mset r (filter_mset (\<lambda>q. key_of S q \<noteq> key_of S r) (rows n s))) s s'"
    and insert_law: "ok (Suc k) s \<Longrightarrow> sch n s = Some S \<Longrightarrow> \<not> sc_synthetic_key S \<Longrightarrow> row_ok S r \<Longrightarrow>
      \<exists>res s'. be_insert be n r s = Some (res, s') \<and>
        (if \<exists>q \<in># rows n s. key_of S q = key_of S r
         then res = Inl (DuplicateKey (render (key_of S r))) \<and> same_rows sch rows ok k s s'
         else (\<exists>c. res = Inr c) \<and> rows_become sch rows ok k n (add_mset r (rows n s)) s s')"
begin

lemma distinct_keys_of:
  assumes "ok k s" "sch n s = Some S" "mset rs \<subseteq># rows n s"
  shows "distinct (map (key_of S) rs)"
  using assms(3)
proof (induction rs)
  case (Cons r rs)
  have "mset rs \<subseteq># rows n s" by (rule subset_mset.order_trans [OF _ Cons.prems]) simp
  moreover have "key_of S r \<notin> key_of S ` set rs"
  proof
    assume "key_of S r \<in> key_of S ` set rs"
    then have "filter_mset (\<lambda>q. key_of S q = key_of S r) (mset rs) \<noteq> {#}" by (auto simp: filter_mset_eq_mempty_iff)
    then have "2 \<le> size (filter_mset (\<lambda>q. key_of S q = key_of S r) (mset (r # rs)))"
      using nonempty_has_size [of "filter_mset (\<lambda>q. key_of S q = key_of S r) (mset rs)"] by simp
    also have "\<dots> \<le> size (filter_mset (\<lambda>q. key_of S q = key_of S r) (rows n s))"
      by (rule size_mset_mono [OF multiset_filter_mono [OF Cons.prems]])
    also have "\<dots> \<le> 1" using keyed [OF assms(1,2)] by blast
    finally show False by simp
  qed
  ultimately show ?case using Cons.IH by simp
qed simp

text \<open>In a table no two rows share a key, so that deleting keys is deleting rows.\<close>

lemma same_key:
  assumes "ok k s" "sch n s = Some S" "r \<in># rows n s" "q \<in># rows n s" "key_of S r = key_of S q"
  shows "r = q"
proof (rule ccontr)
  assume "r \<noteq> q"
  then have "{#r, q#} \<subseteq># rows n s" using assms(3,4) by (simp add: insert_subset_eq_iff in_diff_count)
  then have "mset [r, q] \<subseteq># rows n s" by simp
  from distinct_keys_of [OF assms(1,2) this] show False using assms(5) by simp
qed

text \<open>Dropping the keys of the rows that satisfy \<open>P\<close> drops those rows.\<close>

lemma filter_by_keys:
  assumes "ok k s" "sch n s = Some S" "\<And>q. q \<in> Q \<longleftrightarrow> q \<in># rows n s \<and> P q"
  shows "filter_mset (\<lambda>r. key_of S r \<notin> key_of S ` Q) (rows n s) = filter_mset (\<lambda>r. \<not> P r) (rows n s)"
proof (rule filter_mset_cong [OF refl])
  fix q assume q: "q \<in># rows n s"
  show "key_of S q \<notin> key_of S ` Q \<longleftrightarrow> \<not> P q"
  proof
    assume "key_of S q \<notin> key_of S ` Q"
    then show "\<not> P q" using q assms(3) by auto
  next
    assume np: "\<not> P q"
    show "key_of S q \<notin> key_of S ` Q"
    proof
      assume "key_of S q \<in> key_of S ` Q"
      then obtain p where p: "p \<in> Q" "key_of S q = key_of S p" by auto
      then show False using assms(3) [of p] same_key [OF assms(1,2) q _ p(2)] np by simp
    qed
  qed
qed

lemma key_typed: "ok k s \<Longrightarrow> sch n s = Some S \<Longrightarrow> r \<in># rows n s \<Longrightarrow> key_of S r \<in> col_values (key_ty S)"
  using typed [of k s n S r] keyed [of k s n S] by (auto simp: row_ok_def col_values_def key_ty_def)

section \<open>DELETE\<close>

lemma delete_each_ok:
  assumes "ok (k + length ks) s" "sch n s = Some S" "distinct ks" "\<forall>key \<in> set ks. key \<in> col_values (key_ty S) \<and> (\<exists>r \<in># rows n s. key_of S r = key)"
  shows "\<exists>s'. delete_each be n ks s = Some (length ks, s') \<and>
    rows_become sch rows ok k n (filter_mset (\<lambda>r. key_of S r \<notin> set ks) (rows n s)) s s'"
  using assms
proof (induction ks arbitrary: s)
  case Nil
  then show ?case by (simp add: rows_become_def)
next
  case (Cons key ks)
  have "ok (Suc (k + length ks)) s" using Cons.prems(1) by simp
  from delete_law [OF this Cons.prems(2), of key] obtain c s1 where d: "be_delete be n key s = Some (Inr c, s1)"
    "rows_become sch rows ok (k + length ks) n (filter_mset (\<lambda>r. key_of S r \<noteq> key) (rows n s)) s s1"
    using Cons.prems(4) by auto
  then have s1: "ok (k + length ks) s1" "sch n s1 = Some S" "rows n s1 = filter_mset (\<lambda>r. key_of S r \<noteq> key) (rows n s)"
    using Cons.prems(2) by (simp_all add: rows_become_def)
  have "\<exists>r \<in># rows n s1. key_of S r = k'" if k': "k' \<in> set ks" for k'
  proof -
    obtain r where "r \<in># rows n s" "key_of S r = k'" using Cons.prems(4) k' by auto
    moreover have "k' \<noteq> key" using Cons.prems(3) k' by auto
    ultimately show ?thesis unfolding s1(3) by (intro bexI [of _ r]) auto
  qed
  then obtain s2 where s2: "delete_each be n ks s1 = Some (length ks, s2)"
    "rows_become sch rows ok k n (filter_mset (\<lambda>r. key_of S r \<notin> set ks) (rows n s1)) s1 s2"
    using Cons.IH [OF s1(1,2)] Cons.prems(3,4) by auto
  have "filter_mset (\<lambda>r. key_of S r \<notin> set ks) (rows n s1) = filter_mset (\<lambda>r. key_of S r \<notin> set (key # ks)) (rows n s)"
    unfolding s1(3) filter_filter_mset by (rule filter_mset_cong) auto
  then have "rows_become sch rows ok k n (filter_mset (\<lambda>r. key_of S r \<notin> set (key # ks)) (rows n s)) s s2"
    using s2(2) d(2) by (auto simp: rows_become_def)
  then show ?case using d(1) s2(1) by auto
qed

lemma filter_rows_ok:
  assumes "safe_filter S f" "\<forall>r \<in> set rs. row_ok S r"
  shows "filter_rows f rs = Some (filter (row_passes f) rs)"
  using assms(2) passes_safe [OF assms(1)] by (induction rs) auto

lemma victims_ok:
  assumes "\<forall>r \<in> set rs. row_ok S r" "sc_key_index S < arity S"
  shows "traverse (row_key (sc_key_index S)) rs = Some (map (key_of S) rs)"
  by (rule traverse_Some) (use assms in \<open>auto simp: row_key_def row_get_def row_ok_def\<close>)

lemma rows_become_same: "same_rows sch rows ok k s s1 \<Longrightarrow> rows_become sch rows ok k' n M s1 s2 \<Longrightarrow> rows_become sch rows ok k' n M s s2"
  by (simp add: same_rows_def rows_become_def)

lemma same_rows_trans: "same_rows sch rows ok k s s1 \<Longrightarrow> same_rows sch rows ok k' s1 s2 \<Longrightarrow> same_rows sch rows ok k' s s2"
  by (simp add: same_rows_def)

lemma rows_become_unpin: "rows_become sch rows ok k n M s s1 \<Longrightarrow> rows_become sch rows ok k n M s (be_unpin be c s1)"
  using unpin_law [of k s1 c] by (simp add: same_rows_def rows_become_def)

text \<open>The prologue of a statement that reads the table it changes.\<close>

lemma statement_reads:
  assumes "ok k s" "sch n s = Some S"
  obtains t s1 c s2 rs s3 where "be_table be n s = Some (Inr t, s1)" "tb_schema t = S" "be_pin be s1 = Some (c, s2)"
    "read_table be n (scan_rows A c) s2 = Some (rs, s3)" "mset rs = rows n s" "same_rows sch rows ok k s s3"
    "same_rows sch rows ok k s s2" "\<forall>r \<in> set rs. row_ok S r"
proof -
  obtain t s1 c s2 rs s3 where o: "be_table be n s = Some (Inr t, s1)" "tb_schema t = S" "be_pin be s1 = Some (c, s2)"
    "read_table be n (scan_rows A c) s2 = Some (rs, s3)" "mset rs = rows n s" "same_rows sch rows ok k s s2" "same_rows sch rows ok k s s3"
    using open_law [OF assms] by blast
  have "\<forall>r \<in> set rs. row_ok S r" using typed [OF assms] o(5) by (metis set_mset_mset)
  then show ?thesis using that o by blast
qed

lemma exec_delete_ok:
  assumes ok: "ok (k + size (filter_mset (row_passes f) (rows n s))) s" and S: "sch n s = Some S" and f: "safe_filter S f"
  shows "\<exists>s'. exec_delete A be n f s = Some (Inr (Affected (size (filter_mset (row_passes f) (rows n s)))), s') \<and>
    rows_become sch rows ok k n (filter_mset (\<lambda>r. \<not> row_passes f r) (rows n s)) s s'"
proof -
  obtain t s1 c s2 rs s3 where r: "be_table be n s = Some (Inr t, s1)" "tb_schema t = S" "be_pin be s1 = Some (c, s2)"
    "read_table be n (scan_rows A c) s2 = Some (rs, s3)" "mset rs = rows n s"
    "same_rows sch rows ok (k + size (filter_mset (row_passes f) (rows n s))) s s3" "\<forall>r \<in> set rs. row_ok S r"
    by (rule statement_reads [OF ok S])
  let ?hit = "filter (row_passes f) rs"
  let ?ks = "map (key_of S) ?hit"
  have sub: "mset ?hit \<subseteq># rows n s" using r(5) by (metis mset_filter multiset_filter_subset)
  have len: "length ?ks = size (filter_mset (row_passes f) (rows n s))" using r(5) by (metis length_map mset_filter size_mset)
  have mem: "q \<in># rows n s \<and> row_passes f q" if "q \<in> set ?hit" for q using that by (auto simp flip: r(5))
  have s3: "ok (k + length ?ks) s3" "sch n s3 = Some S" "rows n s3 = rows n s" using r(6) S len by (simp_all add: same_rows_def)
  have kv: "\<forall>key \<in> set ?ks. key \<in> col_values (key_ty S) \<and> (\<exists>r \<in># rows n s3. key_of S r = key)"
    using mem key_typed [OF ok S] s3(3) by auto
  obtain s4 where d: "delete_each be n ?ks s3 = Some (length ?ks, s4)"
    "rows_become sch rows ok k n (filter_mset (\<lambda>r. key_of S r \<notin> set ?ks) (rows n s3)) s3 s4"
    using delete_each_ok [OF s3(1,2) distinct_keys_of [OF ok S sub] kv] by blast
  have "filter_mset (\<lambda>r. key_of S r \<notin> set ?ks) (rows n s) = filter_mset (\<lambda>r. \<not> row_passes f r) (rows n s)"
    using filter_by_keys [OF ok S, of "set ?hit" "row_passes f"] by (auto simp flip: r(5))
  then have "rows_become sch rows ok k n (filter_mset (\<lambda>r. \<not> row_passes f r) (rows n s)) s (be_unpin be c s4)"
    using rows_become_unpin [OF rows_become_same [OF r(6) d(2)]] s3(3) by simp
  moreover have "exec_delete A be n f s = Some (Inr (Affected (length ?ks)), be_unpin be c s4)"
    using r(1-4) d(1) filter_rows_ok [OF f r(7)] victims_ok [of ?hit S] r(7) keyed [OF ok S]
    by (simp add: exec_delete_def)
  ultimately show ?thesis unfolding len by blast
qed

section \<open>UPDATE\<close>

lemma update_each_ok:
  assumes "ok (k + length us) s" "sch n s = Some S" "distinct (map (key_of S) us)"
    "\<forall>r \<in> set us. row_ok S r \<and> (\<exists>q \<in># rows n s. key_of S q = key_of S r)"
  shows "\<exists>s'. update_each be n us s = Some (length us, s') \<and>
    rows_become sch rows ok k n (filter_mset (\<lambda>r. key_of S r \<notin> key_of S ` set us) (rows n s) + mset us) s s'"
  using assms
proof (induction us arbitrary: s)
  case Nil
  then show ?case by (simp add: rows_become_def)
next
  case (Cons r us)
  have "ok (Suc (k + length us)) s" using Cons.prems(1) by simp
  from update_law [OF this Cons.prems(2), of r] obtain c s1 where u: "be_update be n r s = Some (Inr c, s1)"
    "rows_become sch rows ok (k + length us) n (add_mset r (filter_mset (\<lambda>q. key_of S q \<noteq> key_of S r) (rows n s))) s s1"
    using Cons.prems(4) by auto
  then have s1: "ok (k + length us) s1" "sch n s1 = Some S" "rows n s1 = add_mset r (filter_mset (\<lambda>q. key_of S q \<noteq> key_of S r) (rows n s))"
    using Cons.prems(2) by (simp_all add: rows_become_def)
  have nin: "key_of S r \<notin> key_of S ` set us" "distinct (map (key_of S) us)" using Cons.prems(3) by simp_all
  have "row_ok S p \<and> (\<exists>q \<in># rows n s1. key_of S q = key_of S p)" if p: "p \<in> set us" for p
  proof -
    obtain q where "q \<in># rows n s" "key_of S q = key_of S p" using Cons.prems(4) p by auto
    moreover have "key_of S p \<noteq> key_of S r" using nin(1) imageI [OF p, of "key_of S"] by metis
    ultimately show ?thesis using Cons.prems(4) p unfolding s1(3) by (intro conjI bexI [of _ q]) auto
  qed
  then obtain s2 where s2: "update_each be n us s1 = Some (length us, s2)"
    "rows_become sch rows ok k n (filter_mset (\<lambda>r. key_of S r \<notin> key_of S ` set us) (rows n s1) + mset us) s1 s2"
    using Cons.IH [OF s1(1,2) nin(2)] by blast
  have "filter_mset (\<lambda>r. key_of S r \<notin> key_of S ` set us) (filter_mset (\<lambda>q. key_of S q \<noteq> key_of S r) (rows n s)) =
      filter_mset (\<lambda>q. key_of S q \<notin> key_of S ` set (r # us)) (rows n s)"
    unfolding filter_filter_mset by (rule filter_mset_cong) auto
  then have "filter_mset (\<lambda>r. key_of S r \<notin> key_of S ` set us) (rows n s1) + mset us =
      filter_mset (\<lambda>q. key_of S q \<notin> key_of S ` set (r # us)) (rows n s) + mset (r # us)"
    using nin(1) by (simp add: s1(3))
  then have "rows_become sch rows ok k n (filter_mset (\<lambda>q. key_of S q \<notin> key_of S ` set (r # us)) (rows n s) + mset (r # us)) s s2"
    using s2(2) u(2) by (auto simp: rows_become_def)
  then show ?case using u(1) s2(1) by auto
qed

lemma exec_update_ok:
  assumes ok: "ok (k + size (filter_mset (row_passes f) (rows n s))) s" and S: "sch n s = Some S" and f: "safe_filter S f"
    and sets: "list_all (safe_set S) sets" and pc: "pc S = Inr checks" "safe_checks checks S"
  shows "\<exists>res s'. exec_update A pc be n sets f s = Some (res, s') \<and>
    (if \<forall>r \<in># rows n s. row_passes f r \<longrightarrow> admissible S checks (set_row S sets r)
     then res = Inr (Affected (size (filter_mset (row_passes f) (rows n s)))) \<and>
       rows_become sch rows ok k n (filter_mset (\<lambda>r. \<not> row_passes f r) (rows n s) +
         image_mset (set_row S sets) (filter_mset (row_passes f) (rows n s))) s s'
     else (\<exists>e. res = Inl e) \<and> same_rows sch rows ok (k + size (filter_mset (row_passes f) (rows n s))) s s')"
proof -
  let ?K = "k + size (filter_mset (row_passes f) (rows n s))"
  obtain t s1 c s2 rs s3 where r: "be_table be n s = Some (Inr t, s1)" "tb_schema t = S" "be_pin be s1 = Some (c, s2)"
    "read_table be n (scan_rows A c) s2 = Some (rs, s3)" "mset rs = rows n s" "same_rows sch rows ok ?K s s3" "\<forall>r \<in> set rs. row_ok S r"
    by (rule statement_reads [OF ok S])
  let ?hit = "filter (row_passes f) rs" and ?us = "map (set_row S sets) (filter (row_passes f) rs)"
  have len: "length ?us = size (filter_mset (row_passes f) (rows n s))" using r(5) by (metis length_map mset_filter size_mset)
  have mem: "q \<in># rows n s \<and> row_passes f q \<longleftrightarrow> q \<in> set ?hit" for q by (auto simp flip: r(5))
  have hit: "\<forall>r \<in> set ?hit. row_ok S r" using r(7) by simp
  have adm: "(\<forall>r \<in># rows n s. row_passes f r \<longrightarrow> admissible S checks (set_row S sets r)) \<longleftrightarrow> (\<forall>r \<in> set ?hit. admissible S checks (set_row S sets r))"
    using mem by blast
  note fr = filter_rows_ok [OF f r(7)]
  note cu = compute_updates_ok [OF sets pc(2) hit]
  have s3: "ok ?K s3" "sch n s3 = Some S" "rows n s3 = rows n s" using r(6) S by (simp_all add: same_rows_def)
  show ?thesis
  proof (cases "\<forall>r \<in> set ?hit. admissible S checks (set_row S sets r)")
    case False
    then obtain e where e: "compute_updates S checks sets ?hit = Some (Inl e)" using cu by (auto split: if_splits)
    have "same_rows sch rows ok ?K s (be_unpin be c s3)" by (rule same_rows_trans [OF r(6) unpin_law [OF s3(1)]])
    moreover have "exec_update A pc be n sets f s = Some (Inl e, be_unpin be c s3)" using r(1-4) fr e pc(1) by (simp add: exec_update_def)
    ultimately show ?thesis using False adm by auto
  next
    case True
    then have e: "compute_updates S checks sets ?hit = Some (Inr ?us)" using cu by simp
    have keys: "map (key_of S) ?us = map (key_of S) ?hit" using set_row_ok(3) [OF sets] hit by simp
    have sub: "mset ?hit \<subseteq># rows n s" using r(5) by (metis mset_filter multiset_filter_subset)
    have "\<forall>r \<in> set ?us. row_ok S r \<and> (\<exists>q \<in># rows n s3. key_of S q = key_of S r)"
      using set_row_ok [OF sets] hit mem s3(3) by fastforce
    then obtain s4 where u: "update_each be n ?us s3 = Some (length ?us, s4)"
      "rows_become sch rows ok k n (filter_mset (\<lambda>r. key_of S r \<notin> key_of S ` set ?us) (rows n s3) + mset ?us) s3 s4"
      using update_each_ok [OF _ s3(2), of k ?us] s3(1) len keys distinct_keys_of [OF ok S sub] by metis
    have "filter_mset (\<lambda>r. key_of S r \<notin> key_of S ` set ?us) (rows n s) = filter_mset (\<lambda>r. \<not> row_passes f r) (rows n s)"
      using filter_by_keys [OF ok S, of "set ?hit" "row_passes f"] mem arg_cong [OF keys, of set] by (simp add: image_image)
    moreover have "mset ?us = image_mset (set_row S sets) (filter_mset (row_passes f) (rows n s))" by (simp flip: r(5))
    ultimately have "rows_become sch rows ok k n (filter_mset (\<lambda>r. \<not> row_passes f r) (rows n s) +
         image_mset (set_row S sets) (filter_mset (row_passes f) (rows n s))) s (be_unpin be c s4)"
      using rows_become_unpin [OF rows_become_same [OF r(6) u(2)]] s3(3) by simp
    moreover have "exec_update A pc be n sets f s = Some (Inr (Affected (length ?us)), be_unpin be c s4)"
      using r(1-4) fr e pc(1) u(1) by (simp add: exec_update_def)
    ultimately show ?thesis using True adm len by auto
  qed
qed

section \<open>INSERT\<close>

text \<open>The rows go in one by one up to the first whose key is taken.\<close>

lemma insert_each_ok:
  assumes "ok (k + length rs) s" "sch n s = Some S" "\<not> sc_synthetic_key S" "\<forall>r \<in> set rs. row_ok S r"
  shows "\<exists>pre post res s'. rs = pre @ post \<and> insert_each (be_insert be) n rs s = Some (res, s') \<and>
    rows_become sch rows ok k n (rows n s + mset pre) s s' \<and>
    distinct (map (key_of S) pre) \<and> (\<forall>q \<in># rows n s. key_of S q \<notin> key_of S ` set pre) \<and>
    (case post of [] \<Rightarrow> res = Inr ()
     | r # _ \<Rightarrow> res = Inl (DuplicateKey (render (key_of S r))) \<and> (\<exists>q \<in># rows n s + mset pre. key_of S q = key_of S r))"
  using assms
proof (induction rs arbitrary: s)
  case Nil
  then show ?case by (simp add: rows_become_def)
next
  case (Cons r rs)
  have ok: "ok (Suc (k + length rs)) s" using Cons.prems(1) by simp
  have r: "row_ok S r" using Cons.prems(4) by simp
  obtain res s1 where i: "be_insert be n r s = Some (res, s1)"
    "if \<exists>q \<in># rows n s. key_of S q = key_of S r
     then res = Inl (DuplicateKey (render (key_of S r))) \<and> same_rows sch rows ok (k + length rs) s s1
     else (\<exists>c. res = Inr c) \<and> rows_become sch rows ok (k + length rs) n (add_mset r (rows n s)) s s1"
    using insert_law [OF ok Cons.prems(2,3) r] by blast
  show ?case
  proof (cases "\<exists>q \<in># rows n s. key_of S q = key_of S r")
    case True
    then have d: "res = Inl (DuplicateKey (render (key_of S r)))" "same_rows sch rows ok (k + length rs) s s1" using i(2) by simp_all
    have "rows_become sch rows ok k n (rows n s + mset []) s s1"
      using d(2) ok_mono [of "length rs" k s1] by (auto simp: same_rows_def rows_become_def add.commute)
    then show ?thesis using True d(1) i(1) by (intro exI [of _ "[]"] exI [of _ "r # rs"] exI [of _ "Inl (DuplicateKey (render (key_of S r)))"] exI [of _ s1]) auto
  next
    case False
    then obtain c where d: "res = Inr c" "rows_become sch rows ok (k + length rs) n (add_mset r (rows n s)) s s1" using i(2) by auto
    then have s1: "ok (k + length rs) s1" "sch n s1 = Some S" "rows n s1 = add_mset r (rows n s)"
      using Cons.prems(2) by (simp_all add: rows_become_def)
    obtain pre post res' s' where h: "rs = pre @ post" "insert_each (be_insert be) n rs s1 = Some (res', s')"
      "rows_become sch rows ok k n (rows n s1 + mset pre) s1 s'"
      "distinct (map (key_of S) pre)" "\<forall>q \<in># rows n s1. key_of S q \<notin> key_of S ` set pre"
      "case post of [] \<Rightarrow> res' = Inr ()
       | r # _ \<Rightarrow> res' = Inl (DuplicateKey (render (key_of S r))) \<and> (\<exists>q \<in># rows n s1 + mset pre. key_of S q = key_of S r)"
      using Cons.IH [OF s1(1,2) Cons.prems(3)] Cons.prems(4) by auto
    have "rows_become sch rows ok k n (rows n s + mset (r # pre)) s s'" using h(3) d(2) by (auto simp: rows_become_def s1(3))
    moreover have "insert_each (be_insert be) n (r # rs) s = Some (res', s')" using i(1) d(1) h(2) by simp
    moreover have "distinct (map (key_of S) (r # pre))" "\<forall>q \<in># rows n s. key_of S q \<notin> key_of S ` set (r # pre)"
      using h(4,5) s1(3) False by auto
    ultimately show ?thesis using h(1,6) s1(3) by (intro exI [of _ "r # pre"] exI [of _ post] exI [of _ res'] exI [of _ s']) (auto split: list.splits)
  qed
qed

end

end
