(* ===== verification/Ck_Bulk.thy ===== *)
theory Ck_Bulk
  imports Ck_TableOk
begin

text \<open>
  Bulk loading (\<open>bulk_load\<close> of \<open>table.rs\<close>): rows with new keys become parts directly, under one commit number.
\<close>

section \<open>Chunks become parts\<close>

lemma chunks_concat: "0 < n \<Longrightarrow> concat (chunks n xs) = xs"
  by (induction n xs rule: chunks.induct) (subst chunks.simps, simp)

lemma chunks_size: "c \<in> set (chunks n xs) \<Longrightarrow> c \<noteq> [] \<and> length c \<le> n"
  by (induction n xs rule: chunks.induct) (subst (asm) (2) chunks.simps, auto split: if_splits)

lemma chunks_count: "0 < n \<Longrightarrow> length (chunks n xs) \<le> length xs"
proof (induction n xs rule: chunks.induct)
  case (1 n xs)
  then show ?case by (subst chunks.simps) (cases xs; auto)
qed

lemma chunks_sorted: "sorted_wrt R xs \<Longrightarrow> c \<in> set (chunks n xs) \<Longrightarrow> sorted_wrt R c"
  by (induction n xs rule: chunks.induct)
     (subst (asm) (2) chunks.simps, auto split: if_splits intro: sorted_wrt_take sorted_wrt_drop)

definition fresh_versions :: "csn \<Rightarrow> row list \<Rightarrow> version multiset" where
  "fresh_versions c rows = image_mset (\<lambda>r. (r, c, NEVER_DELETED)) (mset rows)"

lemma fresh_versions_append: "fresh_versions c (xs @ ys) = fresh_versions c xs + fresh_versions c ys"
  by (simp add: fresh_versions_def)

text \<open>A part made of rows in key order holds them all, live from the commit number on.\<close>

lemma new_part_ok:
  assumes A: "arrow_ok A" and s: "schema_ok s" "decimals_ok s" and rows: "\<forall>r \<in> set rows. row_ok s r" "length rows < 2 ^ 32"
    "sorted_wrt (\<lambda>a b. vo.le (a ! sc_key_index s) (b ! sc_key_index s)) rows"
  obtains b p where "from_rows A s rows = Some b" "part_new A pid b (Uniform c) = Some p" "part_ok p" "p_schema p = s" "dv_clean p" "p_id p = pid"
    "mset (part_versions p) = fresh_versions c rows"
proof -
  have len: "\<forall>r \<in> set rows. length r = arity s" using rows(1) by (simp add: row_ok_def)
  obtain b where b: "from_rows A s rows = Some b" "batch_ok b" "b_schema b = s" "b_len b = length rows" "batch_rows b = map (canon_row s) rows"
    by (rule from_rows_ok [OF A s len])
  have br: "batch_rows b = rows" unfolding b(5) using rows(1) canon_row_id by (intro map_idI) blast
  have srt: "sorted_wrt vo.le (map (\<lambda>r. r ! sc_key_index (b_schema b)) (batch_rows b))"
    using rows(3) by (simp add: br b(3) sorted_wrt_map)
  obtain p where p: "part_new A pid b (Uniform c) = Some p" "part_ok p" "p_batch p = b" "p_created p = Uniform c" "p_id p = pid" "p_dv p = dv_new"
    by (rule part_new_ok [OF b(2) _ _ srt, of "Uniform c" A pid]) (use b(4) rows(2) in auto)
  have dv: "p_deleted_val p i = NEVER_DELETED" for i using deleted_at_map [OF dv_ok_new] p(6) by (simp add: p_deleted_val_def dv_map_def dv_new_def)
  have "part_versions p = map (\<lambda>i. (rows ! i, c, NEVER_DELETED)) [0..<length rows]"
    by (simp add: part_versions_def p(3,4) dv b(4) br)
  also have "\<dots> = map (\<lambda>r. (r, c, NEVER_DELETED)) rows" by (simp add: map_nth [of rows, THEN arg_cong, of "map (\<lambda>r. (r, c, NEVER_DELETED))", symmetric] comp_def del: map_nth)
  finally have "mset (part_versions p) = fresh_versions c rows" by (simp add: fresh_versions_def)
  moreover have "dv_clean p" using p(6) by (simp add: dv_clean_def)
  ultimately show thesis using that [OF b(1) p(1,2) _ _ p(5)] p(3) b(3) by simp
qed

lemma load_chunks_ok:
  assumes A: "arrow_ok A"
  shows "inner_ok s inner \<Longrightarrow> unat (ti_next_part_id inner) + length cs < 2 ^ 64 \<Longrightarrow>
    \<forall>c \<in> set cs. length c < 2 ^ 32 \<and> (\<forall>r \<in> set c. row_ok s r) \<and> sorted_wrt (\<lambda>a b. vo.le (a ! sc_key_index s) (b ! sc_key_index s)) c \<Longrightarrow>
    \<exists>inner'. load_chunks A s csn cs inner = Some inner' \<and> inner_ok s inner' \<and> ti_versions inner' = ti_versions inner + fresh_versions csn (concat cs) \<and>
      ti_l0 inner' = ti_l0 inner \<and> ti_next_rowid inner' = ti_next_rowid inner \<and>
      unat (ti_next_part_id inner') = unat (ti_next_part_id inner) + length cs"
proof (induction cs arbitrary: inner)
  case Nil
  then show ?case by (simp add: fresh_versions_def)
next
  case (Cons c cs)
  let ?id = "ti_next_part_id inner"
  have s: "schema_ok s" "decimals_ok s" using Cons.prems(1) by (auto simp: inner_ok_def)
  have c: "\<forall>r \<in> set c. row_ok s r" "length c < 2 ^ 32" "sorted_wrt (\<lambda>a b. vo.le (a ! sc_key_index s) (b ! sc_key_index s)) c"
    using Cons.prems(3) by simp_all
  obtain b p where p: "from_rows A s c = Some b" "part_new A ?id b (Uniform csn) = Some p" "part_ok p" "p_schema p = s" "dv_clean p" "p_id p = ?id"
    "mset (part_versions p) = fresh_versions csn c"
    by (rule new_part_ok [OF A s c])
  let ?inner = "inner\<lparr>ti_next_part_id := ?id + 1, ti_parts := p # ti_parts inner\<rparr>"
  have id: "unat (?id + 1) = Suc (unat ?id)" using Cons.prems(2) by (subst unat_add_lem [THEN iffD1]) simp_all
  then have "?id \<noteq> - 1" by (metis add.left_inverse nat.distinct(1) unsigned_0)
  then have ok: "inner_ok s ?inner"
    using inner_ok_fresh [OF Cons.prems(1) p(3-6), of "ti_l0 inner"] Cons.prems(1) by (simp add: inner_ok_def)
  have v: "ti_versions ?inner = ti_versions inner + fresh_versions csn c" by (simp add: ti_versions_def p(7))
  have "unat (ti_next_part_id ?inner) + length cs < 2 ^ 64" using Cons.prems(2) id by simp
  then obtain inner' where "load_chunks A s csn cs ?inner = Some inner'" "inner_ok s inner'"
    "ti_versions inner' = ti_versions ?inner + fresh_versions csn (concat cs)"
    "ti_l0 inner' = ti_l0 ?inner" "ti_next_rowid inner' = ti_next_rowid ?inner"
    "unat (ti_next_part_id inner') = unat (ti_next_part_id ?inner) + length cs"
    using Cons.IH [OF ok] Cons.prems(3) by auto
  then show ?case using p(1,2) v id by (simp add: fresh_versions_append Let_def)
qed

section \<open>Row numbers\<close>

text \<open>Row numbers are filled in; rows that have theirs stay.\<close>

definition numbered :: "table \<Rightarrow> row list \<Rightarrow> row list" where
  "numbered t rows =
     (if sc_synthetic_key (tb_schema t) then fst (the (number_rows (tb_ki t) rows (ti_next_rowid (tb_inner t)))) else rows)"

lemma number_rows_ok:
  assumes "key_ty s = TInt" "schema_ok s"
  shows "\<forall>r \<in> set rows. row_ok s r \<Longrightarrow>
    \<exists>rows' m. number_rows (sc_key_index s) rows n = Some (rows', m) \<and> length rows' = length rows \<and> (\<forall>r \<in> set rows'. row_ok s r)"
proof (induction rows arbitrary: n)
  case (Cons r rows)
  have r: "row_ok s r" "sc_key_index s < length r" using Cons.prems assms(2) by (auto simp: row_ok_def schema_ok_def arity_def)
  have set: "row_ok s (r[sc_key_index s := VInt n])" using r assms(1) by (auto simp: row_ok_def key_ty_def nth_list_update)
  have rec: "\<exists>rows' m. number_rows (sc_key_index s) rows n = Some (rows', m) \<and> length rows' = length rows \<and> (\<forall>r \<in> set rows'. row_ok s r)" for n
    using Cons.IH Cons.prems by simp
  define step where "step = (case r ! sc_key_index s of VNull \<Rightarrow> (r[sc_key_index s := VInt n], n + 1) | VInt k \<Rightarrow> (r, smax_i64 n (k + 1)) | _ \<Rightarrow> (r, n))"
  have st: "row_ok s (fst step)" using r set by (simp add: step_def split: value_t.split)
  obtain rows' m where "number_rows (sc_key_index s) rows (snd step) = Some (rows', m)" "length rows' = length rows" "\<forall>r \<in> set rows'. row_ok s r"
    using rec by blast
  then have "number_rows (sc_key_index s) (r # rows) n = Some (fst step # rows', m)"
    using r(2) by (simp add: nth_opt_def Let_def step_def case_prod_unfold)
  then show ?case using st \<open>length rows' = length rows\<close> \<open>\<forall>r \<in> set rows'. row_ok s r\<close> by simp
qed simp

lemma number_rows_id: "\<forall>r \<in> set rows. ki < length r \<and> r ! ki \<noteq> VNull \<Longrightarrow> \<exists>m. number_rows ki rows n = Some (rows, m)"
proof (induction rows arbitrary: n)
  case (Cons r rows)
  have rec: "\<exists>m. number_rows ki rows n = Some (rows, m)" for n using Cons by simp
  obtain n' where n': "(case r ! ki of VNull \<Rightarrow> (r[ki := VInt n], n + 1) | VInt k \<Rightarrow> (r, smax_i64 n (k + 1)) | _ \<Rightarrow> (r, n)) = (r, n')"
    using Cons.prems by (cases "r ! ki") auto
  obtain m where "number_rows ki rows n' = Some (rows, m)" using rec by blast
  then show ?case using Cons.prems n' by (simp add: nth_opt_def Let_def)
qed simp

section \<open>The load\<close>

lemma distinct_key_once: "distinct (map k rows) \<Longrightarrow> size (filter_mset (\<lambda>r. k r = key) (mset rows)) \<le> 1"
proof (induction rows)
  case (Cons r rows)
  then have "filter_mset (\<lambda>q. k q = k r) (mset rows) = {#}" by (auto simp: image_iff)
  then show ?case using Cons by auto
qed simp

text \<open>New versions of distinct keys that have no live version keep the store well formed.\<close>

lemma store_ok_load:
  assumes ok: "store_ok ki f n M" and c: "n < c" "c \<noteq> NEVER_DELETED" and rows: "distinct (map (\<lambda>r. r ! ki) rows)" "\<forall>r \<in> set rows. seen ki (r ! ki) n M = {#}"
  shows "store_ok ki f c (M + fresh_versions c rows)"
proof -
  have s: "stamped c M" using ok stamped_mono [of n M c] c(1) by (simp add: store_ok_def)
  have "size (seen ki key snap (M + fresh_versions c rows)) \<le> 1" if snap: "f \<le> snap" for key snap
  proof (cases "\<exists>r \<in> set rows. r ! ki = key \<and> sees snap c NEVER_DELETED")
    case False
    then have "seen ki key snap (fresh_versions c rows) = {#}" by (auto simp: seen_empty_iff fresh_versions_def)
    then show ?thesis using ok snap by (simp add: seen_union store_ok_def)
  next
    case True
    then obtain r where r: "r \<in> set rows" "r ! ki = key" and c2: "c \<le> snap" by (auto simp: sees_def)
    have "\<not> version_sees snap v" if v: "v \<in># M" "fst v ! ki = key" for v
    proof -
      obtain q cr d where vv: "v = (q, cr, d)" by (cases v)
      have "\<not> version_sees n v" using rows(2) r v by (auto simp: seen_empty_iff)
      then have "d \<noteq> NEVER_DELETED" using seen_now [OF ok v(1)] vv by simp
      then have "d \<le> n" using ok v(1) vv by (auto simp: store_ok_def stamped_def)
      then have "d < c" using c(1) by (rule order.strict_trans1)
      then have "d \<le> snap" using c2 by (simp add: order.strict_implies_order order_trans)
      then show ?thesis by (simp add: vv sees_def not_less)
    qed
    then have "seen ki key snap M = {#}" by (simp add: seen_empty_iff)
    moreover have "size (seen ki key snap (fresh_versions c rows)) \<le> size (filter_mset (\<lambda>r. r ! ki = key) (mset rows))"
      by (simp add: seen_def fresh_versions_def filter_mset_image_mset size_mset_mono multiset_filter_subset filter_filter_mset [symmetric] flip: filter_filter_mset)
    ultimately show ?thesis using distinct_key_once [OF rows(1), of key] by (simp add: seen_union)
  qed
  moreover have "stamped c (M + fresh_versions c rows)" using s by (auto simp: stamped_def fresh_versions_def)
  moreover have "f \<le> c" using ok c(1) by (auto simp: store_ok_def)
  ultimately show ?thesis using c(2) by (simp add: store_ok_def)
qed

lemma bulk_load_ok:
  assumes A: "arrow_ok A" and t: "table_ok f t" "cg_next (tb_csn t) \<noteq> - 1" "unat (ti_next_part_id (tb_inner t)) + length rows < 2 ^ 64"
    and rows: "\<forall>r \<in> set rows. row_ok (tb_schema t) r" "distinct (map (\<lambda>r. r ! tb_ki t) (numbered t rows))"
      "\<forall>r \<in> set (numbered t rows). \<not> live t (r ! tb_ki t)"
  shows "\<exists>t'. bulk_load A rows t = Some (cg_next (tb_csn t), t') \<and> table_ok f t' \<and> tb_frame t t' \<and> tb_now t' = cg_next (tb_csn t) \<and>
    tb_versions t' = tb_versions t + fresh_versions (cg_next (tb_csn t)) (numbered t rows) \<and>
    unat (ti_next_part_id (tb_inner t')) \<le> unat (ti_next_part_id (tb_inner t)) + length rows"
proof -
  let ?s = "tb_schema t" and ?i = "tb_inner t" and ?c = "cg_next (tb_csn t)" and ?rows = "numbered t rows"
  note D = table_okD [OF t(1)]
  have s: "schema_ok ?s" "sc_synthetic_key ?s \<Longrightarrow> key_ty ?s = TInt" using D(1) by (auto simp: inner_ok_def)
  obtain nx where nx: "(if sc_synthetic_key ?s then number_rows (tb_ki t) rows (ti_next_rowid ?i) else Some (rows, ti_next_rowid ?i)) = Some (?rows, nx)"
    and row: "\<forall>r \<in> set ?rows. row_ok ?s r" and len: "length ?rows = length rows"
  proof (cases "sc_synthetic_key ?s")
    case True
    then show thesis using that number_rows_ok [OF s(2) [OF True] s(1) rows(1), of "ti_next_rowid ?i"] by (auto simp: numbered_def)
  next
    case False
    then show thesis using that [of "ti_next_rowid ?i"] rows(1) by (simp add: numbered_def)
  qed
  let ?k = "\<lambda>r. r ! tb_ki t"
  let ?sorted = "sort_by (\<lambda>a b. total_cmp (?k a) (?k b)) ?rows"
  have kin: "?k r \<in> col_values (key_ty ?s)" if "r \<in> set ?rows" for r using row row_ok_key(2) [OF s(1)] that by blast
  have srt: "sorted_wrt (\<lambda>a b. vo.le (?k a) (?k b)) ?sorted" by (rule vo.sorted_sort_by) (use kin in blast)
  let ?cs = "chunks PART_ROWS ?sorted"
  have pr: "0 < PART_ROWS" "PART_ROWS < 2 ^ 32" by (simp_all add: PART_ROWS_def)
  have cs: "\<forall>c \<in> set ?cs. length c < 2 ^ 32 \<and> (\<forall>r \<in> set c. row_ok ?s r) \<and> sorted_wrt (\<lambda>a b. vo.le (?k a) (?k b)) c"
  proof (intro ballI conjI)
    fix c assume c: "c \<in> set ?cs"
    show "length c < 2 ^ 32" using chunks_size [OF c] pr(2) by linarith
    have "set c \<subseteq> set (concat ?cs)" using c by auto
    then have sub: "set c \<subseteq> set ?rows" by (simp add: chunks_concat [OF pr(1)])
    show "sorted_wrt (\<lambda>a b. vo.le (?k a) (?k b)) c" by (rule chunks_sorted [OF srt c])
    show "row_ok ?s r" if "r \<in> set c" for r using sub row that by blast
  qed
  have i0: "inner_ok ?s (?i\<lparr>ti_next_rowid := nx\<rparr>)" using D(1) by simp
  have cnt: "length ?cs \<le> length rows" using chunks_count [OF pr(1), of ?sorted] len by simp
  have room: "unat (ti_next_part_id (?i\<lparr>ti_next_rowid := nx\<rparr>)) + length ?cs < 2 ^ 64" using t(3) cnt by simp
  obtain inner where L: "load_chunks A ?s ?c ?cs (?i\<lparr>ti_next_rowid := nx\<rparr>) = Some inner" "inner_ok ?s inner"
    "ti_versions inner = ti_versions ?i + fresh_versions ?c (concat ?cs)" "ti_l0 inner = ti_l0 ?i"
    "unat (ti_next_part_id inner) = unat (ti_next_part_id ?i) + length ?cs"
    using load_chunks_ok [OF A i0 room cs] by auto
  let ?t = "t\<lparr>tb_inner := inner, tb_csn := (tb_csn t)\<lparr>cg_next := ?c + 1\<rparr>, tb_metrics := mt_add mt_inserts_update (word_of_nat (length ?rows)) (tb_metrics t)\<rparr>"
  have run: "bulk_load A rows t = Some (?c, ?t)"
    using nx L(1) by (simp add: bulk_load_def allocate_def Let_def)
  have v: "tb_versions ?t = tb_versions t + fresh_versions ?c ?rows"
    using L(3) by (simp add: tb_versions_def chunks_concat [OF pr(1)] fresh_versions_def)
  have c: "tb_now t < ?c" "?c \<noteq> NEVER_DELETED" using current_less [OF D(6)] t(2) by (simp_all add: NEVER_DELETED_def)
  have now: "tb_now ?t = ?c" "0 < ?c + 1" using less_plus_one_word [OF t(2)] D(6) by (auto simp: current_def intro: order.strict_trans)
  have store: "store_ok (tb_ki t) f ?c (tb_versions t + fresh_versions ?c ?rows)"
    using store_ok_load [OF D(3) c rows(2)] rows(3) by (simp add: live_def tb_versions_def)
  have "table_ok f ?t" using L(2,4) D(2) store v now by (simp add: table_ok_def l0_room_def)
  then show ?thesis using run v now L(5) cnt by (intro exI [of _ ?t]) (simp add: tb_frame_def)
qed

lemma view_later:
  assumes "store_ok ki f n M" "n \<le> n'" "n' \<noteq> NEVER_DELETED"
  shows "view n' M = view n M"
  unfolding view_def using seen_now [OF assms(1)] seen_now [OF store_ok_mono [OF assms]]
  by (intro arg_cong [where f = "image_mset fst"] filter_mset_cong) auto

lemma view_fresh: "c \<noteq> NEVER_DELETED \<Longrightarrow> view snap (fresh_versions c rows) = (if c \<le> snap \<and> snap \<noteq> NEVER_DELETED then mset rows else {#})"
  by (auto simp: view_def fresh_versions_def filter_mset_image_mset sees_def less_NEVER_DELETED multiset.map_comp comp_def)

section \<open>Properties\<close>

text \<open>
  C23. A bulk load is one commit: rows whose keys, after the hidden row numbers are filled in, are distinct and not live always load; all of them become
  visible at the next commit number, and every earlier snapshot sees what it saw.
\<close>

theorem bulk_load_exact:
  assumes "arrow_ok A" "table_ok f t" "cg_next (tb_csn t) \<noteq> - 1" "unat (ti_next_part_id (tb_inner t)) + length rows < 2 ^ 64"
    "\<forall>r \<in> set rows. row_ok (tb_schema t) r" "distinct (map (\<lambda>r. r ! tb_ki t) (numbered t rows))"
    "\<forall>r \<in> set (numbered t rows). \<not> live t (r ! tb_ki t)"
  shows "\<exists>t'. bulk_load A rows t = Some (cg_next (tb_csn t), t') \<and> table_ok f t' \<and> tb_now t' = cg_next (tb_csn t) \<and>
    view (tb_now t') (tb_versions t') = view (tb_now t) (tb_versions t) + mset (numbered t rows) \<and>
    (\<forall>snap \<le> tb_now t. view snap (tb_versions t') = view snap (tb_versions t))"
proof -
  note D = table_okD [OF assms(2)]
  obtain t' where t': "bulk_load A rows t = Some (cg_next (tb_csn t), t')" "table_ok f t'" "tb_now t' = cg_next (tb_csn t)"
    "tb_versions t' = tb_versions t + fresh_versions (cg_next (tb_csn t)) (numbered t rows)"
    using bulk_load_ok [OF assms] by blast
  have c: "tb_now t < cg_next (tb_csn t)" "cg_next (tb_csn t) \<noteq> NEVER_DELETED" using current_less [OF D(6)] assms(3) by (simp_all add: NEVER_DELETED_def)
  have "view (cg_next (tb_csn t)) (tb_versions t) = view (tb_now t) (tb_versions t)"
    using view_later [OF D(3) order.strict_implies_order [OF c(1)] c(2)] by (simp add: tb_versions_def)
  then show ?thesis using t' c by (auto simp: view_union view_fresh)
qed

theorem bulk_load_exact_witness:
  "\<exists>t'. bulk_load ref_arrow [[VInt 10, VText ''x''], [VInt 5, VText ''y'']] sample_table = Some (1, t') \<and>
     view 1 (tb_versions t') = {#[VInt 10, VText ''x''], [VInt 5, VText ''y'']#}"
proof -
  let ?rows = "[[VInt 10, VText ''x''], [VInt 5, VText ''y'']]"
  have n: "numbered sample_table ?rows = ?rows" using sample_not_synthetic by (simp add: numbered_def sample_table_facts)
  have lv: "\<not> live sample_table k" for k by (simp add: live_def sample_table_facts seen_def)
  have id: "ti_next_part_id (tb_inner sample_table) = 0" by (simp add: sample_table_def table_new_def)
  have v: "view (tb_now sample_table) {#} = {#}" by (simp add: view_def)
  show ?thesis
    using bulk_load_exact [OF arrow_ok_ref sample_table_ok(1), of ?rows] sample_schema_ok(3)
    by (auto simp: n lv id v sample_table_facts sample_schema_ok(5))
qed

end
