(* ===== verification/Ck_DmlOk.thy ===== *)
theory Ck_DmlOk
  imports Ck_Dml Ck_Bulk
begin

text \<open>
  The in-memory catalog as a backend: it satisfies the laws of \<open>dml_backend\<close>, so that statements over it (\<open>sql/exec.rs\<close>) do exactly what they say.
\<close>

section \<open>Part numbers\<close>

text \<open>A write uses at most one part number.\<close>

definition one_part :: "table_inner \<Rightarrow> table_inner \<Rightarrow> bool" where
  "one_part i i' \<longleftrightarrow> ti_next_part_id i' = ti_next_part_id i \<or> ti_next_part_id i' = ti_next_part_id i + 1"

lemma one_part_tombstone: "tombstone inner loc c = Some (res, inner') \<Longrightarrow> ti_next_part_id inner' = ti_next_part_id inner"
  by (cases loc) (auto split: bind_splits prod.splits)

lemma one_part_seal: "maybe_seal_locked A cfg inner m = Some (inner', m') \<Longrightarrow> one_part inner inner'"
  by (auto simp: maybe_seal_locked_def seal_locked_def one_part_def Let_def split: if_splits bind_splits prod.splits)

lemma assign_rowid_part_id: "assign_rowid s inner r = Some (r', inner') \<Longrightarrow> ti_next_part_id inner' = ti_next_part_id inner"
  by (auto simp: assign_rowid_def split: if_splits bind_splits)

lemma one_part_insert: "tb_insert A r t = Some (res, t') \<Longrightarrow> one_part (tb_inner t) (tb_inner t')"
  by (auto simp: tb_insert_def Let_def one_part_def split: bind_splits option.splits prod.splits
      dest!: assign_rowid_part_id one_part_seal [unfolded one_part_def])

lemma one_part_update:
  assumes "tb_update A r t = Some (res, t')" shows "one_part (tb_inner t) (tb_inner t')"
proof -
  obtain k loc m where s: "row_key (sc_key_index (tb_schema t)) r = Some k"
    "locate (tb_inner t) k (snapshot (tb_csn t)) (tb_metrics t) = Some (loc, m)"
    using assms(1) by (auto simp: tb_update_def Let_def split: bind_splits)
  obtain c g where g: "allocate (tb_csn t) = (c, g)" by force
  show ?thesis
  proof (cases loc)
    case None
    then show ?thesis using assms s by (auto simp: tb_update_def one_part_def)
  next
    case (Some l)
    obtain res1 inner1 where i: "tombstone (tb_inner t) l c = Some (res1, inner1)"
      using assms(1) s g Some by (auto simp: tb_update_def Let_def split: bind_splits)
    then show ?thesis using assms s g Some one_part_tombstone [OF i]
      by (cases res1) (auto simp: tb_update_def one_part_def Let_def split: bind_splits dest!: one_part_seal [unfolded one_part_def])
  qed
qed

lemma one_part_delete: "tb_delete key t = Some (res, t') \<Longrightarrow> one_part (tb_inner t) (tb_inner t')"
  using one_part_tombstone
  by (fastforce simp: tb_delete_def one_part_def Let_def split: bind_splits option.splits prod.splits sum.splits)

section \<open>The catalog seen by statements\<close>

definition db_schema :: "string \<Rightarrow> database \<Rightarrow> schema option" where
  "db_schema n db = map_option tb_schema (bt_get str_cmp n (db_tables db))"

text \<open>The rows that a statement starting now would see.\<close>

definition db_current :: "string \<Rightarrow> database \<Rightarrow> row multiset" where
  "db_current n db = view (current (db_csn db)) (db_versions n db)"

text \<open>The catalog is well formed, and \<open>k\<close> more writes do not exhaust its 64-bit counters.\<close>

definition db_room :: "arrow \<Rightarrow> nat \<Rightarrow> database \<Rightarrow> bool" where
  "db_room A k db \<longleftrightarrow> arrow_ok A \<and> (\<exists>f. db_ok f db) \<and> unat (cg_next (db_csn db)) + k < 2 ^ 64 \<and>
     (\<forall>n t. bt_get str_cmp n (db_tables db) = Some t \<longrightarrow> unat (ti_next_part_id (tb_inner t)) + k < 2 ^ 64)"

lemma room_not_max: "unat (x :: u64) + Suc k < 2 ^ 64 \<Longrightarrow> x \<noteq> - 1 \<and> unat (x + 1) = Suc (unat x)"
proof -
  assume x: "unat x + Suc k < 2 ^ 64"
  have "x \<noteq> - 1"
  proof
    assume "x = - 1"
    moreover have "unat (- 1 :: u64) = 2 ^ 64 - 1" by (simp add: unsigned_minus_1_eq_mask mask_eq_exp_minus_1)
    ultimately show False using x by simp
  qed
  moreover have "unat (x + 1) = Suc (unat x)" using x by (subst unat_add_lem [THEN iffD1]) simp_all
  ultimately show ?thesis by blast
qed

lemma db_get:
  assumes "db_room A k db" "db_schema n db = Some S"
  obtains f t where "db_ok f db" "db_table n db = Inr t" "table_ok f t" "tb_schema t = S" "tb_csn t = db_csn db" "tb_versions t = db_versions n db"
    "db_current n db = view (tb_now t) (tb_versions t)" "k > 0 \<Longrightarrow> can_write t" "unat (ti_next_part_id (tb_inner t)) + k < 2 ^ 64"
proof -
  obtain f where f: "db_ok f db" using assms(1) by (auto simp: db_room_def)
  obtain u where u: "bt_get str_cmp n (db_tables db) = Some u" "tb_schema u = S" using assms(2) by (auto simp: db_schema_def)
  then have t: "db_table n db = Inr (attach db u)" by (simp add: db_table_iff)
  have p: "unat (ti_next_part_id (tb_inner u)) + k < 2 ^ 64" "unat (cg_next (db_csn db)) + k < 2 ^ 64" using assms(1) u(1) by (auto simp: db_room_def)
  have "can_write (attach db u)" if "k > 0" using p room_not_max [of _ "k - 1"] that by (simp add: can_write_def)
  then show ?thesis using that [OF f t] db_table_ok [OF f t] u(2) p(1) db_versions_table [OF t] by (simp add: db_current_def)
qed

lemma mem_room: "db_room A (j + k) s \<Longrightarrow> db_room A k s"
  by (fastforce simp: db_room_def)

text \<open>What storing a table after an operation does to the whole catalog.\<close>

lemma db_store_simps:
  assumes "db_ok f db" "db_table n db = Inr t" "tb_frame t t'"
  shows "db_schema m (db_store n t' db) = db_schema m db" "db_csn (db_store n t' db) = tb_csn t'"
    "bt_get str_cmp m (db_tables (db_store n t' db)) = (if m = n then Some t' else bt_get str_cmp m (db_tables db))"
proof -
  have bt: "sk.bt_ok (db_tables db)" using assms(1) by (simp add: db_ok_def)
  show g: "bt_get str_cmp m (db_tables (db_store n t' db)) = (if m = n then Some t' else bt_get str_cmp m (db_tables db))" for m
    using bt by (simp add: db_store_def bt_get_str)
  show "db_schema m (db_store n t' db) = db_schema m db" using assms(2,3) by (auto simp: db_schema_def g db_table_iff tb_frame_def)
  show "db_csn (db_store n t' db) = tb_csn t'" by (simp add: db_store_def)
qed

lemma db_advanced:
  assumes db: "db_room A (Suc k) db" "db_ok f db" "db_table n db = Inr t"
    and w: "table_ok f t'" "tb_frame t t'" "tb_now t' = cg_next (tb_csn t)" "tb_versions t' = M" and pid: "unat (ti_next_part_id (tb_inner t')) + k < 2 ^ 64"
  shows "rows_become db_schema db_current (db_room A) k n (view (cg_next (db_csn db)) M) db (db_store n t' db)"
proof -
  note D = db_table_ok [OF db(2,3)]
  have W: "table_ok f t'" "tb_frame t t'" "tb_now t' = cg_next (db_csn db)" "tb_versions t' = M" using w D by (simp_all add: written_def)
  have nx: "cg_next (db_csn db) \<noteq> - 1" "unat (cg_next (db_csn db) + 1) = Suc (unat (cg_next (db_csn db)))"
    using db(1) room_not_max [of "cg_next (db_csn db)" k] unfolding db_room_def by blast+
  have t0: "0 < cg_next (tb_csn t)" using D table_okD(6) by blast
  have now: "tb_now t \<le> tb_now t'" using current_less [OF t0] D W(3) by simp
  note S = db_store_ok [OF db(2,3) W(1,2) now]
  note Q = db_store_simps [OF db(2,3) W(2)]
  have cn: "cg_next (tb_csn t') = cg_next (db_csn db) + 1" using W(3) by (simp add: current_def algebra_simps)
  have other: "unat (ti_next_part_id (tb_inner u)) + k < 2 ^ 64" if "bt_get str_cmp m (db_tables db) = Some u" for m u
    using db(1) that by (fastforce simp: db_room_def)
  have "unat (cg_next (tb_csn t')) + k < 2 ^ 64" using nx(2) db(1) by (simp add: cn db_room_def)
  then have room: "db_room A k (db_store n t' db)"
    unfolding db_room_def using S(1) pid other db(1) [unfolded db_room_def] by (auto simp: Q split: if_splits)
  have "db_current m (db_store n t' db) = (if m = n then view (cg_next (db_csn db)) M else db_current m db)" for m
  proof (cases "m = n")
    case True
    then show ?thesis using W(3,4) by (simp add: db_current_def Q(2) S(2))
  next
    case False
    have "view (tb_now t') (db_versions m db) = view (current (db_csn db)) (db_versions m db)"
    proof (cases "bt_get str_cmp m (db_tables db)")
      case (Some u)
      then have "db_table m db = Inr (attach db u)" by (simp add: db_table_iff)
      then have "table_ok f (attach db u)" "db_versions m db = tb_versions (attach db u)" using db_table_ok [OF db(2)] db_versions_table by blast+
      then show ?thesis
        using view_later [OF table_okD(3) [of f "attach db u"] _ table_okD(4) [OF W(1)]] now D by (simp add: tb_versions_def)
    qed (simp add: db_versions_def view_def)
    then show ?thesis using False by (simp add: db_current_def Q(2) S(2))
  qed
  then show ?thesis using room Q(1) by (simp add: rows_become_def)
qed

lemma db_written:
  assumes db: "db_room A (Suc k) db" "db_ok f db" "db_table n db = Inr t" and w: "written f t M t'" and p: "one_part (tb_inner t) (tb_inner t')"
  shows "rows_become db_schema db_current (db_room A) k n (view (cg_next (db_csn db)) M) db (db_store n t' db)"
proof (rule db_advanced [OF db])
  show "unat (ti_next_part_id (tb_inner t')) + k < 2 ^ 64"
  proof -
    obtain u where "bt_get str_cmp n (db_tables db) = Some u" "t = attach db u" using db(3) by (auto simp: db_table_iff)
    then have "unat (ti_next_part_id (tb_inner t)) + Suc k < 2 ^ 64" using db(1) by (auto simp: db_room_def)
    then show ?thesis using p room_not_max [of "ti_next_part_id (tb_inner t)" k] by (auto simp: one_part_def)
  qed
qed (use w in \<open>simp_all add: written_def\<close>)

lemma db_untouched:
  assumes db: "db_room A k db" "db_ok f db" "db_table n db = Inr t" and u: "untouched f t t'"
  shows "same_rows db_schema db_current (db_room A) k db (db_store n t' db)"
proof -
  note D = db_table_ok [OF db(2,3)]
  have U: "table_ok f t'" "tb_frame t t'" "tb_csn t' = db_csn db" "tb_versions t' = tb_versions t"
    "ti_next_part_id (tb_inner t') = ti_next_part_id (tb_inner t)" using u D by (simp_all add: untouched_def)
  have now: "tb_now t \<le> tb_now t'" using U(3) D by simp
  note S = db_store_ok [OF db(2,3) U(1,2) now]
  note Q = db_store_simps [OF db(2,3) U(2)]
  obtain v where "bt_get str_cmp n (db_tables db) = Some v" "t = attach db v" using db(3) by (auto simp: db_table_iff)
  then have pid: "unat (ti_next_part_id (tb_inner t')) + k < 2 ^ 64" using db(1) U(5) by (auto simp: db_room_def)
  have "db_room A k (db_store n t' db)"
    unfolding db_room_def using S(1) pid db(1) U(3) by (auto simp: Q db_room_def split: if_splits)
  moreover have "db_current m (db_store n t' db) = db_current m db" for m
    using db_versions_table [OF db(3)] U(3,4) by (simp add: db_current_def Q(2) S(2))
  ultimately show ?thesis using Q(1) by (simp add: same_rows_def)
qed

lemma scan_rows_ok:
  assumes db: "db_room A k db" "db_schema n db = Some S"
  shows "\<exists>rs db'. read_table (database_backend A) n (scan_rows A (current (db_csn db))) db = Some (rs, db') \<and> mset rs = db_current n db \<and>
    same_rows db_schema db_current (db_room A) k db db'"
proof -
  obtain f t where t: "db_ok f db" "db_table n db = Inr t" "table_ok f t" "tb_csn t = db_csn db" "db_current n db = view (tb_now t) (tb_versions t)"
    by (rule db_get [OF db]) (rule that, assumption+)
  have A: "arrow_ok A" using db(1) by (simp add: db_room_def)
  have ge: "f \<le> tb_now t" "tb_now t \<noteq> NEVER_DELETED" using table_okD [OF t(3)] by simp_all
  obtain b t' where b: "tb_scan A (tb_now t) t = Some (b, t')" "untouched f t t'" "batch_ok b" "mset (batch_rows b) = view (tb_now t) (tb_versions t)"
    using scan_ok [OF A t(3) ge(2)] by blast
  have "same_rows db_schema db_current (db_room A) k db (db_store n t' db)" by (rule db_untouched [OF db(1) t(1,2) b(2)])
  then show ?thesis using b t by (simp add: read_table_def scan_rows_def database_backend_def b_iter_ok)
qed

section \<open>The laws\<close>

lemma live_iff:
  "live t key \<longleftrightarrow> (\<exists>r \<in># view (tb_now t) (tb_versions t). r ! tb_ki t = key)"
proof -
  have "image_mset fst (seen (tb_ki t) key (tb_now t) (tb_versions t)) = {#} \<longleftrightarrow> (\<forall>r \<in># view (tb_now t) (tb_versions t). r ! tb_ki t \<noteq> key)"
    by (auto simp flip: view_filter_key)
  then show ?thesis by (auto simp: live_def)
qed

text \<open>Pins only count snapshots.\<close>

lemma db_clock:
  assumes "db_room A k db" "cg_next g = cg_next (db_csn db)"
  shows "same_rows db_schema db_current (db_room A) k db (db\<lparr>db_csn := g\<rparr>)"
proof -
  have cur: "current g = current (db_csn db)" using assms(2) by (simp add: current_def)
  have "table_ok f (attach (db\<lparr>db_csn := g\<rparr>) t) = table_ok f (attach db t)" for f t
    using assms(2) cur by (simp add: table_ok_def)
  then have "db_ok f (db\<lparr>db_csn := g\<rparr>) = db_ok f db" for f using assms(2) cur by (simp add: db_ok_def)
  then show ?thesis using assms cur by (simp add: same_rows_def db_room_def db_current_def db_schema_def db_versions_def)
qed

lemma db_open_law:
  assumes a: "db_room A k s" and S: "db_schema n s = Some S"
  shows "\<exists>t s1 c s2 rs s3. be_table (database_backend A) n s = Some (Inr t, s1) \<and> tb_schema t = S \<and> be_pin (database_backend A) s1 = Some (c, s2) \<and>
      read_table (database_backend A) n (scan_rows A c) s2 = Some (rs, s3) \<and> mset rs = db_current n s \<and>
      same_rows db_schema db_current (db_room A) k s s1 \<and> same_rows db_schema db_current (db_room A) k s s2 \<and>
      same_rows db_schema db_current (db_room A) k s s3"
proof -
  obtain t where t: "db_table n s = Inr t" "tb_schema t = S"
    by (rule db_get [OF a S]) (rule that, assumption+)
  obtain g where g: "pin (db_csn s) = (current (db_csn s), g)" "cg_next g = cg_next (db_csn s)" by (simp add: pin_def Let_def snapshot_def)
  let ?s = "s\<lparr>db_csn := g\<rparr>"
  have same: "same_rows db_schema db_current (db_room A) k s ?s" by (rule db_clock [OF a g(2)])
  have cur: "current (db_csn ?s) = current (db_csn s)" using g(2) by (simp add: current_def)
  obtain rs s3 where rs: "read_table (database_backend A) n (scan_rows A (current (db_csn s))) ?s = Some (rs, s3)" "mset rs = db_current n s"
    "same_rows db_schema db_current (db_room A) k s s3"
    using scan_rows_ok [of A k ?s n S, unfolded cur] same S unfolding same_rows_def by fastforce
  have "be_table (database_backend A) n s = Some (Inr t, s)" "be_pin (database_backend A) s = Some (current (db_csn s), ?s)"
    using g(1) t(1) by (simp_all add: database_backend_def db_pin_def)
  moreover have "same_rows db_schema db_current (db_room A) k s s" using a by (simp add: same_rows_def)
  ultimately show ?thesis using t(2) rs same by blast
qed

lemma db_unpin_law: "db_room A k s \<Longrightarrow> same_rows db_schema db_current (db_room A) k s (be_unpin (database_backend A) c s)"
  using db_clock [of A k s "release c (db_csn s)"] by (simp add: database_backend_def db_release_def release_def split: option.split)

lemma now_next:
  assumes "table_ok f t" "can_write t"
  shows "view (cg_next (tb_csn t)) (abs_kill (tb_ki t) key (cg_next (tb_csn t)) (tb_versions t)) = filter_mset (\<lambda>r. r ! tb_ki t \<noteq> key) (view (tb_now t) (tb_versions t))"
    "view (cg_next (tb_csn t)) (abs_put (tb_ki t) r (cg_next (tb_csn t)) (tb_versions t)) =
       add_mset r (filter_mset (\<lambda>q. q ! tb_ki t \<noteq> r ! tb_ki t) (view (tb_now t) (tb_versions t)))"
  using view_kill_now [OF table_okD(3) [OF assms(1)] clock_facts(1,2) [OF assms]] view_put_now [OF table_okD(3) [OF assms(1)] clock_facts(1,2) [OF assms]]
  by (simp_all add: tb_versions_def)

lemma on_table_ok: "db_table n s = Inr t \<Longrightarrow> on_table n f s = map_option (\<lambda>(res, t'). (res, db_store n t' s)) (f t)"
  by (cases "f t") (auto simp: on_table_def)

lemma db_delete_law:
  assumes a: "db_room A (Suc k) s" "db_schema n s = Some S" "key \<in> col_values (key_ty S)"
  shows "\<exists>res s'. be_delete (database_backend A) n key s = Some (res, s') \<and>
      rows_become db_schema db_current (db_room A) k n (filter_mset (\<lambda>r. key_of S r \<noteq> key) (db_current n s)) s s' \<and>
      ((\<exists>c. res = Inr c) \<longleftrightarrow> (\<exists>r \<in># db_current n s. key_of S r = key))"
proof -
  obtain f t where t: "db_ok f s" "db_table n s = Inr t" "table_ok f t" "tb_schema t = S" "tb_csn t = db_csn s"
    "db_current n s = view (tb_now t) (tb_versions t)" "can_write t"
    by (rule db_get [OF a(1,2)]) (rule that, simp_all)
  have key: "key \<in> tb_keys t" using a(3) t(4) by simp
  have be: "be_delete (database_backend A) n key s = map_option (\<lambda>(res, t'). (res, db_store n t' s)) (tb_delete key t)"
    by (simp add: database_backend_def on_table_ok [OF t(2)])
  obtain t' where d: "if live t key
    then tb_delete key t = Some (Inr (cg_next (tb_csn t)), t') \<and> written f t (abs_kill (tb_ki t) key (cg_next (tb_csn t)) (tb_versions t)) t'
    else tb_delete key t = Some (Inl (KeyNotFound (render key)), t') \<and> untouched f t t'"
    using delete_ok [OF t(3,7) key] by blast
  show ?thesis
  proof (cases "live t key")
    case True
    then have w: "tb_delete key t = Some (Inr (cg_next (tb_csn t)), t')" "written f t (abs_kill (tb_ki t) key (cg_next (tb_csn t)) (tb_versions t)) t'"
      using d by simp_all
    show ?thesis using db_written [OF a(1) t(1,2) w(2) one_part_delete [OF w(1)]] be w(1) True
      by (simp add: now_next [OF t(3,7), unfolded t(4)] t(4,5,6) live_iff flip: t(5))
  next
    case False
    then have w: "tb_delete key t = Some (Inl (KeyNotFound (render key)), t')" "untouched f t t'" using d by simp_all
    have none: "\<forall>r \<in># db_current n s. key_of S r \<noteq> key" using False by (simp add: live_iff t(4,6))
    then have "filter_mset (\<lambda>r. key_of S r \<noteq> key) (db_current n s) = db_current n s" by (simp add: filter_mset_eq_conv)
    then show ?thesis using db_untouched [OF a(1) t(1,2) w(2)] mem_room [of A 1 k] be w(1) none
      by (auto simp: same_rows_def rows_become_def)
  qed
qed

lemma db_update_law:
  assumes a: "db_room A (Suc k) s" "db_schema n s = Some S" "row_ok S r" "\<exists>q \<in># db_current n s. key_of S q = key_of S r"
  shows "\<exists>c s'. be_update (database_backend A) n r s = Some (Inr c, s') \<and>
      rows_become db_schema db_current (db_room A) k n (add_mset r (filter_mset (\<lambda>q. key_of S q \<noteq> key_of S r) (db_current n s))) s s'"
proof -
  obtain f t where t: "db_ok f s" "db_table n s = Inr t" "table_ok f t" "tb_schema t = S" "tb_csn t = db_csn s"
    "db_current n s = view (tb_now t) (tb_versions t)" "can_write t"
    by (rule db_get [OF a(1,2)]) (rule that, simp_all)
  have A: "arrow_ok A" using a(1) by (simp add: db_room_def)
  have be: "be_update (database_backend A) n r s = map_option (\<lambda>(res, t'). (res, db_store n t' s)) (tb_update A r t)"
    by (simp add: database_backend_def on_table_ok [OF t(2)])
  have "live t (r ! tb_ki t)" using a(4) by (simp add: live_iff t(4,6))
  then obtain t' where w: "tb_update A r t = Some (Inr (cg_next (tb_csn t)), t')" "written f t (abs_put (tb_ki t) r (cg_next (tb_csn t)) (tb_versions t)) t'"
    using update_ok [OF A t(3,7), of r] a(3) unfolding t(4) by auto
  show ?thesis using db_written [OF a(1) t(1,2) w(2) one_part_update [OF w(1)]] be w(1)
    by (simp add: now_next [OF t(3,7), unfolded t(4)] t(4,5,6) flip: t(5))
qed

lemma db_insert_law:
  assumes a: "db_room A (Suc k) s" "db_schema n s = Some S" "\<not> sc_synthetic_key S" "row_ok S r"
  shows "\<exists>res s'. be_insert (database_backend A) n r s = Some (res, s') \<and>
      (if \<exists>q \<in># db_current n s. key_of S q = key_of S r
       then res = Inl (DuplicateKey (render (key_of S r))) \<and> same_rows db_schema db_current (db_room A) k s s'
       else (\<exists>c. res = Inr c) \<and> rows_become db_schema db_current (db_room A) k n (add_mset r (db_current n s)) s s')"
proof -
  obtain f t where t: "db_ok f s" "db_table n s = Inr t" "table_ok f t" "tb_schema t = S" "tb_csn t = db_csn s"
    "db_current n s = view (tb_now t) (tb_versions t)" "can_write t"
    by (rule db_get [OF a(1,2)]) (rule that, simp_all)
  have A: "arrow_ok A" using a(1) by (simp add: db_room_def)
  have be: "be_insert (database_backend A) n r s = map_option (\<lambda>(res, t'). (res, db_store n t' s)) (tb_insert A r t)"
    by (simp add: database_backend_def on_table_ok [OF t(2)])
  have sr: "stored_row t r = r" using a(3) t(4) by (simp add: stored_row_def fill_rowid_def)
  have row: "row_ok (tb_schema t) r" using a(4) t(4) by simp
  obtain t' where d: "if live t (r ! tb_ki t)
    then tb_insert A r t = Some (Inl (DuplicateKey (render (r ! tb_ki t))), t') \<and> untouched f t t'
    else tb_insert A r t = Some (Inr (cg_next (tb_csn t)), t') \<and> written f t (abs_put (tb_ki t) r (cg_next (tb_csn t)) (tb_versions t)) t'"
    using insert_returning_ok [OF A t(3,7) row] by (auto simp: sr insert_eq_returning split: if_splits)
  have lv: "live t (r ! tb_ki t) \<longleftrightarrow> (\<exists>q \<in># db_current n s. key_of S q = key_of S r)" by (simp add: live_iff t(4,6))
  show ?thesis
  proof (cases "live t (r ! tb_ki t)")
    case True
    then have w: "tb_insert A r t = Some (Inl (DuplicateKey (render (r ! tb_ki t))), t')" "untouched f t t'" using d by simp_all
    show ?thesis using db_untouched [OF a(1) t(1,2) w(2)] mem_room [of A 1 k] be w(1) True lv t(4) by (auto simp: same_rows_def)
  next
    case False
    then have w: "tb_insert A r t = Some (Inr (cg_next (tb_csn t)), t')" "written f t (abs_put (tb_ki t) r (cg_next (tb_csn t)) (tb_versions t)) t'"
      using d by simp_all
    have none: "\<forall>q \<in># db_current n s. key_of S q \<noteq> key_of S r" using False lv by blast
    then have "filter_mset (\<lambda>q. key_of S q \<noteq> key_of S r) (db_current n s) = db_current n s" by (simp add: filter_mset_eq_conv)
    then show ?thesis using db_written [OF a(1) t(1,2) w(2) one_part_insert [OF w(1)]] be w(1) none
      by (auto simp: now_next [OF t(3,7), unfolded t(4)] t(4,6) simp flip: t(5))
  qed
qed

interpretation mem: dml_backend A "database_backend A" db_schema db_current "db_room A" for A
proof unfold_locales
  fix j k :: nat and s :: database
  assume "db_room A (j + k) s"
  then show "db_room A k s" by (rule mem_room)
next
  fix k n s S r
  assume a: "db_room A k s" "db_schema n s = Some S" "r \<in># db_current n s"
  obtain f t where t: "table_ok f t" "tb_schema t = S" "db_current n s = view (tb_now t) (tb_versions t)"
    by (rule db_get [OF a(1,2)]) (rule that, assumption+)
  have "arrow_ok A" using a(1) by (simp add: db_room_def)
  then show "row_ok S r" using view_row_ok [OF _ t(1) table_okD(4) [OF t(1)]] a(3) t(2,3) by metis
next
  fix k n s S key
  assume a: "db_room A k s" "db_schema n s = Some S"
  obtain f t where t: "table_ok f t" "tb_schema t = S" "db_current n s = view (tb_now t) (tb_versions t)"
    by (rule db_get [OF a]) (rule that, assumption+)
  note D = table_okD [OF t(1)]
  have "sc_key_index S < arity S" using D(1) t(2) by (auto simp: inner_ok_def schema_ok_def arity_def)
  moreover have "size (filter_mset (\<lambda>r. r ! sc_key_index S = key) (db_current n s)) \<le> 1"
    using D(3,5) t(2) unfolding t(3) by (simp add: size_seen_view [symmetric] store_ok_def tb_versions_def)
  ultimately show "sc_key_index S < arity S \<and> size (filter_mset (\<lambda>r. r ! sc_key_index S = key) (db_current n s)) \<le> 1" ..
next
  fix k n s S
  assume "db_room A k s" "db_schema n s = Some S"
  then show "\<exists>t s1 c s2 rs s3. be_table (database_backend A) n s = Some (Inr t, s1) \<and> tb_schema t = S \<and> be_pin (database_backend A) s1 = Some (c, s2) \<and>
      read_table (database_backend A) n (scan_rows A c) s2 = Some (rs, s3) \<and> mset rs = db_current n s \<and>
      same_rows db_schema db_current (db_room A) k s s1 \<and> same_rows db_schema db_current (db_room A) k s s2 \<and>
      same_rows db_schema db_current (db_room A) k s s3" by (rule db_open_law)
next
  fix k s c
  assume "db_room A k s"
  then show "same_rows db_schema db_current (db_room A) k s (be_unpin (database_backend A) c s)" by (rule db_unpin_law)
next
  fix k n s S key
  assume "db_room A (Suc k) s" "db_schema n s = Some S" "key \<in> col_values (key_ty S)"
  then show "\<exists>res s'. be_delete (database_backend A) n key s = Some (res, s') \<and>
      rows_become db_schema db_current (db_room A) k n (filter_mset (\<lambda>r. key_of S r \<noteq> key) (db_current n s)) s s' \<and>
      ((\<exists>c. res = Inr c) \<longleftrightarrow> (\<exists>r \<in># db_current n s. key_of S r = key))" by (rule db_delete_law)
next
  fix k n s S r
  assume "db_room A (Suc k) s" "db_schema n s = Some S" "row_ok S r" "\<exists>q \<in># db_current n s. key_of S q = key_of S r"
  then show "\<exists>c s'. be_update (database_backend A) n r s = Some (Inr c, s') \<and>
      rows_become db_schema db_current (db_room A) k n (add_mset r (filter_mset (\<lambda>q. key_of S q \<noteq> key_of S r) (db_current n s))) s s'"
    by (rule db_update_law)
next
  fix k n s S r
  assume "db_room A (Suc k) s" "db_schema n s = Some S" "\<not> sc_synthetic_key S" "row_ok S r"
  then show "\<exists>res s'. be_insert (database_backend A) n r s = Some (res, s') \<and>
      (if \<exists>q \<in># db_current n s. key_of S q = key_of S r
       then res = Inl (DuplicateKey (render (key_of S r))) \<and> same_rows db_schema db_current (db_room A) k s s'
       else (\<exists>c. res = Inr c) \<and> rows_become db_schema db_current (db_room A) k n (add_mset r (db_current n s)) s s')"
    by (rule db_insert_law)
qed

section \<open>Properties\<close>

text \<open>A catalog with one empty table, and the same with one row, for the examples.\<close>

definition blank_db :: database where
  "blank_db = fresh_table ''t'' sample_schema (with_config default_config)"

lemma blank_room: "k < 2 ^ 63 \<Longrightarrow> db_room ref_arrow k blank_db" "db_schema ''t'' blank_db = Some sample_schema" "db_current n blank_db = {#}"
proof -
  have g: "good_schema sample_schema" using sample_schema_ok sample_not_synthetic by (simp add: good_schema_def)
  have c: "db_ok 0 (with_config default_config)" by (rule with_config_ok) (simp add: default_config_def)
  have ok: "db_ok 0 blank_db" unfolding blank_db_def by (rule fresh_table_ok [OF c g])
  have get: "bt_get str_cmp n (db_tables blank_db) = (if n = ''t'' then Some sample_table else None)" for n
  proof -
    have b: "db_tables blank_db = bt_insert str_cmp ''t'' sample_table []" by (simp add: blank_db_def fresh_table_def with_config_def sample_table_def)
    show ?thesis unfolding b by (subst bt_get_str) simp_all
  qed
  have v: "db_versions n blank_db = {#}" for n by (simp add: db_versions_def get sample_table_facts)
  show "db_schema ''t'' blank_db = Some sample_schema" "db_current n blank_db = {#}"
    by (simp_all add: db_schema_def db_current_def get v sample_table_facts view_def)
  show "db_room ref_arrow k blank_db" if "k < 2 ^ 63"
  proof -
    have "cg_next (db_csn blank_db) = 1" by (simp add: blank_db_def fresh_table_def with_config_def csn_new_def FIRST_CSN_def)
    moreover have "ti_next_part_id (tb_inner sample_table) = 0" by (simp add: sample_table_def table_new_def)
    ultimately show ?thesis unfolding db_room_def using ok that arrow_ok_ref by (auto simp: get split: if_splits)
  qed
qed

lemma one_row_db:
  obtains db where "insert_each (be_insert (database_backend ref_arrow)) ''t'' [sample_row] blank_db = Some (Inr (), db)"
    "db_room ref_arrow 9 db" "db_schema ''t'' db = Some sample_schema" "db_current ''t'' db = {#sample_row#}"
proof -
  have r: "\<forall>r \<in> set [sample_row]. row_ok sample_schema r" using sample_schema_ok(3) by simp
  have k: "db_room ref_arrow (9 + length [sample_row]) blank_db" by (rule blank_room(1)) simp
  from mem.insert_each_ok [OF k blank_room(2) sample_not_synthetic r]
  obtain pre post res db where i: "[sample_row] = pre @ post" "insert_each (be_insert (database_backend ref_arrow)) ''t'' [sample_row] blank_db = Some (res, db)"
    "rows_become db_schema db_current (db_room ref_arrow) 9 ''t'' (db_current ''t'' blank_db + mset pre) blank_db db"
    "case post of [] \<Rightarrow> res = Inr () | r # _ \<Rightarrow> res = Inl (DuplicateKey (render (key_of sample_schema r))) \<and> (\<exists>q \<in># db_current ''t'' blank_db + mset pre. key_of sample_schema q = key_of sample_schema r)"
    by (elim exE conjE) (rule that)
  have "post = [] \<and> pre = [sample_row] \<and> res = Inr ()" using i(1,4) blank_room(3) by (cases pre) auto
  then show ?thesis using that [of db] i(2,3) blank_room(2,3) by (simp add: rows_become_def)
qed

text \<open>
  C12. DELETE ... WHERE removes exactly the rows that satisfy the predicate: on a well-formed in-memory catalog with room for the writes, a typed
  predicate leaves in the table the current rows that it does not accept, and the count reported is the number of those it does; every other
  table and all schemas are as before.
\<close>

theorem delete_where_exact:
  assumes "db_room A (k + size (filter_mset (row_passes f) (db_current n db))) db" "db_schema n db = Some S" "safe_filter S f"
  shows "\<exists>db'. execute A sel pc (database_backend A) (PDelete n f) db =
      Some (Inr (Affected (size (filter_mset (row_passes f) (db_current n db)))), db') \<and>
    db_room A k db' \<and> (\<forall>m. db_schema m db' = db_schema m db) \<and>
    (\<forall>m. db_current m db' = (if m = n then filter_mset (\<lambda>r. \<not> row_passes f r) (db_current n db) else db_current m db))"
  using mem.exec_delete_ok [OF assms] by (simp add: rows_become_def)

theorem delete_where_exact_witness:
  "\<exists>db db'. insert_each (be_insert (database_backend ref_arrow)) ''t'' [[VInt 10, VText ''x'']] blank_db = Some (Inr (), db) \<and>
     execute ref_arrow (\<lambda>c k xs. sort_by c xs) (\<lambda>_. Inr []) (database_backend ref_arrow) (PDelete ''t'' (Some sample_pred)) db = Some (Inr (Affected 1), db') \<and>
     db_current ''t'' db' = {#}"
proof -
  obtain db where db: "insert_each (be_insert (database_backend ref_arrow)) ''t'' [sample_row] blank_db = Some (Inr (), db)"
    "db_room ref_arrow 9 db" "db_schema ''t'' db = Some sample_schema" "db_current ''t'' db = {#sample_row#}"
    by (rule one_row_db)
  show ?thesis
    using db delete_where_exact [of ref_arrow 8 "Some sample_pred" "''t''" db sample_schema sort_selector "\<lambda>_. Inr []"] sample_pred_ok(1) sample_pred_true by auto
qed



text \<open>
  C14. INSERT of several rows is not atomic: the rows go in from the left up to the first whose key is taken, by a row of the table or an earlier one of the
  statement; then the statement reports DuplicateKey and the rows before it stay.  The keys of the rows that went in are distinct and new to the table; without a taken key all are inserted and their number is reported.
\<close>

theorem insert_prefix_exact:
  assumes "db_room A (k + length rs) db" "db_schema n db = Some S" "\<not> sc_synthetic_key S" "\<forall>r \<in> set rs. row_ok S r"
  shows "\<exists>pre post res db'. rs = pre @ post \<and> execute A sel pc (database_backend A) (PInsert n rs) db = Some (res, db') \<and>
    (\<forall>m. db_schema m db' = db_schema m db) \<and> (\<forall>m. db_current m db' = (if m = n then db_current n db + mset pre else db_current m db)) \<and>
    distinct (map (key_of S) pre) \<and> (\<forall>q \<in># db_current n db. key_of S q \<notin> key_of S ` set pre) \<and>
    (case post of [] \<Rightarrow> res = Inr (Affected (length rs))
     | r # _ \<Rightarrow> res = Inl (DuplicateKey (render (key_of S r))) \<and> (\<exists>q \<in># db_current n db + mset pre. key_of S q = key_of S r))"
proof -
  obtain pre post res db' where i: "rs = pre @ post" "insert_each (be_insert (database_backend A)) n rs db = Some (res, db')"
    "rows_become db_schema db_current (db_room A) k n (db_current n db + mset pre) db db'"
    "distinct (map (key_of S) pre) \<and> (\<forall>q \<in># db_current n db. key_of S q \<notin> key_of S ` set pre)"
    "case post of [] \<Rightarrow> res = Inr ()
     | r # _ \<Rightarrow> res = Inl (DuplicateKey (render (key_of S r))) \<and> (\<exists>q \<in># db_current n db + mset pre. key_of S q = key_of S r)"
    using mem.insert_each_ok [OF assms] by blast
  have "execute A sel pc (database_backend A) (PInsert n rs) db = Some (map_sum id (\<lambda>_. Affected (length rs)) res, db')"
    using i(2) by (simp add: exec_insert_def)
  then show ?thesis using i(1,3,4,5) by (intro exI [of _ pre] exI [of _ post] exI [of _ "map_sum id (\<lambda>_. Affected (length rs)) res"] exI [of _ db'])
    (auto simp: rows_become_def split: list.splits)
qed

theorem insert_prefix_exact_witness:
  "\<exists>db'. execute ref_arrow (\<lambda>c k xs. sort_by c xs) (\<lambda>_. Inr []) (database_backend ref_arrow) (PInsert ''t'' [[VInt 10, VText ''x''], [VInt 10, VText ''x'']]) blank_db =
      Some (Inl (DuplicateKey ''10''), db') \<and> db_current ''t'' db' = {#[VInt 10, VText ''x'']#}"
proof -
  have r: "\<forall>r \<in> set [sample_row, sample_row]. row_ok sample_schema r" using sample_schema_ok(3) by simp
  have k: "db_room ref_arrow (9 + length [sample_row, sample_row]) blank_db" by (rule blank_room(1)) simp
  from insert_prefix_exact [OF k blank_room(2) sample_not_synthetic r, of sort_selector "\<lambda>_. Inr []"]
  obtain pre post res db' where i: "[sample_row, sample_row] = pre @ post"
    "execute ref_arrow (\<lambda>c k xs. sort_by c xs) (\<lambda>_. Inr []) (database_backend ref_arrow) (PInsert ''t'' [sample_row, sample_row]) blank_db = Some (res, db')"
    "\<forall>m. db_current m db' = (if m = ''t'' then db_current ''t'' blank_db + mset pre else db_current m blank_db)"
    "distinct (map (key_of sample_schema) pre)"
    "case post of [] \<Rightarrow> res = Inr (Affected (length [sample_row, sample_row]))
     | r # _ \<Rightarrow> res = Inl (DuplicateKey (render (key_of sample_schema r))) \<and> (\<exists>q \<in># db_current ''t'' blank_db + mset pre. key_of sample_schema q = key_of sample_schema r)"
    by (elim exE conjE) (rule that)
  have key: "key_of sample_schema sample_row = VInt 10" by (simp add: sample_schema_ok(5))
  have "pre = [] \<or> pre = [sample_row] \<or> pre = [sample_row, sample_row]" using i(1) by (auto simp: Cons_eq_append_conv)
  then have "pre = [sample_row]" using i(1,4,5) blank_room(3) by auto
  moreover from this have "post = [sample_row]" using i(1) by simp
  moreover have "render (VInt 10) = ''10''" by code_simp
  ultimately show ?thesis using i(2,3,5) blank_room(3) key by auto
qed

end
