(* ===== verification/Spec2Isabelle.thy ===== *)
theory Spec2Isabelle
  imports Ck_Isolation Ck_WalRace Ck_Manifest Ck_Pager Ck_Backpressure Ck_Backup Ck_Durable Ck_DmlOk
begin

text \<open>
  A model of the ChakraDB storage engine (\<open>src/src\<close>), with the theorems that make it correct.

  \<^bold>\<open>The program.\<close>  ChakraDB keeps named tables with a primary key under multi-version concurrency control.  Writes go to a row-oriented buffer (L0); a full
  buffer is sealed into an immutable, sorted, columnar part; deletes and updates put tombstones on the versions they close; compaction merges
  parts and reclaims versions that no live snapshot can see.  Every version carries the commit numbers of its creation and deletion, and a snapshot
  is a commit number.  For durability each write is appended to a write-ahead log before it is acknowledged, parts are written to files, and a manifest
  names the parts of each table; recovery loads the manifest, registers the parts lazily and replays the log.

  \<^bold>\<open>Theories and sources.\<close>

  \<^item> \<open>Ck_Prelude\<close>: machine integers, comparison results, stable sorting, ordered maps, and the locale \<open>cmp_order\<close>, the contract
    of a comparison function, with what sorted containers need of it.  \<open>Ck_Text\<close>, \<open>Ck_Float\<close>, \<open>Ck_FloatArith\<close>: the string and \<open>f64\<close> operations of the standard library that the engine uses.
  \<^item> \<open>Ck_Value\<close> (\<open>value.rs\<close>), \<open>Ck_Schema\<close> (\<open>schema.rs\<close>, \<open>error.rs\<close>): types, values, their order, decimal and calendar arithmetic, parsing and rendering; columns, schemas, admission checks.
  \<^item> \<open>Ck_Csn\<close> (\<open>csn.rs\<close>): the commit clock, snapshots, pins and the reclamation horizon.  \<open>Ck_DeleteVector\<close>, \<open>Ck_Bloom\<close>, \<open>Ck_Metrics\<close>: the files of those names.
  \<^item> \<open>Ck_Batch\<close> (\<open>batch.rs\<close>), \<open>Ck_L0\<close> (\<open>l0.rs\<close>), \<open>Ck_Part\<close> (\<open>part.rs\<close>), \<open>Ck_Compaction\<close> (\<open>compaction.rs\<close>): the tiers of a table.
  \<^item> \<open>Ck_Mvcc\<close>: the abstract store, a multiset of versions with put and kill, and the locale \<open>snapshot_store\<close>.  \<open>Ck_Table\<close> (\<open>table.rs\<close>) and \<open>Ck_TableOk\<close>: the
    table's operations and their refinement of the abstract store.  \<open>Ck_Isolation\<close>: interleavings of writers, readers and a two-phase merge.
    \<open>Ck_Database\<close> (\<open>database.rs\<close>): the catalog of tables that share one clock.  \<open>Ck_Backpressure\<close> (\<open>backpressure.rs\<close>): the write throttle.
  \<^item> \<open>Ck_Codec\<close> (\<open>codec.rs\<close>): encoders, decoders, checksum, frames, with the locale \<open>prefix_codec\<close>.  \<open>Ck_Log\<close>: the loop that reads framed logs, with the locale \<open>framed_log\<close>.
  \<^item> \<open>Ck_Io\<close> (\<open>io.rs\<close>): the file system with faults and power loss.  \<open>Ck_Durability\<close> (\<open>durability.rs\<close>): modes and the group-commit coordinator.
    \<open>Ck_Wal\<close> (\<open>wal.rs\<close>): the log.  \<open>Ck_WalRace\<close>: its concurrent committers.  \<open>Ck_Manifest\<close> (\<open>manifest.rs\<close>), \<open>Ck_Persist\<close> (\<open>persist.rs\<close>), \<open>Ck_Pager\<close> (\<open>pager.rs\<close>).
  \<^item> \<open>Ck_Storage\<close> (\<open>storage.rs\<close>, \<open>storage_config.rs\<close>, with what it calls of \<open>sql/backend.rs\<close>): the durable database, which composes the clock, the tables, the log, the
    manifest and the part files: open and recover, create, insert, update, delete, transactions, checkpoint.  \<open>Ck_Recovery\<close>: replay and its invariant.
    \<open>Ck_Checkpoint\<close>: the parts, tombstones and manifest a checkpoint writes.  \<open>Ck_Session\<close>: sequences of operations and restarts as a step relation, with its
    invariant.  \<open>Ck_Durable\<close>: the guarantees.  \<open>Ck_Backup\<close>: backup and restore.
  \<^item> \<open>Ck_Expr\<close> (\<open>sql/expr.rs\<close>, \<open>sql/value.rs\<close>): expressions, three-valued logic, the row and the columnar evaluator, zone-map pruning.
    \<open>Ck_Zones\<close>: the bounds that parts store (\<open>batch.rs\<close>, \<open>part.rs\<close>) are exact under every operation of a table.  \<open>Ck_Exec\<close> (\<open>sql/exec.rs\<close>): the execution of SELECT, with the
    shortcuts that skip the scan.  \<open>Ck_ExecOk\<close>: what a query returns, stated over the visible rows.
    \<open>Ck_Backend\<close> (\<open>sql/backend.rs\<close>, \<open>sql/exec.rs\<close>): the catalog interface as a record of operations, with the in-memory and the durable catalog, and the statements over it.
    \<open>Ck_Dml\<close>: the locale \<open>dml_backend\<close>, the contract of a catalog, and what statements do to its rows.  \<open>Ck_DmlOk\<close>: the in-memory catalog meets the contract.

  \<^bold>\<open>Conventions.\<close>  A struct is a record, an enum a datatype, \<open>usize\<close> and file offsets are \<^typ>\<open>nat\<close>, fixed-width integers are words and wrap as in a release build,
  \<open>f64\<close> is its bit pattern.  A panic is \<^const>\<open>None\<close>, an error the left injection of a sum.  A method that takes a lock for its whole body is one atomic
  step.  External code is a parameter: the Arrow kernels (record \<open>arrow\<close>, contract \<open>arrow_ok\<close>, model \<open>ref_arrow\<close>) and the Arrow stream format
  (record \<open>ipc\<close>, contract \<open>ipc_ok\<close>, model \<open>ref_ipc\<close>), and the selection algorithm of the standard library (contract \<open>selector_ok\<close>, model \<open>sort_by\<close>).

  \<^bold>\<open>What is shown.\<close>  Values: the stored values of a column are linearly ordered; calendar, decimal and text conversions invert each other.  Tiers: sealing, lookup, scan and
  compaction agree with reference definitions over row versions.  Tables: each write refines put or kill on the abstract store, reads return exactly the visible
  rows, and under every interleaving a pinned snapshot keeps its rows, which writes to other tables of the catalog do not change.  Logs and files: encodings are prefix codecs; a log
  cut anywhere replays to its longest intact prefix; an acknowledged append survives power loss, alone and under every interleaving of group commit, which also cannot deadlock;
  the manifest returns the last committed catalog; part files return the versions written and tombstone appends are atomic; paging is invisible to lookups.
  The durable database: after any sequence of writes, transactions, checkpoints and restarts, power loss and recovery give back the committed rows of each table; an acknowledged write
  is among them; a transaction is recovered whole or not at all; a checkpoint changes no row; a backup restores the rows of its source.
  Expressions: typed expressions do not panic and yield a value of their kind; the two evaluators agree; pruning drops no matching row.
  Queries: SELECT returns exactly the selected rows on every path; ORDER BY with a limit returns the first rows in order; GROUP BY returns one row per key with aggregates that mean what SQL
  says, and the metadata shortcuts agree with it; the zone maps stay exact.
  Statements: DELETE and UPDATE change exactly the selected rows, UPDATE is all or nothing on constraints, INSERT keeps the rows before a duplicate.
  Further theorems show what the code loses or refuses: a restart on a torn tail, a truncation that meets a sync in flight, the integer quotient that panics.

  \<^bold>\<open>Bounds.\<close>  Hypotheses exclude what no run reaches or the format cannot hold: the last commit number \<open>NEVER_DELETED\<close>, $2^{64}$ writes to one file (\<open>mf_fresh\<close>, \<open>mf_room\<close>,
  \<open>io_room\<close>, \<open>checkpoint_room\<close>, \<open>txn_room\<close>), payloads and counts of $2^{32}$ or more in one frame (\<open>rec_fits\<close>), parts of $2^{32}$ rows.  The only fuelled functions are the
  trimming loops of \<open>Ck_Text\<close>, which get the length of the string; the copy loops of \<open>Ck_Backup\<close> are partial functions, shown to return.

  \<^bold>\<open>Not modelled.\<close>  Change data capture, the transaction overlay of \<open>sql/txn.rs\<close>, graph queries, the wall clock and random numbers.  COPY reads a file of the host.  The SQL planner works on the syntax trees of an
  external parser.  The POSIX file system is system calls behind the interface of \<open>io.rs\<close>; the DataFusion bridge, the benchmarks and the crate root are glue.  Memory estimates and
  report structures are left out.
\<close>

end
